(* ===== verification/Prelude.thy ===== *)
theory Prelude
  imports Main "HOL-Library.Word" "HOL-Library.Char_ord" "HOL-Library.List_Lexorder"
begin

text \<open>
  The vocabulary every component shares: the C integer types, C strings as lists of bytes,
  the truth value of \<open>x & f\<close>, and the generic facts about them.

  A C string is a \<open>char list\<close>; the terminating NUL is not an element, so \<open>c0 s\<close>, the byte
  the pointer \<open>s\<close> points at, is NUL when the list is empty.
\<close>

unbundle bit_operations_syntax

named_theorems flag_bits \<open>bit-level reading of a flag test\<close>
named_theorems cstr \<open>facts about C strings\<close>

type_synonym uchar = "8 word"
type_synonym int32 = "32 word"
type_synonym intptr = "64 word"

section \<open>Bit flags\<close>

text \<open>C's truth value of \<open>x & f\<close>.\<close>

definition has :: "'a::len word \<Rightarrow> 'a word \<Rightarrow> bool" where
  "has x f \<longleftrightarrow> x AND f \<noteq> 0"

lemma has_bit: "has x f \<longleftrightarrow> (\<exists>n. bit x n \<and> bit f n)"
  by (auto simp: has_def bit_eq_iff bit_and_iff dest: bit_imp_le_length)

lemma has_zero [simp]: "has 0 f \<longleftrightarrow> False" "has x 0 \<longleftrightarrow> False"
  by (simp_all add: has_def)

lemma has_or_mask [flag_bits]: "has x (f OR g) \<longleftrightarrow> has x f \<or> has x g"
  by (auto simp: has_bit bit_or_iff)

lemma has_or: "has (x OR y) f \<longleftrightarrow> has x f \<or> has y f"
  by (auto simp: has_bit bit_or_iff)

text \<open>A test of a one-bit flag reads that bit.\<close>

lemma has_exp: "has x (2 ^ k) \<longleftrightarrow> bit x k"
  by (auto simp: has_bit bit_simps dest: bit_imp_le_length)

lemma bit_word_or [flag_bits]: "bit (x OR y :: 'a::len word) n \<longleftrightarrow> bit x n \<or> bit y n"
  by (simp add: bit_or_iff)

lemma bit_word_not [flag_bits]:
  "bit (NOT y :: 'a::len word) n \<longleftrightarrow> n < LENGTH('a) \<and> \<not> bit y n"
  by (auto simp: bit_not_iff_eq)

lemma flag_at:
  "f = 2 ^ k \<Longrightarrow> k < LENGTH('a) \<Longrightarrow>
     (bit (f :: 'a::len word) n \<longleftrightarrow> n = k) \<and> (has x f \<longleftrightarrow> bit x k)"
  by (auto simp: has_exp bit_simps)

lemma bit_word_and [flag_bits]: "bit (x AND y :: 'a::len word) n \<longleftrightarrow> bit x n \<and> bit y n"
  by (simp add: bit_and_iff)

section \<open>C strings\<close>

abbreviation NUL :: char where "NUL \<equiv> CHR 0x00"

text \<open>The byte a \<open>char *\<close> points at.\<close>

definition c0 :: "string \<Rightarrow> char" where
  "c0 s = (case s of [] \<Rightarrow> NUL | c # _ \<Rightarrow> c)"

lemma c0_simps [simp, code]: "c0 [] = NUL" "c0 (c # s) = c"
  by (simp_all add: c0_def)

text \<open>A list that really is a C string: no NUL inside.\<close>

definition cstring :: "string \<Rightarrow> bool" where
  "cstring s \<longleftrightarrow> NUL \<notin> set s"

lemma cstring_simps [simp]:
  "cstring []" "cstring (c # s) \<longleftrightarrow> c \<noteq> NUL \<and> cstring s"
  "cstring (s @ t) \<longleftrightarrow> cstring s \<and> cstring t"
  by (auto simp: cstring_def)

lemma c0_eq_NUL: "cstring s \<Longrightarrow> c0 s = NUL \<longleftrightarrow> s = []"
  by (cases s) auto

abbreviation uc :: "char \<Rightarrow> nat" where "uc c \<equiv> of_char c"

lemma uc_NUL [simp]: "uc NUL = 0"
  by simp

lemma uc_less [simp]: "uc c < 256"
  using of_char_mod_256 [where c = c and 'a = nat] by (metis mod_less_divisor zero_less_numeral)

lemma uc_pos [simp]: "0 < uc c \<longleftrightarrow> c \<noteq> NUL"
  by (metis neq0_conv of_char_eq_iff uc_NUL)

lemma uc_eq_iff: "c = d \<longleftrightarrow> uc c = uc d"
  by simp

text \<open>The byte of a character as an \<open>unsigned char\<close>, and back.\<close>

definition uchar_of :: "char \<Rightarrow> uchar" where
  "uchar_of c = of_nat (uc c)"

definition char_of_uchar :: "uchar \<Rightarrow> char" where
  "char_of_uchar w = char_of (unat w)"

lemma unat_uchar_of [simp]: "unat (uchar_of c) = uc c"
  using uc_less [of c] by (simp add: uchar_of_def unat_of_nat del: uc_less)

lemma uc_char_of_uchar [simp]: "uc (char_of_uchar w) = unat w"
  using unsigned_less [of w, where 'a = nat] by (simp add: char_of_uchar_def)

lemma unat_ucast_uchar [simp]: "unat (ucast (w :: uchar) :: 32 word) = unat w"
  using unsigned_less [of w, where 'a = nat] by (simp add: unsigned_ucast_eq take_bit_nat_eq_self)

end
