(* ===== verification/Rfc1459.thy ===== *)
theory Rfc1459
  imports Prelude
begin

text \<open>
  \<open>src/src/rfc1459.c\<close>: the RFC 1459 case mapping and the two string comparisons built on it,
  and the contract (\<open>name_compare\<close>) the rest of the bot relies on when it looks up nicks,
  handles and channel names with a comparison function.
\<close>

section \<open>Case mapping\<close>

text \<open>\<open>rfc_toupper_fast\<close>: the range test is an unsigned 32-bit subtraction that wraps.\<close>

definition rfc_toupper_fast :: "uchar \<Rightarrow> uchar" where
  "rfc_toupper_fast c =
     (let v = (ucast c :: 32 word) - 0x61
      in c - (if v \<le> 0x1D then push_bit 5 1 else 0))"

definition rfc_toupper :: "char \<Rightarrow> char" where
  "rfc_toupper c = char_of_uchar (rfc_toupper_fast (uchar_of c))"

text \<open>\<open>_rfc_tolower\<close>\<close>

definition rfc_tolower :: "char \<Rightarrow> char" where
  "rfc_tolower c =
     (let b = uchar_of c; v = (ucast b :: 32 word) - 0x41
      in char_of_uchar (b + (if v \<le> 0x1D then push_bit 5 1 else 0)))"

text \<open>The two lookup tables the file keeps for external callers.\<close>

definition rfc_touppertab :: "nat list" where
  "rfc_touppertab = [0..<97] @ [65..<95] @ [127..<256]"

definition rfc_tolowertab :: "nat list" where
  "rfc_tolowertab = [0..<65] @ [97..<127] @ [95..<256]"

section \<open>Comparison\<close>

fun rfc_casecmp :: "string \<Rightarrow> string \<Rightarrow> int" where
  "rfc_casecmp [] b =
     (let ua = rfc_toupper NUL; ub = rfc_toupper (c0 b)
      in if ua \<noteq> ub then int (uc ua) - int (uc ub) else 0)"
| "rfc_casecmp (x # a) b =
     (let ua = rfc_toupper x; ub = rfc_toupper (c0 b)
      in if ua \<noteq> ub then int (uc ua) - int (uc ub)
         else if x = NUL then 0
         else rfc_casecmp a (tl b))"

fun rfc_ncasecmp :: "string \<Rightarrow> string \<Rightarrow> nat \<Rightarrow> int" where
  "rfc_ncasecmp a b 0 = 0"
| "rfc_ncasecmp a b (Suc n) =
     (let ua = rfc_toupper (c0 a); ub = rfc_toupper (c0 b)
      in if ua \<noteq> ub then int (uc ua) - int (uc ub)
         else if c0 a = NUL then 0
         else rfc_ncasecmp (tl a) (tl b) n)"



text \<open>
  \<open>op_strcasecmp\<close> (\<open>src/libop/src/tools.c\<close>), which \<open>HOOK_RFC_CASECMP\<close> installs in place of
  \<open>_rfc_casecmp\<close> on networks that are not RFC 1459; \<open>tolower\<close> is the C library's in the C locale.
\<close>

definition tolower :: "char \<Rightarrow> char" where
  "tolower c = (if CHR ''A'' \<le> c \<and> c \<le> CHR ''Z'' then char_of (uc c + 32) else c)"

fun op_strcasecmp :: "string \<Rightarrow> string \<Rightarrow> int" where
  "op_strcasecmp [] b =
     (if tolower NUL = tolower (c0 b) then 0
      else int (uc (tolower NUL)) - int (uc (tolower (c0 b))))"
| "op_strcasecmp (x # a) b =
     (if tolower x = tolower (c0 b)
      then if x = NUL then 0 else op_strcasecmp a (tl b)
      else int (uc (tolower x)) - int (uc (tolower (c0 b))))"

section \<open>The contract of a name comparison\<close>

text \<open>
  What the bot relies on when it searches nicks, handles, bots and channels: the sign of the
  comparison is the lexicographic order of case-folded names.
\<close>

locale name_compare =
  fixes cmp :: "string \<Rightarrow> string \<Rightarrow> int"
    and canon :: "string \<Rightarrow> string"
  assumes cmp_eq0: "cstring a \<Longrightarrow> cstring b \<Longrightarrow> cmp a b = 0 \<longleftrightarrow> canon a = canon b"
    and cmp_less: "cstring a \<Longrightarrow> cstring b \<Longrightarrow> cmp a b < 0 \<longleftrightarrow> canon a < canon b"
begin

lemma cmp_refl: "cstring a \<Longrightarrow> cmp a a = 0"
  by (simp add: cmp_eq0)

lemma cmp_sym: "cstring a \<Longrightarrow> cstring b \<Longrightarrow> cmp a b = 0 \<Longrightarrow> cmp b a = 0"
  by (simp add: cmp_eq0)

lemma cmp_trans:
  "cstring a \<Longrightarrow> cstring b \<Longrightarrow> cstring c \<Longrightarrow> cmp a b = 0 \<Longrightarrow> cmp b c = 0 \<Longrightarrow> cmp a c = 0"
  by (simp add: cmp_eq0)

lemma cmp_le: "cstring a \<Longrightarrow> cstring b \<Longrightarrow> cmp a b \<le> 0 \<longleftrightarrow> canon a \<le> canon b"
  using cmp_eq0 [of a b] cmp_less [of a b] by (auto simp: order_le_less)

lemma cmp_antisym: "cstring a \<Longrightarrow> cstring b \<Longrightarrow> cmp a b < 0 \<longleftrightarrow> 0 < cmp b a"
  using cmp_le [of b a] cmp_less [of a b] by (auto simp: not_le [symmetric])

lemma cmp_le_trans:
  "cstring a \<Longrightarrow> cstring b \<Longrightarrow> cstring c \<Longrightarrow> cmp a b \<le> 0 \<Longrightarrow> cmp b c \<le> 0 \<Longrightarrow> cmp a c \<le> 0"
  by (auto simp: cmp_le)

end

section \<open>Arithmetic of the case maps\<close>

lemma unat_rfc_toupper_fast:
  "unat (rfc_toupper_fast c) = (if 97 \<le> unat c \<and> unat c \<le> 126 then unat c - 32 else unat c)"
proof -
  have "unat (ucast c :: 32 word) = unat c" by simp
  then show ?thesis
    unfolding rfc_toupper_fast_def Let_def by unat_arith auto
qed

lemma unat_lower_add:
  "unat ((c::uchar) + (if (ucast c :: 32 word) - 0x41 \<le> 0x1D then push_bit 5 1 else 0))
     = (if 65 \<le> unat c \<and> unat c \<le> 94 then unat c + 32 else unat c)"
proof -
  have "unat (ucast c :: 32 word) = unat c" by simp
  then show ?thesis by unat_arith auto
qed

lemma uc_rfc_toupper:
  "uc (rfc_toupper c) = (if 97 \<le> uc c \<and> uc c \<le> 126 then uc c - 32 else uc c)"
  by (simp add: rfc_toupper_def unat_rfc_toupper_fast)

lemma uc_rfc_tolower:
  "uc (rfc_tolower c) = (if 65 \<le> uc c \<and> uc c \<le> 94 then uc c + 32 else uc c)"
  by (simp add: rfc_tolower_def Let_def unat_lower_add)

lemma nth_touppertab:
  "n < 256 \<Longrightarrow> rfc_touppertab ! n = (if 97 \<le> n \<and> n \<le> 126 then n - 32 else n)"
  by (auto simp: rfc_touppertab_def nth_append simp del: upt_rec_numeral)

lemma nth_tolowertab:
  "n < 256 \<Longrightarrow> rfc_tolowertab ! n = (if 65 \<le> n \<and> n \<le> 94 then n + 32 else n)"
  by (auto simp: rfc_tolowertab_def nth_append simp del: upt_rec_numeral)

lemma rfc_toupper_idem [simp]: "rfc_toupper (rfc_toupper c) = rfc_toupper c"
  by (auto simp: uc_eq_iff uc_rfc_toupper)

lemma rfc_toupper_NUL [simp]:
  "rfc_toupper NUL = NUL" "rfc_toupper c = NUL \<longleftrightarrow> c = NUL" "NUL = rfc_toupper c \<longleftrightarrow> c = NUL"
  by (auto simp: uc_eq_iff uc_rfc_toupper)

lemma rfc_toupper_tolower: "rfc_toupper (rfc_tolower c) = rfc_toupper c"
  by (auto simp: uc_eq_iff uc_rfc_toupper uc_rfc_tolower)

lemma rfc_casecmp_eq0:
  "cstring a \<Longrightarrow> cstring b \<Longrightarrow>
     rfc_casecmp a b = 0 \<longleftrightarrow> map rfc_toupper a = map rfc_toupper b"
proof (induction a b rule: rfc_casecmp.induct)
  case (1 b)
  then show ?case by (cases b) (auto simp: Let_def uc_eq_iff [symmetric])
next
  case (2 x a b)
  then show ?case by (cases b) (auto simp: Let_def uc_eq_iff [symmetric])
qed

lemma uc_less_iff: "uc c < uc d \<longleftrightarrow> c < d"
  by (simp add: less_char_def)

lemma rfc_casecmp_less:
  "cstring a \<Longrightarrow> cstring b \<Longrightarrow>
     rfc_casecmp a b < 0 \<longleftrightarrow> map rfc_toupper a < map rfc_toupper b"
proof (induction a b rule: rfc_casecmp.induct)
  case (1 b)
  then show ?case by (cases b) (auto simp: Let_def)
next
  case (2 x a b)
  then show ?case by (cases b) (auto simp: Let_def uc_less_iff)
qed

lemma rfc_ncasecmp_eq0:
  "cstring a \<Longrightarrow> cstring b \<Longrightarrow>
     rfc_ncasecmp a b n = 0 \<longleftrightarrow> map rfc_toupper (take n a) = map rfc_toupper (take n b)"
proof (induction a b n rule: rfc_ncasecmp.induct)
  case (1 a b)
  then show ?case by simp
next
  case (2 a b n)
  then show ?case
    by (cases a; cases b) (auto simp: Let_def uc_eq_iff [symmetric])
qed

lemma uc_tolower:
  "uc (tolower c) = (if 65 \<le> uc c \<and> uc c \<le> 90 then uc c + 32 else uc c)"
  by (auto simp: tolower_def less_eq_char_def)

lemma tolower_NUL [simp]:
  "tolower NUL = NUL" "tolower c = NUL \<longleftrightarrow> c = NUL" "NUL = tolower c \<longleftrightarrow> c = NUL"
  by (auto simp: uc_eq_iff uc_tolower)

lemma op_strcasecmp_eq0:
  "cstring a \<Longrightarrow> cstring b \<Longrightarrow> op_strcasecmp a b = 0 \<longleftrightarrow> map tolower a = map tolower b"
proof (induction a b rule: op_strcasecmp.induct)
  case (1 b)
  then show ?case by (cases b) auto
next
  case (2 x a b)
  then show ?case by (cases b) (auto simp: uc_eq_iff [symmetric])
qed

lemma op_strcasecmp_less:
  "cstring a \<Longrightarrow> cstring b \<Longrightarrow> op_strcasecmp a b < 0 \<longleftrightarrow> map tolower a < map tolower b"
proof (induction a b rule: op_strcasecmp.induct)
  case (1 b)
  then show ?case by (cases b) auto
next
  case (2 x a b)
  then show ?case by (cases b) (auto simp: uc_less_iff)
qed

interpretation rfc: name_compare rfc_casecmp "map rfc_toupper"
  by unfold_locales (simp_all add: rfc_casecmp_eq0 rfc_casecmp_less)

interpretation ascii: name_compare op_strcasecmp "map tolower"
  by unfold_locales (simp_all add: op_strcasecmp_eq0 op_strcasecmp_less)

section \<open>Properties\<close>

text \<open>
  the branchless arithmetic of \<open>rfc_toupper_fast\<close> and \<open>_rfc_tolower\<close>, with its wrapping
  range test, computes exactly the two 256-entry tables the file also exports.
\<close>

theorem rfc_case_arithmetic_is_table:
  "uc (rfc_toupper c) = rfc_touppertab ! uc c \<and> uc (rfc_tolower c) = rfc_tolowertab ! uc c"
  by (simp add: uc_rfc_toupper uc_rfc_tolower nth_touppertab nth_tolowertab)

text \<open>
  \<open>_rfc_casecmp\<close> orders strings as their RFC 1459 upper case versions are ordered
  lexicographically by bytes: it returns 0 exactly for names the network considers equal, and
  its sign is a total order on names.
\<close>

theorem rfc_casecmp_order:
  assumes "cstring a" "cstring b"
  shows "(rfc_casecmp a b = 0 \<longleftrightarrow> map rfc_toupper a = map rfc_toupper b) \<and>
         (rfc_casecmp a b < 0 \<longleftrightarrow> map rfc_toupper a < map rfc_toupper b) \<and>
         (0 < rfc_casecmp a b \<longleftrightarrow> rfc_casecmp b a < 0)"
  using rfc.cmp_eq0 [OF assms] rfc.cmp_less [OF assms] rfc.cmp_antisym [OF assms(2,1)] by simp

theorem rfc_casecmp_order_witness:
  "(rfc_casecmp ''Nick{a}'' ''nICK[A]'' = 0 \<longleftrightarrow>
      map rfc_toupper ''Nick{a}'' = map rfc_toupper ''nICK[A]'') \<and>
   (rfc_casecmp ''Nick{a}'' ''nICK[A]'' < 0 \<longleftrightarrow>
      map rfc_toupper ''Nick{a}'' < map rfc_toupper ''nICK[A]'') \<and>
   (0 < rfc_casecmp ''Nick{a}'' ''nICK[A]'' \<longleftrightarrow> rfc_casecmp ''nICK[A]'' ''Nick{a}'' < 0)"
  by (rule rfc_casecmp_order) simp_all

end
