(* ===== verification/FlagBits.thy ===== *)
theory FlagBits
  imports Prelude
begin

text \<open>
  The flag constants of \<open>src/src/flags.h\<close> and the log masks of \<open>src/src/eggdrop.h\<close>, with the
  bit each one-bit constant stands for (collection \<open>flag_bits\<close>). C declares the \<open>BOT_\<close> flags
  as non-negative \<open>int\<close>s and uses them against \<open>intptr_t\<close> attributes, so they are 64-bit here.
\<close>

section \<open>flags.h\<close>

definition FR_GLOBAL :: int32 where "FR_GLOBAL = 0x1"
definition FR_BOT :: int32 where "FR_BOT = 0x2"
definition FR_CHAN :: int32 where "FR_CHAN = 0x4"
definition FR_OR :: int32 where "FR_OR = 0x40000000"
definition FR_AND :: int32 where "FR_AND = 0x20000000"
definition FR_ANYWH :: int32 where "FR_ANYWH = 0x10000000"
definition FR_ALL :: int32 where "FR_ALL = 0xFFFFFFF"
definition USER_VALID :: int32 where "USER_VALID = 0x3FBFEFF"
definition CHAN_VALID :: int32 where "CHAN_VALID = 0x3677C79"
definition BOT_VALID :: intptr where "BOT_VALID = 0x7FF6ABDF"
definition USER_AUTOOP :: int32 where "USER_AUTOOP = 0x1"
definition USER_BOT :: int32 where "USER_BOT = 0x2"
definition USER_COMMON :: int32 where "USER_COMMON = 0x4"
definition USER_DEOP :: int32 where "USER_DEOP = 0x8"
definition USER_EXEMPT :: int32 where "USER_EXEMPT = 0x10"
definition USER_FRIEND :: int32 where "USER_FRIEND = 0x20"
definition USER_GVOICE :: int32 where "USER_GVOICE = 0x40"
definition USER_HIGHLITE :: int32 where "USER_HIGHLITE = 0x80"
definition USER_I :: int32 where "USER_I = 0x100"
definition USER_JANITOR :: int32 where "USER_JANITOR = 0x200"
definition USER_KICK :: int32 where "USER_KICK = 0x400"
definition USER_HALFOP :: int32 where "USER_HALFOP = 0x800"
definition USER_MASTER :: int32 where "USER_MASTER = 0x1000"
definition USER_OWNER :: int32 where "USER_OWNER = 0x2000"
definition USER_OP :: int32 where "USER_OP = 0x4000"
definition USER_PARTY :: int32 where "USER_PARTY = 0x8000"
definition USER_QUIET :: int32 where "USER_QUIET = 0x10000"
definition USER_DEHALFOP :: int32 where "USER_DEHALFOP = 0x20000"
definition USER_S :: int32 where "USER_S = 0x40000"
definition USER_BOTMAST :: int32 where "USER_BOTMAST = 0x80000"
definition USER_UNSHARED :: int32 where "USER_UNSHARED = 0x100000"
definition USER_VOICE :: int32 where "USER_VOICE = 0x200000"
definition USER_WASOPTEST :: int32 where "USER_WASOPTEST = 0x400000"
definition USER_XFER :: int32 where "USER_XFER = 0x800000"
definition USER_AUTOHALFOP :: int32 where "USER_AUTOHALFOP = 0x1000000"
definition USER_WASHALFOPTEST :: int32 where "USER_WASHALFOPTEST = 0x2000000"
definition USER_DEFAULT :: int32 where "USER_DEFAULT = 0x40000000"
definition BOT_ALT :: intptr where "BOT_ALT = 0x1"
definition BOT_SHBAN :: intptr where "BOT_SHBAN = 0x2"
definition BOT_SHCHAN :: intptr where "BOT_SHCHAN = 0x4"
definition BOT_SHLIMITED :: intptr where "BOT_SHLIMITED = 0x8"
definition BOT_SHEXEMPT :: intptr where "BOT_SHEXEMPT = 0x10"
definition BOT_F :: intptr where "BOT_F = 0x20"
definition BOT_GLOBAL :: intptr where "BOT_GLOBAL = 0x40"
definition BOT_HUB :: intptr where "BOT_HUB = 0x80"
definition BOT_ISOLATE :: intptr where "BOT_ISOLATE = 0x100"
definition BOT_SHINV :: intptr where "BOT_SHINV = 0x200"
definition BOT_K :: intptr where "BOT_K = 0x400"
definition BOT_LEAF :: intptr where "BOT_LEAF = 0x800"
definition BOT_M :: intptr where "BOT_M = 0x1000"
definition BOT_SHIGN :: intptr where "BOT_SHIGN = 0x2000"
definition BOT_O :: intptr where "BOT_O = 0x4000"
definition BOT_PASSIVE :: intptr where "BOT_PASSIVE = 0x8000"
definition BOT_Q :: intptr where "BOT_Q = 0x10000"
definition BOT_REJECT :: intptr where "BOT_REJECT = 0x20000"
definition BOT_AGGRESSIVE :: intptr where "BOT_AGGRESSIVE = 0x40000"
definition BOT_T :: intptr where "BOT_T = 0x80000"
definition BOT_SHUSER :: intptr where "BOT_SHUSER = 0x100000"
definition BOT_FLAG0 :: intptr where "BOT_FLAG0 = 0x200000"
definition BOT_FLAG1 :: intptr where "BOT_FLAG1 = 0x400000"
definition BOT_FLAG2 :: intptr where "BOT_FLAG2 = 0x800000"
definition BOT_FLAG3 :: intptr where "BOT_FLAG3 = 0x1000000"
definition BOT_FLAG4 :: intptr where "BOT_FLAG4 = 0x2000000"
definition BOT_FLAG5 :: intptr where "BOT_FLAG5 = 0x4000000"
definition BOT_FLAG6 :: intptr where "BOT_FLAG6 = 0x8000000"
definition BOT_FLAG7 :: intptr where "BOT_FLAG7 = 0x10000000"
definition BOT_FLAG8 :: intptr where "BOT_FLAG8 = 0x20000000"
definition BOT_FLAG9 :: intptr where "BOT_FLAG9 = 0x40000000"
definition BOT_SHPERMS :: intptr where "BOT_SHPERMS = BOT_SHBAN OR BOT_SHCHAN OR BOT_SHEXEMPT OR BOT_SHIGN OR BOT_SHINV OR BOT_SHUSER OR BOT_SHLIMITED"
definition BOT_SHARE :: intptr where "BOT_SHARE = BOT_AGGRESSIVE OR BOT_PASSIVE OR BOT_SHPERMS"
definition BOT_SANE_ALTOWNSHUB :: int32 where "BOT_SANE_ALTOWNSHUB = 0x1"
definition BOT_SANE_HUBOWNSALT :: int32 where "BOT_SANE_HUBOWNSALT = 0x2"
definition BOT_SANE_OWNSALTHUB :: int32 where "BOT_SANE_OWNSALTHUB = 0x4"
definition BOT_SANE_SHPOWNSAGGR :: int32 where "BOT_SANE_SHPOWNSAGGR = 0x8"
definition BOT_SANE_AGGROWNSSHP :: int32 where "BOT_SANE_AGGROWNSSHP = 0x10"
definition BOT_SANE_OWNSSHPAGGR :: int32 where "BOT_SANE_OWNSSHPAGGR = 0x20"
definition BOT_SANE_SHPOWNSPASS :: int32 where "BOT_SANE_SHPOWNSPASS = 0x40"
definition BOT_SANE_PASSOWNSSHP :: int32 where "BOT_SANE_PASSOWNSSHP = 0x80"
definition BOT_SANE_OWNSSHPPASS :: int32 where "BOT_SANE_OWNSSHPPASS = 0x100"
definition BOT_SANE_SHAREOWNSREJ :: int32 where "BOT_SANE_SHAREOWNSREJ = 0x200"
definition BOT_SANE_REJOWNSSHARE :: int32 where "BOT_SANE_REJOWNSSHARE = 0x400"
definition BOT_SANE_OWNSSHAREREJ :: int32 where "BOT_SANE_OWNSSHAREREJ = 0x800"
definition BOT_SANE_HUBOWNSREJ :: int32 where "BOT_SANE_HUBOWNSREJ = 0x1000"
definition BOT_SANE_REJOWNSHUB :: int32 where "BOT_SANE_REJOWNSHUB = 0x2000"
definition BOT_SANE_OWNSHUBREJ :: int32 where "BOT_SANE_OWNSHUBREJ = 0x4000"
definition BOT_SANE_ALTOWNSREJ :: int32 where "BOT_SANE_ALTOWNSREJ = 0x8000"
definition BOT_SANE_REJOWNSALT :: int32 where "BOT_SANE_REJOWNSALT = 0x10000"
definition BOT_SANE_OWNSALTREJ :: int32 where "BOT_SANE_OWNSALTREJ = 0x20000"
definition BOT_SANE_AGGROWNSPASS :: int32 where "BOT_SANE_AGGROWNSPASS = 0x40000"
definition BOT_SANE_PASSOWNSAGGR :: int32 where "BOT_SANE_PASSOWNSAGGR = 0x80000"
definition BOT_SANE_OWNSAGGRPASS :: int32 where "BOT_SANE_OWNSAGGRPASS = 0x100000"
definition BOT_SANE_NOSHAREOWNSGLOB :: int32 where "BOT_SANE_NOSHAREOWNSGLOB = 0x200000"
definition BOT_SANE_OWNSGLOB :: int32 where "BOT_SANE_OWNSGLOB = 0x400000"
definition UC_SANE_DEOPOWNSOP :: int32 where "UC_SANE_DEOPOWNSOP = 0x1"
definition UC_SANE_OPOWNSDEOP :: int32 where "UC_SANE_OPOWNSDEOP = 0x2"
definition UC_SANE_OWNSDEOPOP :: int32 where "UC_SANE_OWNSDEOPOP = 0x4"
definition UC_SANE_DEHALFOPOWNSHALFOP :: int32 where "UC_SANE_DEHALFOPOWNSHALFOP = 0x8"
definition UC_SANE_HALFOPOWNSDEHALFOP :: int32 where "UC_SANE_HALFOPOWNSDEHALFOP = 0x10"
definition UC_SANE_OWNSDEHALFOPHALFOP :: int32 where "UC_SANE_OWNSDEHALFOPHALFOP = 0x20"
definition UC_SANE_DEOPOWNSAUTOOP :: int32 where "UC_SANE_DEOPOWNSAUTOOP = 0x40"
definition UC_SANE_AUTOOPOWNSDEOP :: int32 where "UC_SANE_AUTOOPOWNSDEOP = 0x80"
definition UC_SANE_OWNSDEOPAUTOOP :: int32 where "UC_SANE_OWNSDEOPAUTOOP = 0x100"
definition UC_SANE_DEHALFOPOWNSAHALFOP :: int32 where "UC_SANE_DEHALFOPOWNSAHALFOP = 0x200"
definition UC_SANE_AHALFOPOWNSDEHALFOP :: int32 where "UC_SANE_AHALFOPOWNSDEHALFOP = 0x400"
definition UC_SANE_OWNSDEHALFOPAHALFOP :: int32 where "UC_SANE_OWNSDEHALFOPAHALFOP = 0x800"
definition UC_SANE_QUIETOWNSVOICE :: int32 where "UC_SANE_QUIETOWNSVOICE = 0x1000"
definition UC_SANE_VOICEOWNSQUIET :: int32 where "UC_SANE_VOICEOWNSQUIET = 0x2000"
definition UC_SANE_OWNSQUIETVOICE :: int32 where "UC_SANE_OWNSQUIETVOICE = 0x4000"
definition UC_SANE_QUIETOWNSGVOICE :: int32 where "UC_SANE_QUIETOWNSGVOICE = 0x8000"
definition UC_SANE_GVOICEOWNSQUIET :: int32 where "UC_SANE_GVOICEOWNSQUIET = 0x10000"
definition UC_SANE_OWNSQUIETGVOICE :: int32 where "UC_SANE_OWNSQUIETGVOICE = 0x20000"
definition UC_SANE_OWNERADDSMASTER :: int32 where "UC_SANE_OWNERADDSMASTER = 0x40000"
definition UC_SANE_MASTERADDSOP :: int32 where "UC_SANE_MASTERADDSOP = 0x80000"
definition UC_SANE_OPADDSHALFOP :: int32 where "UC_SANE_OPADDSHALFOP = 0x100000"
definition UC_SANE_NOBOTOWNSAGGR :: int32 where "UC_SANE_NOBOTOWNSAGGR = 0x200000"
definition UC_SANE_BOTOWNSPARTY :: int32 where "UC_SANE_BOTOWNSPARTY = 0x400000"
definition UC_SANE_BOTOWNSMASTER :: int32 where "UC_SANE_BOTOWNSMASTER = 0x800000"
definition UC_SANE_BOTOWNSCOMMON :: int32 where "UC_SANE_BOTOWNSCOMMON = 0x1000000"
definition UC_SANE_BOTOWNSOWNER :: int32 where "UC_SANE_BOTOWNSOWNER = 0x2000000"
definition UC_SANE_MASTERADDSBOTMOPJAN :: int32 where "UC_SANE_MASTERADDSBOTMOPJAN = 0x4000000"
definition UC_SANE_BOTMASTADDSPARTY :: int32 where "UC_SANE_BOTMASTADDSPARTY = 0x8000000"
definition UC_SANE_JANADDSXFER :: int32 where "UC_SANE_JANADDSXFER = 0x10000000"
definition UC_SANE_AUTOOPADDSOP :: int32 where "UC_SANE_AUTOOPADDSOP = 0x20000000"
definition UC_SANE_AUTOHALFOPADDSHALFOP :: int32 where "UC_SANE_AUTOHALFOPADDSHALFOP = 0x40000000"
definition UC_SANE_GVOICEADDSVOICE :: int32 where "UC_SANE_GVOICEADDSVOICE = 0x80000000"

section \<open>Log masks\<close>

definition LOG_MSGS :: int32 where "LOG_MSGS = 0x1"
definition LOG_PUBLIC :: int32 where "LOG_PUBLIC = 0x2"
definition LOG_JOIN :: int32 where "LOG_JOIN = 0x4"
definition LOG_MODES :: int32 where "LOG_MODES = 0x8"
definition LOG_CMDS :: int32 where "LOG_CMDS = 0x10"
definition LOG_MISC :: int32 where "LOG_MISC = 0x20"
definition LOG_BOTS :: int32 where "LOG_BOTS = 0x40"
definition LOG_RAW :: int32 where "LOG_RAW = 0x80"
definition LOG_FILES :: int32 where "LOG_FILES = 0x100"
definition LOG_LEV1 :: int32 where "LOG_LEV1 = 0x200"
definition LOG_LEV2 :: int32 where "LOG_LEV2 = 0x400"
definition LOG_LEV3 :: int32 where "LOG_LEV3 = 0x800"
definition LOG_LEV4 :: int32 where "LOG_LEV4 = 0x1000"
definition LOG_LEV5 :: int32 where "LOG_LEV5 = 0x2000"
definition LOG_LEV6 :: int32 where "LOG_LEV6 = 0x4000"
definition LOG_LEV7 :: int32 where "LOG_LEV7 = 0x8000"
definition LOG_LEV8 :: int32 where "LOG_LEV8 = 0x10000"
definition LOG_SERV :: int32 where "LOG_SERV = 0x20000"
definition LOG_DEBUG :: int32 where "LOG_DEBUG = 0x40000"
definition LOG_WALL :: int32 where "LOG_WALL = 0x80000"
definition LOG_SRVOUT :: int32 where "LOG_SRVOUT = 0x100000"
definition LOG_BOTNETIN :: int32 where "LOG_BOTNETIN = 0x200000"
definition LOG_BOTSHRIN :: int32 where "LOG_BOTSHRIN = 0x400000"
definition LOG_BOTNETOUT :: int32 where "LOG_BOTNETOUT = 0x800000"
definition LOG_BOTSHROUT :: int32 where "LOG_BOTSHROUT = 0x1000000"
definition LOG_BOTMSG :: int32 where "LOG_BOTMSG = 0x2000000"
definition LOG_ALL :: int32 where "LOG_ALL = 0x3FFFFFF"

section \<open>The bit of each flag\<close>

lemma FR_GLOBAL_bit [flag_bits]: "bit FR_GLOBAL n \<longleftrightarrow> n = 0" "has x FR_GLOBAL \<longleftrightarrow> bit x 0"
  using flag_at [of FR_GLOBAL 0] by (simp_all add: FR_GLOBAL_def)

lemma FR_BOT_bit [flag_bits]: "bit FR_BOT n \<longleftrightarrow> n = 1" "has x FR_BOT \<longleftrightarrow> bit x 1"
  using flag_at [of FR_BOT 1] by (simp_all add: FR_BOT_def)

lemma FR_CHAN_bit [flag_bits]: "bit FR_CHAN n \<longleftrightarrow> n = 2" "has x FR_CHAN \<longleftrightarrow> bit x 2"
  using flag_at [of FR_CHAN 2] by (simp_all add: FR_CHAN_def)

lemma FR_OR_bit [flag_bits]: "bit FR_OR n \<longleftrightarrow> n = 30" "has x FR_OR \<longleftrightarrow> bit x 30"
  using flag_at [of FR_OR 30] by (simp_all add: FR_OR_def)

lemma FR_AND_bit [flag_bits]: "bit FR_AND n \<longleftrightarrow> n = 29" "has x FR_AND \<longleftrightarrow> bit x 29"
  using flag_at [of FR_AND 29] by (simp_all add: FR_AND_def)

lemma FR_ANYWH_bit [flag_bits]: "bit FR_ANYWH n \<longleftrightarrow> n = 28" "has x FR_ANYWH \<longleftrightarrow> bit x 28"
  using flag_at [of FR_ANYWH 28] by (simp_all add: FR_ANYWH_def)

lemma USER_AUTOOP_bit [flag_bits]: "bit USER_AUTOOP n \<longleftrightarrow> n = 0" "has x USER_AUTOOP \<longleftrightarrow> bit x 0"
  using flag_at [of USER_AUTOOP 0] by (simp_all add: USER_AUTOOP_def)

lemma USER_BOT_bit [flag_bits]: "bit USER_BOT n \<longleftrightarrow> n = 1" "has x USER_BOT \<longleftrightarrow> bit x 1"
  using flag_at [of USER_BOT 1] by (simp_all add: USER_BOT_def)

lemma USER_COMMON_bit [flag_bits]: "bit USER_COMMON n \<longleftrightarrow> n = 2" "has x USER_COMMON \<longleftrightarrow> bit x 2"
  using flag_at [of USER_COMMON 2] by (simp_all add: USER_COMMON_def)

lemma USER_DEOP_bit [flag_bits]: "bit USER_DEOP n \<longleftrightarrow> n = 3" "has x USER_DEOP \<longleftrightarrow> bit x 3"
  using flag_at [of USER_DEOP 3] by (simp_all add: USER_DEOP_def)

lemma USER_EXEMPT_bit [flag_bits]: "bit USER_EXEMPT n \<longleftrightarrow> n = 4" "has x USER_EXEMPT \<longleftrightarrow> bit x 4"
  using flag_at [of USER_EXEMPT 4] by (simp_all add: USER_EXEMPT_def)

lemma USER_FRIEND_bit [flag_bits]: "bit USER_FRIEND n \<longleftrightarrow> n = 5" "has x USER_FRIEND \<longleftrightarrow> bit x 5"
  using flag_at [of USER_FRIEND 5] by (simp_all add: USER_FRIEND_def)

lemma USER_GVOICE_bit [flag_bits]: "bit USER_GVOICE n \<longleftrightarrow> n = 6" "has x USER_GVOICE \<longleftrightarrow> bit x 6"
  using flag_at [of USER_GVOICE 6] by (simp_all add: USER_GVOICE_def)

lemma USER_HIGHLITE_bit [flag_bits]: "bit USER_HIGHLITE n \<longleftrightarrow> n = 7" "has x USER_HIGHLITE \<longleftrightarrow> bit x 7"
  using flag_at [of USER_HIGHLITE 7] by (simp_all add: USER_HIGHLITE_def)

lemma USER_I_bit [flag_bits]: "bit USER_I n \<longleftrightarrow> n = 8" "has x USER_I \<longleftrightarrow> bit x 8"
  using flag_at [of USER_I 8] by (simp_all add: USER_I_def)

lemma USER_JANITOR_bit [flag_bits]: "bit USER_JANITOR n \<longleftrightarrow> n = 9" "has x USER_JANITOR \<longleftrightarrow> bit x 9"
  using flag_at [of USER_JANITOR 9] by (simp_all add: USER_JANITOR_def)

lemma USER_KICK_bit [flag_bits]: "bit USER_KICK n \<longleftrightarrow> n = 10" "has x USER_KICK \<longleftrightarrow> bit x 10"
  using flag_at [of USER_KICK 10] by (simp_all add: USER_KICK_def)

lemma USER_HALFOP_bit [flag_bits]: "bit USER_HALFOP n \<longleftrightarrow> n = 11" "has x USER_HALFOP \<longleftrightarrow> bit x 11"
  using flag_at [of USER_HALFOP 11] by (simp_all add: USER_HALFOP_def)

lemma USER_MASTER_bit [flag_bits]: "bit USER_MASTER n \<longleftrightarrow> n = 12" "has x USER_MASTER \<longleftrightarrow> bit x 12"
  using flag_at [of USER_MASTER 12] by (simp_all add: USER_MASTER_def)

lemma USER_OWNER_bit [flag_bits]: "bit USER_OWNER n \<longleftrightarrow> n = 13" "has x USER_OWNER \<longleftrightarrow> bit x 13"
  using flag_at [of USER_OWNER 13] by (simp_all add: USER_OWNER_def)

lemma USER_OP_bit [flag_bits]: "bit USER_OP n \<longleftrightarrow> n = 14" "has x USER_OP \<longleftrightarrow> bit x 14"
  using flag_at [of USER_OP 14] by (simp_all add: USER_OP_def)

lemma USER_PARTY_bit [flag_bits]: "bit USER_PARTY n \<longleftrightarrow> n = 15" "has x USER_PARTY \<longleftrightarrow> bit x 15"
  using flag_at [of USER_PARTY 15] by (simp_all add: USER_PARTY_def)

lemma USER_QUIET_bit [flag_bits]: "bit USER_QUIET n \<longleftrightarrow> n = 16" "has x USER_QUIET \<longleftrightarrow> bit x 16"
  using flag_at [of USER_QUIET 16] by (simp_all add: USER_QUIET_def)

lemma USER_DEHALFOP_bit [flag_bits]: "bit USER_DEHALFOP n \<longleftrightarrow> n = 17" "has x USER_DEHALFOP \<longleftrightarrow> bit x 17"
  using flag_at [of USER_DEHALFOP 17] by (simp_all add: USER_DEHALFOP_def)

lemma USER_S_bit [flag_bits]: "bit USER_S n \<longleftrightarrow> n = 18" "has x USER_S \<longleftrightarrow> bit x 18"
  using flag_at [of USER_S 18] by (simp_all add: USER_S_def)

lemma USER_BOTMAST_bit [flag_bits]: "bit USER_BOTMAST n \<longleftrightarrow> n = 19" "has x USER_BOTMAST \<longleftrightarrow> bit x 19"
  using flag_at [of USER_BOTMAST 19] by (simp_all add: USER_BOTMAST_def)

lemma USER_UNSHARED_bit [flag_bits]: "bit USER_UNSHARED n \<longleftrightarrow> n = 20" "has x USER_UNSHARED \<longleftrightarrow> bit x 20"
  using flag_at [of USER_UNSHARED 20] by (simp_all add: USER_UNSHARED_def)

lemma USER_VOICE_bit [flag_bits]: "bit USER_VOICE n \<longleftrightarrow> n = 21" "has x USER_VOICE \<longleftrightarrow> bit x 21"
  using flag_at [of USER_VOICE 21] by (simp_all add: USER_VOICE_def)

lemma USER_WASOPTEST_bit [flag_bits]: "bit USER_WASOPTEST n \<longleftrightarrow> n = 22" "has x USER_WASOPTEST \<longleftrightarrow> bit x 22"
  using flag_at [of USER_WASOPTEST 22] by (simp_all add: USER_WASOPTEST_def)

lemma USER_XFER_bit [flag_bits]: "bit USER_XFER n \<longleftrightarrow> n = 23" "has x USER_XFER \<longleftrightarrow> bit x 23"
  using flag_at [of USER_XFER 23] by (simp_all add: USER_XFER_def)

lemma USER_AUTOHALFOP_bit [flag_bits]: "bit USER_AUTOHALFOP n \<longleftrightarrow> n = 24" "has x USER_AUTOHALFOP \<longleftrightarrow> bit x 24"
  using flag_at [of USER_AUTOHALFOP 24] by (simp_all add: USER_AUTOHALFOP_def)

lemma USER_WASHALFOPTEST_bit [flag_bits]: "bit USER_WASHALFOPTEST n \<longleftrightarrow> n = 25" "has x USER_WASHALFOPTEST \<longleftrightarrow> bit x 25"
  using flag_at [of USER_WASHALFOPTEST 25] by (simp_all add: USER_WASHALFOPTEST_def)

lemma USER_DEFAULT_bit [flag_bits]: "bit USER_DEFAULT n \<longleftrightarrow> n = 30" "has x USER_DEFAULT \<longleftrightarrow> bit x 30"
  using flag_at [of USER_DEFAULT 30] by (simp_all add: USER_DEFAULT_def)

lemma BOT_ALT_bit [flag_bits]: "bit BOT_ALT n \<longleftrightarrow> n = 0" "has x BOT_ALT \<longleftrightarrow> bit x 0"
  using flag_at [of BOT_ALT 0] by (simp_all add: BOT_ALT_def)

lemma BOT_SHBAN_bit [flag_bits]: "bit BOT_SHBAN n \<longleftrightarrow> n = 1" "has x BOT_SHBAN \<longleftrightarrow> bit x 1"
  using flag_at [of BOT_SHBAN 1] by (simp_all add: BOT_SHBAN_def)

lemma BOT_SHCHAN_bit [flag_bits]: "bit BOT_SHCHAN n \<longleftrightarrow> n = 2" "has x BOT_SHCHAN \<longleftrightarrow> bit x 2"
  using flag_at [of BOT_SHCHAN 2] by (simp_all add: BOT_SHCHAN_def)

lemma BOT_SHLIMITED_bit [flag_bits]: "bit BOT_SHLIMITED n \<longleftrightarrow> n = 3" "has x BOT_SHLIMITED \<longleftrightarrow> bit x 3"
  using flag_at [of BOT_SHLIMITED 3] by (simp_all add: BOT_SHLIMITED_def)

lemma BOT_SHEXEMPT_bit [flag_bits]: "bit BOT_SHEXEMPT n \<longleftrightarrow> n = 4" "has x BOT_SHEXEMPT \<longleftrightarrow> bit x 4"
  using flag_at [of BOT_SHEXEMPT 4] by (simp_all add: BOT_SHEXEMPT_def)

lemma BOT_F_bit [flag_bits]: "bit BOT_F n \<longleftrightarrow> n = 5" "has x BOT_F \<longleftrightarrow> bit x 5"
  using flag_at [of BOT_F 5] by (simp_all add: BOT_F_def)

lemma BOT_GLOBAL_bit [flag_bits]: "bit BOT_GLOBAL n \<longleftrightarrow> n = 6" "has x BOT_GLOBAL \<longleftrightarrow> bit x 6"
  using flag_at [of BOT_GLOBAL 6] by (simp_all add: BOT_GLOBAL_def)

lemma BOT_HUB_bit [flag_bits]: "bit BOT_HUB n \<longleftrightarrow> n = 7" "has x BOT_HUB \<longleftrightarrow> bit x 7"
  using flag_at [of BOT_HUB 7] by (simp_all add: BOT_HUB_def)

lemma BOT_ISOLATE_bit [flag_bits]: "bit BOT_ISOLATE n \<longleftrightarrow> n = 8" "has x BOT_ISOLATE \<longleftrightarrow> bit x 8"
  using flag_at [of BOT_ISOLATE 8] by (simp_all add: BOT_ISOLATE_def)

lemma BOT_SHINV_bit [flag_bits]: "bit BOT_SHINV n \<longleftrightarrow> n = 9" "has x BOT_SHINV \<longleftrightarrow> bit x 9"
  using flag_at [of BOT_SHINV 9] by (simp_all add: BOT_SHINV_def)

lemma BOT_K_bit [flag_bits]: "bit BOT_K n \<longleftrightarrow> n = 10" "has x BOT_K \<longleftrightarrow> bit x 10"
  using flag_at [of BOT_K 10] by (simp_all add: BOT_K_def)

lemma BOT_LEAF_bit [flag_bits]: "bit BOT_LEAF n \<longleftrightarrow> n = 11" "has x BOT_LEAF \<longleftrightarrow> bit x 11"
  using flag_at [of BOT_LEAF 11] by (simp_all add: BOT_LEAF_def)

lemma BOT_M_bit [flag_bits]: "bit BOT_M n \<longleftrightarrow> n = 12" "has x BOT_M \<longleftrightarrow> bit x 12"
  using flag_at [of BOT_M 12] by (simp_all add: BOT_M_def)

lemma BOT_SHIGN_bit [flag_bits]: "bit BOT_SHIGN n \<longleftrightarrow> n = 13" "has x BOT_SHIGN \<longleftrightarrow> bit x 13"
  using flag_at [of BOT_SHIGN 13] by (simp_all add: BOT_SHIGN_def)

lemma BOT_O_bit [flag_bits]: "bit BOT_O n \<longleftrightarrow> n = 14" "has x BOT_O \<longleftrightarrow> bit x 14"
  using flag_at [of BOT_O 14] by (simp_all add: BOT_O_def)

lemma BOT_PASSIVE_bit [flag_bits]: "bit BOT_PASSIVE n \<longleftrightarrow> n = 15" "has x BOT_PASSIVE \<longleftrightarrow> bit x 15"
  using flag_at [of BOT_PASSIVE 15] by (simp_all add: BOT_PASSIVE_def)

lemma BOT_Q_bit [flag_bits]: "bit BOT_Q n \<longleftrightarrow> n = 16" "has x BOT_Q \<longleftrightarrow> bit x 16"
  using flag_at [of BOT_Q 16] by (simp_all add: BOT_Q_def)

lemma BOT_REJECT_bit [flag_bits]: "bit BOT_REJECT n \<longleftrightarrow> n = 17" "has x BOT_REJECT \<longleftrightarrow> bit x 17"
  using flag_at [of BOT_REJECT 17] by (simp_all add: BOT_REJECT_def)

lemma BOT_AGGRESSIVE_bit [flag_bits]: "bit BOT_AGGRESSIVE n \<longleftrightarrow> n = 18" "has x BOT_AGGRESSIVE \<longleftrightarrow> bit x 18"
  using flag_at [of BOT_AGGRESSIVE 18] by (simp_all add: BOT_AGGRESSIVE_def)

lemma BOT_T_bit [flag_bits]: "bit BOT_T n \<longleftrightarrow> n = 19" "has x BOT_T \<longleftrightarrow> bit x 19"
  using flag_at [of BOT_T 19] by (simp_all add: BOT_T_def)

lemma BOT_SHUSER_bit [flag_bits]: "bit BOT_SHUSER n \<longleftrightarrow> n = 20" "has x BOT_SHUSER \<longleftrightarrow> bit x 20"
  using flag_at [of BOT_SHUSER 20] by (simp_all add: BOT_SHUSER_def)

lemma BOT_FLAG0_bit [flag_bits]: "bit BOT_FLAG0 n \<longleftrightarrow> n = 21" "has x BOT_FLAG0 \<longleftrightarrow> bit x 21"
  using flag_at [of BOT_FLAG0 21] by (simp_all add: BOT_FLAG0_def)

lemma BOT_FLAG1_bit [flag_bits]: "bit BOT_FLAG1 n \<longleftrightarrow> n = 22" "has x BOT_FLAG1 \<longleftrightarrow> bit x 22"
  using flag_at [of BOT_FLAG1 22] by (simp_all add: BOT_FLAG1_def)

lemma BOT_FLAG2_bit [flag_bits]: "bit BOT_FLAG2 n \<longleftrightarrow> n = 23" "has x BOT_FLAG2 \<longleftrightarrow> bit x 23"
  using flag_at [of BOT_FLAG2 23] by (simp_all add: BOT_FLAG2_def)

lemma BOT_FLAG3_bit [flag_bits]: "bit BOT_FLAG3 n \<longleftrightarrow> n = 24" "has x BOT_FLAG3 \<longleftrightarrow> bit x 24"
  using flag_at [of BOT_FLAG3 24] by (simp_all add: BOT_FLAG3_def)

lemma BOT_FLAG4_bit [flag_bits]: "bit BOT_FLAG4 n \<longleftrightarrow> n = 25" "has x BOT_FLAG4 \<longleftrightarrow> bit x 25"
  using flag_at [of BOT_FLAG4 25] by (simp_all add: BOT_FLAG4_def)

lemma BOT_FLAG5_bit [flag_bits]: "bit BOT_FLAG5 n \<longleftrightarrow> n = 26" "has x BOT_FLAG5 \<longleftrightarrow> bit x 26"
  using flag_at [of BOT_FLAG5 26] by (simp_all add: BOT_FLAG5_def)

lemma BOT_FLAG6_bit [flag_bits]: "bit BOT_FLAG6 n \<longleftrightarrow> n = 27" "has x BOT_FLAG6 \<longleftrightarrow> bit x 27"
  using flag_at [of BOT_FLAG6 27] by (simp_all add: BOT_FLAG6_def)

lemma BOT_FLAG7_bit [flag_bits]: "bit BOT_FLAG7 n \<longleftrightarrow> n = 28" "has x BOT_FLAG7 \<longleftrightarrow> bit x 28"
  using flag_at [of BOT_FLAG7 28] by (simp_all add: BOT_FLAG7_def)

lemma BOT_FLAG8_bit [flag_bits]: "bit BOT_FLAG8 n \<longleftrightarrow> n = 29" "has x BOT_FLAG8 \<longleftrightarrow> bit x 29"
  using flag_at [of BOT_FLAG8 29] by (simp_all add: BOT_FLAG8_def)

lemma BOT_FLAG9_bit [flag_bits]: "bit BOT_FLAG9 n \<longleftrightarrow> n = 30" "has x BOT_FLAG9 \<longleftrightarrow> bit x 30"
  using flag_at [of BOT_FLAG9 30] by (simp_all add: BOT_FLAG9_def)

lemma LOG_MSGS_bit [flag_bits]: "bit LOG_MSGS n \<longleftrightarrow> n = 0" "has x LOG_MSGS \<longleftrightarrow> bit x 0"
  using flag_at [of LOG_MSGS 0] by (simp_all add: LOG_MSGS_def)

lemma LOG_PUBLIC_bit [flag_bits]: "bit LOG_PUBLIC n \<longleftrightarrow> n = 1" "has x LOG_PUBLIC \<longleftrightarrow> bit x 1"
  using flag_at [of LOG_PUBLIC 1] by (simp_all add: LOG_PUBLIC_def)

lemma LOG_JOIN_bit [flag_bits]: "bit LOG_JOIN n \<longleftrightarrow> n = 2" "has x LOG_JOIN \<longleftrightarrow> bit x 2"
  using flag_at [of LOG_JOIN 2] by (simp_all add: LOG_JOIN_def)

lemma LOG_MODES_bit [flag_bits]: "bit LOG_MODES n \<longleftrightarrow> n = 3" "has x LOG_MODES \<longleftrightarrow> bit x 3"
  using flag_at [of LOG_MODES 3] by (simp_all add: LOG_MODES_def)

lemma LOG_CMDS_bit [flag_bits]: "bit LOG_CMDS n \<longleftrightarrow> n = 4" "has x LOG_CMDS \<longleftrightarrow> bit x 4"
  using flag_at [of LOG_CMDS 4] by (simp_all add: LOG_CMDS_def)

lemma LOG_MISC_bit [flag_bits]: "bit LOG_MISC n \<longleftrightarrow> n = 5" "has x LOG_MISC \<longleftrightarrow> bit x 5"
  using flag_at [of LOG_MISC 5] by (simp_all add: LOG_MISC_def)

lemma LOG_BOTS_bit [flag_bits]: "bit LOG_BOTS n \<longleftrightarrow> n = 6" "has x LOG_BOTS \<longleftrightarrow> bit x 6"
  using flag_at [of LOG_BOTS 6] by (simp_all add: LOG_BOTS_def)

lemma LOG_RAW_bit [flag_bits]: "bit LOG_RAW n \<longleftrightarrow> n = 7" "has x LOG_RAW \<longleftrightarrow> bit x 7"
  using flag_at [of LOG_RAW 7] by (simp_all add: LOG_RAW_def)

lemma LOG_FILES_bit [flag_bits]: "bit LOG_FILES n \<longleftrightarrow> n = 8" "has x LOG_FILES \<longleftrightarrow> bit x 8"
  using flag_at [of LOG_FILES 8] by (simp_all add: LOG_FILES_def)

lemma LOG_LEV1_bit [flag_bits]: "bit LOG_LEV1 n \<longleftrightarrow> n = 9" "has x LOG_LEV1 \<longleftrightarrow> bit x 9"
  using flag_at [of LOG_LEV1 9] by (simp_all add: LOG_LEV1_def)

lemma LOG_LEV2_bit [flag_bits]: "bit LOG_LEV2 n \<longleftrightarrow> n = 10" "has x LOG_LEV2 \<longleftrightarrow> bit x 10"
  using flag_at [of LOG_LEV2 10] by (simp_all add: LOG_LEV2_def)

lemma LOG_LEV3_bit [flag_bits]: "bit LOG_LEV3 n \<longleftrightarrow> n = 11" "has x LOG_LEV3 \<longleftrightarrow> bit x 11"
  using flag_at [of LOG_LEV3 11] by (simp_all add: LOG_LEV3_def)

lemma LOG_LEV4_bit [flag_bits]: "bit LOG_LEV4 n \<longleftrightarrow> n = 12" "has x LOG_LEV4 \<longleftrightarrow> bit x 12"
  using flag_at [of LOG_LEV4 12] by (simp_all add: LOG_LEV4_def)

lemma LOG_LEV5_bit [flag_bits]: "bit LOG_LEV5 n \<longleftrightarrow> n = 13" "has x LOG_LEV5 \<longleftrightarrow> bit x 13"
  using flag_at [of LOG_LEV5 13] by (simp_all add: LOG_LEV5_def)

lemma LOG_LEV6_bit [flag_bits]: "bit LOG_LEV6 n \<longleftrightarrow> n = 14" "has x LOG_LEV6 \<longleftrightarrow> bit x 14"
  using flag_at [of LOG_LEV6 14] by (simp_all add: LOG_LEV6_def)

lemma LOG_LEV7_bit [flag_bits]: "bit LOG_LEV7 n \<longleftrightarrow> n = 15" "has x LOG_LEV7 \<longleftrightarrow> bit x 15"
  using flag_at [of LOG_LEV7 15] by (simp_all add: LOG_LEV7_def)

lemma LOG_LEV8_bit [flag_bits]: "bit LOG_LEV8 n \<longleftrightarrow> n = 16" "has x LOG_LEV8 \<longleftrightarrow> bit x 16"
  using flag_at [of LOG_LEV8 16] by (simp_all add: LOG_LEV8_def)

lemma LOG_SERV_bit [flag_bits]: "bit LOG_SERV n \<longleftrightarrow> n = 17" "has x LOG_SERV \<longleftrightarrow> bit x 17"
  using flag_at [of LOG_SERV 17] by (simp_all add: LOG_SERV_def)

lemma LOG_DEBUG_bit [flag_bits]: "bit LOG_DEBUG n \<longleftrightarrow> n = 18" "has x LOG_DEBUG \<longleftrightarrow> bit x 18"
  using flag_at [of LOG_DEBUG 18] by (simp_all add: LOG_DEBUG_def)

lemma LOG_WALL_bit [flag_bits]: "bit LOG_WALL n \<longleftrightarrow> n = 19" "has x LOG_WALL \<longleftrightarrow> bit x 19"
  using flag_at [of LOG_WALL 19] by (simp_all add: LOG_WALL_def)

lemma LOG_SRVOUT_bit [flag_bits]: "bit LOG_SRVOUT n \<longleftrightarrow> n = 20" "has x LOG_SRVOUT \<longleftrightarrow> bit x 20"
  using flag_at [of LOG_SRVOUT 20] by (simp_all add: LOG_SRVOUT_def)

lemma LOG_BOTNETIN_bit [flag_bits]: "bit LOG_BOTNETIN n \<longleftrightarrow> n = 21" "has x LOG_BOTNETIN \<longleftrightarrow> bit x 21"
  using flag_at [of LOG_BOTNETIN 21] by (simp_all add: LOG_BOTNETIN_def)

lemma LOG_BOTSHRIN_bit [flag_bits]: "bit LOG_BOTSHRIN n \<longleftrightarrow> n = 22" "has x LOG_BOTSHRIN \<longleftrightarrow> bit x 22"
  using flag_at [of LOG_BOTSHRIN 22] by (simp_all add: LOG_BOTSHRIN_def)

lemma LOG_BOTNETOUT_bit [flag_bits]: "bit LOG_BOTNETOUT n \<longleftrightarrow> n = 23" "has x LOG_BOTNETOUT \<longleftrightarrow> bit x 23"
  using flag_at [of LOG_BOTNETOUT 23] by (simp_all add: LOG_BOTNETOUT_def)

lemma LOG_BOTSHROUT_bit [flag_bits]: "bit LOG_BOTSHROUT n \<longleftrightarrow> n = 24" "has x LOG_BOTSHROUT \<longleftrightarrow> bit x 24"
  using flag_at [of LOG_BOTSHROUT 24] by (simp_all add: LOG_BOTSHROUT_def)

lemma LOG_BOTMSG_bit [flag_bits]: "bit LOG_BOTMSG n \<longleftrightarrow> n = 25" "has x LOG_BOTMSG \<longleftrightarrow> bit x 25"
  using flag_at [of LOG_BOTMSG 25] by (simp_all add: LOG_BOTMSG_def)

lemma BOT_AGGRESSIVE_int [flag_bits]:
  "bit (ucast BOT_AGGRESSIVE :: int32) n \<longleftrightarrow> n = 18"
  "has x (ucast BOT_AGGRESSIVE :: int32) \<longleftrightarrow> bit x 18"
  using flag_at [of "ucast BOT_AGGRESSIVE :: int32" 18] by (simp_all add: BOT_AGGRESSIVE_def)

end
