(* ===== verification/Flags.thy ===== *)
theory Flags
  imports FlagBits
begin

text \<open>
  \<open>src/src/flags.c\<close>: log masks, the three sanity checks on flag changes, the textual form of a
  flag record and the two permission tests. The globals \<open>raw_log\<close>, \<open>require_p\<close> and
  \<open>allow_dk_cmds\<close> are arguments.
\<close>

section \<open>Log masks\<close>

definition logmode :: "bool \<Rightarrow> char \<Rightarrow> int32" where
  "logmode raw_log c =
     (if c = CHR ''m'' \<or> c = CHR ''M'' then LOG_MSGS
      else if c = CHR ''p'' \<or> c = CHR ''P'' then LOG_PUBLIC
      else if c = CHR ''j'' \<or> c = CHR ''J'' then LOG_JOIN
      else if c = CHR ''k'' \<or> c = CHR ''K'' then LOG_MODES
      else if c = CHR ''c'' \<or> c = CHR ''C'' then LOG_CMDS
      else if c = CHR ''o'' \<or> c = CHR ''O'' then LOG_MISC
      else if c = CHR ''b'' \<or> c = CHR ''B'' then LOG_BOTS
      else if c = CHR ''l'' \<or> c = CHR ''L'' then LOG_BOTMSG
      else if c = CHR ''r'' \<or> c = CHR ''R'' then (if raw_log then LOG_RAW else 0)
      else if c = CHR ''w'' \<or> c = CHR ''W'' then LOG_WALL
      else if c = CHR ''x'' \<or> c = CHR ''X'' then LOG_FILES
      else if c = CHR ''s'' \<or> c = CHR ''S'' then LOG_SERV
      else if c = CHR ''d'' \<or> c = CHR ''D'' then LOG_DEBUG
      else if c = CHR ''v'' \<or> c = CHR ''V'' then (if raw_log then LOG_SRVOUT else 0)
      else if c = CHR ''t'' \<or> c = CHR ''T'' then (if raw_log then LOG_BOTNETIN else 0)
      else if c = CHR ''u'' \<or> c = CHR ''U'' then (if raw_log then LOG_BOTNETOUT else 0)
      else if c = CHR ''h'' \<or> c = CHR ''H'' then (if raw_log then LOG_BOTSHRIN else 0)
      else if c = CHR ''g'' \<or> c = CHR ''G'' then (if raw_log then LOG_BOTSHROUT else 0)
      else if c = CHR ''1'' then LOG_LEV1
      else if c = CHR ''2'' then LOG_LEV2
      else if c = CHR ''3'' then LOG_LEV3
      else if c = CHR ''4'' then LOG_LEV4
      else if c = CHR ''5'' then LOG_LEV5
      else if c = CHR ''6'' then LOG_LEV6
      else if c = CHR ''7'' then LOG_LEV7
      else if c = CHR ''8'' then LOG_LEV8
      else if c = CHR ''*'' then LOG_ALL
      else 0)"

fun logmodes_loop :: "bool \<Rightarrow> int32 \<Rightarrow> string \<Rightarrow> int32" where
  "logmodes_loop raw_log res [] = res"
| "logmodes_loop raw_log res (c # s) = logmodes_loop raw_log (res OR logmode raw_log c) s"

definition logmodes :: "bool \<Rightarrow> string \<Rightarrow> int32" where
  "logmodes raw_log s = logmodes_loop raw_log 0 s"

text \<open>
  The sequence of tests \<open>masktype\<close> and \<open>maskname\<close> make, in order: the mask, whether it is only
  shown with \<open>raw_log\<close>, and what each of the two functions appends.
\<close>

definition log_tests :: "(int32 \<times> bool \<times> char \<times> string) list" where
  "log_tests =
    [(LOG_MSGS, False, CHR ''m'', ''msgs, ''),
     (LOG_PUBLIC, False, CHR ''p'', ''public, ''),
     (LOG_JOIN, False, CHR ''j'', ''joins, ''),
     (LOG_MODES, False, CHR ''k'', ''kicks/modes, ''),
     (LOG_CMDS, False, CHR ''c'', ''cmds, ''),
     (LOG_MISC, False, CHR ''o'', ''misc, ''),
     (LOG_BOTS, False, CHR ''b'', ''bots, ''),
     (LOG_BOTMSG, False, CHR ''l'', ''linked bot msgs, ''),
     (LOG_RAW, True, CHR ''r'', ''raw, ''),
     (LOG_FILES, False, CHR ''x'', ''files, ''),
     (LOG_SERV, False, CHR ''s'', ''server input, ''),
     (LOG_DEBUG, False, CHR ''d'', ''debug, ''),
     (LOG_WALL, False, CHR ''w'', ''wallops, ''),
     (LOG_SRVOUT, True, CHR ''v'', ''server output, ''),
     (LOG_BOTNETIN, True, CHR ''t'', ''botnet incoming, ''),
     (LOG_BOTNETOUT, True, CHR ''u'', ''botnet outgoing, ''),
     (LOG_BOTSHRIN, True, CHR ''h'', ''incoming share traffic, ''),
     (LOG_BOTSHROUT, True, CHR ''g'', ''outgoing share traffic, ''),
     (LOG_LEV1, False, CHR ''1'', ''level 1, ''),
     (LOG_LEV2, False, CHR ''2'', ''level 2, ''),
     (LOG_LEV3, False, CHR ''3'', ''level 3, ''),
     (LOG_LEV4, False, CHR ''4'', ''level 4, ''),
     (LOG_LEV5, False, CHR ''5'', ''level 5, ''),
     (LOG_LEV6, False, CHR ''6'', ''level 6, ''),
     (LOG_LEV7, False, CHR ''7'', ''level 7, ''),
     (LOG_LEV8, False, CHR ''8'', ''level 8, '')]"

definition masktype :: "bool \<Rightarrow> int32 \<Rightarrow> string" where
  "masktype raw_log x =
     (let s = concat (map (\<lambda>(f, raw, c, _). if has x f \<and> (raw \<longrightarrow> raw_log) then [c] else [])
                log_tests)
      in if s = [] then ''-'' else s)"

definition maskname :: "bool \<Rightarrow> int32 \<Rightarrow> string" where
  "maskname raw_log x =
     (let b = concat (map (\<lambda>(f, raw, _, n). if has x f \<and> (raw \<longrightarrow> raw_log) then n else [])
                log_tests)
      in if b \<noteq> [] then take (length b - 2) b else ''none'')"

section \<open>Sanity checks\<close>

definition sanity_check :: "int32 \<Rightarrow> int32" where
  "sanity_check atr =
     (let m = USER_PARTY OR USER_MASTER OR USER_COMMON OR USER_OWNER;
          atr = (if has atr USER_BOT \<and> has atr m then atr AND NOT m else atr);
          atr = (if has atr USER_OP \<and> has atr USER_DEOP
                 then atr AND NOT (USER_OP OR USER_DEOP) else atr);
          atr = (if has atr USER_HALFOP \<and> has atr USER_DEHALFOP
                 then atr AND NOT (USER_HALFOP OR USER_DEHALFOP) else atr);
          atr = (if has atr USER_AUTOOP \<and> has atr USER_DEOP
                 then atr AND NOT (USER_AUTOOP OR USER_DEOP) else atr);
          atr = (if has atr USER_AUTOHALFOP \<and> has atr USER_DEHALFOP
                 then atr AND NOT (USER_AUTOHALFOP OR USER_DEHALFOP) else atr);
          atr = (if has atr USER_VOICE \<and> has atr USER_QUIET
                 then atr AND NOT (USER_VOICE OR USER_QUIET) else atr);
          atr = (if has atr USER_GVOICE \<and> has atr USER_QUIET
                 then atr AND NOT (USER_GVOICE OR USER_QUIET) else atr);
          atr = (if has atr USER_OWNER then atr OR USER_MASTER else atr);
          atr = (if has atr USER_MASTER
                 then atr OR (USER_BOTMAST OR USER_OP OR USER_JANITOR) else atr);
          atr = (if has atr USER_BOTMAST then atr OR USER_PARTY else atr);
          atr = (if has atr USER_JANITOR then atr OR USER_XFER else atr);
          atr = (if has atr USER_OP then atr OR USER_HALFOP else atr)
      in atr)"

text \<open>
  The three checks below run on a pair of the attribute word and the message ids collected so
  far. The block for two exclusive flags \<open>d\<close> and \<open>o\<close> is written out once per pair in the C:
  asked for both at once, the flag held before is put back (\<open>d\<close> first); otherwise the flag
  that was already held yields (\<open>o\<close> is tried first).
\<close>

type_synonym 'a sane = "'a word \<times> int32"

definition own_both ::
  "'a::len word \<Rightarrow> 'a word \<Rightarrow> 'a word \<Rightarrow> int32 \<Rightarrow> 'a sane \<Rightarrow> 'a sane" where
  "own_both d p old m_both = (\<lambda>(atr, msgids).
     (let atr = atr AND NOT (d OR p)
      in if has old d then atr OR d else if has old p then atr OR p else atr,
      msgids OR m_both))"

definition own_pair ::
  "'a::len word \<Rightarrow> 'a word \<Rightarrow> int32 \<Rightarrow> int32 \<Rightarrow> int32 \<Rightarrow>
   'a word \<Rightarrow> 'a word \<Rightarrow> 'a sane \<Rightarrow> 'a sane" where
  "own_pair d p m_both m_d m_p chg old = (\<lambda>(atr, msgids).
     if has chg p \<and> has chg d then own_both d p old m_both (atr, msgids)
     else if has old p then (atr AND NOT p, msgids OR m_d)
     else if has old d then (atr AND NOT d, msgids OR m_p)
     else (atr AND NOT (d OR p), msgids OR m_both))"

definition exclusive ::
  "'a::len word \<Rightarrow> 'a word \<Rightarrow> int32 \<Rightarrow> int32 \<Rightarrow> int32 \<Rightarrow>
   'a word \<Rightarrow> 'a word \<Rightarrow> 'a sane \<Rightarrow> 'a sane" where
  "exclusive d p m_both m_d m_p chg old s =
     (if has (fst s) p \<and> has (fst s) d then own_pair d p m_both m_d m_p chg old s else s)"

text \<open>\<open>if (*atr & f) \<dots>\<close> with a plain removal, and the "\<open>f\<close> adds \<open>g\<close>" blocks.\<close>

definition drop_flag :: "'a::len word \<Rightarrow> int32 \<Rightarrow> 'a sane \<Rightarrow> 'a sane" where
  "drop_flag f m = (\<lambda>(atr, msgids).
     if has atr f then (atr AND NOT f, msgids OR m) else (atr, msgids))"

definition wanted_adds ::
  "int32 \<Rightarrow> int32 \<Rightarrow> int32 \<Rightarrow> int32 \<Rightarrow> int32 \<Rightarrow> 32 sane \<Rightarrow> 32 sane" where
  "wanted_adds f g m chg old = (\<lambda>(atr, msgids).
     if has atr f \<and> has chg f \<and> \<not> has old g then (atr OR g, msgids OR m) else (atr, msgids))"

definition implies_flag :: "int32 \<Rightarrow> int32 \<Rightarrow> int32 \<Rightarrow> 32 sane \<Rightarrow> 32 sane" where
  "implies_flag f g m = (\<lambda>(atr, msgids).
     if has atr f \<and> \<not> has atr g then (atr OR g, msgids OR m) else (atr, msgids))"

text \<open>The six exclusive pairs and the three auto-flags, common to user and channel flags.\<close>

definition uc_conflicts :: "int32 \<Rightarrow> int32 \<Rightarrow> 32 sane \<Rightarrow> 32 sane" where
  "uc_conflicts chg old s0 =
     (let s1 = exclusive USER_DEOP USER_OP
                 UC_SANE_OWNSDEOPOP UC_SANE_DEOPOWNSOP UC_SANE_OPOWNSDEOP chg old s0;
          s2 = exclusive USER_DEHALFOP USER_HALFOP
                 UC_SANE_OWNSDEHALFOPHALFOP UC_SANE_DEHALFOPOWNSHALFOP
                 UC_SANE_HALFOPOWNSDEHALFOP chg old s1;
          s3 = exclusive USER_DEOP USER_AUTOOP
                 UC_SANE_OWNSDEOPAUTOOP UC_SANE_DEOPOWNSAUTOOP UC_SANE_AUTOOPOWNSDEOP chg old s2;
          s4 = exclusive USER_DEHALFOP USER_AUTOHALFOP
                 UC_SANE_OWNSDEHALFOPAHALFOP UC_SANE_DEHALFOPOWNSAHALFOP
                 UC_SANE_AHALFOPOWNSDEHALFOP chg old s3;
          s5 = exclusive USER_QUIET USER_VOICE
                 UC_SANE_OWNSQUIETVOICE UC_SANE_QUIETOWNSVOICE UC_SANE_VOICEOWNSQUIET chg old s4;
          s6 = exclusive USER_QUIET USER_GVOICE
                 UC_SANE_OWNSQUIETGVOICE UC_SANE_QUIETOWNSGVOICE UC_SANE_GVOICEOWNSQUIET
                 chg old s5
      in s6)"

definition uc_autos :: "int32 \<Rightarrow> int32 \<Rightarrow> 32 sane \<Rightarrow> 32 sane" where
  "uc_autos chg old s0 =
     (let s1 = wanted_adds USER_AUTOOP USER_OP UC_SANE_AUTOOPADDSOP chg old s0;
          s2 = wanted_adds USER_AUTOHALFOP USER_HALFOP UC_SANE_AUTOHALFOPADDSHALFOP chg old s1;
          s3 = wanted_adds USER_GVOICE USER_VOICE UC_SANE_GVOICEADDSVOICE chg old s2
      in s3)"

definition user_bot_drops :: "32 sane \<Rightarrow> 32 sane" where
  "user_bot_drops s =
     (if has (fst s) USER_BOT
      then drop_flag USER_OWNER UC_SANE_BOTOWNSOWNER
            (drop_flag USER_COMMON UC_SANE_BOTOWNSCOMMON
              (drop_flag USER_MASTER UC_SANE_BOTOWNSMASTER
                (drop_flag USER_PARTY UC_SANE_BOTOWNSPARTY s)))
      else s)"

definition user_sanity_check :: "int32 \<Rightarrow> int32 \<Rightarrow> int32 \<Rightarrow> 32 sane" where
  "user_sanity_check atr pls_atr min_atr =
     (let old_atr = atr;
          chg = pls_atr AND NOT min_atr;
          s = user_bot_drops ((atr OR pls_atr) AND NOT min_atr, 0);
          s = uc_conflicts chg old_atr s;
          s = uc_autos chg old_atr s;
          s = implies_flag USER_OWNER USER_MASTER UC_SANE_OWNERADDSMASTER s;
          s = implies_flag USER_MASTER (USER_BOTMAST OR USER_OP OR USER_JANITOR)
                UC_SANE_MASTERADDSBOTMOPJAN s;
          s = implies_flag USER_BOTMAST USER_PARTY UC_SANE_BOTMASTADDSPARTY s;
          s = implies_flag USER_JANITOR USER_XFER UC_SANE_JANADDSXFER s;
          s = implies_flag USER_OP USER_HALFOP UC_SANE_OPADDSHALFOP s
      in s)"

definition chan_sanity_check :: "int32 \<Rightarrow> int32 \<Rightarrow> int32 \<Rightarrow> int32 \<Rightarrow> 32 sane" where
  "chan_sanity_check atr pls_atr min_atr usr_atr =
     (let old_atr = atr;
          chg = pls_atr AND NOT min_atr;
          s = ((atr OR pls_atr) AND NOT min_atr, 0);
          s = uc_conflicts chg old_atr s;
          s = uc_autos chg old_atr s;
          s = implies_flag USER_OWNER USER_MASTER UC_SANE_OWNERADDSMASTER s;
          s = implies_flag USER_MASTER USER_OP UC_SANE_MASTERADDSOP s;
          s = implies_flag USER_OP USER_HALFOP UC_SANE_OPADDSHALFOP s
      in if \<not> has usr_atr USER_BOT \<and> has (fst s) (ucast BOT_AGGRESSIVE)
         then (fst s AND NOT (ucast BOT_AGGRESSIVE), snd s OR UC_SANE_NOBOTOWNSAGGR)
         else s)"

text \<open>
  Bot flags. Against the granular sharing flags the order of the two removal tests is the
  other way round (\<open>own_perms\<close>), and the inner blocks of a nested test run on what the
  blocks before them left.
\<close>

definition own_perms ::
  "intptr \<Rightarrow> int32 \<Rightarrow> int32 \<Rightarrow> int32 \<Rightarrow> intptr \<Rightarrow> intptr \<Rightarrow> 64 sane \<Rightarrow> 64 sane" where
  "own_perms f m_both m_perms m_f chg old = (\<lambda>(atr, msgids).
     if has chg f \<and> has chg BOT_SHPERMS then own_both f BOT_SHPERMS old m_both (atr, msgids)
     else if has old f then (atr AND NOT f, msgids OR m_perms)
     else if has old BOT_SHPERMS then (atr AND NOT BOT_SHPERMS, msgids OR m_f)
     else (atr AND NOT (BOT_SHPERMS OR f), msgids OR m_both))"

definition bot_perms_block :: "intptr \<Rightarrow> intptr \<Rightarrow> 64 sane \<Rightarrow> 64 sane" where
  "bot_perms_block chg old s =
     (if has (fst s) BOT_SHPERMS
      then let s1 = (if has (fst s) BOT_AGGRESSIVE
                     then own_perms BOT_AGGRESSIVE BOT_SANE_OWNSSHPAGGR BOT_SANE_SHPOWNSAGGR
                            BOT_SANE_AGGROWNSSHP chg old s
                     else s)
           in if has (fst s1) BOT_PASSIVE
              then own_perms BOT_PASSIVE BOT_SANE_OWNSSHPPASS BOT_SANE_SHPOWNSPASS
                     BOT_SANE_PASSOWNSSHP chg old s1
              else s1
      else s)"

definition bot_reject_block :: "intptr \<Rightarrow> intptr \<Rightarrow> 64 sane \<Rightarrow> 64 sane" where
  "bot_reject_block chg old s =
     (if has (fst s) BOT_REJECT
      then let s1 = (if has (fst s) BOT_SHARE
                     then own_pair BOT_SHARE BOT_REJECT BOT_SANE_OWNSSHAREREJ
                            BOT_SANE_SHAREOWNSREJ BOT_SANE_REJOWNSSHARE chg old s
                     else s);
               s2 = (if has (fst s1) BOT_HUB
                     then own_pair BOT_HUB BOT_REJECT BOT_SANE_OWNSHUBREJ
                            BOT_SANE_HUBOWNSREJ BOT_SANE_REJOWNSHUB chg old s1
                     else s1)
           in if has (fst s2) BOT_ALT
              then own_pair BOT_ALT BOT_REJECT BOT_SANE_OWNSALTREJ
                     BOT_SANE_ALTOWNSREJ BOT_SANE_REJOWNSALT chg old s2
              else s2
      else s)"

definition bot_global_block :: "intptr \<Rightarrow> 64 sane \<Rightarrow> 64 sane" where
  "bot_global_block old = (\<lambda>(atr, msgids).
     if \<not> has atr BOT_SHARE \<and> has atr BOT_GLOBAL
     then if has old BOT_GLOBAL then (atr AND NOT BOT_GLOBAL, msgids OR BOT_SANE_NOSHAREOWNSGLOB)
          else if \<not> has old BOT_SHARE then (atr AND NOT BOT_GLOBAL, msgids OR BOT_SANE_OWNSGLOB)
          else (atr, msgids)
     else (atr, msgids))"

definition bot_sanity_check :: "intptr \<Rightarrow> intptr \<Rightarrow> intptr \<Rightarrow> 64 sane" where
  "bot_sanity_check atr pls_atr min_atr =
     (let old_atr = atr;
          chg = pls_atr AND NOT min_atr;
          s = ((atr OR pls_atr) AND NOT min_atr, 0);
          s = exclusive BOT_ALT BOT_HUB
                BOT_SANE_OWNSALTHUB BOT_SANE_ALTOWNSHUB BOT_SANE_HUBOWNSALT chg old_atr s;
          s = bot_perms_block chg old_atr s;
          s = bot_reject_block chg old_atr s;
          s = exclusive BOT_AGGRESSIVE BOT_PASSIVE
                BOT_SANE_OWNSAGGRPASS BOT_SANE_AGGROWNSPASS BOT_SANE_PASSOWNSAGGR chg old_atr s
      in bot_global_block old_atr s)"

section \<open>Flag records as text\<close>

record flag_record =
  fr_match :: int32
  fr_global :: int32
  fr_udef_global :: int32
  fr_bot :: intptr
  fr_chan :: int32
  fr_udef_chan :: int32

definition zero_fr :: flag_record where
  "zero_fr = \<lparr>fr_match = 0, fr_global = 0, fr_udef_global = 0, fr_bot = 0, fr_chan = 0,
              fr_udef_chan = 0\<rparr>"

text \<open>
  The \<open>default:\<close> branch of \<open>break_down_flags\<close>: a letter or digit sets one bit of the part of
  the record that \<open>mode\<close> selects (0 global, 1 channel, 2 bot).
\<close>

definition bd_letter :: "char \<Rightarrow> nat \<Rightarrow> flag_record \<Rightarrow> flag_record" where
  "bd_letter c mode w =
     (if CHR ''a'' \<le> c \<and> c \<le> CHR ''z'' then
        let b = uc c - uc (CHR ''a'')
        in if mode = 0 then w\<lparr>fr_global := fr_global w OR push_bit b 1\<rparr>
           else if mode = 1 then w\<lparr>fr_chan := fr_chan w OR push_bit b 1\<rparr>
           else if mode = 2 \<and> c \<le> CHR ''u'' then w\<lparr>fr_bot := fr_bot w OR push_bit b 1\<rparr>
           else w
      else if CHR ''A'' \<le> c \<and> c \<le> CHR ''Z'' then
        let b = uc c - uc (CHR ''A'')
        in if mode = 0 then w\<lparr>fr_udef_global := fr_udef_global w OR push_bit b 1\<rparr>
           else if mode = 1 then w\<lparr>fr_udef_chan := fr_udef_chan w OR push_bit b 1\<rparr>
           else w
      else if CHR ''0'' \<le> c \<and> c \<le> CHR ''9'' then
        let b = uc c - uc (CHR ''0'')
        in if mode = 0 then w\<lparr>fr_udef_global := fr_udef_global w OR push_bit b 1\<rparr>
           else if mode = 1 then w\<lparr>fr_udef_chan := fr_udef_chan w OR push_bit b 1\<rparr>
           else if mode = 2 then w\<lparr>fr_bot := fr_bot w OR push_bit b BOT_FLAG0\<rparr>
           else w
      else w)"

text \<open>
  The loop over the string. \<open>w\<close> says that \<open>which\<close> points to \<open>minus\<close>; a NULL \<open>minus\<close> is \<open>None\<close>.
\<close>

fun bd_loop ::
  "int32 \<Rightarrow> string \<Rightarrow> bool \<Rightarrow> nat \<Rightarrow> flag_record \<Rightarrow> flag_record option \<Rightarrow>
   flag_record \<times> flag_record option" where
  "bd_loop flags [] w mode pls mns = (pls, mns)"
| "bd_loop flags (c # s) w mode pls mns =
     (if c = CHR ''+'' then bd_loop flags s False mode pls mns
      else if c = CHR ''-'' then bd_loop flags s (mns \<noteq> None) mode pls mns
      else if c = CHR ''|'' \<or> c = CHR ''&'' then
        let pls = (if mode = 0
                    then pls\<lparr>fr_match := (if c = CHR ''|'' then FR_OR else FR_AND)\<rparr>
                    else pls);
            mode = mode + 1
        in if mode = 2 \<and> \<not> has flags (FR_CHAN OR FR_BOT) then (pls, mns)
           else bd_loop flags s False (if mode = 3 then 1 else mode) pls mns
      else if w then bd_loop flags s w mode pls (map_option (bd_letter c mode) mns)
      else bd_loop flags s w mode (bd_letter c mode pls) mns)"

definition bd_valid :: "flag_record \<Rightarrow> flag_record" where
  "bd_valid w = w\<lparr>fr_global := fr_global w AND USER_VALID,
                  fr_udef_global := fr_udef_global w AND 0x03ffffff,
                  fr_chan := fr_chan w AND CHAN_VALID,
                  fr_udef_chan := fr_udef_chan w AND 0x03ffffff,
                  fr_bot := fr_bot w AND BOT_VALID\<rparr>"

definition break_down_flags ::
  "string \<Rightarrow> flag_record \<Rightarrow> flag_record option \<Rightarrow> flag_record \<times> flag_record option" where
  "break_down_flags str pls mns =
     (let flags = fr_match pls
      in if \<not> has flags FR_GLOBAL \<and> \<not> has flags FR_BOT \<and> \<not> has flags FR_CHAN then (pls, mns)
         else
           let mode = (if has flags FR_GLOBAL then 0 else if has flags FR_BOT then 2 else 1);
               (pls, mns) = bd_loop flags str False mode (zero_fr\<lparr>fr_match := FR_OR\<rparr>)
                                 (map_option (\<lambda>_. zero_fr) mns);
               pls = bd_valid pls;
               mns = map_option bd_valid mns;
               pls = pls\<lparr>fr_match := fr_match pls OR flags\<rparr>
           in case mns of
                None \<Rightarrow> (pls, None)
              | Some m \<Rightarrow>
                  (if \<not> has (fr_match pls) (FR_AND OR FR_OR)
                   then pls\<lparr>fr_match := fr_match pls OR FR_OR\<rparr> else pls,
                   Some (m\<lparr>fr_match := fr_match m OR flags\<rparr>)))"

text \<open>
  \<open>flag2str\<close> and \<open>bot2str\<close> walk an alphabet while shifting the word right (arithmetically, it is
  an \<open>int\<close>); \<open>flag2str\<close> stops early when no bit is left.
\<close>

definition lower_alphabet :: string where
  "lower_alphabet = ''abcdefghijklmnopqrstuvwxyz''"

definition upper_alphabet :: string where
  "upper_alphabet = ''ABCDEFGHIJKLMNOPQRSTUVWXYZ''"

definition bot_alphabet :: string where
  "bot_alphabet = ''abcdefghijklmnopqrstu'' @ ''0123456789''"

fun flag_letters :: "string \<Rightarrow> int32 \<Rightarrow> string" where
  "flag_letters [] v = []"
| "flag_letters (x # xs) v =
     (if v = 0 then []
      else (if has v 1 then [x] else []) @ flag_letters xs (signed_drop_bit 1 v))"

definition flag2str :: "int32 \<Rightarrow> int32 \<Rightarrow> string" where
  "flag2str b udef =
     (let s = flag_letters lower_alphabet b @ flag_letters upper_alphabet udef
      in if s = [] then ''-'' else s)"

fun bot_letters :: "string \<Rightarrow> int32 \<Rightarrow> string" where
  "bot_letters [] v = []"
| "bot_letters (x # xs) v =
     (if has v 1 then [x] else []) @ bot_letters xs (signed_drop_bit 1 v)"

definition bot2str :: "int32 \<Rightarrow> string" where
  "bot2str b = (let s = bot_letters bot_alphabet b in if s = [] then ''-'' else s)"

text \<open>One "\<open>+plus-minus\<close>" section of \<open>build_flags\<close>, over the printer for that section.\<close>

definition bf_section :: "(flag_record \<Rightarrow> bool) \<Rightarrow> (flag_record \<Rightarrow> string) \<Rightarrow> flag_record \<Rightarrow>
    flag_record option \<Rightarrow> string" where
  "bf_section nonempty print pls mns =
     (if mns \<noteq> None \<and> nonempty pls then ''+'' else '''') @ print pls @
     (case mns of None \<Rightarrow> ''''
      | Some m \<Rightarrow> if nonempty m then ''-'' @ print m else '''')"

definition build_flags_str :: "flag_record \<Rightarrow> flag_record option \<Rightarrow> string" where
  "build_flags_str pls mns =
     (if has (fr_match pls) FR_GLOBAL then
        bf_section (\<lambda>r. fr_global r \<noteq> 0 \<or> fr_udef_global r \<noteq> 0)
          (\<lambda>r. flag2str (fr_global r) (fr_udef_global r)) pls mns
      else if has (fr_match pls) FR_BOT then
        bf_section (\<lambda>r. fr_bot r \<noteq> 0) (\<lambda>r. bot2str (ucast (fr_bot r))) pls mns
      else '''') @
     (if has (fr_match pls) FR_CHAN then
        (if has (fr_match pls) (FR_GLOBAL OR FR_BOT)
         then (if has (fr_match pls) FR_AND then ''&'' else ''|'') else '''') @
        bf_section (\<lambda>r. fr_chan r \<noteq> 0 \<or> fr_udef_chan r \<noteq> 0)
          (\<lambda>r. flag2str (fr_chan r) (fr_udef_chan r)) pls mns
      else '''')"

text \<open>\<open>build_flags\<close>: the string written and the value returned.\<close>

definition build_flags :: "flag_record \<Rightarrow> flag_record option \<Rightarrow> string \<times> nat" where
  "build_flags pls mns =
     (let s = build_flags_str pls mns in if s = [] then (''-'', 0) else (s, length s))"

section \<open>Permission tests\<close>

definition flagrec_eq :: "flag_record \<Rightarrow> flag_record \<Rightarrow> bool" where
  "flagrec_eq req have =
     (if has (fr_match req) FR_AND then
        \<not> (has (fr_match req) FR_GLOBAL \<and>
            (fr_global req AND fr_global have \<noteq> fr_global req \<or>
             fr_udef_global req AND fr_udef_global have \<noteq> fr_udef_global req)) \<and>
        \<not> (has (fr_match req) FR_BOT \<and> fr_bot req AND fr_bot have \<noteq> fr_bot req) \<and>
        \<not> (has (fr_match req) FR_CHAN \<and>
            (fr_chan req AND fr_chan have \<noteq> fr_chan req \<or>
             fr_udef_chan req AND fr_udef_chan have \<noteq> fr_udef_chan req))
      else if has (fr_match req) FR_OR then
        if fr_chan req = 0 \<and> fr_global req = 0 \<and> fr_udef_chan req = 0 \<and>
           fr_udef_global req = 0 \<and> fr_bot req = 0 then True
        else
          has (fr_match req) FR_GLOBAL \<and>
            (has (fr_global have) (fr_global req) \<or>
             has (fr_udef_global have) (fr_udef_global req)) \<or>
          has (fr_match req) FR_BOT \<and> has (fr_bot have) (fr_bot req) \<or>
          has (fr_match req) FR_CHAN \<and>
            (has (fr_chan have) (fr_chan req) \<or> has (fr_udef_chan have) (fr_udef_chan req))
      else False)"

definition flagrec_ok :: "bool \<Rightarrow> bool \<Rightarrow> flag_record \<Rightarrow> flag_record \<Rightarrow> bool" where
  "flagrec_ok require_p allow_dk_cmds req have =
     (if has (fr_match req) FR_AND then
        if \<not> require_p \<and> (has (fr_global have) USER_OP \<or> has (fr_chan have) USER_OWNER)
        then flagrec_eq req (have\<lparr>fr_global := fr_global have OR USER_PARTY\<rparr>)
        else flagrec_eq req have
      else if has (fr_match req) FR_OR then
        if fr_chan req = 0 \<and> fr_global req = 0 \<and> fr_udef_global req = 0 \<and> fr_udef_chan req = 0
        then
          if \<not> allow_dk_cmds then
            if has (fr_global have) USER_PARTY then True
            else if has (fr_global have) USER_KICK \<or> has (fr_chan have) USER_KICK then False
            else if has (fr_global have) USER_DEOP \<or> has (fr_chan have) USER_DEOP then False
            else True
          else True
        else
          let hav = (if \<not> require_p \<and> (has (fr_global have) USER_OP \<or> has (fr_chan have) USER_OWNER)
                     then fr_global have OR USER_PARTY else fr_global have)
          in has hav (fr_global req) \<or> has (fr_chan have) (fr_chan req) \<or>
             has (fr_udef_global have) (fr_udef_global req) \<or>
             has (fr_udef_chan have) (fr_udef_chan req)
      else False)"

end
