(* ===== verification/FlagsText.thy ===== *)
theory FlagsText
  imports Flags
begin

text \<open>
  The textual forms of \<open>src/src/flags.c\<close> round trip: log levels through \<open>masktype\<close> and
  \<open>logmodes\<close>, flag records through \<open>build_flags\<close> and \<open>break_down_flags\<close>; and what the two
  permission tests mean.
\<close>


section \<open>Log masks round trip\<close>

lemma logmodes_loop_or: "logmodes_loop r (a OR b) s = a OR logmodes_loop r b s"
  by (induction s arbitrary: b) (simp_all add: or.assoc)

lemma logmodes_Nil: "logmodes r [] = 0"
  by (simp add: logmodes_def)

lemma logmodes_append: "logmodes r (s @ t) = logmodes r s OR logmodes r t"
proof -
  have "logmodes_loop r a (s @ t) = logmodes_loop r (logmodes_loop r a s) t" for a
    by (induction s arbitrary: a) simp_all
  then show ?thesis
    using logmodes_loop_or [of r "logmodes_loop r 0 s" 0 t] by (simp add: logmodes_def)
qed

lemma logmodes_single: "logmodes r [c] = logmode r c"
  by (simp add: logmodes_def)

lemma bit_logmodes_concat:
  "bit (logmodes r (concat (map g tab))) n \<longleftrightarrow> (\<exists>e\<in>set tab. bit (logmodes r (g e)) n)"
  by (induction tab) (simp_all add: logmodes_Nil logmodes_append flag_bits)

lemma log_tests_logmode:
  "\<forall>(f, raw, c, nm) \<in> set log_tests. logmode r c = (if raw \<longrightarrow> r then f else 0)"
  by (simp add: log_tests_def logmode_def)

lemma logmodes_masktype_bit:
  "bit (logmodes r (masktype r x)) n \<longleftrightarrow>
     (\<exists>(f, raw, c, nm) \<in> set log_tests. has x f \<and> (raw \<longrightarrow> r) \<and> bit f n)"
proof -
  let ?g = "\<lambda>(f, raw, c, nm). if has x f \<and> (raw \<longrightarrow> r) then [c] else []"
  let ?s = "concat (map ?g log_tests)"
  have "logmodes r (masktype r x) = logmodes r ?s"
  proof (cases "?s = []")
    case True
    then have "masktype r x = ''-''"
      unfolding masktype_def Let_def True by simp
    then show ?thesis
      unfolding True by (simp add: logmodes_Nil logmodes_single logmode_def)
  next
    case False
    then have "masktype r x = ?s"
      unfolding masktype_def Let_def by (simp only: if_False)
    then show ?thesis by (rule arg_cong)
  qed
  also have "bit \<dots> n \<longleftrightarrow> (\<exists>e\<in>set log_tests. bit (logmodes r (?g e)) n)"
    by (rule bit_logmodes_concat)
  also have "\<dots> \<longleftrightarrow> (\<exists>(f, raw, c, nm) \<in> set log_tests. has x f \<and> (raw \<longrightarrow> r) \<and> bit f n)"
    using log_tests_logmode [of r]
    by (intro bex_cong refl) (auto simp: logmodes_Nil logmodes_single split: if_splits)
  finally show ?thesis .
qed

definition raw_masks :: int32 where
  "raw_masks = LOG_RAW OR LOG_SRVOUT OR LOG_BOTNETIN OR LOG_BOTNETOUT OR LOG_BOTSHRIN OR LOG_BOTSHROUT"

text \<open>The masks of the tests that are on, together.\<close>

definition shown_masks :: "bool \<Rightarrow> int32" where
  "shown_masks r = foldr (\<lambda>(f, raw, _) m. if raw \<longrightarrow> r then f OR m else m) log_tests 0"

lemma bit_shown_masks:
  "bit (shown_masks r) n \<longleftrightarrow> (\<exists>(f, raw, c, nm) \<in> set log_tests. (raw \<longrightarrow> r) \<and> bit f n)"
proof -
  have "bit (foldr (\<lambda>(f, raw, _ :: char \<times> string) m. if raw \<longrightarrow> r then f OR m else m) tab (0::int32)) n \<longleftrightarrow>
    (\<exists>(f, raw, c, nm) \<in> set tab. (raw \<longrightarrow> r) \<and> bit f n)" for tab
    by (induction tab) (auto simp: flag_bits split: if_splits)
  then show ?thesis by (simp add: shown_masks_def)
qed

lemma shown_masks_eq: "shown_masks r = (if r then LOG_ALL else LOG_ALL AND NOT raw_masks)"
  by (cases r) (simp_all only: if_True if_False; code_simp)+

lemma one_bit_bex:
  assumes "\<forall>(f, raw, c, nm) \<in> S. (has x f \<and> bit f n) = (bit x n \<and> bit f n)"
  shows "(\<exists>(f, raw, c, nm) \<in> S. has x f \<and> (raw \<longrightarrow> r) \<and> bit f n) \<longleftrightarrow>
     bit x n \<and> (\<exists>(f, raw, c, nm) \<in> S. (raw \<longrightarrow> r) \<and> bit f n)"
  using assms unfolding split_beta by metis

lemma log_tests_one_bit:
  "\<forall>(f, raw, c, nm) \<in> set log_tests. (has x f \<and> bit f n) = (bit x n \<and> bit f n)"
  by (simp add: log_tests_def flag_bits conj_commute cong: conj_cong)

text \<open>
  \<open>logmodes\<close> reads back exactly the levels that \<open>masktype\<close> shows: every level of the mask,
  without the six raw-log levels when \<open>raw-log\<close> is off.
\<close>

theorem logmodes_masktype:
  "logmodes raw_log (masktype raw_log x) =
     x AND (if raw_log then LOG_ALL else LOG_ALL AND NOT raw_masks)"
  unfolding shown_masks_eq [symmetric]
proof (rule bit_eqI)
  fix n
  show "bit (logmodes raw_log (masktype raw_log x)) n \<longleftrightarrow> bit (x AND shown_masks raw_log) n"
    by (simp only: logmodes_masktype_bit bit_shown_masks bit_word_and
        one_bit_bex [OF log_tests_one_bit])
qed

lemma flag_letters_eq:
  "k + length xs \<le> 32 \<Longrightarrow>
   flag_letters xs (signed_drop_bit k v) = map fst (filter (\<lambda>(x, i). bit v i) (zip xs [k..<k + length xs]))"
proof (induction xs arbitrary: k)
  case (Cons x xs)
  have *: "has (signed_drop_bit k v) 1 \<longleftrightarrow> bit v k"
    using has_exp [of "signed_drop_bit k v" 0] Cons.prems by (simp add: bit_simps)
  have z: "signed_drop_bit k v = 0 \<Longrightarrow> k \<le> i \<Longrightarrow> i < k + length (x # xs) \<Longrightarrow> \<not> bit v i" for i
  proof -
    assume "signed_drop_bit k v = 0" and i: "k \<le> i" "i < k + length (x # xs)"
    then have "\<not> bit (signed_drop_bit k v) (i - k)" by simp
    moreover have "i < 32" using i Cons.prems by simp
    moreover from i this have "\<not> 32 - k \<le> i - k" by simp
    ultimately show ?thesis using i by (simp add: bit_signed_drop_bit_iff)
  qed
  show ?case
    using Cons.IH [of "Suc k"] Cons.prems * z
    by (auto simp: upt_conv_Cons filter_empty_conv simp del: upt_Suc dest: set_zip_rightD)
qed simp

section \<open>Flag records round trip\<close>

text \<open>The word with the given bits set.\<close>

definition orbits :: "nat list \<Rightarrow> 'a::len word" where
  "orbits is = foldr (\<lambda>i w. 2 ^ i OR w) is 0"

lemma bit_orbits: "bit (orbits is :: 'a::len word) n \<longleftrightarrow> n \<in> set is \<and> n < LENGTH('a)"
  by (induction "is") (auto simp: orbits_def bit_or_iff bit_exp_iff)

abbreviation lettered :: "'a::len word \<Rightarrow> nat \<Rightarrow> string \<Rightarrow> (char \<times> nat) list" where
  "lettered v k xs \<equiv> filter (\<lambda>(x, i). bit v i) (zip xs [k..<k + length xs])"

lemma set_upt_zip: "length xs = length ys \<Longrightarrow> (\<exists>x. (x, y) \<in> set (zip xs ys)) \<longleftrightarrow> y \<in> set ys"
  by (metis in_set_impl_in_set_zip2 set_zip_rightD)

lemma bit_orbits_lettered:
  "bit (orbits (map snd (lettered v k xs)) :: 'a::len word) n \<longleftrightarrow>
     bit v n \<and> k \<le> n \<and> n < k + length xs \<and> n < LENGTH('a)"
proof -
  have "(\<exists>x. (x, n) \<in> set (zip xs [k..<k + length xs])) \<longleftrightarrow> n \<in> set [k..<k + length xs]"
    by (rule set_upt_zip) simp
  then show ?thesis
    by (auto simp: bit_orbits image_iff split_beta)
qed

lemma fold_letters:
  assumes "\<And>c i r. (c, i) \<in> set zs \<Longrightarrow> step c r = add (2 ^ i) r"
    and "\<And>a b r. add a (add b r) = add (a OR b) r" and "\<And>r. add 0 r = r"
  shows "fold step (map fst zs) r = add (orbits (map snd zs) :: 'a::len word) r"
  using assms(1)
proof (induction zs arbitrary: r)
  case Nil
  then show ?case by (simp add: orbits_def assms(3))
next
  case (Cons z zs)
  obtain c i where z: "z = (c, i)" by (cases z)
  have "fold step (map fst (z # zs)) r = add (orbits (map snd zs)) (add (2 ^ i) r)"
    using Cons.IH [OF Cons.prems] Cons.prems [of c i] z by simp
  also have "\<dots> = add (orbits (map snd (z # zs))) r"
    by (simp add: assms(2) z orbits_def or.commute)
  finally show ?case .
qed

lemma lower_letters:
  "\<forall>(c, i) \<in> set (zip lower_alphabet [0..<26]).
     bd_letter c 0 r = r\<lparr>fr_global := fr_global r OR 2 ^ i\<rparr> \<and>
     bd_letter c 1 r = r\<lparr>fr_chan := fr_chan r OR 2 ^ i\<rparr>"
  by (simp add: lower_alphabet_def upt_conv_Cons bd_letter_def)

lemma upper_letters:
  "\<forall>(c, i) \<in> set (zip upper_alphabet [0..<26]).
     bd_letter c 0 r = r\<lparr>fr_udef_global := fr_udef_global r OR 2 ^ i\<rparr> \<and>
     bd_letter c 1 r = r\<lparr>fr_udef_chan := fr_udef_chan r OR 2 ^ i\<rparr>"
  by (simp add: upper_alphabet_def upt_conv_Cons bd_letter_def)

lemma bot_letters_step:
  "\<forall>(c, i) \<in> set (zip bot_alphabet [0..<31]).
     bd_letter c 2 r = r\<lparr>fr_bot := fr_bot r OR 2 ^ i\<rparr>"
  by (simp add: bot_alphabet_def upt_conv_Cons bd_letter_def BOT_FLAG0_def)

lemma bd_loop_letters:
  "\<forall>c\<in>set ls. c \<notin> {CHR ''+'', CHR ''-'', CHR ''|'', CHR ''&''} \<Longrightarrow>
   bd_loop fl (ls @ rest) False mode r None =
   bd_loop fl rest False mode (fold (\<lambda>c. bd_letter c mode) ls r) None"
  by (induction ls arbitrary: r) auto

lemma plain_letters:
  "c \<in> set lower_alphabet \<union> set upper_alphabet \<union> set bot_alphabet \<Longrightarrow>
     c \<notin> {CHR ''+'', CHR ''-'', CHR ''|'', CHR ''&''}"
  by (auto simp: lower_alphabet_def upper_alphabet_def bot_alphabet_def)

lemma set_lettered: "set (map fst (lettered v k xs)) \<subseteq> set xs"
  by (auto dest: set_zip_leftD)

lemma alphabet_lengths [simp]:
  "length lower_alphabet = 26" "length upper_alphabet = 26" "length bot_alphabet = 31"
  by (simp_all add: lower_alphabet_def upper_alphabet_def bot_alphabet_def)

lemma flag_letters_lettered:
  "length xs \<le> 32 \<Longrightarrow> flag_letters xs v = map fst (lettered v 0 xs)"
  using flag_letters_eq [of 0 xs v] by simp

lemma bot_letters_eq:
  "k + length xs \<le> 32 \<Longrightarrow> bot_letters xs (signed_drop_bit k v) = map fst (lettered v k xs)"
proof (induction xs arbitrary: k)
  case (Cons x xs)
  have "has (signed_drop_bit k v) 1 \<longleftrightarrow> bit v k"
    using has_exp [of "signed_drop_bit k v" 0] Cons.prems by (simp add: bit_simps)
  then show ?case
    using Cons.IH [of "Suc k"] Cons.prems by (auto simp: upt_conv_Cons simp del: upt_Suc)
qed simp

lemma fold_alphabet:
  assumes "\<And>r. \<forall>(c, i) \<in> set (zip xs [0..<length xs]). step c r = add (2 ^ i) r"
    and "\<And>a b r. add a (add b r) = add (a OR b) r" and "\<And>r. add 0 r = r"
  shows "fold step (map fst (lettered v 0 xs)) r =
     add (orbits (map snd (lettered v 0 xs)) :: 'a::len word) r"
proof (rule fold_letters)
  fix c i r
  assume "(c, i) \<in> set (lettered v 0 xs)"
  then show "step c r = add (2 ^ i) r" using assms(1) [of r] by auto
qed (rule assms(2,3))+

lemma alphabet_le:
  "length lower_alphabet \<le> 32" "length upper_alphabet \<le> 32" "0 + length bot_alphabet \<le> 32"
  by simp_all

text \<open>The bits of \<open>v\<close> that an alphabet can spell.\<close>

definition letter_word :: "'b::len word \<Rightarrow> string \<Rightarrow> 'a::len word" where
  "letter_word v xs = orbits (map snd (lettered v 0 xs))"

lemma bit_letter_word:
  "bit (letter_word v xs :: 'a::len word) n \<longleftrightarrow> bit v n \<and> n < length xs \<and> n < LENGTH('a)"
  using bit_orbits_lettered [where v = v and k = 0 and xs = xs and n = n and 'a = 'a] by (simp add: letter_word_def)

lemma fold_global:
  "fold (\<lambda>c. bd_letter c 0) (flag_letters lower_alphabet v) r =
     r\<lparr>fr_global := fr_global r OR letter_word v lower_alphabet\<rparr>"
  unfolding letter_word_def flag_letters_lettered [OF alphabet_le(1)]
  by (rule fold_alphabet [where add = "\<lambda>w r. r\<lparr>fr_global := fr_global r OR w\<rparr>"])
    (use lower_letters in \<open>auto simp: ac_simps\<close>)

lemma fold_chan:
  "fold (\<lambda>c. bd_letter c 1) (flag_letters lower_alphabet v) r =
     r\<lparr>fr_chan := fr_chan r OR letter_word v lower_alphabet\<rparr>"
  unfolding letter_word_def flag_letters_lettered [OF alphabet_le(1)]
  by (rule fold_alphabet [where add = "\<lambda>w r. r\<lparr>fr_chan := fr_chan r OR w\<rparr>"])
    (use lower_letters in \<open>auto simp: ac_simps\<close>)

lemma fold_udef_global:
  "fold (\<lambda>c. bd_letter c 0) (flag_letters upper_alphabet v) r =
     r\<lparr>fr_udef_global := fr_udef_global r OR letter_word v upper_alphabet\<rparr>"
  unfolding letter_word_def flag_letters_lettered [OF alphabet_le(2)]
  by (rule fold_alphabet [where add = "\<lambda>w r. r\<lparr>fr_udef_global := fr_udef_global r OR w\<rparr>"])
    (use upper_letters in \<open>auto simp: ac_simps\<close>)

lemma fold_udef_chan:
  "fold (\<lambda>c. bd_letter c 1) (flag_letters upper_alphabet v) r =
     r\<lparr>fr_udef_chan := fr_udef_chan r OR letter_word v upper_alphabet\<rparr>"
  unfolding letter_word_def flag_letters_lettered [OF alphabet_le(2)]
  by (rule fold_alphabet [where add = "\<lambda>w r. r\<lparr>fr_udef_chan := fr_udef_chan r OR w\<rparr>"])
    (use upper_letters in \<open>auto simp: ac_simps\<close>)

lemma fold_bot:
  "fold (\<lambda>c. bd_letter c 2) (bot_letters bot_alphabet v) r =
     r\<lparr>fr_bot := fr_bot r OR letter_word v bot_alphabet\<rparr>"
proof -
  have "bot_letters bot_alphabet v = map fst (lettered v 0 bot_alphabet)"
    using bot_letters_eq [OF alphabet_le(3), of v] by (simp only: signed_drop_bit_0)
  then show ?thesis
    unfolding letter_word_def
    by (simp only:, intro fold_alphabet [where add = "\<lambda>w r. r\<lparr>fr_bot := fr_bot r OR w\<rparr>"])
      (use bot_letters_step in \<open>auto simp: ac_simps\<close>)
qed


text \<open>Reading back one printed part of a record, whatever follows it.\<close>

lemma bd_loop_flag2str:
  "bd_loop fl (flag2str g u @ rest) False mode r None =
   bd_loop fl rest False mode
     (fold (\<lambda>c. bd_letter c mode) (flag_letters upper_alphabet u)
       (fold (\<lambda>c. bd_letter c mode) (flag_letters lower_alphabet g) r)) None"
proof -
  have "\<forall>c\<in>set (flag_letters lower_alphabet g @ flag_letters upper_alphabet u).
      c \<notin> {CHR ''+'', CHR ''-'', CHR ''|'', CHR ''&''}"
    using plain_letters set_lettered [where v = g and k = 0 and xs = lower_alphabet] set_lettered [where v = u and k = 0 and xs = upper_alphabet]
    unfolding flag_letters_lettered [OF alphabet_le(1)] flag_letters_lettered [OF alphabet_le(2)]
    by (metis (no_types, lifting) UnCI Un_iff set_append subsetD)
  from bd_loop_letters [OF this] show ?thesis
    by (auto simp: flag2str_def Let_def)
qed

lemma bd_loop_bot2str:
  "bd_loop fl (bot2str v @ rest) False mode r None =
   bd_loop fl rest False mode (fold (\<lambda>c. bd_letter c mode) (bot_letters bot_alphabet v) r) None"
proof -
  have "bot_letters bot_alphabet v = map fst (lettered v 0 bot_alphabet)"
    using bot_letters_eq [OF alphabet_le(3), of v] by (simp only: signed_drop_bit_0)
  then have "\<forall>c\<in>set (bot_letters bot_alphabet v). c \<notin> {CHR ''+'', CHR ''-'', CHR ''|'', CHR ''&''}"
    using plain_letters set_lettered [where v = v and k = 0 and xs = bot_alphabet] by (metis (no_types, lifting) UnCI subsetD)
  from bd_loop_letters [OF this] show ?thesis
    by (auto simp: bot2str_def Let_def)
qed

text \<open>The validity masks hide what the alphabets cannot spell.\<close>

lemma bits_below: "m AND mask k = m \<Longrightarrow> bit m n \<Longrightarrow> n < k"
  by (metis bit_and_iff bit_mask_iff)

lemma lettered_valid:
  fixes m :: "'a::len word" and v :: "'b::len word"
  assumes "m AND mask (length xs) = m" and "\<And>n. n < length xs \<Longrightarrow> bit v n \<longleftrightarrow> bit w n"
  shows "letter_word v xs AND m = w AND m"
  using bits_below [OF assms(1)] assms(2)
  by (intro bit_eqI) (auto simp: bit_letter_word flag_bits dest: bit_imp_le_length)

lemma valid_masks:
  "USER_VALID AND mask (length lower_alphabet) = USER_VALID"
  "CHAN_VALID AND mask (length lower_alphabet) = CHAN_VALID"
  "(0x03ffffff :: int32) AND mask (length upper_alphabet) = 0x03ffffff"
  "BOT_VALID AND mask (length bot_alphabet) = BOT_VALID"
  by (simp_all add: USER_VALID_def CHAN_VALID_def BOT_VALID_def mask_eq_exp_minus_1)

lemmas lettered_valid_masks = valid_masks [THEN lettered_valid, OF refl]

lemma flag2str_nonempty [simp]: "flag2str g u \<noteq> []"
  by (auto simp: flag2str_def Let_def)

lemma bot2str_nonempty [simp]: "bot2str v \<noteq> []"
  by (auto simp: bot2str_def Let_def)

text \<open>\<open>break_down_flags\<close> with a NULL \<open>minus\<close>.\<close>

lemma bd_loop_no_minus: "snd (bd_loop fl s w mode r None) = None"
  by (induction s arbitrary: w mode r) (simp_all add: Let_def)

lemma break_down_flags_None:
  assumes "has (fr_match q) FR_GLOBAL \<or> has (fr_match q) FR_BOT \<or> has (fr_match q) FR_CHAN"
    and "bd_loop (fr_match q) s False
      (if has (fr_match q) FR_GLOBAL then 0 else if has (fr_match q) FR_BOT then 2 else 1)
      (zero_fr\<lparr>fr_match := FR_OR\<rparr>) None = (p, None)"
  shows "break_down_flags s q None =
    ((bd_valid p)\<lparr>fr_match := fr_match p OR fr_match q\<rparr>, None)"
  using assms by (auto simp add: break_down_flags_def Let_def bd_valid_def)

text \<open>
  C30: the text the userfile stores for a user's global and channel flags reads back as the
  same record, without the bits that are no valid flags: \<open>build_flags\<close> then
  \<open>break_down_flags\<close>.
\<close>

theorem build_break_flags:
  assumes "has (fr_match r) FR_GLOBAL" "has (fr_match r) FR_CHAN"
    and "has (fr_match q) FR_GLOBAL" "has (fr_match q) FR_CHAN"
  shows "break_down_flags (fst (build_flags r None)) q None =
    (\<lparr>fr_match = (if has (fr_match r) FR_AND then FR_AND else FR_OR) OR fr_match q,
      fr_global = fr_global r AND USER_VALID,
      fr_udef_global = fr_udef_global r AND 0x03ffffff,
      fr_bot = 0,
      fr_chan = fr_chan r AND CHAN_VALID,
      fr_udef_chan = fr_udef_chan r AND 0x03ffffff\<rparr>, None)"
proof -
  let ?c = "if has (fr_match r) FR_AND then CHR ''&'' else CHR ''|''"
  let ?p = "zero_fr\<lparr>fr_match := if has (fr_match r) FR_AND then FR_AND else FR_OR,
       fr_global := letter_word (fr_global r) lower_alphabet,
       fr_udef_global := letter_word (fr_udef_global r) upper_alphabet,
       fr_chan := letter_word (fr_chan r) lower_alphabet,
       fr_udef_chan := letter_word (fr_udef_chan r) upper_alphabet\<rparr>"
  have str: "fst (build_flags r None) = flag2str (fr_global r) (fr_udef_global r) @
      ?c # flag2str (fr_chan r) (fr_udef_chan r)"
    using assms by (simp add: build_flags_def build_flags_str_def bf_section_def Let_def flag_bits)
  have "bd_loop (fr_match q) (fst (build_flags r None)) False 0 (zero_fr\<lparr>fr_match := FR_OR\<rparr>) None =
      (?p, None)"
    unfolding str bd_loop_flag2str fold_global fold_udef_global
    by (simp add: bd_loop_flag2str [where rest = "[]", simplified]
        fold_chan [unfolded One_nat_def] fold_udef_chan [unfolded One_nat_def] zero_fr_def)
  then have "break_down_flags (fst (build_flags r None)) q None =
      ((bd_valid ?p)\<lparr>fr_match := fr_match ?p OR fr_match q\<rparr>, None)"
    using assms by (intro break_down_flags_None) simp_all
  then show ?thesis
    by (simp add: bd_valid_def zero_fr_def lettered_valid_masks)
qed

theorem build_break_flags_witness:
  "break_down_flags (fst (build_flags (zero_fr\<lparr>fr_match := 5, fr_global := 0x6001,
       fr_udef_chan := 5\<rparr>) None)) (zero_fr\<lparr>fr_match := 5\<rparr>) None =
     (zero_fr\<lparr>fr_match := FR_OR OR 5, fr_global := 0x6001, fr_udef_chan := 5\<rparr>, None)"
proof -
  let ?r = "zero_fr\<lparr>fr_match := 5, fr_global := 0x6001, fr_udef_chan := 5\<rparr>"
  let ?q = "zero_fr\<lparr>fr_match := 5\<rparr>"
  have "has (fr_match ?r) FR_GLOBAL" "has (fr_match ?r) FR_CHAN"
    "has (fr_match ?q) FR_GLOBAL" "has (fr_match ?q) FR_CHAN"
    by (simp_all add: zero_fr_def has_def FR_GLOBAL_def FR_CHAN_def)
  from build_break_flags [OF this] show ?thesis
    by (simp add: zero_fr_def USER_VALID_def CHAN_VALID_def FR_OR_def FR_AND_def has_def)
qed

text \<open>
  a bot's flags survive being packed into its user record and unpacked again
  (\<open>botfl_pack\<close> prints them with \<open>build_flags\<close>, \<open>botfl_unpack\<close> reads them with
  \<open>break_down_flags\<close>), up to the bits that are no valid bot flags.
\<close>

theorem build_break_botfl:
  "break_down_flags (fst (build_flags (zero_fr\<lparr>fr_match := FR_BOT, fr_bot := b\<rparr>) None))
     (zero_fr\<lparr>fr_match := FR_BOT\<rparr>) None =
   (zero_fr\<lparr>fr_match := FR_OR OR FR_BOT, fr_bot := b AND BOT_VALID\<rparr>, None)"
proof -
  let ?q = "zero_fr\<lparr>fr_match := FR_BOT\<rparr>"
  let ?p = "zero_fr\<lparr>fr_match := FR_OR, fr_bot := letter_word (ucast b :: int32) bot_alphabet\<rparr>"
  have str: "fst (build_flags (zero_fr\<lparr>fr_match := FR_BOT, fr_bot := b\<rparr>) None) = bot2str (ucast b)"
    by (simp add: build_flags_def build_flags_str_def bf_section_def Let_def zero_fr_def flag_bits)
  have loop: "bd_loop (fr_match ?q) (bot2str (ucast b)) False 2 (zero_fr\<lparr>fr_match := FR_OR\<rparr>) None =
      (?p, None)"
    by (simp add: bd_loop_bot2str [where rest = "[]", simplified] fold_bot zero_fr_def)
  have valid: "letter_word (ucast b :: int32) bot_alphabet AND BOT_VALID = b AND BOT_VALID"
    by (rule lettered_valid [OF valid_masks(4)]) (simp add: bit_ucast_iff)
  have "break_down_flags (bot2str (ucast b)) ?q None =
      ((bd_valid ?p)\<lparr>fr_match := fr_match ?p OR fr_match ?q\<rparr>, None)"
    using loop by (intro break_down_flags_None) (simp_all add: zero_fr_def flag_bits)
  then show ?thesis
    unfolding str by (simp add: bd_valid_def zero_fr_def valid)
qed

section \<open>Permission tests\<close>

text \<open>Every flag of \<open>x\<close> is a flag of \<open>y\<close>.\<close>

definition flags_le :: "'a::len word \<Rightarrow> 'a word \<Rightarrow> bool" where
  "flags_le x y \<longleftrightarrow> x AND y = x"

lemma flags_le_bits: "flags_le x y \<longleftrightarrow> (\<forall>n. bit x n \<longrightarrow> bit y n)"
  by (auto simp: flags_le_def bit_eq_iff bit_and_iff dest: bit_imp_le_length)

definition fr_le :: "flag_record \<Rightarrow> flag_record \<Rightarrow> bool" where
  "fr_le r s \<longleftrightarrow> flags_le (fr_global r) (fr_global s) \<and> flags_le (fr_udef_global r) (fr_udef_global s)
     \<and> flags_le (fr_bot r) (fr_bot s) \<and> flags_le (fr_chan r) (fr_chan s)
     \<and> flags_le (fr_udef_chan r) (fr_udef_chan s)"

lemma has_mono: "flags_le x y \<Longrightarrow> has x f \<Longrightarrow> has y f"
  by (auto simp: flags_le_bits has_bit)

lemma all_mono: "flags_le x y \<Longrightarrow> f AND x = f \<Longrightarrow> f AND y = f"
  by (auto simp: flags_le_bits flags_le_def [symmetric])

lemma flagrec_eq_mono: "fr_le r s \<Longrightarrow> flagrec_eq req r \<Longrightarrow> flagrec_eq req s"
  by (auto simp: flagrec_eq_def fr_le_def intro: all_mono has_mono split: if_splits)

text \<open>
  more flags never cost a permission: a request \<open>flagrec_ok\<close> grants to a user, it grants
  to a user with those flags and more. The one exception in the code is the "-|-" request (no
  flag at all), which auto-kicked and deopped users are refused.
\<close>

theorem flagrec_ok_mono:
  assumes "flagrec_ok require_p allow_dk req r" and "fr_le r s"
    and "has (fr_match req) FR_AND \<or>
      \<not> (fr_chan req = 0 \<and> fr_global req = 0 \<and> fr_udef_global req = 0 \<and> fr_udef_chan req = 0)"
  shows "flagrec_ok require_p allow_dk req s"
proof (cases "has (fr_match req) FR_AND")
  case True
  let ?p = "\<lambda>r. r\<lparr>fr_global := fr_global r OR USER_PARTY\<rparr>"
  let ?imp = "\<lambda>r. \<not> require_p \<and> (has (fr_global r) USER_OP \<or> has (fr_chan r) USER_OWNER)"
  have le: "fr_le r (?p s)" "fr_le (?p r) (?p s)"
    using assms(2) by (auto simp: fr_le_def flags_le_bits flag_bits)
  have imp: "?imp r \<Longrightarrow> ?imp s"
    using assms(2) by (auto simp: fr_le_def intro: has_mono)
  have ok: "flagrec_ok require_p allow_dk req x \<longleftrightarrow> flagrec_eq req (if ?imp x then ?p x else x)" for x
    using True by (simp add: flagrec_ok_def)
  show ?thesis
  proof (cases "?imp r")
    case True
    with ok [of r] assms(1) have "flagrec_eq req (?p r)" by simp
    then have "flagrec_eq req (?p s)" by (rule flagrec_eq_mono [OF le(2)])
    with ok [of s] imp [OF True] show ?thesis by simp
  next
    case False
    with ok [of r] assms(1) have "flagrec_eq req r" by (simp split: if_splits)
    then show ?thesis
      using flagrec_eq_mono [OF assms(2)] flagrec_eq_mono [OF le(1)] ok [of s] by simp
  qed
next
  case False
  let ?hav = "\<lambda>x. if \<not> require_p \<and> (has (fr_global x) USER_OP \<or> has (fr_chan x) USER_OWNER)
                   then fr_global x OR USER_PARTY else fr_global x"
  have ok: "flagrec_ok require_p allow_dk req x \<longleftrightarrow> has (fr_match req) FR_OR \<and>
      (has (?hav x) (fr_global req) \<or> has (fr_chan x) (fr_chan req) \<or>
       has (fr_udef_global x) (fr_udef_global req) \<or> has (fr_udef_chan x) (fr_udef_chan req))" for x
    using False assms(3) unfolding flagrec_ok_def Let_def
    by (simp only: if_False simp_thms if_bool_eq_conj) blast
  have "flags_le (fr_global r) (fr_global s)" "flags_le (fr_chan r) (fr_chan s)"
    using assms(2) by (simp_all add: fr_le_def)
  then have "flags_le (?hav r) (?hav s)"
    using has_mono by (fastforce simp: flags_le_bits flag_bits)
  with ok [of r] ok [of s] assms(1,2) show ?thesis
    unfolding fr_le_def using has_mono by blast
qed

theorem flagrec_ok_mono_witness:
  "flagrec_ok False False (zero_fr\<lparr>fr_match := FR_OR, fr_global := USER_OP\<rparr>)
     (zero_fr\<lparr>fr_global := USER_OP OR USER_VOICE\<rparr>)"
proof (rule flagrec_ok_mono)
  let ?req = "zero_fr\<lparr>fr_match := FR_OR, fr_global := USER_OP\<rparr>"
  show "flagrec_ok False False ?req (zero_fr\<lparr>fr_global := USER_OP\<rparr>)" by code_simp
  show "fr_le (zero_fr\<lparr>fr_global := USER_OP\<rparr>) (zero_fr\<lparr>fr_global := USER_OP OR USER_VOICE\<rparr>)"
    by code_simp
  show "has (fr_match ?req) FR_AND \<or>
      \<not> (fr_chan ?req = 0 \<and> fr_global ?req = 0 \<and> fr_udef_global ?req = 0 \<and> fr_udef_chan ?req = 0)"
    by code_simp
qed

end
