(* ===== verification/FlagsSanity.thy ===== *)
theory FlagsSanity
  imports Flags
begin

text \<open>
  What the three sanity checks of \<open>src/src/flags.c\<close> guarantee of every flag change, and where
  they do not do what their comments say.
\<close>

section \<open>What one block of a sanity check does\<close>

definition pair_free :: "nat \<Rightarrow> nat \<Rightarrow> 'a::len word \<Rightarrow> bool" where
  "pair_free i j a \<longleftrightarrow> \<not> (bit a i \<and> bit a j)"

text \<open>
  Two different one-bit flags. Every exclusive pair of the program is an instance, and what a
  block does to an attribute word is proved once, here.
\<close>

locale flag_pair =
  fixes d p :: "'a::len word" and i j :: nat
  assumes d_bit: "bit d n \<longleftrightarrow> n = i" and p_bit: "bit p n \<longleftrightarrow> n = j" and i_neq_j: "i \<noteq> j"
begin

lemma has_d: "has x d \<longleftrightarrow> bit x i" and has_p: "has x p \<longleftrightarrow> bit x j"
  by (auto simp: has_bit d_bit p_bit)

lemma own_pair_bit:
  "bit (fst (own_pair d p mb md mp chg old s)) n \<longleftrightarrow>
    (if n = i then (if bit chg j \<and> bit chg i then bit old i else bit old j \<and> bit (fst s) i)
     else if n = j then
       (if bit chg j \<and> bit chg i then \<not> bit old i \<and> bit old j
        else \<not> bit old j \<and> bit old i \<and> bit (fst s) j)
     else bit (fst s) n)"
  using i_neq_j
  by (cases s) (auto simp: own_pair_def own_both_def Let_def d_bit p_bit has_d has_p flag_bits
      dest: bit_imp_le_length)

lemma exclusive_bit:
  "bit (fst (exclusive d p mb md mp chg old s)) n \<longleftrightarrow>
    (if bit (fst s) j \<and> bit (fst s) i
     then bit (fst (own_pair d p mb md mp chg old s)) n else bit (fst s) n)"
  by (simp add: exclusive_def has_d has_p)

text \<open>A block only clears flags, clears none but the two, and never leaves both.\<close>

lemma clears: "bit (fst (exclusive d p mb md mp chg old s)) n \<Longrightarrow> bit (fst s) n"
  by (auto simp: exclusive_bit own_pair_bit split: if_splits)

lemma frame:
  "n \<noteq> i \<Longrightarrow> n \<noteq> j \<Longrightarrow> bit (fst (exclusive d p mb md mp chg old s)) n \<longleftrightarrow> bit (fst s) n"
  by (auto simp: exclusive_bit own_pair_bit)

lemma free: "pair_free i j (fst (exclusive d p mb md mp chg old s))"
  using i_neq_j by (auto simp: pair_free_def exclusive_bit own_pair_bit)

lemma keeps:
  "pair_free k l (fst s) \<Longrightarrow> pair_free k l (fst (exclusive d p mb md mp chg old s))"
  using clears by (fastforce simp: pair_free_def)

lemma wanted_p_wins:
  assumes "bit chg j" "\<not> bit chg i" "\<not> bit old j" "bit (fst s) j"
    and "\<And>n. n = i \<Longrightarrow> bit (fst s) n \<Longrightarrow> bit old n"
  shows "bit (fst (exclusive d p mb md mp chg old s)) j \<and>
         \<not> bit (fst (exclusive d p mb md mp chg old s)) i"
  using assms i_neq_j by (auto simp: exclusive_bit own_pair_bit)

end

interpretation deop_op: flag_pair USER_DEOP USER_OP 3 14
  by unfold_locales (simp_all add: flag_bits)

interpretation dehalfop_halfop: flag_pair USER_DEHALFOP USER_HALFOP 17 11
  by unfold_locales (simp_all add: flag_bits)

interpretation deop_autoop: flag_pair USER_DEOP USER_AUTOOP 3 0
  by unfold_locales (simp_all add: flag_bits)

interpretation dehalfop_autohalfop: flag_pair USER_DEHALFOP USER_AUTOHALFOP 17 24
  by unfold_locales (simp_all add: flag_bits)

interpretation quiet_voice: flag_pair USER_QUIET USER_VOICE 16 21
  by unfold_locales (simp_all add: flag_bits)

interpretation quiet_gvoice: flag_pair USER_QUIET USER_GVOICE 16 6
  by unfold_locales (simp_all add: flag_bits)

interpretation alt_hub: flag_pair BOT_ALT BOT_HUB 0 7
  by unfold_locales (simp_all add: flag_bits)

interpretation aggressive_passive: flag_pair BOT_AGGRESSIVE BOT_PASSIVE 18 15
  by unfold_locales (simp_all add: flag_bits)

interpretation hub_reject: flag_pair BOT_HUB BOT_REJECT 7 17
  by unfold_locales (simp_all add: flag_bits)

interpretation alt_reject: flag_pair BOT_ALT BOT_REJECT 0 17
  by unfold_locales (simp_all add: flag_bits)

lemmas uc_pair_keeps =
  deop_op.keeps dehalfop_halfop.keeps deop_autoop.keeps dehalfop_autohalfop.keeps
  quiet_voice.keeps quiet_gvoice.keeps

lemma fst_drop_flag: "fst (drop_flag f m s) = (if has (fst s) f then fst s AND NOT f else fst s)"
  by (cases s) (simp add: drop_flag_def)

lemma fst_wanted_adds_bit:
  "bit (fst (wanted_adds f g m chg old s)) n \<longleftrightarrow>
     bit (fst s) n \<or> has (fst s) f \<and> has chg f \<and> \<not> has old g \<and> bit g n"
  by (cases s) (auto simp: wanted_adds_def flag_bits)

lemma fst_implies_flag_bit:
  "bit (fst (implies_flag f g m s)) n \<longleftrightarrow>
     bit (fst s) n \<or> has (fst s) f \<and> \<not> has (fst s) g \<and> bit g n"
  by (cases s) (auto simp: implies_flag_def flag_bits)

lemmas step_bits = fst_wanted_adds_bit fst_implies_flag_bit

lemma uc_conflicts_pair_free:
  "pair_free 3 14 (fst (uc_conflicts chg old s))"
  "pair_free 17 11 (fst (uc_conflicts chg old s))"
  "pair_free 3 0 (fst (uc_conflicts chg old s))"
  "pair_free 17 24 (fst (uc_conflicts chg old s))"
  "pair_free 16 21 (fst (uc_conflicts chg old s))"
  "pair_free 16 6 (fst (uc_conflicts chg old s))"
  unfolding uc_conflicts_def Let_def
  by (intro deop_op.free uc_pair_keeps, intro dehalfop_halfop.free uc_pair_keeps,
      intro deop_autoop.free uc_pair_keeps, intro dehalfop_autohalfop.free uc_pair_keeps,
      intro quiet_voice.free uc_pair_keeps, intro quiet_gvoice.free)

text \<open>After the auto-flags the six pairs are still exclusive: an auto-flag excludes the
  opposite of what it adds.\<close>

lemma uc_autos_pair_free:
  fixes chg old s
  defines "a \<equiv> fst (uc_autos chg old (uc_conflicts chg old s))"
  shows "pair_free 3 14 a" "pair_free 17 11 a" "pair_free 3 0 a" "pair_free 17 24 a"
    "pair_free 16 21 a" "pair_free 16 6 a"
  using uc_conflicts_pair_free [of chg old s]
  by (auto simp: a_def uc_autos_def Let_def pair_free_def step_bits flag_bits)

text \<open>
  C24: whatever change is asked for, a user's flags never end up with auto-op and deop,
  auto-halfop and dehalfop, voice and quiet or auto-voice and quiet together; a result that is
  not a master is not op and deop, one that is not an op is not halfop and dehalfop; and owners
  are masters, botnet masters have party line access, janitors may transfer files and ops are
  halfops.  That masters are botnet masters, ops and janitors, which a comment of the source asks for, is not enforced.
\<close>

theorem user_sanity_check_sane:
  "let r = fst (user_sanity_check atr pls_atr min_atr) in
      \<not> (has r USER_AUTOOP \<and> has r USER_DEOP)
    \<and> \<not> (has r USER_AUTOHALFOP \<and> has r USER_DEHALFOP)
    \<and> \<not> (has r USER_VOICE \<and> has r USER_QUIET)
    \<and> \<not> (has r USER_GVOICE \<and> has r USER_QUIET)
    \<and> \<not> (has r USER_OP \<and> has r USER_DEOP \<and> \<not> has r USER_MASTER)
    \<and> \<not> (has r USER_HALFOP \<and> has r USER_DEHALFOP \<and> \<not> has r USER_OP)
    \<and> \<not> (has r USER_OWNER \<and> \<not> has r USER_MASTER)
    \<and> \<not> (has r USER_BOTMAST \<and> \<not> has r USER_PARTY)
    \<and> \<not> (has r USER_JANITOR \<and> \<not> has r USER_XFER)
    \<and> \<not> (has r USER_OP \<and> \<not> has r USER_HALFOP)"
  using uc_autos_pair_free [of "pls_atr AND NOT min_atr" atr
      "user_bot_drops ((atr OR pls_atr) AND NOT min_atr, 0)"]
  unfolding user_sanity_check_def Let_def pair_free_def
  by (auto simp: step_bits flag_bits)

text \<open>
  the same for channel flags, where moreover masters are always ops, and the aggressive
  sharing flag stays only on a user that is a bot.
\<close>

theorem chan_sanity_check_sane:
  "let r = fst (chan_sanity_check atr pls_atr min_atr usr_atr) in
      \<not> (has r USER_AUTOOP \<and> has r USER_DEOP)
    \<and> \<not> (has r USER_AUTOHALFOP \<and> has r USER_DEHALFOP)
    \<and> \<not> (has r USER_VOICE \<and> has r USER_QUIET)
    \<and> \<not> (has r USER_GVOICE \<and> has r USER_QUIET)
    \<and> \<not> (has r USER_OP \<and> has r USER_DEOP \<and> \<not> has r USER_MASTER)
    \<and> \<not> (has r USER_HALFOP \<and> has r USER_DEHALFOP \<and> \<not> has r USER_OP)
    \<and> \<not> (has r USER_OWNER \<and> \<not> has r USER_MASTER)
    \<and> \<not> (has r USER_MASTER \<and> \<not> has r USER_OP)
    \<and> \<not> (has r USER_OP \<and> \<not> has r USER_HALFOP)
    \<and> \<not> (has r (ucast BOT_AGGRESSIVE) \<and> \<not> has usr_atr USER_BOT)"
  using uc_autos_pair_free [of "pls_atr AND NOT min_atr" atr
      "((atr OR pls_atr) AND NOT min_atr, 0)"]
  unfolding chan_sanity_check_def Let_def pair_free_def
  by (auto simp: step_bits flag_bits)

text \<open>Bot flags: the sharing blocks leave hub, alternate hub and reject alone.\<close>

lemma own_both_frame:
  "\<not> bit d n \<Longrightarrow> \<not> bit p n \<Longrightarrow> bit (fst (own_both d p old m s)) n \<longleftrightarrow> bit (fst s) n"
  by (cases s) (auto simp: own_both_def Let_def flag_bits dest: bit_imp_le_length)

lemma own_pair_frame:
  "\<not> bit d n \<Longrightarrow> \<not> bit p n \<Longrightarrow>
     bit (fst (own_pair d p mb md mp chg old s)) n \<longleftrightarrow> bit (fst s) n"
  using own_both_frame [of d n p old mb s]
  by (cases s) (auto simp: own_pair_def flag_bits dest: bit_imp_le_length)

lemma own_perms_frame:
  "\<not> bit f n \<Longrightarrow> \<not> bit BOT_SHPERMS n \<Longrightarrow>
     bit (fst (own_perms f mb mp mf chg old s)) n \<longleftrightarrow> bit (fst s) n"
  using own_both_frame [of f n BOT_SHPERMS old mb s]
  by (cases s) (auto simp: own_perms_def flag_bits dest: bit_imp_le_length)

lemma BOT_SHPERMS_bits [flag_bits]:
  "bit BOT_SHPERMS n \<longleftrightarrow> n \<in> {1, 2, 3, 4, 9, 13, 20}"
  by (auto simp: BOT_SHPERMS_def flag_bits)

lemma BOT_SHARE_bits [flag_bits]:
  "bit BOT_SHARE n \<longleftrightarrow> n \<in> {1, 2, 3, 4, 9, 13, 15, 18, 20}"
  by (auto simp: BOT_SHARE_def flag_bits)

lemma bot_perms_block_frame:
  "n \<notin> {1, 2, 3, 4, 9, 13, 15, 18, 20} \<Longrightarrow>
     bit (fst (bot_perms_block chg old s)) n \<longleftrightarrow> bit (fst s) n"
  by (auto simp: bot_perms_block_def Let_def own_perms_frame flag_bits)

text \<open>The reject block leaves reject exclusive with hub and alternate hub.\<close>

lemma bot_reject_block_free:
  assumes "pair_free 0 7 (fst s)"
  shows "pair_free 0 7 (fst (bot_reject_block chg old s))"
    "pair_free 7 17 (fst (bot_reject_block chg old s))"
    "pair_free 0 17 (fst (bot_reject_block chg old s))"
proof -
  define s1 where "s1 = (if has (fst s) BOT_SHARE
     then own_pair BOT_SHARE BOT_REJECT BOT_SANE_OWNSSHAREREJ
            BOT_SANE_SHAREOWNSREJ BOT_SANE_REJOWNSSHARE chg old s else s)"
  have s1: "bit (fst s1) 0 \<longleftrightarrow> bit (fst s) 0" "bit (fst s1) 7 \<longleftrightarrow> bit (fst s) 7"
    by (auto simp: s1_def own_pair_frame flag_bits)
  show "pair_free 0 7 (fst (bot_reject_block chg old s))"
    "pair_free 7 17 (fst (bot_reject_block chg old s))"
    "pair_free 0 17 (fst (bot_reject_block chg old s))"
    using assms s1
    by (auto simp: bot_reject_block_def s1_def [symmetric] Let_def pair_free_def flag_bits
        hub_reject.own_pair_bit alt_reject.own_pair_bit split: if_splits)
qed

lemma bot_global_block_bit:
  "n \<noteq> 6 \<Longrightarrow> bit (fst (bot_global_block old s)) n \<longleftrightarrow> bit (fst s) n"
  by (cases s) (auto simp: bot_global_block_def flag_bits dest: bit_imp_le_length)

text \<open>
  after a change of bot flags a bot is never hub and alternate hub, never passive and
  aggressive sharer, and a rejected bot is neither hub nor alternate hub.
\<close>

theorem bot_sanity_check_sane:
  "let r = fst (bot_sanity_check atr pls_atr min_atr) in
      \<not> (has r BOT_HUB \<and> has r BOT_ALT)
    \<and> \<not> (has r BOT_PASSIVE \<and> has r BOT_AGGRESSIVE)
    \<and> \<not> (has r BOT_REJECT \<and> has r BOT_HUB)
    \<and> \<not> (has r BOT_REJECT \<and> has r BOT_ALT)"
proof -
  let ?chg = "pls_atr AND NOT min_atr"
  define s1 where "s1 = bot_perms_block ?chg atr (exclusive BOT_ALT BOT_HUB
    BOT_SANE_OWNSALTHUB BOT_SANE_ALTOWNSHUB BOT_SANE_HUBOWNSALT ?chg atr
    ((atr OR pls_atr) AND NOT min_atr, 0))"
  have "pair_free 0 7 (fst s1)"
    using alt_hub.free by (simp add: s1_def pair_free_def bot_perms_block_frame)
  note free = bot_reject_block_free [OF this, of ?chg atr]
  show ?thesis
    using free [THEN aggressive_passive.keeps]
      aggressive_passive.free [of _ _ _ ?chg atr "bot_reject_block ?chg atr s1"]
    unfolding bot_sanity_check_def Let_def s1_def [symmetric]
    by (auto simp: pair_free_def bot_global_block_bit flag_bits)
qed

lemma user_bot_drops_bit:
  "n \<notin> {2, 12, 13, 15} \<Longrightarrow> bit (fst (user_bot_drops s)) n \<longleftrightarrow> bit (fst s) n"
  by (auto simp: user_bot_drops_def fst_drop_flag flag_bits dest: bit_imp_le_length)

lemma uc_conflicts_keeps_op:
  "bit (fst (exclusive USER_DEOP USER_OP UC_SANE_OWNSDEOPOP UC_SANE_DEOPOWNSOP
        UC_SANE_OPOWNSDEOP chg old s)) 14 \<Longrightarrow> bit (fst (uc_conflicts chg old s)) 14"
  by (simp add: uc_conflicts_def Let_def dehalfop_halfop.frame deop_autoop.frame
      dehalfop_autohalfop.frame quiet_voice.frame quiet_gvoice.frame)

text \<open>
  a wanted flag takes precedence over a held one: asked for op, not for deop, a user who
  was not op ends up op and not deop.
\<close>

theorem user_wanted_op_wins:
  assumes "has (pls_atr AND NOT min_atr) USER_OP"
    and "\<not> has (pls_atr AND NOT min_atr) USER_DEOP"
    and "\<not> has atr USER_OP"
  shows "has (fst (user_sanity_check atr pls_atr min_atr)) USER_OP \<and>
         \<not> has (fst (user_sanity_check atr pls_atr min_atr)) USER_DEOP"
proof -
  let ?chg = "pls_atr AND NOT min_atr"
  let ?s = "user_bot_drops ((atr OR pls_atr) AND NOT min_atr, 0)"
  let ?e = "exclusive USER_DEOP USER_OP UC_SANE_OWNSDEOPOP UC_SANE_DEOPOWNSOP
        UC_SANE_OPOWNSDEOP ?chg atr ?s"
  have "bit (fst ?e) 14 \<and> \<not> bit (fst ?e) 3"
    using assms by (intro deop_op.wanted_p_wins) (auto simp: user_bot_drops_bit flag_bits)
  then have op: "bit (fst (uc_conflicts ?chg atr ?s)) 14"
    by (intro uc_conflicts_keeps_op) simp
  then have "\<not> bit (fst (uc_conflicts ?chg atr ?s)) 3"
    using uc_conflicts_pair_free(1) [of ?chg atr ?s] by (auto simp: pair_free_def)
  with op show ?thesis
    by (auto simp: user_sanity_check_def Let_def uc_autos_def step_bits flag_bits)
qed

theorem user_wanted_op_wins_witness:
  "has (fst (user_sanity_check USER_DEOP USER_OP 0)) USER_OP \<and>
   \<not> has (fst (user_sanity_check USER_DEOP USER_OP 0)) USER_DEOP"
  by (rule user_wanted_op_wins) (simp_all add: flag_bits)

text \<open>
  \<open>user_sanity_check\<close> makes a new master botnet master, op and janitor only when none of
  the three is held already: making an op a master leaves it without the botnet master and
  janitor flags that its comment and \<open>sanity_check\<close> give every master.
\<close>

theorem user_master_of_op_incomplete:
  "let r = fst (user_sanity_check USER_OP USER_MASTER 0) in
     has r USER_MASTER \<and> \<not> has r USER_BOTMAST \<and> \<not> has r USER_JANITOR \<and>
     has (sanity_check (USER_OP OR USER_MASTER)) USER_BOTMAST \<and>
     has (sanity_check (USER_OP OR USER_MASTER)) USER_JANITOR"
  by code_simp

text \<open>
  where conflicting sharing flags are asked for together, \<open>bot_sanity_check\<close> puts back the
  whole mask of the sharing permissions instead of those held before: asking "+cs" of a bot
  that may share bans only gives it every granular sharing permission, and asking "+cr" of a
  passive sharer makes it an aggressive one with every permission.
\<close>

theorem bot_conflict_escalates:
  "fst (bot_sanity_check BOT_SHBAN (BOT_SHCHAN OR BOT_AGGRESSIVE) 0) = BOT_SHPERMS \<and>
   fst (bot_sanity_check BOT_PASSIVE (BOT_SHCHAN OR BOT_REJECT) 0)
     = BOT_SHPERMS OR BOT_AGGRESSIVE"
  by code_simp

end
