(* ===== verification/CStr.thy ===== *)
theory CStr
  imports Prelude
begin

text \<open>
  The C library string searches the bot uses, \<open>op_strlcpy\<close> of \<open>src/libop/src/tools.c\<close>, the
  vectorised byte scans of \<open>src/libop/src/simd_scan.c\<close> and the decimal output and input of
  integers.  A search returns the offset of the byte found instead of a pointer to it.
\<close>

section \<open>Searching\<close>

text \<open>\<open>strchr\<close> finds the terminating NUL too.\<close>

fun strchr :: "string \<Rightarrow> char \<Rightarrow> nat option" where
  "strchr [] c = (if c = NUL then Some 0 else None)"
| "strchr (x # s) c = (if x = c then Some 0 else map_option Suc (strchr s c))"

fun strrchr :: "string \<Rightarrow> char \<Rightarrow> nat option" where
  "strrchr [] c = (if c = NUL then Some 0 else None)"
| "strrchr (x # s) c =
     (case strrchr s c of Some i \<Rightarrow> Some (Suc i) | None \<Rightarrow> if x = c then Some 0 else None)"

lemma strchr_None: "c \<noteq> NUL \<Longrightarrow> strchr s c = None \<longleftrightarrow> c \<notin> set s"
  by (induction s) auto

lemma strchr_Some:
  "strchr s c = Some i \<Longrightarrow> c \<noteq> NUL \<Longrightarrow> i < length s \<and> s ! i = c \<and> c \<notin> set (take i s)"
  by (induction s arbitrary: i) (auto split: if_splits)

lemma strchr_split:
  "strchr s c = Some i \<Longrightarrow> c \<noteq> NUL \<Longrightarrow> s = take i s @ c # drop (Suc i) s"
  using strchr_Some [of s c i] by (metis id_take_nth_drop)

lemma strchr_append:
  "c \<notin> set a \<Longrightarrow> c \<noteq> NUL \<Longrightarrow> strchr (a @ s) c = map_option (\<lambda>i. length a + i) (strchr s c)"
proof (induction a)
  case Nil
  then show ?case by (cases "strchr s c") simp_all
next
  case (Cons x a)
  then show ?case by (cases "strchr s c") auto
qed

lemma strchr_take_drop:
  "c \<notin> set a \<Longrightarrow> c \<noteq> NUL \<Longrightarrow> strchr (a @ c # s) c = Some (length a)"
  by (simp add: strchr_append)

lemma strrchr_None: "c \<noteq> NUL \<Longrightarrow> strrchr s c = None \<longleftrightarrow> c \<notin> set s"
  by (induction s) (auto split: option.splits)

lemma strrchr_Some:
  "strrchr s c = Some i \<Longrightarrow> c \<noteq> NUL \<Longrightarrow> i < length s \<and> s ! i = c \<and> c \<notin> set (drop (Suc i) s)"
proof (induction s arbitrary: i)
  case (Cons x s)
  show ?case
  proof (cases "strrchr s c")
    case None
    then show ?thesis using Cons.prems strrchr_None [of c s] by (auto split: if_splits)
  next
    case (Some j)
    then show ?thesis using Cons by auto
  qed
qed simp

lemma strrchr_split:
  "strrchr s c = Some i \<Longrightarrow> c \<noteq> NUL \<Longrightarrow> s = take i s @ c # drop (Suc i) s"
  using strrchr_Some [of s c i] by (metis id_take_nth_drop)

lemma strrchr_last:
  "c \<notin> set b \<Longrightarrow> c \<noteq> NUL \<Longrightarrow> strrchr (a @ c # b) c = Some (length a)"
proof (induction a)
  case Nil
  then show ?case using strrchr_None [of c b] by simp
qed simp

section \<open>Copying\<close>

text \<open>\<open>op_strlcpy\<close>: the new contents of the destination, whose old contents are \<open>dest\<close>.\<close>

definition op_strlcpy :: "string \<Rightarrow> string \<Rightarrow> nat \<Rightarrow> string" where
  "op_strlcpy dest src n =
     (if n \<noteq> 0 then take (if n \<le> length src then n - 1 else length src) src else dest)"

lemma op_strlcpy_take: "0 < n \<Longrightarrow> op_strlcpy dest src n = take (n - 1) src"
  by (simp add: op_strlcpy_def)

lemma op_strlcpy_fits [simp]: "length src < n \<Longrightarrow> op_strlcpy dest src n = src"
  by (simp add: op_strlcpy_def)

lemma op_strlcpy_length: "0 < n \<Longrightarrow> length (op_strlcpy dest src n) < n"
  by (auto simp: op_strlcpy_take)

lemma op_strlcpy_cstring: "cstring src \<Longrightarrow> cstring dest \<Longrightarrow> cstring (op_strlcpy dest src n)"
  by (auto simp: op_strlcpy_def cstring_def dest: in_set_takeD)

section \<open>The vectorised scans\<close>

text \<open>
  A vector compare yields one mask bit per lane; the position found is the number of trailing
  zero bits of the mask.  \<open>lanes\<close> is 32 on the AVX2 path and 16 on the SSE2 and NEON paths.
\<close>

fun movemask :: "(char \<Rightarrow> bool) \<Rightarrow> string \<Rightarrow> 32 word" where
  "movemask P [] = 0"
| "movemask P (c # s) = (if P c then 1 else 0) OR push_bit 1 (movemask P s)"

definition ctz :: "32 word \<Rightarrow> nat" where
  "ctz m = length (takeWhile (\<lambda>i. \<not> bit m i) [0..<32])"

fun find_delim_scalar :: "char \<Rightarrow> char \<Rightarrow> string \<Rightarrow> nat" where
  "find_delim_scalar d1 d2 [] = 0"
| "find_delim_scalar d1 d2 (c # s) =
     (if c = d1 \<or> c = d2 then 0 else Suc (find_delim_scalar d1 d2 s))"

fun count_leading_scalar :: "char \<Rightarrow> string \<Rightarrow> nat" where
  "count_leading_scalar d [] = 0"
| "count_leading_scalar d (c # s) = (if c = d then Suc (count_leading_scalar d s) else 0)"

function find_delim_simd :: "nat \<Rightarrow> char \<Rightarrow> char \<Rightarrow> string \<Rightarrow> nat" where
  "find_delim_simd lanes d1 d2 s =
     (if 0 < lanes \<and> lanes \<le> length s
      then let mask = movemask (\<lambda>c. c = d1 \<or> c = d2) (take lanes s)
           in if mask \<noteq> 0 then ctz mask
              else lanes + find_delim_simd lanes d1 d2 (drop lanes s)
      else find_delim_scalar d1 d2 s)"
  by auto
termination by (relation "measure (\<lambda>(l, d1, d2, s). length s)") auto

function count_leading_simd :: "nat \<Rightarrow> char \<Rightarrow> string \<Rightarrow> nat" where
  "count_leading_simd lanes d s =
     (if 0 < lanes \<and> lanes \<le> length s
      then let mask = NOT (movemask (\<lambda>c. c = d) (take lanes s)) AND (2 ^ lanes - 1)
           in if mask \<noteq> 0 then ctz mask
              else lanes + count_leading_simd lanes d (drop lanes s)
      else count_leading_scalar d s)"
  by auto
termination by (relation "measure (\<lambda>(l, d, s). length s)") auto

declare find_delim_simd.simps [simp del] count_leading_simd.simps [simp del]

definition op_simd_find_delim :: "bool \<Rightarrow> char \<Rightarrow> char \<Rightarrow> string \<Rightarrow> nat" where
  "op_simd_find_delim avx2 d1 d2 s =
     (if s = [] then 0 else find_delim_simd (if avx2 then 32 else 16) d1 d2 s)"

definition op_simd_count_leading :: "bool \<Rightarrow> char \<Rightarrow> string \<Rightarrow> nat" where
  "op_simd_count_leading avx2 d s =
     (if s = [] then 0 else count_leading_simd (if avx2 then 32 else 16) d s)"

lemma bit_movemask:
  "length s \<le> 32 \<Longrightarrow> bit (movemask P s) i \<longleftrightarrow> i < length s \<and> P (s ! i)"
proof (induction s arbitrary: i)
  case (Cons c s)
  have b: "bit (push_bit 1 (movemask P s)) i \<longleftrightarrow> 1 \<le> i \<and> i < 32 \<and> bit (movemask P s) (i - 1)"
    unfolding bit_push_bit_iff by auto
  have "length s \<le> 32" using Cons.prems by simp
  then have IH: "bit (movemask P s) j \<longleftrightarrow> j < length s \<and> P (s ! j)" for j
    by (rule Cons.IH)
  have "bit (movemask P (c # s)) i \<longleftrightarrow> (i = 0 \<and> P c) \<or> (1 \<le> i \<and> i < 32 \<and> i - 1 < length s \<and> P (s ! (i - 1)))"
    unfolding movemask.simps bit_or_iff b IH by (simp add: bit_1_iff)
  then show ?case using Cons.prems by (cases i) auto
qed simp

lemma takeWhile_upt:
  assumes "i < n" "P i" "\<And>j. j < i \<Longrightarrow> \<not> P j"
  shows "length (takeWhile (\<lambda>j. \<not> P j) [0..<n]) = i"
proof -
  have "[0..<n] = [0..<i] @ i # [Suc i..<n]"
    using assms(1) by (metis le_add1 le_add_diff_inverse less_imp_le upt_add_eq_append upt_conv_Cons zero_le)
  moreover have "takeWhile (\<lambda>j. \<not> P j) ([0..<i] @ i # [Suc i..<n]) = [0..<i]"
    using assms(2,3) by (subst takeWhile_append2) auto
  ultimately show ?thesis by simp
qed

lemma ctz_movemask:
  assumes "length t \<le> 32" "movemask P t \<noteq> 0"
  shows "ctz (movemask P t) = length (takeWhile (\<lambda>c. \<not> P c) t) \<and>
         length (takeWhile (\<lambda>c. \<not> P c) t) < length t"
proof -
  let ?k = "length (takeWhile (\<lambda>c. \<not> P c) t)"
  from assms obtain i where "i < length t" "P (t ! i)"
    by (auto simp: bit_eq_iff bit_movemask)
  then have k: "?k < length t"
    by (metis (mono_tags, lifting) length_takeWhile_le nat_less_le nth_mem
        takeWhile_eq_all_conv takeWhile_eq_take take_all_iff)
  have "P (t ! ?k)" using nth_length_takeWhile [OF k] by simp
  moreover have "\<not> P (t ! j)" if "j < ?k" for j
    using that takeWhile_nth [OF that] nth_mem [OF that] by (auto dest: set_takeWhileD)
  ultimately show ?thesis
    unfolding ctz_def using k assms(1) by (subst takeWhile_upt [of ?k]) (auto simp: bit_movemask)
qed

lemma movemask_zero:
  "length t \<le> 32 \<Longrightarrow> movemask P t = 0 \<longleftrightarrow> (\<forall>c \<in> set t. \<not> P c)"
  by (auto simp: bit_eq_iff bit_movemask all_set_conv_all_nth)

lemma movemask_not:
  assumes "length t \<le> 32"
  shows "NOT (movemask P t) AND (2 ^ length t - 1) = movemask (\<lambda>c. \<not> P c) t"
  using assms
  by (intro bit_eqI) (auto simp: bit_simps bit_movemask mask_eq_exp_minus_1 [symmetric])

lemma find_delim_scalar: "find_delim_scalar d1 d2 s = length (takeWhile (\<lambda>c. \<not> (c = d1 \<or> c = d2)) s)"
  by (induction s) auto

lemma count_leading_scalar: "count_leading_scalar d s = length (takeWhile (\<lambda>c. \<not> c \<noteq> d) s)"
  by (induction s) auto

lemma takeWhile_chunk:
  assumes "n \<le> length s"
  shows "length (takeWhile P s) =
         (if \<forall>c \<in> set (take n s). P c then n + length (takeWhile P (drop n s))
          else length (takeWhile P (take n s)))"
proof -
  have s: "s = take n s @ drop n s" by simp
  have n: "length (take n s) = n" using assms by simp
  show ?thesis
    by (subst (1) s, cases "\<forall>c \<in> set (take n s). P c")
       (auto simp: takeWhile_append1 takeWhile_append2 n min_absorb2 assms simp del: append_take_drop_id)
qed

lemma find_delim_simd:
  assumes "lanes \<le> 32"
  shows "find_delim_simd lanes d1 d2 s = find_delim_scalar d1 d2 s"
proof (induction s rule: length_induct)
  case (1 s)
  let ?P = "\<lambda>c. c = d1 \<or> c = d2" and ?t = "take lanes s"
  have l: "length ?t \<le> 32" using assms by simp
  show ?case
  proof (cases "0 < lanes \<and> lanes \<le> length s")
    case True
    then have IH: "find_delim_simd lanes d1 d2 (drop lanes s) = find_delim_scalar d1 d2 (drop lanes s)"
      using 1 by auto
    show ?thesis
      using True ctz_movemask [OF l, of ?P] movemask_zero [OF l, of ?P]
      unfolding find_delim_simd.simps [of lanes d1 d2 s] IH Let_def find_delim_scalar
      by (auto simp: takeWhile_chunk [of lanes s])
  next
    case False
    then show ?thesis by (auto simp: find_delim_simd.simps [of lanes d1 d2 s])
  qed
qed

lemma count_leading_simd:
  assumes "lanes \<le> 32"
  shows "count_leading_simd lanes d s = count_leading_scalar d s"
proof (induction s rule: length_induct)
  case (1 s)
  let ?P = "\<lambda>c. c \<noteq> d" and ?t = "take lanes s"
  have l: "length ?t \<le> 32" using assms by simp
  show ?case
  proof (cases "0 < lanes \<and> lanes \<le> length s")
    case True
    then have IH: "count_leading_simd lanes d (drop lanes s) = count_leading_scalar d (drop lanes s)"
      using 1 by auto
    have m: "NOT (movemask (\<lambda>c. c = d) ?t) AND (2 ^ lanes - 1) = movemask ?P ?t"
      using movemask_not [OF l, of "\<lambda>c. c = d"] True by (simp add: min_absorb2)
    show ?thesis
      using True ctz_movemask [OF l, of ?P] movemask_zero [OF l, of ?P]
      unfolding count_leading_simd.simps [of lanes d s] IH Let_def count_leading_scalar m
      by (auto simp: takeWhile_chunk [of lanes s])
  next
    case False
    then show ?thesis by (auto simp: count_leading_simd.simps [of lanes d s])
  qed
qed

lemma op_simd_find_delim [simp]: "op_simd_find_delim a d1 d2 s = find_delim_scalar d1 d2 s"
  by (simp add: op_simd_find_delim_def find_delim_simd)

lemma op_simd_count_leading [simp]: "op_simd_count_leading a d s = count_leading_scalar d s"
  by (simp add: op_simd_count_leading_def count_leading_simd)

section \<open>Integers in text\<close>

definition isspace :: "char \<Rightarrow> bool" where
  "isspace c \<longleftrightarrow> uc c \<in> {9, 10, 11, 12, 13, 32}"

definition isdigit :: "char \<Rightarrow> bool" where
  "isdigit c \<longleftrightarrow> 48 \<le> uc c \<and> uc c \<le> 57"

text \<open>The value of a digit in bases up to 16, as \<open>strtol\<close> reads it.\<close>

definition digit_val :: "char \<Rightarrow> nat option" where
  "digit_val c =
     (if 48 \<le> uc c \<and> uc c \<le> 57 then Some (uc c - 48)
      else if 97 \<le> uc c \<and> uc c \<le> 102 then Some (uc c - 87)
      else if 65 \<le> uc c \<and> uc c \<le> 70 then Some (uc c - 55)
      else None)"

definition is_base_digit :: "nat \<Rightarrow> char \<Rightarrow> bool" where
  "is_base_digit b c = (case digit_val c of Some v \<Rightarrow> v < b | None \<Rightarrow> False)"

fun digits_value :: "nat \<Rightarrow> int \<Rightarrow> string \<Rightarrow> int" where
  "digits_value b acc [] = acc"
| "digits_value b acc (c # s) = digits_value b (acc * int b + int (the (digit_val c))) s"

text \<open>
  \<open>strtol\<close>: leading white space, a sign, an optional \<open>0x\<close> in base 16, then the longest run of
  digits; the value saturates at the bounds of a 64-bit \<open>long\<close>.  The second result is the
  unread rest (\<open>*endptr\<close>), the whole input when no digit was read.
\<close>

definition clamp_long :: "int \<Rightarrow> int" where
  "clamp_long v = (if v < - (2 ^ 63) then - (2 ^ 63) else if 2 ^ 63 \<le> v then 2 ^ 63 - 1 else v)"

definition strtol_sign :: "string \<Rightarrow> bool \<times> string" where
  "strtol_sign s = (case s of c # t \<Rightarrow> if c = CHR ''-'' then (True, t)
                                 else if c = CHR ''+'' then (False, t) else (False, s)
                    | [] \<Rightarrow> (False, s))"

definition strtol_prefix :: "nat \<Rightarrow> string \<Rightarrow> string" where
  "strtol_prefix b s =
     (case s of z # x # d # t \<Rightarrow>
        if b = 16 \<and> z = CHR ''0'' \<and> (x = CHR ''x'' \<or> x = CHR ''X'') \<and> is_base_digit 16 d
        then d # t else s
      | _ \<Rightarrow> s)"

definition strtol :: "string \<Rightarrow> nat \<Rightarrow> int \<times> string" where
  "strtol s b =
     (let (neg, t) = strtol_sign (dropWhile isspace s);
          u = strtol_prefix b t;
          ds = takeWhile (is_base_digit b) u;
          v = digits_value b 0 ds
      in if ds = [] then (0, s)
         else (clamp_long (if neg then - v else v), dropWhile (is_base_digit b) u))"

text \<open>\<open>egg_atoi\<close> of \<open>src/src/eggdrop.h\<close>: \<open>(int) strtol(s, nullptr, 10)\<close>.\<close>

definition to_int32 :: "int \<Rightarrow> int" where
  "to_int32 v = sint (word_of_int v :: 32 word)"

definition egg_atoi :: "string \<Rightarrow> int" where
  "egg_atoi s = to_int32 (fst (strtol s 10))"

text \<open>What \<open>%u\<close>, \<open>%d\<close> and \<open>%02d\<close> print.\<close>

definition digit_char :: "nat \<Rightarrow> char" where
  "digit_char d = char_of (48 + d)"

fun dec :: "nat \<Rightarrow> string" where
  "dec n = (if n < 10 then [digit_char n] else dec (n div 10) @ [digit_char (n mod 10)])"

declare dec.simps [simp del]

definition dec_int :: "int \<Rightarrow> string" where
  "dec_int v = (if v < 0 then CHR ''-'' # dec (nat (- v)) else dec (nat v))"

definition dec2 :: "int \<Rightarrow> string" where
  "dec2 v = (if 0 \<le> v \<and> v < 10 then CHR ''0'' # dec (nat v) else dec_int v)"

lemma uc_digit_char [simp]: "d < 10 \<Longrightarrow> uc (digit_char d) = 48 + d"
  by (simp add: digit_char_def)

lemma digit_val_digit_char [simp]: "d < 10 \<Longrightarrow> digit_val (digit_char d) = Some d"
  by (simp add: digit_val_def)

lemma is_base_digit_digit_char [simp]: "d < 10 \<Longrightarrow> 10 \<le> b \<Longrightarrow> is_base_digit b (digit_char d)"
  by (simp add: is_base_digit_def)

lemma isdigit_digit_char [simp]: "d < 10 \<Longrightarrow> isdigit (digit_char d)"
  by (simp add: isdigit_def)

lemma isdigit_is_base_digit: "is_base_digit 10 c \<longleftrightarrow> isdigit c"
  by (auto simp: is_base_digit_def isdigit_def digit_val_def)

lemma dec_digits: "c \<in> set (dec n) \<Longrightarrow> isdigit c"
  by (induction n rule: dec.induct) (subst (asm) (2) dec.simps, auto split: if_splits)

lemma dec_not_Nil [simp]: "dec n \<noteq> []"
  by (subst dec.simps) simp

lemma digits_value_append:
  "digits_value b acc (s @ t) = digits_value b (digits_value b acc s) t"
  by (induction s arbitrary: acc) auto

lemma digits_value_dec: "digits_value 10 0 (dec n) = int n"
proof (induction n rule: dec.induct)
  case (1 n)
  show ?case
  proof (cases "n < 10")
    case False
    then have "digits_value 10 0 (dec n) = int (n div 10) * 10 + int (n mod 10)"
      using 1 by (subst dec.simps) (simp add: digits_value_append)
    then show ?thesis by presburger
  qed (simp add: dec.simps)
qed

lemma isdigit_not_isspace: "isdigit c \<Longrightarrow> \<not> isspace c"
  by (auto simp: isdigit_def isspace_def)

lemma isdigit_not_NUL: "isdigit c \<Longrightarrow> c \<noteq> NUL"
  by (auto simp: isdigit_def)

lemma dec_cstring [simp]: "cstring (dec n)"
  using dec_digits isdigit_not_NUL by (auto simp: cstring_def)

text \<open>Reading back a number printed before a byte that is not a digit.\<close>

lemma strtol_dec:
  assumes "\<not> isdigit (c0 t)"
  shows "strtol (dec n @ t) 10 = (clamp_long (int n), t)"
proof -
  obtain c r where cr: "dec n = c # r" by (cases "dec n") auto
  have c: "isdigit c" using dec_digits [of c n] cr by simp
  then have "c \<noteq> CHR ''-''" "c \<noteq> CHR ''+''" by (auto simp: isdigit_def)
  then have sg: "strtol_sign (dropWhile isspace (dec n @ t)) = (False, dec n @ t)"
    using c cr isdigit_not_isspace by (simp add: strtol_sign_def)
  have px: "strtol_prefix 10 (dec n @ t) = dec n @ t"
    by (auto simp: strtol_prefix_def split: list.split)
  have all: "\<forall>x \<in> set (dec n). is_base_digit 10 x"
    using dec_digits isdigit_is_base_digit by blast
  have t: "takeWhile (is_base_digit 10) t = []" "dropWhile (is_base_digit 10) t = t"
    using assms by (cases t; simp add: isdigit_is_base_digit)+
  have tw: "takeWhile (is_base_digit 10) (dec n @ t) = dec n"
    "dropWhile (is_base_digit 10) (dec n @ t) = t"
    using all t by (simp_all add: takeWhile_append2 dropWhile_append2)
  show ?thesis
    unfolding strtol_def sg px Let_def split_beta fst_conv snd_conv tw
    by (simp add: digits_value_dec)
qed

lemma to_int32_id: "- (2 ^ 31) \<le> v \<Longrightarrow> v < 2 ^ 31 \<Longrightarrow> to_int32 v = v"
  by (simp add: to_int32_def sint_sbintrunc' signed_take_bit_int_eq_self)

lemma egg_atoi_dec: "n < 2 ^ 31 \<Longrightarrow> \<not> isdigit (c0 t) \<Longrightarrow> egg_atoi (dec n @ t) = int n"
  by (simp add: egg_atoi_def strtol_dec clamp_long_def to_int32_id)

end
