(* ===== verification/StrUtil.thy ===== *)
theory StrUtil
  imports CStr
begin

text \<open>
  The string utilities of \<open>src/src/misc.c\<close>: bounded append, word splitting, mask escaping and
  its inverse, the constant-time comparison and the small parsers.  Functions that modify
  their argument in place return its new contents.
\<close>

section \<open>Appending and copying\<close>

text \<open>\<open>egg_strcatn\<close>: the first loop finds the end of \<open>dst\<close>, the second copies.\<close>

fun strcatn_skip :: "string \<Rightarrow> nat \<Rightarrow> string \<times> nat" where
  "strcatn_skip (c # dst) (Suc n) = (let (kept, left) = strcatn_skip dst n in (c # kept, left))"
| "strcatn_skip _ n = ([], n)"

fun strcatn_copy :: "string \<Rightarrow> nat \<Rightarrow> string \<times> nat" where
  "strcatn_copy (c # src) (Suc (Suc n)) =
     (let (copied, left) = strcatn_copy src (Suc n) in (c # copied, left))"
| "strcatn_copy _ n = ([], n)"

definition egg_strcatn :: "string \<Rightarrow> string \<Rightarrow> nat \<Rightarrow> string \<times> nat" where
  "egg_strcatn dst src sz =
     (let (kept, tmpmax) = strcatn_skip dst sz;
          (copied, left) = strcatn_copy src tmpmax
      in (kept @ copied, tmpmax - left))"

definition my_strcpy :: "string \<Rightarrow> string \<times> nat" where
  "my_strcpy b = (b, length b)"

lemma strcatn_skip: "strcatn_skip dst n = (take n dst, n - length dst)"
  by (induction dst n rule: strcatn_skip.induct) auto

lemma strcatn_copy: "strcatn_copy src n = (take (n - 1) src, n - length (take (n - 1) src))"
  by (induction src n rule: strcatn_copy.induct) auto

lemma egg_strcatn_eq:
  "egg_strcatn dst src sz =
     (take sz dst @ take (sz - length dst - 1) src, min (length src) (sz - length dst - 1))"
  by (auto simp: egg_strcatn_def strcatn_skip strcatn_copy min_def)

section \<open>Splitting\<close>

text \<open>
  The destination of \<open>splitc\<close>: no buffer, the very buffer that is split, or another one.
\<close>

datatype split_dest = NoDest | SameDest | Dest string

definition splitc :: "split_dest \<Rightarrow> string \<Rightarrow> char \<Rightarrow> split_dest \<times> string" where
  "splitc first rest divider =
     (case strchr rest divider of
        None \<Rightarrow> (case first of Dest _ \<Rightarrow> (Dest [], rest) | _ \<Rightarrow> (first, rest))
      | Some p \<Rightarrow>
          (case first of
             NoDest \<Rightarrow> (NoDest, drop (Suc p) rest)
           | SameDest \<Rightarrow> (SameDest, take p rest)
           | Dest _ \<Rightarrow> (Dest (take p rest), drop (Suc p) rest)))"

definition splitcn :: "split_dest \<Rightarrow> string \<Rightarrow> char \<Rightarrow> nat \<Rightarrow> split_dest \<times> string" where
  "splitcn first rest divider sz =
     (case strchr rest divider of
        None \<Rightarrow> (case first of Dest _ \<Rightarrow> (Dest [], rest) | _ \<Rightarrow> (first, rest))
      | Some p \<Rightarrow>
          (case first of
             NoDest \<Rightarrow> (NoDest, drop (Suc p) rest)
           | SameDest \<Rightarrow> (SameDest, op_strlcpy rest (take p rest) sz)
           | Dest old \<Rightarrow> (Dest (op_strlcpy old (take p rest) sz), drop (Suc p) rest)))"

definition splitnick :: "string \<Rightarrow> string \<times> string" where
  "splitnick blah =
     (case strchr blah (CHR ''!'') of
        Some p \<Rightarrow> (take p blah, drop (Suc p) blah)
      | None \<Rightarrow> ([], blah))"

definition remove_crlf :: "string \<Rightarrow> string" where
  "remove_crlf line =
     (let crlf = op_simd_find_delim True (CHR 0x0D) (CHR 0x0A) line
      in if crlf < length line then take crlf line else line)"

text \<open>\<open>newsplit\<close>: the first word and what \<open>*rest\<close> points at afterwards.\<close>

definition newsplit :: "string \<Rightarrow> string \<times> string" where
  "newsplit rest =
     (let r = drop (op_simd_count_leading True (CHR '' '') rest) rest;
          n = op_simd_find_delim True (CHR '' '') NUL r;
          q = drop n r
      in (take n r, if q \<noteq> [] then tl q else q))"

definition extracthostname :: "string \<Rightarrow> string" where
  "extracthostname hostmask =
     (case strrchr hostmask (CHR ''@'') of Some p \<Rightarrow> drop (Suc p) hostmask | None \<Rightarrow> [])"

lemma remove_crlf_eq: "remove_crlf s = takeWhile (\<lambda>c. c \<noteq> CHR 0x0D \<and> c \<noteq> CHR 0x0A) s"
proof -
  let ?P = "\<lambda>c. c \<noteq> CHR 0x0D \<and> c \<noteq> CHR 0x0A"
  have "takeWhile ?P s = take (length (takeWhile ?P s)) s" by (rule takeWhile_eq_take)
  moreover have "length (takeWhile ?P s) \<le> length s" by (rule length_takeWhile_le)
  ultimately show ?thesis
    by (simp add: remove_crlf_def find_delim_scalar Let_def) (metis take_all_iff leI)
qed

lemma newsplit_eq:
  assumes "cstring rest"
  defines "r \<equiv> dropWhile (\<lambda>c. c = CHR '' '') rest"
  shows "newsplit rest = (takeWhile (\<lambda>c. c \<noteq> CHR '' '') r, tl (dropWhile (\<lambda>c. c \<noteq> CHR '' '') r))"
proof -
  have r: "drop (count_leading_scalar (CHR '' '') rest) rest = r"
    by (simp add: r_def count_leading_scalar dropWhile_eq_drop)
  have "cstring r" using assms(1) by (auto simp: r_def cstring_def dest: set_dropWhileD)
  then have *: "find_delim_scalar (CHR '' '') NUL r = length (takeWhile (\<lambda>c. c \<noteq> CHR '' '') r)"
    unfolding find_delim_scalar cstring_def
    by (intro arg_cong [where f = length] takeWhile_cong) auto
  have tl: "(if q \<noteq> [] then tl q else q) = tl q" for q :: string
    by (cases q) simp_all
  show ?thesis
    unfolding newsplit_def Let_def op_simd_count_leading op_simd_find_delim r * tl
    by (simp add: takeWhile_eq_take [symmetric] dropWhile_eq_drop [symmetric])
qed

section \<open>Escaping\<close>

definition hex_char :: "nat \<Rightarrow> char" where
  "hex_char d = (if d < 10 then char_of (48 + d) else char_of (87 + d))"

text \<open>
  \<open>str_escape\<close>, with the size of the allocation and the number of bytes written as the code
  keeps them; \<open>None\<close> would be a write past the allocation.
\<close>

definition escaped :: "char \<Rightarrow> char \<Rightarrow> string" where
  "escaped esc c = [esc, hex_char (uc c div 16), hex_char (uc c mod 16)]"

fun str_escape_loop :: "string \<Rightarrow> char \<Rightarrow> char \<Rightarrow> nat \<Rightarrow> string \<Rightarrow> string option" where
  "str_escape_loop [] d esc buflen b = (if length b \<le> buflen then Some b else None)"
| "str_escape_loop (c # s) d esc buflen b =
     (let buflen' = (if buflen \<le> length b + 3 then buflen * 2 else buflen);
          out = (if c = d \<or> c = esc then escaped esc c else [c])
      in if length b + length out \<le> buflen' then str_escape_loop s d esc buflen' (b @ out)
         else None)"

definition str_escape :: "string \<Rightarrow> char \<Rightarrow> char \<Rightarrow> string option" where
  "str_escape str d esc = str_escape_loop str d esc (2 * length str) []"

text \<open>
  \<open>strchr_unescape\<close>: the rewritten prefix and, when \<open>div\<close> was found, what follows it.
  \<open>None\<close> is a read past the terminating NUL, which an escape character among the last two
  bytes causes.
\<close>

fun strchr_unescape :: "string \<Rightarrow> char \<Rightarrow> char \<Rightarrow> (string \<times> string option) option" where
  "strchr_unescape [] d esc = Some ([], None)"
| "strchr_unescape (c # s) d esc =
     (if c = esc then
        (case s of
           a # b # t \<Rightarrow>
             map_option (\<lambda>(p, r). (char_of (nat (fst (strtol [a, b] 16) mod 256)) # p, r))
               (strchr_unescape t d esc)
         | _ \<Rightarrow> None)
      else if c = d then Some ([], Some s)
      else map_option (\<lambda>(p, r). (c # p, r)) (strchr_unescape s d esc))"

definition str_unescape :: "string \<Rightarrow> char \<Rightarrow> string option" where
  "str_unescape str esc = map_option fst (strchr_unescape str NUL esc)"

section \<open>Small parsers\<close>

fun oatoi_loop :: "string \<Rightarrow> int \<Rightarrow> int" where
  "oatoi_loop [] i = i"
| "oatoi_loop (c # s) i =
     (if CHR ''0'' \<le> c \<and> c \<le> CHR ''7'' then oatoi_loop s (i * 8 + (int (uc c) - 48)) else - 1)"

definition oatoi :: "string \<Rightarrow> int" where
  "oatoi octal = (if octal = [] then - 1 else oatoi_loop octal 0)"

definition str_isdigit :: "string \<Rightarrow> bool" where
  "str_isdigit str \<longleftrightarrow> str \<noteq> [] \<and> list_all isdigit str"

text \<open>\<open>crypto_verify\<close>: \<open>d\<close> is the 64-bit \<open>uint_fast16_t\<close>.\<close>

fun verify_acc :: "string \<Rightarrow> string \<Rightarrow> 64 word \<Rightarrow> 64 word" where
  "verify_acc (x # xs) (y # ys) d = verify_acc xs ys (d OR ucast (uchar_of x XOR uchar_of y))"
| "verify_acc _ _ d = d"

definition crypto_verify :: "string \<Rightarrow> string \<Rightarrow> int" where
  "crypto_verify x y =
     (if length x \<noteq> length y then 1
      else sint ((1 AND drop_bit 8 (verify_acc x y 0 - 1)) - 1))"

section \<open>Escaping is inverted by unescaping\<close>

lemma uc_hex_char: "d < 16 \<Longrightarrow> uc (hex_char d) = (if d < 10 then 48 + d else 87 + d)"
  by (auto simp: hex_char_def)

lemma digit_val_hex_char: "d < 16 \<Longrightarrow> digit_val (hex_char d) = Some d"
  by (auto simp: digit_val_def uc_hex_char)

lemma hex_char_plain:
  assumes "d < 16"
  shows "\<not> isspace (hex_char d)" "hex_char d \<noteq> CHR ''-''" "hex_char d \<noteq> CHR ''+''"
    "is_base_digit 16 (hex_char d)"
proof -
  show "\<not> isspace (hex_char d)" using assms by (auto simp: isspace_def uc_hex_char)
  show "hex_char d \<noteq> CHR ''-''" "hex_char d \<noteq> CHR ''+''"
    using assms by (auto simp: uc_eq_iff uc_hex_char simp del: of_char_eq_iff split: if_splits)
  show "is_base_digit 16 (hex_char d)"
    using assms by (simp add: is_base_digit_def digit_val_hex_char)
qed

lemma strtol_hex: "n < 256 \<Longrightarrow> fst (strtol [hex_char (n div 16), hex_char (n mod 16)] 16) = int n"
proof -
  assume n: "n < 256"
  then have d: "n div 16 < 16" "n mod 16 < 16" by auto
  note h = hex_char_plain [OF d(1)] hex_char_plain [OF d(2)]
  have "int (n div 16) * 16 + int (n mod 16) = int n" by presburger
  then show ?thesis
    using h n by (simp add: strtol_def strtol_sign_def strtol_prefix_def digit_val_hex_char d clamp_long_def)
qed

fun escape_all :: "char \<Rightarrow> char \<Rightarrow> string \<Rightarrow> string" where
  "escape_all d esc [] = []"
| "escape_all d esc (c # s) = (if c = d \<or> c = esc then escaped esc c else [c]) @ escape_all d esc s"

lemma str_escape_loop:
  "s = [] \<or> 3 \<le> buflen \<or> (2 \<le> buflen \<and> b = []) \<Longrightarrow> length b \<le> buflen \<Longrightarrow>
     str_escape_loop s d esc buflen b = Some (b @ escape_all d esc s)"
proof (induction s arbitrary: b buflen)
  case (Cons c s)
  show ?case using Cons.prems by (auto simp: Let_def Cons.IH escaped_def)
qed simp

lemma str_escape_eq: "str_escape s d esc = Some (escape_all d esc s)"
  unfolding str_escape_def by (subst str_escape_loop) (cases s, auto)

lemma strchr_unescape_escape:
  "d \<noteq> esc \<Longrightarrow> strchr_unescape (escape_all d esc s @ t) d esc =
     map_option (\<lambda>(p, r). (s @ p, r)) (strchr_unescape t d esc)"
proof (induction s)
  case Nil
  then show ?case by (simp add: option.map_ident split_beta)
next
  case (Cons c s)
  show ?case
  proof (cases "c = d \<or> c = esc")
    case True
    have "fst (strtol [hex_char (uc c div 16), hex_char (uc c mod 16)] 16) = int (uc c)"
      by (rule strtol_hex) simp
    then have "char_of (nat (fst (strtol [hex_char (uc c div 16), hex_char (uc c mod 16)] 16) mod 256)) = c"
      by (simp add: nat_mod_distrib flip: of_nat_mod)
    then show ?thesis
      using Cons True by (simp add: escaped_def option.map_comp comp_def split_beta)
  next
    case False
    then show ?thesis using Cons by (simp add: option.map_comp comp_def split_beta)
  qed
qed

section \<open>The constant-time comparison\<close>

lemma ucast_uchar_eq0: "(ucast (w :: uchar) :: 64 word) = 0 \<longleftrightarrow> w = 0"
proof -
  have "unat (ucast w :: 64 word) = unat w"
    using unsigned_less [of w, where 'a = nat] by (simp add: unsigned_ucast_eq take_bit_nat_eq_self)
  then show ?thesis by (metis unsigned_0 unsigned_eq_0_iff)
qed

lemma xor_eq_0: "(a :: uchar) XOR b = 0 \<longleftrightarrow> a = b"
  by (metis xor.assoc xor.left_neutral xor.right_neutral xor_self_eq)

lemma uchar_of_eq: "uchar_of a = uchar_of b \<longleftrightarrow> a = b"
  by (metis uc_eq_iff unat_uchar_of)

lemma verify_acc_eq0:
  "length x = length y \<Longrightarrow> verify_acc x y d = 0 \<longleftrightarrow> d = 0 \<and> x = y"
proof (induction x y d rule: verify_acc.induct)
  case (1 x xs y ys d)
  have "(ucast (uchar_of x XOR uchar_of y) :: 64 word) = 0 \<longleftrightarrow> x = y"
    by (simp add: ucast_uchar_eq0 xor_eq_0 uchar_of_eq)
  with 1 show ?case by (simp add: or_eq_0_iff)
qed auto

lemma verify_acc_small: "unat d < 256 \<Longrightarrow> unat (verify_acc x y d) < 256"
proof (induction x y d rule: verify_acc.induct)
  case (1 x xs y ys d)
  have u: "ucast (w :: uchar) = take_bit 8 (ucast w :: 64 word)" for w
    by (rule bit_word_eqI) (auto simp: bit_simps dest: bit_imp_le_length)
  have "unat (take_bit 8 d) = unat d"
    using "1.prems" by (simp add: unsigned_take_bit_eq take_bit_nat_eq_self)
  then have d: "d = take_bit 8 d" by (simp add: word_unat_eq_iff)
  have "d OR ucast (uchar_of x XOR uchar_of y) = take_bit 8 (d OR ucast (uchar_of x XOR uchar_of y))"
    by (subst (1) d, subst u) (rule bit_word_eqI, auto simp: bit_simps)
  then have "unat (d OR ucast (uchar_of x XOR uchar_of y)) < 2 ^ 8"
    by (metis take_bit_nat_less_exp unsigned_take_bit_eq)
  with 1 show ?case by simp
qed auto

lemma verify_result:
  "unat (d :: 64 word) < 256 \<Longrightarrow> sint ((1 AND drop_bit 8 (d - 1)) - 1) = (if d = 0 then 0 else - 1)"
proof (cases "d = 0")
  case True
  have "sint ((1 AND drop_bit 8 ((0::64 word) - 1)) - 1) = 0" by code_simp
  with True show ?thesis by simp
next
  case False
  assume "unat d < 256"
  with False have "unat (d - 1) < 256" by unat_arith
  then have "unat ((d - 1) div 256) = 0" by (simp add: unat_div)
  then have "drop_bit 8 (d - 1) = 0" by (simp add: drop_bit_eq_div unat_eq_zero)
  with False show ?thesis by simp
qed

section \<open>Properties\<close>

text \<open>
  \<open>newsplit\<close> cuts a line into leading spaces, a first word without spaces, and, after one
  separating space when there is one, the rest; nothing of the line is lost or reordered, and
  the word is empty only when the line held nothing but spaces.
\<close>

theorem newsplit_splits:
  assumes "cstring line"
  shows "\<exists>n sep. line = replicate n (CHR '' '') @ fst (newsplit line) @ sep @ snd (newsplit line) \<and>
           CHR '' '' \<notin> set (fst (newsplit line)) \<and>
           (sep = '' '' \<or> sep = '''' \<and> snd (newsplit line) = '''') \<and>
           (fst (newsplit line) = '''' \<longrightarrow> set line \<subseteq> {CHR '' ''})"
proof -
  let ?sp = "\<lambda>c. c = CHR '' ''" and ?w = "\<lambda>c. c \<noteq> CHR '' ''"
  define r where "r = dropWhile ?sp line"
  define q where "q = dropWhile ?w r"
  have ns: "newsplit line = (takeWhile ?w r, tl q)"
    using newsplit_eq [OF assms] by (simp add: r_def q_def)
  define n where "n = length (takeWhile ?sp line)"
  have "takeWhile ?sp line = replicate n (CHR '' '')"
    by (rule replicate_eqI) (auto simp: n_def dest: set_takeWhileD)
  then have n: "line = replicate n (CHR '' '') @ r"
    using takeWhile_dropWhile_id [of ?sp line] by (simp add: r_def)
  have r: "r = takeWhile ?w r @ q" by (simp add: q_def)
  have q: "q = (if q = [] then [] else '' '') @ tl q"
    using hd_dropWhile [of ?w r] by (cases q) (simp_all flip: q_def)
  have "takeWhile ?w r = [] \<longrightarrow> r = []"
    using hd_dropWhile [of ?sp line] by (cases r) (simp_all flip: r_def)
  then have "takeWhile ?w r = [] \<longrightarrow> set line \<subseteq> {CHR '' ''}"
    using n by auto
  moreover have "line = replicate n (CHR '' '') @ takeWhile ?w r @ (if q = [] then [] else '' '') @ tl q"
    using n r q by metis
  ultimately show ?thesis
    unfolding ns by (intro exI [of _ n] exI [of _ "if q = [] then [] else '' ''"])
      (auto dest: set_takeWhileD)
qed

theorem newsplit_splits_witness:
  "\<exists>n sep. ''  nick!u@h +ao x'' =
       replicate n (CHR '' '') @ fst (newsplit ''  nick!u@h +ao x'') @ sep @ snd (newsplit ''  nick!u@h +ao x'') \<and>
     CHR '' '' \<notin> set (fst (newsplit ''  nick!u@h +ao x'')) \<and>
     (sep = '' '' \<or> sep = '''' \<and> snd (newsplit ''  nick!u@h +ao x'') = '''') \<and>
     (fst (newsplit ''  nick!u@h +ao x'') = '''' \<longrightarrow> set ''  nick!u@h +ao x'' \<subseteq> {CHR '' ''})"
  by (rule newsplit_splits) simp

text \<open>
  C37: \<open>str_escape\<close> never writes past its buffer, whatever it escapes, and \<open>strchr_unescape\<close>
  finds the delimiter after the escaped text and restores the text in front of it.
\<close>

theorem str_escape_roundtrip:
  assumes "d \<noteq> esc"
  shows "\<exists>e. str_escape s d esc = Some e \<and>
           strchr_unescape (e @ d # rest) d esc = Some (s, Some rest) \<and>
           strchr_unescape e d esc = Some (s, None)"
proof -
  have "strchr_unescape (escape_all d esc s @ d # rest) d esc = Some (s, Some rest)"
    using strchr_unescape_escape [OF assms, of s "d # rest"] assms by simp
  moreover have "strchr_unescape (escape_all d esc s) d esc = Some (s, None)"
    using strchr_unescape_escape [OF assms, of s "[]"] by simp
  ultimately show ?thesis by (simp add: str_escape_eq)
qed

theorem str_escape_roundtrip_witness:
  "\<exists>e. str_escape (''*!*@a:b'' @ CHR 0x5C # ''c'') (CHR '':'') (CHR 0x5C) = Some e \<and>
     strchr_unescape (e @ CHR '':'' # ''12'') (CHR '':'') (CHR 0x5C) =
       Some (''*!*@a:b'' @ CHR 0x5C # ''c'', Some ''12'') \<and>
     strchr_unescape e (CHR '':'') (CHR 0x5C) = Some (''*!*@a:b'' @ CHR 0x5C # ''c'', None)"
  by (rule str_escape_roundtrip) simp

text \<open>
  a string ending in the escape character, or in the escape character and one more byte,
  makes \<open>strchr_unescape\<close> step over the terminating NUL and read on behind the string.
\<close>

theorem strchr_unescape_overread:
  assumes "esc \<notin> set s" "d \<notin> set s" "length tail \<le> 1"
  shows "strchr_unescape (s @ esc # tail) d esc = None"
  using assms by (induction s) (auto simp: le_Suc_eq length_Suc_conv split: list.split)

theorem strchr_unescape_overread_witness:
  "strchr_unescape (''*!*@host'' @ CHR 0x5C # ''3'') NUL (CHR 0x5C) = None"
  by (rule strchr_unescape_overread) simp_all

text \<open>
  the branch-free comparison \<open>crypto_verify\<close> answers 0 exactly for equal strings; the
  masks and shifts of its 64-bit accumulator never turn a difference into a match.
\<close>

theorem crypto_verify_iff: "crypto_verify x y = 0 \<longleftrightarrow> x = y"
proof (cases "length x = length y")
  case True
  have "unat (verify_acc x y 0) < 256" by (rule verify_acc_small) simp
  from verify_result [OF this] verify_acc_eq0 [OF True, of 0] True show ?thesis
    by (auto simp: crypto_verify_def split: if_splits)
qed (auto simp: crypto_verify_def)

text \<open>
  appending with \<open>egg_strcatn\<close> into a buffer of \<open>sz\<close> bytes that holds a terminated string
  keeps the old text, adds the longest prefix of the new one that fits with its NUL, and
  returns the number of bytes added.
\<close>

theorem egg_strcatn_fits:
  assumes "length dst < sz"
  shows "\<exists>k. egg_strcatn dst src sz = (dst @ take k src, k) \<and> k \<le> length src \<and>
           length (dst @ take k src) < sz \<and> (k < length src \<longrightarrow> length (dst @ take k src) = sz - 1)"
  using assms by (intro exI [of _ "min (length src) (sz - length dst - 1)"])
    (auto simp: egg_strcatn_eq min_def)

theorem egg_strcatn_fits_witness:
  "\<exists>k. egg_strcatn ''+o'' ''bcdef'' 6 = (''+o'' @ take k ''bcdef'', k) \<and> k \<le> length ''bcdef'' \<and>
     length (''+o'' @ take k ''bcdef'') < 6 \<and>
     (k < length ''bcdef'' \<longrightarrow> length (''+o'' @ take k ''bcdef'') = 6 - 1)"
  by (rule egg_strcatn_fits) simp

end
