(* ===== verification/Utf8.thy ===== *)
theory Utf8
  imports Prelude
begin

text \<open>
  The UTF-8 helpers of \<open>src/src/misc.c\<close> on lists of bytes, with the definition of UTF-8 they
  are measured against: the encodings of Unicode scalar values.
\<close>

section \<open>The code\<close>

definition utf8_char_len :: "uchar \<Rightarrow> nat" where
  "utf8_char_len p =
     (if p < 0x80 then 1 else if p < 0xC2 then 0 else if p < 0xE0 then 2
      else if p < 0xF0 then 3 else if p \<le> 0xF4 then 4 else 0)"

text \<open>\<open>p[i]\<close> of a NUL-terminated string.\<close>

definition byte_at :: "uchar list \<Rightarrow> nat \<Rightarrow> uchar" where
  "byte_at p i = (if i < length p then p ! i else 0)"

definition is_cont :: "uchar \<Rightarrow> bool" where
  "is_cont b \<longleftrightarrow> b AND 0xC0 = 0x80"

definition cp3 :: "uchar list \<Rightarrow> 32 word" where
  "cp3 p = push_bit 12 (ucast (byte_at p 0) AND 0x0F) OR
           push_bit 6 (ucast (byte_at p 1) AND 0x3F) OR (ucast (byte_at p 2) AND 0x3F)"

definition cp4 :: "uchar list \<Rightarrow> 32 word" where
  "cp4 p = push_bit 18 (ucast (byte_at p 0) AND 0x07) OR
           push_bit 12 (ucast (byte_at p 1) AND 0x3F) OR
           push_bit 6 (ucast (byte_at p 2) AND 0x3F) OR (ucast (byte_at p 3) AND 0x3F)"

text \<open>The overlong and surrogate tests, written twice in the source.\<close>

definition bad_sequence :: "nat \<Rightarrow> uchar list \<Rightarrow> bool" where
  "bad_sequence clen p \<longleftrightarrow>
     clen = 2 \<and> byte_at p 0 AND 0x1E = 0 \<or>
     clen = 3 \<and> (let cp = cp3 p in cp < 0x800 \<or> 0xD800 \<le> cp \<and> cp \<le> 0xDFFF) \<or>
     clen = 4 \<and> (let cp = cp4 p in cp < 0x10000 \<or> 0x10FFFF < cp)"

definition conts :: "nat \<Rightarrow> uchar list \<Rightarrow> bool" where
  "conts clen p \<longleftrightarrow> list_all (\<lambda>i. is_cont (byte_at p i)) [1..<clen]"

function utf8_valid :: "uchar list \<Rightarrow> bool" where
  "utf8_valid p =
     (if p = [] then True
      else let clen = utf8_char_len (byte_at p 0) in
        if clen = 0 then False
        else if length p < clen then False
        else if \<not> conts clen p then False
        else if bad_sequence clen p then False
        else utf8_valid (drop clen p))"
  by auto
termination by (relation "measure length") auto

text \<open>\<open>utf8_strlen\<close>; \<open>None\<close> when the pointer has stepped past the terminating NUL.\<close>

function utf8_strlen :: "uchar list \<Rightarrow> nat option" where
  "utf8_strlen p =
     (if p = [] then Some 0
      else let clen = utf8_char_len (byte_at p 0) in
        if clen = 0 then map_option Suc (utf8_strlen (tl p))
        else if length p < clen then None
        else map_option Suc (utf8_strlen (drop clen p)))"
  by auto
termination by (relation "measure length") auto

definition seq_ok :: "uchar list \<Rightarrow> bool" where
  "seq_ok p =
     (let clen = utf8_char_len (byte_at p 0)
      in 0 < clen \<and> conts clen p \<and> \<not> bad_sequence clen p)"

function utf8_sanitize :: "uchar list \<Rightarrow> uchar list \<times> nat" where
  "utf8_sanitize p =
     (if p = [] then ([], 0)
      else if \<not> seq_ok p then
        (let (q, replaced) = utf8_sanitize (tl p) in (0x3F # q, replaced + 1))
      else
        (let clen = utf8_char_len (byte_at p 0);
             (q, replaced) = utf8_sanitize (drop clen p)
         in (take clen p @ q, replaced)))"
  by auto
termination by (relation "measure length") (auto simp: seq_ok_def Let_def)

declare utf8_valid.simps [simp del] utf8_strlen.simps [simp del] utf8_sanitize.simps [simp del]

section \<open>UTF-8 as RFC 3629 defines it\<close>

definition scalar :: "nat \<Rightarrow> bool" where
  "scalar cp \<longleftrightarrow> cp < 0xD800 \<or> 0xDFFF < cp \<and> cp \<le> 0x10FFFF"

definition utf8_encode :: "nat \<Rightarrow> uchar list" where
  "utf8_encode cp =
     map of_nat
      (if cp < 0x80 then [cp]
       else if cp < 0x800 then [0xC0 + cp div 64, 0x80 + cp mod 64]
       else if cp < 0x10000 then [0xE0 + cp div 4096, 0x80 + cp div 64 mod 64, 0x80 + cp mod 64]
       else [0xF0 + cp div 262144, 0x80 + cp div 4096 mod 64, 0x80 + cp div 64 mod 64, 0x80 + cp mod 64])"

section \<open>Bits as arithmetic\<close>

lemma bit_unat: "bit (w :: 'a::len word) n \<longleftrightarrow> odd (unat w div 2 ^ n)"
proof -
  have "bit w n \<longleftrightarrow> bit (unat w) n"
    by (simp add: bit_unsigned_iff)
  then show ?thesis by (simp add: bit_iff_odd)
qed

lemma is_cont_iff: "is_cont b \<longleftrightarrow> 128 \<le> unat b \<and> unat b < 192"
proof -
  have c: "(0xC0 :: uchar) = 2 ^ 7 OR 2 ^ 6" "(0x80 :: uchar) = 2 ^ 7" by simp_all
  have m: "bit (0xC0 :: uchar) n \<longleftrightarrow> n = 6 \<or> n = 7" "bit (0x80 :: uchar) n \<longleftrightarrow> n = 7" for n
    unfolding c bit_or_iff bit_exp_iff by auto
  have n7: "bit (b AND 0xC0) n \<longleftrightarrow> bit b n \<and> (n = 6 \<or> n = 7)" for n
    unfolding bit_and_iff m ..
  have "is_cont b \<longleftrightarrow> bit b 7 \<and> \<not> bit b 6"
  proof
    assume "is_cont b"
    then have "bit (b AND 0xC0) n = bit (0x80 :: uchar) n" for n by (simp add: is_cont_def)
    then have "(bit b n \<and> (n = 6 \<or> n = 7)) = (n = 7)" for n unfolding m n7 .
    from this [of 7] this [of 6] show "bit b 7 \<and> \<not> bit b 6" by simp
  next
    assume "bit b 7 \<and> \<not> bit b 6"
    then show "is_cont b" unfolding is_cont_def by (intro bit_word_eqI) (auto simp only: m n7)
  qed
  moreover have "unat b < 256" using unsigned_less [of b, where 'a = nat] by simp
  moreover define q where "q = unat b div 64"
  ultimately have "q < 4" "is_cont b \<longleftrightarrow> odd (q div 2) \<and> even q"
    by (auto simp: bit_unat div_mult2_eq [symmetric])
  moreover from \<open>q < 4\<close> have "q = 0 \<or> q = 1 \<or> q = 2 \<or> q = 3" by linarith
  ultimately have "is_cont b \<longleftrightarrow> q = 2" by (elim disjE) simp_all
  then show ?thesis unfolding q_def by auto
qed

lemma lead2_not_overlong:
  assumes "194 \<le> unat b" "unat b < 224"
  shows "(b :: uchar) AND 0x1E \<noteq> 0"
proof
  assume z: "b AND 0x1E = 0"
  have c: "(0x1E :: uchar) = 2 ^ 1 OR 2 ^ 2 OR 2 ^ 3 OR 2 ^ 4" by simp
  have m: "bit (0x1E :: uchar) n \<longleftrightarrow> n = 1 \<or> n = 2 \<or> n = 3 \<or> n = 4" for n
    unfolding c bit_or_iff bit_exp_iff by auto
  have "\<not> bit (b AND 0x1E) n" for n unfolding z by simp
  then have "\<not> (bit b n \<and> bit (0x1E :: uchar) n)" for n unfolding bit_and_iff by blast
  then have "even (unat b div 2 ^ n)" if "n = 1 \<or> n = 2 \<or> n = 3 \<or> n = 4" for n
  proof -
    have "\<not> bit b n" using \<open>\<And>n. \<not> (bit b n \<and> bit (0x1E :: uchar) n)\<close> [of n] that unfolding m by blast
    then show ?thesis unfolding bit_unat by simp
  qed
  from this [of 1] this [of 2] this [of 3] this [of 4]
  have e: "even (unat b div 2)" "even (unat b div 2 div 2)" "even (unat b div 2 div 2 div 2)"
    "even (unat b div 2 div 2 div 2 div 2)" by (simp_all add: div_mult2_eq [symmetric])
  have "unat b div 2 div 2 div 2 div 2 div 2 = 6"
    using assms by (simp add: div_mult2_eq [symmetric])
  with e [THEN even_two_times_div_two] have "unat b div 2 = 96" by linarith
  with assms show False by linarith
qed

lemma unat_and_mask:
  "unat (ucast (b :: uchar) AND 0x07 :: 32 word) = unat b mod 8"
  "unat (ucast b AND 0x0F :: 32 word) = unat b mod 16"
  "unat (ucast b AND 0x3F :: 32 word) = unat b mod 64"
proof -
  have "unat (ucast b AND mask n :: 32 word) = unat b mod 2 ^ n" for n
    unfolding take_bit_eq_mask [symmetric] unsigned_take_bit_eq by (simp add: take_bit_eq_mod)
  from this [of 3] this [of 4] this [of 6] show
    "unat (ucast (b :: uchar) AND 0x07 :: 32 word) = unat b mod 8"
    "unat (ucast b AND 0x0F :: 32 word) = unat b mod 16"
    "unat (ucast b AND 0x3F :: 32 word) = unat b mod 64"
    by (simp_all add: mask_eq_exp_minus_1)
qed

lemma or_plus_nat: "y < 2 ^ n \<Longrightarrow> push_bit n x OR y = x * 2 ^ n + (y :: nat)"
proof -
  assume "y < 2 ^ n"
  then have "y = take_bit n y" by (simp add: take_bit_nat_eq_self)
  then have "push_bit n x AND y = 0"
    by (metis (no_types, lifting) and_zero_eq push_bit_take_bit take_bit_and take_bit_push_bit
        and.assoc and.commute diff_self_eq_0 order_refl take_bit_0 push_bit_of_0 take_bit_eq_mask)
  then show ?thesis by (simp add: disjunctive_add_eq_or [symmetric] push_bit_eq_mult)
qed

lemma unat_shift: "unat (push_bit n w :: 32 word) = unat w * 2 ^ n" if "unat w * 2 ^ n < 2 ^ 32"
  unfolding unsigned_push_bit_eq using that by (simp add: take_bit_nat_eq_self push_bit_eq_mult)

lemma unat_cp3:
  "unat (cp3 p) = unat (byte_at p 0) mod 16 * 4096 + unat (byte_at p 1) mod 64 * 64 +
                  unat (byte_at p 2) mod 64"
proof -
  let ?a = "unat (byte_at p 0) mod 16" and ?b = "unat (byte_at p 1) mod 64"
    and ?c = "unat (byte_at p 2) mod 64"
  have lt: "?a < 16" "?b < 64" "?c < 64" by auto
  then have "unat (push_bit 12 (ucast (byte_at p 0) AND 0x0F) :: 32 word) = push_bit 12 ?a"
    "unat (push_bit 6 (ucast (byte_at p 1) AND 0x3F) :: 32 word) = push_bit 6 ?b"
    by (subst unat_shift; simp add: unat_and_mask push_bit_eq_mult)+
  then have "unat (cp3 p) = push_bit 12 ?a OR (push_bit 6 ?b OR ?c)"
    by (simp only: cp3_def unsigned_or_eq unat_and_mask)
  also have "\<dots> = push_bit 12 ?a OR (?b * 64 + ?c)"
    using or_plus_nat [of ?c 6 ?b] lt by simp
  also have "\<dots> = ?a * 4096 + (?b * 64 + ?c)"
    using or_plus_nat [of "?b * 64 + ?c" 12 ?a] lt by simp
  finally show ?thesis by simp
qed

lemma unat_cp4:
  "unat (cp4 p) = unat (byte_at p 0) mod 8 * 262144 + unat (byte_at p 1) mod 64 * 4096 +
                  unat (byte_at p 2) mod 64 * 64 + unat (byte_at p 3) mod 64"
proof -
  let ?a = "unat (byte_at p 0) mod 8" and ?b = "unat (byte_at p 1) mod 64"
    and ?c = "unat (byte_at p 2) mod 64" and ?d = "unat (byte_at p 3) mod 64"
  have lt: "?a < 8" "?b < 64" "?c < 64" "?d < 64" by auto
  then have "unat (push_bit 18 (ucast (byte_at p 0) AND 0x07) :: 32 word) = push_bit 18 ?a"
    "unat (push_bit 12 (ucast (byte_at p 1) AND 0x3F) :: 32 word) = push_bit 12 ?b"
    "unat (push_bit 6 (ucast (byte_at p 2) AND 0x3F) :: 32 word) = push_bit 6 ?c"
    by (subst unat_shift; simp add: unat_and_mask push_bit_eq_mult)+
  then have "unat (cp4 p) = push_bit 18 ?a OR (push_bit 12 ?b OR (push_bit 6 ?c OR ?d))"
    by (simp only: cp4_def unsigned_or_eq unat_and_mask)
  also have "\<dots> = push_bit 18 ?a OR (push_bit 12 ?b OR (?c * 64 + ?d))"
    using or_plus_nat [of ?d 6 ?c] lt by simp
  also have "\<dots> = push_bit 18 ?a OR (?b * 4096 + (?c * 64 + ?d))"
    using or_plus_nat [of "?c * 64 + ?d" 12 ?b] lt by simp
  also have "\<dots> = ?a * 262144 + (?b * 4096 + (?c * 64 + ?d))"
    using or_plus_nat [of "?b * 4096 + (?c * 64 + ?d)" 18 ?a] lt by simp
  finally show ?thesis by simp
qed

section \<open>The sequence tests accept exactly the encodings\<close>

lemma char_len_nat:
  "utf8_char_len b =
     (if unat b < 128 then 1 else if unat b < 194 then 0 else if unat b < 224 then 2
      else if unat b < 240 then 3 else if unat b \<le> 244 then 4 else 0)"
  by (simp add: utf8_char_len_def word_less_nat_alt word_le_nat_alt)

lemma char_len_le: "utf8_char_len b \<le> 4"
  by (simp add: utf8_char_len_def)

lemma conts_simps [simp]:
  "conts (Suc 0) p" "conts 2 p \<longleftrightarrow> is_cont (byte_at p 1)"
  "conts 3 p \<longleftrightarrow> is_cont (byte_at p 1) \<and> is_cont (byte_at p 2)"
  "conts 4 p \<longleftrightarrow> is_cont (byte_at p 1) \<and> is_cont (byte_at p 2) \<and> is_cont (byte_at p 3)"
  by (simp_all add: conts_def upt_conv_Cons numeral_2_eq_2 numeral_3_eq_3)

lemma byte_at_Cons [simp]:
  "byte_at (b # p) 0 = b" "byte_at (b # p) (Suc i) = byte_at p i" "byte_at [] i = 0"
  by (simp_all add: byte_at_def)

lemma mod_part: "a \<le> x \<Longrightarrow> x < a + m \<Longrightarrow> a mod m = 0 \<Longrightarrow> x mod m = x - (a::nat)"
proof -
  assume a: "a \<le> x" "x < a + m" "a mod m = 0"
  then have "x mod m = (x - a) mod m" by (metis le_add_diff_inverse mod_add_left_eq add_0)
  also have "\<dots> = x - a" using a by simp
  finally show ?thesis .
qed

lemma bad2: "194 \<le> unat (byte_at p 0) \<Longrightarrow> unat (byte_at p 0) < 224 \<Longrightarrow> \<not> bad_sequence 2 p"
  using lead2_not_overlong [of "byte_at p 0"] by (simp add: bad_sequence_def)

lemma bad3:
  "bad_sequence 3 p \<longleftrightarrow> unat (cp3 p) < 0x800 \<or> 0xD800 \<le> unat (cp3 p) \<and> unat (cp3 p) \<le> 0xDFFF"
  by (simp add: bad_sequence_def Let_def word_less_nat_alt word_le_nat_alt)

lemma bad4: "bad_sequence 4 p \<longleftrightarrow> unat (cp4 p) < 0x10000 \<or> 0x10FFFF < unat (cp4 p)"
  by (simp add: bad_sequence_def Let_def word_less_nat_alt)

lemma bad1: "\<not> bad_sequence (Suc 0) p"
  by (simp add: bad_sequence_def)

lemma of_nat_eq_word: "n = unat b \<Longrightarrow> of_nat n = (b :: uchar)"
  by simp

lemma dm: "b < m \<Longrightarrow> (a * m + b) div m = a" "b < m \<Longrightarrow> (a * m + b) mod m = (b :: nat)"
  by auto

lemma head_is_encode:
  assumes "p \<noteq> []" "clen = utf8_char_len (byte_at p 0)" "0 < clen" "clen \<le> length p"
    "conts clen p" "\<not> bad_sequence clen p"
  shows "\<exists>cp. scalar cp \<and> take clen p = utf8_encode cp"
proof -
  let ?x = "\<lambda>i. unat (byte_at p i)"
  consider "?x 0 < 128" "clen = 1" | "194 \<le> ?x 0" "?x 0 < 224" "clen = 2"
    | "224 \<le> ?x 0" "?x 0 < 240" "clen = 3" | "240 \<le> ?x 0" "?x 0 \<le> 244" "clen = 4"
    using assms(2,3) by (auto simp: char_len_nat split: if_splits)
  then show ?thesis
  proof cases
    case 1
    then have "take clen p = utf8_encode (?x 0)" using assms(1)
      by (cases p) (auto simp: utf8_encode_def)
    moreover have "scalar (?x 0)" using 1 by (simp add: scalar_def)
    ultimately show ?thesis by blast
  next
    case 2
    then obtain b0 b1 q where p: "p = b0 # b1 # q" using assms(4)
      by (cases p; cases "tl p") auto
    have c: "128 \<le> unat b1" "unat b1 < 192" using assms(5) 2 p by (auto simp: is_cont_iff)
    define u v where "u = unat b0 - 192" and "v = unat b1 - 128"
    have uv: "unat b0 = 192 + u" "unat b1 = 128 + v" "2 \<le> u" "u < 32" "v < 64"
      using 2 c p by (auto simp: u_def v_def)
    have "utf8_encode (u * 64 + v) = [of_nat (192 + u), of_nat (128 + v)]"
      using uv unfolding utf8_encode_def by (simp add: dm)
    then have "take clen p = utf8_encode (u * 64 + v)"
      using 2 p by (simp flip: uv(1,2))
    moreover have "scalar (u * 64 + v)" using uv by (simp add: scalar_def)
    ultimately show ?thesis by blast
  next
    case 3
    then obtain b0 b1 b2 q where p: "p = b0 # b1 # b2 # q" using assms(4)
      by (cases p; cases "tl p"; cases "tl (tl p)") auto
    have c: "128 \<le> unat b1" "unat b1 < 192" "128 \<le> unat b2" "unat b2 < 192"
      using assms(5) 3 p by (auto simp: is_cont_iff numeral_2_eq_2)
    define u v w where "u = unat b0 - 224" and "v = unat b1 - 128" and "w = unat b2 - 128"
    have uv: "unat b0 = 224 + u" "unat b1 = 128 + v" "unat b2 = 128 + w" "u < 16" "v < 64" "w < 64"
      using 3 c p by (auto simp: u_def v_def w_def)
    let ?cp = "u * 4096 + (v * 64 + w)"
    have cp: "unat (cp3 p) = ?cp"
      using uv mod_part [of 224 "unat b0" 16] mod_part [of 128 "unat b1" 64] mod_part [of 128 "unat b2" 64]
      by (simp add: unat_cp3 p numeral_2_eq_2)
    have nb: "0x800 \<le> ?cp" "\<not> (0xD800 \<le> ?cp \<and> ?cp \<le> 0xDFFF)"
      using assms(6) 3 cp by (auto simp: bad3)
    have hi: "?cp < 0x10000" using uv by simp
    have d: "?cp div 4096 = u" "?cp div 64 mod 64 = v" "?cp mod 64 = w"
      using uv dm [of "v * 64 + w" 4096 u] dm [of w 64 "u * 64 + v"] dm [of v 64 u]
      by (simp_all add: algebra_simps)
    have "utf8_encode ?cp = [of_nat (224 + u), of_nat (128 + v), of_nat (128 + w)]"
      unfolding utf8_encode_def d using nb hi by simp
    then have "take clen p = utf8_encode ?cp" using 3 p by (simp flip: uv(1,2,3))
    moreover have "scalar ?cp" using nb hi by (auto simp: scalar_def)
    ultimately show ?thesis by blast
  next
    case 4
    then obtain b0 b1 b2 b3 q where p: "p = b0 # b1 # b2 # b3 # q" using assms(4)
      by (cases p; cases "tl p"; cases "tl (tl p)"; cases "tl (tl (tl p))") auto
    have c: "128 \<le> unat b1" "unat b1 < 192" "128 \<le> unat b2" "unat b2 < 192" "128 \<le> unat b3" "unat b3 < 192"
      using assms(5) 4 p by (auto simp: is_cont_iff numeral_2_eq_2 numeral_3_eq_3)
    define u v w z where "u = unat b0 - 240" and "v = unat b1 - 128" and "w = unat b2 - 128"
      and "z = unat b3 - 128"
    have uv: "unat b0 = 240 + u" "unat b1 = 128 + v" "unat b2 = 128 + w" "unat b3 = 128 + z"
      "u < 8" "v < 64" "w < 64" "z < 64"
      using 4 c p by (auto simp: u_def v_def w_def z_def)
    let ?cp = "u * 262144 + (v * 4096 + (w * 64 + z))"
    have cp: "unat (cp4 p) = ?cp"
      using uv mod_part [of 240 "unat b0" 8] mod_part [of 128 "unat b1" 64]
        mod_part [of 128 "unat b2" 64] mod_part [of 128 "unat b3" 64]
      by (simp add: unat_cp4 p numeral_2_eq_2 numeral_3_eq_3)
    have nb: "0x10000 \<le> ?cp" "?cp \<le> 0x10FFFF"
      using assms(6) 4 cp by (auto simp: bad4)
    have d: "?cp div 262144 = u" "?cp div 4096 mod 64 = v" "?cp div 64 mod 64 = w" "?cp mod 64 = z"
      using uv dm [of "v * 4096 + (w * 64 + z)" 262144 u] dm [of "w * 64 + z" 4096 "u * 64 + v"]
        dm [of z 64 "u * 4096 + v * 64 + w"] dm [of v 64 u] dm [of w 64 "u * 64 + v"]
      by (simp_all add: algebra_simps)
    have "utf8_encode ?cp = [of_nat (240 + u), of_nat (128 + v), of_nat (128 + w), of_nat (128 + z)]"
      unfolding utf8_encode_def d using nb by simp
    then have "take clen p = utf8_encode ?cp" using 4 p by (simp flip: uv(1,2,3,4))
    moreover have "scalar ?cp" using nb by (auto simp: scalar_def)
    ultimately show ?thesis by blast
  qed
qed

lemma unat_byte: "n < 256 \<Longrightarrow> unat (of_nat n :: uchar) = n"
  by (simp add: unat_of_nat)

lemma encode_is_head:
  assumes "scalar cp" and p_def: "p = utf8_encode cp @ q"
  shows "utf8_char_len (byte_at p 0) = length (utf8_encode cp) \<and> utf8_encode cp \<noteq> [] \<and>
         conts (length (utf8_encode cp)) p \<and> \<not> bad_sequence (length (utf8_encode cp)) p"
proof -
  consider "cp < 0x80" | "0x80 \<le> cp" "cp < 0x800" | "0x800 \<le> cp" "cp < 0x10000"
    | "0x10000 \<le> cp" by linarith
  then show ?thesis
  proof cases
    case 1
    then have "utf8_encode cp = [of_nat cp]" "unat (of_nat cp :: uchar) = cp"
      by (simp_all add: utf8_encode_def unat_byte)
    then show ?thesis using 1 by (simp add: p_def char_len_nat bad1)
  next
    case 2
    define u v where "u = cp div 64" and "v = cp mod 64"
    have uv: "2 \<le> u" "u < 32" "v < 64" using 2 by (auto simp: u_def v_def)
    have e: "utf8_encode cp = [of_nat (192 + u), of_nat (128 + v)]"
      using 2 by (simp add: utf8_encode_def u_def v_def)
    have n: "unat (of_nat (192 + u) :: uchar) = 192 + u" "unat (of_nat (128 + v) :: uchar) = 128 + v"
      by (rule unat_byte, use uv in simp)+
    show ?thesis using uv n bad2 [of p] unfolding e p_def
      by (simp add: char_len_nat is_cont_iff numeral_2_eq_2 [symmetric] del: of_nat_add)
  next
    case 3
    define u v w where "u = cp div 4096" and "v = cp div 64 mod 64" and "w = cp mod 64"
    have uv: "u < 16" "v < 64" "w < 64" using 3 by (auto simp: u_def v_def w_def)
    have cp: "cp = u * 4096 + v * 64 + w"
      using div_mult2_eq [of cp 64 64, simplified] div_mult_mod_eq [of cp 64] div_mult_mod_eq [of "cp div 64" 64]
      unfolding u_def v_def w_def by linarith
    have e: "utf8_encode cp = [of_nat (224 + u), of_nat (128 + v), of_nat (128 + w)]"
      using 3 by (simp add: utf8_encode_def u_def v_def w_def)
    have n: "unat (of_nat (224 + u) :: uchar) = 224 + u" "unat (of_nat (128 + v) :: uchar) = 128 + v"
      "unat (of_nat (128 + w) :: uchar) = 128 + w"
      by (rule unat_byte, use uv in simp)+
    have "unat (cp3 p) = cp"
      unfolding unat_cp3 p_def e using uv n cp mod_part [of 224 "224 + u" 16]
        mod_part [of 128 "128 + v" 64] mod_part [of 128 "128 + w" 64]
      by (simp add: numeral_2_eq_2 del: of_nat_add)
    then have "\<not> bad_sequence 3 p" using assms(1) 3 by (auto simp: bad3 scalar_def)
    then show ?thesis using uv n unfolding e p_def
      by (simp add: char_len_nat is_cont_iff numeral_2_eq_2 numeral_3_eq_3 [symmetric] del: of_nat_add)
  next
    case 4
    then have hi: "cp \<le> 0x10FFFF" using assms(1) by (simp add: scalar_def)
    define u v w z where "u = cp div 262144" and "v = cp div 4096 mod 64" and "w = cp div 64 mod 64"
      and "z = cp mod 64"
    have uv: "u \<le> 4" "v < 64" "w < 64" "z < 64" using hi by (auto simp: u_def v_def w_def z_def)
    have "262144 = 4096 * (64 :: nat)" "4096 = 64 * (64 :: nat)" by simp_all
    then have "cp div 262144 = cp div 4096 div 64" "cp div 4096 = cp div 64 div 64"
      by (metis div_mult2_eq)+
    then have cp: "cp = u * 262144 + v * 4096 + w * 64 + z"
      using div_mult_mod_eq [of cp 64] div_mult_mod_eq [of "cp div 64" 64]
        div_mult_mod_eq [of "cp div 4096" 64]
      unfolding u_def v_def w_def z_def by linarith
    have e: "utf8_encode cp = [of_nat (240 + u), of_nat (128 + v), of_nat (128 + w), of_nat (128 + z)]"
      using 4 by (simp add: utf8_encode_def u_def v_def w_def z_def)
    have n: "unat (of_nat (240 + u) :: uchar) = 240 + u" "unat (of_nat (128 + v) :: uchar) = 128 + v"
      "unat (of_nat (128 + w) :: uchar) = 128 + w" "unat (of_nat (128 + z) :: uchar) = 128 + z"
      by (rule unat_byte, use uv in simp)+
    have "unat (cp4 p) = cp"
      unfolding unat_cp4 p_def e using uv n cp mod_part [of 240 "240 + u" 8]
        mod_part [of 128 "128 + v" 64] mod_part [of 128 "128 + w" 64] mod_part [of 128 "128 + z" 64]
      by (simp add: numeral_2_eq_2 numeral_3_eq_3 del: of_nat_add)
    then have "\<not> bad_sequence 4 p" using hi 4 by (auto simp: bad4)
    moreover have "length (utf8_encode cp) = 4" "utf8_encode cp \<noteq> []" by (simp_all add: e)
    moreover have "utf8_char_len (byte_at p 0) = 4" "conts 4 p" using uv n unfolding e p_def
      by (simp_all add: char_len_nat is_cont_iff numeral_2_eq_2 numeral_3_eq_3 del: of_nat_add)
    ultimately show ?thesis by simp
  qed
qed

lemma conts_in_string:
  assumes "conts n p" "p \<noteq> []"
  shows "n \<le> length p"
proof (rule ccontr)
  assume n: "\<not> n \<le> length p"
  then have "is_cont (byte_at p (length p))"
    using assms by (cases p) (auto simp: conts_def list_all_iff simp del: byte_at_Cons)
  then show False by (simp add: byte_at_def is_cont_def)
qed

lemma seq_ok_encode:
  assumes "p \<noteq> []"
  shows "seq_ok p \<longleftrightarrow> (\<exists>cp q. scalar cp \<and> p = utf8_encode cp @ q)"
proof
  assume s: "seq_ok p"
  let ?n = "utf8_char_len (byte_at p 0)"
  have "?n \<le> length p" using s conts_in_string assms by (simp add: seq_ok_def Let_def)
  then obtain cp where "scalar cp" "take ?n p = utf8_encode cp"
    using s head_is_encode [OF assms refl] by (auto simp: seq_ok_def Let_def)
  then show "\<exists>cp q. scalar cp \<and> p = utf8_encode cp @ q"
    by (metis append_take_drop_id)
next
  assume "\<exists>cp q. scalar cp \<and> p = utf8_encode cp @ q"
  then obtain cp q where "scalar cp" "p = utf8_encode cp @ q" by blast
  from encode_is_head [OF this] show "seq_ok p" by (simp add: seq_ok_def Let_def)
qed

lemma seq_ok_head:
  "scalar cp \<Longrightarrow> utf8_char_len (byte_at (utf8_encode cp @ q) 0) = length (utf8_encode cp) \<and>
     seq_ok (utf8_encode cp @ q) \<and> utf8_encode cp \<noteq> []"
  using encode_is_head [of cp _ q, OF _ refl] seq_ok_encode [of "utf8_encode cp @ q"] by blast

lemma utf8_valid_step:
  "utf8_valid p \<longleftrightarrow> p = [] \<or> (seq_ok p \<and> utf8_valid (drop (utf8_char_len (byte_at p 0)) p))"
  using conts_in_string [of "utf8_char_len (byte_at p 0)" p]
  by (subst utf8_valid.simps) (auto simp: seq_ok_def Let_def not_le)

lemma utf8_valid_encode: "scalar cp \<Longrightarrow> utf8_valid (utf8_encode cp @ q) \<longleftrightarrow> utf8_valid q"
  using seq_ok_head [of cp q] by (subst utf8_valid_step) simp

lemma utf8_valid_imp:
  "utf8_valid p \<Longrightarrow> \<exists>cps. list_all scalar cps \<and> p = concat (map utf8_encode cps)"
proof (induction p rule: length_induct)
  case (1 p)
  show ?case
  proof (cases "p = []")
    case True
    then show ?thesis by (intro exI [of _ "[]"]) simp
  next
    case False
    with 1 have s: "seq_ok p" by (simp add: utf8_valid_step [of p])
    with False obtain cp q where cp: "scalar cp" "p = utf8_encode cp @ q"
      by (auto simp: seq_ok_encode)
    with 1 obtain cps where "list_all scalar cps" "q = concat (map utf8_encode cps)"
      using seq_ok_head [of cp q] utf8_valid_encode [of cp q] by force
    with cp show ?thesis by (intro exI [of _ "cp # cps"]) simp
  qed
qed

lemma utf8_strlen_encode:
  "list_all scalar cps \<Longrightarrow> utf8_strlen (concat (map utf8_encode cps)) = Some (length cps)"
proof (induction cps)
  case (Cons cp cps)
  let ?q = "concat (map utf8_encode cps)"
  have "utf8_strlen (utf8_encode cp @ ?q) = map_option Suc (utf8_strlen ?q)"
    using seq_ok_head [of cp ?q] Cons.prems
    by (subst utf8_strlen.simps) (auto simp: Let_def)
  with Cons show ?case by simp
qed (simp add: utf8_strlen.simps)

lemma question_scalar: "scalar 0x3F \<and> utf8_encode 0x3F = [0x3F]"
  by (simp add: scalar_def utf8_encode_def)

lemma utf8_sanitize_props:
  "utf8_valid (fst (utf8_sanitize p)) \<and> length (fst (utf8_sanitize p)) = length p \<and>
   (snd (utf8_sanitize p) = 0 \<longleftrightarrow> utf8_valid p) \<and> (utf8_valid p \<longrightarrow> fst (utf8_sanitize p) = p)"
proof (induction p rule: utf8_sanitize.induct)
  case (1 p)
  consider "p = []" | "p \<noteq> []" "\<not> seq_ok p" | "p \<noteq> []" "seq_ok p" by blast
  then show ?case
  proof cases
    case 1
    then show ?thesis by (simp add: utf8_sanitize.simps utf8_valid.simps)
  next
    case 2
    have "utf8_valid (0x3F # q) = utf8_valid q" for q
      using utf8_valid_encode [of "0x3F" q] question_scalar by simp
    with 2 "1.IH"(1) show ?thesis
      by (subst (1 2 3 4) utf8_sanitize.simps, subst (2 3) utf8_valid_step)
        (auto simp: split_beta)
  next
    case 3
    then obtain cp q where cp: "scalar cp" "p = utf8_encode cp @ q"
      by (auto simp: seq_ok_encode)
    with 3 "1.IH"(2) show ?thesis
      using seq_ok_head [of cp q] utf8_valid_encode [where cp = cp]
      by (subst (1 2 3 4) utf8_sanitize.simps) (auto simp: split_beta Let_def)
  qed
qed

section \<open>Properties\<close>

text \<open>
  C31: \<open>utf8_valid\<close> accepts a byte string exactly when it is the UTF-8 encoding, as RFC 3629
  defines it, of some sequence of Unicode scalar values: no overlong form, no surrogate, nothing
  above U+10FFFF and no truncated sequence passes, and nothing well-formed is refused.
\<close>

theorem utf8_valid_iff:
  "utf8_valid p \<longleftrightarrow> (\<exists>cps. list_all scalar cps \<and> p = concat (map utf8_encode cps))"
proof
  assume "\<exists>cps. list_all scalar cps \<and> p = concat (map utf8_encode cps)"
  then obtain cps where "list_all scalar cps" "p = concat (map utf8_encode cps)" by blast
  moreover have "list_all scalar cps \<Longrightarrow> utf8_valid (concat (map utf8_encode cps))" for cps
    by (induction cps) (simp_all add: utf8_valid_encode utf8_valid.simps [of "[]"])
  ultimately show "utf8_valid p" by blast
qed (rule utf8_valid_imp)

text \<open>
  \<open>utf8_sanitize\<close> always leaves valid UTF-8 of the same length, reports 0 replacements
  exactly for text that was valid, and does not touch valid text.
\<close>

theorem utf8_sanitize_repairs:
  "utf8_valid (fst (utf8_sanitize p)) \<and> length (fst (utf8_sanitize p)) = length p \<and>
   (snd (utf8_sanitize p) = 0 \<longleftrightarrow> utf8_valid p) \<and> (utf8_valid p \<longrightarrow> fst (utf8_sanitize p) = p)"
  by (rule utf8_sanitize_props)

theorem utf8_sanitize_repairs_witness:
  "utf8_valid [0x61, 0xC3, 0xA9] \<and> fst (utf8_sanitize [0x61, 0xC3, 0xA9]) = [0x61, 0xC3, 0xA9]"
proof -
  have "utf8_valid [0x61, 0xC3, 0xA9]" by code_simp
  with utf8_sanitize_repairs [of "[0x61, 0xC3, 0xA9]"] show ?thesis by simp
qed

text \<open>
  \<open>utf8_strlen\<close> counts the code points of well-formed text, but on text that ends inside a
  multi-byte sequence it steps over the terminating NUL and reads on behind the string.
\<close>

theorem utf8_strlen_counts:
  assumes "list_all scalar cps"
  shows "utf8_strlen (concat (map utf8_encode cps)) = Some (length cps) \<and>
         (2 \<le> utf8_char_len b \<longrightarrow> utf8_strlen (concat (map utf8_encode cps) @ [b]) = None)"
proof -
  have "2 \<le> utf8_char_len b \<longrightarrow> utf8_strlen (concat (map utf8_encode cps) @ [b]) = None"
    using assms
  proof (induction cps)
    case Nil
    then show ?case by (subst utf8_strlen.simps) (simp add: Let_def)
  next
    case (Cons cp cps)
    let ?q = "concat (map utf8_encode cps) @ [b]"
    have "utf8_strlen (utf8_encode cp @ ?q) = map_option Suc (utf8_strlen ?q)"
      using seq_ok_head [of cp ?q] Cons.prems
      by (subst utf8_strlen.simps) (auto simp: Let_def)
    with Cons show ?case by auto
  qed
  with utf8_strlen_encode [OF assms] show ?thesis by blast
qed

theorem utf8_strlen_counts_witness:
  "utf8_strlen (concat (map utf8_encode [0x61, 0x20AC])) = Some (length [0x61, 0x20AC :: nat]) \<and>
   utf8_strlen (concat (map utf8_encode [0x61, 0x20AC]) @ [0xC3]) = None"
proof -
  have "list_all scalar [0x61, 0x20AC]" "2 \<le> utf8_char_len 0xC3"
    by (simp_all add: scalar_def utf8_char_len_def)
  with utf8_strlen_counts [of "[0x61, 0x20AC]" "0xC3"] show ?thesis by blast
qed

end
