(* ===== verification/Durations.thy ===== *)
theory Durations
  imports CStr "HOL-Library.Signed_Division"
begin

text \<open>
  The texts for times and intervals of \<open>src/src/misc.c\<close>.  \<open>hm t\<close> stands for the C library's
  \<open>strftime("%H:%M")\<close> of \<open>localtime(&t)\<close>, which depends on the host's time zone; \<open>time_t\<close> is a
  mathematical integer, and C's division rounds towards zero.
\<close>

definition plural :: "int \<Rightarrow> string" where
  "plural n = (if n = 1 then '''' else ''s'')"

definition daysago :: "(int \<Rightarrow> string) \<Rightarrow> int \<Rightarrow> int \<Rightarrow> string" where
  "daysago hm now before =
     (if 86400 < now - before then
        (let days = to_int32 ((now - before) sdiv 86400)
         in dec_int days @ '' day'' @ plural days @ '' ago'')
      else hm before)"

definition days :: "(int \<Rightarrow> string) \<Rightarrow> int \<Rightarrow> int \<Rightarrow> string" where
  "days hm now before =
     (if 86400 < now - before then
        (let days = to_int32 ((now - before) sdiv 86400)
         in ''in '' @ dec_int days @ '' day'' @ plural days)
      else ''at '' @ hm now)"

definition daysdur :: "int \<Rightarrow> int \<Rightarrow> string" where
  "daysdur now before =
     (if 86400 < now - before then
        (let days = to_int32 ((now - before) sdiv 86400)
         in ''for '' @ dec_int days @ '' day'' @ plural days)
      else
        (let diff = now - before;
             hrs = to_int32 (diff sdiv 3600);
             mins = to_int32 ((diff - hrs * 3600) sdiv 60)
         in ''for '' @ dec2 hrs @ '':'' @ dec2 mins))"

text \<open>One of the five blocks \<open>if (sec >= unit)\<close> of \<open>egg_format_duration\<close>.\<close>

definition dur_unit :: "nat \<Rightarrow> string \<Rightarrow> nat \<times> string \<Rightarrow> nat \<times> string" where
  "dur_unit u name = (\<lambda>(sec, s).
     if u \<le> sec then
       (let tmp = sec div u
        in (sec - tmp * u, s @ dec tmp @ '' '' @ name @ (if tmp = 1 then '''' else ''s'') @ '' ''))
     else (sec, s))"

definition trim_space :: "string \<Rightarrow> string" where
  "trim_space s =
     (if 0 < length s \<and> s ! (length s - 1) = CHR '' '' then take (length s - 1) s else s)"

definition egg_format_duration :: "nat \<Rightarrow> string \<Rightarrow> nat \<Rightarrow> string" where
  "egg_format_duration sec out outlen =
     (if sec = 0 then op_strlcpy out ''0 seconds'' outlen
      else
        (let (sec, s) = dur_unit 31536000 ''year'' (sec, []);
             (sec, s) = dur_unit 604800 ''week'' (sec, s);
             (sec, s) = dur_unit 86400 ''day'' (sec, s);
             (sec, s) = dur_unit 3600 ''hour'' (sec, s);
             (sec, s) = dur_unit 60 ''minute'' (sec, s);
             s = (if 0 < sec then s @ dec sec @ '' second'' @ (if sec = 1 then '''' else ''s'') else s)
         in op_strlcpy out (trim_space s) outlen))"

definition egg_format_uptime :: "int \<Rightarrow> string \<Rightarrow> nat \<Rightarrow> string" where
  "egg_format_uptime seconds out outlen =
     (let (seconds, s) =
            (if 86400 < seconds then
               (let days = to_int32 (seconds sdiv 86400)
                in (seconds - days * 86400,
                    dec_int days @ '' day'' @ (if 2 \<le> days then ''s'' else '''') @ '', ''))
             else (seconds, []));
          hr = to_int32 (seconds sdiv 3600);
          seconds = seconds - hr * 3600;
          min = to_int32 (seconds sdiv 60)
      in op_strlcpy out (s @ dec2 hr @ '':'' @ dec2 min) outlen)"

section \<open>The parts of a duration\<close>

text \<open>The mixed-radix reading of an interval, largest unit first, zero parts left out.\<close>

definition part_text :: "nat \<times> string \<Rightarrow> string" where
  "part_text = (\<lambda>(n, name). dec n @ '' '' @ name @ (if n = 1 then '''' else ''s''))"

definition duration_parts :: "nat \<Rightarrow> (nat \<times> string) list" where
  "duration_parts sec =
     filter (\<lambda>(n, _). n \<noteq> 0)
       [(sec div 31536000, ''year''), (sec mod 31536000 div 604800, ''week''),
        (sec mod 31536000 mod 604800 div 86400, ''day''),
        (sec mod 31536000 mod 604800 mod 86400 div 3600, ''hour''),
        (sec mod 31536000 mod 604800 mod 86400 mod 3600 div 60, ''minute''),
        (sec mod 31536000 mod 604800 mod 86400 mod 3600 mod 60, ''second'')]"

definition unit_seconds :: "string \<Rightarrow> nat" where
  "unit_seconds name =
     the (map_of [(''year'', 31536000), (''week'', 604800), (''day'', 86400), (''hour'', 3600),
                  (''minute'', 60), (''second'', 1)] name)"

definition dur_text :: "nat \<Rightarrow> string \<Rightarrow> string" where
  "dur_text n name = (if n = 0 then [] else part_text (n, name) @ '' '')"

lemma dur_unit_eq:
  "0 < u \<Longrightarrow> dur_unit u name (sec, s) = (sec mod u, s @ dur_text (sec div u) name)"
  by (auto simp: dur_unit_def dur_text_def part_text_def Let_def div_eq_0_iff minus_div_mult_eq_mod)

lemma part_second: "part_text (n, ''second'') = dec n @ '' second'' @ (if n = 1 then '''' else ''s'')"
  by (simp add: part_text_def)

lemma egg_format_duration_eq:
  "0 < sec \<Longrightarrow> egg_format_duration sec out outlen =
     (let b = sec mod 31536000; c = b mod 604800; d = c mod 86400; e = d mod 3600; r = e mod 60
      in op_strlcpy out
           (trim_space (dur_text (sec div 31536000) ''year'' @ dur_text (b div 604800) ''week'' @
              dur_text (c div 86400) ''day'' @ dur_text (d div 3600) ''hour'' @
              dur_text (e div 60) ''minute'' @ (if r = 0 then [] else part_text (r, ''second''))))
           outlen)"
proof -
  assume pos: "0 < sec"
  define b c d e r where "b = sec mod 31536000" and "c = b mod 604800" and "d = c mod 86400"
    and "e = d mod 3600" and "r = e mod 60"
  define t1 t2 t3 t4 t5 where "t1 = dur_text (sec div 31536000) ''year''"
    and "t2 = dur_text (b div 604800) ''week''" and "t3 = dur_text (c div 86400) ''day''"
    and "t4 = dur_text (d div 3600) ''hour''" and "t5 = dur_text (e div 60) ''minute''"
  have steps: "dur_unit 31536000 ''year'' (sec, []) = (b, t1)"
    "dur_unit 604800 ''week'' (b, t1) = (c, t1 @ t2)"
    "dur_unit 86400 ''day'' (c, t1 @ t2) = (d, (t1 @ t2) @ t3)"
    "dur_unit 3600 ''hour'' (d, (t1 @ t2) @ t3) = (e, ((t1 @ t2) @ t3) @ t4)"
    "dur_unit 60 ''minute'' (e, ((t1 @ t2) @ t3) @ t4) = (r, (((t1 @ t2) @ t3) @ t4) @ t5)"
    by (simp_all only: dur_unit_eq zero_less_numeral append_Nil
        b_def [symmetric] c_def [symmetric] d_def [symmetric] e_def [symmetric] r_def [symmetric]
        t1_def [symmetric] t2_def [symmetric] t3_def [symmetric] t4_def [symmetric] t5_def [symmetric])
  have second: "(if 0 < r then s @ dec r @ '' second'' @ (if r = 1 then '''' else ''s'') else s) =
      s @ (if r = 0 then [] else part_text (r, ''second''))" for s
    by (cases "r = 0") (simp_all add: part_second)
  have "egg_format_duration sec out outlen =
      op_strlcpy out (trim_space (((((t1 @ t2) @ t3) @ t4) @ t5) @
        (if r = 0 then [] else part_text (r, ''second'')))) outlen"
    using pos unfolding egg_format_duration_def by (simp only: steps Let_def prod.case second) simp
  then show ?thesis
    unfolding Let_def b_def [symmetric] c_def [symmetric] d_def [symmetric] e_def [symmetric]
      r_def [symmetric] t1_def [symmetric] t2_def [symmetric] t3_def [symmetric]
      t4_def [symmetric] t5_def [symmetric]
    by (simp only: append_assoc)
qed

lemma part_text_last: "part_text (n, name) \<noteq> []"
  by (simp add: part_text_def)

lemma duration_sum:
  "sum_list (map (\<lambda>(n, name). n * unit_seconds name) (duration_parts sec)) = sec"
proof -
  let ?us = "[(sec div 31536000, ''year''), (sec mod 31536000 div 604800, ''week''),
        (sec mod 31536000 mod 604800 div 86400, ''day''),
        (sec mod 31536000 mod 604800 mod 86400 div 3600, ''hour''),
        (sec mod 31536000 mod 604800 mod 86400 mod 3600 div 60, ''minute''),
        (sec mod 31536000 mod 604800 mod 86400 mod 3600 mod 60, ''second'')]"
  have "sum_list (map (\<lambda>(n, name). n * unit_seconds name) (filter (\<lambda>(n, _). n \<noteq> 0) xs)) =
        sum_list (map (\<lambda>(n, name). n * unit_seconds name) xs)" for xs :: "(nat \<times> string) list"
    by (induction xs) auto
  then have "sum_list (map (\<lambda>(n, name). n * unit_seconds name) (duration_parts sec)) =
        sum_list (map (\<lambda>(n, name). n * unit_seconds name) ?us)"
    by (simp only: duration_parts_def)
  also have "\<dots> = sec"
    using div_mult_mod_eq [of sec 31536000] div_mult_mod_eq [of "sec mod 31536000" 604800]
      div_mult_mod_eq [of "sec mod 31536000 mod 604800" 86400]
      div_mult_mod_eq [of "sec mod 31536000 mod 604800 mod 86400" 3600]
      div_mult_mod_eq [of "sec mod 31536000 mod 604800 mod 86400 mod 3600" 60]
    unfolding unit_seconds_def by (simp del: div_mult_mod_eq) 
  finally show ?thesis .
qed

lemma trim_last:
  assumes "\<forall>p \<in> set ps. p \<noteq> []" "ps \<noteq> [] \<or> q \<noteq> []" "q = [] \<or> last q \<noteq> CHR '' ''"
  defines "s \<equiv> concat (map (\<lambda>p. p @ '' '') ps) @ q"
  shows "trim_space s = butlast (concat (map (\<lambda>p. p @ '' '') (ps @ (if q = [] then [] else [q]))))"
proof (cases "q = []")
  case True
  with assms have ne: "ps \<noteq> []" and s: "s = concat (map (\<lambda>p. p @ '' '') ps)" by simp_all
  then obtain ps' p where "ps = ps' @ [p]" by (cases ps rule: rev_cases) auto
  then show ?thesis using True by (simp add: s butlast_append nth_append trim_space_def)
next
  case False
  then have "s \<noteq> []" "last s = last q" by (simp_all add: s_def)
  then have "\<not> (0 < length s \<and> s ! (length s - 1) = CHR '' '')"
    using False assms(3) by (simp add: last_conv_nth)
  then show ?thesis using False by (simp add: s_def butlast_append trim_space_def)
qed

lemma concat_parts:
  "concat (map (\<lambda>p. p @ '' '') (map part_text (filter (\<lambda>(n, _). n \<noteq> 0) xs))) =
   concat (map (\<lambda>(n, name). dur_text n name) xs)"
  by (induction xs) (auto simp: dur_text_def)

lemma last_part_second: "last (part_text (n, ''second'')) \<noteq> CHR '' ''"
  by (simp add: part_second)

text \<open>
  \<open>egg_format_duration\<close> prints a positive number of seconds as its non-zero years, weeks,
  days, hours, minutes and seconds, separated by single spaces and cut to the caller's buffer;
  the parts printed add up to exactly the interval.
\<close>

theorem egg_format_duration_parts:
  assumes "0 < sec"
  shows "egg_format_duration sec out outlen =
           op_strlcpy out (butlast (concat (map (\<lambda>p. part_text p @ '' '') (duration_parts sec)))) outlen \<and>
         sum_list (map (\<lambda>(n, name). n * unit_seconds name) (duration_parts sec)) = sec"
proof -
  define a where "a = [(sec div 31536000, ''year''), (sec mod 31536000 div 604800, ''week''),
        (sec mod 31536000 mod 604800 div 86400, ''day''),
        (sec mod 31536000 mod 604800 mod 86400 div 3600, ''hour''),
        (sec mod 31536000 mod 604800 mod 86400 mod 3600 div 60, ''minute'')]"
  define r where "r = sec mod 31536000 mod 604800 mod 86400 mod 3600 mod 60"
  define ps where "ps = map part_text (filter (\<lambda>(n, _). n \<noteq> 0) a)"
  define q where "q = (if r = 0 then [] else part_text (r, ''second''))"
  have parts: "map part_text (duration_parts sec) = ps @ (if q = [] then [] else [q])"
  proof -
    have "duration_parts sec = filter (\<lambda>(n, _). n \<noteq> 0) (a @ [(r, ''second'')])"
      by (simp only: duration_parts_def a_def r_def append.simps)
    then show ?thesis by (simp add: ps_def q_def part_text_last)
  qed
  have "duration_parts sec \<noteq> []" using duration_sum [of sec] assms by auto
  then have "ps \<noteq> [] \<or> q \<noteq> []" using parts by auto
  moreover have "\<forall>p \<in> set ps. p \<noteq> []" by (auto simp: ps_def part_text_last)
  moreover have "q = [] \<or> last q \<noteq> CHR '' ''" by (simp add: q_def last_part_second)
  ultimately have t: "trim_space (concat (map (\<lambda>p. p @ '' '') ps) @ q) =
      butlast (concat (map (\<lambda>p. part_text p @ '' '') (duration_parts sec)))"
    using trim_last [of ps q] parts [symmetric] by (simp add: comp_def)
  have "concat (map (\<lambda>p. p @ '' '') ps) = concat (map (\<lambda>(n, name). dur_text n name) a)"
    unfolding ps_def by (rule concat_parts)
  then have "concat (map (\<lambda>p. p @ '' '') ps) =
      dur_text (sec div 31536000) ''year'' @ dur_text (sec mod 31536000 div 604800) ''week'' @
      dur_text (sec mod 31536000 mod 604800 div 86400) ''day'' @
      dur_text (sec mod 31536000 mod 604800 mod 86400 div 3600) ''hour'' @
      dur_text (sec mod 31536000 mod 604800 mod 86400 mod 3600 div 60) ''minute''"
    unfolding a_def by (simp only: list.map prod.case concat.simps append_Nil2)
  then have "egg_format_duration sec out outlen =
      op_strlcpy out (trim_space (concat (map (\<lambda>p. p @ '' '') ps) @ q)) outlen"
    unfolding egg_format_duration_eq [OF assms] Let_def q_def r_def by (simp only: append_assoc)
  with t duration_sum show ?thesis by simp
qed

theorem egg_format_duration_parts_witness:
  "egg_format_duration 90061 [] 100 =
     op_strlcpy [] (butlast (concat (map (\<lambda>p. part_text p @ '' '') (duration_parts 90061)))) 100 \<and>
   sum_list (map (\<lambda>(n, name). n * unit_seconds name) (duration_parts 90061)) = 90061"
  by (rule egg_format_duration_parts) simp

end
