(* ===== verification/Regex.thy ===== *)
theory Regex
  imports Rfc1459 CStr
begin

text \<open>
  The regular expression engine \<open>src/libop/src/regex.c\<close> that all wildcard matching of the bot
  runs on: tokeniser, insertion of concatenation tokens, shunting-yard, Thompson construction,
  and the simulation with generation-counted visited arrays.  Pointers to states are indices
  into the pool, a null pointer is \<open>None\<close>, and allocation does not fail.
\<close>

section \<open>Character classes\<close>

type_synonym cls = "256 word"

definition isword_c :: "char \<Rightarrow> bool" where
  "isword_c c \<longleftrightarrow>
     CHR ''a'' \<le> c \<and> c \<le> CHR ''z'' \<or> CHR ''A'' \<le> c \<and> c \<le> CHR ''Z'' \<or> isdigit c \<or> c = CHR ''_''"

definition cls_set :: "cls \<Rightarrow> nat \<Rightarrow> cls" where
  "cls_set cls c = Bit_Operations.set_bit c cls"

definition cls_clr :: "cls \<Rightarrow> nat \<Rightarrow> cls" where
  "cls_clr cls c = unset_bit c cls"

definition cls_tst :: "cls \<Rightarrow> nat \<Rightarrow> bool" where
  "cls_tst cls c = bit cls c"

definition cls_invert :: "cls \<Rightarrow> cls" where
  "cls_invert cls = NOT cls"

text \<open>\<open>cls_set\<close> of a byte and, ignoring case, of its other case.\<close>

definition cls_set_case :: "bool \<Rightarrow> cls \<Rightarrow> nat \<Rightarrow> cls" where
  "cls_set_case icase cls c =
     (let cls = cls_set cls c
      in if icase then
           (if 97 \<le> c \<and> c \<le> 122 then cls_set cls (c - 32)
            else if 65 \<le> c \<and> c \<le> 90 then cls_set cls (c + 32) else cls)
         else cls)"

definition cls_add_range :: "cls \<Rightarrow> nat \<Rightarrow> nat \<Rightarrow> bool \<Rightarrow> cls" where
  "cls_add_range cls lo hi icase =
     (let (lo, hi) = (if hi < lo then (hi, lo) else (lo, hi))
      in foldl (cls_set_case icase) cls [lo..<Suc hi])"

definition cls_add_where :: "(char \<Rightarrow> bool) \<Rightarrow> cls \<Rightarrow> cls" where
  "cls_add_where P cls = foldl (\<lambda>cls c. if P (char_of c) then cls_set cls c else cls) cls [0..<256]"

definition cls_add_shorthand :: "cls \<Rightarrow> char \<Rightarrow> bool \<Rightarrow> cls" where
  "cls_add_shorthand cls code icase =
     (if code = CHR ''d'' then cls_add_range cls 48 57 False
      else if code = CHR ''D'' then cls_add_where (\<lambda>c. \<not> isdigit c) cls
      else if code = CHR ''w'' then
        cls_set (cls_add_range (cls_add_range (cls_add_range cls 97 122 icase) 65 90 icase) 48 57 False) 95
      else if code = CHR ''W'' then cls_add_where (\<lambda>c. \<not> isword_c c) cls
      else if code = CHR ''s'' then cls_add_where isspace cls
      else if code = CHR ''S'' then cls_add_where (\<lambda>c. \<not> isspace c) cls
      else cls)"

text \<open>The C library's character classes in the C locale.\<close>

definition isalpha :: "char \<Rightarrow> bool" where
  "isalpha c \<longleftrightarrow> CHR ''a'' \<le> c \<and> c \<le> CHR ''z'' \<or> CHR ''A'' \<le> c \<and> c \<le> CHR ''Z''"

definition isgraph :: "char \<Rightarrow> bool" where
  "isgraph c \<longleftrightarrow> 33 \<le> uc c \<and> uc c \<le> 126"

definition cls_add_posix_bracket :: "cls \<Rightarrow> string \<Rightarrow> bool \<Rightarrow> cls option" where
  "cls_add_posix_bracket cls name icase =
     (if name = ''alpha'' then Some (cls_add_where isalpha cls)
      else if name = ''digit'' then Some (cls_add_range cls 48 57 False)
      else if name = ''alnum'' then Some (cls_add_where (\<lambda>c. isalpha c \<or> isdigit c) cls)
      else if name = ''space'' then Some (cls_add_where isspace cls)
      else if name = ''blank'' then Some (cls_set (cls_set cls 32) 9)
      else if name = ''upper'' then Some (cls_add_range cls 65 90 icase)
      else if name = ''lower'' then Some (cls_add_range cls 97 122 icase)
      else if name = ''punct'' then
        Some (cls_add_where (\<lambda>c. isgraph c \<and> \<not> isalpha c \<and> \<not> isdigit c) cls)
      else if name = ''print'' then Some (cls_add_where (\<lambda>c. isgraph c \<or> uc c = 32) cls)
      else if name = ''graph'' then Some (cls_add_where isgraph cls)
      else if name = ''cntrl'' then Some (cls_add_where (\<lambda>c. uc c < 32 \<or> uc c = 127) cls)
      else if name = ''xdigit'' then
        Some (cls_add_range (cls_add_range (cls_add_range cls 48 57 False) 97 102 icase) 65 70 icase)
      else None)"

section \<open>Phase 1: tokens\<close>

datatype token =
  TOK_LIT char | TOK_CLASS cls | TOK_ANY | TOK_BOL | TOK_EOL | TOK_STAR | TOK_PLUS | TOK_QUEST
| TOK_CAT | TOK_PIPE | TOK_LPAREN | TOK_RPAREN | TOK_WB | TOK_NWB

text \<open>\<open>strstr(s, ":]")\<close>: the text in front of the first \<open>:]\<close>.\<close>

fun find_close :: "string \<Rightarrow> string option" where
  "find_close (a # b # s) =
     (if a = CHR '':'' \<and> b = CHR '']'' then Some [] else map_option ((#) a) (find_close (b # s)))"
| "find_close _ = None"

definition escape_char :: "char \<Rightarrow> char" where
  "escape_char c =
     (if c = CHR ''n'' then CHR 0x0A else if c = CHR ''t'' then CHR 0x09
      else if c = CHR ''r'' then CHR 0x0D else c)"

definition is_shorthand :: "char \<Rightarrow> bool" where
  "is_shorthand c \<longleftrightarrow> c \<in> set ''dDwWsS''"

text \<open>A \<open>[:name:]\<close> at \<open>p\<close>: the extended class and the text behind it.\<close>

definition posix_at :: "string \<Rightarrow> cls \<Rightarrow> bool \<Rightarrow> (cls \<times> string) option" where
  "posix_at p cls icase =
     (if c0 p = CHR ''['' \<and> c0 (tl p) = CHR '':'' then
        (case find_close (drop 2 p) of
           Some nm \<Rightarrow>
             if 0 < length nm \<and> length nm \<le> 12 then
               map_option (\<lambda>cls. (cls, drop (length nm + 4) p)) (cls_add_posix_bracket cls nm icase)
             else None
         | None \<Rightarrow> None)
      else None)"

text \<open>One element that is not a bracket expression: a shorthand, a range or a single byte.\<close>

definition class_elem :: "string \<Rightarrow> cls \<Rightarrow> bool \<Rightarrow> cls \<times> string" where
  "class_elem p cls icase =
     (let esc = (c0 p = CHR 0x5C \<and> c0 (tl p) \<noteq> NUL); p = (if esc then tl p else p)
      in if esc \<and> is_shorthand (c0 p) then (cls_add_shorthand cls (c0 p) icase, tl p)
         else
           (let lo = uc (if esc then escape_char (c0 p) else c0 p)
            in if c0 (tl p) = CHR ''-'' \<and> c0 (drop 2 p) \<noteq> NUL \<and> c0 (drop 2 p) \<noteq> CHR '']''
               then (cls_add_range cls lo (uc (c0 (drop 2 p))) icase, drop 3 p)
               else (cls_set_case icase cls lo, tl p)))"

function parse_class_loop :: "string \<Rightarrow> bool \<Rightarrow> bool \<Rightarrow> cls \<Rightarrow> (cls \<times> string) option" where
  "parse_class_loop p first icase cls =
     (if p = [] then None
      else if c0 p = CHR '']'' \<and> \<not> first then Some (cls, tl p)
      else case posix_at p cls icase of
             Some (cls', p') \<Rightarrow> parse_class_loop p' False icase cls'
           | None \<Rightarrow> (let (cls', p') = class_elem p cls icase in parse_class_loop p' False icase cls'))"
  by auto
termination
  by (relation "measure (\<lambda>(p, _). length p)")
     (auto simp: posix_at_def class_elem_def Let_def split: if_splits option.splits)

declare parse_class_loop.simps [simp del]

lemma class_elem_shorter: "p \<noteq> [] \<Longrightarrow> length (snd (class_elem p cls icase)) < length p"
  by (auto simp: class_elem_def Let_def)

lemma posix_at_shorter: "p \<noteq> [] \<Longrightarrow> posix_at p cls icase = Some (cls', p') \<Longrightarrow> length p' < length p"
  by (auto simp: posix_at_def split: if_splits option.splits)

lemma parse_class_loop_shorter:
  "parse_class_loop p first icase cls = Some (cls', r) \<Longrightarrow> length r < length p"
proof (induction p first icase cls rule: parse_class_loop.induct)
  case (1 p first icase cls)
  show ?case
  proof (cases "p = [] \<or> c0 p = CHR '']'' \<and> \<not> first")
    case True
    then show ?thesis using "1.prems"
      by (subst (asm) parse_class_loop.simps) (auto split: if_splits)
  next
    case False
    show ?thesis
    proof (cases "posix_at p cls icase")
      case None
      obtain c q where e: "class_elem p cls icase = (c, q)" by fastforce
      have "parse_class_loop q False icase c = Some (cls', r)"
        using "1.prems" False None e by (auto simp: parse_class_loop.simps [of p] split: if_splits)
      then have "length r < length q" using "1.IH"(1) False None e by auto
      then show ?thesis using class_elem_shorter [of p cls icase] False e by simp
    next
      case (Some cq)
      obtain c q where e: "cq = (c, q)" by fastforce
      have "parse_class_loop q False icase c = Some (cls', r)"
        using "1.prems" False Some e by (auto simp: parse_class_loop.simps [of p] split: if_splits)
      then have "length r < length q" using "1.IH"(2) False Some e by auto
      then show ?thesis using posix_at_shorter [of p cls icase c q] False e Some by simp
    qed
  qed
qed

definition parse_class :: "string \<Rightarrow> bool \<Rightarrow> (cls \<times> string) option" where
  "parse_class p icase =
     (let neg = (c0 p = CHR ''^'')
      in map_option (\<lambda>(cls, r). (if neg then cls_invert cls else cls, r))
           (parse_class_loop (if neg then tl p else p) True icase 0))"

lemma parse_class_shorter: "parse_class p icase = Some (cls, r) \<Longrightarrow> length r \<le> length p"
  by (auto simp: parse_class_def Let_def dest!: parse_class_loop_shorter split: if_splits)

text \<open>
  The counted repetition behind a \<open>{\<close>: the bounds, \<open>None\<close> for an open upper bound, and the text
  behind the \<open>}\<close>; \<open>None\<close> where the code falls back to a literal brace.
\<close>

definition parse_count :: "string \<Rightarrow> (nat \<times> nat option \<times> string) option" where
  "parse_count q =
     (let ds = takeWhile isdigit q; lo = nat (digits_value 10 0 ds); q1 = dropWhile isdigit q;
          (hi, q2) =
            (if c0 q1 = CHR '','' then
               (let ds2 = takeWhile isdigit (tl q1)
                in (if ds = [] \<and> ds2 = [] then None else Some (nat (digits_value 10 0 ds2)),
                    dropWhile isdigit (tl q1)))
             else (Some lo, q1))
      in if c0 q2 \<noteq> CHR ''}'' \<or> 255 < lo \<or> (case hi of Some h \<Rightarrow> 255 < h \<or> h < lo | None \<Rightarrow> False)
         then None else Some (lo, hi, tl q2))"

lemma dropWhile_length: "length (dropWhile P xs) \<le> length xs"
  by (induction xs) auto

lemma parse_count_shorter: "parse_count q = Some (lo, hi, r) \<Longrightarrow> length r \<le> length q"
proof -
  assume p: "parse_count q = Some (lo, hi, r)"
  let ?q1 = "dropWhile isdigit q"
  have "length (dropWhile isdigit (tl ?q1)) \<le> length q" "length ?q1 \<le> length q"
    using dropWhile_length [of isdigit "tl ?q1"] dropWhile_length [of isdigit q] by auto
  with p show ?thesis
    by (auto simp: parse_count_def Let_def split: if_splits)
qed

text \<open>The tokens a valid repetition appends when \<open>snap\<close> is the repeated atom.\<close>

definition repeat_tokens :: "token list \<Rightarrow> nat \<Rightarrow> nat option \<Rightarrow> token list" where
  "repeat_tokens snap lo hi =
     (if lo = 0 then
        TOK_QUEST # concat (replicate (case hi of Some h \<Rightarrow> h - 1 | None \<Rightarrow> 0) (snap @ [TOK_QUEST]))
      else
        concat (replicate (lo - 1) snap) @
        (case hi of None \<Rightarrow> [TOK_PLUS] | Some h \<Rightarrow> concat (replicate (h - lo) (snap @ [TOK_QUEST]))))"

text \<open>The tokeniser's locals: output, index of the last atom, group depth and stack of groups.\<close>

record tok_state =
  tk_out :: "token list"
  tk_prev :: "nat option"
  tk_depth :: nat
  tk_lparen :: "nat list"
  tk_lp_sp :: nat

definition tk_init :: tok_state where
  "tk_init = \<lparr>tk_out = [], tk_prev = None, tk_depth = 0, tk_lparen = replicate 64 0, tk_lp_sp = 0\<rparr>"

definition tk_push :: "token \<Rightarrow> tok_state \<Rightarrow> tok_state" where
  "tk_push t st = st\<lparr>tk_out := tk_out st @ [t]\<rparr>"

definition tk_atom :: "token \<Rightarrow> tok_state \<Rightarrow> tok_state" where
  "tk_atom t st = tk_push t (st\<lparr>tk_prev := Some (length (tk_out st))\<rparr>)"

definition lit_char :: "bool \<Rightarrow> char \<Rightarrow> char" where
  "lit_char icase c = (if icase then tolower c else c)"

definition escape_token :: "bool \<Rightarrow> char \<Rightarrow> token" where
  "escape_token icase c =
     (if is_shorthand c then TOK_CLASS (cls_add_shorthand 0 c icase)
      else if c = CHR ''b'' then TOK_WB else if c = CHR ''B'' then TOK_NWB
      else if c \<in> set ''ntr'' then TOK_LIT (escape_char c)
      else TOK_LIT (lit_char icase c))"

definition any_token :: "bool \<Rightarrow> token" where
  "any_token dotall = (if dotall then TOK_ANY else TOK_CLASS (cls_clr (- 1) 10))"

definition tk_repeat :: "nat \<Rightarrow> nat option \<Rightarrow> tok_state \<Rightarrow> tok_state" where
  "tk_repeat lo hi st =
     (case tk_prev st of
        None \<Rightarrow> st
      | Some k \<Rightarrow>
          if lo = 0 \<and> hi = Some 0 then st\<lparr>tk_out := take k (tk_out st), tk_prev := None\<rparr>
          else st\<lparr>tk_out := tk_out st @ repeat_tokens (drop k (tk_out st)) lo hi\<rparr>)"

definition tk_lparen_push :: "tok_state \<Rightarrow> tok_state" where
  "tk_lparen_push st =
     tk_push TOK_LPAREN
       (st\<lparr>tk_lparen := (if tk_lp_sp st < 64 then (tk_lparen st)[tk_lp_sp st := length (tk_out st)]
                         else tk_lparen st),
           tk_lp_sp := tk_lp_sp st + 1, tk_depth := tk_depth st + 1, tk_prev := None\<rparr>)"

definition tk_rparen_push :: "tok_state \<Rightarrow> tok_state" where
  "tk_rparen_push st =
     (let sp = tk_lp_sp st - 1
      in (tk_push TOK_RPAREN st)
           \<lparr>tk_depth := tk_depth st - 1, tk_lp_sp := sp,
            tk_prev := (if sp < 64 then Some (tk_lparen st ! sp) else None)\<rparr>)"

function tokenise :: "bool \<Rightarrow> bool \<Rightarrow> string \<Rightarrow> tok_state \<Rightarrow> token list option" where
  "tokenise icase dotall p st =
     (if p = [] then (if tk_depth st \<noteq> 0 then None else Some (tk_out st))
      else
        let c = hd p; r = tl p in
        if c = CHR 0x5C \<and> r \<noteq> [] then
          tokenise icase dotall (tl r) (tk_atom (escape_token icase (hd r)) st)
        else if c = CHR ''*'' then tokenise icase dotall r (tk_push TOK_STAR st)
        else if c = CHR ''+'' then tokenise icase dotall r (tk_push TOK_PLUS st)
        else if c = CHR ''?'' then tokenise icase dotall r (tk_push TOK_QUEST st)
        else if c = CHR ''{'' then
          (case parse_count r of
             None \<Rightarrow> tokenise icase dotall r (tk_atom (TOK_LIT c) st)
           | Some (lo, hi, r') \<Rightarrow> tokenise icase dotall r' (tk_repeat lo hi st))
        else if c = CHR ''|'' then
          tokenise icase dotall r ((tk_push TOK_PIPE st)\<lparr>tk_prev := None\<rparr>)
        else if c = CHR ''('' then tokenise icase dotall r (tk_lparen_push st)
        else if c = CHR '')'' then
          (if tk_depth st = 0 then None else tokenise icase dotall r (tk_rparen_push st))
        else if c = CHR ''['' then
          (case parse_class r icase of
             None \<Rightarrow> None
           | Some (cls, r') \<Rightarrow> tokenise icase dotall r' (tk_atom (TOK_CLASS cls) st))
        else if c = CHR ''^'' then tokenise icase dotall r (tk_atom TOK_BOL st)
        else if c = CHR ''$'' then tokenise icase dotall r (tk_atom TOK_EOL st)
        else if c = CHR ''.'' then tokenise icase dotall r (tk_atom (any_token dotall) st)
        else tokenise icase dotall r (tk_atom (TOK_LIT (lit_char icase c)) st))"
  by auto
termination
  by (relation "measure (\<lambda>(_, _, p, _). length p)")
     (auto simp: neq_Nil_conv dest!: parse_count_shorter parse_class_shorter)

declare tokenise.simps [simp del]

text \<open>
  an open count \<open>{n,}\<close>, which the comment in the code announces, is never read as "at least
  \<open>n\<close>": for positive \<open>n\<close> the brace is taken literally, and \<open>{0,}\<close> becomes the exact count 0,
  which deletes the repeated atom.
\<close>

theorem parse_count_open:
  assumes "ds \<noteq> []" "list_all isdigit ds"
  shows "parse_count (ds @ '',}'' @ s) = (if digits_value 10 0 ds \<le> 0 then Some (0, Some 0, s) else None)"
proof -
  have t: "takeWhile isdigit (ds @ '',}'' @ s) = ds" "dropWhile isdigit (ds @ '',}'' @ s) = '',}'' @ s"
    using assms(2) by (simp_all add: takeWhile_append2 dropWhile_append2 list_all_iff isdigit_def)
  have z: "takeWhile isdigit (''}'' @ s) = []" "dropWhile isdigit (''}'' @ s) = ''}'' @ s"
    by (simp_all add: isdigit_def)
  show ?thesis
    using assms(1) z unfolding parse_count_def Let_def t
    by (simp add: not_le)
qed

theorem parse_count_open_witness:
  "parse_count ''2,}b'' = None \<and> parse_count ''0,}b'' = Some (0, Some 0, ''b'')"
  using parse_count_open [of "''2''" "''b''"] parse_count_open [of "''0''" "''b''"]
  by (simp add: isdigit_def digit_val_def)

end
