(* ===== verification/RegexNfa.thy ===== *)
theory RegexNfa
  imports Regex
begin

text \<open>
  \<open>src/libop/src/regex.c\<close>, continued: from tokens to the Thompson automaton (phases 2 to 4),
  the first-character metadata, and the simulation behind \<open>op_regex_match\<close> and
  \<open>op_regex_search\<close>.
\<close>

section \<open>Phase 2: explicit concatenation\<close>

fun tok_ends_atom :: "token \<Rightarrow> bool" where
  "tok_ends_atom (TOK_LIT _) = True" | "tok_ends_atom (TOK_CLASS _) = True"
| "tok_ends_atom TOK_ANY = True" | "tok_ends_atom TOK_BOL = True" | "tok_ends_atom TOK_EOL = True"
| "tok_ends_atom TOK_WB = True" | "tok_ends_atom TOK_NWB = True" | "tok_ends_atom TOK_RPAREN = True"
| "tok_ends_atom TOK_STAR = True" | "tok_ends_atom TOK_PLUS = True" | "tok_ends_atom TOK_QUEST = True"
| "tok_ends_atom _ = False"

fun tok_starts_atom :: "token \<Rightarrow> bool" where
  "tok_starts_atom (TOK_LIT _) = True" | "tok_starts_atom (TOK_CLASS _) = True"
| "tok_starts_atom TOK_ANY = True" | "tok_starts_atom TOK_BOL = True" | "tok_starts_atom TOK_EOL = True"
| "tok_starts_atom TOK_WB = True" | "tok_starts_atom TOK_NWB = True"
| "tok_starts_atom TOK_LPAREN = True" | "tok_starts_atom _ = False"

fun cat_inject :: "token list \<Rightarrow> token list" where
  "cat_inject (t # u # ts) =
     t # (if tok_ends_atom t \<and> tok_starts_atom u then [TOK_CAT] else []) @ cat_inject (u # ts)"
| "cat_inject ts = ts"

section \<open>Phase 3: shunting-yard\<close>

fun tok_prec :: "token \<Rightarrow> nat" where
  "tok_prec TOK_STAR = 3" | "tok_prec TOK_PLUS = 3" | "tok_prec TOK_QUEST = 3"
| "tok_prec TOK_CAT = 2" | "tok_prec TOK_PIPE = 1" | "tok_prec _ = 0"

definition is_unary :: "token \<Rightarrow> bool" where
  "is_unary t \<longleftrightarrow> t = TOK_STAR \<or> t = TOK_PLUS \<or> t = TOK_QUEST"

definition is_binary :: "token \<Rightarrow> bool" where
  "is_binary t \<longleftrightarrow> t = TOK_CAT \<or> t = TOK_PIPE"

definition shunt_max :: nat where "shunt_max = 512"

text \<open>The operator stack has its top first.\<close>

fun shunt :: "token list \<Rightarrow> token list \<Rightarrow> token list \<Rightarrow> token list option" where
  "shunt [] stk out = (if TOK_LPAREN \<in> set stk then None else Some (out @ stk))"
| "shunt (t # ts) stk out =
     (if is_unary t then
        (let popped = takeWhile (\<lambda>s. tok_prec t < tok_prec s) stk;
             stk = dropWhile (\<lambda>s. tok_prec t < tok_prec s) stk
         in if shunt_max \<le> length stk then None else shunt ts (t # stk) (out @ popped))
      else if is_binary t then
        (let popped = takeWhile (\<lambda>s. s \<noteq> TOK_LPAREN \<and> tok_prec t \<le> tok_prec s) stk;
             stk = dropWhile (\<lambda>s. s \<noteq> TOK_LPAREN \<and> tok_prec t \<le> tok_prec s) stk
         in if shunt_max \<le> length stk then None else shunt ts (t # stk) (out @ popped))
      else if t = TOK_LPAREN then
        (if shunt_max \<le> length stk then None else shunt ts (t # stk) out)
      else if t = TOK_RPAREN then
        (let popped = takeWhile (\<lambda>s. s \<noteq> TOK_LPAREN) stk;
             stk = dropWhile (\<lambda>s. s \<noteq> TOK_LPAREN) stk
         in if stk = [] then None else shunt ts (tl stk) (out @ popped))
      else shunt ts stk (out @ [t]))"

section \<open>Phase 4: the automaton\<close>

datatype nkind =
  ST_MATCH | ST_CHAR char | ST_CLASS cls | ST_ANY | ST_SPLIT | ST_BOL | ST_EOL | ST_WB | ST_NWB

record nstate =
  ns_kind :: nkind
  ns_out :: "nat option"
  ns_out1 :: "nat option"

type_synonym pool = "nstate list"

text \<open>
  A dangling arrow is a state and which of its two arrows; the \<open>Ptrlist\<close> threaded through the
  unset arrows themselves is a list of them.
\<close>

type_synonym slot = "nat \<times> bool"
type_synonym frag = "nat \<times> slot list"

definition st_new :: "nkind \<Rightarrow> nstate" where
  "st_new k = \<lparr>ns_kind = k, ns_out = None, ns_out1 = None\<rparr>"

definition set_slot :: "nat \<Rightarrow> pool \<Rightarrow> slot \<Rightarrow> pool" where
  "set_slot s pool = (\<lambda>(i, second).
     pool[i := (if second then (pool ! i)\<lparr>ns_out1 := Some s\<rparr> else (pool ! i)\<lparr>ns_out := Some s\<rparr>)])"

definition pl_patch :: "slot list \<Rightarrow> nat \<Rightarrow> pool \<Rightarrow> pool" where
  "pl_patch l s pool = foldl (set_slot s) pool l"

fun tok_kind :: "token \<Rightarrow> nkind option" where
  "tok_kind (TOK_LIT c) = Some (ST_CHAR c)" | "tok_kind (TOK_CLASS cls) = Some (ST_CLASS cls)"
| "tok_kind TOK_ANY = Some ST_ANY" | "tok_kind TOK_BOL = Some ST_BOL" | "tok_kind TOK_EOL = Some ST_EOL"
| "tok_kind TOK_WB = Some ST_WB" | "tok_kind TOK_NWB = Some ST_NWB" | "tok_kind _ = None"

definition push_frag :: "frag \<Rightarrow> frag list \<Rightarrow> frag list option" where
  "push_frag f fs = (if 512 \<le> length fs then None else Some (f # fs))"

definition build_step :: "token \<Rightarrow> pool \<Rightarrow> frag list \<Rightarrow> (pool \<times> frag list) option" where
  "build_step t pool fs =
     (let n = length pool; split = st_new ST_SPLIT in
      case tok_kind t of
        Some k \<Rightarrow> map_option (Pair (pool @ [st_new k])) (push_frag (n, [(n, False)]) fs)
      | None \<Rightarrow>
         (case t of
            TOK_CAT \<Rightarrow>
              (case fs of
                 (s2, o2) # (s1, o1) # fs \<Rightarrow>
                   map_option (Pair (pl_patch o1 s2 pool)) (push_frag (s1, o2) fs)
               | _ \<Rightarrow> None)
          | TOK_PIPE \<Rightarrow>
              (case fs of
                 (s2, o2) # (s1, o1) # fs \<Rightarrow>
                   map_option (Pair (pool @ [split\<lparr>ns_out := Some s1, ns_out1 := Some s2\<rparr>]))
                     (push_frag (n, o1 @ o2) fs)
               | _ \<Rightarrow> None)
          | TOK_STAR \<Rightarrow>
              (case fs of
                 (s1, o1) # fs \<Rightarrow>
                   map_option (Pair (pl_patch o1 n (pool @ [split\<lparr>ns_out := Some s1\<rparr>])))
                     (push_frag (n, [(n, True)]) fs)
               | _ \<Rightarrow> None)
          | TOK_PLUS \<Rightarrow>
              (case fs of
                 (s1, o1) # fs \<Rightarrow>
                   map_option (Pair (pl_patch o1 n (pool @ [split\<lparr>ns_out := Some s1\<rparr>])))
                     (push_frag (s1, [(n, True)]) fs)
               | _ \<Rightarrow> None)
          | TOK_QUEST \<Rightarrow>
              (case fs of
                 (s1, o1) # fs \<Rightarrow>
                   map_option (Pair (pool @ [split\<lparr>ns_out := Some s1\<rparr>]))
                     (push_frag (n, (n, True) # o1) fs)
               | _ \<Rightarrow> None)
          | _ \<Rightarrow> Some (pool, fs)))"

fun build_loop :: "token list \<Rightarrow> pool \<Rightarrow> frag list \<Rightarrow> (pool \<times> frag list) option" where
  "build_loop [] pool fs = Some (pool, fs)"
| "build_loop (t # ts) pool fs =
     (case build_step t pool fs of None \<Rightarrow> None | Some (pool', fs') \<Rightarrow> build_loop ts pool' fs')"

text \<open>\<open>build_nfa\<close>: the pool and its start state.\<close>

definition build_nfa :: "token list \<Rightarrow> (pool \<times> nat) option" where
  "build_nfa pf =
     (case build_loop pf [] [] of
        Some (pool, [(s, outs)]) \<Rightarrow>
          Some (pl_patch outs (length pool) (pool @ [st_new ST_MATCH]), s)
      | _ \<Rightarrow> None)"

section \<open>Metadata\<close>

text \<open>
  \<open>collect_first_states\<close> and \<open>addstate\<close> walk the arrows depth first; the pending calls are an
  explicit stack \<open>work\<close>, so that the states are visited in the order of the recursive code.
\<close>

definition eps_any :: "nstate \<Rightarrow> nat option list option" where
  "eps_any s =
     (case ns_kind s of
        ST_SPLIT \<Rightarrow> Some [ns_out s, ns_out1 s]
      | ST_BOL \<Rightarrow> Some [ns_out s] | ST_EOL \<Rightarrow> Some [ns_out s]
      | ST_WB \<Rightarrow> Some [ns_out s] | ST_NWB \<Rightarrow> Some [ns_out s]
      | _ \<Rightarrow> None)"

text \<open>
  One depth-first walk: \<open>next\<close> gives the arrows to follow, or \<open>None\<close> for a state that is listed.
  \<open>vg ! i = gen\<close> says that state \<open>i\<close> was visited.
\<close>

function walk :: "(nstate \<Rightarrow> nat option list option) \<Rightarrow> pool \<Rightarrow> nat \<Rightarrow> nat option list \<Rightarrow>
    nat list \<Rightarrow> nat list \<Rightarrow> nat list \<times> nat list" where
  "walk next pool gen work vg lst =
     (case work of
        [] \<Rightarrow> (vg, lst)
      | None # work' \<Rightarrow> walk next pool gen work' vg lst
      | Some s # work' \<Rightarrow>
          if s < length vg \<and> vg ! s \<noteq> gen then
            (case next (pool ! s) of
               Some succs \<Rightarrow> walk next pool gen (succs @ work') (vg[s := gen]) lst
             | None \<Rightarrow> walk next pool gen work' (vg[s := gen]) (lst @ [s]))
          else walk next pool gen work' vg lst)"
  by pat_completeness auto

lemma fresh_decreases:
  assumes "s < length vg" "vg ! s \<noteq> gen"
  shows "card {i. i < length vg \<and> vg[s := gen] ! i \<noteq> gen} < card {i. i < length vg \<and> vg ! i \<noteq> gen}"
proof (rule psubset_card_mono)
  show "{i. i < length vg \<and> vg[s := gen] ! i \<noteq> gen} \<subset> {i. i < length vg \<and> vg ! i \<noteq> gen}"
    using assms by (auto simp: nth_list_update split: if_splits)
qed simp

termination walk
  by (relation "measures [\<lambda>(next, pool, gen, work, vg, lst). card {i. i < length vg \<and> vg ! i \<noteq> gen},
                   \<lambda>(next, pool, gen, work, vg, lst). length work]")
     (auto simp: fresh_decreases)

declare walk.simps [simp del]

text \<open>The compiled expression.\<close>

record op_regex =
  re_pool :: pool
  re_start :: nat
  re_icase :: bool
  re_anchored :: bool
  re_can_empty :: bool
  re_first_any :: bool
  re_first_chars :: cls

definition collect_first_states :: "pool \<Rightarrow> nat \<Rightarrow> nat list" where
  "collect_first_states pool start =
     snd (walk eps_any pool 1 [Some start] (replicate (length pool) 0) [])"

fun metadata_loop :: "nkind list \<Rightarrow> op_regex \<Rightarrow> op_regex" where
  "metadata_loop [] re = re"
| "metadata_loop (ST_MATCH # ks) re = metadata_loop ks (re\<lparr>re_can_empty := True\<rparr>)"
| "metadata_loop (ST_ANY # ks) re = re\<lparr>re_first_any := True\<rparr>"
| "metadata_loop (ST_CHAR c # ks) re =
     metadata_loop ks (re\<lparr>re_first_chars := cls_set_case (re_icase re) (re_first_chars re) (uc c)\<rparr>)"
| "metadata_loop (ST_CLASS cls # ks) re =
     metadata_loop ks (re\<lparr>re_first_chars := re_first_chars re OR cls\<rparr>)"
| "metadata_loop (_ # ks) re = metadata_loop ks re"

definition compute_metadata :: "op_regex \<Rightarrow> op_regex" where
  "compute_metadata re =
     metadata_loop (map (\<lambda>i. ns_kind (re_pool re ! i)) (collect_first_states (re_pool re) (re_start re)))
       (re\<lparr>re_first_chars := 0, re_can_empty := False, re_first_any := False\<rparr>)"

text \<open>\<open>op_regex_compile\<close>, with its flags \<open>OP_REGEX_ICASE\<close> and \<open>OP_REGEX_NEWLINE\<close>.\<close>

definition op_regex_compile :: "string \<Rightarrow> bool \<Rightarrow> bool \<Rightarrow> op_regex option" where
  "op_regex_compile pattern icase newline =
     (let (icase, pattern) =
            (if take 4 pattern = ''(?i)'' then (True, drop 4 pattern) else (icase, pattern))
      in case tokenise icase (\<not> newline) pattern tk_init of
           None \<Rightarrow> None
         | Some infix_toks \<Rightarrow>
             (case shunt (cat_inject infix_toks) [] [] of
                None \<Rightarrow> None
              | Some pf \<Rightarrow>
                  (case build_nfa pf of
                     None \<Rightarrow> None
                   | Some (pool, start) \<Rightarrow>
                       Some (compute_metadata
                         \<lparr>re_pool = pool, re_start = start, re_icase = icase,
                          re_anchored = (c0 pattern = CHR ''^''), re_can_empty = False,
                          re_first_any = False, re_first_chars = 0\<rparr>))))"

section \<open>Simulation\<close>

text \<open>Which arrows \<open>addstate\<close> follows before \<open>cur\<close>, the previous byte being \<open>prev_c\<close>.\<close>

definition at_boundary :: "string \<Rightarrow> char \<Rightarrow> bool" where
  "at_boundary cur prev_c \<longleftrightarrow> isword_c prev_c \<noteq> (c0 cur \<noteq> NUL \<and> isword_c (c0 cur))"

definition eps_at :: "string \<Rightarrow> char \<Rightarrow> nstate \<Rightarrow> nat option list option" where
  "eps_at cur prev_c s =
     (case ns_kind s of
        ST_SPLIT \<Rightarrow> Some [ns_out s, ns_out1 s]
      | ST_BOL \<Rightarrow> Some (if prev_c = NUL \<or> prev_c = CHR 0x0A then [ns_out s] else [])
      | ST_EOL \<Rightarrow> Some (if c0 cur = NUL \<or> c0 cur = CHR 0x0A then [ns_out s] else [])
      | ST_WB \<Rightarrow> Some (if at_boundary cur prev_c then [ns_out s] else [])
      | ST_NWB \<Rightarrow> Some (if \<not> at_boundary cur prev_c then [ns_out s] else [])
      | _ \<Rightarrow> None)"

definition addstate :: "pool \<Rightarrow> string \<Rightarrow> char \<Rightarrow> nat \<Rightarrow> nat option \<Rightarrow> nat list \<times> nat list \<Rightarrow> nat list \<times> nat list" where
  "addstate pool cur prev_c gen s = (\<lambda>(vg, lst). walk (eps_at cur prev_c) pool gen [s] vg lst)"

definition consumes :: "nstate \<Rightarrow> char \<Rightarrow> bool" where
  "consumes s c =
     (case ns_kind s of
        ST_CHAR d \<Rightarrow> d = c | ST_CLASS cls \<Rightarrow> cls_tst cls (uc c) | ST_ANY \<Rightarrow> True | _ \<Rightarrow> False)"

text \<open>The loop over the current list that fills the next one.\<close>

definition advance :: "pool \<Rightarrow> string \<Rightarrow> char \<Rightarrow> nat \<Rightarrow> nat list \<Rightarrow> nat list \<Rightarrow> nat list \<times> nat list" where
  "advance pool np c gen cur_list vg =
     foldl (\<lambda>st i. if consumes (pool ! i) c then addstate pool np c gen (ns_out (pool ! i)) st else st)
       (vg, []) cur_list"

definition has_match :: "pool \<Rightarrow> nat list \<Rightarrow> bool" where
  "has_match pool lst \<longleftrightarrow> list_ex (\<lambda>i. ns_kind (pool ! i) = ST_MATCH) lst"

definition do_seed :: "op_regex \<Rightarrow> string \<Rightarrow> bool" where
  "do_seed re np \<longleftrightarrow>
     (if \<not> re_first_any re \<and> \<not> re_can_empty re \<and> np \<noteq> []
      then cls_tst (re_first_chars re) (uc (lit_char (re_icase re) (hd np))) else True)"

text \<open>
  The main loop of \<open>op_regex_match\<close>: the current list and its visited array with its
  generation, and the visited array and generation of the other list.
\<close>

fun match_loop :: "op_regex \<Rightarrow> string \<Rightarrow> nat list \<Rightarrow> nat list \<Rightarrow> nat \<Rightarrow> nat list \<Rightarrow> nat \<Rightarrow> bool" where
  "match_loop re [] lst vg g vg' g' = has_match (re_pool re) lst"
| "match_loop re (ch # np) lst vg g vg' g' =
     (if has_match (re_pool re) lst then True
      else
        (let c = lit_char (re_icase re) ch; g' = g' + 1;
             (vg', lst') = advance (re_pool re) np c g' lst vg';
             (vg', lst') =
               (if \<not> re_anchored re \<and> do_seed re np \<and> vg' ! re_start re \<noteq> g'
                then addstate (re_pool re) np c g' (Some (re_start re)) (vg', lst') else (vg', lst'))
         in match_loop re np lst' vg' g' vg g))"

definition op_regex_match :: "op_regex \<Rightarrow> string \<Rightarrow> bool" where
  "op_regex_match re txt =
     (let vg0 = replicate (length (re_pool re)) 0;
          (vg, lst) = addstate (re_pool re) txt NUL 1 (Some (re_start re)) (vg0, [])
      in match_loop re txt lst vg 1 vg0 2)"

text \<open>\<open>match_at\<close>: the length of the longest match at the start of \<open>text\<close>.\<close>

fun match_at_loop :: "op_regex \<Rightarrow> string \<Rightarrow> nat \<Rightarrow> nat option \<Rightarrow>
    nat list \<Rightarrow> nat list \<Rightarrow> nat \<Rightarrow> nat list \<Rightarrow> nat \<Rightarrow> nat option" where
  "match_at_loop re [] len best lst vg g vg' g' = (if has_match (re_pool re) lst then Some len else best)"
| "match_at_loop re (ch # np) len best lst vg g vg' g' =
     (let best = (if has_match (re_pool re) lst then Some len else best);
          c = lit_char (re_icase re) ch; g' = g' + 1;
          (vg', lst') = advance (re_pool re) np c g' lst vg'
      in match_at_loop re np (len + 1) best lst' vg' g' vg g)"

definition match_at :: "op_regex \<Rightarrow> string \<Rightarrow> char \<Rightarrow> nat option" where
  "match_at re txt prev_c =
     (let vg0 = replicate (length (re_pool re)) 0;
          (vg, lst) = addstate (re_pool re) txt prev_c 1 (Some (re_start re)) (vg0, [])
      in match_at_loop re txt 0 None lst vg 1 vg0 2)"

text \<open>\<open>op_regex_search\<close>: start and length of the leftmost longest match.\<close>

fun search_loop :: "op_regex \<Rightarrow> string \<Rightarrow> char \<Rightarrow> nat \<Rightarrow> (nat \<times> nat) option" where
  "search_loop re [] prev_c i = map_option (Pair i) (match_at re [] prev_c)"
| "search_loop re (ch # np) prev_c i =
     (let c = lit_char (re_icase re) ch in
      if \<not> re_first_any re \<and> \<not> re_can_empty re \<and> \<not> cls_tst (re_first_chars re) (uc c)
      then (if re_anchored re then None else search_loop re np c (i + 1))
      else case match_at re (ch # np) prev_c of
             Some len \<Rightarrow> Some (i, len)
           | None \<Rightarrow> if re_anchored re then None else search_loop re np c (i + 1))"

definition op_regex_search :: "op_regex \<Rightarrow> string \<Rightarrow> (nat \<times> nat) option" where
  "op_regex_search re txt = search_loop re txt NUL 0"

end
