(* ===== verification/RegexBuild.thy ===== *)
theory RegexBuild
  imports RegexNfa
begin

text \<open>
  Correctness of the Thompson construction: what an expression means (\<open>rmatch\<close>), what it is for
  a pool of states to implement an expression between two states (\<open>wired\<close>), that
  \<open>build_nfa\<close> wires up the expression its postfix input denotes, and that the accepting runs of
  a wired automaton are exactly the matches.
\<close>

section \<open>Expressions and their meaning\<close>

datatype regex =
  Atm token | Cat regex regex | Alt regex regex | Star regex | Plus regex | Quest regex

text \<open>A place in the text: the byte before it, as the matcher remembers it, and the rest.\<close>

type_synonym pos = "char \<times> string"

definition zero_width :: "nkind \<Rightarrow> bool" where
  "zero_width k \<longleftrightarrow> k = ST_BOL \<or> k = ST_EOL \<or> k = ST_WB \<or> k = ST_NWB"

definition assertion :: "nkind \<Rightarrow> pos \<Rightarrow> bool" where
  "assertion k = (\<lambda>(p, r).
     (case k of
        ST_BOL \<Rightarrow> p = NUL \<or> p = CHR 0x0A
      | ST_EOL \<Rightarrow> c0 r = NUL \<or> c0 r = CHR 0x0A
      | ST_WB \<Rightarrow> at_boundary r p
      | ST_NWB \<Rightarrow> \<not> at_boundary r p
      | _ \<Rightarrow> False))"

definition eats :: "nkind \<Rightarrow> char \<Rightarrow> bool" where
  "eats k c = (case k of ST_CHAR d \<Rightarrow> d = c | ST_CLASS cls \<Rightarrow> cls_tst cls (uc c) | ST_ANY \<Rightarrow> True | _ \<Rightarrow> False)"

definition atom_match :: "bool \<Rightarrow> nkind \<Rightarrow> pos \<Rightarrow> pos \<Rightarrow> bool" where
  "atom_match icase k P Q \<longleftrightarrow>
     (if zero_width k then Q = P \<and> assertion k P
      else case snd P of c # r \<Rightarrow> Q = (lit_char icase c, r) \<and> eats k (lit_char icase c) | [] \<Rightarrow> False)"

primrec rmatch :: "bool \<Rightarrow> regex \<Rightarrow> pos \<Rightarrow> pos \<Rightarrow> bool" where
  "rmatch icase (Atm t) = atom_match icase (the (tok_kind t))"
| "rmatch icase (Cat a b) = rmatch icase a OO rmatch icase b"
| "rmatch icase (Alt a b) = sup (rmatch icase a) (rmatch icase b)"
| "rmatch icase (Star a) = (rmatch icase a)\<^sup>*\<^sup>*"
| "rmatch icase (Plus a) = rmatch icase a OO (rmatch icase a)\<^sup>*\<^sup>*"
| "rmatch icase (Quest a) = sup (=) (rmatch icase a)"

primrec wf_regex :: "regex \<Rightarrow> bool" where
  "wf_regex (Atm t) = (tok_kind t \<noteq> None)"
| "wf_regex (Cat a b) = (wf_regex a \<and> wf_regex b)"
| "wf_regex (Alt a b) = (wf_regex a \<and> wf_regex b)"
| "wf_regex (Star a) = wf_regex a"
| "wf_regex (Plus a) = wf_regex a"
| "wf_regex (Quest a) = wf_regex a"

primrec postfix :: "regex \<Rightarrow> token list" where
  "postfix (Atm t) = [t]"
| "postfix (Cat a b) = postfix a @ postfix b @ [TOK_CAT]"
| "postfix (Alt a b) = postfix a @ postfix b @ [TOK_PIPE]"
| "postfix (Star a) = postfix a @ [TOK_STAR]"
| "postfix (Plus a) = postfix a @ [TOK_PLUS]"
| "postfix (Quest a) = postfix a @ [TOK_QUEST]"

text \<open>How many fragments the construction keeps on its stack of 512.\<close>

primrec frag_depth :: "regex \<Rightarrow> nat" where
  "frag_depth (Atm t) = 1"
| "frag_depth (Cat a b) = max (frag_depth a) (1 + frag_depth b)"
| "frag_depth (Alt a b) = max (frag_depth a) (1 + frag_depth b)"
| "frag_depth (Star a) = frag_depth a"
| "frag_depth (Plus a) = frag_depth a"
| "frag_depth (Quest a) = frag_depth a"

section \<open>Automata that implement an expression\<close>

definition is_split :: "pool \<Rightarrow> nat \<Rightarrow> nat \<Rightarrow> nat \<Rightarrow> bool" where
  "is_split pool s a b \<longleftrightarrow>
     s < length pool \<and> ns_kind (pool ! s) = ST_SPLIT \<and> ns_out (pool ! s) = Some a \<and> ns_out1 (pool ! s) = Some b"

primrec wired :: "pool \<Rightarrow> regex \<Rightarrow> nat \<Rightarrow> nat \<Rightarrow> bool" where
  "wired pool (Atm tk) s t \<longleftrightarrow>
     s < length pool \<and> Some (ns_kind (pool ! s)) = tok_kind tk \<and> ns_out (pool ! s) = Some t"
| "wired pool (Cat a b) s t \<longleftrightarrow> (\<exists>m. wired pool a s m \<and> wired pool b m t)"
| "wired pool (Alt a b) s t \<longleftrightarrow> (\<exists>s1 s2. is_split pool s s1 s2 \<and> wired pool a s1 t \<and> wired pool b s2 t)"
| "wired pool (Star a) s t \<longleftrightarrow> (\<exists>s1. is_split pool s s1 t \<and> wired pool a s1 s)"
| "wired pool (Plus a) s t \<longleftrightarrow> (\<exists>m. is_split pool m s t \<and> wired pool a s m)"
| "wired pool (Quest a) s t \<longleftrightarrow> (\<exists>s1. is_split pool s s1 t \<and> wired pool a s1 t)"

text \<open>One step of the automaton.\<close>

inductive cstep :: "bool \<Rightarrow> pool \<Rightarrow> nat \<times> pos \<Rightarrow> nat \<times> pos \<Rightarrow> bool" for icase pool where
  follow: "s < length pool \<Longrightarrow> eps_at r p (pool ! s) = Some ts \<Longrightarrow> Some t \<in> set ts \<Longrightarrow>
     cstep icase pool (s, p, r) (t, p, r)"
| eat: "s < length pool \<Longrightarrow> consumes (pool ! s) (lit_char icase c) \<Longrightarrow> ns_out (pool ! s) = Some t \<Longrightarrow>
     cstep icase pool (s, p, c # r) (t, lit_char icase c, r)"

definition accepts :: "bool \<Rightarrow> pool \<Rightarrow> nat \<Rightarrow> pos \<Rightarrow> bool" where
  "accepts icase pool s P \<longleftrightarrow>
     (\<exists>m Q. (cstep icase pool)\<^sup>*\<^sup>* (s, P) (m, Q) \<and> m < length pool \<and> ns_kind (pool ! m) = ST_MATCH)"

inductive_cases cstepE: "cstep icase pool (s, P) x"

lemma tok_kind_cases:
  "tok_kind t = Some k \<Longrightarrow>
     (\<exists>c. k = ST_CHAR c) \<or> (\<exists>cls. k = ST_CLASS cls) \<or> k = ST_ANY \<or> zero_width k"
  by (cases t) (auto simp: zero_width_def)

lemma eps_at_zero_width:
  "zero_width (ns_kind s) \<Longrightarrow>
     eps_at r p s = Some (if assertion (ns_kind s) (p, r) then [ns_out s] else [])"
  by (auto simp: zero_width_def eps_at_def assertion_def)

lemma eps_at_split: "ns_kind s = ST_SPLIT \<Longrightarrow> eps_at r p s = Some [ns_out s, ns_out1 s]"
  by (simp add: eps_at_def)

lemma consumes_eats: "consumes s c = eats (ns_kind s) c"
  by (auto simp: consumes_def eats_def split: nkind.splits)

lemma eats_no_eps: "eats (ns_kind s) c \<Longrightarrow> eps_at r p s = None \<and> \<not> zero_width (ns_kind s)"
  by (auto simp: eats_def eps_at_def zero_width_def split: nkind.splits)

lemma eps_at_match [simp]: "ns_kind s = ST_MATCH \<Longrightarrow> eps_at r p s = None"
  by (simp add: eps_at_def)

lemma cstep_atom:
  assumes "s < length pool" "Some (ns_kind (pool ! s)) = tok_kind tk" "ns_out (pool ! s) = Some t"
  shows "cstep icase pool (s, P) (m, Q) \<longleftrightarrow> m = t \<and> atom_match icase (ns_kind (pool ! s)) P Q"
proof -
  obtain p r where P: "P = (p, r)" by fastforce
  show ?thesis
  proof (cases "zero_width (ns_kind (pool ! s))")
    case True
    then have "\<not> consumes (pool ! s) c" for c
      using eats_no_eps [of "pool ! s" c] by (auto simp: consumes_eats)
    with True assms show ?thesis
      unfolding P atom_match_def
      by (auto simp: eps_at_zero_width intro: cstep.intros elim!: cstepE split: if_splits)
  next
    case False
    then have "eps_at r p (pool ! s) = None"
      using tok_kind_cases [of tk "ns_kind (pool ! s)"] assms(2)
      by (auto simp: eps_at_def split: nkind.splits)
    with False assms show ?thesis
      unfolding P atom_match_def
      by (auto simp: consumes_eats intro: cstep.intros elim!: cstepE split: list.splits)
  qed
qed

lemma cstep_split:
  assumes "is_split pool s a b"
  shows "cstep icase pool (s, P) (m, Q) \<longleftrightarrow> Q = P \<and> (m = a \<or> m = b)"
proof -
  obtain p r where P: "P = (p, r)" by fastforce
  have "\<not> consumes (pool ! s) c" for c using assms by (simp add: consumes_def is_split_def)
  moreover have "eps_at r p (pool ! s) = Some [Some a, Some b]"
    using assms by (simp add: is_split_def eps_at_split)
  ultimately show ?thesis using assms unfolding P
    by (auto simp: is_split_def intro: cstep.intros elim!: cstepE)
qed

lemma cstep_match: "ns_kind (pool ! m) = ST_MATCH \<Longrightarrow> \<not> cstep icase pool (m, P) x"
  by (auto simp: consumes_def elim!: cstepE)

subsection \<open>Every match has a run\<close>

lemma wired_complete:
  "wired pool r s t \<Longrightarrow> rmatch icase r P Q \<Longrightarrow> (cstep icase pool)\<^sup>*\<^sup>* (s, P) (t, Q)"
proof (induction r arbitrary: s t P Q)
  case (Atm tk)
  then have "the (tok_kind tk) = ns_kind (pool ! s)" by (metis option.sel wired.simps(1))
  with Atm have "cstep icase pool (s, P) (t, Q)"
    by (subst cstep_atom [of s pool tk t]) auto
  then show ?case by blast
next
  case (Cat a b)
  then obtain m R where "wired pool a s m" "wired pool b m t" "rmatch icase a P R" "rmatch icase b R Q"
    by auto
  then show ?case using Cat.IH by (meson rtranclp_trans)
next
  case (Alt a b)
  then obtain s1 s2 where w: "is_split pool s s1 s2" "wired pool a s1 t" "wired pool b s2 t" by auto
  have "cstep icase pool (s, P) (s1, P)" "cstep icase pool (s, P) (s2, P)"
    using w(1) by (simp_all add: cstep_split)
  moreover have "rmatch icase a P Q \<or> rmatch icase b P Q" using Alt.prems by simp
  ultimately show ?case
    using Alt.IH(1) [OF w(2)] Alt.IH(2) [OF w(3)] by (meson converse_rtranclp_into_rtranclp)
next
  case (Star a)
  then obtain s1 where w: "is_split pool s s1 t" "wired pool a s1 s" by auto
  have s: "cstep icase pool (s, P) (s1, P)" "cstep icase pool (s, P) (t, P)" for P
    using w(1) by (simp_all add: cstep_split)
  have "(rmatch icase a)\<^sup>*\<^sup>* P Q" using Star.prems by simp
  then show ?case
  proof (induction rule: converse_rtranclp_induct)
    case base
    then show ?case using s(2) by blast
  next
    case (step P P')
    have "(cstep icase pool)\<^sup>*\<^sup>* (s1, P) (s, P')" using Star.IH w(2) step.hyps(1) by blast
    then show ?case using s(1) [of P] step.IH by (meson converse_rtranclp_into_rtranclp rtranclp_trans)
  qed
next
  case (Plus a)
  then obtain m where w: "is_split pool m s t" "wired pool a s m" by auto
  have s: "cstep icase pool (m, P) (s, P)" "cstep icase pool (m, P) (t, P)" for P
    using w(1) by (simp_all add: cstep_split)
  have star: "(rmatch icase a)\<^sup>*\<^sup>* P' Q \<Longrightarrow> (cstep icase pool)\<^sup>*\<^sup>* (m, P') (t, Q)" for P'
  proof (induction rule: converse_rtranclp_induct)
    case base
    then show ?case using s(2) by blast
  next
    case (step P P')
    have "(cstep icase pool)\<^sup>*\<^sup>* (s, P) (m, P')" using Plus.IH w(2) step.hyps(1) by blast
    then show ?case using s(1) [of P] step.IH by (meson converse_rtranclp_into_rtranclp rtranclp_trans)
  qed
  from Plus.prems obtain P' where "rmatch icase a P P'" "(rmatch icase a)\<^sup>*\<^sup>* P' Q" by auto
  then show ?case using Plus.IH [OF w(2)] star by (meson rtranclp_trans)
next
  case (Quest a)
  then obtain s1 where w: "is_split pool s s1 t" "wired pool a s1 t" by auto
  have "cstep icase pool (s, P) (s1, P)" "cstep icase pool (s, P) (t, P)"
    using w(1) by (simp_all add: cstep_split)
  moreover have "Q = P \<or> rmatch icase a P Q" using Quest.prems by auto
  ultimately show ?case using Quest.IH [OF w(2)]
    by (metis converse_rtranclp_into_rtranclp r_into_rtranclp)
qed

subsection \<open>Every run is a match\<close>

lemma relpowp_first:
  assumes "(R ^^ n) x z" "x \<noteq> z"
  shows "\<exists>k y. n = Suc k \<and> R x y \<and> (R ^^ k) y z"
proof (cases n)
  case 0
  then show ?thesis using assms by simp
next
  case (Suc k)
  then show ?thesis using relpowp_Suc_D2 [of k R x z] assms by blast
qed

lemma split_first:
  assumes "is_split pool s a b" "(cstep icase pool ^^ n) (s, P) (m, Q)" "ns_kind (pool ! m) = ST_MATCH"
  shows "\<exists>k. n = Suc k \<and> ((cstep icase pool ^^ k) (a, P) (m, Q) \<or> (cstep icase pool ^^ k) (b, P) (m, Q))"
proof -
  have "s \<noteq> m" using assms by (auto simp: is_split_def)
  then obtain k y where y: "n = Suc k" "cstep icase pool (s, P) y" "(cstep icase pool ^^ k) y (m, Q)"
    using relpowp_first [OF assms(2)] by auto
  obtain s' P' where "y = (s', P')" by (metis surj_pair)
  with y show ?thesis using cstep_split [OF assms(1)] by auto
qed

lemma wired_sound:
  "wired pool r s t \<Longrightarrow> (cstep icase pool ^^ n) (s, P) (m, Q) \<Longrightarrow> ns_kind (pool ! m) = ST_MATCH \<Longrightarrow>
     \<exists>n' P'. n' < n \<and> rmatch icase r P P' \<and> (cstep icase pool ^^ n') (t, P') (m, Q)"
proof (induction r arbitrary: s t P n)
  case (Atm tk)
  then have "ns_kind (pool ! s) \<noteq> ST_MATCH"
    using tok_kind_cases [of tk "ns_kind (pool ! s)"] by (auto simp: zero_width_def)
  then have "(s, P) \<noteq> (m, Q)" using Atm.prems by auto
  then obtain k y where y: "n = Suc k" "cstep icase pool (s, P) y" "(cstep icase pool ^^ k) y (m, Q)"
    using relpowp_first [OF Atm.prems(2)] by auto
  obtain s' P' where e: "y = (s', P')" by (metis surj_pair)
  have "s' = t" "atom_match icase (ns_kind (pool ! s)) P P'"
    using y(2) cstep_atom [of s pool tk t] Atm.prems(1) unfolding e by auto
  moreover have "the (tok_kind tk) = ns_kind (pool ! s)"
    using Atm.prems(1) by (metis option.sel wired.simps(1))
  ultimately show ?case using y e by (intro exI [of _ k] exI [of _ P']) auto
next
  case (Cat a b)
  then obtain k where w: "wired pool a s k" "wired pool b k t" by auto
  then obtain n1 P1 where 1: "n1 < n" "rmatch icase a P P1" "(cstep icase pool ^^ n1) (k, P1) (m, Q)"
    using Cat by blast
  with w Cat obtain n2 P2 where "n2 < n1" "rmatch icase b P1 P2" "(cstep icase pool ^^ n2) (t, P2) (m, Q)"
    by blast
  with 1 show ?case by (metis less_trans relcomppI rmatch.simps(2))
next
  case (Alt a b)
  then obtain s1 s2 where w: "is_split pool s s1 s2" "wired pool a s1 t" "wired pool b s2 t" by auto
  with Alt.prems obtain k where "n = Suc k"
    "(cstep icase pool ^^ k) (s1, P) (m, Q) \<or> (cstep icase pool ^^ k) (s2, P) (m, Q)"
    using split_first by blast
  then show ?case using Alt.IH w Alt.prems(3) by (metis less_SucI rmatch.simps(3) sup2I1 sup2I2)
next
  case (Star a)
  then obtain s1 where w: "is_split pool s s1 t" "wired pool a s1 s" by auto
  show ?case using Star.prems(2)
  proof (induction n arbitrary: P rule: less_induct)
    case (less n)
    obtain k where k: "n = Suc k"
      "(cstep icase pool ^^ k) (s1, P) (m, Q) \<or> (cstep icase pool ^^ k) (t, P) (m, Q)"
      using split_first [OF w(1) less.prems Star.prems(3)] by blast
    show ?case
    proof (cases "(cstep icase pool ^^ k) (t, P) (m, Q)")
      case True
      then show ?thesis using k(1) by (intro exI [of _ k] exI [of _ P]) simp
    next
      case False
      then obtain n1 P1 where 1: "n1 < k" "rmatch icase a P P1" "(cstep icase pool ^^ n1) (s, P1) (m, Q)"
        using k Star.IH [OF w(2)] Star.prems(3) by blast
      then obtain n2 P2 where "n2 < n1" "rmatch icase (Star a) P1 P2" "(cstep icase pool ^^ n2) (t, P2) (m, Q)"
        using less.IH [of n1 P1] k(1) by auto
      then show ?thesis using 1 k(1)
        by (intro exI [of _ n2] exI [of _ P2]) (auto intro: converse_rtranclp_into_rtranclp)
    qed
  qed
next
  case (Plus a)
  then obtain k where w: "is_split pool k s t" "wired pool a s k" by auto
  show ?case using Plus.prems(2)
  proof (induction n arbitrary: P rule: less_induct)
    case (less n)
    obtain n1 P1 where 1: "n1 < n" "rmatch icase a P P1" "(cstep icase pool ^^ n1) (k, P1) (m, Q)"
      using Plus.IH [OF w(2) less.prems Plus.prems(3)] by blast
    obtain j where j: "n1 = Suc j"
      "(cstep icase pool ^^ j) (s, P1) (m, Q) \<or> (cstep icase pool ^^ j) (t, P1) (m, Q)"
      using split_first [OF w(1) 1(3) Plus.prems(3)] by blast
    show ?case
    proof (cases "(cstep icase pool ^^ j) (t, P1) (m, Q)")
      case True
      then show ?thesis using 1 j(1) by (intro exI [of _ j] exI [of _ P1]) auto
    next
      case False
      then obtain n2 P2 where "n2 < j" "rmatch icase (Plus a) P1 P2" "(cstep icase pool ^^ n2) (t, P2) (m, Q)"
        using less.IH [of j P1] j 1 by auto
      then show ?thesis using 1 j(1)
        by (intro exI [of _ n2] exI [of _ P2]) (auto intro: converse_rtranclp_into_rtranclp)
    qed
  qed
next
  case (Quest a)
  then obtain s1 where w: "is_split pool s s1 t" "wired pool a s1 t" by auto
  with Quest.prems obtain k where k: "n = Suc k"
    "(cstep icase pool ^^ k) (s1, P) (m, Q) \<or> (cstep icase pool ^^ k) (t, P) (m, Q)"
    using split_first by blast
  show ?case
  proof (cases "(cstep icase pool ^^ k) (t, P) (m, Q)")
    case True
    then show ?thesis using k(1) by (intro exI [of _ k] exI [of _ P]) auto
  next
    case False
    then obtain n1 P1 where "n1 < k" "rmatch icase a P P1" "(cstep icase pool ^^ n1) (t, P1) (m, Q)"
      using k Quest.IH [OF w(2)] Quest.prems(3) by blast
    then show ?thesis using k(1) by (intro exI [of _ n1] exI [of _ P1]) auto
  qed
qed

text \<open>A pool that wires \<open>r\<close> from its start to a match state accepts what \<open>r\<close> matches.\<close>

lemma wired_accepts:
  assumes "wired pool r s ms" "ms < length pool" "ns_kind (pool ! ms) = ST_MATCH"
  shows "accepts icase pool s P \<longleftrightarrow> (\<exists>Q. rmatch icase r P Q)"
proof
  assume "accepts icase pool s P"
  then obtain m Q where "(cstep icase pool)\<^sup>*\<^sup>* (s, P) (m, Q)" "ns_kind (pool ! m) = ST_MATCH"
    by (auto simp: accepts_def)
  then show "\<exists>Q. rmatch icase r P Q"
    using wired_sound [OF assms(1)] by (metis rtranclp_imp_relpowp)
next
  assume "\<exists>Q. rmatch icase r P Q"
  then show "accepts icase pool s P"
    using wired_complete [OF assms(1)] assms(2,3) unfolding accepts_def by blast
qed

section \<open>The construction wires the expression\<close>

lemma length_pl_patch [simp]: "length (pl_patch l t pool) = length pool"
  unfolding pl_patch_def by (induction l arbitrary: pool) (auto simp: set_slot_def split: prod.splits)

lemma pl_patch_simps [simp]:
  "pl_patch [] t pool = pool" "pl_patch (x # l) t pool = pl_patch l t (set_slot t pool x)"
  by (simp_all add: pl_patch_def)

lemma pl_patch_append: "pl_patch (l @ l') t pool = pl_patch l' t (pl_patch l t pool)"
  by (simp add: pl_patch_def)

lemma length_set_slot [simp]: "length (set_slot t pool x) = length pool"
  by (simp add: set_slot_def split: prod.split)

lemma set_slot_other: "fst x \<noteq> i \<Longrightarrow> set_slot t pool x ! i = pool ! i"
  by (auto simp: set_slot_def split: prod.split)

lemma pl_patch_other: "i \<notin> fst ` set l \<Longrightarrow> pl_patch l t pool ! i = pool ! i"
  by (induction l arbitrary: pool) (auto simp: set_slot_other)

lemma pl_patch_cong:
  "i < length pool \<Longrightarrow> i < length pool' \<Longrightarrow> pool ! i = pool' ! i \<Longrightarrow>
     pl_patch l t pool ! i = pl_patch l t pool' ! i"
proof (induction l arbitrary: pool pool')
  case (Cons x l)
  have "set_slot t pool x ! i = set_slot t pool' x ! i"
    using Cons.prems by (cases x; cases "fst x = i") (auto simp: set_slot_def)
  then show ?case using Cons by simp
qed simp

text \<open>
  A fragment that occupies the states from \<open>lo\<close> up to \<open>hi\<close> implements \<open>r\<close> once its dangling
  arrows are pointed at a target, whatever the rest of the pool is.
\<close>

definition frag_ok :: "pool \<Rightarrow> nat \<Rightarrow> nat \<Rightarrow> regex \<Rightarrow> frag \<Rightarrow> bool" where
  "frag_ok pool lo hi r f \<longleftrightarrow>
     lo \<le> hi \<and> hi \<le> length pool \<and> fst ` set (snd f) \<subseteq> {lo..<hi} \<and>
     (\<forall>P t. hi \<le> length P \<and> (\<forall>i \<in> {lo..<hi}. P ! i = pl_patch (snd f) t pool ! i) \<longrightarrow> wired P r (fst f) t)"

lemma frag_okD:
  "frag_ok pool lo hi r (s, outs) \<Longrightarrow> hi \<le> length P \<Longrightarrow>
     (\<And>i. lo \<le> i \<Longrightarrow> i < hi \<Longrightarrow> P ! i = pl_patch outs t pool ! i) \<Longrightarrow> wired P r s t"
  by (auto simp: frag_ok_def)

lemma frag_ok_frame:
  assumes "frag_ok pool lo hi r f" "hi \<le> length pool'" "\<And>i. lo \<le> i \<Longrightarrow> i < hi \<Longrightarrow> pool' ! i = pool ! i"
  shows "frag_ok pool' lo hi r f"
proof -
  have "pl_patch (snd f) t pool' ! i = pl_patch (snd f) t pool ! i" if "i \<in> {lo..<hi}" for i t
    using assms that by (intro pl_patch_cong) (auto simp: frag_ok_def)
  then show ?thesis using assms(1,2) by (auto simp: frag_ok_def)
qed

lemma frag_ok_atom:
  "tok_kind t = Some k \<Longrightarrow>
     frag_ok (pool @ [st_new k]) (length pool) (Suc (length pool)) (Atm t) (length pool, [(length pool, False)])"
  by (auto simp: frag_ok_def set_slot_def st_new_def)

lemma frag_ok_cat:
  assumes a: "frag_ok pool lo mid a (s1, o1)" and b: "frag_ok pool mid hi b (s2, o2)"
  shows "frag_ok (pl_patch o1 s2 pool) lo hi (Cat a b) (s1, o2)"
proof -
  have sub: "fst ` set o1 \<subseteq> {lo..<mid}" "fst ` set o2 \<subseteq> {mid..<hi}" "lo \<le> mid" "mid \<le> hi" "hi \<le> length pool"
    using a b by (auto simp: frag_ok_def)
  have "wired P (Cat a b) s1 t"
    if P: "hi \<le> length P" "\<forall>i \<in> {lo..<hi}. P ! i = pl_patch o2 t (pl_patch o1 s2 pool) ! i" for P t
  proof -
    have "P ! i = pl_patch o1 s2 pool ! i" if "lo \<le> i" "i < mid" for i
    proof -
      have "i \<notin> fst ` set o2" using sub that by auto
      then show ?thesis using P sub that by (simp add: pl_patch_other)
    qed
    then have "wired P a s1 s2" using P sub by (intro frag_okD [OF a]) auto
    moreover have "P ! i = pl_patch o2 t pool ! i" if "mid \<le> i" "i < hi" for i
    proof -
      have "i \<notin> fst ` set o1" using sub that by auto
      then have "pl_patch o2 t (pl_patch o1 s2 pool) ! i = pl_patch o2 t pool ! i"
        using that sub by (intro pl_patch_cong) (auto simp: pl_patch_other)
      then show ?thesis using P sub that by simp
    qed
    then have "wired P b s2 t" using P by (intro frag_okD [OF b]) auto
    ultimately show ?thesis by auto
  qed
  then show ?thesis using sub by (auto simp: frag_ok_def)
qed

text \<open>The four constructions that add a split state behind their fragments.\<close>

lemma frag_ok_alt:
  assumes a: "frag_ok pool lo mid a (s1, o1)" and b: "frag_ok pool mid (length pool) b (s2, o2)"
  shows "frag_ok (pool @ [(st_new ST_SPLIT)\<lparr>ns_out := Some s1, ns_out1 := Some s2\<rparr>]) lo (Suc (length pool))
           (Alt a b) (length pool, o1 @ o2)"
proof -
  let ?n = "length pool" and ?sp = "(st_new ST_SPLIT)\<lparr>ns_out := Some s1, ns_out1 := Some s2\<rparr>"
  have sub: "fst ` set o1 \<subseteq> {lo..<mid}" "fst ` set o2 \<subseteq> {mid..<?n}" "lo \<le> mid" "mid \<le> ?n"
    using a b by (auto simp: frag_ok_def)
  have "wired P (Alt a b) ?n t"
    if P: "Suc ?n \<le> length P"
      "\<forall>i \<in> {lo..<Suc ?n}. P ! i = pl_patch (o1 @ o2) t (pool @ [?sp]) ! i" for P t
  proof -
    have n: "?n \<notin> fst ` set (o1 @ o2)" using sub by auto
    have "P ! ?n = ?sp" using P sub by (simp add: pl_patch_other [OF n])
    then have "is_split P ?n s1 s2" using P by (simp add: is_split_def st_new_def)
    moreover have "P ! i = pl_patch o1 t pool ! i" if "lo \<le> i" "i < mid" for i
    proof -
      have "i \<notin> fst ` set o2" using sub that by auto
      then have "pl_patch (o1 @ o2) t (pool @ [?sp]) ! i = pl_patch o1 t (pool @ [?sp]) ! i"
        by (simp add: pl_patch_append pl_patch_other)
      also have "\<dots> = pl_patch o1 t pool ! i"
        using that sub by (intro pl_patch_cong) (auto simp: nth_append)
      finally show ?thesis using P sub that by simp
    qed
    then have "wired P a s1 t" using P sub by (intro frag_okD [OF a]) auto
    moreover have "P ! i = pl_patch o2 t pool ! i" if "mid \<le> i" "i < ?n" for i
    proof -
      have "i \<notin> fst ` set o1" using sub that by auto
      then have "pl_patch (o1 @ o2) t (pool @ [?sp]) ! i = pl_patch o2 t pool ! i"
        using that sub unfolding pl_patch_append
        by (intro pl_patch_cong) (auto simp: nth_append pl_patch_other)
      then show ?thesis using P sub that by simp
    qed
    then have "wired P b s2 t" using P by (intro frag_okD [OF b]) auto
    ultimately show ?thesis by auto
  qed
  then show ?thesis using sub by (auto simp: frag_ok_def)
qed

lemma frag_split_out1:
  "pl_patch [(n, True)] t P ! n = (P ! n)\<lparr>ns_out1 := Some t\<rparr>" if "n < length P"
  using that by (simp add: set_slot_def)

text \<open>The loop shared by \<open>*\<close> and \<open>+\<close>: the fragment's arrows return to the split.\<close>

lemma frag_loop:
  assumes a: "frag_ok pool lo (length pool) a (s1, o1)"
    and P: "Suc (length pool) \<le> length P"
      "\<forall>i \<in> {lo..<Suc (length pool)}. P ! i =
         pl_patch [(length pool, True)] t
           (pl_patch o1 (length pool) (pool @ [(st_new ST_SPLIT)\<lparr>ns_out := Some s1\<rparr>])) ! i"
  shows "is_split P (length pool) s1 t \<and> wired P a s1 (length pool)"
proof -
  let ?n = "length pool" and ?sp = "(st_new ST_SPLIT)\<lparr>ns_out := Some s1\<rparr>"
  let ?p = "pl_patch o1 ?n (pool @ [?sp])"
  have sub: "fst ` set o1 \<subseteq> {lo..<?n}" "lo \<le> ?n" using a by (auto simp: frag_ok_def)
  have n: "?n \<notin> fst ` set o1" using sub by auto
  have "?p ! ?n = ?sp" by (simp add: pl_patch_other [OF n])
  then have "P ! ?n = ?sp\<lparr>ns_out1 := Some t\<rparr>"
    using P sub by (simp add: set_slot_def)
  then have "is_split P ?n s1 t" using P by (simp add: is_split_def st_new_def)
  moreover have "P ! i = pl_patch o1 ?n pool ! i" if "lo \<le> i" "i < ?n" for i
  proof -
    have "P ! i = ?p ! i" using P that by (simp add: set_slot_def)
    also have "\<dots> = pl_patch o1 ?n pool ! i" using that by (intro pl_patch_cong) (auto simp: nth_append)
    finally show ?thesis .
  qed
  then have "wired P a s1 ?n" using P by (intro frag_okD [OF a]) auto
  ultimately show ?thesis ..
qed

lemma frag_ok_star:
  assumes a: "frag_ok pool lo (length pool) a (s1, o1)"
  shows "frag_ok (pl_patch o1 (length pool) (pool @ [(st_new ST_SPLIT)\<lparr>ns_out := Some s1\<rparr>])) lo
           (Suc (length pool)) (Star a) (length pool, [(length pool, True)])"
  using frag_loop [OF a] a unfolding frag_ok_def by fastforce

lemma frag_ok_plus:
  assumes a: "frag_ok pool lo (length pool) a (s1, o1)"
  shows "frag_ok (pl_patch o1 (length pool) (pool @ [(st_new ST_SPLIT)\<lparr>ns_out := Some s1\<rparr>])) lo
           (Suc (length pool)) (Plus a) (s1, [(length pool, True)])"
  using frag_loop [OF a] a unfolding frag_ok_def by fastforce

lemma frag_ok_quest:
  assumes a: "frag_ok pool lo (length pool) a (s1, o1)"
  shows "frag_ok (pool @ [(st_new ST_SPLIT)\<lparr>ns_out := Some s1\<rparr>]) lo (Suc (length pool))
           (Quest a) (length pool, (length pool, True) # o1)"
proof -
  let ?n = "length pool" and ?sp = "(st_new ST_SPLIT)\<lparr>ns_out := Some s1\<rparr>"
  have sub: "fst ` set o1 \<subseteq> {lo..<?n}" "lo \<le> ?n" using a by (auto simp: frag_ok_def)
  have "wired P (Quest a) ?n t"
    if P: "Suc ?n \<le> length P"
      "\<forall>i \<in> {lo..<Suc ?n}. P ! i = pl_patch ((?n, True) # o1) t (pool @ [?sp]) ! i" for P t
  proof -
    have "?n \<notin> fst ` set o1" using sub by auto
    then have "P ! ?n = ?sp\<lparr>ns_out1 := Some t\<rparr>"
      using P sub by (simp add: pl_patch_other set_slot_def)
    then have "is_split P ?n s1 t" using P by (simp add: is_split_def st_new_def)
    moreover have "P ! i = pl_patch o1 t pool ! i" if "lo \<le> i" "i < ?n" for i
    proof -
      have "pl_patch o1 t (set_slot t (pool @ [?sp]) (?n, True)) ! i = pl_patch o1 t pool ! i"
        using that by (intro pl_patch_cong) (auto simp: nth_append set_slot_def)
      then show ?thesis using P that by simp
    qed
    then have "wired P a s1 t" using P by (intro frag_okD [OF a]) auto
    ultimately show ?thesis by auto
  qed
  then show ?thesis using sub by (auto simp: frag_ok_def)
qed

lemma build_loop_append:
  "build_loop (ts @ ts') pool fs =
     (case build_loop ts pool fs of None \<Rightarrow> None | Some (pool', fs') \<Rightarrow> build_loop ts' pool' fs')"
proof (induction ts arbitrary: pool fs)
  case (Cons t ts)
  then show ?case by (cases "build_step t pool fs") auto
qed simp

text \<open>What evaluating the postfix form of \<open>r\<close> does to the pool and the fragment stack.\<close>

definition builds :: "pool \<Rightarrow> frag list \<Rightarrow> regex \<Rightarrow> pool \<Rightarrow> frag \<Rightarrow> bool" where
  "builds pool fs r pool' f \<longleftrightarrow>
     build_loop (postfix r) pool fs = Some (pool', f # fs) \<and> length pool \<le> length pool' \<and>
     (\<forall>i < length pool. pool' ! i = pool ! i) \<and> frag_ok pool' (length pool) (length pool') r f"

lemma length_postfix_pos: "0 < length (postfix r)"
  by (cases r) auto

lemma frag_depth_pos: "0 < frag_depth r"
  by (induction r) auto

lemma buildsD:
  assumes "builds pool fs r pool' f"
  shows "build_loop (postfix r) pool fs = Some (pool', f # fs)" "length pool \<le> length pool'"
    "\<And>i. i < length pool \<Longrightarrow> pool' ! i = pool ! i" "frag_ok pool' (length pool) (length pool') r f"
  using assms by (auto simp: builds_def)

lemma builds_two:
  assumes "builds pool fs a p1 f1" "builds p1 (f1 # fs) b p2 f2"
  shows "build_loop (postfix a @ postfix b) pool fs = Some (p2, f2 # f1 # fs)"
    "frag_ok p2 (length pool) (length p1) a f1" "frag_ok p2 (length p1) (length p2) b f2"
    "length pool \<le> length p1" "length p1 \<le> length p2" "\<And>i. i < length pool \<Longrightarrow> p2 ! i = pool ! i"
proof -
  note 1 = buildsD [OF assms(1)] and 2 = buildsD [OF assms(2)]
  show "build_loop (postfix a @ postfix b) pool fs = Some (p2, f2 # f1 # fs)"
    using 1(1) 2(1) by (simp add: build_loop_append)
  show "frag_ok p2 (length pool) (length p1) a f1"
    using 2 by (intro frag_ok_frame [OF 1(4)]) auto
  show "frag_ok p2 (length p1) (length p2) b f2" by (fact 2(4))
  show "length pool \<le> length p1" "length p1 \<le> length p2" using 1 2 by auto
  show "p2 ! i = pool ! i" if "i < length pool" for i using that 1(2,3) 2(3) by auto
qed

lemma patch_below:
  assumes "frag_ok p lo hi r (s, outs)" "i < lo"
  shows "pl_patch outs t q ! i = q ! i"
  using assms by (intro pl_patch_other) (auto simp: frag_ok_def)

lemma builds_postfix:
  "wf_regex r \<Longrightarrow> length fs + frag_depth r \<le> 512 \<Longrightarrow> \<exists>pool' f. builds pool fs r pool' f"
proof (induction r arbitrary: pool fs)
  case (Atm t)
  then obtain k where k: "tok_kind t = Some k" by auto
  have "build_loop (postfix (Atm t)) pool fs =
      Some (pool @ [st_new k], (length pool, [(length pool, False)]) # fs)"
    using Atm.prems k by (simp add: build_step_def push_frag_def Let_def)
  then show ?case using frag_ok_atom [OF k, of pool]
    by (intro exI [of _ "pool @ [st_new k]"] exI) (auto simp: builds_def nth_append)
next
  case (Cat a b)
  then obtain p1 f1 where 1: "builds pool fs a p1 f1" by fastforce
  obtain p2 f2 where 2: "builds p1 (f1 # fs) b p2 f2"
    using Cat.IH(2) [of "f1 # fs" p1] Cat.prems by fastforce
  note b = builds_two [OF 1 2]
  obtain s1 o1 s2 o2 where f: "f1 = (s1, o1)" "f2 = (s2, o2)" by fastforce
  have "build_step TOK_CAT p2 (f2 # f1 # fs) = Some (pl_patch o1 s2 p2, (s1, o2) # fs)"
    using Cat.prems frag_depth_pos [of a] f by (simp add: build_step_def push_frag_def Let_def)
  then have "build_loop (postfix (Cat a b)) pool fs = Some (pl_patch o1 s2 p2, (s1, o2) # fs)"
    using b(1) by (simp add: build_loop_append [of "postfix a @ postfix b", simplified])
  moreover have "frag_ok (pl_patch o1 s2 p2) (length pool) (length p2) (Cat a b) (s1, o2)"
    using frag_ok_cat b(2,3) f by auto
  moreover have "pl_patch o1 s2 p2 ! i = pool ! i" if "i < length pool" for i
    using patch_below b(2,6) f that by metis
  ultimately show ?case using b(4,5) by (intro exI) (auto simp: builds_def)
next
  case (Alt a b)
  then obtain p1 f1 where 1: "builds pool fs a p1 f1" by fastforce
  obtain p2 f2 where 2: "builds p1 (f1 # fs) b p2 f2"
    using Alt.IH(2) [of "f1 # fs" p1] Alt.prems by fastforce
  note b = builds_two [OF 1 2]
  obtain s1 o1 s2 o2 where f: "f1 = (s1, o1)" "f2 = (s2, o2)" by fastforce
  let ?p = "p2 @ [(st_new ST_SPLIT)\<lparr>ns_out := Some s1, ns_out1 := Some s2\<rparr>]"
  have "build_step TOK_PIPE p2 (f2 # f1 # fs) = Some (?p, (length p2, o1 @ o2) # fs)"
    using Alt.prems frag_depth_pos [of a] f by (simp add: build_step_def push_frag_def Let_def)
  then have "build_loop (postfix (Alt a b)) pool fs = Some (?p, (length p2, o1 @ o2) # fs)"
    using b(1) by (simp add: build_loop_append [of "postfix a @ postfix b", simplified])
  moreover have "frag_ok ?p (length pool) (length ?p) (Alt a b) (length p2, o1 @ o2)"
    using frag_ok_alt b(2,3) f by auto
  ultimately show ?case using b(4,5,6)
    by (intro exI) (auto simp: builds_def nth_append)
next
  case (Star a)
  then obtain p1 f1 where 1: "builds pool fs a p1 f1" by fastforce
  note b = buildsD [OF 1]
  obtain s1 o1 where f: "f1 = (s1, o1)" by fastforce
  let ?p = "pl_patch o1 (length p1) (p1 @ [(st_new ST_SPLIT)\<lparr>ns_out := Some s1\<rparr>])"
  have "build_step TOK_STAR p1 (f1 # fs) = Some (?p, (length p1, [(length p1, True)]) # fs)"
    using Star.prems frag_depth_pos [of a] f by (simp add: build_step_def push_frag_def Let_def)
  then have "build_loop (postfix (Star a)) pool fs = Some (?p, (length p1, [(length p1, True)]) # fs)"
    using b(1) by (simp add: build_loop_append)
  moreover have "frag_ok ?p (length pool) (length ?p) (Star a) (length p1, [(length p1, True)])"
    using frag_ok_star b(4) f by auto
  moreover have "?p ! i = pool ! i" if "i < length pool" for i
    using patch_below [of p1 "length pool" _ a s1 o1 i] b that f by (auto simp: nth_append)
  ultimately show ?case using b(2) by (intro exI) (auto simp: builds_def)
next
  case (Plus a)
  then obtain p1 f1 where 1: "builds pool fs a p1 f1" by fastforce
  note b = buildsD [OF 1]
  obtain s1 o1 where f: "f1 = (s1, o1)" by fastforce
  let ?p = "pl_patch o1 (length p1) (p1 @ [(st_new ST_SPLIT)\<lparr>ns_out := Some s1\<rparr>])"
  have "build_step TOK_PLUS p1 (f1 # fs) = Some (?p, (s1, [(length p1, True)]) # fs)"
    using Plus.prems frag_depth_pos [of a] f by (simp add: build_step_def push_frag_def Let_def)
  then have "build_loop (postfix (Plus a)) pool fs = Some (?p, (s1, [(length p1, True)]) # fs)"
    using b(1) by (simp add: build_loop_append)
  moreover have "frag_ok ?p (length pool) (length ?p) (Plus a) (s1, [(length p1, True)])"
    using frag_ok_plus b(4) f by auto
  moreover have "?p ! i = pool ! i" if "i < length pool" for i
    using patch_below [of p1 "length pool" _ a s1 o1 i] b that f by (auto simp: nth_append)
  ultimately show ?case using b(2) by (intro exI) (auto simp: builds_def)
next
  case (Quest a)
  then obtain p1 f1 where 1: "builds pool fs a p1 f1" by fastforce
  note b = buildsD [OF 1]
  obtain s1 o1 where f: "f1 = (s1, o1)" by fastforce
  let ?p = "p1 @ [(st_new ST_SPLIT)\<lparr>ns_out := Some s1\<rparr>]"
  have "build_step TOK_QUEST p1 (f1 # fs) = Some (?p, (length p1, (length p1, True) # o1) # fs)"
    using Quest.prems frag_depth_pos [of a] f by (simp add: build_step_def push_frag_def Let_def)
  then have "build_loop (postfix (Quest a)) pool fs = Some (?p, (length p1, (length p1, True) # o1) # fs)"
    using b(1) by (simp add: build_loop_append)
  moreover have "frag_ok ?p (length pool) (length ?p) (Quest a) (length p1, (length p1, True) # o1)"
    using frag_ok_quest b(4) f by auto
  ultimately show ?case using b(2,3) by (intro exI) (auto simp: builds_def nth_append)
qed

lemma wired_start: "wired pool r s t \<Longrightarrow> s < length pool"
  by (induction r arbitrary: s t) (auto simp: is_split_def)

text \<open>The finished automaton: it wires \<open>r\<close> from its start to its only new match state.\<close>

lemma build_nfa_wired:
  assumes "wf_regex r" "frag_depth r \<le> 512"
  shows "\<exists>pool s ms. build_nfa (postfix r) = Some (pool, s) \<and> s < length pool \<and> ms < length pool \<and>
           ns_kind (pool ! ms) = ST_MATCH \<and> wired pool r s ms"
proof -
  obtain p f where b: "builds [] [] r p f"
    using builds_postfix [OF assms(1), of "[]" "[]"] assms(2) by (metis add_0 list.size(3))
  obtain s outs where f: "f = (s, outs)" by fastforce
  let ?n = "length p"
  let ?p = "pl_patch outs ?n (p @ [st_new ST_MATCH])"
  have fo: "frag_ok p 0 ?n r (s, outs)" using buildsD(4) [OF b] f by simp
  then have sub: "fst ` set outs \<subseteq> {0..<?n}" by (simp add: frag_ok_def)
  have "build_nfa (postfix r) = Some (?p, s)"
    using buildsD(1) [OF b] f by (simp add: build_nfa_def)
  moreover have n: "?n \<notin> fst ` set outs" using sub by auto
  then have "ns_kind (?p ! ?n) = ST_MATCH" by (simp add: pl_patch_other [OF n] st_new_def)
  moreover have w: "wired ?p r s ?n"
    by (intro frag_okD [OF fo] pl_patch_cong) (auto simp: nth_append intro!: pl_patch_cong)
  moreover have "s < length ?p" using w by (rule wired_start)
  ultimately show ?thesis by (intro exI [of _ ?p] exI [of _ s] exI [of _ ?n]) auto
qed

end
