(* ===== verification/RegexSim.thy ===== *)
theory RegexSim
  imports RegexBuild
begin

text \<open>
  Correctness of the simulation: the depth-first \<open>walk\<close> collects exactly the states reachable
  over empty moves, \<open>op_regex_match\<close> finds exactly the accepting runs, and skipping the re-seed
  by the first-character bitmap loses none of them.
\<close>

section \<open>The depth-first walk\<close>

definition succs :: "(nstate \<Rightarrow> nat option list option) \<Rightarrow> pool \<Rightarrow> nat \<Rightarrow> (nat \<times> nat) set" where
  "succs nx pool n = {(a, b). a < n \<and> b < n \<and> (\<exists>ss. nx (pool ! a) = Some ss \<and> Some b \<in> set ss)}"

definition reach :: "(nstate \<Rightarrow> nat option list option) \<Rightarrow> pool \<Rightarrow> nat \<Rightarrow> nat set \<Rightarrow> nat set" where
  "reach nx pool n S = {b. \<exists>a \<in> S. a < n \<and> (a, b) \<in> (succs nx pool n)\<^sup>*}"

definition visited :: "nat list \<Rightarrow> nat \<Rightarrow> nat set" where
  "visited vg gen = {i. i < length vg \<and> vg ! i = gen}"

lemma reach_mono: "S \<subseteq> T \<Longrightarrow> reach nx pool n S \<subseteq> reach nx pool n T"
  by (auto simp: reach_def)

lemma reach_closed: "a \<in> reach nx pool n S \<Longrightarrow> (a, b) \<in> succs nx pool n \<Longrightarrow> b \<in> reach nx pool n S"
  by (auto simp: reach_def intro: rtrancl_into_rtrancl)

lemma reach_least:
  assumes "\<And>s. s \<in> S \<Longrightarrow> s < n \<Longrightarrow> s \<in> V" "\<And>a b. a \<in> V \<Longrightarrow> (a, b) \<in> succs nx pool n \<Longrightarrow> b \<in> V"
  shows "reach nx pool n S \<subseteq> V"
proof
  fix b assume "b \<in> reach nx pool n S"
  then obtain a where "a \<in> S" "a < n" "(a, b) \<in> (succs nx pool n)\<^sup>*" by (auto simp: reach_def)
  from this(3) this(1,2) show "b \<in> V" by (induction rule: rtrancl_induct) (auto intro: assms)
qed

lemma visited_update: "s < length vg \<Longrightarrow> visited (vg[s := gen]) gen = insert s (visited vg gen)"
  by (auto simp: visited_def nth_list_update)

lemma reach_succ:
  assumes "s < n" "nx (pool ! s) = Some ss" "a \<in> reach nx pool n {t. Some t \<in> set ss}"
  shows "a \<in> reach nx pool n {s}"
proof -
  obtain t where t: "Some t \<in> set ss" "t < n" "(t, a) \<in> (succs nx pool n)\<^sup>*"
    using assms(3) by (auto simp: reach_def)
  then have "(s, t) \<in> succs nx pool n" using assms by (auto simp: succs_def)
  with t assms(1) show ?thesis by (auto simp: reach_def intro: converse_rtrancl_into_rtrancl)
qed

lemma reach_split:
  "a \<in> reach nx pool n (S \<union> T) \<longleftrightarrow> a \<in> reach nx pool n S \<or> a \<in> reach nx pool n T"
  by (auto simp: reach_def)

lemma reach_Un: "reach nx pool n (S \<union> T) = reach nx pool n S \<union> reach nx pool n T"
  by (auto simp: reach_def)

lemma reach_self: "s < n \<Longrightarrow> s \<in> reach nx pool n {s}"
  by (auto simp: reach_def)

definition walked :: "(nstate \<Rightarrow> nat option list option) \<Rightarrow> pool \<Rightarrow> nat \<Rightarrow> nat option list \<Rightarrow>
    nat list \<Rightarrow> nat list \<Rightarrow> nat list \<times> nat list \<Rightarrow> bool" where
  "walked nx pool gen work vg lst = (\<lambda>(vg', lst').
     (let n = length vg; V = visited vg gen; V' = visited vg' gen; W = {s. Some s \<in> set work} in
      length vg' = n \<and> V \<subseteq> V' \<and> (\<forall>s \<in> W. s < n \<longrightarrow> s \<in> V') \<and>
      (\<forall>a \<in> V' - V. \<forall>b. (a, b) \<in> succs nx pool n \<longrightarrow> b \<in> V') \<and>
      V' - V \<subseteq> reach nx pool n W \<and>
      set lst' = set lst \<union> {a \<in> V' - V. nx (pool ! a) = None} \<and>
      (\<forall>i < n. vg' ! i = gen \<or> vg' ! i = vg ! i)))"

lemma walkedD:
  assumes "walked nx pool gen work vg lst (vg', lst')"
  shows "length vg' = length vg" "visited vg gen \<subseteq> visited vg' gen"
    "\<And>s. Some s \<in> set work \<Longrightarrow> s < length vg \<Longrightarrow> s \<in> visited vg' gen"
    "\<And>a b. a \<in> visited vg' gen \<Longrightarrow> a \<notin> visited vg gen \<Longrightarrow> (a, b) \<in> succs nx pool (length vg) \<Longrightarrow>
       b \<in> visited vg' gen"
    "visited vg' gen - visited vg gen \<subseteq> reach nx pool (length vg) {s. Some s \<in> set work}"
    "set lst' = set lst \<union> {a \<in> visited vg' gen - visited vg gen. nx (pool ! a) = None}"
    "\<And>i. i < length vg \<Longrightarrow> vg' ! i = gen \<or> vg' ! i = vg ! i"
  using assms unfolding walked_def Let_def prod.case by blast+

lemma walkedI:
  assumes "length vg' = length vg" "visited vg gen \<subseteq> visited vg' gen"
    "\<And>s. Some s \<in> set work \<Longrightarrow> s < length vg \<Longrightarrow> s \<in> visited vg' gen"
    "\<And>a b. a \<in> visited vg' gen \<Longrightarrow> a \<notin> visited vg gen \<Longrightarrow> (a, b) \<in> succs nx pool (length vg) \<Longrightarrow>
       b \<in> visited vg' gen"
    "visited vg' gen - visited vg gen \<subseteq> reach nx pool (length vg) {s. Some s \<in> set work}"
    "set lst' = set lst \<union> {a \<in> visited vg' gen - visited vg gen. nx (pool ! a) = None}"
    "\<And>i. i < length vg \<Longrightarrow> vg' ! i = gen \<or> vg' ! i = vg ! i"
  shows "walked nx pool gen work vg lst (vg', lst')"
  using assms unfolding walked_def Let_def prod.case by blast

lemma walk_walked: "walked nx pool gen work vg lst (walk nx pool gen work vg lst)"
proof (induction nx pool gen work vg lst rule: walk.induct)
  case (1 nx pool gen work vg lst)
  show ?case
  proof (cases work)
    case Nil
    then show ?thesis by (subst walk.simps) (auto simp: walked_def Let_def)
  next
    case (Cons w work')
    show ?thesis
    proof (cases w)
      case None
      then have IH: "walked nx pool gen work' vg lst (walk nx pool gen work' vg lst)"
        using 1(1) Cons by blast
      have "walk nx pool gen work vg lst = walk nx pool gen work' vg lst"
        using Cons None by (subst walk.simps) simp
      moreover have "{s. Some s \<in> set work} = {s. Some s \<in> set work'}" using Cons None by auto
      ultimately show ?thesis using IH unfolding walked_def by simp
    next
      case (Some s)
      have W: "{s. Some s \<in> set work} = insert s {s. Some s \<in> set work'}" using Cons Some by auto
      show ?thesis
      proof (cases "s < length vg \<and> vg ! s \<noteq> gen")
        case False
        then have IH: "walked nx pool gen work' vg lst (walk nx pool gen work' vg lst)"
          by (intro 1(4) [OF Cons Some])
        have "walk nx pool gen work vg lst = walk nx pool gen work' vg lst"
          using Cons Some False by (subst walk.simps) auto
        moreover have "s < length vg \<longrightarrow> s \<in> visited vg gen" using False by (auto simp: visited_def)
        moreover have "reach nx pool (length vg) {s. Some s \<in> set work'} \<subseteq>
            reach nx pool (length vg) (insert s {s. Some s \<in> set work'})"
          by (rule reach_mono) auto
        moreover obtain vg' lst' where r: "walk nx pool gen work' vg lst = (vg', lst')" by fastforce
        ultimately show ?thesis using IH unfolding walked_def W r Let_def prod.case by auto
      next
        case True
        let ?n = "length vg" and ?vg = "vg[s := gen]" and ?W = "{t. Some t \<in> set work'}"
        have V: "visited ?vg gen = insert s (visited vg gen)" "s \<notin> visited vg gen"
          using True visited_update [of s vg gen] by (simp_all add: visited_def)
        have other: "?vg ! i = gen \<or> ?vg ! i = vg ! i" if "i < ?n" for i
          using that by (cases "i = s") auto
        have s0: "s \<in> reach nx pool ?n {s}" using True reach_self by blast
        show ?thesis
        proof (cases "nx (pool ! s)")
          case None
          obtain vg' lst' where r: "walk nx pool gen work' ?vg (lst @ [s]) = (vg', lst')" by fastforce
          have eq: "walk nx pool gen work vg lst = (vg', lst')"
            using Cons Some True None r by (subst walk.simps) auto
          note I = walkedD [OF 1(2) [OF Cons Some True None, unfolded r], unfolded V(1) length_list_update]
          have s: "s \<in> visited vg' gen" using I(2) by blast
          have "visited vg' gen - insert s (visited vg gen) \<subseteq> reach nx pool ?n ({s} \<union> ?W)"
            using I(5) reach_mono [of ?W "{s} \<union> ?W" nx pool ?n] by blast
          moreover have "s \<in> reach nx pool ?n ({s} \<union> ?W)"
            using s0 reach_mono [of "{s}" "{s} \<union> ?W" nx pool ?n] by blast
          ultimately have sub: "visited vg' gen - visited vg gen \<subseteq> reach nx pool ?n ({s} \<union> ?W)" by blast
          show ?thesis unfolding eq
          proof (rule walkedI)
            show "length vg' = ?n" by (rule I(1))
            show "visited vg gen \<subseteq> visited vg' gen" using I(2) by blast
            show "t \<in> visited vg' gen" if "Some t \<in> set work" "t < ?n" for t
              using that I(3) [of t] s Cons Some by auto
            show "b \<in> visited vg' gen"
              if "a \<in> visited vg' gen" "a \<notin> visited vg gen" "(a, b) \<in> succs nx pool ?n" for a b
              using that I(4) [of a b] None by (cases "a = s") (auto simp: succs_def)
            show "visited vg' gen - visited vg gen \<subseteq> reach nx pool ?n {t. Some t \<in> set work}"
              using sub unfolding W by simp
            show "set lst' = set lst \<union> {a \<in> visited vg' gen - visited vg gen. nx (pool ! a) = None}"
              using I(6) None s V(2) by auto
            show "vg' ! i = gen \<or> vg' ! i = vg ! i" if "i < ?n" for i
              using I(7) [OF that] other [OF that] by metis
          qed
        next
          case (Some ss)
          obtain vg' lst' where r: "walk nx pool gen (ss @ work') ?vg lst = (vg', lst')" by fastforce
          have eq: "walk nx pool gen work vg lst = (vg', lst')"
            using Cons \<open>w = Some s\<close> True Some r by (subst walk.simps) auto
          note I = walkedD [OF 1(3) [OF Cons \<open>w = Some s\<close> True Some, unfolded r],
              unfolded V(1) length_list_update]
          have s: "s \<in> visited vg' gen" using I(2) by blast
          have "{t. Some t \<in> set (ss @ work')} = {t. Some t \<in> set ss} \<union> ?W" by auto
          then have "visited vg' gen - insert s (visited vg gen) \<subseteq> reach nx pool ?n ({s} \<union> ?W)"
          proof -
            have "reach nx pool ?n {t. Some t \<in> set ss} \<subseteq> reach nx pool ?n {s}"
              using reach_succ [of s ?n nx pool ss] True Some by blast
            with I(5) show ?thesis unfolding \<open>{t. Some t \<in> set (ss @ work')} = _\<close> reach_Un by blast
          qed
          moreover have "s \<in> reach nx pool ?n ({s} \<union> ?W)"
            using s0 reach_mono [of "{s}" "{s} \<union> ?W" nx pool ?n] by blast
          ultimately have sub: "visited vg' gen - visited vg gen \<subseteq> reach nx pool ?n ({s} \<union> ?W)" by blast
          show ?thesis unfolding eq
          proof (rule walkedI)
            show "length vg' = ?n" by (rule I(1))
            show "visited vg gen \<subseteq> visited vg' gen" using I(2) by blast
            show "t \<in> visited vg' gen" if "Some t \<in> set work" "t < ?n" for t
              using that I(3) [of t] s Cons \<open>w = Some s\<close> by auto
            show "b \<in> visited vg' gen"
              if "a \<in> visited vg' gen" "a \<notin> visited vg gen" "(a, b) \<in> succs nx pool ?n" for a b
            proof (cases "a = s")
              case True
              then have "Some b \<in> set (ss @ work')" "b < ?n" using that Some by (auto simp: succs_def)
              then show ?thesis by (rule I(3))
            next
              case False
              then show ?thesis using that by (intro I(4) [of a b]) auto
            qed
            show "visited vg' gen - visited vg gen \<subseteq> reach nx pool ?n {t. Some t \<in> set work}"
              using sub unfolding W by simp
            show "set lst' = set lst \<union> {a \<in> visited vg' gen - visited vg gen. nx (pool ! a) = None}"
            proof -
              have "visited vg' gen - visited vg gen = insert s (visited vg' gen - insert s (visited vg gen))"
                using s V(2) by blast
              then show ?thesis unfolding I(6) using Some by auto
            qed
            show "vg' ! i = gen \<or> vg' ! i = vg ! i" if "i < ?n" for i
              using I(7) [OF that] other [OF that] by metis
          qed
        qed
      qed
    qed
  qed
qed

text \<open>An array and a list that hold exactly what is reachable from the seeds \<open>S\<close>.\<close>

definition collected :: "(nstate \<Rightarrow> nat option list option) \<Rightarrow> pool \<Rightarrow> nat \<Rightarrow> nat set \<Rightarrow> nat list \<times> nat list \<Rightarrow> bool" where
  "collected nx pool gen S = (\<lambda>(vg, lst).
     length vg = length pool \<and> visited vg gen = reach nx pool (length pool) S \<and>
     set lst = {a \<in> reach nx pool (length pool) S. nx (pool ! a) = None})"

lemma collected_empty: "length vg = length pool \<Longrightarrow> gen \<notin> set vg \<Longrightarrow> collected nx pool gen {} (vg, [])"
  by (auto simp: collected_def visited_def reach_def)

lemma collected_walk:
  assumes c: "collected nx pool gen S (vg, lst)"
  shows "collected nx pool gen (S \<union> {t. s = Some t}) (walk nx pool gen [s] vg lst)"
proof -
  obtain vg' lst' where r: "walk nx pool gen [s] vg lst = (vg', lst')" by fastforce
  let ?n = "length pool" and ?T = "S \<union> {t. s = Some t}"
  note w = walk_walked [of nx pool gen "[s]" vg lst, unfolded r walked_def Let_def prod.case]
  have n: "length vg = ?n" and V: "visited vg gen = reach nx pool ?n S"
    and l: "set lst = {a \<in> reach nx pool ?n S. nx (pool ! a) = None}"
    using c by (auto simp: collected_def)
  have "visited vg' gen \<subseteq> reach nx pool ?n ?T"
    using w V by (auto simp: n reach_split eq_commute)
  moreover have "reach nx pool ?n ?T \<subseteq> visited vg' gen"
  proof (rule reach_least)
    show "t \<in> visited vg' gen" if "t \<in> ?T" "t < ?n" for t
      using that w V n reach_self [of t ?n nx pool] reach_mono [of "{t}" S nx pool ?n] by auto
    show "b \<in> visited vg' gen" if "a \<in> visited vg' gen" "(a, b) \<in> succs nx pool ?n" for a b
    proof (cases "a \<in> visited vg gen")
      case True
      then show ?thesis using w V that(2) reach_closed [of a nx pool ?n S b] by auto
    next
      case False
      then show ?thesis using w that n by auto
    qed
  qed
  ultimately have "visited vg' gen = reach nx pool ?n ?T" by auto
  moreover have "set lst' = {a \<in> visited vg' gen. nx (pool ! a) = None}"
    using w l V by auto
  ultimately show ?thesis unfolding r collected_def using w n by auto
qed

lemma walk_old_entries:
  assumes "walk nx pool gen work vg lst = (vg', lst')" "x \<in> set vg'"
  shows "x = gen \<or> x \<in> set vg"
proof -
  note w = walk_walked [of nx pool gen work vg lst, unfolded assms(1) walked_def Let_def prod.case]
  obtain i where i: "i < length vg'" "x = vg' ! i" using assms(2) by (auto simp: in_set_conv_nth)
  then show ?thesis using w by auto
qed

section \<open>Acceptance and the active list\<close>

abbreviation live :: "bool \<Rightarrow> pool \<Rightarrow> nat \<Rightarrow> pos \<Rightarrow> bool" where
  "live icase pool a P \<equiv> a < length pool \<and> accepts icase pool a P"

lemma accepts_step: "cstep icase pool (s, P) (t, Q) \<Longrightarrow> accepts icase pool t Q \<Longrightarrow> accepts icase pool s P"
  unfolding accepts_def by (meson converse_rtranclp_into_rtranclp)

lemma accepts_cases:
  assumes "accepts icase pool s P"
  shows "(s < length pool \<and> ns_kind (pool ! s) = ST_MATCH) \<or>
         (\<exists>t Q. cstep icase pool (s, P) (t, Q) \<and> accepts icase pool t Q)"
proof -
  obtain m Q where m: "(cstep icase pool)\<^sup>*\<^sup>* (s, P) (m, Q)" "m < length pool" "ns_kind (pool ! m) = ST_MATCH"
    using assms by (auto simp: accepts_def)
  from m(1) show ?thesis
  proof (cases rule: converse_rtranclpE)
    case base
    then show ?thesis using m by simp
  next
    case (step y)
    obtain t R where "y = (t, R)" by (metis surj_pair)
    then show ?thesis using step m unfolding accepts_def by blast
  qed
qed

lemma accepts_match: "m < length pool \<Longrightarrow> ns_kind (pool ! m) = ST_MATCH \<Longrightarrow> accepts icase pool m P"
  unfolding accepts_def by blast

lemma accepts_length: "accepts icase pool s P \<Longrightarrow> s < length pool"
  using accepts_cases by (metis (no_types, lifting) cstepE)

text \<open>
  A state accepts exactly when one of the listed states reachable over empty moves does.
\<close>

lemma succs_cstep:
  "(a, b) \<in> succs (eps_at r p) pool (length pool) \<Longrightarrow> cstep icase pool (a, p, r) (b, p, r)"
  by (auto simp: succs_def intro: cstep.follow)

lemma accepts_reach:
  "accepts icase pool s (p, r) \<longleftrightarrow>
     (\<exists>a \<in> reach (eps_at r p) pool (length pool) {s}. eps_at r p (pool ! a) = None \<and> accepts icase pool a (p, r))"
    (is "?L \<longleftrightarrow> (\<exists>a \<in> ?R s. ?N a \<and> _)")
proof
  assume ?L
  then obtain m Q where m: "(cstep icase pool)\<^sup>*\<^sup>* (s, p, r) (m, Q)" "m < length pool" "ns_kind (pool ! m) = ST_MATCH"
    by (auto simp: accepts_def)
  have "\<forall>s. x = (s, p, r) \<longrightarrow> (\<exists>a \<in> ?R s. ?N a \<and> accepts icase pool a (p, r))"
    if "(cstep icase pool)\<^sup>*\<^sup>* x (m, Q)" for x
    using that
  proof (induction rule: converse_rtranclp_induct)
    case base
    then show ?case
      using m(2,3) accepts_match [OF m(2,3)] reach_self [OF m(2), of "eps_at r p" pool]
        eps_at_match [OF m(3), of r p] by blast
  next
    case (step x y)
    show ?case
    proof (intro allI impI)
      fix s assume x: "x = (s, p, r)"
      obtain t P' where y: "y = (t, P')" by (metis surj_pair)
      have s: "s < length pool" using step(1) x by (auto elim: cstepE)
      show "\<exists>a \<in> ?R s. ?N a \<and> accepts icase pool a (p, r)"
      proof (cases "eps_at r p (pool ! s)")
        case None
        have "accepts icase pool s (p, r)" using step(1,2) x m(2,3) unfolding accepts_def
          by (metis converse_rtranclp_into_rtranclp)
        then show ?thesis using None s reach_self by metis
      next
        case (Some ss)
        then have "\<not> consumes (pool ! s) c" for c
          using eats_no_eps [of "pool ! s" c r p] by (auto simp: consumes_eats)
        then have t: "P' = (p, r)" "Some t \<in> set ss"
          using step(1) x y Some by (auto elim!: cstepE)
        then obtain a where a: "a \<in> ?R t" "?N a" "accepts icase pool a (p, r)"
          using step(3) y by auto
        then have "t < length pool" by (auto simp: reach_def)
        then have "(s, t) \<in> succs (eps_at r p) pool (length pool)" using s Some t by (simp add: succs_def)
        then have "a \<in> ?R s" using a(1) s by (auto simp: reach_def intro: converse_rtrancl_into_rtrancl)
        then show ?thesis using a by blast
      qed
    qed
  qed
  then show "\<exists>a \<in> ?R s. ?N a \<and> accepts icase pool a (p, r)" using m(1) by blast
next
  assume "\<exists>a \<in> ?R s. ?N a \<and> accepts icase pool a (p, r)"
  then obtain a where "(s, a) \<in> (succs (eps_at r p) pool (length pool))\<^sup>*" "accepts icase pool a (p, r)"
    by (auto simp: reach_def)
  then show ?L
    by (induction rule: converse_rtrancl_induct) (auto intro: accepts_step succs_cstep)
qed

lemma accepts_reach_set:
  "(\<exists>s \<in> S. accepts icase pool s (p, r)) \<longleftrightarrow>
   (\<exists>a \<in> {a \<in> reach (eps_at r p) pool (length pool) S. eps_at r p (pool ! a) = None}. accepts icase pool a (p, r))"
proof -
  have "reach (eps_at r p) pool (length pool) S = (\<Union>s \<in> S. reach (eps_at r p) pool (length pool) {s})"
    by (auto simp: reach_def)
  moreover have "(\<exists>s \<in> S. accepts icase pool s (p, r)) \<longleftrightarrow>
      (\<exists>s \<in> S. \<exists>a \<in> reach (eps_at r p) pool (length pool) {s}.
         eps_at r p (pool ! a) = None \<and> accepts icase pool a (p, r))"
    by (rule bex_cong [OF refl accepts_reach])
  ultimately show ?thesis by blast
qed

text \<open>A listed state: a match state, or one that must consume the next byte.\<close>

lemma accepts_listed:
  assumes "eps_at r p (pool ! a) = None" "a < length pool"
  shows "accepts icase pool a (p, r) \<longleftrightarrow>
     ns_kind (pool ! a) = ST_MATCH \<or>
     (case r of [] \<Rightarrow> False
      | ch # np \<Rightarrow> consumes (pool ! a) (lit_char icase ch) \<and>
          (\<exists>t. ns_out (pool ! a) = Some t \<and> accepts icase pool t (lit_char icase ch, np)))"
proof
  assume acc: "accepts icase pool a (p, r)"
  show "ns_kind (pool ! a) = ST_MATCH \<or> (case r of [] \<Rightarrow> False
      | ch # np \<Rightarrow> consumes (pool ! a) (lit_char icase ch) \<and>
          (\<exists>t. ns_out (pool ! a) = Some t \<and> accepts icase pool t (lit_char icase ch, np)))"
    using accepts_cases [OF acc] assms by (auto elim!: cstepE)
next
  assume "ns_kind (pool ! a) = ST_MATCH \<or> (case r of [] \<Rightarrow> False
      | ch # np \<Rightarrow> consumes (pool ! a) (lit_char icase ch) \<and>
          (\<exists>t. ns_out (pool ! a) = Some t \<and> accepts icase pool t (lit_char icase ch, np)))"
  then show "accepts icase pool a (p, r)"
    using assms(2) by (auto split: list.splits intro: accepts_match accepts_step cstep.eat)
qed

section \<open>The main loop\<close>

lemma collected_addstate:
  "collected (eps_at cur p) pool gen S st \<Longrightarrow>
     collected (eps_at cur p) pool gen (S \<union> {t. s = Some t}) (addstate pool cur p gen s st)"
  using collected_walk by (auto simp: addstate_def split: prod.split)

lemma addstate_old_entries:
  "addstate pool cur p gen s (vg, lst) = (vg', lst') \<Longrightarrow> x \<in> set vg' \<Longrightarrow> x = gen \<or> x \<in> set vg"
  by (auto simp: addstate_def dest: walk_old_entries)

definition next_seeds :: "pool \<Rightarrow> char \<Rightarrow> nat list \<Rightarrow> nat set" where
  "next_seeds pool c lst = {t. \<exists>i \<in> set lst. consumes (pool ! i) c \<and> ns_out (pool ! i) = Some t}"

lemma advance_collected:
  assumes "length vg = length pool" "gen \<notin> set vg"
  shows "collected (eps_at np c) pool gen (next_seeds pool c lst) (advance pool np c gen lst vg)"
proof -
  have "collected (eps_at np c) pool gen (S \<union> next_seeds pool c lst)
     (foldl (\<lambda>st i. if consumes (pool ! i) c then addstate pool np c gen (ns_out (pool ! i)) st else st) st lst)"
    if "collected (eps_at np c) pool gen S st" for S st
    using that
  proof (induction lst arbitrary: S st)
    case Nil
    then show ?case by (simp add: next_seeds_def)
  next
    case (Cons i lst)
    let ?T = "if consumes (pool ! i) c then {t. ns_out (pool ! i) = Some t} else {}"
    have "collected (eps_at np c) pool gen (S \<union> ?T)
       (if consumes (pool ! i) c then addstate pool np c gen (ns_out (pool ! i)) st else st)"
      using collected_addstate [OF Cons.prems, of "ns_out (pool ! i)"] Cons.prems by auto
    from Cons.IH [OF this] have "collected (eps_at np c) pool gen (S \<union> ?T \<union> next_seeds pool c lst)
     (foldl (\<lambda>st i. if consumes (pool ! i) c then addstate pool np c gen (ns_out (pool ! i)) st else st) st (i # lst))"
      by simp
    moreover have "S \<union> ?T \<union> next_seeds pool c lst = S \<union> next_seeds pool c (i # lst)"
      by (auto simp: next_seeds_def)
    ultimately show ?case by metis
  qed
  from this [OF collected_empty [of vg pool gen "eps_at np c"]] assms show ?thesis
    by (simp add: advance_def)
qed

lemma advance_old_entries:
  assumes "advance pool np c gen lst vg = (vg', lst')" "x \<in> set vg'"
  shows "x = gen \<or> x \<in> set vg"
proof -
  have "x \<in> set (fst (foldl (\<lambda>st i. if consumes (pool ! i) c then addstate pool np c gen (ns_out (pool ! i)) st else st) st lst)) \<Longrightarrow>
    x = gen \<or> x \<in> set (fst st)" for st
  proof (induction lst arbitrary: st)
    case (Cons i lst)
    obtain v l where st: "st = (v, l)" by fastforce
    obtain v' l' where a: "addstate pool np c gen (ns_out (pool ! i)) (v, l) = (v', l')" by fastforce
    show ?case
      using Cons.IH [of "if consumes (pool ! i) c then addstate pool np c gen (ns_out (pool ! i)) st else st"]
        Cons.prems addstate_old_entries [OF a, of x] by (auto simp: st a split: if_splits)
  qed simp
  from this [of "(vg, [])"] assms show ?thesis by (simp add: advance_def)
qed

text \<open>Starting at a later place of the text.\<close>

fun starts_later :: "op_regex \<Rightarrow> string \<Rightarrow> bool" where
  "starts_later re [] = False"
| "starts_later re (ch # np) =
     (let c = lit_char (re_icase re) ch
      in accepts (re_icase re) (re_pool re) (re_start re) (c, np) \<or> starts_later re np)"

definition seed_sound :: "op_regex \<Rightarrow> bool" where
  "seed_sound re \<longleftrightarrow>
     (\<forall>p np. \<not> do_seed re np \<longrightarrow> \<not> accepts (re_icase re) (re_pool re) (re_start re) (p, np))"

definition listed :: "pool \<Rightarrow> pos \<Rightarrow> nat list \<Rightarrow> bool" where
  "listed pool = (\<lambda>(p, r) lst. \<forall>a \<in> set lst. a < length pool \<and> eps_at r p (pool ! a) = None)"

lemma collected_listed: "collected (eps_at r p) pool gen S (vg, lst) \<Longrightarrow> listed pool (p, r) lst"
proof -
  assume c: "collected (eps_at r p) pool gen S (vg, lst)"
  have "a < length pool" if "a \<in> reach (eps_at r p) pool (length pool) S" for a
    using that by (auto simp: reach_def succs_def elim: rtranclE)
  with c show ?thesis by (auto simp: collected_def listed_def)
qed

lemma collected_accepts:
  "collected (eps_at r p) pool gen S (vg, lst) \<Longrightarrow>
     (\<exists>a \<in> set lst. accepts icase pool a (p, r)) \<longleftrightarrow> (\<exists>s \<in> S. accepts icase pool s (p, r))"
  unfolding accepts_reach_set [of S icase pool p r] collected_def by auto

lemma has_match_accepts:
  assumes "listed pool (p, r) lst" "has_match pool lst"
  shows "\<exists>a \<in> set lst. accepts icase pool a (p, r)"
proof -
  obtain i where "i \<in> set lst" "ns_kind (pool ! i) = ST_MATCH"
    using assms(2) by (auto simp: has_match_def list_ex_iff)
  with assms(1) show ?thesis by (auto simp: listed_def intro: accepts_match)
qed

lemma list_accepts_step:
  assumes "listed pool (p, ch # np) lst" "\<not> has_match pool lst"
  shows "(\<exists>a \<in> set lst. accepts icase pool a (p, ch # np)) \<longleftrightarrow>
         (\<exists>t \<in> next_seeds pool (lit_char icase ch) lst. accepts icase pool t (lit_char icase ch, np))"
proof -
  have "accepts icase pool a (p, ch # np) \<longleftrightarrow>
      consumes (pool ! a) (lit_char icase ch) \<and>
      (\<exists>t. ns_out (pool ! a) = Some t \<and> accepts icase pool t (lit_char icase ch, np))"
    if "a \<in> set lst" for a
    using assms that accepts_listed [of "ch # np" p pool a icase]
    by (auto simp: listed_def has_match_def list_ex_iff)
  then show ?thesis by (auto simp: next_seeds_def)
qed

lemma list_accepts_end:
  assumes "listed pool (p, []) lst"
  shows "(\<exists>a \<in> set lst. accepts icase pool a (p, [])) \<longleftrightarrow> has_match pool lst"
  using assms accepts_listed [of "[]" p pool _ icase]
  by (auto simp: listed_def has_match_def list_ex_iff)

definition fresh :: "pool \<Rightarrow> nat list \<Rightarrow> nat \<Rightarrow> bool" where
  "fresh pool vg g \<longleftrightarrow> length vg = length pool \<and> (\<forall>x \<in> set vg. x \<le> g)"

text \<open>One round of the loop: the next list, with the start state re-seeded or not.\<close>

lemma seeded_accepts:
  assumes "fresh (re_pool re) vg' g'" "seed_sound re"
    "advance (re_pool re) np c (g' + 1) lst vg' = (v1, l1)"
    "(if \<not> re_anchored re \<and> do_seed re np \<and> v1 ! re_start re \<noteq> g' + 1
      then addstate (re_pool re) np c (g' + 1) (Some (re_start re)) (v1, l1) else (v1, l1)) = (v2, l2)"
  shows "fresh (re_pool re) v2 (g' + 1) \<and> listed (re_pool re) (c, np) l2 \<and>
    ((\<exists>a \<in> set l2. accepts (re_icase re) (re_pool re) a (c, np)) \<longleftrightarrow>
     (\<exists>t \<in> next_seeds (re_pool re) c lst. accepts (re_icase re) (re_pool re) t (c, np)) \<or>
     \<not> re_anchored re \<and> accepts (re_icase re) (re_pool re) (re_start re) (c, np))"
proof -
  let ?pool = "re_pool re" and ?S = "next_seeds (re_pool re) c lst" and ?st = "re_start re"
  have "g' + 1 \<notin> set vg'" using assms(1) by (auto simp: fresh_def)
  then have c1: "collected (eps_at np c) ?pool (g' + 1) ?S (v1, l1)"
    using advance_collected [of vg' ?pool "g' + 1" np c lst] assms(1,3) by (simp add: fresh_def)
  have old1: "x \<le> g' + 1" if "x \<in> set v1" for x
    using advance_old_entries [OF assms(3) that] assms(1) by (auto simp: fresh_def)
  show ?thesis
  proof (cases "\<not> re_anchored re \<and> do_seed re np \<and> v1 ! ?st \<noteq> g' + 1")
    case True
    then have a: "addstate ?pool np c (g' + 1) (Some ?st) (v1, l1) = (v2, l2)" using assms(4) by simp
    have c2: "collected (eps_at np c) ?pool (g' + 1) (?S \<union> {?st}) (v2, l2)"
      using collected_addstate [OF c1, of "Some ?st"] a by simp
    moreover have "x \<le> g' + 1" if "x \<in> set v2" for x
      using addstate_old_entries [OF a that] old1 by auto
    ultimately show ?thesis
      using True collected_listed [OF c2] collected_accepts [OF c2, of "re_icase re"]
      by (auto simp: fresh_def collected_def)
  next
    case False
    then have e: "v2 = v1" "l2 = l1" using assms(4) by (auto split: if_splits)
    have "(\<exists>t \<in> ?S. accepts (re_icase re) ?pool t (c, np))"
      if acc: "\<not> re_anchored re" "accepts (re_icase re) ?pool ?st (c, np)"
    proof -
      have "do_seed re np" using acc assms(2) by (auto simp: seed_sound_def)
      with False acc have "v1 ! ?st = g' + 1" by simp
      moreover have "?st < length ?pool" using accepts_length acc(2) by blast
      ultimately have "?st \<in> reach (eps_at np c) ?pool (length ?pool) ?S"
        using c1 by (auto simp: collected_def visited_def)
      then have "reach (eps_at np c) ?pool (length ?pool) {?st} \<subseteq> reach (eps_at np c) ?pool (length ?pool) ?S"
        by (intro reach_least) (auto intro: reach_closed)
      then show ?thesis
        using accepts_reach [of "re_icase re" ?pool ?st c np] acc(2) accepts_reach_set [of ?S "re_icase re" ?pool c np]
        by blast
    qed
    then show ?thesis
      using c1 collected_listed [OF c1] collected_accepts [OF c1, of "re_icase re"] old1 unfolding e
      by (auto simp: fresh_def collected_def)
  qed
qed

lemma match_loop_accepts:
  "listed (re_pool re) (p, r) lst \<Longrightarrow> fresh (re_pool re) vg g \<Longrightarrow> fresh (re_pool re) vg' g' \<Longrightarrow>
   seed_sound re \<Longrightarrow>
     match_loop re r lst vg g vg' g' \<longleftrightarrow>
     (\<exists>a \<in> set lst. accepts (re_icase re) (re_pool re) a (p, r)) \<or> \<not> re_anchored re \<and> starts_later re r"
proof (induction r arbitrary: p lst vg g vg' g')
  case Nil
  then show ?case by (simp add: list_accepts_end)
next
  case (Cons ch np)
  show ?case
  proof (cases "has_match (re_pool re) lst")
    case True
    then show ?thesis using has_match_accepts [OF Cons.prems(1) True] by simp
  next
    case False
    let ?c = "lit_char (re_icase re) ch"
    obtain v1 l1 where 1: "advance (re_pool re) np ?c (g' + 1) lst vg' = (v1, l1)" by fastforce
    obtain v2 l2 where 2: "(if \<not> re_anchored re \<and> do_seed re np \<and> v1 ! re_start re \<noteq> g' + 1
      then addstate (re_pool re) np ?c (g' + 1) (Some (re_start re)) (v1, l1) else (v1, l1)) = (v2, l2)"
      by fastforce
    note s = seeded_accepts [OF Cons.prems(3,4) 1 2]
    have "match_loop re (ch # np) lst vg g vg' g' = match_loop re np l2 v2 (g' + 1) vg g"
      unfolding match_loop.simps Let_def 1 prod.case 2 using False by simp
    also have "\<dots> \<longleftrightarrow> (\<exists>a \<in> set l2. accepts (re_icase re) (re_pool re) a (?c, np)) \<or>
        \<not> re_anchored re \<and> starts_later re np"
      using s Cons.prems by (intro Cons.IH) auto
    finally show ?thesis
      using s list_accepts_step [OF Cons.prems(1) False, of "re_icase re"] by (auto simp: Let_def)
  qed
qed

lemma op_regex_match_accepts:
  assumes "seed_sound re"
  shows "op_regex_match re txt \<longleftrightarrow>
     accepts (re_icase re) (re_pool re) (re_start re) (NUL, txt) \<or> \<not> re_anchored re \<and> starts_later re txt"
proof -
  let ?pool = "re_pool re" and ?v = "replicate (length (re_pool re)) (0 :: nat)"
  obtain vg lst where a: "addstate ?pool txt NUL 1 (Some (re_start re)) (?v, []) = (vg, lst)"
    by fastforce
  have "collected (eps_at txt NUL) ?pool 1 {} (?v, [])" by (rule collected_empty) auto
  then have c: "collected (eps_at txt NUL) ?pool 1 {re_start re} (vg, lst)"
    using collected_addstate [of "txt" NUL ?pool 1 "{}" "(?v, [])" "Some (re_start re)"] a by simp
  have "fresh ?pool vg 1"
    using c addstate_old_entries [OF a] by (fastforce simp: fresh_def collected_def)
  moreover have "fresh ?pool ?v 2" by (auto simp: fresh_def)
  ultimately have "match_loop re txt lst vg 1 ?v 2 \<longleftrightarrow>
      (\<exists>x \<in> set lst. accepts (re_icase re) ?pool x (NUL, txt)) \<or> \<not> re_anchored re \<and> starts_later re txt"
    by (intro match_loop_accepts collected_listed [OF c] assms)
  then show ?thesis
    using a collected_accepts [OF c, of "re_icase re"] by (simp add: op_regex_match_def)
qed

section \<open>The first-character bitmap\<close>

lemma cls_set_case_bits:
  "bit cls i \<Longrightarrow> bit (cls_set_case icase cls c) i" "c < 256 \<Longrightarrow> bit (cls_set_case icase cls c) c"
  by (auto simp: cls_set_case_def cls_set_def Let_def bit_simps dest: bit_imp_le_length)

text \<open>What the finished metadata says of every kind of state the loop has seen.\<close>

definition metadata_covers :: "op_regex \<Rightarrow> nkind \<Rightarrow> bool" where
  "metadata_covers re k \<longleftrightarrow>
     (case k of ST_MATCH \<Rightarrow> re_can_empty re | ST_ANY \<Rightarrow> re_first_any re
      | ST_CHAR c \<Rightarrow> bit (re_first_chars re) (uc c)
      | ST_CLASS cls \<Rightarrow> (\<forall>i. bit cls i \<longrightarrow> bit (re_first_chars re) i) | _ \<Rightarrow> True)"

lemma metadata_loop_keeps:
  "metadata_covers re k \<Longrightarrow> re_first_any (metadata_loop ks re) \<or> metadata_covers (metadata_loop ks re) k"
  by (induction ks re rule: metadata_loop.induct)
     (auto simp: metadata_covers_def cls_set_case_bits flag_bits split: nkind.splits)

lemma metadata_loop_covers:
  "k \<in> set ks \<Longrightarrow> re_first_any (metadata_loop ks re) \<or> metadata_covers (metadata_loop ks re) k"
proof (induction ks re rule: metadata_loop.induct)
  case (2 ks re)
  show ?case
  proof (cases "k \<in> set ks")
    case False
    then have "metadata_covers (re\<lparr>re_can_empty := True\<rparr>) k" using 2 by (simp add: metadata_covers_def)
    from metadata_loop_keeps [OF this] show ?thesis by simp
  qed (use 2 in simp)
next
  case (4 c ks re)
  let ?re = "re\<lparr>re_first_chars := cls_set_case (re_icase re) (re_first_chars re) (uc c)\<rparr>"
  show ?case
  proof (cases "k \<in> set ks")
    case False
    then have "metadata_covers ?re k" using 4 by (simp add: metadata_covers_def cls_set_case_bits)
    from metadata_loop_keeps [OF this] show ?thesis by simp
  qed (use 4 in simp)
next
  case (5 cls ks re)
  let ?re = "re\<lparr>re_first_chars := re_first_chars re OR cls\<rparr>"
  show ?case
  proof (cases "k \<in> set ks")
    case False
    then have "metadata_covers ?re k" using 5 by (simp add: metadata_covers_def flag_bits)
    from metadata_loop_keeps [OF this] show ?thesis by simp
  qed (use 5 in simp)
qed (auto simp: metadata_covers_def dest: metadata_loop_keeps)

lemma metadata_loop_keeps_nfa:
  "re_pool (metadata_loop ks re) = re_pool re \<and> re_start (metadata_loop ks re) = re_start re \<and>
   re_icase (metadata_loop ks re) = re_icase re \<and> re_anchored (metadata_loop ks re) = re_anchored re"
  by (induction ks re rule: metadata_loop.induct) auto

lemma compute_metadata_nfa [simp]:
  "re_pool (compute_metadata re) = re_pool re" "re_start (compute_metadata re) = re_start re"
  "re_icase (compute_metadata re) = re_icase re" "re_anchored (compute_metadata re) = re_anchored re"
  by (simp_all add: compute_metadata_def metadata_loop_keeps_nfa)

lemma collect_first_states_set:
  "set (collect_first_states pool s) = {a \<in> reach eps_any pool (length pool) {s}. eps_any (pool ! a) = None}"
proof -
  have "collected eps_any pool 1 {} (replicate (length pool) 0, [])" by (rule collected_empty) auto
  from collected_walk [OF this, of "Some s"]
  have "collected eps_any pool 1 {s} (walk eps_any pool 1 [Some s] (replicate (length pool) 0) [])" by simp
  then show ?thesis unfolding collect_first_states_def collected_def by (auto split: prod.splits)
qed

lemma eps_at_any: "eps_at r p s = Some ss \<Longrightarrow> \<exists>ss'. eps_any s = Some ss' \<and> set ss \<subseteq> set ss'"
  by (auto simp: eps_at_def eps_any_def split: nkind.splits if_splits)

lemma eps_at_any_None: "eps_at r p s = None \<longleftrightarrow> eps_any s = None"
  by (auto simp: eps_at_def eps_any_def split: nkind.splits)

lemma reach_any: "reach (eps_at r p) pool n S \<subseteq> reach eps_any pool n S"
proof -
  have "succs (eps_at r p) pool n \<subseteq> succs eps_any pool n"
    using eps_at_any by (fastforce simp: succs_def)
  then have "(succs (eps_at r p) pool n)\<^sup>* \<subseteq> (succs eps_any pool n)\<^sup>*" by (rule rtrancl_mono)
  then show ?thesis by (auto simp: reach_def)
qed

lemma compute_metadata_sound: "seed_sound (compute_metadata re)"
  unfolding seed_sound_def
proof (intro allI impI notI)
  fix p np
  let ?re = "compute_metadata re" and ?pool = "re_pool re"
  let ?ks = "map (\<lambda>i. ns_kind (?pool ! i)) (collect_first_states ?pool (re_start re))"
  assume "\<not> do_seed ?re np"
  then obtain ch r where np: "np = ch # r" and f: "\<not> re_first_any ?re" "\<not> re_can_empty ?re"
    "\<not> cls_tst (re_first_chars ?re) (uc (lit_char (re_icase re) ch))"
    by (cases np) (auto simp: do_seed_def split: if_splits)
  assume "accepts (re_icase ?re) (re_pool ?re) (re_start ?re) (p, np)"
  then obtain a where a: "a \<in> reach (eps_at np p) ?pool (length ?pool) {re_start re}"
    "eps_at np p (?pool ! a) = None" "accepts (re_icase re) ?pool a (p, np)"
    using accepts_reach [of "re_icase re" ?pool "re_start re" p np] by auto
  then have "a \<in> set (collect_first_states ?pool (re_start re))"
    using reach_any [of np p ?pool "length ?pool" "{re_start re}"]
    by (auto simp: collect_first_states_set eps_at_any_None)
  then have "ns_kind (?pool ! a) \<in> set ?ks" by auto
  from metadata_loop_covers [OF this] f(1) have c: "metadata_covers ?re (ns_kind (?pool ! a))"
    unfolding compute_metadata_def by blast
  have "ns_kind (?pool ! a) = ST_MATCH \<or> consumes (?pool ! a) (lit_char (re_icase re) ch)"
    using accepts_listed [OF a(2) accepts_length [OF a(3)], of "re_icase re"] a(3) np by auto
  then show False
    using c f by (auto simp: metadata_covers_def consumes_def cls_tst_def split: nkind.splits)
qed

section \<open>Compiled expressions match what they mean\<close>

text \<open>The regular expression as \<open>op_regex_compile\<close> leaves it, from the postfix form of \<open>r\<close>.\<close>

definition starts_match :: "bool \<Rightarrow> regex \<Rightarrow> bool \<Rightarrow> string \<Rightarrow> bool" where
  "starts_match icase r anchored txt \<longleftrightarrow>
     (\<exists>pre suf. txt = pre @ suf \<and> (anchored \<longrightarrow> pre = []) \<and>
        (\<exists>Q. rmatch icase r (if pre = [] then NUL else lit_char icase (last pre), suf) Q))"

lemma starts_match_alt:
  "starts_match icase r anchored txt \<longleftrightarrow>
     (\<exists>Q. rmatch icase r (NUL, txt) Q) \<or>
     \<not> anchored \<and> (\<exists>pre suf. txt = pre @ suf \<and> pre \<noteq> [] \<and>
        (\<exists>Q. rmatch icase r (lit_char icase (last pre), suf) Q))" (is "?L \<longleftrightarrow> ?A \<or> ?B")
proof
  assume ?L
  then obtain pre suf where p: "txt = pre @ suf" "anchored \<longrightarrow> pre = []"
    "\<exists>Q. rmatch icase r (if pre = [] then NUL else lit_char icase (last pre), suf) Q"
    unfolding starts_match_def by blast
  show "?A \<or> ?B"
  proof (cases "pre = []")
    case True
    then show ?thesis using p by simp
  next
    case False
    then have ?B using p by (intro conjI exI [of _ pre] exI [of _ suf]) auto
    then show ?thesis ..
  qed
next
  assume "?A \<or> ?B"
  then show ?L
  proof
    assume ?A
    then show ?L unfolding starts_match_def by (intro exI [of _ "[]"] exI [of _ "txt"]) simp
  next
    assume ?B
    then obtain pre suf where "txt = pre @ suf" "pre \<noteq> []" "\<not> anchored"
      "\<exists>Q. rmatch icase r (lit_char icase (last pre), suf) Q" by blast
    then show ?L unfolding starts_match_def by (intro exI [of _ pre] exI [of _ suf]) simp
  qed
qed

lemma starts_later_iff:
  assumes "\<And>P. accepts (re_icase re) (re_pool re) (re_start re) P \<longleftrightarrow> (\<exists>Q. rmatch (re_icase re) r P Q)"
  shows "starts_later re txt \<longleftrightarrow>
     (\<exists>pre suf. txt = pre @ suf \<and> pre \<noteq> [] \<and>
        (\<exists>Q. rmatch (re_icase re) r (lit_char (re_icase re) (last pre), suf) Q))"
proof (induction "txt")
  case (Cons ch np)
  let ?M = "\<lambda>pre suf. \<exists>Q. rmatch (re_icase re) r (lit_char (re_icase re) (last pre), suf) Q"
  have "(\<exists>pre suf. ch # np = pre @ suf \<and> pre \<noteq> [] \<and> ?M pre suf) \<longleftrightarrow>
      ?M [ch] np \<or> (\<exists>pre suf. np = pre @ suf \<and> pre \<noteq> [] \<and> ?M pre suf)" (is "?L \<longleftrightarrow> ?R")
  proof
    assume ?L
    then obtain pre suf where p: "np = pre @ suf" "?M (ch # pre) suf"
      by (metis append_eq_Cons_conv)
    show ?R
    proof (cases "pre = []")
      case True
      then show ?thesis using p by simp
    next
      case False
      then have "?M pre suf" using p(2) by simp
      then show ?thesis using p(1) False by blast
    qed
  next
    assume ?R
    then show ?L
    proof
      assume "?M [ch] np"
      then show ?L by (intro exI [of _ "[ch]"] exI [of _ np]) simp
    next
      assume "\<exists>pre suf. np = pre @ suf \<and> pre \<noteq> [] \<and> ?M pre suf"
      then obtain pre suf where "np = pre @ suf" "pre \<noteq> []" "?M pre suf" by blast
      then show ?L by (intro exI [of _ "ch # pre"] exI [of _ suf]) simp
    qed
  qed
  also have "\<dots> \<longleftrightarrow> ?M [ch] np \<or> starts_later re np" using Cons by simp
  finally show ?case using assms by (auto simp: Let_def)
qed simp

lemma op_regex_compile_match:
  assumes "take 4 pat \<noteq> ''(?i)''" "tokenise icase (\<not> nl) pat tk_init = Some toks"
    "shunt (cat_inject toks) [] [] = Some (postfix r)" "wf_regex r" "frag_depth r \<le> 512"
  shows "\<exists>re. op_regex_compile pat icase nl = Some re \<and>
           (\<forall>txt. op_regex_match re txt \<longleftrightarrow> starts_match icase r (c0 pat = CHR ''^'') txt)"
proof -
  obtain pool s ms where b: "build_nfa (postfix r) = Some (pool, s)" "ms < length pool"
    "ns_kind (pool ! ms) = ST_MATCH" "wired pool r s ms"
    using build_nfa_wired [OF assms(4,5)] by blast
  define re where "re = compute_metadata \<lparr>re_pool = pool, re_start = s, re_icase = icase,
      re_anchored = (c0 pat = CHR ''^''), re_can_empty = False, re_first_any = False, re_first_chars = 0\<rparr>"
  have "op_regex_compile pat icase nl = Some re"
    using assms b(1) by (simp add: op_regex_compile_def re_def)
  moreover have f: "re_pool re = pool" "re_start re = s" "re_icase re = icase"
    "re_anchored re = (c0 pat = CHR ''^'')" by (simp_all add: re_def)
  have acc: "accepts (re_icase re) (re_pool re) (re_start re) P \<longleftrightarrow> (\<exists>Q. rmatch (re_icase re) r P Q)" for P
    using wired_accepts [OF b(4,2,3)] f by simp
  have "op_regex_match re txt \<longleftrightarrow> starts_match icase r (c0 pat = CHR ''^'') txt" for "txt"
  proof -
    have "seed_sound re" unfolding re_def by (rule compute_metadata_sound)
    then have "op_regex_match re txt \<longleftrightarrow>
        (\<exists>Q. rmatch icase r (NUL, txt) Q) \<or> \<not> re_anchored re \<and> starts_later re txt"
      using op_regex_match_accepts acc f by simp
    then show ?thesis unfolding starts_later_iff [OF acc] starts_match_alt f .
  qed
  ultimately show ?thesis by blast
qed

text \<open>
  \<open>op_regex_compile\<close> takes a leading \<open>^\<close> as an anchor of the whole expression, so the second
  branch of \<open>^a|b\<close> is tried at the beginning of the text only, where the expression itself
  matches any \<open>b\<close>.
\<close>

theorem regex_anchor_alternative:
  "\<exists>re. op_regex_compile ''^a|b'' False False = Some re \<and> \<not> op_regex_match re ''xb'' \<and>
     starts_match False (Alt (Cat (Atm TOK_BOL) (Atm (TOK_LIT (CHR ''a'')))) (Atm (TOK_LIT (CHR ''b'')))) False ''xb''"
proof -
  let ?r = "Alt (Cat (Atm TOK_BOL) (Atm (TOK_LIT (CHR ''a'')))) (Atm (TOK_LIT (CHR ''b'')))"
  let ?toks = "[TOK_BOL, TOK_LIT (CHR ''a''), TOK_PIPE, TOK_LIT (CHR ''b'')]"
  have 1: "tokenise False (\<not> False) ''^a|b'' tk_init = Some ?toks" by code_simp
  have 2: "shunt (cat_inject ?toks) [] [] = Some (postfix ?r)" by code_simp
  have "take 4 ''^a|b'' \<noteq> ''(?i)''" "wf_regex ?r" "frag_depth ?r \<le> 512" by simp_all
  from op_regex_compile_match [OF this(1) 1 2 this(2,3)]
  obtain re where re: "op_regex_compile ''^a|b'' False False = Some re"
    "\<And>txt. op_regex_match re txt \<longleftrightarrow> starts_match False ?r True txt" by auto
  have "\<not> starts_match False ?r True ''xb''"
    by (auto simp: starts_match_def atom_match_def zero_width_def eats_def lit_char_def)
  moreover have "starts_match False ?r False ''xb''"
    unfolding starts_match_def
    by (intro exI [of _ "''x''"] exI [of _ "''b''"])
       (auto simp: atom_match_def zero_width_def eats_def lit_char_def)
  ultimately show ?thesis using re by blast
qed

end
