(* ===== verification/InetPton.thy ===== *)
theory InetPton
  imports CStr Rfc1459
begin

text \<open>
  \<open>op_inet_pton\<close> of \<open>src/libop/src/commio.c\<close>: the textual forms of IPv4 and IPv6 addresses.
  The result is the list of the address bytes, \<open>None\<close> where the C function returns 0.
\<close>

section \<open>IPv4\<close>

text \<open>\<open>tmp\<close> holds the octets begun so far, the last one being \<open>*tp\<close>.\<close>

fun pton4_loop :: "string \<Rightarrow> nat list \<Rightarrow> bool \<Rightarrow> nat \<Rightarrow> nat list option" where
  "pton4_loop [] tmp saw_digit octets = (if octets < 4 then None else Some tmp)"
| "pton4_loop (ch # src) tmp saw_digit octets =
     (if isdigit ch then
        (let new = last tmp * 10 + (uc ch - 48) in
         if 255 < new then None
         else
           (let tmp = butlast tmp @ [new] in
            if \<not> saw_digit then
              (if 4 < octets + 1 then None else pton4_loop src tmp True (octets + 1))
            else pton4_loop src tmp saw_digit octets))
      else if ch = CHR ''.'' \<and> saw_digit then
        (if octets = 4 then None else pton4_loop src (tmp @ [0]) False octets)
      else None)"

definition inet_pton4 :: "string \<Rightarrow> uchar list option" where
  "inet_pton4 src = map_option (map of_nat) (pton4_loop src [0] False 0)"

section \<open>IPv6\<close>

text \<open>\<open>strchr(xdigits, tolower(ch))\<close>\<close>

definition xdigit_val :: "char \<Rightarrow> nat option" where
  "xdigit_val ch =
     (let c = tolower ch in
      if isdigit c then Some (uc c - 48)
      else if CHR ''a'' \<le> c \<and> c \<le> CHR ''f'' then Some (uc c - 87) else None)"

definition put16 :: "nat \<Rightarrow> uchar list \<Rightarrow> uchar list" where
  "put16 val tp = tp @ [of_nat (val div 256 mod 256), of_nat (val mod 256)]"

text \<open>
  The main loop: the bytes written, the offset of the \<open>::\<close>, the pending group and the text of the
  current token.  The result is the state in which the loop was left.
\<close>

fun pton6_loop :: "string \<Rightarrow> uchar list \<Rightarrow> nat option \<Rightarrow> nat \<Rightarrow> bool \<Rightarrow> string \<Rightarrow>
    (uchar list \<times> nat option \<times> nat \<times> bool) option" where
  "pton6_loop [] tp colonp val saw curtok = Some (tp, colonp, val, saw)"
| "pton6_loop (ch # src) tp colonp val saw curtok =
     (case xdigit_val ch of
        Some d \<Rightarrow>
          (let val = val * 16 + d in if 0xFFFF < val then None else pton6_loop src tp colonp val True curtok)
      | None \<Rightarrow>
          if ch = CHR '':'' then
            (if \<not> saw then
               (if colonp \<noteq> None then None else pton6_loop src tp (Some (length tp)) val saw src)
             else if src = [] then None
             else if 16 < length tp + 2 then None
             else pton6_loop src (put16 val tp) colonp 0 False src)
          else if src \<noteq> [] \<and> ch = CHR ''.'' then
            (if length tp + 4 \<le> 16 then
               (case inet_pton4 curtok of
                  Some v4 \<Rightarrow> Some (tp @ v4, colonp, val, False)
                | None \<Rightarrow> None)
             else None)
          else pton6_loop src tp colonp val saw curtok)"

text \<open>After the loop: the last group, and the shift of everything behind the \<open>::\<close>.\<close>

definition pton6_finish :: "uchar list \<times> nat option \<times> nat \<times> bool \<Rightarrow> uchar list option" where
  "pton6_finish = (\<lambda>(tp, colonp, val, saw).
     if saw \<and> 16 < length tp + 2 then None
     else
       (let tp = (if saw then put16 val tp else tp) in
        case colonp of
          Some k \<Rightarrow>
            if length tp = 16 then None
            else Some (take k tp @ replicate (16 - length tp) 0 @ drop k tp)
        | None \<Rightarrow> if length tp \<noteq> 16 then None else Some tp))"

definition inet_pton6 :: "string \<Rightarrow> uchar list option" where
  "inet_pton6 src =
     (let start = (if c0 src = CHR '':'' then (if c0 (tl src) = CHR '':'' then Some (tl src) else None)
                   else Some src)
      in case start of
           None \<Rightarrow> None
         | Some src \<Rightarrow>
             (case pton6_loop src [] None 0 False src of
                None \<Rightarrow> None | Some st \<Rightarrow> pton6_finish st))"

text \<open>\<open>HOSTIPLEN\<close>, the size of the buffer for an IPv4 address written as IPv6.\<close>

definition HOSTIPLEN :: nat where "HOSTIPLEN = 53"

definition op_inet_pton :: "bool \<Rightarrow> string \<Rightarrow> uchar list option" where
  "op_inet_pton v6 src =
     (if \<not> v6 then inet_pton4 src
      else if inet_pton4 src \<noteq> None then inet_pton6 (take (HOSTIPLEN - 1) (''::ffff:'' @ src))
      else inet_pton6 src)"

end
