(* ===== verification/Match.thy ===== *)
theory Match
  imports RegexSim StrUtil InetPton
begin

text \<open>
  \<open>src/src/match.c\<close>: wildcard, hostmask, CIDR and crontab matching.  The wildcard functions
  translate the mask to an extended regular expression and run the engine of \<open>regex.c\<close>.
\<close>

section \<open>Wildcards\<close>

definition casecharcmp :: "char \<Rightarrow> char \<Rightarrow> int" where
  "casecharcmp a b = int (uc (rfc_toupper a)) - int (uc (rfc_toupper b))"

definition charcmp :: "char \<Rightarrow> char \<Rightarrow> int" where
  "charcmp a b = int (uc a) - int (uc b)"

definition regex_meta :: string where
  "regex_meta = CHR 0x5C # ''.^$|{}[]()+-?*''"

definition is_meta :: "char \<Rightarrow> bool" where
  "is_meta c \<longleftrightarrow> strchr regex_meta c \<noteq> None"

text \<open>
  The loop of \<open>irc_to_ere\<close>: \<open>lim\<close> is the offset of \<open>end\<close> in the output buffer and \<open>out\<close> what
  has been written.
\<close>

function irc_to_ere_loop :: "bool \<Rightarrow> nat \<Rightarrow> string \<Rightarrow> string \<Rightarrow> string" where
  "irc_to_ere_loop per lim m out =
     (if m = [] \<or> lim \<le> length out then out
      else let c = hd m; r = tl m in
        if per \<and> c = CHR 0x5C then
          (if r = [] then out
           else if is_meta (hd r) then
             (if lim \<le> length out + 1 then out
              else irc_to_ere_loop per lim (tl r) (out @ [CHR 0x5C, hd r]))
           else irc_to_ere_loop per lim (tl r) (out @ [hd r]))
        else if c = CHR ''*'' then
          (if lim < length out + 2 then out
           else irc_to_ere_loop per lim (dropWhile (\<lambda>x. x = CHR ''*'') m) (out @ ''.*''))
        else if c = CHR ''?'' then irc_to_ere_loop per lim r (out @ ''.'')
        else if per \<and> c = CHR ''%'' then
          (if lim < length out + 5 then out
           else irc_to_ere_loop per lim (dropWhile (\<lambda>x. x = CHR ''%'') m) (out @ ''[^ ]*''))
        else if per \<and> c = CHR 0x7E then
          (if lim < length out + 4 then out
           else irc_to_ere_loop per lim (dropWhile (\<lambda>x. x = CHR 0x7E \<or> x = CHR '' '') m) (out @ ''[ ]+''))
        else if is_meta c then
          (if lim \<le> length out + 1 then out
           else irc_to_ere_loop per lim r (out @ [CHR 0x5C, c]))
        else irc_to_ere_loop per lim r (out @ [c]))"
  by auto
termination
proof (relation "measure (\<lambda>(_, _, m, _). length m)", goal_cases)
  case 1
  then show ?case by simp
qed (auto simp: neq_Nil_conv less_Suc_eq_le dropWhile_length)

declare irc_to_ere_loop.simps [simp del]

definition irc_to_ere :: "string \<Rightarrow> nat \<Rightarrow> bool \<Rightarrow> string option" where
  "irc_to_ere m outsz per =
     (if outsz < 4 then None else Some (irc_to_ere_loop per (outsz - 2) m ''^'' @ ''$''))"

definition ere_match :: "bool \<Rightarrow> string \<Rightarrow> string \<Rightarrow> int" where
  "ere_match per m n =
     (case irc_to_ere m 1024 per of
        None \<Rightarrow> 0
      | Some ere \<Rightarrow>
          (case op_regex_compile ere True False of
             None \<Rightarrow> 0
           | Some re \<Rightarrow> if op_regex_match re n then 1 else 0))"

definition wild_match :: "string \<Rightarrow> string \<Rightarrow> int" where
  "wild_match m n = (if m = [] \<or> n = [] then 0 else ere_match False m n)"

definition wild_match_per :: "string \<Rightarrow> string \<Rightarrow> int" where
  "wild_match_per m n = (if n = [] then 0 else ere_match True m n)"

section \<open>Addresses\<close>

definition UHOSTLEN :: nat where "UHOSTLEN = 291 + 32 + 1"

text \<open>The copy loops: the buffer and the offset of the last \<open>@\<close> in it.\<close>

definition upper_copy :: "string \<Rightarrow> string \<times> nat option" where
  "upper_copy m =
     (let t = take (UHOSTLEN - 1) m in (map rfc_toupper t, strrchr t (CHR ''@'')))"

text \<open>\<open>addr\<close> and \<open>dest\<close> are the bytes of two addresses.\<close>

definition comp_with_mask :: "uchar list \<Rightarrow> uchar list \<Rightarrow> nat \<Rightarrow> bool" where
  "comp_with_mask addr dest bits =
     (if take (bits div 8) addr \<noteq> take (bits div 8) dest then False
      else if bits mod 8 = 0 then True
      else let n = bits div 8;
               m = (ucast (push_bit (8 - bits mod 8) (0xFF :: int32)) :: uchar)
           in (addr ! n) AND m = (dest ! n) AND m)"

definition cidr_match :: "string \<Rightarrow> string \<Rightarrow> int \<Rightarrow> int" where
  "cidr_match m n count =
     (let v6 = (strchr m (CHR '':'') \<noteq> None \<or> strchr n (CHR '':'') \<noteq> None);
          maxbits = (if v6 then 128 else 32)
      in if maxbits < count then 0
         else case (op_inet_pton v6 m, op_inet_pton v6 n) of
                (Some block, Some addr) \<Rightarrow>
                  if count < 1 then 1
                  else if comp_with_mask addr block (nat count) then count else 0
              | _ \<Rightarrow> 0)"

text \<open>\<open>addr_match\<close>; \<open>cidr_support\<close> is the global configuration variable.\<close>

definition addr_match :: "bool \<Rightarrow> string \<Rightarrow> string \<Rightarrow> bool \<Rightarrow> bool \<Rightarrow> int" where
  "addr_match cidr_support m n user cmp =
     (case (upper_copy m, upper_copy n) of
        ((mu, Some r), (nu, Some s)) \<Rightarrow>
          if \<not> user \<and> \<not> cidr_support then wild_match mu nu
          else
            (let tmpscore = wild_match (take r mu) (take s nu);
                 rp = drop (Suc r) mu; sp = drop (Suc s) nu
             in if tmpscore = 0 then 0
                else if rp = [] \<and> sp = [] then tmpscore
                else
                  (case strrchr rp (CHR ''/'') of
                     None \<Rightarrow>
                       let t = wild_match rp sp in if t = 0 then 0 else tmpscore + t
                   | Some p \<Rightarrow>
                       if \<not> str_isdigit (drop (Suc p) rp) then
                         (let t = wild_match rp sp in if t = 0 then 0 else tmpscore + t)
                       else
                         (let bits = egg_atoi (drop (Suc p) rp);
                              sl = strrchr sp (CHR ''/'');
                              masked = (cmp \<and> (case sl of Some q \<Rightarrow> str_isdigit (drop (Suc q) sp) | None \<Rightarrow> False))
                          in if masked \<and> egg_atoi (drop (Suc (the sl)) sp) < bits then 0
                             else
                               (let sp = (if masked then take (the sl) sp else sp);
                                    t = cidr_match (take p rp) sp bits
                                in if t = 0 then 0 else tmpscore + t))))
      | ((mu, _), (nu, _)) \<Rightarrow> wild_match mu nu)"

definition either_matches :: "string \<Rightarrow> string \<Rightarrow> bool" where
  "either_matches a b \<longleftrightarrow> wild_match a b \<noteq> 0 \<or> wild_match b a \<noteq> 0"

definition slash_bits :: "string \<Rightarrow> bool" where
  "slash_bits r = (case strrchr r (CHR ''/'') of Some p \<Rightarrow> str_isdigit (drop (Suc p) r) | None \<Rightarrow> False)"

definition mask_match :: "bool \<Rightarrow> string \<Rightarrow> string \<Rightarrow> int" where
  "mask_match cidr_support m n =
     (case (upper_copy m, upper_copy n) of
        ((mu, Some r), (nu, Some s)) \<Rightarrow>
          if \<not> cidr_support then (if either_matches mu nu then 1 else 0)
          else
            (let rp = drop (Suc r) mu; sp = drop (Suc s) nu
             in if \<not> either_matches (take r mu) (take s nu) then 0
                else if rp = [] \<and> sp = [] then 1
                else if \<not> slash_bits rp \<and> \<not> slash_bits sp then (if either_matches rp sp then 1 else 0)
                else
                  (let (prefix, rp) =
                         (case strrchr rp (CHR ''/'') of
                            Some p \<Rightarrow> (egg_atoi (drop (Suc p) rp), take p rp)
                          | None \<Rightarrow> (if strchr rp (CHR '':'') \<noteq> None then 128 else 32, rp));
                       (prefix, sp) =
                         (case strrchr sp (CHR ''/'') of
                            Some q \<Rightarrow> (min prefix (egg_atoi (drop (Suc q) sp)), take q sp)
                          | None \<Rightarrow> (prefix, sp))
                   in cidr_match rp sp prefix))
      | ((mu, _), (nu, _)) \<Rightarrow> if either_matches mu nu then 1 else 0)"

section \<open>Collapsing stars\<close>

fun collapse_loop :: "bool \<Rightarrow> string \<Rightarrow> string" where
  "collapse_loop star [] = []"
| "collapse_loop star (c # p) =
     (if c = CHR ''*'' then (if star then [] else [c]) @ collapse_loop True p
      else c # collapse_loop False p)"

definition collapse :: "string \<Rightarrow> string" where
  "collapse pattern = collapse_loop False pattern"

fun collapse_esc_loop :: "bool \<Rightarrow> bool \<Rightarrow> string \<Rightarrow> string" where
  "collapse_esc_loop star esc [] = []"
| "collapse_esc_loop star esc (c # p) =
     (if \<not> esc \<and> c = CHR ''*'' then (if star then [] else [c]) @ collapse_esc_loop True esc p
      else if \<not> esc \<and> c = CHR 0x5C then c # collapse_esc_loop star True p
      else c # collapse_esc_loop False False p)"

definition collapse_esc :: "string \<Rightarrow> string" where
  "collapse_esc pattern = collapse_esc_loop False False pattern"

section \<open>Crontab fields\<close>

text \<open>\<open>%d\<close> of \<open>sscanf\<close>, and the whole conversion \<open>%d-%d\<close>.\<close>

definition scan_int :: "string \<Rightarrow> (int \<times> string) option" where
  "scan_int s = (let (v, r) = strtol s 10 in if length r < length s then Some (to_int32 v, r) else None)"

definition scan_range :: "string \<Rightarrow> (int \<times> int) option" where
  "scan_range s =
     (case scan_int s of
        Some (f, r) \<Rightarrow>
          if c0 r = CHR ''-'' then map_option (\<lambda>(t, _). (f, t)) (scan_int (tl r)) else None
      | None \<Rightarrow> None)"

text \<open>\<open>!skip || !(d % skip)\<close>\<close>

definition on_step :: "int \<Rightarrow> int \<Rightarrow> bool" where
  "on_step skip d \<longleftrightarrow> skip = 0 \<or> skip dvd d"

text \<open>
  One value of the list: whether it matches, and the locals \<open>skip\<close> and \<open>match\<close> it leaves behind
  for the next one.
\<close>

definition cron_value :: "string \<Rightarrow> int \<Rightarrow> int \<Rightarrow> bool \<times> int \<times> int" where
  "cron_value fld match skip =
     (let slash = strchr fld (CHR ''/'') in
      if slash = Some 0 then (False, match, skip)
      else
        (let skip = (case slash of Some q \<Rightarrow> egg_atoi (drop (Suc q) fld) | None \<Rightarrow> skip);
             fld = (case slash of Some q \<Rightarrow> take q fld | None \<Rightarrow> fld);
             range = scan_range fld;
             exact = (\<lambda>match. let (f, r) = strtol fld 10; f = to_int32 f
                              in length r < length fld \<and> (if skip \<noteq> 0 then skip dvd (match - f) else match = f))
         in if fld = ''*'' \<and> on_step skip match then (True, match, skip)
            else if strchr fld (CHR ''-'') \<noteq> None then
              (case range of
                 None \<Rightarrow> (False, match, skip)
               | Some (f, t) \<Rightarrow>
                   (let wraps = t < f;
                        match = (if wraps \<and> match \<le> t then match + 60 else match);
                        t = (if wraps then t + 60 else t)
                    in ((f \<le> match \<and> match \<le> t \<and> on_step skip (match - f)) \<or> exact match, match, skip)))
            else (exact match, match, skip)))"

function cron_fld_loop :: "string \<Rightarrow> int \<Rightarrow> int \<Rightarrow> bool" where
  "cron_fld_loop fld match skip =
     (if fld = [] then False
      else
        (let comma = strchr fld (CHR '','');
             (hit, match, skip) =
               cron_value (case comma of Some p \<Rightarrow> take p fld | None \<Rightarrow> fld) match skip
         in if hit then True
            else case comma of
                   Some p \<Rightarrow> cron_fld_loop (drop (Suc p) fld) match skip
                 | None \<Rightarrow> False))"
  by auto
termination by (relation "measure (\<lambda>(m, _). length m)") auto

declare cron_fld_loop.simps [simp del]

definition cron_matchfld :: "string \<Rightarrow> int \<Rightarrow> bool" where
  "cron_matchfld fld match = cron_fld_loop fld match 0"

fun scan_ints :: "nat \<Rightarrow> string \<Rightarrow> int list option" where
  "scan_ints 0 s = Some []"
| "scan_ints (Suc n) s =
     (case scan_int s of Some (v, r) \<Rightarrow> map_option (Cons v) (scan_ints n r) | None \<Rightarrow> None)"

function cron_loop :: "string \<Rightarrow> nat \<Rightarrow> bool \<Rightarrow> bool \<Rightarrow> int list \<Rightarrow> bool" where
  "cron_loop p i m d t =
     (if p = [] \<or> 5 \<le> i then m
      else
        (let (q, p') = newsplit p in
         if q = ''*'' then cron_loop p' (i + 1) m d t
         else
           (let m = (cron_matchfld q (t ! i) \<or> (i = 4 \<and> t ! i = 0 \<and> cron_matchfld q 7))
            in if i = 2 then cron_loop p' (i + 1) m m t
               else if \<not> m \<or> (i = 3 \<and> d) then m
               else cron_loop p' (i + 1) m d t)))"
  by auto
termination by (relation "measure (\<lambda>(_, i, _). 5 - i)") auto

declare cron_loop.simps [simp del]

definition cron_match :: "string \<Rightarrow> string \<Rightarrow> bool" where
  "cron_match fld match =
     (if fld = [] then False
      else case scan_ints 5 match of None \<Rightarrow> False | Some t \<Rightarrow> cron_loop fld 0 True False t)"

end
