(* ===== verification/MatchWild.thy ===== *)
theory MatchWild
  imports Match
begin

text \<open>
  What the wildcard functions of \<open>src/src/match.c\<close> compute: the translated expression, run
  through tokeniser, shunting-yard, construction and simulation, decides the declarative meaning
  of a mask.
\<close>

section \<open>The meaning of a mask\<close>

text \<open>\<open>*\<close> matches any text, \<open>?\<close> any byte, everything else itself, ignoring case.\<close>

lemma ex_le_Suc: "(\<exists>k \<le> Suc n. P k) \<longleftrightarrow> P 0 \<or> (\<exists>k \<le> n. P (Suc k))"
  by (metis Suc_le_mono not0_implies_Suc zero_le)

fun wild :: "string \<Rightarrow> string \<Rightarrow> bool" where
  "wild [] n = (n = [])"
| "wild (c # m) n =
     (if c = CHR ''*'' then wild m n \<or> (case n of [] \<Rightarrow> False | _ # n' \<Rightarrow> wild (c # m) n')
      else if c = CHR ''?'' then (case n of [] \<Rightarrow> False | _ # n' \<Rightarrow> wild m n')
      else (case n of [] \<Rightarrow> False | d # n' \<Rightarrow> tolower c = tolower d \<and> wild m n'))"

text \<open>The elements of a mask, with those of the extended syntax.\<close>

datatype piece = PAny | PLit char | PStar | PNonSp | PSp

function pieces :: "bool \<Rightarrow> string \<Rightarrow> piece list" where
  "pieces per m =
     (if m = [] then []
      else let c = hd m; r = tl m in
        if per \<and> c = CHR 0x5C then (if r = [] then [] else PLit (hd r) # pieces per (tl r))
        else if c = CHR ''*'' then PStar # pieces per (dropWhile (\<lambda>x. x = CHR ''*'') m)
        else if c = CHR ''?'' then PAny # pieces per r
        else if per \<and> c = CHR ''%'' then PNonSp # pieces per (dropWhile (\<lambda>x. x = CHR ''%'') m)
        else if per \<and> c = CHR 0x7E then PSp # pieces per (dropWhile (\<lambda>x. x = CHR 0x7E \<or> x = CHR '' '') m)
        else PLit c # pieces per r)"
  by auto
termination
  by (relation "measure (\<lambda>(_, m). length m)") (auto simp: neq_Nil_conv less_Suc_eq_le dropWhile_length)

declare pieces.simps [simp del]

text \<open>One or more bytes satisfying \<open>P\<close> are skipped.\<close>

definition skips :: "(char \<Rightarrow> bool) \<Rightarrow> string \<Rightarrow> string \<Rightarrow> bool" where
  "skips P n n' \<longleftrightarrow> (\<exists>k \<le> length n. list_all P (take k n) \<and> n' = drop k n)"

fun pmatch :: "piece list \<Rightarrow> string \<Rightarrow> bool" where
  "pmatch [] n = (n = [])"
| "pmatch (PAny # ps) n = (case n of [] \<Rightarrow> False | _ # n' \<Rightarrow> pmatch ps n')"
| "pmatch (PLit c # ps) n = (case n of [] \<Rightarrow> False | d # n' \<Rightarrow> tolower c = tolower d \<and> pmatch ps n')"
| "pmatch (PStar # ps) n = (\<exists>k \<le> length n. pmatch ps (drop k n))"
| "pmatch (PNonSp # ps) n =
     (\<exists>k \<le> length n. CHR '' '' \<notin> set (take k n) \<and> pmatch ps (drop k n))"
| "pmatch (PSp # ps) n =
     (\<exists>k \<le> length n. 0 < k \<and> set (take k n) \<subseteq> {CHR '' ''} \<and> pmatch ps (drop k n))"

section \<open>The translated expression\<close>

definition lit_text :: "char \<Rightarrow> string" where
  "lit_text c = (if is_meta c then [CHR 0x5C, c] else [c])"

fun piece_text :: "piece \<Rightarrow> string" where
  "piece_text PAny = ''.''" | "piece_text (PLit c) = lit_text c" | "piece_text PStar = ''.*''"
| "piece_text PNonSp = ''[^ ]*''" | "piece_text PSp = ''[ ]+''"

text \<open>What a byte of the mask can cost in the expression.\<close>

abbreviation ere_cost :: "bool \<Rightarrow> nat" where "ere_cost per \<equiv> if per then 5 else 2"

lemma irc_to_ere_loop_pieces:
  assumes w: "2 \<le> w" "per \<longrightarrow> 5 \<le> w"
  shows "length out + w * length m \<le> lim \<Longrightarrow>
     irc_to_ere_loop per lim m out = out @ concat (map piece_text (pieces per m))"
proof (induction m arbitrary: out rule: length_induct)
  case (1 m)
  show ?case
  proof (cases m)
    case Nil
    then show ?thesis by (simp add: irc_to_ere_loop.simps pieces.simps)
  next
    case (Cons c r)
    have step: "irc_to_ere_loop per lim m' (out @ o') = (out @ o') @ concat (map piece_text (pieces per m'))"
      if "length m' \<le> length r" "length o' \<le> w" for m' o'
    proof -
      have "w * length m' \<le> w * length r" using that(1) by (rule mult_le_mono2)
      moreover have "length out + (w + w * length r) \<le> lim" using "1.prems" Cons by simp
      ultimately have "length (out @ o') + w * length m' \<le> lim"
        using that(2) unfolding length_append by linarith
      moreover have "length m' < length m" using that(1) Cons by simp
      ultimately show ?thesis using "1.IH" by blast
    qed
    have d: "length (dropWhile P r) \<le> length r" for P by (rule dropWhile_length)
    have room: "length out + w \<le> lim" using "1.prems" Cons by simp
    consider (q) "per" "c = CHR 0x5C" | (star) "c = CHR ''*''" | (any) "c = CHR ''?''"
      | (nsp) "per" "c = CHR ''%''" | (sp) "per" "c = CHR 0x7E"
      | (lit) "\<not> (per \<and> (c = CHR 0x5C \<or> c = CHR ''%'' \<or> c = CHR 0x7E))" "c \<noteq> CHR ''*''" "c \<noteq> CHR ''?''"
      by blast
    then show ?thesis
    proof cases
      case q
      show ?thesis
      proof (cases r)
        case Nil
        then show ?thesis using q Cons by (subst irc_to_ere_loop.simps, subst pieces.simps) simp
      next
        case (Cons e s)
        have "irc_to_ere_loop per lim m out = irc_to_ere_loop per lim s (out @ lit_text e)"
          using q \<open>m = c # r\<close> Cons room w by (simp add: irc_to_ere_loop.simps [of True _ "CHR 0x5C # e # s"] lit_text_def)
        moreover have "pieces per m = PLit e # pieces per s"
          using q \<open>m = c # r\<close> Cons by (simp add: pieces.simps [of True "CHR 0x5C # e # s"])
        moreover have "length (lit_text e) \<le> w" using w by (simp add: lit_text_def)
        ultimately show ?thesis using step [of s "lit_text e"] Cons by simp
      qed
    next
      case star
      let ?m = "dropWhile (\<lambda>x. x = CHR ''*'') m"
      have "irc_to_ere_loop per lim m out = irc_to_ere_loop per lim ?m (out @ ''.*'')"
        "pieces per m = PStar # pieces per ?m"
        using star Cons room w by (simp_all add: irc_to_ere_loop.simps [of per _ "CHR ''*'' # r"] pieces.simps [of per "CHR ''*'' # r"] Let_def)
      then show ?thesis using step [of ?m "''.*''"] star Cons d w by simp
    next
      case any
      have "irc_to_ere_loop per lim m out = irc_to_ere_loop per lim r (out @ ''.'')"
        "pieces per m = PAny # pieces per r"
        using any Cons room w by (simp_all add: irc_to_ere_loop.simps [of per _ "CHR ''?'' # r"] pieces.simps [of per "CHR ''?'' # r"])
      then show ?thesis using step [of r "''.''"] w by simp
    next
      case nsp
      let ?m = "dropWhile (\<lambda>x. x = CHR ''%'') m"
      have "irc_to_ere_loop per lim m out = irc_to_ere_loop per lim ?m (out @ ''[^ ]*'')"
        "pieces per m = PNonSp # pieces per ?m"
        using nsp Cons room w by (simp_all add: irc_to_ere_loop.simps [of True _ "CHR ''%'' # r"] pieces.simps [of True "CHR ''%'' # r"])
      then show ?thesis using step [of ?m "''[^ ]*''"] nsp Cons d w by simp
    next
      case sp
      let ?m = "dropWhile (\<lambda>x. x = CHR 0x7E \<or> x = CHR '' '') m"
      have "irc_to_ere_loop per lim m out = irc_to_ere_loop per lim ?m (out @ ''[ ]+'')"
        "pieces per m = PSp # pieces per ?m"
        using sp Cons room w by (simp_all add: irc_to_ere_loop.simps [of True _ "CHR 0x7E # r"] pieces.simps [of True "CHR 0x7E # r"])
      then show ?thesis using step [of ?m "''[ ]+''"] sp Cons d w by simp
    next
      case lit
      have "irc_to_ere_loop per lim m out = irc_to_ere_loop per lim r (out @ lit_text c)"
        using lit Cons room w by (auto simp: irc_to_ere_loop.simps [of per _ "c # r"] lit_text_def Let_def)
      moreover have "pieces per m = PLit c # pieces per r"
        using lit Cons by (auto simp: pieces.simps [of per "c # r"] Let_def)
      moreover have "length (lit_text c) \<le> w" using w by (simp add: lit_text_def)
      ultimately show ?thesis using step [of r "lit_text c"] by simp
    qed
  qed
qed

section \<open>Its tokens\<close>

definition nonsp_cls :: cls where
  "nonsp_cls = cls_invert (cls_set_case True 0 32)"

definition sp_cls :: cls where
  "sp_cls = cls_set_case True 0 32"

fun piece_toks :: "piece \<Rightarrow> token list" where
  "piece_toks PAny = [TOK_ANY]" | "piece_toks (PLit c) = [TOK_LIT (tolower c)]"
| "piece_toks PStar = [TOK_ANY, TOK_STAR]" | "piece_toks PNonSp = [TOK_CLASS nonsp_cls, TOK_STAR]"
| "piece_toks PSp = [TOK_CLASS sp_cls, TOK_PLUS]"

fun piece_regex :: "piece \<Rightarrow> regex" where
  "piece_regex PAny = Atm TOK_ANY" | "piece_regex (PLit c) = Atm (TOK_LIT (tolower c))"
| "piece_regex PStar = Star (Atm TOK_ANY)" | "piece_regex PNonSp = Star (Atm (TOK_CLASS nonsp_cls))"
| "piece_regex PSp = Plus (Atm (TOK_CLASS sp_cls))"

lemma is_meta_iff:
  "is_meta c \<longleftrightarrow> c = CHR 0x5C \<or> c \<in> set ''.^$|{}[]()+-?*'' \<or> c = NUL"
  by (auto simp: is_meta_def regex_meta_def)

definition extends :: "tok_state \<Rightarrow> token list \<Rightarrow> tok_state \<Rightarrow> bool" where
  "extends st ts st' \<longleftrightarrow> tk_out st' = tk_out st @ ts \<and> tk_depth st' = tk_depth st"

lemma extends_atom: "extends st [t] (tk_atom t st)"
  by (simp add: extends_def tk_atom_def tk_push_def)

lemma extends_push: "extends st ts st' \<Longrightarrow> extends st (ts @ [t]) (tk_push t st')"
  by (simp add: extends_def tk_push_def)

lemma extends_trans: "extends st ts st' \<Longrightarrow> extends st' ts' st'' \<Longrightarrow> extends st (ts @ ts') st''"
  by (simp add: extends_def)

lemma tokenise_lit:
  assumes "c \<noteq> NUL"
  shows "\<exists>st'. extends st [TOK_LIT (tolower c)] st' \<and>
    tokenise True d (lit_text c @ s) st = tokenise True d s st'"
proof (cases "is_meta c")
  case True
  then have "c = CHR 0x5C \<or> c \<in> set ''.^$|{}[]()+-?*''" using assms by (simp add: is_meta_iff)
  then have "escape_token True c = TOK_LIT (tolower c)"
    by (auto simp: escape_token_def is_shorthand_def lit_char_def)
  then have "tokenise True d (lit_text c @ s) st = tokenise True d s (tk_atom (TOK_LIT (tolower c)) st)"
    using True by (subst tokenise.simps) (simp add: lit_text_def)
  then show ?thesis using extends_atom by blast
next
  case False
  then have "tokenise True d (lit_text c @ s) st = tokenise True d s (tk_atom (TOK_LIT (tolower c)) st)"
    by (subst tokenise.simps) (simp add: lit_text_def is_meta_iff lit_char_def)
  then show ?thesis using extends_atom by blast
qed

lemma parse_class_space:
  "parse_class (''^ ]'' @ s) True = Some (nonsp_cls, s)" "parse_class ('' ]'' @ s) True = Some (sp_cls, s)"
  by (simp_all add: parse_class_def parse_class_loop.simps posix_at_def class_elem_def Let_def
      nonsp_cls_def sp_cls_def)

lemma tokenise_any: "tokenise True True (CHR ''.'' # s) st = tokenise True True s (tk_atom TOK_ANY st)"
  by (subst tokenise.simps) (simp add: any_token_def)

lemma tokenise_star: "tokenise True True (CHR ''*'' # s) st = tokenise True True s (tk_push TOK_STAR st)"
  by (subst tokenise.simps) simp

lemma tokenise_plus: "tokenise True True (CHR ''+'' # s) st = tokenise True True s (tk_push TOK_PLUS st)"
  by (subst tokenise.simps) simp

lemma tokenise_class:
  "parse_class s True = Some (cls, s') \<Longrightarrow>
     tokenise True True (CHR ''['' # s) st = tokenise True True s' (tk_atom (TOK_CLASS cls) st)"
  by (subst tokenise.simps) simp

definition piece_cstr :: "piece \<Rightarrow> bool" where
  "piece_cstr p = (case p of PLit c \<Rightarrow> c \<noteq> NUL | _ \<Rightarrow> True)"

lemma tokenise_piece:
  assumes "piece_cstr p"
  shows "\<exists>st'. extends st (piece_toks p) st' \<and>
    tokenise True True (piece_text p @ s) st = tokenise True True s st'"
proof (cases p)
  case (PLit c)
  then show ?thesis using tokenise_lit [of c st True s] assms by (simp add: piece_cstr_def)
next
  case PAny
  then show ?thesis using extends_atom [of st TOK_ANY] by (auto simp: tokenise_any)
next
  case PStar
  then show ?thesis using extends_push [OF extends_atom [of st TOK_ANY], of TOK_STAR]
    by (auto simp: tokenise_any tokenise_star)
next
  case PNonSp
  have "parse_class (CHR ''^'' # CHR '' '' # CHR '']'' # CHR ''*'' # s) True = Some (nonsp_cls, CHR ''*'' # s)"
    using parse_class_space(1) [of "CHR ''*'' # s"] by simp
  then show ?thesis
    using PNonSp extends_push [OF extends_atom [of st "TOK_CLASS nonsp_cls"], of TOK_STAR]
    by (auto simp: tokenise_star tokenise_class)
next
  case PSp
  have "parse_class (CHR '' '' # CHR '']'' # CHR ''+'' # s) True = Some (sp_cls, CHR ''+'' # s)"
    using parse_class_space(2) [of "CHR ''+'' # s"] by simp
  then show ?thesis
    using PSp extends_push [OF extends_atom [of st "TOK_CLASS sp_cls"], of TOK_PLUS]
    by (auto simp: tokenise_plus tokenise_class)
qed

lemma tokenise_pieces:
  "list_all piece_cstr ps \<Longrightarrow> \<exists>st'. extends st (concat (map piece_toks ps)) st' \<and>
    tokenise True True (concat (map piece_text ps) @ s) st = tokenise True True s st'"
proof (induction ps arbitrary: st)
  case Nil
  then show ?case by (auto simp: extends_def)
next
  case (Cons p ps)
  obtain st1 where 1: "extends st (piece_toks p) st1"
    "tokenise True True (piece_text p @ concat (map piece_text ps) @ s) st =
     tokenise True True (concat (map piece_text ps) @ s) st1"
    using tokenise_piece [of p st "concat (map piece_text ps) @ s"] Cons.prems by auto
  obtain st2 where 2: "extends st1 (concat (map piece_toks ps)) st2"
    "tokenise True True (concat (map piece_text ps) @ s) st1 = tokenise True True s st2"
    using Cons by auto
  show ?case using extends_trans [OF 1(1) 2(1)] 1(2) 2(2) by auto
qed

lemma tokenise_ere:
  assumes "list_all piece_cstr ps"
  shows "tokenise True True (''^'' @ concat (map piece_text ps) @ ''$'') tk_init =
    Some ([TOK_BOL] @ concat (map piece_toks ps) @ [TOK_EOL])"
proof -
  have 1: "tokenise True True (''^'' @ concat (map piece_text ps) @ ''$'') tk_init =
      tokenise True True (concat (map piece_text ps) @ ''$'') (tk_atom TOK_BOL tk_init)"
    by (subst tokenise.simps) simp
  obtain st where st: "extends (tk_atom TOK_BOL tk_init) (concat (map piece_toks ps)) st"
    "tokenise True True (concat (map piece_text ps) @ ''$'') (tk_atom TOK_BOL tk_init) =
     tokenise True True ''$'' st"
    using tokenise_pieces [OF assms] by blast
  have "tokenise True True ''$'' st = tokenise True True [] (tk_atom TOK_EOL st)"
    by (subst tokenise.simps) simp
  also have "\<dots> = Some (tk_out st @ [TOK_EOL])"
    using st(1) by (subst tokenise.simps) (simp add: extends_def tk_atom_def tk_push_def tk_init_def)
  finally show ?thesis
    using st 1 by (simp add: extends_def tk_atom_def tk_push_def tk_init_def)
qed

section \<open>Its automaton\<close>

lemma cat_inject_append:
  "xs \<noteq> [] \<Longrightarrow> ys \<noteq> [] \<Longrightarrow> tok_ends_atom (last xs) \<Longrightarrow> tok_starts_atom (hd ys) \<Longrightarrow>
     cat_inject (xs @ ys) = cat_inject xs @ TOK_CAT # cat_inject ys"
proof (induction xs rule: induct_list012)
  case (2 t)
  then show ?case by (cases ys) auto
qed auto

definition mask_regex :: "piece list \<Rightarrow> regex" where
  "mask_regex ps = foldl Cat (Atm TOK_BOL) (map piece_regex ps @ [Atm TOK_EOL])"

text \<open>The shape of one element: an atom with at most one quantifier behind it.\<close>

definition element :: "token list \<Rightarrow> bool" where
  "element ts \<longleftrightarrow> (\<exists>a k. tok_kind a = Some k \<and> (ts = [a] \<or> ts = [a, TOK_STAR] \<or> ts = [a, TOK_PLUS]))"

lemma element_piece: "element (piece_toks p)"
  by (cases p) (auto simp: element_def)

lemma element_eol: "element [TOK_EOL]"
  by (simp add: element_def)

lemma tok_kind_atom:
  "tok_kind a = Some k \<Longrightarrow> tok_ends_atom a \<and> tok_starts_atom a \<and> \<not> is_unary a \<and> \<not> is_binary a \<and>
     a \<noteq> TOK_LPAREN \<and> a \<noteq> TOK_RPAREN"
  by (cases a) (auto simp: is_unary_def is_binary_def)

lemma element_cat:
  "element ts \<Longrightarrow> ts \<noteq> [] \<and> tok_ends_atom (last ts) \<and> tok_starts_atom (hd ts) \<and> cat_inject ts = ts"
  by (auto simp: element_def dest: tok_kind_atom)

lemma cat_inject_elements:
  "element t \<Longrightarrow> \<forall>ts \<in> set es. element ts \<Longrightarrow>
     cat_inject (t @ concat es) = t @ concat (map (\<lambda>ts. TOK_CAT # ts) es)"
proof (induction es arbitrary: t)
  case Nil
  then show ?case using element_cat by simp
next
  case (Cons e es)
  have e: "element e" using Cons.prems by simp
  have "cat_inject (t @ (e @ concat es)) = cat_inject t @ TOK_CAT # cat_inject (e @ concat es)"
    using element_cat [OF Cons.prems(1)] element_cat [OF e] by (intro cat_inject_append) auto
  then show ?case using Cons element_cat [OF Cons.prems(1)] e by simp
qed

text \<open>The operator stack between two elements holds at most a concatenation and a quantifier.\<close>

definition flat_stack :: "token list \<Rightarrow> bool" where
  "flat_stack stk \<longleftrightarrow> length stk \<le> 2 \<and> (\<forall>t \<in> set stk. t \<noteq> TOK_LPAREN \<and> 2 \<le> tok_prec t)"

lemma shunt_cat:
  "flat_stack stk \<Longrightarrow> shunt (TOK_CAT # ts) stk out = shunt ts [TOK_CAT] (out @ stk)"
proof -
  assume f: "flat_stack stk"
  then have tw: "takeWhile (\<lambda>s. s \<noteq> TOK_LPAREN \<and> tok_prec TOK_CAT \<le> tok_prec s) stk = stk"
    and dw: "dropWhile (\<lambda>s. s \<noteq> TOK_LPAREN \<and> tok_prec TOK_CAT \<le> tok_prec s) stk = []"
    by (auto simp: flat_stack_def takeWhile_eq_all_conv dropWhile_eq_Nil_conv)
  show ?thesis
    unfolding shunt.simps(2) Let_def tw dw by (simp add: is_unary_def is_binary_def shunt_max_def)
qed

lemma shunt_element:
  assumes "element ts" "stk = [] \<or> stk = [TOK_CAT]"
  shows "\<exists>stk' out'. shunt (ts @ rest) stk out = shunt rest stk' out' \<and> flat_stack stk' \<and>
           out' @ stk' = out @ ts @ stk"
proof -
  obtain a k where a: "tok_kind a = Some k" "ts = [a] \<or> ts = [a, TOK_STAR] \<or> ts = [a, TOK_PLUS]"
    using assms(1) by (auto simp: element_def)
  have s: "shunt (a # r) stk out = shunt r stk (out @ [a])" for r
    using tok_kind_atom [OF a(1)] by simp
  have q: "shunt (q # r) stk o' = shunt r (q # stk) o'" if "q = TOK_STAR \<or> q = TOK_PLUS" for q r o'
    using that assms(2) by (auto simp: is_unary_def shunt_max_def)
  from a(2) show ?thesis
  proof (elim disjE)
    assume "ts = [a]"
    then show ?thesis using s assms(2) by (intro exI [of _ stk] exI [of _ "out @ [a]"]) (auto simp: flat_stack_def)
  next
    assume "ts = [a, TOK_STAR]"
    then show ?thesis using s q [of TOK_STAR] assms(2)
      by (intro exI [of _ "TOK_STAR # stk"] exI [of _ "out @ [a]"]) (auto simp: flat_stack_def)
  next
    assume "ts = [a, TOK_PLUS]"
    then show ?thesis using s q [of TOK_PLUS] assms(2)
      by (intro exI [of _ "TOK_PLUS # stk"] exI [of _ "out @ [a]"]) (auto simp: flat_stack_def)
  qed
qed

lemma shunt_elements:
  "flat_stack stk \<Longrightarrow> \<forall>ts \<in> set es. element ts \<Longrightarrow>
     shunt (concat (map (\<lambda>ts. TOK_CAT # ts) es)) stk out =
     Some (out @ stk @ concat (map (\<lambda>ts. ts @ [TOK_CAT]) es))"
proof (induction es arbitrary: stk out)
  case Nil
  then have "TOK_LPAREN \<notin> set stk" by (auto simp: flat_stack_def)
  then show ?case by simp
next
  case (Cons e es)
  obtain stk' out' where 1:
    "shunt (e @ concat (map (\<lambda>ts. TOK_CAT # ts) es)) [TOK_CAT] (out @ stk) =
     shunt (concat (map (\<lambda>ts. TOK_CAT # ts) es)) stk' out'"
    "flat_stack stk'" "out' @ stk' = (out @ stk) @ e @ [TOK_CAT]"
    using shunt_element [of e "[TOK_CAT]"] Cons.prems by (metis list.set_intros(1))
  have "shunt (concat (map (\<lambda>ts. TOK_CAT # ts) (e # es))) stk out =
      shunt (concat (map (\<lambda>ts. TOK_CAT # ts) es)) stk' out'"
    using shunt_cat [OF Cons.prems(1)] 1(1) by simp
  also have "\<dots> = Some (out' @ stk' @ concat (map (\<lambda>ts. ts @ [TOK_CAT]) es))"
    using Cons.IH [OF 1(2)] Cons.prems(2) by simp
  finally show ?case using 1(3) by (simp flip: append_assoc)
qed

lemma postfix_piece: "postfix (piece_regex p) = piece_toks p"
  by (cases p) auto

lemma postfix_foldl:
  "postfix (foldl Cat r rs) = postfix r @ concat (map (\<lambda>x. postfix x @ [TOK_CAT]) rs)"
  by (induction rs arbitrary: r) auto

lemma shunt_mask:
  "shunt (cat_inject ([TOK_BOL] @ concat (map piece_toks ps) @ [TOK_EOL])) [] [] =
     Some (postfix (mask_regex ps))"
proof -
  let ?es = "map piece_toks ps @ [[TOK_EOL]]"
  have es: "\<forall>ts \<in> set ?es. element ts" using element_piece element_eol by auto
  have "element [TOK_BOL]" by (simp add: element_def)
  then have "cat_inject ([TOK_BOL] @ concat ?es) = [TOK_BOL] @ concat (map (\<lambda>ts. TOK_CAT # ts) ?es)"
    using es by (rule cat_inject_elements)
  moreover have "shunt ([TOK_BOL] @ concat (map (\<lambda>ts. TOK_CAT # ts) ?es)) [] [] =
      shunt (concat (map (\<lambda>ts. TOK_CAT # ts) ?es)) [] [TOK_BOL]"
    by (simp add: is_unary_def is_binary_def)
  moreover have "flat_stack []" by (simp add: flat_stack_def)
  ultimately show ?thesis
    using shunt_elements [OF _ es, of "[]" "[TOK_BOL]"]
    by (simp add: mask_regex_def postfix_foldl postfix_piece comp_def)
qed

section \<open>Its meaning\<close>

text \<open>The bytes an atom of the translation accepts.\<close>

definition okchar :: "token \<Rightarrow> char \<Rightarrow> bool" where
  "okchar t c = eats (the (tok_kind t)) (tolower c)"

lemma okchar_simps:
  "okchar TOK_ANY c" "okchar (TOK_LIT (tolower d)) c \<longleftrightarrow> tolower d = tolower c"
  by (simp_all add: okchar_def eats_def)

lemma tolower_space: "tolower c = CHR '' '' \<longleftrightarrow> c = CHR '' ''"
  by (auto simp: uc_eq_iff uc_tolower)

lemma cls_tst_set: "k < 256 \<Longrightarrow> cls_tst (cls_set cls k) c \<longleftrightarrow> c = k \<or> cls_tst cls c"
  unfolding cls_tst_def cls_set_def bit_set_bit_iff by auto

lemma cls_tst_invert: "cls_tst (cls_invert cls) (uc c) \<longleftrightarrow> \<not> cls_tst cls (uc c)"
  using uc_less [of c] unfolding cls_tst_def cls_invert_def bit_not_iff by simp

lemma okchar_cls:
  "okchar (TOK_CLASS nonsp_cls) c \<longleftrightarrow> c \<noteq> CHR '' ''" "okchar (TOK_CLASS sp_cls) c \<longleftrightarrow> c = CHR '' ''"
proof -
  have "cls_tst nonsp_cls (uc (tolower c)) \<longleftrightarrow> uc (tolower c) \<noteq> uc (CHR '' '')"
    "cls_tst sp_cls (uc (tolower c)) \<longleftrightarrow> uc (tolower c) = uc (CHR '' '')"
    by (simp_all add: nonsp_cls_def sp_cls_def cls_set_case_def cls_tst_set cls_tst_invert) (simp_all add: cls_tst_def)
  moreover have sp: "uc (tolower c) = uc (CHR '' '') \<longleftrightarrow> c = CHR '' ''"
    by (simp only: uc_eq_iff [symmetric] tolower_space)
  ultimately
  show "okchar (TOK_CLASS nonsp_cls) c \<longleftrightarrow> c \<noteq> CHR '' ''" "okchar (TOK_CLASS sp_cls) c \<longleftrightarrow> c = CHR '' ''"
    by (simp_all add: okchar_def eats_def)
qed

lemma atom_step:
  assumes "tok_kind t = Some k" "\<not> zero_width k"
  shows "rmatch True (Atm t) (q, n) R \<longleftrightarrow> (\<exists>c n'. n = c # n' \<and> okchar t c \<and> R = (tolower c, n'))"
  using assms by (auto simp: atom_match_def okchar_def lit_char_def split: list.splits)

lemma atom_star_sound:
  assumes "tok_kind t = Some k" "\<not> zero_width k" "(rmatch True (Atm t))\<^sup>*\<^sup>* P R"
  shows "\<exists>j \<le> length (snd P). list_all (okchar t) (take j (snd P)) \<and> snd R = drop j (snd P)"
  using assms(3)
proof (induction rule: converse_rtranclp_induct)
  case base
  then show ?case by (intro exI [of _ 0]) simp
next
  case (step y z)
  obtain q n where y: "y = (q, n)" by fastforce
  then obtain c n' where c: "n = c # n'" "okchar t c" "z = (tolower c, n')"
    using step(1) atom_step [OF assms(1,2)] by auto
  obtain j where "j \<le> length n'" "list_all (okchar t) (take j n')" "snd R = drop j n'"
    using step.IH c(3) by auto
  then show ?case using c y by (intro exI [of _ "Suc j"]) simp
qed

lemma atom_star_complete:
  assumes "tok_kind t = Some k" "\<not> zero_width k"
  shows "j \<le> length n \<Longrightarrow> list_all (okchar t) (take j n) \<Longrightarrow>
     \<exists>q'. (rmatch True (Atm t))\<^sup>*\<^sup>* (q, n) (q', drop j n)"
proof (induction j arbitrary: q n)
  case 0
  then show ?case by auto
next
  case (Suc j)
  then obtain c n' where c: "n = c # n'" by (cases n) auto
  then obtain q' where "(rmatch True (Atm t))\<^sup>*\<^sup>* (tolower c, n') (q', drop j n')"
    using Suc.IH [of n' "tolower c"] Suc.prems by auto
  moreover have "rmatch True (Atm t) (q, n) (tolower c, n')"
    using atom_step [OF assms] c Suc.prems by auto
  ultimately show ?case using c by (auto intro: converse_rtranclp_into_rtranclp)
qed

lemma atom_star:
  assumes "tok_kind t = Some k" "\<not> zero_width k"
  shows "(\<exists>R. (rmatch True (Atm t))\<^sup>*\<^sup>* P R \<and> F (snd R)) \<longleftrightarrow>
     (\<exists>j \<le> length (snd P). list_all (okchar t) (take j (snd P)) \<and> F (drop j (snd P)))"
proof
  assume "\<exists>R. (rmatch True (Atm t))\<^sup>*\<^sup>* P R \<and> F (snd R)"
  then show "\<exists>j \<le> length (snd P). list_all (okchar t) (take j (snd P)) \<and> F (drop j (snd P))"
    using atom_star_sound [OF assms] by metis
next
  assume "\<exists>j \<le> length (snd P). list_all (okchar t) (take j (snd P)) \<and> F (drop j (snd P))"
  then obtain j where j: "j \<le> length (snd P)" "list_all (okchar t) (take j (snd P))" "F (drop j (snd P))"
    by blast
  then obtain q' where "(rmatch True (Atm t))\<^sup>*\<^sup>* (fst P, snd P) (q', drop j (snd P))"
    using atom_star_complete [OF assms] by blast
  then show "\<exists>R. (rmatch True (Atm t))\<^sup>*\<^sup>* P R \<and> F (snd R)"
    using j(3) by (intro exI [of _ "(q', drop j (snd P))"]) simp
qed

lemma piece_match:
  "(\<exists>R. rmatch True (piece_regex p) P R \<and> pmatch ps (snd R)) \<longleftrightarrow> pmatch (p # ps) (snd P)"
proof -
  obtain q n where P: "P = (q, n)" by fastforce
  have a: "rmatch True (Atm t) (q, n) R \<longleftrightarrow> (\<exists>c n'. n = c # n' \<and> okchar t c \<and> R = (tolower c, n'))"
    if "tok_kind t = Some k" "\<not> zero_width k" for t k R q n
    using atom_step that by blast
  have s: "(\<exists>R. (rmatch True (Atm t))\<^sup>*\<^sup>* P R \<and> pmatch ps (snd R)) \<longleftrightarrow>
     (\<exists>j \<le> length (snd P). list_all (okchar t) (take j (snd P)) \<and> pmatch ps (drop j (snd P)))"
    if "tok_kind t = Some k" "\<not> zero_width k" for t k P
    using atom_star that by blast
  show ?thesis
  proof (cases p)
    case PAny
    then show ?thesis using a [of TOK_ANY ST_ANY]
      by (auto simp: P zero_width_def okchar_simps split: list.splits)
  next
    case (PLit c)
    then show ?thesis using a [of "TOK_LIT (tolower c)" "ST_CHAR (tolower c)"]
      by (auto simp: P zero_width_def okchar_simps split: list.splits)
  next
    case PStar
    then show ?thesis using s [of TOK_ANY ST_ANY P]
      by (simp add: P zero_width_def okchar_simps list_all_iff)
  next
    case PNonSp
    have "list_all (okchar (TOK_CLASS nonsp_cls)) xs \<longleftrightarrow> CHR '' '' \<notin> set xs" for xs
      by (auto simp: okchar_cls list_all_iff)
    then show ?thesis using PNonSp s [of "TOK_CLASS nonsp_cls" "ST_CLASS nonsp_cls" P]
      by (simp add: P zero_width_def)
  next
    case PSp
    let ?t = "TOK_CLASS sp_cls"
    have l: "list_all (okchar ?t) xs \<longleftrightarrow> set xs \<subseteq> {CHR '' ''}" for xs
      by (auto simp: okchar_cls list_all_iff)
    have "(\<exists>R. rmatch True (piece_regex p) P R \<and> pmatch ps (snd R)) \<longleftrightarrow>
       (\<exists>S. rmatch True (Atm ?t) P S \<and> (\<exists>R. (rmatch True (Atm ?t))\<^sup>*\<^sup>* S R \<and> pmatch ps (snd R)))"
      by (auto simp: PSp OO_def)
    also have "\<dots> \<longleftrightarrow> (\<exists>c n'. n = c # n' \<and> okchar ?t c \<and>
        (\<exists>j \<le> length n'. list_all (okchar ?t) (take j n') \<and> pmatch ps (drop j n')))"
      using s [of ?t "ST_CLASS sp_cls"] a [of ?t "ST_CLASS sp_cls"] by (auto simp: P zero_width_def)
    also have "\<dots> \<longleftrightarrow> (\<exists>j \<le> length n. 0 < j \<and> list_all (okchar ?t) (take j n) \<and> pmatch ps (drop j n))"
    proof (cases n)
      case (Cons c n')
      have "(\<exists>j \<le> length n. 0 < j \<and> list_all (okchar ?t) (take j n) \<and> pmatch ps (drop j n)) \<longleftrightarrow>
          (\<exists>i \<le> length n'. list_all (okchar ?t) (take (Suc i) n) \<and> pmatch ps (drop (Suc i) n))"
        using Cons by (metis Suc_le_mono gr0_conv_Suc length_Cons)
      then show ?thesis using Cons by auto
    qed simp
    finally show ?thesis by (simp add: PSp P l)
  qed
qed

text \<open>Text in which \<open>$\<close> can only match at the end.\<close>

definition line :: "string \<Rightarrow> bool" where
  "line n \<longleftrightarrow> cstring n \<and> CHR 0x0A \<notin> set n"

lemma line_drop: "line n \<Longrightarrow> line (drop k n)"
  by (auto simp: line_def cstring_def dest: in_set_dropD)

lemma c0_line: "line n \<Longrightarrow> c0 n = NUL \<or> c0 n = CHR 0x0A \<longleftrightarrow> n = []"
  by (cases n) (auto simp: line_def cstring_def)

lemma piece_line: "rmatch True (piece_regex p) P R \<Longrightarrow> line (snd P) \<Longrightarrow> line (snd R)"
proof -
  assume r: "rmatch True (piece_regex p) P R" and l: "line (snd P)"
  have s: "line (snd S)" if "rmatch True (Atm t) T S" "line (snd T)" for t S T
    using that line_drop [of "snd T" 1]
    by (auto simp: atom_match_def drop_Suc split: list.splits if_splits)
  have "line (snd S)" if "(rmatch True (Atm t))\<^sup>*\<^sup>* T S" "line (snd T)" for t S T
    using that by (induction rule: rtranclp_induct) (auto intro: s)
  note s this
  moreover have "\<exists>t. rmatch True (Atm t) P R \<or> (rmatch True (Atm t))\<^sup>*\<^sup>* P R \<or>
      (\<exists>S. rmatch True (Atm t) P S \<and> (rmatch True (Atm t))\<^sup>*\<^sup>* S R)"
    using r by (cases p) (simp_all only: piece_regex.simps rmatch.simps(4,5) OO_def, blast+)
  ultimately show "line (snd R)" using l by metis
qed

lemma mask_match_foldl:
  "(\<forall>R. rmatch True r P R \<longrightarrow> line (snd R)) \<Longrightarrow>
     (\<exists>Q. rmatch True (foldl Cat r (map piece_regex ps @ [Atm TOK_EOL])) P Q) \<longleftrightarrow>
     (\<exists>R. rmatch True r P R \<and> pmatch ps (snd R))"
proof (induction ps arbitrary: r)
  case Nil
  have "(\<exists>Q. rmatch True (Atm TOK_EOL) R Q) \<longleftrightarrow> snd R = []" if "rmatch True r P R" for R
    using c0_line [of "snd R"] Nil that
    by (cases R) (auto simp: atom_match_def zero_width_def assertion_def)
  moreover have "(\<exists>Q. rmatch True (Cat r (Atm TOK_EOL)) P Q) \<longleftrightarrow>
      (\<exists>R. rmatch True r P R \<and> (\<exists>Q. rmatch True (Atm TOK_EOL) R Q))"
    unfolding rmatch.simps(2) OO_def by blast
  ultimately show ?case unfolding list.map append_Nil foldl_Cons foldl_Nil pmatch.simps by metis
next
  case (Cons p ps)
  have "\<forall>R. rmatch True (Cat r (piece_regex p)) P R \<longrightarrow> line (snd R)"
    using Cons.prems piece_line by fastforce
  from Cons.IH [OF this]
  have "(\<exists>Q. rmatch True (foldl Cat r (map piece_regex (p # ps) @ [Atm TOK_EOL])) P Q) \<longleftrightarrow>
      (\<exists>R. rmatch True r P R \<and> (\<exists>S. rmatch True (piece_regex p) R S \<and> pmatch ps (snd S)))"
    by auto
  then show ?case unfolding piece_match .
qed

lemma mask_regex_match:
  assumes "line n"
  shows "starts_match True (mask_regex ps) True n \<longleftrightarrow> pmatch ps n"
proof -
  have b: "rmatch True (Atm TOK_BOL) (NUL, n) R \<longleftrightarrow> R = (NUL, n)" for R
    by (auto simp: atom_match_def zero_width_def assertion_def)
  have "starts_match True (mask_regex ps) True n \<longleftrightarrow> (\<exists>Q. rmatch True (mask_regex ps) (NUL, n) Q)"
    by (auto simp: starts_match_def)
  also have "\<dots> \<longleftrightarrow> pmatch ps n"
    unfolding mask_regex_def using mask_match_foldl [of "Atm TOK_BOL" "(NUL, n)" ps] b assms by auto
  finally show ?thesis .
qed

lemma wf_mask_regex: "wf_regex (mask_regex ps)" "frag_depth (mask_regex ps) \<le> 512"
proof -
  have p: "wf_regex (piece_regex p) \<and> frag_depth (piece_regex p) = 1" for p by (cases p) auto
  have "wf_regex r \<Longrightarrow> wf_regex (foldl Cat r (map piece_regex ps))"
    "frag_depth r \<le> 2 \<Longrightarrow> frag_depth (foldl Cat r (map piece_regex ps)) \<le> 2" for r
    using p by (induction ps arbitrary: r) auto
  from this [of "Atm TOK_BOL"] show "wf_regex (mask_regex ps)" "frag_depth (mask_regex ps) \<le> 512"
    by (simp_all add: mask_regex_def)
qed

lemma pieces_cstr: "cstring m \<Longrightarrow> list_all piece_cstr (pieces per m)"
proof (induction m rule: length_induct)
  case (1 m)
  show ?case
  proof (cases m)
    case Nil
    then show ?thesis by (simp add: pieces.simps)
  next
    case (Cons c r)
    have ih: "list_all piece_cstr (pieces per m')" if "length m' \<le> length r" "set m' \<subseteq> set r" for m'
    proof -
      have "cstring m'" using that(2) "1.prems" Cons by (auto simp: cstring_def)
      then show ?thesis using "1.IH" that(1) Cons by (simp add: less_Suc_eq_le)
    qed
    have d: "list_all piece_cstr (pieces per (dropWhile P r))" for P
      using ih dropWhile_length [of P r] set_dropWhileD by (metis subsetI)
    have "set (tl r) \<subseteq> set r" by (cases r) auto
    then have t: "list_all piece_cstr (pieces per (tl r))" by (intro ih) auto
    have nn: "NUL \<notin> insert c (set r)" using "1.prems" Cons by (simp add: cstring_def)
    then have h: "c \<noteq> NUL" by blast
    have h': "r \<noteq> [] \<longrightarrow> hd r \<noteq> NUL" using nn by (cases r) auto
    have p: "piece_cstr PAny" "piece_cstr PStar" "piece_cstr PNonSp" "piece_cstr PSp" "piece_cstr (PLit c)"
      "r \<noteq> [] \<Longrightarrow> piece_cstr (PLit (hd r))"
      using h h' by (simp_all add: piece_cstr_def)
    show ?thesis
      unfolding Cons pieces.simps [of per "c # r"] Let_def list.sel
      using ih [of r] d t by (auto simp: p)
  qed
qed

section \<open>The wildcard functions\<close>

lemma irc_to_ere_pieces:
  "ere_cost per * length m \<le> 1021 \<Longrightarrow>
     irc_to_ere m 1024 per = Some (''^'' @ concat (map piece_text (pieces per m)) @ ''$'')"
  using irc_to_ere_loop_pieces [of "ere_cost per" per "''^''" m 1022]
  by (cases per) (simp_all add: irc_to_ere_def)

lemma ere_match_pieces:
  assumes "cstring m" "line n"
    and e: "irc_to_ere m' 1024 per = Some (''^'' @ concat (map piece_text (pieces per m)) @ ''$'')"
  shows "ere_match per m' n = (if pmatch (pieces per m) n then 1 else 0)"
proof -
  let ?ps = "pieces per m" and ?e = "''^'' @ concat (map piece_text (pieces per m)) @ ''$''"
  have "take 4 ?e \<noteq> ''(?i)''" by simp
  moreover have "tokenise True (\<not> False) ?e tk_init =
      Some ([TOK_BOL] @ concat (map piece_toks ?ps) @ [TOK_EOL])"
    using tokenise_ere pieces_cstr [OF assms(1)] by simp
  moreover note shunt_mask [of ?ps] wf_mask_regex
  ultimately obtain re where re: "op_regex_compile ?e True False = Some re"
    "\<forall>txt. op_regex_match re txt \<longleftrightarrow> starts_match True (mask_regex ?ps) (c0 ?e = CHR ''^'') txt"
    using op_regex_compile_match by blast
  then show ?thesis using mask_regex_match [OF assms(2)] e by (simp add: ere_match_def)
qed

lemma wild_star_iff: "wild (CHR ''*'' # m) n \<longleftrightarrow> (\<exists>k \<le> length n. wild m (drop k n))"
proof (induction n)
  case (Cons d n)
  then show ?case by (simp add: ex_le_Suc)
qed simp

lemma wild_stars: "wild (CHR ''*'' # dropWhile (\<lambda>x. x = CHR ''*'') m) n \<longleftrightarrow> wild (CHR ''*'' # m) n"
proof (induction m arbitrary: n)
  case (Cons c m)
  have "wild (CHR ''*'' # CHR ''*'' # m) n \<longleftrightarrow> wild (CHR ''*'' # m) n"
  proof
    assume "wild (CHR ''*'' # CHR ''*'' # m) n"
    then obtain k j where "k \<le> length n" "j \<le> length (drop k n)" "wild m (drop j (drop k n))"
      unfolding wild_star_iff by blast
    then show "wild (CHR ''*'' # m) n"
      unfolding wild_star_iff by (intro exI [of _ "k + j"]) (simp add: add.commute)
  next
    assume "wild (CHR ''*'' # m) n"
    then show "wild (CHR ''*'' # CHR ''*'' # m) n"
      unfolding wild_star_iff [of "CHR ''*'' # m"] by (intro exI [of _ 0]) (simp del: wild.simps)
  qed
  then show ?case using Cons by (simp del: wild.simps)
qed simp

lemma pmatch_wild: "pmatch (pieces False m) n \<longleftrightarrow> wild m n"
proof (induction m arbitrary: n rule: length_induct)
  case (1 m)
  show ?case
  proof (cases m)
    case Nil
    then show ?thesis by (simp add: pieces.simps)
  next
    case (Cons c r)
    show ?thesis
    proof (cases "c = CHR ''*''")
      case True
      let ?m = "dropWhile (\<lambda>x. x = CHR ''*'') m"
      have "length ?m < length m"
        using True Cons dropWhile_length [of "\<lambda>x. x = CHR ''*''" r] by (simp add: less_Suc_eq_le)
      then have "pmatch (pieces False m) n \<longleftrightarrow> wild (CHR ''*'' # ?m) n"
        using "1" True Cons
        by (simp add: pieces.simps [of False "CHR ''*'' # r"] Let_def wild_star_iff del: wild.simps)
      then show ?thesis using True Cons wild_stars [of r n] by simp
    next
      case False
      then show ?thesis using "1" Cons
        by (auto simp: pieces.simps [of False "c # r"] Let_def split: list.splits)
    qed
  qed
qed

text \<open>
  C1: \<open>wild_match\<close> decides exactly the meaning of a mask, on every mask whose translation cannot
  be truncated (510 bytes) and every one-line text: \<open>*\<close> any text, \<open>?\<close> any byte, every other byte
  itself up to the case of ASCII letters; an empty mask or text never matches.
\<close>

theorem wild_match_iff:
  assumes "cstring m" "line n" "length m \<le> 510"
  shows "wild_match m n = (if m \<noteq> [] \<and> n \<noteq> [] \<and> wild m n then 1 else 0)"
  using ere_match_pieces [OF assms(1,2) irc_to_ere_pieces] assms(3)
  by (simp add: wild_match_def pmatch_wild)

theorem wild_match_iff_witness:
  "wild_match ''*!?ser@*.com'' ''n!User@a.com'' = 1 \<and> wild_match ''a.c*'' ''abc'' = 0"
  by (subst (1 2) wild_match_iff) (simp_all add: cstring_def line_def tolower_def)

text \<open>
  \<open>wild_match_per\<close> decides the meaning of a mask of the extended syntax used by the binds:
  besides \<open>*\<close> and \<open>?\<close>, \<open>%\<close> is any text without a space, \<open>~\<close> is one or more spaces, and a
  backslash quotes the next byte.  Up to 204 bytes the translation always fits.
\<close>

theorem wild_match_per_iff:
  assumes "cstring m" "line n" "length m \<le> 204"
  shows "wild_match_per m n = (if n \<noteq> [] \<and> pmatch (pieces True m) n then 1 else 0)"
  using ere_match_pieces [OF assms(1,2) irc_to_ere_pieces] assms(3)
  by (simp add: wild_match_per_def)

theorem wild_match_per_iff_witness:
  "wild_match_per ''a%~b'' ''axy  b'' = 1"
proof -
  have "pmatch (pieces True ''a%~b'') ''axy  b''"
    by (simp add: pieces.simps tolower_def ex_le_Suc)
  then show ?thesis by (subst wild_match_per_iff) (simp_all add: cstring_def line_def)
qed

lemma irc_to_ere_loop_length:
  "length out \<le> lim \<Longrightarrow> length (irc_to_ere_loop per lim m out) \<le> lim"
proof (induction m arbitrary: out rule: length_induct)
  case (1 m)
  show ?case
  proof (cases m)
    case Nil
    then show ?thesis using "1.prems" by (simp add: irc_to_ere_loop.simps)
  next
    case (Cons c r)
    have ih: "length (irc_to_ere_loop per lim m' out') \<le> lim"
      if "length m' \<le> length r" "length out' \<le> lim" for m' out'
      using that "1.IH" Cons by (simp add: less_Suc_eq_le)
    then have d: "length (irc_to_ere_loop per lim (dropWhile P r) out') \<le> lim" if "length out' \<le> lim" for P out'
      using dropWhile_length that by blast
    have t: "length (irc_to_ere_loop per lim (tl r) out') \<le> lim" if "length out' \<le> lim" for out'
      using ih [of "tl r" out'] that by simp
    show ?thesis
      using "1.prems" Cons ih d t
      by (cases per) (simp_all add: irc_to_ere_loop.simps [of _ lim "c # r"] Let_def not_le not_less)
  qed
qed

text \<open>
  \<open>irc_to_ere\<close> never writes past the buffer it is given: the expression and its NUL fit, for
  masks of any length, and a buffer too small for an empty expression is refused.
\<close>

theorem irc_to_ere_fits:
  "(case irc_to_ere m outsz per of None \<Rightarrow> outsz < 4
    | Some e \<Rightarrow> 4 \<le> outsz \<and> length e + 1 \<le> outsz)"
proof (cases "outsz < 4")
  case False
  then have "length (irc_to_ere_loop per (outsz - 2) m ''^'') \<le> outsz - 2"
    by (intro irc_to_ere_loop_length) simp
  then show ?thesis using False by (simp add: irc_to_ere_def)
qed (simp add: irc_to_ere_def)

lemma irc_to_ere_loop_plain:
  "irc_to_ere_loop False lim (replicate j (CHR ''a'')) out =
     out @ replicate (min j (lim - length out)) (CHR ''a'')"
proof (induction j arbitrary: out)
  case (Suc j)
  have "\<not> is_meta (CHR ''a'')" by (simp add: is_meta_iff)
  moreover have "\<not> lim \<le> length out \<Longrightarrow> lim - length out = Suc (lim - Suc (length out))" by simp
  ultimately show ?case using Suc [of "out @ ''a''"]
    by (subst irc_to_ere_loop.simps) (simp add: Let_def)
qed (simp add: irc_to_ere_loop.simps)

lemma pieces_plain: "pieces False (replicate j (CHR ''a'')) = replicate j (PLit (CHR ''a''))"
  by (induction j) (simp_all add: pieces.simps [of False "_ # _"] pieces.simps [of False "[]"] Let_def)

lemma pmatch_plain: "pmatch (replicate j (PLit c)) (replicate j c)"
  by (induction j) auto

text \<open>
  a mask longer than the buffer allows is cut off silently and matches the text its beginning
  matches: 2000 letters match 1021, although the comment above \<open>irc_to_ere\<close> promises an error.
\<close>

theorem wild_match_truncates:
  assumes "1021 \<le> j"
  shows "wild_match (replicate j (CHR ''a'')) (replicate 1021 (CHR ''a'')) = 1"
proof -
  have "concat (map piece_text (replicate 1021 (PLit (CHR ''a'')))) = replicate 1021 (CHR ''a'')"
    by (simp add: lit_text_def is_meta_iff concat_replicate_single)
  then have e: "irc_to_ere (replicate j (CHR ''a'')) 1024 False =
      Some (''^'' @ concat (map piece_text (pieces False (replicate 1021 (CHR ''a'')))) @ ''$'')"
    using assms by (simp add: irc_to_ere_def irc_to_ere_loop_plain pieces_plain)
  have "ere_match False (replicate j (CHR ''a'')) (replicate 1021 (CHR ''a'')) = 1"
    by (subst ere_match_pieces [OF _ _ e]) (simp_all add: cstring_def line_def pieces_plain pmatch_plain)
  then show ?thesis using assms by (auto simp: wild_match_def)
qed

theorem wild_match_truncates_witness:
  "wild_match (replicate 2000 (CHR ''a'')) (replicate 1021 (CHR ''a'')) = 1"
  by (rule wild_match_truncates) simp

end
