(* ===== verification/MatchAddr.thy ===== *)
theory MatchAddr
  imports MatchWild
begin

text \<open>
  Addresses, collapsing and crontab fields of \<open>src/src/match.c\<close>, and what \<open>op_inet_pton\<close> of
  \<open>src/libop/src/commio.c\<close> accepts.
\<close>

section \<open>Dotted quads\<close>

lemma digits_value_ge: "acc \<le> digits_value 10 acc ds" if "0 \<le> acc"
  using that
proof (induction ds arbitrary: acc)
  case (Cons c ds)
  have "acc * 10 + int (the (digit_val c)) \<le> digits_value 10 (acc * 10 + int (the (digit_val c))) ds"
    using Cons by simp
  then show ?case using Cons.prems by simp
qed simp

lemma digit_val_isdigit: "isdigit c \<Longrightarrow> digit_val c = Some (uc c - 48)"
  by (auto simp: isdigit_def digit_val_def less_eq_char_def)

lemma pton4_more_digits:
  "list_all isdigit ds \<Longrightarrow> digits_value 10 (int v) ds \<le> 255 \<Longrightarrow>
     pton4_loop (ds @ s) (tmp @ [v]) True k = pton4_loop s (tmp @ [nat (digits_value 10 (int v) ds)]) True k"
proof (induction ds arbitrary: v)
  case (Cons c ds)
  let ?v = "v * 10 + (uc c - 48)"
  have d: "digits_value 10 (int v) (c # ds) = digits_value 10 (int ?v) ds"
    using Cons.prems by (simp add: digit_val_isdigit)
  then have "?v \<le> 255" using digits_value_ge [of "int ?v" ds] Cons.prems by linarith
  then show ?case using Cons d by simp
qed simp

lemma pton4_digits:
  assumes "list_all isdigit ds" "ds \<noteq> []" "digits_value 10 0 ds \<le> 255" "k < 4"
  shows "pton4_loop (ds @ s) (tmp @ [0]) False k =
    pton4_loop s (tmp @ [nat (digits_value 10 0 ds)]) True (k + 1)"
proof -
  obtain c ds' where c: "ds = c # ds'" using assms(2) by (cases ds) auto
  let ?v = "uc c - 48"
  have d: "digits_value 10 0 ds = digits_value 10 (int ?v) ds'"
    using assms(1) c by (simp add: digit_val_isdigit)
  then have "?v \<le> 255" using digits_value_ge [of "int ?v" ds'] assms(3) by linarith
  then show ?thesis using pton4_more_digits [of ds' ?v s tmp "k + 1"] assms d c by simp
qed

definition quad_text :: "uchar list \<Rightarrow> string" where
  "quad_text a = concat (map (\<lambda>b. dec (unat b) @ ''.'') (butlast a)) @ dec (unat (last a))"

section \<open>Prefixes\<close>

text \<open>The \<open>i\<close>-th bit of an address, the most significant bit of its first byte being bit 0.\<close>

definition abit :: "uchar list \<Rightarrow> nat \<Rightarrow> bool" where
  "abit a i = bit (a ! (i div 8)) (7 - i mod 8)"

lemma byte_eq_iff: "(x :: uchar) = y \<longleftrightarrow> (\<forall>j < 8. bit x (7 - j) = bit y (7 - j))"
proof
  assume e: "\<forall>j < 8. bit x (7 - j) = bit y (7 - j)"
  show "x = y"
  proof (rule bit_word_eqI)
    fix n assume "n < LENGTH(8)"
    then show "bit x n = bit y n" using e [rule_format, of "7 - n"] by simp
  qed
qed simp

lemma top_mask_bit: "k \<le> 8 \<Longrightarrow>
  bit (ucast (push_bit (8 - k) (0xFF :: int32)) :: uchar) j \<longleftrightarrow> 8 - k \<le> j \<and> j < 8"
proof -
  have m: "(0xFF :: int32) = mask 8" by (simp add: mask_eq_decr_exp)
  show ?thesis
    unfolding m bit_ucast_iff bit_push_bit_iff bit_mask_iff possible_bit_word by auto
qed

lemma bits_split:
  "(\<forall>i < n. P i) \<longleftrightarrow> (\<forall>j < n div 8. \<forall>k < 8. P (8 * j + k)) \<and> (\<forall>k < n mod 8. P (8 * (n div 8) + k))"
  for n :: nat
proof
  assume p: "\<forall>i < n. P i"
  have "8 * j + k < n" if "j < n div 8" "k < 8" for j k
  proof -
    have "8 * j + 8 \<le> 8 * (n div 8)" using that(1) by simp
    also have "\<dots> \<le> n" by simp
    finally show ?thesis using that(2) by simp
  qed
  moreover have "8 * (n div 8) + k < n" if "k < n mod 8" for k
    using that mult_div_mod_eq [of 8 n] by linarith
  ultimately show "(\<forall>j < n div 8. \<forall>k < 8. P (8 * j + k)) \<and> (\<forall>k < n mod 8. P (8 * (n div 8) + k))"
    using p by blast
next
  assume p: "(\<forall>j < n div 8. \<forall>k < 8. P (8 * j + k)) \<and> (\<forall>k < n mod 8. P (8 * (n div 8) + k))"
  show "\<forall>i < n. P i"
  proof (intro allI impI)
    fix i assume "i < n"
    have i: "i = 8 * (i div 8) + i mod 8" "i mod 8 < 8" by simp_all
    show "P i"
    proof (cases "i div 8 < n div 8")
      case True
      then show ?thesis using p i by metis
    next
      case False
      then have e: "i div 8 = n div 8" using \<open>i < n\<close> div_le_mono [of i n 8] by linarith
      then have "i mod 8 < n mod 8" using \<open>i < n\<close> mult_div_mod_eq [of 8 n] i(1) by linarith
      then show ?thesis using p i(1) e by metis
    qed
  qed
qed

lemma abit_byte: "k < 8 \<Longrightarrow> abit a (8 * j + k) \<longleftrightarrow> bit (a ! j) (7 - k)"
  by (simp add: abit_def)

lemma comp_with_mask_iff:
  assumes "length a = length b" "bits \<le> 8 * length a"
  shows "comp_with_mask a b bits \<longleftrightarrow> (\<forall>i < bits. abit a i = abit b i)"
proof -
  let ?n = "bits div 8" and ?k = "bits mod 8"
  let ?m = "ucast (push_bit (8 - ?k) (0xFF :: int32)) :: uchar"
  have n: "?n \<le> length a" using assms(2) by linarith
  have "take ?n a = take ?n b \<longleftrightarrow> (\<forall>j < ?n. a ! j = b ! j)"
    using n assms(1) by (auto simp: list_eq_iff_nth_eq)
  also have "\<dots> \<longleftrightarrow> (\<forall>j < ?n. \<forall>k < 8. abit a (8 * j + k) = abit b (8 * j + k))"
    by (simp add: abit_byte byte_eq_iff)
  finally have t: "take ?n a = take ?n b \<longleftrightarrow> (\<forall>j < ?n. \<forall>k < 8. abit a (8 * j + k) = abit b (8 * j + k))" .
  have m: "bit ?m (7 - k) \<longleftrightarrow> k < ?k" if "k < 8" for k
  proof -
    have "?k \<le> 8" by simp
    then show ?thesis unfolding top_mask_bit [OF \<open>?k \<le> 8\<close>] using that by auto
  qed
  have "a ! ?n AND ?m = b ! ?n AND ?m \<longleftrightarrow>
      (\<forall>k < 8. (bit (a ! ?n) (7 - k) \<and> k < ?k) = (bit (b ! ?n) (7 - k) \<and> k < ?k))"
    unfolding byte_eq_iff bit_and_iff using m by simp
  also have "\<dots> \<longleftrightarrow> (\<forall>k < ?k. abit a (8 * ?n + k) = abit b (8 * ?n + k))"
    using abit_byte [of _ _ ?n] mod_less_divisor [of 8 bits] by (smt (verit) less_trans zero_less_numeral)
  finally show ?thesis
    unfolding comp_with_mask_def Let_def bits_split [of bits] t by auto
qed

section \<open>What a dotted quad is\<close>

fun dotted :: "string list \<Rightarrow> string" where
  "dotted [] = []"
| "dotted [p] = p"
| "dotted (p # ps) = p @ CHR ''.'' # dotted ps"

definition octet_text :: "string \<Rightarrow> bool" where
  "octet_text p \<longleftrightarrow> p \<noteq> [] \<and> list_all isdigit p \<and> digits_value 10 0 p \<le> 255"

definition octet_val :: "string \<Rightarrow> nat" where
  "octet_val p = nat (digits_value 10 0 p)"

lemma not_digit_dot: "\<not> isdigit (CHR ''.'')"
  by (simp add: isdigit_def)

lemma pton4_octet:
  "octet_text p \<Longrightarrow> k < 4 \<Longrightarrow>
     pton4_loop (p @ s) (tmp @ [0]) False k = pton4_loop s (tmp @ [octet_val p]) True (k + 1)"
  unfolding octet_text_def octet_val_def by (rule pton4_digits) auto

lemma pton4_more_Some:
  "pton4_loop (ds @ s) (tmp @ [v]) True k = Some r \<Longrightarrow> list_all isdigit ds \<Longrightarrow> v \<le> 255 \<Longrightarrow>
     digits_value 10 (int v) ds \<le> 255"
proof (induction ds arbitrary: v)
  case (Cons c ds)
  then have "v * 10 + (uc c - 48) \<le> 255" "pton4_loop (ds @ s) (tmp @ [v * 10 + (uc c - 48)]) True k = Some r"
    by (auto simp: Let_def split: if_splits)
  then show ?case using Cons.IH [of "v * 10 + (uc c - 48)"] Cons.prems by (simp add: digit_val_isdigit)
qed simp

lemma pton4_Some_octet:
  assumes "pton4_loop s (tmp @ [0]) False k = Some r" "k < 4"
  shows "octet_text (takeWhile isdigit s)"
proof -
  have "s \<noteq> []" using assms by auto
  then obtain c s' where s: "s = c # s'" by (cases s) auto
  have d: "isdigit c" using assms s by (auto split: if_splits)
  then have c: "uc c - 48 \<le> 255" "pton4_loop s' (tmp @ [uc c - 48]) True (k + 1) = Some r"
    using assms s by (auto simp: Let_def split: if_splits)
  have "digits_value 10 (int (uc c - 48)) (takeWhile isdigit s') \<le> 255"
    using c pton4_more_Some [of "takeWhile isdigit s'" "dropWhile isdigit s'" tmp "uc c - 48" "k + 1" r]
    by (auto simp: list_all_iff dest: set_takeWhileD)
  then show ?thesis
    using s d by (auto simp: octet_text_def digit_val_isdigit list_all_iff dest: set_takeWhileD)
qed

lemma pton4_loop_iff:
  "k < 4 \<Longrightarrow> pton4_loop s (tmp @ [0]) False k = Some r \<longleftrightarrow>
     (\<exists>ps. length ps = 4 - k \<and> list_all octet_text ps \<and> s = dotted ps \<and> r = tmp @ map octet_val ps)"
proof (induction "4 - k" arbitrary: k s tmp)
  case (Suc n)
  let ?p = "takeWhile isdigit s" and ?q = "dropWhile isdigit s"
  have k: "k < 4" using Suc.prems .
  have more: "pton4_loop (CHR ''.'' # s') (tmp @ [v]) True (k + 1) = Some r \<longleftrightarrow>
      (\<exists>ps. length ps = 4 - (k + 1) \<and> ps \<noteq> [] \<and> list_all octet_text ps \<and> s' = dotted ps \<and>
        r = tmp @ [v] @ map octet_val ps)" for s' v
  proof (cases "k = 3")
    case False
    then have "k + 1 < 4" "n = 4 - (k + 1)" using k Suc.hyps(2) by simp_all
    from Suc.hyps(1) [OF this(2,1), of s' "tmp @ [v]"] this show ?thesis
      by (auto simp: not_digit_dot)
  qed (simp add: not_digit_dot)
  show ?case
  proof
    assume L: "pton4_loop s (tmp @ [0]) False k = Some r"
    then have o: "octet_text ?p" using k by (rule pton4_Some_octet)
    have "pton4_loop (?p @ ?q) (tmp @ [0]) False k = Some r" using L by simp
    then have q: "pton4_loop ?q (tmp @ [octet_val ?p]) True (k + 1) = Some r"
      unfolding pton4_octet [OF o k] .
    show "\<exists>ps. length ps = 4 - k \<and> list_all octet_text ps \<and> s = dotted ps \<and> r = tmp @ map octet_val ps"
    proof (cases ?q)
      case Nil
      then have "s = ?p" by (metis dropWhile_eq_Nil_conv takeWhile_eq_all_conv)
      then show ?thesis using o q Nil k by (intro exI [of _ "[?p]"]) (auto split: if_splits)
    next
      case (Cons c s')
      then have "\<not> isdigit c" by (metis dropWhile_eq_Cons_conv)
      then have c: "c = CHR ''.''" using q Cons by (auto split: if_splits)
      then obtain ps where ps: "length ps = 4 - (k + 1)" "ps \<noteq> []" "list_all octet_text ps"
        "s' = dotted ps" "r = tmp @ [octet_val ?p] @ map octet_val ps"
        using q more Cons by auto
      have "s = ?p @ CHR ''.'' # s'" using Cons c takeWhile_dropWhile_id [of isdigit s] by simp
      then show ?thesis using ps o k
        by (intro exI [of _ "?p # ps"]) (cases ps; simp)
    qed
  next
    assume "\<exists>ps. length ps = 4 - k \<and> list_all octet_text ps \<and> s = dotted ps \<and> r = tmp @ map octet_val ps"
    then obtain qs where qs: "length qs = 4 - k" "list_all octet_text qs" "s = dotted qs"
      "r = tmp @ map octet_val qs" by blast
    then obtain p ps where "qs = p # ps" using k by (cases qs) auto
    then have ps: "Suc (length ps) = 4 - k" "octet_text p" "list_all octet_text ps"
      "s = dotted (p # ps)" "r = tmp @ [octet_val p] @ map octet_val ps"
      using qs by simp_all
    show "pton4_loop s (tmp @ [0]) False k = Some r"
    proof (cases ps)
      case Nil
      then show ?thesis using ps k pton4_octet [OF ps(2) k, of "[]"] by simp
    next
      case (Cons p' ps')
      then have s: "s = p @ CHR ''.'' # dotted ps" using ps(4) by simp
      show ?thesis unfolding s pton4_octet [OF ps(2) k] more
        using ps Cons by (intro exI [of _ ps]) simp
    qed
  qed
qed simp

lemma inet_pton4_octets:
  "inet_pton4 s = Some a \<longleftrightarrow>
     (\<exists>ps. length ps = 4 \<and> list_all octet_text ps \<and> s = dotted ps \<and> a = map (\<lambda>p. of_nat (octet_val p)) ps)"
  using pton4_loop_iff [of 0 s "[]"] by (auto simp: inet_pton4_def)

text \<open>
  \<open>op_inet_pton\<close> reads an IPv4 address exactly when it is four decimal numbers up to 255
  separated by dots, and returns their bytes.
\<close>

theorem inet_pton4_iff:
  "op_inet_pton False s = Some a \<longleftrightarrow>
     (\<exists>ps. length ps = 4 \<and> list_all octet_text ps \<and> s = dotted ps \<and> a = map (\<lambda>p. of_nat (octet_val p)) ps)"
  by (simp add: op_inet_pton_def inet_pton4_octets)

text \<open>
  the printed form of an IPv4 address reads back as the address.
\<close>

theorem inet_pton4_roundtrip:
  assumes "length a = 4"
  shows "op_inet_pton False (dotted (map (\<lambda>b. dec (unat b)) a)) = Some a"
proof -
  have "octet_text (dec (unat b)) \<and> octet_val (dec (unat b)) = unat b" for b :: uchar
    using unsigned_less [of b, where 'a = int]
    by (auto simp: octet_text_def octet_val_def digits_value_dec list_all_iff dest: dec_digits)
  then have "inet_pton4 (dotted (map (\<lambda>b. dec (unat b)) a)) = Some a"
    using assms unfolding inet_pton4_octets
    by (intro exI [of _ "map (\<lambda>b. dec (unat b)) a"]) (simp add: list_all_iff comp_def)
  then show ?thesis by (simp add: op_inet_pton_def)
qed

theorem inet_pton4_roundtrip_witness:
  "op_inet_pton False ''192.0.2.255'' = Some [192, 0, 2, 255]"
proof -
  have "dotted (map (\<lambda>b :: uchar. dec (unat b)) [192, 0, 2, 255]) = ''192.0.2.255''" by code_simp
  then show ?thesis using inet_pton4_roundtrip [of "[192, 0, 2, 255]"] by simp
qed

section \<open>IPv6\<close>

lemma inet_pton4_length: "inet_pton4 s = Some a \<Longrightarrow> length a = 4"
  unfolding inet_pton4_octets by auto

lemma pton6_loop_length:
  "pton6_loop s tp k val saw tok = Some (tp', k', val', saw') \<Longrightarrow> length tp \<le> 16 \<Longrightarrow>
     (\<forall>j. k = Some j \<longrightarrow> j \<le> length tp) \<Longrightarrow>
     length tp' \<le> 16 \<and> (\<forall>j. k' = Some j \<longrightarrow> j \<le> length tp')"
proof (induction s tp k val saw tok rule: pton6_loop.induct)
  case (2 ch src tp k val saw tok)
  show ?case
  proof (cases "xdigit_val ch")
    case (Some d)
    then show ?thesis using 2 by (auto simp: Let_def split: if_splits)
  next
    case None
    then show ?thesis
      using 2 by (auto simp: put16_def intro: le_SucI dest: inet_pton4_length split: if_splits option.splits)
  qed
qed auto

lemma inet_pton6_length: "inet_pton6 s = Some a \<Longrightarrow> length a = 16"
proof -
  assume i: "inet_pton6 s = Some a"
  then obtain src st where st: "pton6_loop src [] None 0 False src = Some st" "pton6_finish st = Some a"
    by (auto simp: inet_pton6_def Let_def split: if_splits option.splits)
  obtain tp k val saw where s: "st = (tp, k, val, saw)" by (cases st) auto
  have l: "length tp \<le> 16" "\<forall>j. k = Some j \<longrightarrow> j \<le> length tp"
    using pton6_loop_length [of src "[]" None 0 False src] st(1) s by auto
  show "length a = 16"
    using st(2) l unfolding s
    by (auto simp: pton6_finish_def put16_def Let_def split: if_splits option.splits)
qed

lemma inet_pton_len: "op_inet_pton v6 s = Some a \<Longrightarrow> length a = (if v6 then 16 else 4)"
  using inet_pton4_length inet_pton6_length by (auto simp: op_inet_pton_def split: if_splits)

text \<open>
  \<open>op_inet_pton\<close> returns a whole address or nothing: four bytes for IPv4, sixteen for IPv6;
  the IPv6 loop never writes past the sixteen bytes of \<open>tmp\<close>, and the mark of a \<open>::\<close> stays inside
  what has been written.
\<close>

theorem op_inet_pton_length:
  "(case op_inet_pton v6 s of None \<Rightarrow> True | Some a \<Rightarrow> length a = (if v6 then 16 else 4)) \<and>
   (case pton6_loop s [] None 0 False tok of
      None \<Rightarrow> True
    | Some (tp, k, _) \<Rightarrow> length tp \<le> 16 \<and> (case k of None \<Rightarrow> True | Some j \<Rightarrow> j \<le> length tp))"
proof
  show "case op_inet_pton v6 s of None \<Rightarrow> True | Some a \<Rightarrow> length a = (if v6 then 16 else 4)"
    using inet_pton_len [of v6 s] by (auto split: option.splits)
  show "case pton6_loop s [] None 0 False tok of
      None \<Rightarrow> True
    | Some (tp, k, _) \<Rightarrow> length tp \<le> 16 \<and> (case k of None \<Rightarrow> True | Some j \<Rightarrow> j \<le> length tp)"
    using pton6_loop_length [of s "[]" None 0 False tok] by (auto split: option.splits prod.splits)
qed

lemma xdigit_colon: "xdigit_val (CHR '':'') = None"
  by (simp add: xdigit_val_def isdigit_def tolower_def)

text \<open>Only a dotted tail looks at the current token.\<close>

lemma pton6_loop_tok:
  "CHR ''.'' \<notin> set s \<Longrightarrow> pton6_loop s tp k val saw tok = pton6_loop s tp k val saw []"
proof (induction s arbitrary: tp k val saw tok)
  case (Cons ch src)
  have "CHR ''.'' \<notin> set src" "ch \<noteq> CHR ''.''" using Cons.prems by auto
  note ih = Cons.IH [OF this(1)]
  show ?case
  proof (cases "xdigit_val ch")
    case None
    show ?thesis
    proof (cases "ch = CHR '':''")
      case False
      then show ?thesis using None \<open>ch \<noteq> CHR ''.''\<close> ih [of tp k val saw tok] by simp
    qed (simp add: None xdigit_colon)
  next
    case (Some d)
    then show ?thesis using ih [of tp k "val * 16 + d" True tok] by (simp add: Let_def)
  qed
qed simp

lemma pton_leading:
  "op_inet_pton True (''::'' @ t) =
     (case pton6_loop t [] (Some 0) 0 False t of None \<Rightarrow> None | Some st \<Rightarrow> pton6_finish st)"
  using xdigit_colon by (simp add: op_inet_pton_def inet_pton4_def inet_pton6_def isdigit_def)

definition pton_junk :: "char \<Rightarrow> bool" where
  "pton_junk c \<longleftrightarrow> xdigit_val c = None \<and> c \<noteq> CHR '':'' \<and> c \<noteq> CHR ''.''"

text \<open>
  \<open>inet_pton6\<close> skips every byte that is neither a hexadecimal digit nor a colon nor a dot
  instead of refusing the address: behind a leading \<open>::\<close>, junk changes nothing.
\<close>

theorem inet_pton6_skips_junk:
  assumes "list_all pton_junk junk" "CHR ''.'' \<notin> set s"
  shows "op_inet_pton True (''::'' @ junk @ s) = op_inet_pton True (''::'' @ s)"
proof -
  have "pton6_loop (junk @ s) tp k val saw tok = pton6_loop s tp k val saw tok" for tp k val saw tok
    using assms(1) by (induction junk) (auto simp: pton_junk_def)
  then have j: "pton6_loop (junk @ s) [] (Some 0) 0 False (junk @ s) = pton6_loop s [] (Some 0) 0 False s"
    using pton6_loop_tok [OF assms(2), of "[]" "Some 0" 0 False "junk @ s"]
      pton6_loop_tok [OF assms(2), of "[]" "Some 0" 0 False s] by simp
  show ?thesis by (simp only: pton_leading j)
qed

theorem inet_pton6_skips_junk_witness:
  "op_inet_pton True ''::zz1'' = op_inet_pton True ''::1'' \<and> op_inet_pton True ''::1'' = Some (replicate 14 0 @ [0, 1])"
proof
  have "list_all pton_junk ''zz''" "CHR ''.'' \<notin> set ''1''" by code_simp+
  from inet_pton6_skips_junk [OF this]
  show "op_inet_pton True ''::zz1'' = op_inet_pton True ''::1''" by simp
  have "xdigit_val (CHR ''1'') = Some 1" by code_simp
  then show "op_inet_pton True ''::1'' = Some (replicate 14 0 @ [0, 1])"
    using pton_leading [of "''1''"] by (simp add: pton6_finish_def put16_def)
qed

section \<open>CIDR blocks\<close>

text \<open>Two texts are addresses of one family that agree in their leading bits.\<close>

definition same_prefix :: "string \<Rightarrow> string \<Rightarrow> int \<Rightarrow> bool" where
  "same_prefix m n count \<longleftrightarrow>
     (let v6 = (CHR '':'' \<in> set m \<or> CHR '':'' \<in> set n) in
      count \<le> (if v6 then 128 else 32) \<and>
      (case (op_inet_pton v6 m, op_inet_pton v6 n) of
         (Some a, Some b) \<Rightarrow> (\<forall>i < nat count. abit b i = abit a i)
       | _ \<Rightarrow> False))"

lemma cidr_match_iff:
  "cidr_match m n count = (if same_prefix m n count then max 1 count else 0)"
proof -
  define v6 where "v6 = (CHR '':'' \<in> set m \<or> CHR '':'' \<in> set n)"
  have s: "strchr x (CHR '':'') \<noteq> None \<longleftrightarrow> CHR '':'' \<in> set x" for x
    using strchr_None [of "CHR '':''" x] by simp
  have c: "comp_with_mask b a (nat count) \<longleftrightarrow> (\<forall>i < nat count. abit b i = abit a i)"
    if "op_inet_pton v6 m = Some a" "op_inet_pton v6 n = Some b" "count \<le> (if v6 then 128 else 32)" for a b
  proof (rule comp_with_mask_iff)
    have l: "length a = (if v6 then 16 else 4)" "length b = (if v6 then 16 else 4)"
      using inet_pton_len that(1,2) by blast+
    then show "length b = length a" by simp
    show "nat count \<le> 8 * length b" using l that(3) by (auto split: if_splits)
  qed
  show ?thesis
    using c unfolding cidr_match_def same_prefix_def s Let_def v6_def [symmetric]
    by (auto split: option.splits)
qed

section \<open>Hostmasks\<close>

lemma upper_copy_at:
  "length u + length h < 323 \<Longrightarrow> CHR ''@'' \<notin> set h \<Longrightarrow>
     upper_copy (u @ CHR ''@'' # h) =
       (map rfc_toupper u @ CHR ''@'' # map rfc_toupper h, Some (length u))"
  using strrchr_last [of "CHR ''@''" h u]
  by (simp add: upper_copy_def UHOSTLEN_def uc_eq_iff uc_rfc_toupper)

lemma upper_cstring: "cstring s \<Longrightarrow> cstring (map rfc_toupper s)"
  by (auto simp: cstring_def)

lemma upper_line: "line s \<Longrightarrow> line (map rfc_toupper s)"
proof -
  assume l: "line s"
  have "rfc_toupper c = CHR 0x0A \<longleftrightarrow> c = CHR 0x0A" for c
    unfolding uc_eq_iff uc_rfc_toupper by auto
  then have "CHR 0x0A \<notin> set (map rfc_toupper s)"
    using l unfolding line_def set_map image_iff by metis
  then show ?thesis using l upper_cstring by (simp add: line_def)
qed

text \<open>Wildcard matching in which only names without bytes match nothing.\<close>

definition masks :: "string \<Rightarrow> string \<Rightarrow> bool" where
  "masks m n \<longleftrightarrow> m \<noteq> [] \<and> n \<noteq> [] \<and> wild m n"

text \<open>What the host part of a mask accepts: an address block when it ends in \<open>/digits\<close>.\<close>

definition host_accepts :: "string \<Rightarrow> string \<Rightarrow> bool" where
  "host_accepts h n \<longleftrightarrow>
     (case strrchr h (CHR ''/'') of
        Some p \<Rightarrow>
          if str_isdigit (drop (Suc p) h) then same_prefix (take p h) n (egg_atoi (drop (Suc p) h))
          else masks h n
      | None \<Rightarrow> masks h n)"

lemma wild_match_masks:
  "cstring m \<Longrightarrow> line n \<Longrightarrow> length m \<le> 510 \<Longrightarrow> wild_match m n = (if masks m n then 1 else 0)"
  using ere_match_pieces [OF _ _ irc_to_ere_pieces, of m n False]
  by (simp add: wild_match_def pmatch_wild masks_def)

text \<open>
  C29: \<open>addr_match\<close> of a hostmask \<open>u@h\<close> and a hostname \<open>v@g\<close>, where CIDR masks are supported:
  the text in front of the last \<open>@\<close> matches as a wildcard mask under RFC 1459 case folding, and
  the host is in the mask's address block, when it has one, or matches it as a wildcard mask.
\<close>

theorem addr_match_iff:
  assumes "cidr_support \<or> user" "cstring u" "cstring h" "line v" "line g"
    and "CHR ''@'' \<notin> set h" "CHR ''@'' \<notin> set g" "length u + length h < 323" "length v + length g < 323"
  shows "addr_match cidr_support (u @ ''@'' @ h) (v @ ''@'' @ g) user False \<noteq> 0 \<longleftrightarrow>
    masks (map rfc_toupper u) (map rfc_toupper v) \<and>
    (h = [] \<and> g = [] \<or> host_accepts (map rfc_toupper h) (map rfc_toupper g))"
proof -
  let ?u = "map rfc_toupper u" and ?v = "map rfc_toupper v" and ?h = "map rfc_toupper h" and ?g = "map rfc_toupper g"
  have c: "upper_copy (u @ ''@'' @ h) = (?u @ CHR ''@'' # ?h, Some (length u))"
    "upper_copy (v @ ''@'' @ g) = (?v @ CHR ''@'' # ?g, Some (length v))"
    using assms upper_copy_at by simp_all
  have w: "wild_match ?u ?v = (if masks ?u ?v then 1 else 0)" "wild_match ?h ?g = (if masks ?h ?g then 1 else 0)"
    using assms upper_cstring upper_line by (simp_all add: wild_match_masks)
  show ?thesis
    using assms(1) unfolding addr_match_def c host_accepts_def
    by (auto simp: w cidr_match_iff Let_def split: option.splits)
qed

theorem addr_match_iff_witness:
  "addr_match True ''*!a@10.1.0.0/16'' ''x!A@10.1.2.3'' False False \<noteq> 0"
proof -
  have w: "masks (map rfc_toupper ''*!a'') (map rfc_toupper ''x!A'')" by code_simp
  have "host_accepts (map rfc_toupper ''10.1.0.0/16'') (map rfc_toupper ''10.1.2.3'')" by code_simp
  with w show ?thesis
    using addr_match_iff [of True False "''*!a''" "''10.1.0.0/16''" "''x!A''" "''10.1.2.3''"]
    by (simp add: line_def cstring_def)
qed

section \<open>Collapsing\<close>

lemma wild_star_twice: "wild (CHR ''*'' # CHR ''*'' # m) n \<longleftrightarrow> wild (CHR ''*'' # m) n"
  using wild_stars [of "CHR ''*'' # m" n] wild_stars [of m n] by simp

lemma wild_collapse_loop:
  "wild (collapse_loop False m) n \<longleftrightarrow> wild m n"
  "wild (CHR ''*'' # collapse_loop True m) n \<longleftrightarrow> wild (CHR ''*'' # m) n"
proof (induction m arbitrary: n)
  case (Cons c m)
  { case 1 show ?case using Cons by (cases "c = CHR ''*''") (auto split: list.splits) }
  { case 2
    show ?case
    proof (cases "c = CHR ''*''")
      case True
      then show ?thesis using Cons(2) wild_star_twice by simp
    next
      case False
      then have "wild (c # collapse_loop False m) n' \<longleftrightarrow> wild (c # m) n'" for n'
        using Cons(1) by (auto split: list.splits)
      then show ?thesis using False by (simp add: wild_star_iff del: wild.simps)
    qed }
qed simp_all

text \<open>
  \<open>collapse\<close> leaves a mask that matches the same texts, never longer, with no two stars in a
  row, so that collapsing again changes nothing.
\<close>

theorem collapse_same_mask:
  "(wild (collapse m) n \<longleftrightarrow> wild m n) \<and> length (collapse m) \<le> length m \<and>
   collapse (collapse m) = collapse m \<and>
   (\<nexists>a b. collapse m = a @ ''**'' @ b)"
proof (intro conjI)
  show "wild (collapse m) n \<longleftrightarrow> wild m n" by (simp add: collapse_def wild_collapse_loop)
  have "length (collapse_loop st m) \<le> length m" for st
    by (induction m arbitrary: st) (auto simp: le_SucI)
  then show "length (collapse m) \<le> length m" by (simp add: collapse_def)
  have "collapse_loop st (collapse_loop st m) = collapse_loop st m" for st
    by (induction m arbitrary: st) auto
  then show "collapse (collapse m) = collapse m" by (simp add: collapse_def)
  have "collapse_loop st m = a @ CHR ''*'' # CHR ''*'' # b \<Longrightarrow> False" for st a b
  proof (induction m arbitrary: st a)
    case (Cons c m)
    have h: "collapse_loop True x \<noteq> CHR ''*'' # s" for x s
      by (induction x) auto
    show ?case
    proof (cases a)
      case Nil
      then show ?thesis using Cons.prems h [of m] by (auto split: if_splits)
    next
      case (Cons x l)
      then show ?thesis
        using Cons.prems Cons.IH [of True a] Cons.IH [of True l] Cons.IH [of False l]
        by (auto split: if_splits)
    qed
  qed simp
  then show "\<nexists>a b. collapse m = a @ ''**'' @ b" by (auto simp: collapse_def)
qed

section \<open>Crontab entries\<close>

definition cron_word :: "string \<Rightarrow> bool" where
  "cron_word w \<longleftrightarrow> w \<noteq> [] \<and> cstring w \<and> CHR '' '' \<notin> set w"

lemma newsplit_word:
  assumes "cron_word w" "cstring s" "s = [] \<or> hd s = CHR '' ''"
  shows "newsplit (w @ s) = (w, tl s)"
proof -
  obtain c w' where w: "w = c # w'" "c \<noteq> CHR '' ''" "CHR '' '' \<notin> set w" "cstring w"
    using assms(1) by (cases w) (auto simp: cron_word_def)
  have "dropWhile (\<lambda>x. x = CHR '' '') (w @ s) = w @ s" using w by simp
  moreover have "takeWhile (\<lambda>x. x \<noteq> CHR '' '') (w @ s) = w" "dropWhile (\<lambda>x. x \<noteq> CHR '' '') (w @ s) = s"
    using w(3) assms(3) by (cases s; auto simp: takeWhile_append dropWhile_append)+
  ultimately show ?thesis using newsplit_eq [of "w @ s"] w(4) assms(2) by simp
qed

text \<open>One field, with Sunday also written 7.\<close>

definition cron_hit :: "nat \<Rightarrow> string \<Rightarrow> int \<Rightarrow> bool" where
  "cron_hit i q t \<longleftrightarrow> cron_matchfld q t \<or> i = 4 \<and> t = 0 \<and> cron_matchfld q 7"

lemma cron_loop_step:
  assumes "cron_word q" "cstring s" "i < 4"
  shows "cron_loop (q @ CHR '' '' # s) i m d t =
    (if q = ''*'' then cron_loop s (i + 1) m d t
     else if i = 2 then cron_loop s (i + 1) (cron_hit i q (t ! i)) (cron_hit i q (t ! i)) t
     else if \<not> cron_hit i q (t ! i) \<or> i = 3 \<and> d then cron_hit i q (t ! i)
     else cron_loop s (i + 1) (cron_hit i q (t ! i)) d t)"
  using assms newsplit_word [of q "CHR '' '' # s"]
  by (subst cron_loop.simps) (auto simp: cron_hit_def cron_word_def Let_def)

lemma cron_loop_last:
  "cron_word q \<Longrightarrow> cron_loop q 4 m d t = (if q = ''*'' then m else cron_hit 4 q (t ! 4))"
  using newsplit_word [of q "[]"]
  by (subst cron_loop.simps) (auto simp: cron_hit_def cron_word_def Let_def cron_loop.simps [of "[]"])

text \<open>
  what a complete entry asks for.  Minute and hour must match.  With an explicit month, the
  month must match, and then a matching day of month is enough and so is a weekday of \<open>*\<close>, even when
  the day of month does not match; with a month of \<open>*\<close> an explicit weekday decides alone, whatever
  the day of month.
\<close>

theorem cron_match_fields:
  assumes "scan_ints 5 now = Some [t0, t1, t2, t3, t4]" "list_all cron_word [q0, q1, q2, q3, q4]"
  shows "cron_match (q0 @ '' '' @ q1 @ '' '' @ q2 @ '' '' @ q3 @ '' '' @ q4) now \<longleftrightarrow>
    (q0 = ''*'' \<or> cron_hit 0 q0 t0) \<and> (q1 = ''*'' \<or> cron_hit 1 q1 t1) \<and>
    (if q3 \<noteq> ''*'' then
       cron_hit 3 q3 t3 \<and> (q2 \<noteq> ''*'' \<and> cron_hit 2 q2 t2 \<or> q4 = ''*'' \<or> cron_hit 4 q4 t4)
     else if q4 \<noteq> ''*'' then cron_hit 4 q4 t4
     else q2 = ''*'' \<or> cron_hit 2 q2 t2)"
proof -
  let ?t = "[t0, t1, t2, t3, t4]"
  have q: "cron_word q0" "cron_word q1" "cron_word q2" "cron_word q3" "cron_word q4"
    "cstring q1" "cstring q2" "cstring q3" "cstring q4" "q0 \<noteq> []"
    using assms(2) by (simp_all add: cron_word_def)
  define s3 where "s3 = q3 @ CHR '' '' # q4"
  define s2 where "s2 = q2 @ CHR '' '' # s3"
  define s1 where "s1 = q1 @ CHR '' '' # s2"
  have c: "cstring s3" "cstring s2" "cstring s1" using assms(2) by (simp_all add: cron_word_def s3_def s2_def s1_def)
  have l3: "cron_loop s3 3 m d ?t =
      (if q3 = ''*'' then (if q4 = ''*'' then m else cron_hit 4 q4 t4)
       else cron_hit 3 q3 t3 \<and> (d \<or> q4 = ''*'' \<or> cron_hit 4 q4 t4))" for m d
    using cron_loop_step [OF q(4,9), of 3 m d ?t] cron_loop_last [OF q(5), of _ _ ?t]
    unfolding s3_def by auto
  have l2: "cron_loop s2 2 m d ?t =
      (if q2 = ''*'' then cron_loop s3 3 m d ?t
       else cron_loop s3 3 (cron_hit 2 q2 t2) (cron_hit 2 q2 t2) ?t)" for m d
    using cron_loop_step [OF q(3) c(1), of 2 m d ?t] unfolding s2_def by simp
  have l1: "cron_loop s1 1 m d ?t =
      (if q1 = ''*'' then cron_loop s2 2 m d ?t
       else cron_hit 1 q1 t1 \<and> cron_loop s2 2 True d ?t)" for m d
    using cron_loop_step [OF q(2) c(2), of 1 m d ?t] unfolding s1_def by (auto simp: numeral_2_eq_2)
  have "cron_loop (q0 @ CHR '' '' # s1) 0 True False ?t =
      (if q0 = ''*'' then cron_loop s1 1 True False ?t
       else cron_hit 0 q0 t0 \<and> cron_loop s1 1 True False ?t)"
    using cron_loop_step [OF q(1) c(3), of 0 True False ?t] by auto
  then have "cron_loop (q0 @ CHR '' '' # s1) 0 True False ?t \<longleftrightarrow>
    (q0 = ''*'' \<or> cron_hit 0 q0 t0) \<and> (q1 = ''*'' \<or> cron_hit 1 q1 t1) \<and>
    (if q3 \<noteq> ''*'' then
       cron_hit 3 q3 t3 \<and> (q2 \<noteq> ''*'' \<and> cron_hit 2 q2 t2 \<or> q4 = ''*'' \<or> cron_hit 4 q4 t4)
     else if q4 \<noteq> ''*'' then cron_hit 4 q4 t4
     else q2 = ''*'' \<or> cron_hit 2 q2 t2)"
    unfolding l1 l2 l3 by (simp del: One_nat_def)
  then show ?thesis
    using q(10) unfolding cron_match_def assms(1) s1_def s2_def s3_def by simp
qed

theorem cron_match_fields_witness:
  "cron_match ''0 0 13 1 *'' ''0 0 14 1 2'' \<and> \<not> cron_match ''0 0 13 * 5'' ''0 0 13 1 2''"
proof -
  have w: "list_all cron_word [''0'', ''0'', ''13'', ''1'', ''*'']" "list_all cron_word [''0'', ''0'', ''13'', ''*'', ''5'']"
    by code_simp+
  have s: "scan_ints 5 ''0 0 14 1 2'' = Some [0, 0, 14, 1, 2]" "scan_ints 5 ''0 0 13 1 2'' = Some [0, 0, 13, 1, 2]"
    by code_simp+
  have "cron_hit 0 ''0'' 0" "cron_hit 1 ''0'' 0" "cron_hit 3 ''1'' 1" "\<not> cron_hit 4 ''5'' 2" by code_simp+
  then show ?thesis
    using cron_match_fields [OF s(1) w(1)] cron_match_fields [OF s(2) w(2)] by simp
qed

text \<open>
  the step of one value of a list is used for the values behind it too: \<open>*/n,v\<close> accepts every
  value that differs from \<open>v\<close> by a multiple of \<open>n\<close>, not only the multiples of \<open>n\<close> and \<open>v\<close>.
\<close>

theorem cron_step_leaks:
  assumes "0 < n" "n < 2 ^ 31" "v < 2 ^ 31" "int n dvd t - int v"
  shows "cron_matchfld (''*/'' @ dec n @ '','' @ dec v) t"
proof -
  have d: "c \<notin> set (dec k)" if "\<not> isdigit c" for c k
    using dec_digits that by blast
  have "strchr (''*/'' @ dec n @ '','' @ dec v) (CHR '','') = Some (length (''*/'' @ dec n))"
    using strchr_take_drop [of "CHR '',''" "''*/'' @ dec n" "dec v"] d [of "CHR '',''" n]
    by (simp add: isdigit_def)
  moreover have "strchr (''*/'' @ dec n) (CHR ''/'') = Some 1" by simp
  moreover have "strchr (dec v) c = None" if "c = CHR '','' \<or> c = CHR ''/'' \<or> c = CHR ''-''" for c
    using that d [of c v] strchr_None [of c "dec v"] by (auto simp: isdigit_def)
  moreover have "strtol (dec v) 10 = (int v, [])" "to_int32 (int v) = int v"
    using strtol_dec [of "[]" v] assms(3) to_int32_id by (simp_all add: isdigit_def clamp_long_def)
  moreover have "egg_atoi (dec n) = int n"
    using egg_atoi_dec [of n "[]"] assms(2) by (simp add: isdigit_def)
  moreover have "dec v \<noteq> ''*''" using d [of "CHR ''*''" v] by (auto simp: isdigit_def)
  ultimately show ?thesis
    using assms(1,4)
    by (simp add: cron_matchfld_def cron_fld_loop.simps [of "CHR ''*'' # CHR ''/'' # dec n @ CHR '','' # dec v"]
        cron_fld_loop.simps [of "dec v"] cron_value_def Let_def)
qed

theorem cron_step_leaks_witness: "cron_matchfld ''*/20,5'' 25"
proof -
  have "cron_matchfld (''*/'' @ dec 20 @ '','' @ dec 5) 25" by (rule cron_step_leaks) simp_all
  moreover have "''*/'' @ dec 20 @ '','' @ dec 5 = ''*/20,5''" by code_simp
  ultimately show ?thesis by simp
qed

end
