(* ===== verification/RegexParse.thy ===== *)
theory RegexParse
  imports RegexSim MatchWild
begin

text \<open>
  The front end of the regular expression engine against a grammar: what a pattern text denotes, that the tokeniser, the insertion of
  concatenations and the shunting-yard turn it into the postfix form of its syntax tree, and the correctness of compilation and matching
  for every pattern of the grammar.
\<close>

section \<open>The grammar\<close>

text \<open>One atom: a plain byte, an escape, a dot, an anchor or a bracket expression (\<open>b\<close> is its text behind the opening bracket).\<close>

definition special :: "char \<Rightarrow> bool" where
  "special c \<longleftrightarrow> c = CHR 0x5C \<or> c \<in> set ''*+?{|()[^$.''"

inductive spells :: "bool \<Rightarrow> bool \<Rightarrow> string \<Rightarrow> token \<Rightarrow> bool" for icase dotall where
  byte: "\<not> special c \<Longrightarrow> spells icase dotall [c] (TOK_LIT (lit_char icase c))"
| escape: "spells icase dotall [CHR 0x5C, c] (escape_token icase c)"
| dot: "spells icase dotall ''.'' (any_token dotall)"
| bol: "spells icase dotall ''^'' TOK_BOL"
| eol: "spells icase dotall ''$'' TOK_EOL"
| bracket: "parse_class b icase = Some (cls, []) \<Longrightarrow> spells icase dotall (CHR ''['' # b) (TOK_CLASS cls)"

text \<open>
  The levels: 1 for alternatives, 2 for concatenations (both associate to the left), 3 for an atom or a group with at most one quantifier,
  4 for an atom or a group.
\<close>

inductive denotes :: "bool \<Rightarrow> bool \<Rightarrow> nat \<Rightarrow> string \<Rightarrow> regex \<Rightarrow> bool" for icase dotall where
  atom: "spells icase dotall s t \<Longrightarrow> denotes icase dotall 4 s (Atm t)"
| group: "denotes icase dotall 1 s r \<Longrightarrow> denotes icase dotall 4 (CHR ''('' # s @ '')'') r"
| star: "denotes icase dotall 4 s r \<Longrightarrow> denotes icase dotall 3 (s @ ''*'') (Star r)"
| plus: "denotes icase dotall 4 s r \<Longrightarrow> denotes icase dotall 3 (s @ ''+'') (Plus r)"
| quest: "denotes icase dotall 4 s r \<Longrightarrow> denotes icase dotall 3 (s @ ''?'') (Quest r)"
| once: "denotes icase dotall 4 s r \<Longrightarrow> denotes icase dotall 3 s r"
| cat: "denotes icase dotall 2 s r \<Longrightarrow> denotes icase dotall 3 s' r' \<Longrightarrow> denotes icase dotall 2 (s @ s') (Cat r r')"
| cat1: "denotes icase dotall 3 s r \<Longrightarrow> denotes icase dotall 2 s r"
| alt: "denotes icase dotall 1 s r \<Longrightarrow> denotes icase dotall 2 s' r' \<Longrightarrow> denotes icase dotall 1 (s @ CHR ''|'' # s') (Alt r r')"
| alt1: "denotes icase dotall 2 s r \<Longrightarrow> denotes icase dotall 1 s r"

section \<open>Bracket expressions in front of other text\<close>

lemma in_set_tl: "x \<in> set (tl xs) \<Longrightarrow> x \<in> set xs"
  by (cases xs) auto

lemma loop_bracket: "parse_class_loop p first icase cls = Some (cls', q) \<Longrightarrow> CHR '']'' \<in> set p"
proof (induction p first icase cls rule: parse_class_loop.induct)
  case (1 p first icase cls)
  note IH = "1.IH"
  show ?case
  proof (cases "p = [] \<or> c0 p = CHR '']'' \<and> \<not> first")
    case True
    then show ?thesis using "1.prems" by (subst (asm) parse_class_loop.simps) (cases p; auto split: if_splits)
  next
    case False
    show ?thesis
    proof (cases "posix_at p cls icase")
      case None
      obtain c q' where e: "class_elem p cls icase = (c, q')" by fastforce
      have "parse_class_loop q' False icase c = Some (cls', q)"
        using "1.prems" False None e by (auto simp: parse_class_loop.simps [of p] split: if_splits)
      then have "CHR '']'' \<in> set q'" using IH(1) False None e by auto
      moreover have "set q' \<subseteq> set p"
        using e by (auto simp: class_elem_def Let_def dest!: in_set_dropD in_set_tl split: if_splits)
      ultimately show ?thesis by blast
    next
      case (Some cq)
      obtain c q' where e: "cq = (c, q')" by fastforce
      have "parse_class_loop q' False icase c = Some (cls', q)"
        using "1.prems" False Some e by (auto simp: parse_class_loop.simps [of p] split: if_splits)
      then have "CHR '']'' \<in> set q'" using IH(2) False Some e by auto
      moreover have "set q' \<subseteq> set p"
        using Some e by (auto simp: posix_at_def dest: in_set_dropD split: if_splits option.splits)
      ultimately show ?thesis by blast
    qed
  qed
qed

lemma find_close_Some: "find_close s = Some nm \<Longrightarrow> \<exists>t. s = nm @ '':]'' @ t"
  by (induction s arbitrary: nm rule: find_close.induct) (fastforce split: if_splits)+

lemma find_close_append: "find_close s = Some nm \<Longrightarrow> find_close (s @ t) = Some nm"
  by (induction s arbitrary: nm rule: find_close.induct) (auto split: if_splits)

lemma find_close_first: "find_close (nm @ '':]'' @ t) \<noteq> None"
proof (induction nm)
  case (Cons a nm)
  then show ?case by (cases nm) auto
qed simp

lemma find_close_beyond:
  assumes "find_close s = None" "find_close (s @ t) = Some nm" "CHR '']'' \<in> set s"
  shows "CHR '']'' \<in> set nm"
proof -
  obtain u where u: "s @ t = nm @ '':]'' @ u" using find_close_Some [OF assms(2)] by blast
  have "\<not> length nm + 2 \<le> length s"
  proof
    assume l: "length nm + 2 \<le> length s"
    have "s = take (length s) (nm @ '':]'' @ u)" using u by (metis append_eq_conv_conj)
    also have "\<dots> = nm @ '':]'' @ take (length s - length nm - 2) u"
    proof -
      obtain k where "length s = length nm + 2 + k" using l le_Suc_ex by blast
      then show ?thesis by simp
    qed
    finally show False using assms(1) find_close_first by metis
  qed
  then have "length s \<le> length (nm @ '':'')" by simp
  moreover have "s @ t = (nm @ '':'') @ ('']'' @ u)" using u by simp
  ultimately obtain v where "nm @ '':'' = s @ v" by (metis append_eq_append_conv_if append_take_drop_id)
  then have "set (nm @ '':'') = set s \<union> set v" by (metis set_append)
  then show ?thesis using assms(3) by auto
qed

lemma posix_names:
  assumes "CHR '']'' \<in> set nm"
  shows "cls_add_posix_bracket cls nm icase = None"
proof -
  have "nm \<noteq> ''alpha''" "nm \<noteq> ''digit''" "nm \<noteq> ''alnum''" "nm \<noteq> ''space''" "nm \<noteq> ''blank''" "nm \<noteq> ''upper''" "nm \<noteq> ''lower''"
    "nm \<noteq> ''punct''" "nm \<noteq> ''print''" "nm \<noteq> ''graph''" "nm \<noteq> ''cntrl''" "nm \<noteq> ''xdigit''"
    using assms by auto
  then show ?thesis by (simp only: cls_add_posix_bracket_def if_False)
qed

lemma posix_append:
  assumes "posix_at p cls icase = Some (cls', q)"
  shows "posix_at (p @ t) cls icase = Some (cls', q @ t)"
proof -
  obtain nm where nm: "c0 p = CHR ''[''" "c0 (tl p) = CHR '':''" "find_close (drop 2 p) = Some nm" "0 < length nm" "length nm \<le> 12"
    "cls_add_posix_bracket cls nm icase = Some cls'" "q = drop (length nm + 4) p"
    using assms by (auto simp: posix_at_def split: if_splits option.splits)
  obtain u where u: "drop 2 p = nm @ '':]'' @ u" using find_close_Some [OF nm(3)] by blast
  obtain p' where p: "p = CHR ''['' # CHR '':'' # p'" using nm(1,2) by (cases p; cases "tl p") auto
  have l: "length nm + 4 \<le> length p" using u p by simp
  then have d: "drop (length nm + 4) (p @ t) = drop (length nm + 4) p @ t" by simp
  have f: "find_close (drop 2 (p @ t)) = Some nm" "c0 (p @ t) = CHR ''[''" "c0 (tl (p @ t)) = CHR '':''"
    using nm(3) p find_close_append [of p' nm t] by simp_all
  show ?thesis unfolding posix_at_def f nm(7) using nm(4-6) d by simp
qed

lemma posix_append_None:
  assumes "posix_at p cls icase = None" "CHR '']'' \<in> set (drop 2 p)"
  shows "posix_at (p @ t) cls icase = None"
proof (cases "c0 p = CHR ''['' \<and> c0 (tl p) = CHR '':''")
  case True
  then obtain p' where p: "p = CHR ''['' # CHR '':'' # p'" by (cases p; cases "tl p") auto
  show ?thesis
  proof (cases "find_close p'")
    case None
    then show ?thesis
      using find_close_beyond [OF None, of t] posix_names p assms(2) by (auto simp: posix_at_def split: option.splits)
  next
    case (Some nm)
    then show ?thesis using assms(1) p find_close_append [OF Some, of t] by (auto simp: posix_at_def split: if_splits)
  qed
next
  case False
  have "2 \<le> length p" using assms(2) by (cases p; cases "tl p") auto
  then have "c0 (p @ t) = c0 p" "c0 (tl (p @ t)) = c0 (tl p)" by (cases p; cases "tl p"; simp)+
  then show ?thesis using False by (auto simp: posix_at_def)
qed

lemma class_elem_append:
  assumes "class_elem p cls icase = (cls', q)" "parse_class_loop q False icase cls'' = Some z"
  shows "class_elem (p @ t) cls icase = (cls', q @ t)"
proof -
  define esc where "esc \<longleftrightarrow> c0 p = CHR 0x5C \<and> c0 (tl p) \<noteq> NUL"
  define p2 where "p2 = (if esc then tl p else p)"
  have qb: "CHR '']'' \<in> set q" using loop_bracket assms(2) by (cases z) blast
  have one: "q \<noteq> [c]" if "c \<noteq> CHR '']''" for c using qb that by auto
  have ce: "class_elem p cls icase =
      (if esc \<and> is_shorthand (c0 p2) then (cls_add_shorthand cls (c0 p2) icase, tl p2)
       else
         (let lo = uc (if esc then escape_char (c0 p2) else c0 p2)
          in if c0 (tl p2) = CHR ''-'' \<and> c0 (drop 2 p2) \<noteq> NUL \<and> c0 (drop 2 p2) \<noteq> CHR '']''
             then (cls_add_range cls lo (uc (c0 (drop 2 p2))) icase, drop 3 p2)
             else (cls_set_case icase cls lo, tl p2)))"
    unfolding class_elem_def esc_def p2_def Let_def ..
  have q: "q = tl p2 \<or> q = drop 3 p2" using assms(1) unfolding ce by (auto simp: Let_def split: if_splits)
  then have l2: "2 \<le> length p2" using qb by (cases p2; cases "tl p2") auto
  then have lp: "2 \<le> length p" by (auto simp: p2_def split: if_splits)
  have h: "c0 (p @ t) = c0 p" "c0 (tl (p @ t)) = c0 (tl p)" "tl (p @ t) = tl p @ t" using lp by (cases p; cases "tl p"; simp)+
  have p2t: "(if esc then tl (p @ t) else p @ t) = p2 @ t" by (simp add: p2_def h)
  have h2: "c0 (p2 @ t) = c0 p2" "c0 (tl (p2 @ t)) = c0 (tl p2)" "tl (p2 @ t) = tl p2 @ t" using l2 by (cases p2; cases "tl p2"; simp)+
  have r: "(c0 (tl p2) = CHR ''-'' \<and> c0 (drop 2 (p2 @ t)) \<noteq> NUL \<and> c0 (drop 2 (p2 @ t)) \<noteq> CHR '']'') \<longleftrightarrow>
      (c0 (tl p2) = CHR ''-'' \<and> c0 (drop 2 p2) \<noteq> NUL \<and> c0 (drop 2 p2) \<noteq> CHR '']'')"
    if ns: "\<not> (esc \<and> is_shorthand (c0 p2))"
  proof (cases "drop 2 p2 = []")
    case True
    then have "length p2 = Suc (Suc 0)" using l2 by simp
    then obtain a b where ab: "p2 = [a, b]" by (auto simp: length_Suc_conv)
    then have "q = [b]" using q qb by auto
    then show ?thesis using ab qb by auto
  next
    case False
    then have "c0 (drop 2 (p2 @ t)) = c0 (drop 2 p2)" by (cases "drop 2 p2") auto
    then show ?thesis by simp
  qed
  have d3: "drop 3 (p2 @ t) = drop 3 p2 @ t" if "q = drop 3 p2" using that qb by (cases "length p2 < 3") auto
  have d2: "c0 (drop 2 (p2 @ t)) = c0 (drop 2 p2)" if "c0 (drop 2 p2) \<noteq> NUL" using that by (cases "drop 2 p2") auto
  have ct: "class_elem (p @ t) cls icase =
      (if esc \<and> is_shorthand (c0 p2) then (cls_add_shorthand cls (c0 p2) icase, tl p2 @ t)
       else
         (let lo = uc (if esc then escape_char (c0 p2) else c0 p2)
          in if c0 (tl p2) = CHR ''-'' \<and> c0 (drop 2 (p2 @ t)) \<noteq> NUL \<and> c0 (drop 2 (p2 @ t)) \<noteq> CHR '']''
             then (cls_add_range cls lo (uc (c0 (drop 2 (p2 @ t)))) icase, drop 3 (p2 @ t))
             else (cls_set_case icase cls lo, tl p2 @ t)))"
    unfolding class_elem_def h(1,2) esc_def [symmetric] Let_def p2t h2(1,2) unfolding h2(3) ..
  show ?thesis
  proof (cases "esc \<and> is_shorthand (c0 p2)")
    case True
    then show ?thesis using assms(1) unfolding ce ct by auto
  next
    case False
    note r = r [OF False]
    show ?thesis
    proof (cases "c0 (tl p2) = CHR ''-'' \<and> c0 (drop 2 p2) \<noteq> NUL \<and> c0 (drop 2 p2) \<noteq> CHR '']''")
      case True
      then have "q = drop 3 p2" using assms(1) False unfolding ce by (simp add: Let_def)
      then show ?thesis using assms(1) False True r d3 d2 unfolding ce ct by (auto simp: Let_def)
    next
      case nr: False
      then show ?thesis using assms(1) False r unfolding ce ct by (auto simp: Let_def)
    qed
  qed
qed

lemma loop_append:
  "parse_class_loop p first icase cls = Some (cls', q) \<Longrightarrow> parse_class_loop (p @ t) first icase cls = Some (cls', q @ t)"
proof (induction p first icase cls rule: parse_class_loop.induct)
  case (1 p first icase cls)
  note IH = "1.IH" and prems = "1.prems"
  have ne: "p \<noteq> []" using prems by (auto simp: parse_class_loop.simps [of p])
  then have c: "c0 (p @ t) = c0 p" by (cases p) auto
  show ?case
  proof (cases "c0 p = CHR '']'' \<and> \<not> first")
    case True
    then show ?thesis using prems ne c by (auto simp: parse_class_loop.simps [of p] parse_class_loop.simps [of "p @ t"])
  next
    case False
    show ?thesis
    proof (cases "posix_at p cls icase")
      case None
      obtain c' q' where e: "class_elem p cls icase = (c', q')" by fastforce
      have l: "parse_class_loop q' False icase c' = Some (cls', q)"
        using prems ne False None e by (auto simp: parse_class_loop.simps [of p] split: if_splits)
      have l': "parse_class_loop (q' @ t) False icase c' = Some (cls', q @ t)" using IH(1) ne False None e l by auto
      have "posix_at (p @ t) cls icase = None"
      proof (cases "c0 p = CHR ''['' \<and> c0 (tl p) = CHR '':''")
        case True
        then obtain p' where p: "p = CHR ''['' # CHR '':'' # p'" by (cases p; cases "tl p") auto
        have "q' = CHR '':'' # p'" using e by (simp add: class_elem_def p)
        then have "CHR '']'' \<in> set (drop 2 p)" using loop_bracket [OF l] p by simp
        then show ?thesis by (rule posix_append_None [OF None])
      next
        case no: False
        have "2 \<le> length p"
        proof -
          have "q' \<noteq> []" using loop_bracket [OF l] by auto
          then show ?thesis using e by (cases p; cases "tl p") (auto simp: class_elem_def Let_def split: if_splits)
        qed
        then have "c0 (tl (p @ t)) = c0 (tl p)" by (cases p; cases "tl p"; simp)
        then show ?thesis using no c by (auto simp: posix_at_def)
      qed
      then show ?thesis
        using False ne c l' class_elem_append [OF e l, of t] by (auto simp: parse_class_loop.simps [of "p @ t"])
    next
      case (Some cq)
      obtain c' q' where e: "cq = (c', q')" by fastforce
      have "parse_class_loop q' False icase c' = Some (cls', q)"
        using prems ne False Some e by (auto simp: parse_class_loop.simps [of p] split: if_splits)
      then have "parse_class_loop (q' @ t) False icase c' = Some (cls', q @ t)" using IH(2) ne False Some e by auto
      then show ?thesis using False ne c posix_append [of p cls icase c' q' t] Some e by (auto simp: parse_class_loop.simps [of "p @ t"])
    qed
  qed
qed

lemma class_append:
  assumes "parse_class b icase = Some (cls, q)"
  shows "parse_class (b @ t) icase = Some (cls, q @ t)"
proof -
  have "b \<noteq> []" using assms by (auto simp: parse_class_def parse_class_loop.simps [of "[]"])
  then have "c0 (b @ t) = c0 b" "tl (b @ t) = tl b @ t" by (cases b; simp)+
  then show ?thesis using assms loop_append by (fastforce simp: parse_class_def Let_def)
qed

section \<open>Tokens\<close>

text \<open>The tokens of a pattern, with and without the concatenations.\<close>

inductive lexes :: "bool \<Rightarrow> bool \<Rightarrow> nat \<Rightarrow> string \<Rightarrow> regex \<Rightarrow> token list \<Rightarrow> token list \<Rightarrow> bool" for icase dotall where
  atom: "spells icase dotall s t \<Longrightarrow> lexes icase dotall 4 s (Atm t) [t] [t]"
| group: "lexes icase dotall 1 s r ts cs \<Longrightarrow>
    lexes icase dotall 4 (CHR ''('' # s @ '')'') r (TOK_LPAREN # ts @ [TOK_RPAREN]) (TOK_LPAREN # cs @ [TOK_RPAREN])"
| star: "lexes icase dotall 4 s r ts cs \<Longrightarrow> lexes icase dotall 3 (s @ ''*'') (Star r) (ts @ [TOK_STAR]) (cs @ [TOK_STAR])"
| plus: "lexes icase dotall 4 s r ts cs \<Longrightarrow> lexes icase dotall 3 (s @ ''+'') (Plus r) (ts @ [TOK_PLUS]) (cs @ [TOK_PLUS])"
| quest: "lexes icase dotall 4 s r ts cs \<Longrightarrow> lexes icase dotall 3 (s @ ''?'') (Quest r) (ts @ [TOK_QUEST]) (cs @ [TOK_QUEST])"
| once: "lexes icase dotall 4 s r ts cs \<Longrightarrow> lexes icase dotall 3 s r ts cs"
| cat: "lexes icase dotall 2 s r ts cs \<Longrightarrow> lexes icase dotall 3 s' r' ts' cs' \<Longrightarrow>
    lexes icase dotall 2 (s @ s') (Cat r r') (ts @ ts') (cs @ TOK_CAT # cs')"
| cat1: "lexes icase dotall 3 s r ts cs \<Longrightarrow> lexes icase dotall 2 s r ts cs"
| alt: "lexes icase dotall 1 s r ts cs \<Longrightarrow> lexes icase dotall 2 s' r' ts' cs' \<Longrightarrow>
    lexes icase dotall 1 (s @ CHR ''|'' # s') (Alt r r') (ts @ TOK_PIPE # ts') (cs @ TOK_PIPE # cs')"
| alt1: "lexes icase dotall 2 s r ts cs \<Longrightarrow> lexes icase dotall 1 s r ts cs"

lemma denotes_lexes: "denotes icase dotall p s r \<Longrightarrow> \<exists>ts cs. lexes icase dotall p s r ts cs"
  by (induction rule: denotes.induct) (blast intro: lexes.intros)+

lemma escape_token_kind: "tok_kind (escape_token icase c) \<noteq> None"
  by (simp add: escape_token_def)

lemma spells_facts:
  assumes "spells icase dotall s t"
  shows "tok_kind t \<noteq> None" "s \<noteq> []" "hd s \<notin> set ''*+?|()''"
  using assms by (induction) (auto simp: special_def any_token_def escape_token_def)

lemma cat_inject_end: "ts \<noteq> [] \<Longrightarrow> \<not> tok_starts_atom t \<Longrightarrow> cat_inject (ts @ [t]) = cat_inject ts @ [t]"
  by (induction ts rule: cat_inject.induct) auto

lemma cat_inject_pipe: "cat_inject (ts @ TOK_PIPE # ts') = cat_inject ts @ TOK_PIPE # cat_inject ts'"
  by (induction ts rule: cat_inject.induct) (cases ts'; simp)+

lemma lexes_facts:
  assumes "lexes icase dotall p s r ts cs"
  shows "wf_regex r" "frag_depth r \<le> length s" "s \<noteq> []" "hd s \<notin> set ''*+?|)''" "hd s = CHR ''('' \<longrightarrow> 2 \<le> length s \<and> s ! 1 \<noteq> CHR ''?''"
    "ts \<noteq> [] \<and> tok_starts_atom (hd ts) \<and> tok_ends_atom (last ts)" "cat_inject ts = cs"
proof -
  have "wf_regex r \<and> frag_depth r \<le> length s \<and> s \<noteq> [] \<and> hd s \<notin> set ''*+?|)'' \<and> (hd s = CHR ''('' \<longrightarrow> 2 \<le> length s \<and> s ! 1 \<noteq> CHR ''?'')"
    using assms
  proof induction
    case (atom s t)
    then show ?case using spells_facts [OF atom] by (cases s) auto
  next
    case (group s r ts cs)
    then show ?case by (cases s) auto
  next
    case (cat s r ts cs s' r' ts' cs')
    then show ?case by (cases s) (auto simp: nth_append)
  next
    case (alt s r ts cs s' r' ts' cs')
    then show ?case by (cases s) (auto simp: nth_append)
  qed (auto simp: nth_append)
  then show "wf_regex r" "frag_depth r \<le> length s" "s \<noteq> []" "hd s \<notin> set ''*+?|)''" "hd s = CHR ''('' \<longrightarrow> 2 \<le> length s \<and> s ! 1 \<noteq> CHR ''?''"
    by blast+
  have kind: "tok_starts_atom t \<and> tok_ends_atom t" if "tok_kind t \<noteq> None" for t using that by (cases t) auto
  have "ts \<noteq> [] \<and> tok_starts_atom (hd ts) \<and> tok_ends_atom (last ts) \<and> cat_inject ts = cs"
    using assms
  proof induction
    case (atom s t)
    then show ?case using kind [OF spells_facts(1) [OF atom]] by simp
  next
    case (group s r ts cs)
    have "cat_inject (ts @ [TOK_RPAREN]) = cs @ [TOK_RPAREN]" using cat_inject_end [of ts TOK_RPAREN] group by simp
    then show ?case using group by (cases ts) auto
  next
    case (star s r ts cs)
    then show ?case using cat_inject_end [of ts TOK_STAR] by simp
  next
    case (plus s r ts cs)
    then show ?case using cat_inject_end [of ts TOK_PLUS] by simp
  next
    case (quest s r ts cs)
    then show ?case using cat_inject_end [of ts TOK_QUEST] by simp
  next
    case (cat s r ts cs s' r' ts' cs')
    then show ?case using cat_inject_append [of ts ts'] by simp
  next
    case (alt s r ts cs s' r' ts' cs')
    have "cat_inject (ts @ TOK_PIPE # ts') = cs @ TOK_PIPE # cs'" using cat_inject_pipe [of ts ts'] alt by simp
    then show ?case using alt by simp
  qed simp_all
  then show "ts \<noteq> [] \<and> tok_starts_atom (hd ts) \<and> tok_ends_atom (last ts)" "cat_inject ts = cs" by blast+
qed

section \<open>The tokeniser\<close>

lemma tokenise_spells:
  assumes "spells icase dotall s t"
  shows "tokenise icase dotall (s @ rest) st = tokenise icase dotall rest (tk_atom t st)"
  using assms
proof (cases rule: spells.cases)
  case (byte c)
  then show ?thesis by (subst tokenise.simps) (simp add: special_def)
next
  case (bracket b cls)
  then show ?thesis using class_append [OF bracket(3), of rest] by (subst tokenise.simps) simp
qed (subst tokenise.simps, simp)+

lemma tokenise_quant:
  assumes "(c, t) \<in> {(CHR ''*'', TOK_STAR), (CHR ''+'', TOK_PLUS), (CHR ''?'', TOK_QUEST)}"
    "\<And>rest st. \<exists>st'. tokenise icase dotall (s @ rest) st = tokenise icase dotall rest st' \<and> tk_out st' = tk_out st @ ts \<and> tk_depth st' = tk_depth st"
  shows "\<exists>st'. tokenise icase dotall (s @ c # rest) st = tokenise icase dotall rest st' \<and> tk_out st' = tk_out st @ ts @ [t] \<and> tk_depth st' = tk_depth st"
proof -
  obtain st' where "tokenise icase dotall (s @ c # rest) st = tokenise icase dotall (c # rest) st'" "tk_out st' = tk_out st @ ts"
    "tk_depth st' = tk_depth st" using assms(2) by blast
  moreover have "tokenise icase dotall (c # rest) st' = tokenise icase dotall rest (tk_push t st')"
    using assms(1) by (subst tokenise.simps) auto
  ultimately show ?thesis by (intro exI [of _ "tk_push t st'"]) (simp add: tk_push_def)
qed

lemma tokenise_lexes:
  assumes "lexes icase dotall p s r ts cs"
  shows "\<exists>st'. tokenise icase dotall (s @ rest) st = tokenise icase dotall rest st' \<and> tk_out st' = tk_out st @ ts \<and> tk_depth st' = tk_depth st"
  using assms
proof (induction arbitrary: rest st)
  case (atom s t)
  then show ?case using tokenise_spells [OF atom] by (auto simp: tk_atom_def tk_push_def)
next
  case (group s r ts cs)
  obtain st' where st': "tokenise icase dotall (s @ CHR '')'' # rest) (tk_lparen_push st) = tokenise icase dotall (CHR '')'' # rest) st'"
    "tk_out st' = tk_out (tk_lparen_push st) @ ts" "tk_depth st' = tk_depth (tk_lparen_push st)" using group.IH by blast
  have "tokenise icase dotall (CHR ''('' # s @ CHR '')'' # rest) st = tokenise icase dotall (s @ CHR '')'' # rest) (tk_lparen_push st)"
    by (subst tokenise.simps) simp
  moreover have "tokenise icase dotall (CHR '')'' # rest) st' = tokenise icase dotall rest (tk_rparen_push st')"
    using st'(3) by (subst tokenise.simps) (simp add: tk_lparen_push_def tk_push_def)
  ultimately show ?case
    using st' by (intro exI [of _ "tk_rparen_push st'"]) (auto simp: tk_lparen_push_def tk_rparen_push_def tk_push_def Let_def)
next
  case (star s r ts cs)
  then show ?case using tokenise_quant [of "CHR ''*''" TOK_STAR] by simp
next
  case (plus s r ts cs)
  then show ?case using tokenise_quant [of "CHR ''+''" TOK_PLUS] by simp
next
  case (quest s r ts cs)
  then show ?case using tokenise_quant [of "CHR ''?''" TOK_QUEST] by simp
next
  case (cat s r ts cs s' r' ts' cs')
  obtain st1 where st1: "tokenise icase dotall (s @ s' @ rest) st = tokenise icase dotall (s' @ rest) st1"
    "tk_out st1 = tk_out st @ ts" "tk_depth st1 = tk_depth st" using cat.IH(1) by blast
  obtain st2 where "tokenise icase dotall (s' @ rest) st1 = tokenise icase dotall rest st2"
    "tk_out st2 = tk_out st1 @ ts'" "tk_depth st2 = tk_depth st1" using cat.IH(2) by blast
  then show ?case using st1 by (intro exI [of _ st2]) simp
next
  case (alt s r ts cs s' r' ts' cs')
  obtain st1 where st1: "tokenise icase dotall (s @ CHR ''|'' # s' @ rest) st = tokenise icase dotall (CHR ''|'' # s' @ rest) st1"
    "tk_out st1 = tk_out st @ ts" "tk_depth st1 = tk_depth st" using alt.IH(1) by blast
  let ?st = "(tk_push TOK_PIPE st1)\<lparr>tk_prev := None\<rparr>"
  obtain st2 where "tokenise icase dotall (s' @ rest) ?st = tokenise icase dotall rest st2"
    "tk_out st2 = tk_out ?st @ ts'" "tk_depth st2 = tk_depth ?st" using alt.IH(2) by blast
  moreover have "tokenise icase dotall (CHR ''|'' # s' @ rest) st1 = tokenise icase dotall (s' @ rest) ?st"
    by (subst tokenise.simps) simp
  ultimately show ?case using st1 by (intro exI [of _ st2]) (simp add: tk_push_def)
qed auto

section \<open>The shunting-yard\<close>

lemma takeWhile_dropWhile_append:
  assumes "\<forall>x \<in> set xs. P x" "ys = [] \<or> \<not> P (hd ys)"
  shows "takeWhile P (xs @ ys) = xs" "dropWhile P (xs @ ys) = ys"
  using assms by (induction xs) (cases ys; auto)+

lemma atom_token: "tok_kind t = Some k \<Longrightarrow> \<not> is_unary t \<and> \<not> is_binary t \<and> t \<noteq> TOK_LPAREN \<and> t \<noteq> TOK_RPAREN"
  by (cases t) (auto simp: is_unary_def is_binary_def)

lemma prec_le_3: "tok_prec t \<le> 3"
  by (cases t) auto

lemma shunt_unary: "is_unary t \<Longrightarrow> length stk < 512 \<Longrightarrow> shunt (t # ts) stk out = shunt ts (t # stk) out"
  using prec_le_3 takeWhile_dropWhile_append [of "[]" "\<lambda>s. 3 < tok_prec s" stk]
  by (cases stk) (auto simp: is_unary_def shunt_max_def not_less)

lemma shunt_binary:
  assumes "is_binary t" "\<forall>x \<in> set ops. x \<noteq> TOK_LPAREN \<and> tok_prec t \<le> tok_prec x"
    "stk = [] \<or> hd stk = TOK_LPAREN \<or> tok_prec (hd stk) < tok_prec t" "length stk < 512"
  shows "shunt (t # ts) (ops @ stk) out = shunt ts (t # stk) (out @ ops)"
proof -
  have u: "\<not> is_unary t" using assms(1) by (auto simp: is_binary_def is_unary_def)
  have "takeWhile (\<lambda>s. s \<noteq> TOK_LPAREN \<and> tok_prec t \<le> tok_prec s) (ops @ stk) = ops"
    "dropWhile (\<lambda>s. s \<noteq> TOK_LPAREN \<and> tok_prec t \<le> tok_prec s) (ops @ stk) = stk"
    using takeWhile_dropWhile_append [of ops _ stk] assms(2,3) by auto
  then show ?thesis using assms(1,4) u by (simp add: shunt_max_def Let_def)
qed

text \<open>
  Over any stack on which no operator of the level or above is open, the tokens of an expression add its postfix form to the output, the
  operators still on the stack last.
\<close>

definition yields :: "nat \<Rightarrow> token list \<Rightarrow> token list \<Rightarrow> token list \<Rightarrow> token list \<Rightarrow> bool" where
  "yields p cs pf stk out \<longleftrightarrow>
     (\<exists>o' ops. (\<forall>rest. shunt (cs @ rest) stk out = shunt rest (ops @ stk) (out @ o')) \<and> o' @ ops = pf \<and>
        (\<forall>x \<in> set ops. x \<noteq> TOK_LPAREN \<and> p \<le> tok_prec x))"

lemma yields_mono: "yields p cs pf stk out \<Longrightarrow> q \<le> p \<Longrightarrow> yields q cs pf stk out"
  unfolding yields_def using order_trans by blast

lemma yields_quant:
  assumes "yields 4 cs pf stk out" "is_unary t" "length stk < 512"
  shows "yields 3 (cs @ [t]) (pf @ [t]) stk out"
proof -
  obtain o' ops where h: "\<forall>rest. shunt (cs @ rest) stk out = shunt rest (ops @ stk) (out @ o')" "pf = o' @ ops"
    "\<forall>x \<in> set ops. x \<noteq> TOK_LPAREN \<and> 4 \<le> tok_prec x" using assms(1) unfolding yields_def by blast
  have "ops = []"
  proof (cases ops)
    case (Cons x xs)
    then show ?thesis using h(3) prec_le_3 [of x] by auto
  qed
  moreover have "3 \<le> tok_prec t" "t \<noteq> TOK_LPAREN" using assms(2) by (auto simp: is_unary_def)
  ultimately show ?thesis
    unfolding yields_def using h(1,2) shunt_unary [OF assms(2,3)] by (intro exI [of _ o'] exI [of _ "[t]"]) simp
qed

lemma yields_op:
  assumes "yields p cs pf stk out" "yields q cs' pf' (t # stk) (out @ pf)" "is_binary t" "p \<le> q" "tok_prec t = p"
    "stk = [] \<or> hd stk = TOK_LPAREN \<or> tok_prec (hd stk) < p" "length stk < 512"
  shows "yields p (cs @ t # cs') (pf @ pf' @ [t]) stk out"
proof -
  obtain o1 ops1 where h1: "\<forall>rest. shunt (cs @ rest) stk out = shunt rest (ops1 @ stk) (out @ o1)" "pf = o1 @ ops1"
    "\<forall>x \<in> set ops1. x \<noteq> TOK_LPAREN \<and> p \<le> tok_prec x" using assms(1) unfolding yields_def by blast
  obtain o2 ops2 where h2: "\<forall>rest. shunt (cs' @ rest) (t # stk) (out @ pf) = shunt rest (ops2 @ t # stk) ((out @ pf) @ o2)" "pf' = o2 @ ops2"
    "\<forall>x \<in> set ops2. x \<noteq> TOK_LPAREN \<and> q \<le> tok_prec x" using assms(2) unfolding yields_def by blast
  have "shunt (t # rest) (ops1 @ stk) (out @ o1) = shunt rest (t # stk) (out @ pf)" for rest
    using shunt_binary [OF assms(3), of ops1 stk rest "out @ o1"] h1(2,3) assms(5-7) by simp
  then have "shunt ((cs @ t # cs') @ rest) stk out = shunt rest ((ops2 @ [t]) @ stk) (out @ pf @ o2)" for rest
    using h1(1) h2(1) by simp
  moreover have "t \<noteq> TOK_LPAREN" using assms(3) by (auto simp: is_binary_def)
  ultimately show ?thesis
    unfolding yields_def using h2(2,3) assms(4,5) by (intro exI [of _ "pf @ o2"] exI [of _ "ops2 @ [t]"]) fastforce
qed

lemma shunt_lexes:
  assumes "lexes icase dotall p s r ts cs" "stk = [] \<or> hd stk = TOK_LPAREN \<or> tok_prec (hd stk) < p" "length stk + length s \<le> 512"
  shows "yields p cs (postfix r) stk out"
  using assms
proof (induction arbitrary: stk out)
  case (atom s t stk out)
  then show ?case
    using spells_facts(1) [OF atom(1)] atom_token [of t] unfolding yields_def by (intro exI [of _ "[t]"] exI [of _ "[]"]) auto
next
  case (group s r ts cs stk out)
  have "yields 1 cs (postfix r) (TOK_LPAREN # stk) out" using group.IH [of "TOK_LPAREN # stk" out] group.prems by simp
  then obtain o' ops where h: "\<forall>rest. shunt (cs @ rest) (TOK_LPAREN # stk) out = shunt rest (ops @ TOK_LPAREN # stk) (out @ o')"
    "o' @ ops = postfix r" "\<forall>x \<in> set ops. x \<noteq> TOK_LPAREN \<and> 1 \<le> tok_prec x" unfolding yields_def by blast
  have t: "takeWhile (\<lambda>s. s \<noteq> TOK_LPAREN) (ops @ TOK_LPAREN # stk) = ops" "dropWhile (\<lambda>s. s \<noteq> TOK_LPAREN) (ops @ TOK_LPAREN # stk) = TOK_LPAREN # stk"
    using takeWhile_dropWhile_append [of ops "\<lambda>s. s \<noteq> TOK_LPAREN" "TOK_LPAREN # stk"] h(3) by auto
  have "shunt (TOK_RPAREN # rest) (ops @ TOK_LPAREN # stk) (out @ o') = shunt rest stk (out @ postfix r)" for rest
    using t by (simp add: is_unary_def is_binary_def Let_def flip: h(2))
  then have "shunt ((TOK_LPAREN # cs @ [TOK_RPAREN]) @ rest) stk out = shunt rest ([] @ stk) (out @ postfix r)" for rest
    using spec [OF h(1), of "TOK_RPAREN # rest"] group.prems(2) by (simp add: is_unary_def is_binary_def shunt_max_def)
  then have "(\<forall>rest. shunt ((TOK_LPAREN # cs @ [TOK_RPAREN]) @ rest) stk out = shunt rest ([] @ stk) (out @ postfix r)) \<and>
      postfix r @ [] = postfix r \<and> (\<forall>x \<in> set []. x \<noteq> TOK_LPAREN \<and> 4 \<le> tok_prec x)" by (simp del: shunt.simps)
  then show ?case unfolding yields_def by blast
next
  case (star s r ts cs stk out)
  then show ?case using yields_quant [of cs _ stk out TOK_STAR] star.IH [of stk out] by (auto simp: is_unary_def)
next
  case (plus s r ts cs stk out)
  then show ?case using yields_quant [of cs _ stk out TOK_PLUS] plus.IH [of stk out] by (auto simp: is_unary_def)
next
  case (quest s r ts cs stk out)
  then show ?case using yields_quant [of cs _ stk out TOK_QUEST] quest.IH [of stk out] by (auto simp: is_unary_def)
next
  case (once s r ts cs stk out)
  then show ?case using yields_mono [of 4 cs _ stk out 3] once.IH [of stk out] by auto
next
  case (cat s r ts cs s' r' ts' cs' stk out)
  have l: "0 < length s" using lexes_facts(3) [OF cat.hyps(1)] by simp
  have "yields 2 cs (postfix r) stk out" using cat.IH(1) [of stk out] cat.prems by simp
  moreover have "yields 3 cs' (postfix r') (TOK_CAT # stk) (out @ postfix r)" using cat.IH(2) [of "TOK_CAT # stk"] cat.prems l by (simp del: length_greater_0_conv)
  ultimately show ?case using yields_op [of 2 cs _ stk out 3 cs' _ TOK_CAT] cat.prems l by (simp add: is_binary_def del: length_greater_0_conv)
next
  case (cat1 s r ts cs stk out)
  then show ?case using yields_mono [of 3 cs _ stk out 2] cat1.IH [of stk out] by auto
next
  case (alt s r ts cs s' r' ts' cs' stk out)
  have l: "0 < length s" using lexes_facts(3) [OF alt.hyps(1)] by simp
  have "yields 1 cs (postfix r) stk out" using alt.IH(1) [of stk out] alt.prems by simp
  moreover have "yields 2 cs' (postfix r') (TOK_PIPE # stk) (out @ postfix r)" using alt.IH(2) [of "TOK_PIPE # stk"] alt.prems l by (simp del: length_greater_0_conv)
  ultimately show ?case using yields_op [of 1 cs _ stk out 2 cs' _ TOK_PIPE] alt.prems l by (simp add: is_binary_def del: length_greater_0_conv)
next
  case (alt1 s r ts cs stk out)
  then show ?case using yields_mono [of 2 cs _ stk out 1] alt1.IH [of stk out] by auto
qed

lemma shunt_pattern:
  assumes "lexes icase dotall 1 s r ts cs" "length s \<le> 512"
  shows "shunt cs [] [] = Some (postfix r)"
proof -
  have "yields 1 cs (postfix r) [] []" using shunt_lexes [OF assms(1), of "[]" "[]"] assms(2) by simp
  then obtain o' ops where h: "\<forall>rest. shunt (cs @ rest) [] [] = shunt rest (ops @ []) ([] @ o')" "o' @ ops = postfix r"
    "\<forall>x \<in> set ops. x \<noteq> TOK_LPAREN \<and> 1 \<le> tok_prec x" unfolding yields_def by blast
  show ?thesis using spec [OF h(1), of "[]"] h(2,3) by auto
qed

section \<open>Compilation and matching\<close>

lemma compile_inline: "take 4 s \<noteq> ''(?i)'' \<Longrightarrow> op_regex_compile (''(?i)'' @ s) icase nl = op_regex_compile s True nl"
  by (simp add: op_regex_compile_def)

text \<open>
  C2: every pattern of the grammar of at most 512 bytes compiles, with or without a leading \<open>(?i)\<close>, and the simulation finds a match iff the
  tree the pattern denotes matches at some place of the text, places behind the beginning being tried only where the pattern does not begin
  with \<open>^\<close>.
\<close>
theorem op_regex_correct:
  assumes "denotes (icase \<or> inline) (\<not> nl) 1 s r" "length s \<le> 512"
  shows "\<exists>re. op_regex_compile ((if inline then ''(?i)'' else []) @ s) icase nl = Some re \<and>
           (\<forall>txt. op_regex_match re txt \<longleftrightarrow> starts_match (icase \<or> inline) r (c0 s = CHR ''^'') txt)"
proof -
  let ?i = "icase \<or> inline"
  obtain ts cs where l: "lexes ?i (\<not> nl) 1 s r ts cs" using denotes_lexes [OF assms(1)] by blast
  note f = lexes_facts [OF l]
  have t: "take 4 s \<noteq> ''(?i)''" using f(3-5) by (cases s; cases "tl s") auto
  obtain st' where st': "tokenise ?i (\<not> nl) (s @ []) tk_init = tokenise ?i (\<not> nl) [] st'" "tk_out st' = tk_out tk_init @ ts"
    "tk_depth st' = tk_depth tk_init" using tokenise_lexes [OF l] by blast
  then have tok: "tokenise ?i (\<not> nl) s tk_init = Some ts" by (simp add: tokenise.simps [of _ _ "[]"] tk_init_def)
  have "shunt (cat_inject ts) [] [] = Some (postfix r)" using shunt_pattern [OF l assms(2)] f(7) by simp
  from op_regex_compile_match [OF t tok this f(1)] f(2) assms(2) obtain re where
    re: "op_regex_compile s ?i nl = Some re" "\<forall>txt. op_regex_match re txt \<longleftrightarrow> starts_match ?i r (c0 s = CHR ''^'') txt" by auto
  moreover have "op_regex_compile ((if inline then ''(?i)'' else []) @ s) icase nl = op_regex_compile s ?i nl"
    using compile_inline [OF t] by simp
  ultimately show ?thesis by auto
qed

theorem op_regex_correct_witness:
  "\<exists>re. op_regex_compile (''(a|[b-d])*'' @ [CHR 0x5C] @ ''.x'') False False = Some re \<and>
     (\<forall>txt. op_regex_match re txt \<longleftrightarrow> starts_match False
        (Cat (Cat (Star (Alt (Atm (TOK_LIT (CHR ''a''))) (Atm (TOK_CLASS (cls_add_range 0 98 100 False))))) (Atm (TOK_LIT (CHR ''.''))))
           (Atm (TOK_LIT (CHR ''x'')))) False txt)"
proof -
  let ?p = "''(a|[b-d])*'' @ [CHR 0x5C] @ ''.x''"
  let ?r = "Cat (Cat (Star (Alt (Atm (TOK_LIT (CHR ''a''))) (Atm (TOK_CLASS (cls_add_range 0 98 100 False))))) (Atm (TOK_LIT (CHR ''.''))))
    (Atm (TOK_LIT (CHR ''x'')))"
  have b: "parse_class ''b-d]'' False = Some (cls_add_range 0 98 100 False, [])"
    by (simp add: parse_class_def parse_class_loop.simps posix_at_def class_elem_def Let_def)
  have "denotes False True 4 ''a'' (Atm (TOK_LIT (CHR ''a'')))" "denotes False True 4 ''x'' (Atm (TOK_LIT (CHR ''x'')))"
    using denotes.atom [OF spells.byte, of "CHR ''a''" False True] denotes.atom [OF spells.byte, of "CHR ''x''" False True]
    by (simp_all add: special_def lit_char_def)
  moreover have "denotes False True 4 (CHR 0x5C # ''.'') (Atm (TOK_LIT (CHR ''.'')))"
    using denotes.atom [OF spells.escape, of False True "CHR ''.''"] by (simp add: escape_token_def is_shorthand_def lit_char_def)
  moreover have "denotes False True 4 ''[b-d]'' (Atm (TOK_CLASS (cls_add_range 0 98 100 False)))"
    using denotes.atom [OF spells.bracket [OF b], of True] by simp
  ultimately have "denotes False True 1 (''(a|[b-d])*'' @ [CHR 0x5C] @ ''.x'') (Cat (Cat (Star (Alt (Atm (TOK_LIT (CHR ''a'')))
      (Atm (TOK_CLASS (cls_add_range 0 98 100 False))))) (Atm (TOK_LIT (CHR ''.'')))) (Atm (TOK_LIT (CHR ''x''))))"
    using denotes.alt1 [OF denotes.cat [OF denotes.cat [OF denotes.cat1 [OF denotes.star [OF denotes.group [OF denotes.alt
      [OF denotes.alt1 [OF denotes.cat1 [OF denotes.once]] denotes.cat1 [OF denotes.once]]]]] denotes.once] denotes.once],
      of False True "''a''" _ "''[b-d]''"] by force
  then have "denotes (False \<or> False) (\<not> False) 1 ?p ?r" by simp
  from op_regex_correct [OF this] show ?thesis by simp
qed

end
