(* ===== verification/Htab.thy ===== *)
theory Htab
  imports CStr
begin

text \<open>
  The Robin Hood hash table of \<open>src/libop/src/htab.c\<close>: the slots array with its cached hashes, and
  every operation on it.  A null pointer is \<open>None\<close>; keys and values are what the pointers stand
  for.  Indices and the count are natural numbers, sizes below \<open>2 ^ 63\<close>; hashes are 64-bit words.
\<close>

record ('k, 'v) op_htab_slot =
  hs_key :: "'k option"
  hs_val :: "'v option"
  hs_hash :: "64 word"

record ('k, 'v) op_htab =
  ht_hash_fn :: "'k \<Rightarrow> 64 word"
  ht_eq_fn :: "'k \<Rightarrow> 'k \<Rightarrow> bool"
  ht_slots :: "('k, 'v) op_htab_slot list"
  ht_mask :: nat
  ht_count :: nat

definition empty_slot :: "('k, 'v) op_htab_slot" where
  "empty_slot = \<lparr>hs_key = None, hs_val = None, hs_hash = 0\<rparr>"

section \<open>Helpers\<close>

definition fix_hash :: "64 word \<Rightarrow> 64 word" where
  "fix_hash h = (if h \<noteq> 0 then h else 1)"

text \<open>\<open>dib\<close>: the subtraction wraps at the width of \<open>size_t\<close>.\<close>

definition dib :: "nat \<Rightarrow> nat \<Rightarrow> 64 word \<Rightarrow> nat" where
  "dib msk i h = (i + 2 ^ 64 - (unat h AND msk)) mod 2 ^ 64 AND msk"

definition next_pow2 :: "64 word \<Rightarrow> 64 word" where
  "next_pow2 n =
     (if n < 16 then 16
      else
        (let n = n - 1; n = n OR drop_bit 1 n; n = n OR drop_bit 2 n; n = n OR drop_bit 4 n;
             n = n OR drop_bit 8 n; n = n OR drop_bit 16 n; n = n OR drop_bit 32 n
         in n + 1))"

section \<open>Probing\<close>

lemma dib_le: "dib msk i h \<le> msk"
  unfolding dib_def and_nat_def using AND_upper2 [of "int msk"] by (simp add: nat_le_iff)

text \<open>
  The loop of \<open>htab_find_idx\<close>.  It stops at an empty slot or at one nearer to its ideal bucket than
  the probe has come, so it returns even from a full table.
\<close>

function htab_probe :: "('k, 'v) op_htab_slot list \<Rightarrow> nat \<Rightarrow> ('k \<Rightarrow> 'k \<Rightarrow> bool) \<Rightarrow> 'k \<Rightarrow> 64 word \<Rightarrow>
    nat \<Rightarrow> nat \<Rightarrow> nat option" where
  "htab_probe slots msk eq key hash i dist =
     (let s = slots ! i in
      if hs_hash s = 0 then None
      else if dib msk i (hs_hash s) < dist then None
      else if hs_hash s = hash \<and> eq (the (hs_key s)) key then Some i
      else htab_probe slots msk eq key hash ((i + 1) AND msk) (dist + 1))"
  by auto

termination
  by (relation "measure (\<lambda>(_, msk, _, _, _, _, dist). Suc msk - dist)")
    (auto simp: not_less dest!: order_trans [OF _ dib_le])

declare htab_probe.simps [simp del]

definition htab_find_idx :: "('k, 'v) op_htab \<Rightarrow> 'k \<Rightarrow> 64 word \<Rightarrow> nat option" where
  "htab_find_idx ht key hash =
     htab_probe (ht_slots ht) (ht_mask ht) (ht_eq_fn ht) key hash (unat hash AND ht_mask ht) 0"

definition htab_lookup :: "('k, 'v) op_htab \<Rightarrow> 'k \<Rightarrow> 64 word \<Rightarrow> ('k, 'v) op_htab_slot option" where
  "htab_lookup ht key hash = map_option (\<lambda>i. ht_slots ht ! i) (htab_find_idx ht key hash)"

section \<open>Inserting and deleting slots\<close>

text \<open>
  The loop of \<open>htab_insert_slot\<close>: it places an entry, evicting those nearer to their ideal buckets,
  and would not return from a table without an empty slot.
\<close>

partial_function (option) htab_insert_loop :: "nat \<Rightarrow> ('k, 'v) op_htab_slot list \<Rightarrow>
    ('k, 'v) op_htab_slot \<Rightarrow> nat \<Rightarrow> nat \<Rightarrow> ('k, 'v) op_htab_slot list option" where
  "htab_insert_loop msk slots e i dist =
     (let s = slots ! i in
      if hs_hash s = 0 then Some (slots[i := e])
      else
        (let sitting_dist = dib msk i (hs_hash s) in
         if sitting_dist < dist
         then htab_insert_loop msk (slots[i := e]) s ((i + 1) AND msk) (sitting_dist + 1)
         else htab_insert_loop msk slots e ((i + 1) AND msk) (dist + 1)))"

definition htab_insert_slot :: "nat \<Rightarrow> ('k, 'v) op_htab_slot list \<Rightarrow> ('k, 'v) op_htab_slot \<Rightarrow>
    ('k, 'v) op_htab_slot list option" where
  "htab_insert_slot msk slots e = htab_insert_loop msk slots e (unat (hs_hash e) AND msk) 0"

text \<open>The loop of \<open>htab_del_at\<close>: the slots behind \<open>i\<close> move back over it.\<close>

partial_function (option) htab_del_loop :: "nat \<Rightarrow> ('k, 'v) op_htab_slot list \<Rightarrow> nat \<Rightarrow>
    ('k, 'v) op_htab_slot list option" where
  "htab_del_loop msk slots i =
     (let j = (i + 1) AND msk; nxt = slots ! j in
      if hs_hash nxt = 0 \<or> dib msk j (hs_hash nxt) = 0 then Some (slots[i := empty_slot])
      else htab_del_loop msk (slots[i := nxt]) j)"

declare htab_insert_loop.simps [code] htab_del_loop.simps [code]

definition htab_del_at :: "('k, 'v) op_htab \<Rightarrow> nat \<Rightarrow> ('k, 'v) op_htab option" where
  "htab_del_at ht i =
     map_option (\<lambda>sl. ht\<lparr>ht_slots := sl, ht_count := ht_count ht - 1\<rparr>)
       (htab_del_loop (ht_mask ht) (ht_slots ht) i)"

section \<open>Resizing\<close>

fun htab_rehash :: "nat \<Rightarrow> ('k, 'v) op_htab_slot list \<Rightarrow> ('k, 'v) op_htab_slot list \<Rightarrow>
    ('k, 'v) op_htab_slot list option" where
  "htab_rehash msk [] new_slots = Some new_slots"
| "htab_rehash msk (s # old) new_slots =
     (if hs_hash s \<noteq> 0
      then Option.bind (htab_insert_slot msk new_slots s) (htab_rehash msk old)
      else htab_rehash msk old new_slots)"

definition htab_resize :: "('k, 'v) op_htab \<Rightarrow> nat \<Rightarrow> ('k, 'v) op_htab option" where
  "htab_resize ht new_cap =
     map_option (\<lambda>sl. ht\<lparr>ht_slots := sl, ht_mask := new_cap - 1\<rparr>)
       (htab_rehash (new_cap - 1) (ht_slots ht) (replicate new_cap empty_slot))"

definition htab_maybe_grow :: "('k, 'v) op_htab \<Rightarrow> ('k, 'v) op_htab option" where
  "htab_maybe_grow ht =
     (let cap = ht_mask ht + 1 in
      if cap * 3 \<le> ht_count ht * 4 then htab_resize ht (cap * 2) else Some ht)"

section \<open>Construction, hash and equality functions\<close>

definition op_htab_create :: "('k \<Rightarrow> 64 word) \<Rightarrow> ('k \<Rightarrow> 'k \<Rightarrow> bool) \<Rightarrow> 64 word \<Rightarrow> ('k, 'v) op_htab" where
  "op_htab_create hash_fn eq_fn initial_cap =
     (let cap = unat (next_pow2 initial_cap)
      in \<lparr>ht_hash_fn = hash_fn, ht_eq_fn = eq_fn, ht_slots = replicate cap empty_slot,
          ht_mask = cap - 1, ht_count = 0\<rparr>)"

text \<open>What the loops over a C string see of it.\<close>

definition until_nul :: "string \<Rightarrow> string" where
  "until_nul s = takeWhile (\<lambda>c. c \<noteq> NUL) s"

definition fnv_step :: "64 word \<Rightarrow> nat \<Rightarrow> 64 word" where
  "fnv_step h c = (h XOR of_nat c) * 1099511628211"

definition op_htab_hash_str :: "string \<Rightarrow> 64 word" where
  "op_htab_hash_str key = fix_hash (foldl (\<lambda>h c. fnv_step h (uc c)) 14695981039346656037 (until_nul key))"

definition htab_eq_str :: "string \<Rightarrow> string \<Rightarrow> bool" where
  "htab_eq_str a b \<longleftrightarrow> until_nul a = until_nul b"

text \<open>The folding of an \<open>unsigned char\<close> in both functions for RFC 1459 names.\<close>

definition istr_fold :: "uchar \<Rightarrow> uchar" where
  "istr_fold c =
     (if 65 \<le> c \<and> c \<le> 90 then c OR 0x20 else if 91 \<le> c \<and> c \<le> 94 then c + 0x20 else c)"

definition op_htab_hash_istr :: "string \<Rightarrow> 64 word" where
  "op_htab_hash_istr key =
     fix_hash (foldl (\<lambda>h c. fnv_step h (unat (istr_fold (uchar_of c)))) 14695981039346656037 (until_nul key))"

fun htab_eq_istr :: "string \<Rightarrow> string \<Rightarrow> bool" where
  "htab_eq_istr (x # a) (y # b) =
     (let ca = istr_fold (uchar_of x); cb = istr_fold (uchar_of y) in
      if ca = cb \<and> ca \<noteq> 0 then htab_eq_istr a b else ca = cb)"
| "htab_eq_istr a b = (istr_fold (uchar_of (c0 a)) = istr_fold (uchar_of (c0 b)))"

definition op_htab_create_str :: "64 word \<Rightarrow> (string, 'v) op_htab" where
  "op_htab_create_str initial_cap = op_htab_create op_htab_hash_str htab_eq_str initial_cap"

definition op_htab_create_istr :: "64 word \<Rightarrow> (string, 'v) op_htab" where
  "op_htab_create_istr initial_cap = op_htab_create op_htab_hash_istr htab_eq_istr initial_cap"

definition op_htab_hash_ptr :: "64 word \<Rightarrow> 64 word" where
  "op_htab_hash_ptr key =
     (let v = key; v = v XOR drop_bit 30 v; v = v * 0xbf58476d1ce4e5b9; v = v XOR drop_bit 27 v;
          v = v * 0x94d049bb133111eb; v = v XOR drop_bit 31 v
      in fix_hash v)"

definition htab_eq_ptr :: "64 word \<Rightarrow> 64 word \<Rightarrow> bool" where
  "htab_eq_ptr a b \<longleftrightarrow> a = b"

definition op_htab_create_ptr :: "64 word \<Rightarrow> (64 word, 'v) op_htab" where
  "op_htab_create_ptr initial_cap = op_htab_create op_htab_hash_ptr htab_eq_ptr initial_cap"

section \<open>The operations\<close>

text \<open>The insertion of a key that is not in the table.\<close>

definition htab_add :: "('k, 'v) op_htab \<Rightarrow> 'k \<Rightarrow> 'v option \<Rightarrow> 64 word \<Rightarrow> ('k, 'v) op_htab option" where
  "htab_add ht key val hash =
     Option.bind (htab_maybe_grow ht) (\<lambda>ht.
       map_option (\<lambda>sl. ht\<lparr>ht_slots := sl, ht_count := ht_count ht + 1\<rparr>)
         (htab_insert_slot (ht_mask ht) (ht_slots ht) \<lparr>hs_key = Some key, hs_val = val, hs_hash = hash\<rparr>))"

text \<open>The table, the result and \<open>*old_val\<close>; \<open>None\<close> would be a loop that never returns.\<close>

definition op_htab_set :: "('k, 'v) op_htab \<Rightarrow> 'k \<Rightarrow> 'v option \<Rightarrow> (('k, 'v) op_htab \<times> int \<times> 'v option) option" where
  "op_htab_set ht key val =
     (let hash = fix_hash (ht_hash_fn ht key) in
      case htab_find_idx ht key hash of
        Some i \<Rightarrow>
          Some (ht\<lparr>ht_slots := (ht_slots ht)[i := (ht_slots ht ! i)\<lparr>hs_val := val\<rparr>]\<rparr>, 0, hs_val (ht_slots ht ! i))
      | None \<Rightarrow> map_option (\<lambda>ht. (ht, 1, None)) (htab_add ht key val hash))"

definition op_htab_del :: "('k, 'v) op_htab \<Rightarrow> 'k \<Rightarrow> (('k, 'v) op_htab \<times> 'v option) option" where
  "op_htab_del ht key =
     (let hash = fix_hash (ht_hash_fn ht key) in
      case htab_find_idx ht key hash of
        None \<Rightarrow> Some (ht, None)
      | Some i \<Rightarrow> map_option (\<lambda>ht'. (ht', hs_val (ht_slots ht ! i))) (htab_del_at ht i))"

text \<open>The table, the value returned and \<open>*created\<close>.\<close>

definition op_htab_get_or_set :: "('k, 'v) op_htab \<Rightarrow> 'k \<Rightarrow> 'v option \<Rightarrow> (('k, 'v) op_htab \<times> 'v option \<times> bool) option" where
  "op_htab_get_or_set ht key val =
     (let hash = fix_hash (ht_hash_fn ht key) in
      case htab_find_idx ht key hash of
        Some i \<Rightarrow> Some (ht, hs_val (ht_slots ht ! i), False)
      | None \<Rightarrow> map_option (\<lambda>ht. (ht, val, True)) (htab_add ht key val hash))"

definition op_htab_get :: "('k, 'v) op_htab \<Rightarrow> 'k \<Rightarrow> 'v option" where
  "op_htab_get ht key =
     (let hash = fix_hash (ht_hash_fn ht key) in
      case htab_lookup ht key hash of Some s \<Rightarrow> hs_val s | None \<Rightarrow> None)"

definition op_htab_has :: "('k, 'v) op_htab \<Rightarrow> 'k \<Rightarrow> bool" where
  "op_htab_has ht key \<longleftrightarrow> htab_lookup ht key (fix_hash (ht_hash_fn ht key)) \<noteq> None"

definition op_htab_size :: "('k, 'v) op_htab \<Rightarrow> nat" where "op_htab_size ht = ht_count ht"

definition op_htab_cap :: "('k, 'v) op_htab \<Rightarrow> nat" where "op_htab_cap ht = ht_mask ht + 1"

definition op_htab_compact :: "('k, 'v) op_htab \<Rightarrow> ('k, 'v) op_htab option" where
  "op_htab_compact ht =
     (let new_cap = unat (next_pow2 (of_nat (ht_count ht * 2 + 1)))
      in if new_cap < ht_mask ht + 1 then htab_resize ht new_cap else Some ht)"

section \<open>Iteration\<close>

record op_htab_iter =
  it_idx :: nat
  it_cur :: "nat option"

definition op_htab_iter_init :: op_htab_iter where
  "op_htab_iter_init = \<lparr>it_idx = 0, it_cur = None\<rparr>"

function iter_next_loop :: "('k, 'v) op_htab_slot list \<Rightarrow> nat \<Rightarrow> nat \<Rightarrow> nat option" where
  "iter_next_loop slots cap idx =
     (if idx < cap then
        (if hs_hash (slots ! idx) \<noteq> 0 then Some idx else iter_next_loop slots cap (idx + 1))
      else None)"
  by auto
termination by (relation "measure (\<lambda>(_, cap, idx). cap - idx)") auto

declare iter_next_loop.simps [simp del]

text \<open>The iterator and the slot it is at.\<close>

definition op_htab_iter_next :: "('k, 'v) op_htab \<Rightarrow> op_htab_iter \<Rightarrow> op_htab_iter \<times> ('k, 'v) op_htab_slot option" where
  "op_htab_iter_next ht it =
     (case iter_next_loop (ht_slots ht) (ht_mask ht + 1) (it_idx it) of
        Some i \<Rightarrow> (\<lparr>it_idx = i + 1, it_cur = Some i\<rparr>, Some (ht_slots ht ! i))
      | None \<Rightarrow> (\<lparr>it_idx = max (it_idx it) (ht_mask ht + 1), it_cur = None\<rparr>, None))"

definition op_htab_iter_del :: "('k, 'v) op_htab \<Rightarrow> op_htab_iter \<Rightarrow>
    (('k, 'v) op_htab \<times> op_htab_iter \<times> 'v option) option" where
  "op_htab_iter_del ht it =
     (case it_cur it of
        None \<Rightarrow> Some (ht, it, None)
      | Some i \<Rightarrow>
          if ht_mask ht + 1 \<le> i \<or> hs_hash (ht_slots ht ! i) = 0 then Some (ht, it, None)
          else
            map_option (\<lambda>ht'. (ht', \<lparr>it_idx = i, it_cur = None\<rparr>, hs_val (ht_slots ht ! i))) (htab_del_at ht i))"

text \<open>The callback's state is threaded through; it ends the loop by returning a true value.\<close>

fun foreach_loop :: "('k option \<Rightarrow> 'v option \<Rightarrow> 'u \<Rightarrow> bool \<times> 'u) \<Rightarrow> ('k, 'v) op_htab_slot list \<Rightarrow> 'u \<Rightarrow> 'u" where
  "foreach_loop cb [] ud = ud"
| "foreach_loop cb (s # slots) ud =
     (if hs_hash s \<noteq> 0 then
        (let (stop, ud) = cb (hs_key s) (hs_val s) ud in if stop then ud else foreach_loop cb slots ud)
      else foreach_loop cb slots ud)"

definition op_htab_foreach :: "('k, 'v) op_htab \<Rightarrow> ('k option \<Rightarrow> 'v option \<Rightarrow> 'u \<Rightarrow> bool \<times> 'u) \<Rightarrow> 'u \<Rightarrow> 'u" where
  "op_htab_foreach ht cb ud = foreach_loop cb (ht_slots ht) ud"

section \<open>Merging\<close>

text \<open>
  \<open>conflicts\<close> tells whether \<open>conflict_cb\<close> is not null; the second result lists the calls made to it
  (key, value kept, value refused).
\<close>

fun merge_loop :: "bool \<Rightarrow> ('k, 'v) op_htab_slot list \<Rightarrow> ('k, 'v) op_htab \<Rightarrow>
    ('k \<times> 'v option \<times> 'v option) list \<Rightarrow> (('k, 'v) op_htab \<times> ('k \<times> 'v option \<times> 'v option) list) option" where
  "merge_loop conflicts [] dst calls = Some (dst, calls)"
| "merge_loop conflicts (s # src) dst calls =
     (if hs_hash s = 0 then merge_loop conflicts src dst calls
      else
        Option.bind (op_htab_set dst (the (hs_key s)) (hs_val s)) (\<lambda>(dst, rc, old_val).
          if rc = 0 \<and> conflicts then
            Option.bind (op_htab_set dst (the (hs_key s)) old_val) (\<lambda>(dst, _, _).
              merge_loop conflicts src dst (calls @ [(the (hs_key s), old_val, hs_val s)]))
          else merge_loop conflicts src dst calls))"

definition op_htab_merge :: "bool \<Rightarrow> ('k, 'v) op_htab \<Rightarrow> ('k, 'v) op_htab \<Rightarrow>
    (('k, 'v) op_htab \<times> ('k \<times> 'v option \<times> 'v option) list) option" where
  "op_htab_merge conflicts dst src = merge_loop conflicts (ht_slots src) dst []"

end
