(* ===== verification/HtabMap.thy ===== *)
theory HtabMap
  imports Htab Rfc1459 "HOL-Library.Multiset" "HOL-Library.Log_Nat"
begin

text \<open>
  The hash table is a finite map: the Robin Hood invariant, that every operation keeps it, that
  every loop returns, and what the operations do to the map.
\<close>

section \<open>Positions\<close>

definition cap_ok :: "nat \<Rightarrow> bool" where
  "cap_ok cap \<longleftrightarrow> (\<exists>k. 4 \<le> k \<and> k \<le> 62 \<and> cap = 2 ^ k)"

definition nxt :: "nat \<Rightarrow> nat \<Rightarrow> nat" where
  "nxt cap i = (i + 1) mod cap"

definition dist_of :: "nat \<Rightarrow> nat \<Rightarrow> 64 word \<Rightarrow> nat" where
  "dist_of cap i h = (i + cap - unat h mod cap) mod cap"

lemma and_cap: "cap_ok cap \<Longrightarrow> x AND (cap - Suc 0) = x mod cap"
proof -
  assume "cap_ok cap"
  then obtain k where "cap = 2 ^ k" by (auto simp: cap_ok_def)
  moreover have "x AND mask k = x mod 2 ^ k"
    unfolding take_bit_eq_mask [symmetric] take_bit_eq_mod ..
  moreover have "(mask k :: nat) = 2 ^ k - Suc 0" by (simp add: mask_eq_exp_minus_1)
  ultimately show ?thesis by simp
qed

lemma and_cap1: "cap_ok cap \<Longrightarrow> x AND (cap - 1) = x mod cap"
  using and_cap [of cap x] by simp

lemma cap_ge: "cap_ok cap \<Longrightarrow> 16 \<le> cap \<and> cap < 2 ^ 63 \<and> cap dvd 2 ^ 64"
proof -
  assume "cap_ok cap"
  then obtain k where k: "4 \<le> k" "k \<le> 62" "cap = 2 ^ k" by (auto simp: cap_ok_def)
  have "(2::nat) ^ 4 \<le> 2 ^ k" "(2::nat) ^ k < 2 ^ 63" using k by (intro power_increasing power_strict_increasing; simp)+
  moreover have "(2::nat) ^ k dvd 2 ^ 64" using k by (intro le_imp_power_dvd) simp
  ultimately show ?thesis using k by simp
qed

lemma dib_dist_of:
  assumes "cap_ok cap" "i < cap"
  shows "dib (cap - 1) i h = dist_of cap i h"
proof -
  let ?r = "unat h mod cap"
  have c: "16 \<le> cap" "cap < 2 ^ 63" "cap dvd 2 ^ 64" using cap_ge [OF assms(1)] by auto
  have r: "?r < cap" using c by simp
  have d: "cap dvd 2 ^ 64 - cap" using c(3) by (intro dvd_diff_nat) auto
  have "(2::nat) ^ 63 < 2 ^ 64" by simp
  then have "cap < 2 ^ 64" using c(2) by (rule less_trans [rotated])
  then have e: "i + 2 ^ 64 - ?r = (i + cap - ?r) + (2 ^ 64 - cap)" using r by linarith
  have "dib (cap - 1) i h = (i + 2 ^ 64 - ?r) mod 2 ^ 64 mod cap"
    unfolding dib_def and_cap1 [OF assms(1)] ..
  also have "\<dots> = (i + 2 ^ 64 - ?r) mod cap" using c(3) by (rule mod_mod_cancel)
  also have "\<dots> = (i + cap - ?r) mod cap"
    unfolding e using d by (metis mod_0_imp_dvd dvd_imp_mod_0 add.right_neutral mod_add_right_eq)
  finally show ?thesis by (simp add: dist_of_def)
qed

lemma nxt_less: "0 < cap \<Longrightarrow> nxt cap i < cap"
  by (simp add: nxt_def)

lemma dist_of_less: "0 < cap \<Longrightarrow> dist_of cap i h < cap"
  by (simp add: dist_of_def)

lemma dist_of_nxt: "0 < cap \<Longrightarrow> dist_of cap (nxt cap i) h = (dist_of cap i h + 1) mod cap"
proof -
  assume c: "0 < cap"
  let ?r = "unat h mod cap"
  have r: "?r < cap" using c by simp
  have "(nxt cap i + (cap - ?r)) mod cap = (i + 1 + (cap - ?r)) mod cap"
    unfolding nxt_def by (rule mod_add_left_eq)
  also have "\<dots> = ((i + (cap - ?r)) mod cap + 1) mod cap"
    using mod_add_left_eq [of "i + (cap - ?r)" cap 1] by (simp add: add.commute add.left_commute)
  finally show ?thesis using r by (simp add: dist_of_def)
qed

lemma nxt_cases: "i < cap \<Longrightarrow> nxt cap i = (if i + 1 = cap then 0 else i + 1)"
  by (simp add: nxt_def)

lemma nxt_inj: "i < cap \<Longrightarrow> j < cap \<Longrightarrow> nxt cap i = nxt cap j \<Longrightarrow> i = j"
  by (simp add: nxt_cases split: if_splits)

lemma nxt_neq: "i < cap \<Longrightarrow> 2 \<le> cap \<Longrightarrow> nxt cap i \<noteq> i"
  by (simp add: nxt_cases)

text \<open>Steps from one position forward to another.\<close>

definition steps :: "nat \<Rightarrow> nat \<Rightarrow> nat \<Rightarrow> nat" where
  "steps cap i z = (z + cap - i) mod cap"

lemma steps_cases: "i < cap \<Longrightarrow> z < cap \<Longrightarrow> steps cap i z = (if i \<le> z then z - i else z + cap - i)"
  by (auto simp: steps_def) (metis Nat.add_diff_assoc2 add.commute le_imp_less_Suc less_imp_diff_less mod_add_self2 mod_less)

lemma steps_0: "i < cap \<Longrightarrow> z < cap \<Longrightarrow> steps cap i z = 0 \<longleftrightarrow> i = z"
  by (auto simp: steps_cases)

lemma steps_nxt: "i < cap \<Longrightarrow> z < cap \<Longrightarrow> i \<noteq> z \<Longrightarrow> steps cap i z = Suc (steps cap (nxt cap i) z)"
  by (auto simp: steps_cases nxt_cases)

lemma dist_of_steps: "0 < cap \<Longrightarrow> i < cap \<Longrightarrow> dist_of cap i h = steps cap (unat h mod cap) i"
  by (simp add: dist_of_def steps_def)

section \<open>The invariant\<close>

type_synonym ('k, 'v) slots = "('k, 'v) op_htab_slot list"

definition occ :: "('k, 'v) slots \<Rightarrow> nat \<Rightarrow> bool" where
  "occ T i \<longleftrightarrow> hs_hash (T ! i) \<noteq> 0"

definition dst :: "('k, 'v) slots \<Rightarrow> nat \<Rightarrow> nat" where
  "dst T i = dist_of (length T) i (hs_hash (T ! i))"

text \<open>Every displaced entry has a neighbour in front of it that is displaced almost as far.\<close>

definition robin :: "('k, 'v) slots \<Rightarrow> bool" where
  "robin T \<longleftrightarrow> (\<forall>i < length T. occ T (nxt (length T) i) \<and> 0 < dst T (nxt (length T) i) \<longrightarrow>
     occ T i \<and> dst T (nxt (length T) i) \<le> dst T i + 1)"

definition live :: "('k, 'v) slots \<Rightarrow> ('k, 'v) op_htab_slot multiset" where
  "live T = filter_mset (\<lambda>s. hs_hash s \<noteq> 0) (mset T)"

lemma live_update:
  assumes "i < length T"
  shows "live (T[i := e]) =
    (if hs_hash e \<noteq> 0 then add_mset e else id) (if occ T i then live T - {#T ! i#} else live T)"
  using assms by (auto simp: live_def mset_update occ_def)

lemma occ_update: "i < length T \<Longrightarrow> occ (T[i := e]) j = (if j = i then hs_hash e \<noteq> 0 else occ T j)"
  by (simp add: occ_def)

lemma dst_update:
  "i < length T \<Longrightarrow> dst (T[i := e]) j = (if j = i then dist_of (length T) i (hs_hash e) else dst T j)"
  by (simp add: dst_def)

lemma robinD:
  "robin T \<Longrightarrow> i < length T \<Longrightarrow> occ T (nxt (length T) i) \<Longrightarrow> 0 < dst T (nxt (length T) i) \<Longrightarrow>
     occ T i \<and> dst T (nxt (length T) i) \<le> dst T i + 1"
  by (auto simp: robin_def)

text \<open>The entries between the ideal bucket and an entry are all there.\<close>

lemma robin_chain:
  assumes "robin T" "p < length T" "occ T p" "q < length T" "steps (length T) q p \<le> dst T p"
  shows "occ T q \<and> dst T p \<le> dst T q + steps (length T) q p"
  using assms(4,5)
proof (induction "steps (length T) q p" arbitrary: q)
  case 0
  then show ?case using assms(2,3) steps_0 [of q "length T" p] by simp
next
  case (Suc n)
  let ?c = "length T"
  have ne: "q \<noteq> p" using Suc.hyps(2) Suc.prems(1) assms(2) steps_0 by fastforce
  then have s: "steps ?c q p = Suc (steps ?c (nxt ?c q) p)"
    using steps_nxt Suc.prems(1) assms(2) by blast
  have l: "nxt ?c q < ?c" using Suc.prems(1) nxt_less by (metis gr_implies_not0 not_gr_zero)
  have ih: "occ T (nxt ?c q) \<and> dst T p \<le> dst T (nxt ?c q) + steps ?c (nxt ?c q) p"
    using Suc.hyps(1) [of "nxt ?c q"] Suc.hyps(2) Suc.prems s l by simp
  have "0 < dst T (nxt ?c q)" using ih Suc.prems(2) s by linarith
  then have "occ T q \<and> dst T (nxt ?c q) \<le> dst T q + 1" using robinD assms(1) Suc.prems(1) ih by blast
  then show ?case using ih s by linarith
qed

section \<open>Insertion\<close>

text \<open>An entry carried to slot \<open>i\<close> at distance \<open>d\<close> from its ideal bucket.\<close>

definition carried :: "('k, 'v) slots \<Rightarrow> nat \<Rightarrow> nat \<Rightarrow> bool" where
  "carried T i d \<longleftrightarrow> d = 0 \<or> (\<exists>p < length T. nxt (length T) p = i \<and> occ T p \<and> d \<le> dst T p + 1)"

lemma robin_place:
  assumes "robin T" "i < length T" "2 \<le> length T" "hs_hash e \<noteq> 0"
    and c: "carried T i (dist_of (length T) i (hs_hash e))"
    and s: "occ T i \<Longrightarrow> dst T i \<le> dist_of (length T) i (hs_hash e)"
  shows "robin (T[i := e])"
  unfolding robin_def
proof (intro allI impI)
  let ?c = "length T" and ?T = "T[i := e]" and ?d = "dist_of (length T) i (hs_hash e)"
  fix q assume "q < length ?T" and h: "occ ?T (nxt (length ?T) q) \<and> 0 < dst ?T (nxt (length ?T) q)"
  then have q: "q < ?c" by simp
  have len: "length ?T = ?c" by simp
  note h' = h [unfolded len occ_update [OF assms(2)] dst_update [OF assms(2)]]
  show "occ ?T q \<and> dst ?T (nxt (length ?T) q) \<le> dst ?T q + 1"
  proof (cases "nxt ?c q = i")
    case True
    then have "0 < ?d" using h' by simp
    then obtain p where p: "p < ?c" "nxt ?c p = i" "occ T p" "?d \<le> dst T p + 1"
      using c by (auto simp: carried_def)
    then have "p = q" using True q nxt_inj by blast
    moreover have "q \<noteq> i" using True q nxt_neq [of q ?c] assms(3) by auto
    ultimately show ?thesis
      unfolding len occ_update [OF assms(2)] dst_update [OF assms(2)] using True p by simp
  next
    case False
    then have o: "occ T (nxt ?c q)" "0 < dst T (nxt ?c q)" using h' by simp_all
    then have r: "occ T q" "dst T (nxt ?c q) \<le> dst T q + 1" using robinD [OF assms(1) q] by blast+
    show ?thesis
      unfolding len occ_update [OF assms(2)] dst_update [OF assms(2)]
      using False r assms(4) s by (auto intro: order_trans)
  qed
qed

lemma carried_room:
  assumes "robin T" "i < length T" "z < length T" "\<not> occ T z" "occ T i" "carried T i d"
    "d < length T"
  shows "d + 1 < length T"
proof (rule ccontr)
  let ?c = "length T"
  assume "\<not> d + 1 < ?c"
  then have d: "d + 1 = ?c" using assms(7) by simp
  have z: "z \<noteq> i" using assms(4,5) by blast
  show False
  proof (cases "d = 0")
    case True
    then have "?c = 1" using d by simp
    then show ?thesis using assms(2,3) z by simp
  next
    case False
    then obtain p where p: "p < ?c" "nxt ?c p = i" "occ T p" "d \<le> dst T p + 1"
      using assms(6) by (auto simp: carried_def)
    have "steps ?c z p < ?c - 1"
      using z p(1,2) assms(2,3) by (auto simp: steps_cases nxt_cases split: if_splits)
    then have "steps ?c z p \<le> dst T p" using d p(4) by linarith
    then show ?thesis using robin_chain [OF assms(1) p(1,3) assms(3)] assms(4) by blast
  qed
qed

lemma insert_loop:
  assumes "cap_ok (length T)" "robin T" "i < length T" "z < length T" "\<not> occ T z" "hs_hash e \<noteq> 0"
    "carried T i (dist_of (length T) i (hs_hash e))"
  shows "\<exists>T'. htab_insert_loop (length T - 1) T e i (dist_of (length T) i (hs_hash e)) = Some T' \<and>
    length T' = length T \<and> robin T' \<and> live T' = add_mset e (live T)"
  using assms
proof (induction "steps (length T) i z" arbitrary: T e i)
  case 0
  let ?c = "length T"
  have "i = z" using 0 steps_0 by metis
  then have e: "hs_hash (T ! i) = 0" using 0 by (simp add: occ_def)
  have "robin (T[i := e])"
    using robin_place [of T i e] 0 cap_ge [of ?c] e by (auto simp: occ_def)
  moreover have "live (T[i := e]) = add_mset e (live T)"
    using live_update [of i T e] 0 e by (simp add: occ_def)
  ultimately show ?case using e by (subst htab_insert_loop.simps) simp
next
  case (Suc n)
  let ?c = "length T" and ?d = "dist_of (length T) i (hs_hash e)" and ?s = "T ! i"
  note prems = Suc.prems
  have c: "16 \<le> ?c" using cap_ge prems(1) by blast
  have iz: "i \<noteq> z" using Suc.hyps(2) prems(3,4) steps_0 by fastforce
  have n: "n = steps ?c (nxt ?c i) z" using Suc.hyps(2) steps_nxt [OF prems(3,4) iz] by simp
  have "0 < ?c" using c by linarith
  note nx = nxt_less [OF this, of i]
  have step: "(i + 1) AND (?c - 1) = nxt ?c i" unfolding and_cap1 [OF prems(1)] nxt_def ..
  show ?case
  proof (cases "occ T i")
    case False
    then have e: "hs_hash (T ! i) = 0" by (simp add: occ_def)
    have "robin (T[i := e])"
      using robin_place [of T i e] prems c e by (auto simp: occ_def)
    moreover have "live (T[i := e]) = add_mset e (live T)"
      using live_update [of i T e] prems e by (simp add: occ_def)
    ultimately show ?thesis using e by (subst htab_insert_loop.simps) simp
  next
    case True
    then have h: "hs_hash ?s \<noteq> 0" by (simp add: occ_def)
    have dib: "dib (?c - 1) i (hs_hash ?s) = dst T i"
      unfolding dst_def by (rule dib_dist_of [OF prems(1,3)])
    show ?thesis
    proof (cases "dst T i < ?d")
      case True
      let ?T = "T[i := e]"
      have d: "dist_of ?c (nxt ?c i) (hs_hash ?s) = dst T i + 1"
      proof -
        have "dst T i + 1 < ?c" using True dist_of_less [OF \<open>0 < ?c\<close>, of i "hs_hash e"] by linarith
        then show ?thesis using dist_of_nxt [OF \<open>0 < ?c\<close>, of i "hs_hash ?s"] by (simp add: dst_def)
      qed
      have r: "robin ?T" using robin_place [of T i e] prems c True by auto
      have "carried ?T (nxt ?c i) (dst T i + 1)"
        unfolding carried_def using prems(3,6) True
        by (intro disjI2 exI [of _ i]) (simp add: occ_def dst_def)
      then have "\<exists>T'. htab_insert_loop (length ?T - 1) ?T ?s (nxt ?c i)
          (dist_of (length ?T) (nxt ?c i) (hs_hash ?s)) = Some T' \<and>
          length T' = length ?T \<and> robin T' \<and> live T' = add_mset ?s (live ?T)"
        using Suc.hyps(1) [of ?T "nxt ?c i" ?s] n prems r nx iz h d by (simp add: occ_update)
      then obtain T' where T': "htab_insert_loop (?c - 1) ?T ?s (nxt ?c i) (dst T i + 1) = Some T'"
        "length T' = ?c" "robin T'" "live T' = add_mset ?s (live ?T)"
        using d by auto
      have "?s \<in># live T" using h prems(3) by (simp add: live_def)
      then have "live T' = add_mset e (live T)"
        using T'(4) live_update [OF prems(3), of e] \<open>occ T i\<close> prems(6) by (simp add: add_mset_commute)
      moreover have "htab_insert_loop (?c - 1) T e i ?d = Some T'"
        by (subst htab_insert_loop.simps) (simp only: Let_def h dib step T'(1) True if_True if_False)
      ultimately show ?thesis using T' by blast
    next
      case False
      have c1: "carried T (nxt ?c i) (?d + 1)"
        unfolding carried_def using prems(3) \<open>occ T i\<close> False by (intro disjI2 exI [of _ i]) simp
      have "?d + 1 < ?c"
        using carried_room [OF prems(2,3,4,5) \<open>occ T i\<close> prems(7)] dist_of_less [OF \<open>0 < ?c\<close>] by simp
      then have d: "dist_of ?c (nxt ?c i) (hs_hash e) = ?d + 1"
        using dist_of_nxt [OF \<open>0 < ?c\<close>, of i "hs_hash e"] by simp
      obtain T' where T': "htab_insert_loop (?c - 1) T e (nxt ?c i) (?d + 1) = Some T'"
        "length T' = ?c" "robin T'" "live T' = add_mset e (live T)"
        using Suc.hyps(1) [OF n prems(1,2) nx prems(4,5,6)] c1 d by auto
      moreover have "htab_insert_loop (?c - 1) T e i ?d = Some T'"
        by (subst htab_insert_loop.simps) (simp only: Let_def h dib step T'(1) False if_False)
      ultimately show ?thesis by blast
    qed
  qed
qed

section \<open>Deletion\<close>

lemma live_remove: "i < length T \<Longrightarrow> occ T i \<Longrightarrow> live (T[i := empty_slot]) = live T - {#T ! i#}"
  using live_update [of i T empty_slot] by (simp add: empty_slot_def)

lemma dst_back:
  assumes "i < length T" "0 < dst T (nxt (length T) i)"
  shows "dist_of (length T) i (hs_hash (T ! nxt (length T) i)) = dst T (nxt (length T) i) - 1"
proof -
  let ?c = "length T" and ?h = "hs_hash (T ! nxt (length T) i)"
  have c: "0 < ?c" using assms(1) by linarith
  have "dst T (nxt ?c i) = (dist_of ?c i ?h + 1) mod ?c"
    unfolding dst_def using dist_of_nxt [OF c] .
  moreover have "dist_of ?c i ?h < ?c" using dist_of_less [OF c] .
  ultimately show ?thesis using assms(2) by (cases "dist_of ?c i ?h + 1 = ?c") auto
qed

lemma robin_clear:
  assumes "robin T" "i < length T" "\<not> occ T (nxt (length T) i) \<or> dst T (nxt (length T) i) = 0"
  shows "robin (T[i := empty_slot])"
  unfolding robin_def
proof (intro allI impI)
  let ?c = "length T" and ?T = "T[i := empty_slot]"
  fix q assume "q < length ?T" and h: "occ ?T (nxt (length ?T) q) \<and> 0 < dst ?T (nxt (length ?T) q)"
  then have q: "q < ?c" by simp
  have len: "length ?T = ?c" by simp
  have ne: "nxt ?c q \<noteq> i" using h unfolding len occ_update [OF assms(2)] by (auto simp: empty_slot_def)
  then have o: "occ T (nxt ?c q)" "0 < dst T (nxt ?c q)"
    using h unfolding len occ_update [OF assms(2)] dst_update [OF assms(2)] by simp_all
  then have "q \<noteq> i" using assms(3) by auto
  then show "occ ?T q \<and> dst ?T (nxt (length ?T) q) \<le> dst ?T q + 1"
    unfolding len occ_update [OF assms(2)] dst_update [OF assms(2)]
    using ne robinD [OF assms(1) q o] by simp
qed

lemma robin_shift:
  assumes "robin T" "i < length T" "2 \<le> length T"
    and o: "occ T (nxt (length T) i)" "0 < dst T (nxt (length T) i)"
  shows "robin (T[i := T ! nxt (length T) i])"
  unfolding robin_def
proof (intro allI impI)
  let ?c = "length T" and ?j = "nxt (length T) i" and ?T = "T[i := T ! nxt (length T) i]"
  fix q assume "q < length ?T" and h: "occ ?T (nxt (length ?T) q) \<and> 0 < dst ?T (nxt (length ?T) q)"
  then have q: "q < ?c" by simp
  have len: "length ?T = ?c" by simp
  have hj: "hs_hash (T ! ?j) \<noteq> 0" using o(1) by (simp add: occ_def)
  note b = dst_back [OF assms(2) o(2)]
  have oi: "occ T i" "dst T ?j \<le> dst T i + 1" using robinD [OF assms(1,2) o] by blast+
  note h' = h [unfolded len occ_update [OF assms(2)] dst_update [OF assms(2)] b]
  show "occ ?T q \<and> dst ?T (nxt (length ?T) q) \<le> dst ?T q + 1"
    unfolding len occ_update [OF assms(2)] dst_update [OF assms(2)] b
  proof (cases "nxt ?c q = i")
    case True
    then have qi: "q \<noteq> i" using q nxt_neq [of q ?c] assms(3) by auto
    have "0 < dst T i" using h' True oi(2) by simp
    then have "occ T q \<and> dst T i \<le> dst T q + 1" using robinD [OF assms(1) q] oi(1) True by simp
    then show "(if q = i then hs_hash (T ! ?j) \<noteq> 0 else occ T q) \<and>
        (if nxt ?c q = i then dst T ?j - 1 else dst T (nxt ?c q)) \<le> (if q = i then dst T ?j - 1 else dst T q) + 1"
      using True qi oi(2) by auto
  next
    case False
    then have "occ T (nxt ?c q)" "0 < dst T (nxt ?c q)" using h' by simp_all
    then have "occ T q \<and> dst T (nxt ?c q) \<le> dst T q + 1" using robinD [OF assms(1) q] by blast
    then show "(if q = i then hs_hash (T ! ?j) \<noteq> 0 else occ T q) \<and>
        (if nxt ?c q = i then dst T ?j - 1 else dst T (nxt ?c q)) \<le> (if q = i then dst T ?j - 1 else dst T q) + 1"
      using False hj by auto
  qed
qed

lemma del_loop:
  assumes "cap_ok (length T)" "robin T" "i < length T" "z < length T" "\<not> occ T z" "occ T i"
  shows "\<exists>T'. htab_del_loop (length T - 1) T i = Some T' \<and> length T' = length T \<and> robin T' \<and>
    live T' = live T - {#T ! i#}"
  using assms
proof (induction "steps (length T) i z" arbitrary: T i)
  case 0
  then show ?case using steps_0 by metis
next
  case (Suc n)
  let ?c = "length T" and ?j = "nxt (length T) i"
  note prems = Suc.prems
  have c: "16 \<le> ?c" using cap_ge prems(1) by blast
  then have c0: "0 < ?c" by linarith
  have iz: "i \<noteq> z" using prems(5,6) by blast
  have n: "n = steps ?c ?j z" using Suc.hyps(2) steps_nxt [OF prems(3,4) iz] by simp
  note nx = nxt_less [OF c0, of i]
  have step: "(i + 1) AND (?c - 1) = ?j" unfolding and_cap1 [OF prems(1)] nxt_def ..
  have dib: "dib (?c - 1) ?j (hs_hash (T ! ?j)) = dst T ?j"
    unfolding dst_def by (rule dib_dist_of [OF prems(1) nx])
  show ?case
  proof (cases "hs_hash (T ! ?j) = 0 \<or> dst T ?j = 0")
    case True
    then have "htab_del_loop (?c - 1) T i = Some (T[i := empty_slot])"
      by (subst htab_del_loop.simps) (simp only: Let_def step dib if_True)
    moreover have "robin (T[i := empty_slot])"
      using robin_clear [OF prems(2,3)] True by (auto simp: occ_def)
    ultimately show ?thesis using live_remove [OF prems(3,6)] by simp
  next
    case False
    let ?T = "T[i := T ! ?j]"
    have o: "occ T ?j" "0 < dst T ?j" using False by (simp_all add: occ_def)
    have r: "robin ?T" using robin_shift [OF prems(2,3) _ o] c by simp
    have ij: "?j \<noteq> i" using nxt_neq [OF prems(3)] c by simp
    have oj: "\<not> occ ?T z" "occ ?T ?j"
      unfolding occ_update [OF prems(3)] using iz ij prems(5) o by simp_all
    obtain T' where T': "htab_del_loop (?c - 1) ?T ?j = Some T'" "length T' = ?c" "robin T'"
      "live T' = live ?T - {#?T ! ?j#}"
      using Suc.hyps(1) [of ?T ?j] n prems(1,4) r nx oj by auto
    have "live ?T = add_mset (T ! ?j) (live T - {#T ! i#})"
      using live_update [OF prems(3)] prems(6) o(1) by (simp add: occ_def)
    then have "live T' = live T - {#T ! i#}" using T'(4) ij by simp
    moreover have "htab_del_loop (?c - 1) T i = Some T'"
      by (subst htab_del_loop.simps) (simp only: Let_def step dib False if_False T'(1))
    ultimately show ?thesis using T' by blast
  qed
qed

section \<open>The table as a map\<close>

definition slot_key :: "('k \<Rightarrow> 'c) \<Rightarrow> ('k, 'v) op_htab_slot \<Rightarrow> 'c" where
  "slot_key canon s = canon (the (hs_key s))"

definition keys_once :: "('k \<Rightarrow> 'c) \<Rightarrow> ('k, 'v) op_htab_slot multiset \<Rightarrow> bool" where
  "keys_once canon M \<longleftrightarrow> (\<forall>c. count (image_mset (slot_key canon) M) c \<le> 1)"

text \<open>A well-formed table, for keys that are equal when their canonical forms are.\<close>

definition ht_ok :: "('k \<Rightarrow> 'c) \<Rightarrow> ('k, 'v) op_htab \<Rightarrow> bool" where
  "ht_ok canon ht \<longleftrightarrow>
     cap_ok (length (ht_slots ht)) \<and> ht_mask ht = length (ht_slots ht) - 1 \<and> robin (ht_slots ht) \<and>
     ht_count ht = size (live (ht_slots ht)) \<and> 4 * ht_count ht \<le> 3 * length (ht_slots ht) \<and>
     (\<forall>s \<in># live (ht_slots ht). hs_key s \<noteq> None \<and> hs_hash s = fix_hash (ht_hash_fn ht (the (hs_key s)))) \<and>
     keys_once canon (live (ht_slots ht))"

definition ht_map :: "('k \<Rightarrow> 'c) \<Rightarrow> ('k, 'v) op_htab \<Rightarrow> 'c \<Rightarrow> 'v option option" where
  "ht_map canon ht =
     map_of (map (\<lambda>s. (slot_key canon s, hs_val s)) (filter (\<lambda>s. hs_hash s \<noteq> 0) (ht_slots ht)))"

lemma live_filter: "live T = mset (filter (\<lambda>s. hs_hash s \<noteq> 0) T)"
  by (simp add: live_def mset_filter)

lemma keys_once_distinct:
  "keys_once canon (live T) \<longleftrightarrow> distinct (map (slot_key canon) (filter (\<lambda>s. hs_hash s \<noteq> 0) T))"
proof -
  have "count (mset xs) a \<le> 1 \<longleftrightarrow> count (mset xs) a = (if a \<in> set xs then 1 else 0)" for xs :: "'b list" and a
    using count_mset_0_iff [of xs a] by (cases "a \<in> set xs"; simp del: count_mset_0_iff; linarith)
  then show ?thesis
    unfolding keys_once_def live_filter distinct_count_atmost_1 mset_map [symmetric] by presburger
qed

lemma ht_map_iff:
  assumes "keys_once canon (live (ht_slots ht))"
  shows "ht_map canon ht c = Some v \<longleftrightarrow> (\<exists>s \<in># live (ht_slots ht). slot_key canon s = c \<and> hs_val s = v)"
proof -
  let ?xs = "map (\<lambda>s. (slot_key canon s, hs_val s)) (filter (\<lambda>s. hs_hash s \<noteq> 0) (ht_slots ht))"
  have "distinct (map fst ?xs)"
    using assms by (simp add: keys_once_distinct comp_def)
  then have "ht_map canon ht c = Some v \<longleftrightarrow> (c, v) \<in> set ?xs"
    unfolding ht_map_def by (rule map_of_eq_Some_iff)
  then show ?thesis by (auto simp: live_filter)
qed

lemma ht_map_None:
  assumes "keys_once canon (live (ht_slots ht))"
  shows "ht_map canon ht c = None \<longleftrightarrow> (\<forall>s \<in># live (ht_slots ht). slot_key canon s \<noteq> c)"
  using ht_map_iff [OF assms, of c] by (metis not_Some_eq option.exhaust)

lemma keys_once_add:
  "keys_once canon (add_mset s M) \<longleftrightarrow> keys_once canon M \<and> (\<forall>t \<in># M. slot_key canon t \<noteq> slot_key canon s)"
proof
  assume a: "keys_once canon (add_mset s M)"
  have c: "count (image_mset (slot_key canon) M) c + (if slot_key canon s = c then 1 else 0) \<le> 1" for c
    using a [unfolded keys_once_def, rule_format, of c] by (auto split: if_splits)
  have "count (image_mset (slot_key canon) M) (slot_key canon s) = 0"
    using c [of "slot_key canon s"] by simp
  then have "slot_key canon s \<notin># image_mset (slot_key canon) M"
    unfolding count_eq_zero_iff .
  then have "\<forall>t \<in># M. slot_key canon t \<noteq> slot_key canon s" by (auto simp: image_iff)
  moreover have "keys_once canon M"
    unfolding keys_once_def using c by (metis add_leD1)
  ultimately show "keys_once canon M \<and> (\<forall>t \<in># M. slot_key canon t \<noteq> slot_key canon s)" by blast
next
  assume a: "keys_once canon M \<and> (\<forall>t \<in># M. slot_key canon t \<noteq> slot_key canon s)"
  then have "slot_key canon s \<notin># image_mset (slot_key canon) M" by auto
  then have "count (image_mset (slot_key canon) M) (slot_key canon s) = 0" unfolding count_eq_zero_iff .
  then show "keys_once canon (add_mset s M)" using a by (simp add: keys_once_def)
qed

text \<open>Adding an entry with a new key, and taking one away.\<close>

lemma ht_map_add:
  assumes "live (ht_slots ht') = add_mset s (live (ht_slots ht))" "keys_once canon (live (ht_slots ht'))"
  shows "ht_map canon ht' = (ht_map canon ht)(slot_key canon s \<mapsto> hs_val s)"
proof
  fix c
  have k: "keys_once canon (live (ht_slots ht))" "\<forall>t \<in># live (ht_slots ht). slot_key canon t \<noteq> slot_key canon s"
    using assms(2) unfolding assms(1) keys_once_add by blast+
  have "ht_map canon ht' c = Some v \<longleftrightarrow> ((ht_map canon ht)(slot_key canon s \<mapsto> hs_val s)) c = Some v" for v
    using ht_map_iff [OF assms(2), of c v] ht_map_iff [OF k(1), of c v] k(2) unfolding assms(1) by auto
  then show "ht_map canon ht' c = ((ht_map canon ht)(slot_key canon s \<mapsto> hs_val s)) c"
    by (metis not_Some_eq)
qed

lemma ht_map_remove:
  assumes "live (ht_slots ht) = add_mset s (live (ht_slots ht'))" "keys_once canon (live (ht_slots ht))"
  shows "ht_map canon ht' = (ht_map canon ht)(slot_key canon s := None)"
proof
  fix c
  have k: "keys_once canon (live (ht_slots ht'))" "\<forall>t \<in># live (ht_slots ht'). slot_key canon t \<noteq> slot_key canon s"
    using assms(2) unfolding assms(1) keys_once_add by blast+
  have "ht_map canon ht' c = Some v \<longleftrightarrow> ((ht_map canon ht)(slot_key canon s := None)) c = Some v" for v
    using ht_map_iff [OF assms(2), of c v] ht_map_iff [OF k(1), of c v] k(2) unfolding assms(1) by auto
  then show "ht_map canon ht' c = ((ht_map canon ht)(slot_key canon s := None)) c"
    by (metis not_Some_eq)
qed

section \<open>Probing\<close>

lemma probe_sound:
  "htab_probe T (length T - 1) eq key h i d = Some j \<Longrightarrow> cap_ok (length T) \<Longrightarrow> i < length T \<Longrightarrow>
     j < length T \<and> occ T j \<and> hs_hash (T ! j) = h \<and> eq (the (hs_key (T ! j))) key"
proof (induction T "length T - 1" eq key h i d rule: htab_probe.induct)
  case (1 T eq key h i d)
  have nx: "(i + 1) AND (length T - 1) < length T"
    using cap_ge [OF "1.prems"(2)] unfolding and_cap1 [OF "1.prems"(2)] by (intro mod_less_divisor) linarith
  show ?case
  proof (cases "hs_hash (T ! i) = 0 \<or> dib (length T - 1) i (hs_hash (T ! i)) < d \<or>
      hs_hash (T ! i) = h \<and> eq (the (hs_key (T ! i))) key")
    case True
    then show ?thesis
      using "1.prems" by (subst (asm) htab_probe.simps) (auto simp: Let_def occ_def split: if_splits)
  next
    case False
    then have "htab_probe T (length T - 1) eq key h ((i + 1) AND (length T - 1)) (d + 1) = Some j"
      using "1.prems"(1) by (subst (asm) htab_probe.simps) (auto simp: Let_def split: if_splits)
    then show ?thesis using "1.hyps" [OF refl] False "1.prems"(2) nx by simp
  qed
qed

lemma probe_complete:
  assumes "cap_ok (length T)" "robin T" "j < length T" "occ T j" "eq (the (hs_key (T ! j))) key"
  shows "i < length T \<Longrightarrow> d + steps (length T) i j = dst T j \<Longrightarrow>
    htab_probe T (length T - 1) eq key (hs_hash (T ! j)) i d \<noteq> None"
proof (induction "steps (length T) i j" arbitrary: i d)
  case 0
  let ?c = "length T"
  have "i = j" using 0 steps_0 assms(3) by metis
  moreover have "dib (?c - 1) j (hs_hash (T ! j)) = dst T j"
    unfolding dst_def by (rule dib_dist_of [OF assms(1,3)])
  moreover have "d = dst T j" using 0 by simp
  ultimately show ?case
    using assms(4,5) by (subst htab_probe.simps) (simp add: occ_def Let_def)
next
  case (Suc n)
  let ?c = "length T"
  have ne: "i \<noteq> j" using Suc.hyps(2) Suc.prems(1) assms(3) steps_0 by fastforce
  have s: "steps ?c i j = Suc (steps ?c (nxt ?c i) j)" using steps_nxt Suc.prems(1) assms(3) ne by blast
  have c0: "0 < ?c" using assms(3) by linarith
  have o: "occ T i \<and> dst T j \<le> dst T i + steps ?c i j"
    using robin_chain [OF assms(2,3,4) Suc.prems(1)] Suc.prems(2) by linarith
  have "dib (?c - 1) i (hs_hash (T ! i)) = dst T i"
    unfolding dst_def by (rule dib_dist_of [OF assms(1) Suc.prems(1)])
  then have dib: "\<not> dib (?c - 1) i (hs_hash (T ! i)) < d" using o Suc.prems(2) by linarith
  have "htab_probe T (?c - 1) eq key (hs_hash (T ! j)) (nxt ?c i) (d + 1) \<noteq> None"
    using Suc.hyps(1) [of "nxt ?c i" "d + 1"] Suc.hyps(2) Suc.prems(2) s nxt_less [OF c0] by simp
  moreover have "(i + 1) AND (?c - 1) = nxt ?c i" unfolding and_cap1 [OF assms(1)] nxt_def ..
  ultimately show ?case
    using o dib by (subst htab_probe.simps) (simp add: occ_def Let_def)
qed

lemma live_nth: "i < length T \<Longrightarrow> occ T i \<Longrightarrow> T ! i \<in># live T"
  by (simp add: live_def occ_def)

lemma live_in: "s \<in># live T \<longleftrightarrow> (\<exists>i < length T. occ T i \<and> s = T ! i)"
  by (auto simp: live_def occ_def in_set_conv_nth)

lemma empty_slot_exists: "size (live T) < length T \<Longrightarrow> \<exists>z < length T. \<not> occ T z"
proof (rule ccontr)
  assume a: "size (live T) < length T" and "\<not> (\<exists>z < length T. \<not> occ T z)"
  then have "filter (\<lambda>s. hs_hash s \<noteq> 0) T = T"
    by (auto simp: filter_id_conv occ_def in_set_conv_nth)
  then show False using a by (simp add: live_filter)
qed

section \<open>Rehashing\<close>

lemma insert_slot:
  assumes "cap_ok (length T)" "robin T" "size (live T) < length T" "hs_hash e \<noteq> 0"
  shows "\<exists>T'. htab_insert_slot (length T - 1) T e = Some T' \<and> length T' = length T \<and> robin T' \<and>
    live T' = add_mset e (live T)"
proof -
  let ?c = "length T" and ?b = "unat (hs_hash e) mod length T"
  obtain z where z: "z < ?c" "\<not> occ T z" using empty_slot_exists [OF assms(3)] by blast
  have b: "?b < ?c" using z(1) by (intro mod_less_divisor) linarith
  have d: "dist_of ?c ?b (hs_hash e) = 0" using b by (simp add: dist_of_def)
  have "carried T ?b 0" by (simp add: carried_def)
  then show ?thesis
    using insert_loop [OF assms(1,2) b z assms(4)] d
    unfolding htab_insert_slot_def and_cap1 [OF assms(1)] by simp
qed

lemma rehash:
  "cap_ok (length T) \<Longrightarrow> robin T \<Longrightarrow> size (live T) + size (live old) < length T \<Longrightarrow>
     \<exists>T'. htab_rehash (length T - 1) old T = Some T' \<and> length T' = length T \<and> robin T' \<and>
       live T' = live T + live old"
proof (induction old arbitrary: T)
  case Nil
  then show ?case by (simp add: live_def)
next
  case (Cons s old)
  show ?case
  proof (cases "hs_hash s = 0")
    case True
    then have "live (s # old) = live old" by (simp add: live_def)
    then show ?thesis using Cons True by auto
  next
    case False
    then have l: "live (s # old) = add_mset s (live old)" by (simp add: live_def)
    obtain T1 where T1: "htab_insert_slot (length T - 1) T s = Some T1" "length T1 = length T" "robin T1"
      "live T1 = add_mset s (live T)"
      using insert_slot [OF Cons.prems(1,2) _ False] Cons.prems(3) by auto
    then obtain T' where "htab_rehash (length T - 1) old T1 = Some T'" "length T' = length T" "robin T'"
      "live T' = live T1 + live old"
      using Cons.IH [of T1] Cons.prems l by auto
    then show ?thesis using T1 l False by auto
  qed
qed

lemma live_replicate: "live (replicate n empty_slot) = {#}"
  by (simp add: live_filter empty_slot_def)

lemma robin_replicate: "robin (replicate n empty_slot)"
  by (cases "n = 0") (auto simp: robin_def occ_def empty_slot_def nxt_less)

section \<open>Powers of two\<close>

lemma bit_smear:
  fixes x m :: "64 word"
  assumes "\<And>i. bit x i \<longleftrightarrow> (\<exists>j < w. bit m (i + j))"
  shows "bit (x OR drop_bit w x) i \<longleftrightarrow> (\<exists>j < 2 * w. bit m (i + j))"
proof -
  have "(\<exists>j < w. bit m (i + j)) \<or> (\<exists>j < w. bit m (w + i + j)) \<longleftrightarrow> (\<exists>j < 2 * w. bit m (i + j))"
  proof
    assume "(\<exists>j < w. bit m (i + j)) \<or> (\<exists>j < w. bit m (w + i + j))"
    then obtain j where "j < w" "bit m (i + j) \<or> bit m (i + (w + j))"
      by (metis add.assoc add.commute)
    then have "j < 2 * w \<and> bit m (i + j) \<or> w + j < 2 * w \<and> bit m (i + (w + j))" by auto
    then show "\<exists>j < 2 * w. bit m (i + j)" by blast
  next
    assume "\<exists>j < 2 * w. bit m (i + j)"
    then obtain j where j: "j < 2 * w" "bit m (i + j)" by blast
    show "(\<exists>j < w. bit m (i + j)) \<or> (\<exists>j < w. bit m (w + i + j))"
    proof (cases "j < w")
      case True
      then show ?thesis using j by blast
    next
      case False
      then have "bit m (w + i + (j - w))" "j - w < w" using j by simp_all
      then show ?thesis by blast
    qed
  qed
  then show ?thesis by (simp add: bit_or_iff bit_drop_bit_eq comp_def assms add.commute add.left_commute)
qed

lemma smear_all:
  fixes m :: "64 word"
  defines "a \<equiv> m OR drop_bit 1 m"
  defines "b \<equiv> a OR drop_bit 2 a"
  defines "c \<equiv> b OR drop_bit 4 b"
  defines "d \<equiv> c OR drop_bit 8 c"
  defines "e \<equiv> d OR drop_bit 16 d"
  defines "f \<equiv> e OR drop_bit 32 e"
  shows "bit f i \<longleftrightarrow> (\<exists>j < 64. bit m (i + j))"
proof -
  have "bit m i \<longleftrightarrow> (\<exists>j < 1. bit m (i + j))" for i by simp
  note s = bit_smear [OF this]
  have a: "bit a i \<longleftrightarrow> (\<exists>j < 2. bit m (i + j))" for i using s [of i] by (simp add: a_def)
  have b: "bit b i \<longleftrightarrow> (\<exists>j < 4. bit m (i + j))" for i using bit_smear [OF a, of i] by (simp add: b_def)
  have c: "bit c i \<longleftrightarrow> (\<exists>j < 8. bit m (i + j))" for i using bit_smear [OF b, of i] by (simp add: c_def)
  have d: "bit d i \<longleftrightarrow> (\<exists>j < 16. bit m (i + j))" for i using bit_smear [OF c, of i] by (simp add: d_def)
  have e: "bit e i \<longleftrightarrow> (\<exists>j < 32. bit m (i + j))" for i using bit_smear [OF d, of i] by (simp add: e_def)
  show ?thesis using bit_smear [OF e, of i] by (simp add: f_def)
qed

lemma next_pow2_power:
  assumes "unat n \<le> 2 ^ 61"
  shows "\<exists>k. 4 \<le> k \<and> k \<le> 61 \<and> unat (next_pow2 n) = 2 ^ k \<and> unat n \<le> 2 ^ k"
proof (cases "n < 16")
  case True
  then have "unat n < 16" by (simp add: word_less_nat_alt)
  then show ?thesis using True by (intro exI [of _ 4]) (simp add: next_pow2_def)
next
  case False
  then have n: "16 \<le> unat n" by (simp add: word_less_nat_alt)
  define m where "m = n - 1"
  have m: "unat m = unat n - 1" using n unfolding m_def by (subst unat_minus_one) auto
  then have "1 \<le> unat m" using n by simp
  then obtain h where h: "2 ^ h \<le> unat m" "unat m < 2 ^ (h + 1)"
    using ex_power_ivl1 [of 2 "unat m"] by auto
  have "(2::nat) ^ h < 2 ^ 61" using h(1) m assms n by linarith
  then have h60: "h < 61" by (rule power_less_imp_less_exp [rotated]) simp
  have "(2::nat) ^ 3 < 2 ^ (h + 1)" using h(2) m n by simp
  then have h3: "3 < h + 1" by (rule power_less_imp_less_exp [rotated]) simp
  have top: "bit m h"
  proof -
    have "unat m div 2 ^ h = 1" using h by (intro div_nat_eqI) auto
    then have "bit (unat m) h" by (simp add: bit_iff_odd)
    then show ?thesis by (simp add: bit_unsigned_iff)
  qed
  have above: "\<not> bit m i" if "h < i" for i
  proof -
    have "(2::nat) ^ (h + 1) \<le> 2 ^ i" using that by (intro power_increasing) auto
    then have "unat m div 2 ^ i = 0" using h(2) by simp
    then have "\<not> bit (unat m) i" by (simp add: bit_iff_odd)
    then show ?thesis by (simp add: bit_unsigned_iff)
  qed
  have "next_pow2 n = mask (h + 1) + 1"
  proof -
    have "(\<exists>j < 64. bit m (i + j)) \<longleftrightarrow> i < h + 1" if "i < 64" for i
    proof
      assume "\<exists>j < 64. bit m (i + j)"
      then show "i < h + 1" using above by (metis add_leE less_Suc_eq_le linorder_not_less Suc_eq_plus1 le_refl)
    next
      assume "i < h + 1"
      then show "\<exists>j < 64. bit m (i + j)" using top h60 by (intro exI [of _ "h - i"]) simp
    qed
    then have "(let n = m OR drop_bit 1 m; n = n OR drop_bit 2 n; n = n OR drop_bit 4 n;
             n = n OR drop_bit 8 n; n = n OR drop_bit 16 n; n = n OR drop_bit 32 n in n) = mask (h + 1)"
      unfolding Let_def by (intro bit_word_eqI) (simp only: smear_all bit_mask_iff, simp)
    then show ?thesis using False by (simp add: next_pow2_def m_def Let_def)
  qed
  then have "next_pow2 n = 2 ^ (h + 1)" by (simp add: mask_eq_exp_minus_1)
  then have "next_pow2 n = of_nat (2 ^ (h + 1))" by simp
  moreover have "(2::nat) ^ (h + 1) < 2 ^ 64" using h60 by (intro power_strict_increasing) simp_all
  ultimately have "unat (next_pow2 n) = 2 ^ (h + 1)" by (simp only: unat_of_nat len_num1 len_bit0 len_bit1) simp
  moreover have "unat n \<le> 2 ^ (h + 1)" using h(2) m by linarith
  ultimately show ?thesis using h60 h3 by (intro exI [of _ "h + 1"]) simp
qed

section \<open>The operations, for any consistent hash and equality\<close>

definition tab_ok :: "('k \<Rightarrow> 'c) \<Rightarrow> ('k \<Rightarrow> 64 word) \<Rightarrow> ('k \<Rightarrow> 'k \<Rightarrow> bool) \<Rightarrow> ('k, 'v) op_htab \<Rightarrow> bool" where
  "tab_ok canon hash eq ht \<longleftrightarrow> ht_hash_fn ht = hash \<and> ht_eq_fn ht = eq \<and> ht_ok canon ht"

text \<open>
  The contract of the two function pointers: equality is equality of canonical forms, and equal keys
  have equal hashes.
\<close>

locale htab_keys =
  fixes canon :: "'k \<Rightarrow> 'c" and hash :: "'k \<Rightarrow> 64 word" and eq :: "'k \<Rightarrow> 'k \<Rightarrow> bool"
  assumes eq_canon: "eq a b \<longleftrightarrow> canon a = canon b"
    and hash_canon: "canon a = canon b \<Longrightarrow> hash a = hash b"
begin

abbreviation tab :: "('k, 'v) op_htab \<Rightarrow> bool" where
  "tab \<equiv> tab_ok canon hash eq"

lemma tabD:
  assumes "tab ht"
  shows "ht_hash_fn ht = hash" "ht_eq_fn ht = eq" "cap_ok (length (ht_slots ht))"
    "ht_mask ht = length (ht_slots ht) - 1" "robin (ht_slots ht)" "ht_count ht = size (live (ht_slots ht))"
    "4 * ht_count ht \<le> 3 * length (ht_slots ht)" "keys_once canon (live (ht_slots ht))"
    "\<And>s. s \<in># live (ht_slots ht) \<Longrightarrow> hs_key s \<noteq> None \<and> hs_hash s = fix_hash (hash (the (hs_key s)))"
  using assms by (auto simp: tab_ok_def ht_ok_def)

lemma find_Some:
  assumes "tab ht" "htab_find_idx ht key (fix_hash (hash key)) = Some i"
  shows "i < length (ht_slots ht)" "occ (ht_slots ht) i" "slot_key canon (ht_slots ht ! i) = canon key"
proof -
  note t = tabD [OF assms(1)]
  have "unat (fix_hash (hash key)) AND (length (ht_slots ht) - 1) < length (ht_slots ht)"
    using cap_ge [OF t(3)] unfolding and_cap1 [OF t(3)] by (intro mod_less_divisor) linarith
  then have "i < length (ht_slots ht) \<and> occ (ht_slots ht) i \<and> eq (the (hs_key (ht_slots ht ! i))) key"
    using probe_sound [OF _ t(3)] assms(2) unfolding htab_find_idx_def t by blast
  then show "i < length (ht_slots ht)" "occ (ht_slots ht) i" "slot_key canon (ht_slots ht ! i) = canon key"
    by (simp_all add: slot_key_def eq_canon)
qed

lemma find_None:
  assumes "tab ht" "htab_find_idx ht key (fix_hash (hash key)) = None" "s \<in># live (ht_slots ht)"
  shows "slot_key canon s \<noteq> canon key"
proof
  assume k: "slot_key canon s = canon key"
  note t = tabD [OF assms(1)]
  obtain j where j: "j < length (ht_slots ht)" "occ (ht_slots ht) j" "s = ht_slots ht ! j"
    using assms(3) by (auto simp: live_in)
  have h: "hs_hash s = fix_hash (hash key)"
    using t(9) [OF assms(3)] hash_canon [of "the (hs_key s)" key] k by (simp add: slot_key_def)
  have e: "eq (the (hs_key (ht_slots ht ! j))) key" using k j(3) by (simp add: slot_key_def eq_canon)
  let ?c = "length (ht_slots ht)" and ?b = "unat (hs_hash s) mod length (ht_slots ht)"
  have c: "0 < ?c" using j(1) by linarith
  have "?b < ?c" using c by simp
  moreover have "0 + steps ?c ?b j = dst (ht_slots ht) j"
    using dist_of_steps [OF c j(1)] j(3) by (simp add: dst_def)
  ultimately have "htab_probe (ht_slots ht) (?c - 1) eq key (hs_hash s) ?b 0 \<noteq> None"
    using probe_complete [where eq = eq and key = key, OF t(3,5) j(1,2) e, of ?b 0] j(3) by simp
  then show False
    using assms(2) unfolding htab_find_idx_def t and_cap1 [OF t(3)] h by blast
qed

lemma find_map:
  assumes "tab ht"
  shows "ht_map canon ht (canon key) =
    map_option (\<lambda>i. hs_val (ht_slots ht ! i)) (htab_find_idx ht key (fix_hash (hash key)))"
proof (cases "htab_find_idx ht key (fix_hash (hash key))")
  case None
  then show ?thesis
    using find_None [OF assms None] ht_map_None [OF tabD(8) [OF assms]] by simp
next
  case (Some i)
  then show ?thesis
    using find_Some [OF assms Some] live_nth ht_map_iff [OF tabD(8) [OF assms]] by fastforce
qed

lemma get: "tab ht \<Longrightarrow> op_htab_get ht key = (case ht_map canon ht (canon key) of None \<Rightarrow> None | Some v \<Rightarrow> v)"
  using find_map [of ht key] tabD(1) [of ht]
  by (auto simp: op_htab_get_def htab_lookup_def split: option.splits)

lemma has: "tab ht \<Longrightarrow> op_htab_has ht key \<longleftrightarrow> ht_map canon ht (canon key) \<noteq> None"
  using find_map [of ht key] tabD(1) [of ht] by (simp add: op_htab_has_def htab_lookup_def)

lemma resize:
  assumes "tab ht" "cap_ok new_cap" "4 * ht_count ht \<le> 3 * new_cap"
  shows "\<exists>ht'. htab_resize ht new_cap = Some ht' \<and> tab ht' \<and> live (ht_slots ht') = live (ht_slots ht) \<and>
    length (ht_slots ht') = new_cap \<and> ht_map canon ht' = ht_map canon ht"
proof -
  note t = tabD [OF assms(1)]
  let ?new = "replicate new_cap empty_slot :: ('k, 'v) op_htab_slot list"
  have "size (live (ht_slots ht)) < new_cap" using assms(3) cap_ge [OF assms(2)] t(6) by linarith
  then obtain T where T: "htab_rehash (new_cap - 1) (ht_slots ht) ?new = Some T" "length T = new_cap" "robin T"
    "live T = live (ht_slots ht)"
    using rehash [of ?new "ht_slots ht"] assms(2) by (auto simp: robin_replicate live_replicate)
  let ?ht = "ht\<lparr>ht_slots := T, ht_mask := new_cap - 1\<rparr>"
  have "tab ?ht" using T assms t by (auto simp: tab_ok_def ht_ok_def)
  moreover have "ht_map canon ?ht = ht_map canon ht"
  proof
    fix c
    have "ht_map canon ?ht c = Some v \<longleftrightarrow> ht_map canon ht c = Some v" for v
      using ht_map_iff [of canon ?ht c v] ht_map_iff [OF t(8), of c v] T(4) t(8) by simp
    then show "ht_map canon ?ht c = ht_map canon ht c" by (metis not_Some_eq)
  qed
  ultimately show ?thesis using T by (simp add: htab_resize_def)
qed

lemma maybe_grow:
  assumes "tab ht" "ht_count ht < 2 ^ 60"
  shows "\<exists>ht'. htab_maybe_grow ht = Some ht' \<and> tab ht' \<and> live (ht_slots ht') = live (ht_slots ht) \<and>
    4 * (ht_count ht' + 1) \<le> 3 * length (ht_slots ht') \<and> ht_map canon ht' = ht_map canon ht"
proof -
  note t = tabD [OF assms(1)]
  let ?c = "length (ht_slots ht)"
  obtain k where k: "4 \<le> k" "k \<le> 62" "?c = 2 ^ k" using t(3) by (auto simp: cap_ok_def)
  have m: "ht_mask ht + 1 = ?c" using t(4) cap_ge [OF t(3)] by linarith
  have c4: "4 dvd ?c" using k le_imp_power_dvd [of 2 k "2 :: nat"] by simp
  show ?thesis
  proof (cases "?c * 3 \<le> ht_count ht * 4")
    case True
    have "(2::nat) ^ k < 2 ^ 61" using True assms(2) k(3) by simp
    then have "k < 61" by (rule power_less_imp_less_exp [rotated]) simp
    then have "cap_ok (?c * 2)" unfolding cap_ok_def using k by (intro exI [of _ "k + 1"]) simp
    moreover have "4 * ht_count ht \<le> 3 * (?c * 2)" using t(7) by linarith
    ultimately obtain ht' where ht': "htab_resize ht (?c * 2) = Some ht'" "tab ht'"
      "live (ht_slots ht') = live (ht_slots ht)" "length (ht_slots ht') = ?c * 2" "ht_map canon ht' = ht_map canon ht"
      using resize [OF assms(1)] by blast
    moreover have "ht_count ht' = ht_count ht" using tabD(6) [OF ht'(2)] t(6) ht'(3) by simp
    moreover have "4 * (ht_count ht + 1) \<le> 3 * (?c * 2)" using t(7) cap_ge [OF t(3)] by auto
    ultimately show ?thesis using True m by (simp add: htab_maybe_grow_def Let_def)
  next
    case False
    then have "4 * (ht_count ht + 1) \<le> 3 * ?c" using c4 by (elim dvdE) simp
    then show ?thesis using False m assms(1) by (simp add: htab_maybe_grow_def Let_def)
  qed
qed

lemma add:
  assumes "tab ht" "ht_count ht < 2 ^ 60" "ht_map canon ht (canon key) = None"
  shows "\<exists>ht'. htab_add ht key val (fix_hash (hash key)) = Some ht' \<and> tab ht' \<and>
    ht_map canon ht' = (ht_map canon ht)(canon key \<mapsto> val) \<and> ht_count ht' = ht_count ht + 1"
proof -
  let ?e = "\<lparr>hs_key = Some key, hs_val = val, hs_hash = fix_hash (hash key)\<rparr>"
  obtain g where g: "htab_maybe_grow ht = Some g" "tab g" "live (ht_slots g) = live (ht_slots ht)"
    "4 * (ht_count g + 1) \<le> 3 * length (ht_slots g)" "ht_map canon g = ht_map canon ht"
    using maybe_grow [OF assms(1,2)] by blast
  note t = tabD [OF g(2)]
  have h: "hs_hash ?e \<noteq> 0" by (simp add: fix_hash_def)
  have "size (live (ht_slots g)) < length (ht_slots g)" using g(4) t(6) by auto
  then obtain T where T: "htab_insert_slot (ht_mask g) (ht_slots g) ?e = Some T"
    "length T = length (ht_slots g)" "robin T" "live T = add_mset ?e (live (ht_slots g))"
    using insert_slot [OF t(3,5) _ h] t(4) by auto
  let ?ht = "g\<lparr>ht_slots := T, ht_count := ht_count g + 1\<rparr>"
  have new: "\<forall>s \<in># live (ht_slots g). slot_key canon s \<noteq> slot_key canon ?e"
    using assms(3) g(5) ht_map_None [OF t(8), of "canon key"] by (simp add: slot_key_def)
  then have once: "keys_once canon (live T)" using t(8) T(4) by (simp add: keys_once_add)
  have "tab ?ht"
    unfolding tab_ok_def ht_ok_def using T t g(4) once by (auto simp: tab_ok_def ht_ok_def)
  moreover have "ht_map canon ?ht = (ht_map canon g)(slot_key canon ?e \<mapsto> hs_val ?e)"
    using T(4) once by (intro ht_map_add) simp_all
  moreover have "ht_count g = ht_count ht" using t(6) tabD(6) [OF assms(1)] g(3) by simp
  ultimately show ?thesis using g(1,5) T(1) by (simp add: htab_add_def slot_key_def)
qed

lemma update:
  fixes ht :: "('k, 'v) op_htab" and val :: "'v option"
  assumes "tab ht" "htab_find_idx ht key (fix_hash (hash key)) = Some i"
  defines "ht' \<equiv> ht\<lparr>ht_slots := (ht_slots ht)[i := (ht_slots ht ! i)\<lparr>hs_val := val\<rparr>]\<rparr>"
  shows "tab ht' \<and> ht_map canon ht' = (ht_map canon ht)(canon key \<mapsto> val) \<and> ht_count ht' = ht_count ht"
proof -
  note t = tabD [OF assms(1)] and f = find_Some [OF assms(1,2)]
  let ?T = "ht_slots ht" and ?s = "ht_slots ht ! i"
  let ?s' = "?s\<lparr>hs_val := val\<rparr>"
  define M where "M = live ?T - {#?s#}"
  have h: "hs_hash ?s' \<noteq> 0" using f(2) by (simp add: occ_def)
  have l: "live ?T = add_mset ?s M" using live_nth [OF f(1,2)] by (simp add: M_def)
  have l': "live (ht_slots ht') = add_mset ?s' M"
    using live_update [OF f(1), of ?s'] h f(2) by (simp add: ht'_def M_def)
  have k: "keys_once canon M" "\<forall>t \<in># M. slot_key canon t \<noteq> slot_key canon ?s"
    using t(8) unfolding l keys_once_add by blast+
  have once: "keys_once canon (live (ht_slots ht'))"
    unfolding l' keys_once_add using k by (simp add: slot_key_def)
  have o: "occ (ht_slots ht') q = occ ?T q" "dst (ht_slots ht') q = dst ?T q" for q
    using f(1,2) by (auto simp: ht'_def occ_def dst_def nth_list_update)
  have "robin (ht_slots ht')"
    using t(5) o unfolding robin_def by (simp add: ht'_def)
  then have "tab ht'"
    using t l l' once by (auto simp: tab_ok_def ht_ok_def ht'_def)
  moreover have "ht_map canon ht' = (ht_map canon ht)(canon key \<mapsto> val)"
  proof
    fix c
    have "ht_map canon ht' c = Some v \<longleftrightarrow> ((ht_map canon ht)(canon key \<mapsto> val)) c = Some v" for v
      using ht_map_iff [OF once, of c v] ht_map_iff [OF t(8), of c v] k(2) f(3) unfolding l l'
      by (auto simp: slot_key_def)
    then show "ht_map canon ht' c = ((ht_map canon ht)(canon key \<mapsto> val)) c" by (metis not_Some_eq)
  qed
  ultimately show ?thesis by (simp add: ht'_def)
qed

end

context htab_keys
begin

definition val_at :: "('k, 'v) op_htab \<Rightarrow> 'k \<Rightarrow> 'v option" where
  "val_at ht key = (case ht_map canon ht (canon key) of None \<Rightarrow> None | Some v \<Rightarrow> v)"

lemma set:
  assumes "tab ht" "ht_count ht < 2 ^ 60"
  shows "\<exists>ht' rc. op_htab_set ht key val = Some (ht', rc, val_at ht key) \<and> tab ht' \<and>
    ht_map canon ht' = (ht_map canon ht)(canon key \<mapsto> val) \<and>
    rc = (if ht_map canon ht (canon key) = None then 1 else 0) \<and> int (ht_count ht') = int (ht_count ht) + rc"
proof (cases "htab_find_idx ht key (fix_hash (hash key))")
  case None
  then have n: "ht_map canon ht (canon key) = None" using find_map [OF assms(1)] by simp
  then obtain ht' where "htab_add ht key val (fix_hash (hash key)) = Some ht'" "tab ht'"
    "ht_map canon ht' = (ht_map canon ht)(canon key \<mapsto> val)" "ht_count ht' = ht_count ht + 1"
    using add [OF assms] by blast
  then show ?thesis using None n tabD(1) [OF assms(1)] by (simp add: op_htab_set_def val_at_def Let_def)
next
  case (Some i)
  then have "ht_map canon ht (canon key) = Some (hs_val (ht_slots ht ! i))"
    using find_map [OF assms(1)] by simp
  then show ?thesis
    using Some update [OF assms(1) Some, of val] tabD(1) [OF assms(1)]
    by (simp add: op_htab_set_def val_at_def Let_def)
qed

lemma get_or_set:
  assumes "tab ht" "ht_count ht < 2 ^ 60"
  shows "\<exists>ht' v. op_htab_get_or_set ht key val = Some (ht', v, ht_map canon ht (canon key) = None) \<and> tab ht' \<and>
    v = (if ht_map canon ht (canon key) = None then val else val_at ht key) \<and>
    ht_map canon ht' = (if ht_map canon ht (canon key) = None
      then (ht_map canon ht)(canon key \<mapsto> val) else ht_map canon ht)"
proof (cases "htab_find_idx ht key (fix_hash (hash key))")
  case None
  then have n: "ht_map canon ht (canon key) = None" using find_map [OF assms(1)] by simp
  then obtain ht' where "htab_add ht key val (fix_hash (hash key)) = Some ht'" "tab ht'"
    "ht_map canon ht' = (ht_map canon ht)(canon key \<mapsto> val)"
    using add [OF assms] by blast
  then show ?thesis using None n tabD(1) [OF assms(1)] by (simp add: op_htab_get_or_set_def Let_def)
next
  case (Some i)
  then have "ht_map canon ht (canon key) = Some (hs_val (ht_slots ht ! i))"
    using find_map [OF assms(1)] by simp
  then show ?thesis
    using Some assms(1) tabD(1) [OF assms(1)] by (simp add: op_htab_get_or_set_def val_at_def Let_def)
qed

lemma del_at:
  assumes "tab ht" "i < length (ht_slots ht)" "occ (ht_slots ht) i"
  shows "\<exists>ht'. htab_del_at ht i = Some ht' \<and> tab ht' \<and> ht_count ht' + 1 = ht_count ht \<and>
    ht_map canon ht' = (ht_map canon ht)(slot_key canon (ht_slots ht ! i) := None)"
proof -
  note t = tabD [OF assms(1)]
  let ?T = "ht_slots ht"
  have "size (live ?T) < length ?T" using t(6,7) cap_ge [OF t(3)] by linarith
  then obtain z where z: "z < length ?T" "\<not> occ ?T z" using empty_slot_exists by blast
  obtain T where T: "htab_del_loop (length ?T - 1) ?T i = Some T" "length T = length ?T" "robin T"
    "live T = live ?T - {#?T ! i#}"
    using del_loop [OF t(3,5) assms(2) z assms(3)] by blast
  have l: "live ?T = add_mset (?T ! i) (live T)" using T(4) live_nth [OF assms(2,3)] by simp
  let ?ht = "ht\<lparr>ht_slots := T, ht_count := ht_count ht - 1\<rparr>"
  have c: "ht_count ht = size (live T) + 1" using t(6) l by simp
  have k: "keys_once canon (live T)" using t(8) unfolding l keys_once_add by blast
  have "tab ?ht" using T(2,3) t l c k by (auto simp: tab_ok_def ht_ok_def)
  moreover have "ht_map canon ?ht = (ht_map canon ht)(slot_key canon (?T ! i) := None)"
    using l t(8) by (intro ht_map_remove) simp_all
  ultimately show ?thesis using T(1) t(4) c by (simp add: htab_del_at_def)
qed

lemma del:
  assumes "tab ht"
  shows "\<exists>ht'. op_htab_del ht key = Some (ht', val_at ht key) \<and> tab ht' \<and>
    ht_map canon ht' = (ht_map canon ht)(canon key := None) \<and>
    ht_count ht' + (if ht_map canon ht (canon key) = None then 0 else 1) = ht_count ht"
proof (cases "htab_find_idx ht key (fix_hash (hash key))")
  case None
  then have n: "ht_map canon ht (canon key) = None" using find_map [OF assms] by simp
  then have "(ht_map canon ht)(canon key := None) = ht_map canon ht" by auto
  then show ?thesis using None n assms tabD(1) [OF assms] by (simp add: op_htab_del_def val_at_def Let_def)
next
  case (Some i)
  then have m: "ht_map canon ht (canon key) = Some (hs_val (ht_slots ht ! i))"
    using find_map [OF assms] by simp
  note f = find_Some [OF assms Some]
  show ?thesis
    using Some m f(3) del_at [OF assms f(1,2)] tabD(1) [OF assms]
    by (auto simp: op_htab_del_def val_at_def Let_def)
qed

lemma compact:
  assumes "tab ht" "ht_count ht < 2 ^ 60"
  shows "\<exists>ht'. op_htab_compact ht = Some ht' \<and> tab ht' \<and> ht_map canon ht' = ht_map canon ht \<and>
    length (ht_slots ht') \<le> length (ht_slots ht)"
proof -
  note t = tabD [OF assms(1)]
  let ?n = "of_nat (ht_count ht * 2 + 1) :: 64 word"
  have "ht_count ht * 2 + 1 < 2 ^ 64" using assms(2) by simp
  then have n: "unat ?n = ht_count ht * 2 + 1"
    by (simp only: unat_of_nat len_num1 len_bit0 len_bit1) simp
  then obtain k where k: "4 \<le> k" "k \<le> 61" "unat (next_pow2 ?n) = 2 ^ k" "ht_count ht * 2 + 1 \<le> 2 ^ k"
    using next_pow2_power [of ?n] assms(2) by auto
  have m: "ht_mask ht + 1 = length (ht_slots ht)" using t(4) cap_ge [OF t(3)] by linarith
  show ?thesis
  proof (cases "2 ^ k < length (ht_slots ht)")
    case True
    have "cap_ok (2 ^ k)" unfolding cap_ok_def using k by (intro exI [of _ k]) simp
    moreover have "4 * ht_count ht \<le> 3 * 2 ^ k" using k(4) by linarith
    ultimately obtain ht' where "htab_resize ht (2 ^ k) = Some ht'" "tab ht'" "length (ht_slots ht') = 2 ^ k"
      "ht_map canon ht' = ht_map canon ht"
      using resize [OF assms(1)] by blast
    then show ?thesis using True m k(3) by (simp add: op_htab_compact_def Let_def)
  next
    case False
    then show ?thesis using m k(3) assms(1) by (simp add: op_htab_compact_def Let_def)
  qed
qed

lemma create:
  assumes "unat n \<le> 2 ^ 61"
  shows "tab (op_htab_create hash eq n) \<and> ht_map canon (op_htab_create hash eq n) = Map.empty"
proof -
  obtain k where k: "4 \<le> k" "k \<le> 61" "unat (next_pow2 n) = 2 ^ k" using next_pow2_power [OF assms] by blast
  have "cap_ok (2 ^ k)" unfolding cap_ok_def using k by (intro exI [of _ k]) simp
  then show ?thesis
    using k(3) live_replicate [of "2 ^ k"] robin_replicate [of "2 ^ k"]
    by (auto simp: tab_ok_def ht_ok_def op_htab_create_def keys_once_def ht_map_def empty_slot_def Let_def)
qed

end

section \<open>The three kinds of table\<close>

definition istr_canon :: "string \<Rightarrow> uchar list" where
  "istr_canon s = map (\<lambda>c. istr_fold (uchar_of c)) (until_nul s)"

lemma or_20: "\<forall>n \<in> set [65..<91]. ((of_nat n :: uchar) OR 0x20) = of_nat (n + 32)"
  by (simp add: upt_rec)

lemma istr_fold_rfc: "istr_fold (uchar_of c) = uchar_of (rfc_tolower c)"
proof -
  have w: "uchar_of c = of_nat (uc c)" "uc c < 256" by (simp_all add: uchar_of_def)
  have o: "65 \<le> uc c \<Longrightarrow> uc c \<le> 90 \<Longrightarrow> (of_nat (uc c) :: uchar) OR 0x20 = of_nat (uc c + 32)"
  proof -
    assume "65 \<le> uc c" "uc c \<le> 90"
    then have "uc c \<in> set [65..<91]" by (simp only: set_upt atLeastLessThan_iff, simp)
    then show ?thesis using or_20 by (rule bspec [rotated])
  qed
  have u: "unat (of_nat (uc c) :: uchar) = uc c" using unat_uchar_of [of c] by (simp add: uchar_of_def)
  show ?thesis
    using o unfolding istr_fold_def w(1) uchar_of_def uc_rfc_tolower word_le_nat_alt u by auto
qed

lemma istr_fold_0: "istr_fold (uchar_of c) = 0 \<longleftrightarrow> c = NUL"
proof -
  have "uchar_of d = 0 \<longleftrightarrow> d = NUL" for d
    using unat_uchar_of [of d] by (metis unat_0 unat_eq_zero uc_NUL uc_pos bot_nat_0.not_eq_extremum)
  then show ?thesis unfolding istr_fold_rfc by (auto simp: uc_eq_iff uc_rfc_tolower)
qed

lemma htab_eq_istr: "htab_eq_istr a b \<longleftrightarrow> istr_canon a = istr_canon b"
proof (induction a arbitrary: b)
  case Nil
  then show ?case
    using istr_fold_0 [of "c0 b"] istr_fold_0 [of NUL] by (cases b) (auto simp: istr_canon_def until_nul_def)
next
  case (Cons x a)
  then show ?case
    using istr_fold_0 [of x] istr_fold_0 [of "c0 b"] istr_fold_0 [of NUL]
    by (cases b) (auto simp: Let_def istr_canon_def until_nul_def)
qed

lemma istr_canon_rfc:
  "cstring a \<Longrightarrow> cstring b \<Longrightarrow> istr_canon a = istr_canon b \<longleftrightarrow> map rfc_toupper a = map rfc_toupper b"
proof -
  have i: "uchar_of x = uchar_of y \<longleftrightarrow> x = y" for x y
    using unat_uchar_of [of x] unat_uchar_of [of y] by (metis uc_eq_iff)
  have r: "rfc_tolower x = rfc_tolower y \<longleftrightarrow> rfc_toupper x = rfc_toupper y" for x y
    unfolding uc_eq_iff uc_rfc_tolower uc_rfc_toupper by (auto simp del: of_char_eq_iff split: if_splits)
  assume "cstring a" "cstring b"
  then have "until_nul a = a" "until_nul b = b"
    by (auto simp: until_nul_def cstring_def takeWhile_eq_all_conv)
  then show ?thesis
    by (simp add: istr_canon_def istr_fold_rfc list_eq_iff_nth_eq) (auto simp: i r list_eq_iff_nth_eq)
qed

interpretation str_keys: htab_keys until_nul op_htab_hash_str htab_eq_str
  by unfold_locales (simp_all add: htab_eq_str_def op_htab_hash_str_def)

lemma hash_istr_canon:
  "op_htab_hash_istr key = fix_hash (foldl (\<lambda>h c. fnv_step h (unat c)) 14695981039346656037 (istr_canon key))"
  by (simp add: op_htab_hash_istr_def istr_canon_def foldl_map)

interpretation istr_keys: htab_keys istr_canon op_htab_hash_istr htab_eq_istr
  by unfold_locales (simp_all add: htab_eq_istr hash_istr_canon)

interpretation ptr_keys: htab_keys id op_htab_hash_ptr htab_eq_ptr
  by unfold_locales (simp_all add: htab_eq_ptr_def)

section \<open>Merging\<close>

text \<open>What merging the live entries \<open>xs\<close> of the source makes of a map.\<close>

fun merged :: "bool \<Rightarrow> ('c \<times> 'w) list \<Rightarrow> ('c \<Rightarrow> 'w option) \<Rightarrow> ('c \<Rightarrow> 'w option)" where
  "merged conflicts [] m = m"
| "merged conflicts ((c, v) # xs) m =
     merged conflicts xs (if conflicts \<and> m c \<noteq> None then m else m(c \<mapsto> v))"

lemma merged_map_add:
  "distinct (map fst xs) \<Longrightarrow> merged conflicts xs m = (if conflicts then map_of xs ++ m else m ++ map_of xs)"
proof (induction xs arbitrary: m)
  case (Cons x xs)
  obtain c v where x: "x = (c, v)" by fastforce
  have n: "map_of xs c = None" using Cons.prems x by (simp add: map_of_eq_None_iff)
  show ?case
    using Cons n x by (auto simp: map_add_def fun_eq_iff split: option.splits)
qed simp

context htab_keys
begin

abbreviation pairs :: "('k, 'v) op_htab_slot list \<Rightarrow> ('c \<times> 'v option) list" where
  "pairs T \<equiv> map (\<lambda>s. (slot_key canon s, hs_val s)) (filter (\<lambda>s. hs_hash s \<noteq> 0) T)"

lemma merge_loop:
  "tab dest \<Longrightarrow> ht_count dest + length src < 2 ^ 60 \<Longrightarrow> \<forall>s \<in> set src. hs_hash s \<noteq> 0 \<longrightarrow> hs_key s \<noteq> None \<Longrightarrow>
     \<exists>dest' calls'. merge_loop conflicts src dest calls = Some (dest', calls') \<and> tab dest' \<and>
       ht_map canon dest' = merged conflicts (pairs src) (ht_map canon dest)"
proof (induction src arbitrary: dest calls)
  case (Cons s src)
  show ?case
  proof (cases "hs_hash s = 0")
    case True
    then show ?thesis using Cons by simp
  next
    case False
    let ?k = "the (hs_key s)" and ?m = "ht_map canon dest"
    have c: "ht_count dest < 2 ^ 60" using Cons.prems(2) by simp
    obtain d1 rc where d1: "op_htab_set dest ?k (hs_val s) = Some (d1, rc, val_at dest ?k)" "tab d1"
      "ht_map canon d1 = ?m(canon ?k \<mapsto> hs_val s)" "rc = (if ?m (canon ?k) = None then 1 else 0)"
      "int (ht_count d1) = int (ht_count dest) + rc"
      using set [OF Cons.prems(1) c, of ?k "hs_val s"] by blast
    have c1: "ht_count d1 + length src < 2 ^ 60" using d1(4,5) Cons.prems(2) by (simp split: if_splits)
    show ?thesis
    proof (cases "?m (canon ?k) \<noteq> None \<and> conflicts")
      case True
      have "ht_count d1 < 2 ^ 60" using c1 by simp
      then obtain d2 rc2 old where d2: "op_htab_set d1 ?k (val_at dest ?k) = Some (d2, rc2, old)" "tab d2"
        "ht_map canon d2 = (ht_map canon d1)(canon ?k \<mapsto> val_at dest ?k)" "int (ht_count d2) = int (ht_count d1) + rc2"
        "rc2 = (if ht_map canon d1 (canon ?k) = None then 1 else 0)"
        using set [OF d1(2), of ?k "val_at dest ?k"] by blast
      have m: "ht_map canon d2 = ?m"
        using d2(3) d1(3) True by (auto simp: val_at_def)
      have "ht_count d2 + length src < 2 ^ 60" using c1 d2(4,5) d1(3) by simp
      then obtain dest' calls' where
        "merge_loop conflicts src d2 (calls @ [(?k, val_at dest ?k, hs_val s)]) = Some (dest', calls')" "tab dest'"
        "ht_map canon dest' = merged conflicts (pairs src) (ht_map canon d2)"
        using Cons.IH [OF d2(2)] Cons.prems(3) by force
      then show ?thesis using False d1(1,4) d2(1) True m by (simp add: slot_key_def)
    next
      case nc: False
      obtain dest' calls' where "merge_loop conflicts src d1 calls = Some (dest', calls')" "tab dest'"
        "ht_map canon dest' = merged conflicts (pairs src) (ht_map canon d1)"
        using Cons.IH [OF d1(2) c1] Cons.prems(3) by force
      moreover have "\<not> (rc = 0 \<and> conflicts)" using nc d1(4) by auto
      moreover have "(if conflicts \<and> ?m (slot_key canon s) \<noteq> None then ?m
          else ?m(slot_key canon s \<mapsto> hs_val s)) = ht_map canon d1"
        using nc d1(3) by (auto simp: slot_key_def)
      ultimately show ?thesis using False d1(1) by auto
    qed
  qed
qed simp

lemma merge:
  assumes "tab dest" "tab src" "ht_count dest + length (ht_slots src) < 2 ^ 60"
  shows "\<exists>dest' calls. op_htab_merge conflicts dest src = Some (dest', calls) \<and> tab dest' \<and>
    ht_map canon dest' = (if conflicts then ht_map canon src ++ ht_map canon dest else ht_map canon dest ++ ht_map canon src)"
proof -
  note t = tabD [OF assms(2)]
  have "\<forall>s \<in> set (ht_slots src). hs_hash s \<noteq> 0 \<longrightarrow> hs_key s \<noteq> None"
    using t(9) by (simp add: live_def)
  moreover have "distinct (map fst (pairs (ht_slots src)))"
    using t(8) by (simp add: keys_once_distinct comp_def)
  ultimately show ?thesis
    using merge_loop [OF assms(1,3), of conflicts "[]"]
    by (cases conflicts) (auto simp: op_htab_merge_def merged_map_add ht_map_def)
qed

end

section \<open>What the tables of names do\<close>

definition istr_tab :: "(string, 'v) op_htab \<Rightarrow> bool" where
  "istr_tab ht \<longleftrightarrow> tab_ok istr_canon op_htab_hash_istr htab_eq_istr ht"

lemma create_istr: "unat n \<le> 2 ^ 61 \<Longrightarrow> istr_tab (op_htab_create_istr n) \<and> ht_map istr_canon (op_htab_create_istr n) = Map.empty"
  using istr_keys.create [of n] by (simp add: istr_tab_def op_htab_create_istr_def)

text \<open>
  C23: a table keyed by RFC 1459 names is a finite map.  \<open>op_htab_set\<close> always returns, keeps the
  Robin Hood invariant, and maps the name, in every spelling, to the new value and leaves every
  other name alone; the old value and whether it was new are what it reports.
\<close>

theorem op_htab_set_refines:
  assumes "istr_tab ht" "op_htab_size ht < 2 ^ 60"
  shows "\<exists>ht' rc. op_htab_set ht key val = Some (ht', rc, op_htab_get ht key) \<and> istr_tab ht' \<and>
    ht_map istr_canon ht' = (ht_map istr_canon ht)(istr_canon key \<mapsto> val) \<and>
    (rc = 0 \<longleftrightarrow> op_htab_has ht key) \<and>
    (\<forall>k. op_htab_get ht' k = (if htab_eq_istr k key then val else op_htab_get ht k))"
  using istr_keys.set [of ht key val] assms
  by (auto simp: istr_tab_def op_htab_size_def istr_keys.get istr_keys.has istr_keys.val_at_def htab_eq_istr
      split: option.splits)

theorem op_htab_set_refines_witness:
  "\<exists>ht' rc. op_htab_set (op_htab_create_istr 16) ''Bot[1]'' (Some (5 :: nat)) = Some (ht', rc, None) \<and>
     op_htab_get ht' ''bot{1}'' = Some 5 \<and> op_htab_get ht' ''bot'' = None"
proof -
  let ?t = "op_htab_create_istr 16 :: (string, nat) op_htab"
  have t: "istr_tab ?t" "ht_map istr_canon ?t = Map.empty"
    by (rule create_istr [THEN conjunct1] create_istr [THEN conjunct2], simp)+
  then have g: "op_htab_get ?t k = None" for k by (simp add: istr_tab_def istr_keys.get)
  have "op_htab_size ?t < 2 ^ 60" by (simp add: op_htab_size_def op_htab_create_istr_def op_htab_create_def Let_def)
  moreover have "htab_eq_istr ''bot{1}'' ''Bot[1]''" "\<not> htab_eq_istr ''bot'' ''Bot[1]''" by code_simp+
  ultimately show ?thesis
    using op_htab_set_refines [OF t(1), of "''Bot[1]''" "Some 5"] g by metis
qed

text \<open>
  C27: \<open>op_htab_del\<close> always returns, takes exactly the given name out of the table, in whatever
  spelling it was stored, and returns its value; the backward shift loses no other entry.
\<close>

theorem op_htab_del_refines:
  assumes "istr_tab ht"
  shows "\<exists>ht'. op_htab_del ht key = Some (ht', op_htab_get ht key) \<and> istr_tab ht' \<and>
    ht_map istr_canon ht' = (ht_map istr_canon ht)(istr_canon key := None) \<and>
    op_htab_size ht' + (if op_htab_has ht key then 1 else 0) = op_htab_size ht \<and>
    (\<forall>k. op_htab_get ht' k = (if htab_eq_istr k key then None else op_htab_get ht k))"
  using istr_keys.del [of ht key] assms
  by (auto simp: istr_tab_def op_htab_size_def istr_keys.get istr_keys.has istr_keys.val_at_def htab_eq_istr
      split: option.splits)

theorem op_htab_del_refines_witness:
  "\<exists>ht'. op_htab_del (op_htab_create_istr 16 :: (string, nat) op_htab) ''x'' = Some (ht', None) \<and> istr_tab ht'"
proof -
  let ?t = "op_htab_create_istr 16 :: (string, nat) op_htab"
  have t: "istr_tab ?t" "ht_map istr_canon ?t = Map.empty"
    by (rule create_istr [THEN conjunct1] create_istr [THEN conjunct2], simp)+
  then have "op_htab_get ?t ''x'' = None" by (simp add: istr_tab_def istr_keys.get)
  then show ?thesis using op_htab_del_refines [OF t(1), of "''x''"] by auto
qed

text \<open>
  merging two tables: with a conflict callback the destination keeps its values, without one
  the values of the source replace them, although the comment says that then the destination
  silently wins.
\<close>

theorem op_htab_merge_winner:
  assumes "istr_tab dest" "istr_tab src" "op_htab_size dest + op_htab_cap src < 2 ^ 60"
  shows "\<exists>dest' calls. op_htab_merge conflicts dest src = Some (dest', calls) \<and> istr_tab dest' \<and>
    ht_map istr_canon dest' =
      (if conflicts then ht_map istr_canon src ++ ht_map istr_canon dest
       else ht_map istr_canon dest ++ ht_map istr_canon src)"
proof -
  have "op_htab_cap src = length (ht_slots src)"
    using istr_keys.tabD(3,4) [of src] cap_ge [of "length (ht_slots src)"] assms(2)
    by (auto simp: istr_tab_def op_htab_cap_def)
  then show ?thesis
    using istr_keys.merge [of dest src conflicts] assms by (simp add: istr_tab_def op_htab_size_def)
qed

theorem op_htab_merge_winner_witness:
  "\<exists>t' calls. op_htab_merge False (op_htab_create_istr 16) (op_htab_create_istr 16 :: (string, nat) op_htab) = Some (t', calls) \<and>
     ht_map istr_canon t' = Map.empty"
proof -
  let ?t = "op_htab_create_istr 16 :: (string, nat) op_htab"
  have t: "istr_tab ?t" "ht_map istr_canon ?t = Map.empty"
    by (rule create_istr [THEN conjunct1] create_istr [THEN conjunct2], simp)+
  have "op_htab_size ?t + op_htab_cap ?t < 2 ^ 60"
    by (simp add: op_htab_size_def op_htab_cap_def op_htab_create_istr_def op_htab_create_def next_pow2_def Let_def)
  then show ?thesis using op_htab_merge_winner [OF t(1) t(1), of False] t(2) by auto
qed

text \<open>
  two names are one key of a name table exactly when \<open>rfc_casecmp\<close> finds them equal, and then their hashes agree.
\<close>

theorem htab_eq_istr_rfc_casecmp:
  assumes "cstring a" "cstring b"
  shows "(htab_eq_istr a b \<longleftrightarrow> rfc_casecmp a b = 0) \<and> (rfc_casecmp a b = 0 \<longrightarrow> op_htab_hash_istr a = op_htab_hash_istr b)"
proof -
  have "htab_eq_istr a b \<longleftrightarrow> rfc_casecmp a b = 0" using assms by (simp add: htab_eq_istr istr_canon_rfc rfc_casecmp_eq0)
  moreover from this have "rfc_casecmp a b = 0 \<longrightarrow> istr_canon a = istr_canon b" by (simp add: htab_eq_istr)
  ultimately show ?thesis by (simp add: hash_istr_canon)
qed

theorem htab_eq_istr_rfc_casecmp_witness:
  "htab_eq_istr ''nick[]'' ''NICK{}'' \<and> op_htab_hash_istr ''nick[]'' = op_htab_hash_istr ''NICK{}''"
proof -
  have "cstring ''nick[]''" "cstring ''NICK{}''" by (simp_all add: cstring_def)
  moreover have "rfc_casecmp ''nick[]'' ''NICK{}'' = 0" by code_simp
  ultimately show ?thesis using htab_eq_istr_rfc_casecmp [of "''nick[]''" "''NICK{}''"] by blast
qed

section \<open>Iteration\<close>

text \<open>A callback that never stops sees every live slot once, in the order of the array.\<close>

lemma op_htab_foreach_all:
  assumes "\<And>k v u. fst (cb k v u) = False"
  shows "op_htab_foreach ht cb ud =
    foldl (\<lambda>u s. snd (cb (hs_key s) (hs_val s) u)) ud (filter (\<lambda>s. hs_hash s \<noteq> 0) (ht_slots ht))"
proof -
  have "foreach_loop cb T ud = foldl (\<lambda>u s. snd (cb (hs_key s) (hs_val s) u)) ud (filter (\<lambda>s. hs_hash s \<noteq> 0) T)" for T
  proof (induction T arbitrary: ud)
    case (Cons s T)
    then show ?case using assms [of "hs_key s" "hs_val s" ud] by (auto simp: split_beta)
  qed simp
  then show ?thesis by (simp add: op_htab_foreach_def)
qed

end
