(* ===== verification/Base64.thy ===== *)
theory Base64
  imports CStr
begin

text \<open>
  The numbers of the botnet protocol: \<open>int_to_base64\<close> and the base 10 printers of
  \<open>src/src/botmsg.c\<close>, \<open>base64_to_int\<close> of \<open>src/src/botcmd.c\<close>.
\<close>

definition tobase64array :: string where
  "tobase64array = ''ABCDEFGHIJKLMNOPQRSTUVWXYZabcdefghijklmnopqrstuvwxyz0123456789[]''"

definition base64to :: "nat list" where
  "base64to =
    [
     0, 0, 0, 0, 0, 0, 0, 0, 0, 0, 0, 0, 0, 0, 0, 0, 0, 0, 0, 0, 0, 0, 0, 0, 0, 0, 0, 0, 0, 0, 0, 0,
     0, 0, 0, 0, 0, 0, 0, 0, 0, 0, 0, 0, 0, 0, 0, 0, 52, 53, 54, 55, 56, 57, 58, 59, 60, 61, 0, 0, 0, 0, 0, 0,
     0, 0, 1, 2, 3, 4, 5, 6, 7, 8, 9, 10, 11, 12, 13, 14, 15, 16, 17, 18, 19, 20, 21, 22, 23, 24, 25, 62, 0, 63, 0, 0,
     0, 26, 27, 28, 29, 30, 31, 32, 33, 34, 35, 36, 37, 38, 39, 40, 41, 42, 43, 44, 45, 46, 47, 48, 49, 50, 51, 0, 0, 0, 0, 0,
     0, 0, 0, 0, 0, 0, 0, 0, 0, 0, 0, 0, 0, 0, 0, 0, 0, 0, 0, 0, 0, 0, 0, 0, 0, 0, 0, 0, 0, 0, 0, 0,
     0, 0, 0, 0, 0, 0, 0, 0, 0, 0, 0, 0, 0, 0, 0, 0, 0, 0, 0, 0, 0, 0, 0, 0, 0, 0, 0, 0, 0, 0, 0, 0,
     0, 0, 0, 0, 0, 0, 0, 0, 0, 0, 0, 0, 0, 0, 0, 0, 0, 0, 0, 0, 0, 0, 0, 0, 0, 0, 0, 0, 0, 0, 0, 0,
     0, 0, 0, 0, 0, 0, 0, 0, 0, 0, 0, 0, 0, 0, 0, 0, 0, 0, 0, 0, 0, 0, 0, 0, 0, 0, 0, 0, 0, 0, 0, 0]"

text \<open>The loop that fills \<open>buf_base64\<close> from its end; \<open>acc\<close> is what has been written.\<close>

function base64_digits :: "32 word \<Rightarrow> string \<Rightarrow> string" where
  "base64_digits val acc =
     (if val = 0 then acc
      else base64_digits (drop_bit 6 val) (tobase64array ! unat (val AND 0x3F) # acc))"
  by auto
termination
proof (relation "measure (\<lambda>(v, _). unat v)")
  fix v :: "32 word" and acc :: string
  assume "v \<noteq> 0"
  then have "0 < unat v" by (simp add: unat_gt_0)
  moreover have "unat (drop_bit 6 v) = unat v div 64"
    unfolding unat_drop_bit_eq by (simp add: drop_bit_eq_div)
  ultimately show "((drop_bit 6 v, tobase64array ! unat (v AND 0x3F) # acc), v, acc) \<in> measure (\<lambda>(v, _). unat v)"
    by simp
qed simp

declare base64_digits.simps [simp del]

definition int_to_base64 :: "32 word \<Rightarrow> string" where
  "int_to_base64 val = (if val = 0 then ''A'' else base64_digits val [])"

definition INT_MAX :: int where "INT_MAX = 2147483647"

fun base64_to_int_loop :: "int \<Rightarrow> string \<Rightarrow> int" where
  "base64_to_int_loop i [] = i"
| "base64_to_int_loop i (c # buf) =
     (let j = int (base64to ! uc c) in
      if INT_MAX div 64 - j < i then - 1 else base64_to_int_loop (i * 64 + j) buf)"

definition base64_to_int :: "string \<Rightarrow> int" where
  "base64_to_int buf = base64_to_int_loop 0 buf"

function base10_digits :: "nat \<Rightarrow> string \<Rightarrow> string" where
  "base10_digits val acc = (if val = 0 then acc else base10_digits (val div 10) (char_of (48 + val mod 10) # acc))"
  by auto
termination by (relation "measure fst") auto

declare base10_digits.simps [simp del]

text \<open>
  \<open>int_to_base10\<close>; \<open>None\<close> on the least 32-bit number, whose negation overflows.
\<close>

definition int_to_base10 :: "int \<Rightarrow> string option" where
  "int_to_base10 val =
     (if val = 0 then Some ''0''
      else if val = - (INT_MAX + 1) then None
      else if val < 0 then Some (CHR ''-'' # base10_digits (nat (- val)) [])
      else Some (base10_digits (nat val) []))"

definition unsigned_int_to_base10 :: "32 word \<Rightarrow> string" where
  "unsigned_int_to_base10 val = (if val = 0 then ''0'' else base10_digits (unat val) [])"

section \<open>Reading back\<close>

lemma base64to_tobase64: "map (\<lambda>c. base64to ! uc c) tobase64array = [0..<64]"
  unfolding tobase64array_def base64to_def by (simp add: upt_rec)

lemma base64to_digit: "k < 64 \<Longrightarrow> base64to ! uc (tobase64array ! k) = k"
proof -
  assume k: "k < 64"
  have "length tobase64array = 64" by (simp add: tobase64array_def)
  then have "base64to ! uc (tobase64array ! k) = map (\<lambda>c. base64to ! uc c) tobase64array ! k" using k by (simp only: nth_map)
  also have "\<dots> = k" unfolding base64to_tobase64 using k by simp
  finally show ?thesis .
qed

lemma base64_to_int_loop_digit:
  "k < 64 \<Longrightarrow> base64_to_int_loop i ((tobase64array ! k) # s) =
     (if INT_MAX div 64 - int k < i then - 1 else base64_to_int_loop (i * 64 + int k) s)"
  by (simp add: base64to_digit)

lemma base64_digits_loop:
  "base64_digits v acc = base64_digits v [] @ acc \<and>
   (\<forall>s. base64_to_int_loop 0 (base64_digits v [] @ s) =
     (if unat v div 64 + unat v mod 64 \<le> 33554431 then base64_to_int_loop (int (unat v)) s else - 1))"
proof (induction "unat v" arbitrary: v acc rule: less_induct)
  case less
  show ?case
  proof (cases "v = 0")
    case True
    then show ?thesis by (simp add: base64_digits.simps)
  next
    case False
    let ?w = "drop_bit 6 v" and ?k = "unat (v AND 0x3F)"
    have w: "unat ?w = unat v div 64"
      unfolding unat_drop_bit_eq by (simp add: drop_bit_eq_div)
    have k: "?k = unat v mod 64"
    proof -
      have "v AND 0x3F = take_bit 6 v" by (simp add: take_bit_eq_mask mask_eq_exp_minus_1)
      then show ?thesis by (simp only: unsigned_take_bit_eq) (simp add: take_bit_eq_mod)
    qed
    have v: "unat v < 4294967296" using unsigned_less [of v, where 'a = nat] by simp
    have less: "unat ?w < unat v" using False w by (simp add: unat_gt_0)
    note ih = less.hyps [OF less]
    have d: "base64_digits v a = base64_digits ?w [] @ tobase64array ! ?k # a" for a
      using False ih by (subst base64_digits.simps) metis
    have "base64_to_int_loop 0 (base64_digits v [] @ s) =
        (if unat v div 64 + unat v mod 64 \<le> 33554431 then base64_to_int_loop (int (unat v)) s else - 1)" for s
    proof -
      have w2: "unat ?w div 64 + unat ?w mod 64 \<le> 33554431" unfolding w using v by linarith
      have e: "int (unat v div 64) * 64 + int (unat v mod 64) = int (unat v)"
        by (metis div_mult_mod_eq of_nat_add of_nat_mult of_nat_numeral)
      have c: "(INT_MAX div 64 - int (unat v mod 64) < int (unat v div 64)) =
          (\<not> unat v div 64 + unat v mod 64 \<le> 33554431)"
      proof -
        have "(33554431 - int b < int a) = (\<not> a + b \<le> 33554431)" for a b :: nat by linarith
        moreover have "INT_MAX div 64 = 33554431" by (simp add: INT_MAX_def)
        ultimately show ?thesis by (simp only:)
      qed
      have "base64_to_int_loop 0 (base64_digits v [] @ s) =
          base64_to_int_loop (int (unat ?w)) (tobase64array ! ?k # s)"
        unfolding d using spec [OF conjunct2 [OF ih], of "tobase64array ! ?k # s"] w2
        by (simp only: append_assoc append_Cons append_Nil if_True)
      also have "\<dots> = (if INT_MAX div 64 - int ?k < int (unat ?w) then - 1
          else base64_to_int_loop (int (unat ?w) * 64 + int ?k) s)"
        by (rule base64_to_int_loop_digit) (simp add: k)
      also have "\<dots> = (if unat v div 64 + unat v mod 64 \<le> 33554431 then base64_to_int_loop (int (unat v)) s else - 1)"
        unfolding w k e c by (cases "unat v div 64 + unat v mod 64 \<le> 33554431") (simp_all only: if_True if_False not_True_eq_False not_False_eq_True)
      finally show ?thesis .
    qed
    then show ?thesis using d by simp
  qed
qed

text \<open>
  C32: a number of the botnet protocol reads back as itself, except that \<open>base64_to_int\<close> refuses, as
  an overflow, numbers that do fit into an \<open>int\<close>: those whose last digit and the rest add up to
  more than 33554431, among them the greatest one.
\<close>

theorem base64_roundtrip:
  "base64_to_int (int_to_base64 v) =
     (if unat v div 64 + unat v mod 64 \<le> 33554431 then int (unat v) else - 1)"
proof (cases "v = 0")
  case True
  have "base64to ! uc (CHR ''A'') = 0" by (simp add: base64to_def)
  then show ?thesis using True by (simp add: int_to_base64_def base64_to_int_def INT_MAX_def)
next
  case False
  have "base64_to_int_loop 0 (base64_digits v [] @ []) =
      (if unat v div 64 + unat v mod 64 \<le> 33554431 then base64_to_int_loop (int (unat v)) [] else - 1)"
    using base64_digits_loop [of v "[]"] by blast
  then show ?thesis using False
    unfolding int_to_base64_def base64_to_int_def append_Nil2 base64_to_int_loop.simps(1) by (simp only: if_False)
qed

lemma base10_digits_dec: "0 < n \<Longrightarrow> base10_digits n acc = dec n @ acc"
proof (induction n arbitrary: acc rule: less_induct)
  case (less n)
  show ?case
  proof (cases "n < 10")
    case True
    then show ?thesis using less.prems
      by (subst base10_digits.simps) (simp add: base10_digits.simps dec.simps digit_char_def)
  next
    case False
    then have "base10_digits (n div 10) a = dec (n div 10) @ a" for a using less.IH [of "n div 10"] by simp
    then show ?thesis using False less.prems
      by (subst base10_digits.simps) (simp add: digit_char_def dec.simps [of n])
  qed
qed

lemma dec_0: "dec 0 = ''0''"
proof -
  have "digit_char 0 = CHR ''0''" by (simp add: uc_eq_iff)
  then show ?thesis by (simp add: dec.simps [of 0])
qed

lemma int_to_base10_dec:
  "- INT_MAX \<le> v \<Longrightarrow> int_to_base10 v = Some (dec_int v)"
  by (auto simp: int_to_base10_def dec_int_def base10_digits_dec dec_0)

end
