(* ===== verification/Botnet.thy ===== *)
theory Botnet
  imports HtabMap StrUtil Base64 "HOL-Library.Monad_Syntax"
begin

text \<open>
  The list of linked bots and the party line of \<open>src/src/botnet.c\<close>, with the handlers of
  \<open>src/src/botcmd.c\<close> and \<open>src/src/dcc.c\<close> that link and unlink bots.  \<open>tandbot\<close> is the C list, each
  node with its address; \<open>bot_table\<close> maps names to addresses.  \<open>None\<close> stands for a read through a
  null or dangling pointer, or for a run that does not return.  The Tcl binds, the log and the
  messages to other bots are left out.
\<close>

section \<open>Linked bots\<close>

abbreviation HANDLEN :: nat where "HANDLEN \<equiv> 32"

datatype uplink = Nobody | Me | Up nat

record tand_t =
  t_bot :: string
  t_via :: "nat option"
  t_uplink :: uplink
  t_ver :: int
  t_share :: char
  t_ssl :: int

record party_t =
  p_nick :: string
  p_bot :: string
  p_sock :: int
  p_chan :: int
  p_from :: string
  p_flag :: char
  p_status :: uchar
  p_timer :: int
  p_away :: "string option"

record botnet =
  tandbot :: "(nat \<times> tand_t) list"
  bot_table :: "(string, nat) op_htab"
  tands :: int
  party :: "party_t list"
  party_size :: nat
  botnetnick :: string

definition init_bots :: "botnet \<Rightarrow> botnet" where
  "init_bots st = st\<lparr>tandbot := [], bot_table := op_htab_create_istr 32\<rparr>"

abbreviation tand_at :: "botnet \<Rightarrow> nat \<Rightarrow> tand_t option" where
  "tand_at st \<equiv> map_of (tandbot st)"

definition findbot :: "botnet \<Rightarrow> string \<Rightarrow> nat option" where
  "findbot st who = op_htab_get (bot_table st) who"

text \<open>\<open>addbot\<close>, the new node being allocated at \<open>p\<close>.\<close>

definition addbot ::
  "nat \<Rightarrow> string \<Rightarrow> string \<Rightarrow> string \<Rightarrow> char \<Rightarrow> int \<Rightarrow> int \<Rightarrow> botnet \<Rightarrow> botnet option" where
  "addbot p who from_bot hop flag vernum ssl st =
     (let name = op_strlcpy [] who (HANDLEN + 1) in
      do {
        (tab, rc, old) \<leftarrow> op_htab_set (bot_table st) name (Some p);
        let st = st\<lparr>bot_table := tab\<rparr>;
        let up = (if op_strcasecmp hop (botnetnick st) = 0 then Me
                  else case findbot st hop of None \<Rightarrow> Nobody | Some b \<Rightarrow> Up b);
        let t = \<lparr>t_bot = name, t_via = findbot st from_bot, t_uplink = up, t_ver = vernum,
                 t_share = flag, t_ssl = ssl\<rparr>;
        Some (st\<lparr>tandbot := tandbot st @ [(p, t)], tands := tands st + 1\<rparr>)
      })"

definition updatebot :: "string \<Rightarrow> char \<Rightarrow> int \<Rightarrow> botnet \<Rightarrow> botnet" where
  "updatebot who share vernum st =
     (case findbot st who of
        None \<Rightarrow> st
      | Some p \<Rightarrow>
          st\<lparr>tandbot := map (\<lambda>(a, t). (a, if a = p
            then t\<lparr>t_share := if share \<noteq> NUL then share else t_share t,
                   t_ver := if vernum \<noteq> 0 then vernum else t_ver t\<rparr>
            else t)) (tandbot st)\<rparr>)"

definition set_botnetnick :: "string \<Rightarrow> botnet \<Rightarrow> botnet" where
  "set_botnetnick newnick st = st\<lparr>botnetnick := op_strlcpy (botnetnick st) newnick (HANDLEN + 1)\<rparr>"

text \<open>The first node with the name, and the list without it.\<close>

fun unlink_first :: "string \<Rightarrow> (nat \<times> tand_t) list \<Rightarrow> (tand_t \<times> (nat \<times> tand_t) list) option" where
  "unlink_first who [] = None"
| "unlink_first who ((a, t) # l) =
     (if op_strcasecmp (t_bot t) who = 0 then Some (t, l)
      else map_option (\<lambda>(t', l'). (t', (a, t) # l')) (unlink_first who l))"

definition rembot :: "string \<Rightarrow> botnet \<Rightarrow> botnet option" where
  "rembot who st =
     (case unlink_first who (tandbot st) of
        None \<Rightarrow> Some st
      | Some (t, l) \<Rightarrow> do {
          (tab, v) \<leftarrow> op_htab_del (bot_table st) (t_bot t);
          Some (st\<lparr>tandbot := l, bot_table := tab, tands := tands st - 1\<rparr>)
        })"

definition in_chain :: "botnet \<Rightarrow> string \<Rightarrow> bool" where
  "in_chain st who \<longleftrightarrow> findbot st who \<noteq> None \<or> op_strcasecmp who (botnetnick st) = 0"

section \<open>The party line\<close>

definition party_is :: "string \<Rightarrow> int \<Rightarrow> party_t \<Rightarrow> bool" where
  "party_is b sock p \<longleftrightarrow> op_strcasecmp (p_bot p) b = 0 \<and> p_sock p = sock"

fun find_idx :: "('a \<Rightarrow> bool) \<Rightarrow> 'a list \<Rightarrow> nat option" where
  "find_idx P [] = None"
| "find_idx P (x # xs) = (if P x then Some 0 else map_option Suc (find_idx P xs))"

definition partysock :: "botnet \<Rightarrow> string \<Rightarrow> string \<Rightarrow> int" where
  "partysock st b nick =
     (case find_idx (\<lambda>p. op_strcasecmp (p_bot p) b = 0 \<and> op_strcasecmp (p_nick p) nick = 0) (party st) of
        Some i \<Rightarrow> p_sock (party st ! i)
      | None \<Rightarrow> 0)"

text \<open>\<open>addparty\<close>: the value returned, \<open>*idx\<close> and the new state at the time \<open>now\<close>.\<close>

definition addparty ::
  "int \<Rightarrow> string \<Rightarrow> string \<Rightarrow> int \<Rightarrow> char \<Rightarrow> int \<Rightarrow> string \<Rightarrow> botnet \<Rightarrow> int \<times> nat \<times> botnet" where
  "addparty now b nick ch flag sock from_host st =
     (let flag' = (if flag = CHR '' '' then CHR ''-'' else flag) in
      case find_idx (party_is b sock) (party st) of
        Some i \<Rightarrow>
          let p = (party st ! i)\<lparr>p_chan := ch, p_timer := now\<rparr>;
              p = (if from_host \<noteq> [] then p\<lparr>p_flag := flag', p_from := from_host\<rparr> else p)
          in (p_chan (party st ! i), i, st\<lparr>party := (party st)[i := p]\<rparr>)
      | None \<Rightarrow>
          let psize = (if party_size st = 0 then 1
                      else if length (party st) = party_size st then 2 * party_size st else party_size st);
              p = \<lparr>p_nick = op_strlcpy [] nick (HANDLEN + 1), p_bot = op_strlcpy [] b (HANDLEN + 1),
                   p_sock = sock, p_chan = ch,
                   p_from = (if from_host \<noteq> [] then from_host else ''(unknown)''),
                   p_flag = (if from_host \<noteq> [] then flag' else CHR '' ''),
                   p_status = 0, p_timer = now, p_away = None\<rparr>
          in (- 1, length (party st), st\<lparr>party := party st @ [p], party_size := psize\<rparr>))"

definition change_party :: "(party_t \<Rightarrow> bool) \<Rightarrow> (party_t \<Rightarrow> party_t) \<Rightarrow> botnet \<Rightarrow> botnet" where
  "change_party P f st = st\<lparr>party := map (\<lambda>p. if P p then f p else p) (party st)\<rparr>"

definition partystat :: "string \<Rightarrow> int \<Rightarrow> 32 word \<Rightarrow> 32 word \<Rightarrow> botnet \<Rightarrow> botnet" where
  "partystat b sock add rem =
     change_party (party_is b sock) (\<lambda>p. p\<lparr>p_status := and (or (p_status p) (ucast add)) (ucast (not rem))\<rparr>)"

definition partysetidle :: "int \<Rightarrow> string \<Rightarrow> int \<Rightarrow> int \<Rightarrow> botnet \<Rightarrow> botnet" where
  "partysetidle now b sock secs = change_party (party_is b sock) (\<lambda>p. p\<lparr>p_timer := now - secs\<rparr>)"

definition getparty :: "botnet \<Rightarrow> string \<Rightarrow> int \<Rightarrow> int" where
  "getparty st b sock = (case find_idx (party_is b sock) (party st) of Some i \<Rightarrow> int i | None \<Rightarrow> - 1)"

definition partyidle :: "int \<Rightarrow> string \<Rightarrow> string \<Rightarrow> botnet \<Rightarrow> bool \<times> botnet" where
  "partyidle now b nick st =
     (let P = (\<lambda>p. op_strcasecmp (p_bot p) b = 0 \<and> op_strcasecmp (p_nick p) nick = 0)
      in (list_ex P (party st), change_party P (\<lambda>p. p\<lparr>p_timer := now\<rparr>) st))"

text \<open>\<open>partynick\<close>: the index, the old nick it stores in the buffer of the new one, and the state.\<close>

definition partynick :: "string \<Rightarrow> int \<Rightarrow> string \<Rightarrow> botnet \<Rightarrow> int \<times> string \<times> botnet" where
  "partynick b sock nick st =
     (case find_idx (party_is b sock) (party st) of
        None \<Rightarrow> (- 1, nick, st)
      | Some i \<Rightarrow>
          let old = op_strlcpy [] (p_nick (party st ! i)) (HANDLEN + 1);
              new = op_strlcpy (p_nick (party st ! i)) nick (HANDLEN + 1)
          in (int i, op_strlcpy nick old (HANDLEN + 1),
              st\<lparr>party := (party st)[i := (party st ! i)\<lparr>p_nick := new\<rparr>]\<rparr>))"

definition partyaway :: "string \<Rightarrow> int \<Rightarrow> string \<Rightarrow> botnet \<Rightarrow> botnet" where
  "partyaway b sock msg =
     change_party (party_is b sock) (\<lambda>p. p\<lparr>p_away := if msg \<noteq> [] then Some msg else None\<rparr>)"

text \<open>
  \<open>remparty\<close> fills the place of a removed entry with the last one and goes on behind it.
\<close>

function remparty_loop :: "string \<Rightarrow> int \<Rightarrow> nat \<Rightarrow> party_t list \<Rightarrow> party_t list" where
  "remparty_loop b sock i ps =
     (if i < length ps then
        if party_is b sock (ps ! i) then remparty_loop b sock (i + 1) (butlast (ps[i := last ps]))
        else remparty_loop b sock (i + 1) ps
      else ps)"
  by auto
termination by (relation "measure (\<lambda>(b, sock, i, ps). length ps - i)") auto

declare remparty_loop.simps [simp del]

definition remparty :: "string \<Rightarrow> int \<Rightarrow> botnet \<Rightarrow> botnet" where
  "remparty b sock st = st\<lparr>party := remparty_loop b sock 0 (party st)\<rparr>"

lemma remparty_loop_length: "length (remparty_loop b sock i ps) \<le> length ps"
proof (induction b sock i ps rule: remparty_loop.induct)
  case (1 b sock i ps)
  then show ?case by (subst remparty_loop.simps) auto
qed

lemma remparty_loop_shrinks:
  "i \<le> j \<Longrightarrow> j < length ps \<Longrightarrow> party_is b sock (ps ! j) \<Longrightarrow> length (remparty_loop b sock i ps) < length ps"
proof (induction b sock i ps rule: remparty_loop.induct)
  case (1 b sock i ps)
  show ?case
  proof (cases "party_is b sock (ps ! i)")
    case True
    then have "remparty_loop b sock i ps = remparty_loop b sock (i + 1) (butlast (ps[i := last ps]))"
      using "1.prems" by (subst remparty_loop.simps) simp
    moreover have "length (remparty_loop b sock (i + 1) (butlast (ps[i := last ps]))) \<le> length ps - 1"
      using remparty_loop_length [of b sock "i + 1" "butlast (ps[i := last ps])"] by simp
    ultimately show ?thesis using "1.prems"(1,2) by auto
  next
    case False
    then have "i + 1 \<le> j" using "1.prems" by (cases "i = j") auto
    moreover have "remparty_loop b sock i ps = remparty_loop b sock (i + 1) ps"
      using False "1.prems" by (subst remparty_loop.simps) simp
    ultimately show ?thesis using "1.IH"(2) False "1.prems" by simp
  qed
qed

text \<open>\<open>rempartybot\<close> starts again at the same index after every removal.\<close>

function rempartybot_loop :: "string \<Rightarrow> nat \<Rightarrow> party_t list \<Rightarrow> party_t list" where
  "rempartybot_loop b i ps =
     (if i < length ps then
        if op_strcasecmp (p_bot (ps ! i)) b = 0
        then rempartybot_loop b i (remparty_loop b (p_sock (ps ! i)) 0 ps)
        else rempartybot_loop b (i + 1) ps
      else ps)"
  by auto
termination
proof (relation "measure (\<lambda>(b, i, ps). length ps - i)")
  fix b :: string and i :: nat and ps :: "party_t list"
  assume a: "i < length ps" "op_strcasecmp (p_bot (ps ! i)) b = 0"
  then have "length (remparty_loop b (p_sock (ps ! i)) 0 ps) < length ps"
    by (intro remparty_loop_shrinks [of 0 i]) (simp_all add: party_is_def)
  then show "((b, i, remparty_loop b (p_sock (ps ! i)) 0 ps), b, i, ps) \<in> measure (\<lambda>(b, i, ps). length ps - i)"
    using a by auto
qed auto

declare rempartybot_loop.simps [simp del]

definition rempartybot :: "string \<Rightarrow> botnet \<Rightarrow> botnet" where
  "rempartybot b st = st\<lparr>party := rempartybot_loop b 0 (party st)\<rparr>"

section \<open>Subtrees\<close>

text \<open>\<open>bot->next\<close>; the outer \<open>None\<close> when the node is not in the list any more.\<close>

fun next_node :: "nat \<Rightarrow> (nat \<times> tand_t) list \<Rightarrow> nat option option" where
  "next_node a [] = None"
| "next_node a ((b, t) # l) = (if b = a then Some (map_option fst (case l of [] \<Rightarrow> None | x # _ \<Rightarrow> Some x)) else next_node a l)"

definition list_head :: "(nat \<times> tand_t) list \<Rightarrow> nat option" where
  "list_head l = (case l of [] \<Rightarrow> None | (a, _) # _ \<Rightarrow> Some a)"

text \<open>The loop of \<open>unvia\<close> from the node \<open>cur\<close> on; a recursive call starts at the head of the list.\<close>

partial_function (option) unvia_loop :: "nat \<Rightarrow> nat option \<Rightarrow> botnet \<Rightarrow> botnet option" where
  "unvia_loop who cur st =
     (case cur of
        None \<Rightarrow> Some st
      | Some b \<Rightarrow> do {
          t \<leftarrow> tand_at st b;
          if t_uplink t = Up who then do {
            let st = rempartybot (t_bot t) st;
            st \<leftarrow> unvia_loop b (list_head (tandbot st)) st;
            hop \<leftarrow> next_node b (tandbot st);
            t \<leftarrow> tand_at st b;
            st \<leftarrow> rembot (t_bot t) st;
            unvia_loop who hop st
          } else do {
            hop \<leftarrow> next_node b (tandbot st);
            unvia_loop who hop st
          }
        })"

definition unvia :: "nat option \<Rightarrow> botnet \<Rightarrow> botnet option" where
  "unvia who st =
     (case who of
        None \<Rightarrow> Some st
      | Some w \<Rightarrow> do {
          t \<leftarrow> tand_at st w;
          let st = rempartybot (t_bot t) st;
          unvia_loop w (list_head (tandbot st)) st
        })"

text \<open>The loops of \<open>bots_in_subtree\<close> and \<open>users_in_subtree\<close> over what is left of the list.\<close>

partial_function (option) bots_loop :: "(nat \<times> tand_t) list \<Rightarrow> nat \<Rightarrow> (nat \<times> tand_t) list \<Rightarrow> nat option" where
  "bots_loop tb who l =
     (case l of
        [] \<Rightarrow> Some 0
      | (b, t) # l' \<Rightarrow>
          if t_bot t \<noteq> [] \<and> t_uplink t = Up who then do {
            n \<leftarrow> bots_loop tb b tb;
            m \<leftarrow> bots_loop tb who l';
            Some (1 + n + m)
          } else bots_loop tb who l')"

definition bots_in_subtree :: "nat option \<Rightarrow> botnet \<Rightarrow> nat option" where
  "bots_in_subtree w st =
     (case w of None \<Rightarrow> Some 0 | Some who \<Rightarrow> map_option (\<lambda>n. 1 + n) (bots_loop (tandbot st) who (tandbot st)))"

definition users_on :: "botnet \<Rightarrow> string \<Rightarrow> nat" where
  "users_on st b = length (filter (\<lambda>p. op_strcasecmp (p_bot p) b = 0) (party st))"

partial_function (option) users_loop :: "botnet \<Rightarrow> nat \<Rightarrow> (nat \<times> tand_t) list \<Rightarrow> nat option" where
  "users_loop st who l =
     (case l of
        [] \<Rightarrow> Some 0
      | (b, t) # l' \<Rightarrow>
          if t_bot t \<noteq> [] \<and> t_uplink t = Up who then do {
            n \<leftarrow> users_loop st b (tandbot st);
            m \<leftarrow> users_loop st who l';
            Some (users_on st (t_bot t) + n + m)
          } else users_loop st who l')"

definition users_in_subtree :: "nat option \<Rightarrow> botnet \<Rightarrow> nat option" where
  "users_in_subtree w st =
     (case w of
        None \<Rightarrow> Some 0
      | Some who \<Rightarrow> do {
          t \<leftarrow> tand_at st who;
          n \<leftarrow> users_loop st who (tandbot st);
          Some (users_on st (t_bot t) + n)
        })"

declare unvia_loop.simps [code] bots_loop.simps [code] users_loop.simps [code]

section \<open>Links\<close>

datatype dcc_type = DCC_BOT | DCC_BOT_NEW | DCC_FORK_BOT | DCC_LOST | DCC_other

text \<open>A connection: \<open>d_leaf\<close> is the \<open>BOT_LEAF\<close> flag of its user, \<open>d_share\<close> the bit \<open>STAT_SHARE\<close> of its status.\<close>

record dcc_t =
  d_nick :: string
  d_type :: dcc_type
  d_leaf :: bool
  d_ssl :: int
  d_share :: bool

fun nextbot_loop :: "string \<Rightarrow> int \<Rightarrow> dcc_t list \<Rightarrow> int" where
  "nextbot_loop name j [] = - 1"
| "nextbot_loop name j (d # ds) =
     (if op_strcasecmp name (d_nick d) = 0 \<and> d_type d = DCC_BOT then j else nextbot_loop name (j + 1) ds)"

definition nextbot :: "dcc_t list \<Rightarrow> botnet \<Rightarrow> string \<Rightarrow> int option" where
  "nextbot dcc st who =
     (case findbot st who of
        None \<Rightarrow> Some (- 1)
      | Some b \<Rightarrow> do {
          t \<leftarrow> tand_at st b;
          case t_via t of
            None \<Rightarrow> Some (- 1)
          | Some v \<Rightarrow>
              if dcc = [] then Some (- 1)
              else do { vt \<leftarrow> tand_at st v; Some (nextbot_loop (t_bot vt) 0 dcc) }
        })"

definition lastbot :: "botnet \<Rightarrow> string \<Rightarrow> string option" where
  "lastbot st who =
     (case findbot st who of
        None \<Rightarrow> Some ''*''
      | Some b \<Rightarrow> do {
          t \<leftarrow> tand_at st b;
          case t_uplink t of
            Nobody \<Rightarrow> None
          | Me \<Rightarrow> Some (botnetnick st)
          | Up u \<Rightarrow> map_option t_bot (tand_at st u)
        })"

text \<open>\<open>lostdcc\<close> with \<open>free_dcc_bot_\<close>, the \<open>kill\<close> function of the bot connections.\<close>

definition free_dcc_bot :: "dcc_t \<Rightarrow> botnet \<Rightarrow> botnet option" where
  "free_dcc_bot d st =
     (if d_type d = DCC_BOT
      then do { st \<leftarrow> unvia (findbot st (d_nick d)) st; rembot (d_nick d) st }
      else Some st)"

definition lostdcc :: "nat \<Rightarrow> dcc_t list \<Rightarrow> botnet \<Rightarrow> (dcc_t list \<times> botnet) option" where
  "lostdcc n dcc st =
     (if length dcc \<le> n then Some (dcc, st)
      else do {
        st \<leftarrow> free_dcc_bot (dcc ! n) st;
        Some (dcc[n := \<lparr>d_nick = [], d_type = DCC_LOST, d_leaf = False, d_ssl = 0, d_share = False\<rparr>], st)
      })"

lemma lostdcc_length: "lostdcc n dcc st = Some (dcc', st') \<Longrightarrow> length dcc' = length dcc"
  by (auto simp: lostdcc_def bind_eq_Some_conv split: if_splits)

datatype nlink_result = Invalid | Loop | Bogus | Leaf | Linked

text \<open>A byte \<open>bot_nlinked\<close> refuses in a name, where \<open>char\<close> is signed.\<close>

definition bogus_byte :: "char \<Rightarrow> bool" where
  "bogus_byte c \<longleftrightarrow> uc c < 32 \<or> 128 \<le> uc c \<or> uc c = 127"

definition bogus_name :: "string \<Rightarrow> bool" where
  "bogus_name name \<longleftrightarrow> list_ex bogus_byte name \<or> HANDLEN < length name"

definition bot_nlinked ::
  "nat \<Rightarrow> nat \<Rightarrow> string \<Rightarrow> dcc_t list \<Rightarrow> botnet \<Rightarrow> (nlink_result \<times> dcc_t list \<times> botnet) option" where
  "bot_nlinked p idx par dcc st =
     (let (newbot, par) = newsplit par;
          (hop, par) = newsplit par;
          r = (if hop = [] then Invalid
               else if in_chain st newbot \<or> op_strcasecmp newbot (botnetnick st) = 0 then Loop
               else Linked)
      in do {
        r \<leftarrow> (if r = Linked
              then map_option (\<lambda>j. if bogus_name newbot \<or> j \<noteq> int idx then Bogus else Linked) (nextbot dcc st hop)
              else Some r);
        let r = (if d_leaf (dcc ! idx) then Leaf else r);
        if r \<noteq> Linked
        then map_option (Pair r) (lostdcc idx dcc st)
        else do {
          let x = (if par \<noteq> [] then hd par else CHR ''-'');
          let i = base64_to_int (tl par);
          let x = (if x = CHR ''!'' then CHR ''-'' else x);
          st \<leftarrow> addbot p newbot (d_nick (dcc ! idx)) hop x i (d_ssl (dcc ! idx)) st;
          Some (Linked, dcc, st)
        }
      })"

definition bot_unlinked :: "nat \<Rightarrow> string \<Rightarrow> dcc_t list \<Rightarrow> botnet \<Rightarrow> botnet option" where
  "bot_unlinked idx par dcc st =
     (let (name, par) = newsplit par in
      do {
        i \<leftarrow> nextbot dcc st name;
        if 0 \<le> i \<and> i \<noteq> int idx then Some st
        else if 0 \<le> i then do {
          _ \<leftarrow> (if par \<noteq> [] then lastbot st name else Some []);
          st \<leftarrow> unvia (findbot st name) st;
          rembot name st
        } else Some st
      })"

definition bot_update :: "string \<Rightarrow> botnet \<Rightarrow> botnet" where
  "bot_update par st =
     (let (name, par) = newsplit par;
          x = c0 par;
          vnum = base64_to_int (tl par)
      in if in_chain st name then updatebot name x vnum st else st)"

text \<open>
  \<open>bot_thisbot\<close>: a peer that names itself differently is dropped; otherwise its spelling of the name
  is taken over.
\<close>

definition bot_thisbot :: "nat \<Rightarrow> string \<Rightarrow> dcc_t list \<Rightarrow> botnet \<Rightarrow> (dcc_t list \<times> botnet) option" where
  "bot_thisbot idx par dcc st =
     (if op_strcasecmp par (d_nick (dcc ! idx)) \<noteq> 0
      then do { st \<leftarrow> unvia (findbot st (d_nick (dcc ! idx))) st; lostdcc idx dcc st }
      else Some (dcc[idx := (dcc ! idx)\<lparr>d_nick := op_strlcpy (d_nick (dcc ! idx)) par (HANDLEN + 1)\<rparr>], st))"

text \<open>\<open>bot_version\<close>: the end of a handshake, where \<open>l\<close> is the handle length and \<open>numver\<close> the version the peer sent.\<close>

definition bot_version ::
  "nat \<Rightarrow> nat \<Rightarrow> int \<Rightarrow> int \<Rightarrow> dcc_t list \<Rightarrow> botnet \<Rightarrow> (dcc_t list \<times> botnet) option" where
  "bot_version p idx numver l dcc st =
     (if in_chain st (d_nick (dcc ! idx)) \<or> l \<noteq> int HANDLEN then lostdcc idx dcc st
      else do {
        let d = (dcc ! idx)\<lparr>d_type := DCC_BOT\<rparr>;
        st \<leftarrow> addbot p (d_nick d) (d_nick d) (botnetnick st) (CHR ''-'') numver (d_ssl d) st;
        Some (dcc[idx := d], st)
      })"

text \<open>\<open>botunlink\<close> from the connection \<open>i\<close> on; \<open>share_unlinks\<close> is the setting of that name.\<close>

function botunlink_loop ::
  "bool \<Rightarrow> int \<Rightarrow> string \<Rightarrow> nat \<Rightarrow> dcc_t list \<Rightarrow> botnet \<Rightarrow> (int option \<times> dcc_t list \<times> botnet) option" where
  "botunlink_loop share_unlinks idx nick i dcc st =
     (if i < length dcc then
        let d = dcc ! i; all_bots = (c0 nick = CHR ''*'') in
        if (all_bots \<or> op_strcasecmp (d_nick d) nick = 0) \<and> (d_type d = DCC_FORK_BOT \<or> d_type d = DCC_BOT_NEW \<or> d_type d = DCC_BOT)
        then
          if d_type d = DCC_BOT \<and> idx = - 3 \<and> d_share d \<and> \<not> share_unlinks then Some (Some (- 1), dcc, st)
          else
            case lostdcc i dcc st of
              None \<Rightarrow> None
            | Some (dcc', st') \<Rightarrow>
                if \<not> all_bots then Some (Some 1, dcc', st')
                else botunlink_loop share_unlinks idx nick (i + 1) dcc' st'
        else botunlink_loop share_unlinks idx nick (i + 1) dcc st
      else Some (None, dcc, st))"
  by auto
termination
  by (relation "measure (\<lambda>(_, _, _, i, dcc, _). length dcc - i)") (auto dest!: lostdcc_length)

declare botunlink_loop.simps [simp del]

partial_function (option) wipe_bots :: "botnet \<Rightarrow> botnet option" where
  "wipe_bots st =
     (case tandbot st of
        [] \<Rightarrow> Some st
      | (a, t) # l \<Rightarrow> do { st \<leftarrow> rembot (t_bot t) st; wipe_bots st })"

declare wipe_bots.simps [code]

definition botunlink :: "bool \<Rightarrow> int \<Rightarrow> string \<Rightarrow> dcc_t list \<Rightarrow> botnet \<Rightarrow> (int \<times> dcc_t list \<times> botnet) option" where
  "botunlink share_unlinks idx nick dcc st =
     do {
       (r, dcc, st) \<leftarrow> botunlink_loop share_unlinks idx nick 0 dcc st;
       case r of
         Some r \<Rightarrow> Some (r, dcc, st)
       | None \<Rightarrow>
           if c0 nick \<noteq> CHR ''*'' then
             case findbot st nick of
               Some b \<Rightarrow> do { t \<leftarrow> tand_at st b; st \<leftarrow> rembot (t_bot t) st; Some (1, dcc, st) }
             | None \<Rightarrow> Some (0, dcc, st)
           else do { st \<leftarrow> wipe_bots st; Some (0, dcc, st\<lparr>party := []\<rparr>) }
     }"

end
