(* ===== verification/BotnetInv.thy ===== *)
theory BotnetInv
  imports Botnet
begin

text \<open>
  What the list of bots always is: a forest whose roots are the direct links, every other node
  behind the node it hangs on, each \<open>via\<close> the root of its tree, and \<open>bot_table\<close> the index of the
  list.  \<open>unvia\<close> and the counts of \<open>bots_in_subtree\<close> are related to \<open>purge\<close> and \<open>cut_off\<close>, one pass
  over the list.
\<close>

section \<open>The forest\<close>

abbreviation nodes :: "(nat \<times> tand_t) list \<Rightarrow> nat set" where "nodes l \<equiv> fst ` set l"

text \<open>\<open>m\<close> maps the nodes before the list to their \<open>via\<close>.\<close>

fun forest :: "(nat \<Rightarrow> nat option) \<Rightarrow> (nat \<times> tand_t) list \<Rightarrow> bool" where
  "forest m [] \<longleftrightarrow> True"
| "forest m ((a, t) # l) \<longleftrightarrow>
     a \<notin> dom m \<and>
     (case t_uplink t of Nobody \<Rightarrow> False | Me \<Rightarrow> t_via t = Some a | Up u \<Rightarrow> u \<in> dom m \<and> t_via t = m u) \<and>
     forest (m(a := t_via t)) l"

fun vias :: "(nat \<Rightarrow> nat option) \<Rightarrow> (nat \<times> tand_t) list \<Rightarrow> nat \<Rightarrow> nat option" where
  "vias m [] = m"
| "vias m ((a, t) # l) = vias (m(a := t_via t)) l"

fun purge :: "nat set \<Rightarrow> (nat \<times> tand_t) list \<Rightarrow> (nat \<times> tand_t) list" where
  "purge S [] = []"
| "purge S ((a, t) # l) = (if t_uplink t \<in> Up ` S then purge (insert a S) l else (a, t) # purge S l)"

fun cut_off :: "nat set \<Rightarrow> (nat \<times> tand_t) list \<Rightarrow> (nat \<times> tand_t) list" where
  "cut_off S [] = []"
| "cut_off S ((a, t) # l) = (if t_uplink t \<in> Up ` S then (a, t) # cut_off (insert a S) l else cut_off S l)"

lemma forest_append: "forest m (xs @ ys) \<longleftrightarrow> forest m xs \<and> forest (vias m xs) ys"
  by (induction xs arbitrary: m) auto

lemma vias_append: "vias m (xs @ ys) = vias (vias m xs) ys"
  by (induction xs arbitrary: m) auto

lemma forest_via: "forest m ((a, t) # l) \<Longrightarrow> \<exists>v. t_via t = Some v"
  by (cases "t_uplink t") auto

lemma forest_Cons:
  assumes "forest m ((a, t) # l)"
  obtains v where "t_via t = Some v" "a \<notin> dom m" "forest (m(a \<mapsto> v)) l"
  using forest_via [OF assms] assms by auto

lemma dom_vias: "forest m xs \<Longrightarrow> dom (vias m xs) = dom m \<union> nodes xs"
proof (induction xs arbitrary: m)
  case (Cons x l)
  obtain a t where x: "x = (a, t)" by (cases x)
  obtain v where v: "t_via t = Some v" "forest (m(a \<mapsto> v)) l" using Cons.prems unfolding x by (rule forest_Cons)
  have "dom (m(a \<mapsto> v)) = insert a (dom m)" by simp
  then show ?case using Cons.IH [OF v(2)] by (simp only: x v(1) vias.simps list.set image_insert fst_conv Un_insert_left Un_insert_right)
qed simp

lemma forest_fresh: "forest m xs \<Longrightarrow> dom m \<inter> nodes xs = {} \<and> distinct (map fst xs)"
proof (induction xs arbitrary: m)
  case (Cons x l)
  obtain a t where x: "x = (a, t)" by (cases x)
  obtain v where v: "a \<notin> dom m" "forest (m(a \<mapsto> v)) l" using Cons.prems unfolding x by (rule forest_Cons)
  have "dom (m(a \<mapsto> v)) \<inter> nodes l = {} \<and> distinct (map fst l)" by (rule Cons.IH [OF v(2)])
  then show ?case using v(1) by (auto simp: x)
qed simp

lemma forest_uplink:
  "forest m xs \<Longrightarrow> (a, t) \<in> set xs \<Longrightarrow> t_uplink t = Up u \<Longrightarrow> u \<in> dom m \<union> nodes xs"
proof (induction xs arbitrary: m)
  case (Cons x l)
  obtain b s where x: "x = (b, s)" by (cases x)
  obtain v where v: "forest (m(b \<mapsto> v)) l" using Cons.prems(1) unfolding x by (rule forest_Cons)
  have "(a, t) \<in> set l \<Longrightarrow> u \<in> dom (m(b \<mapsto> v)) \<union> nodes l" by (rule Cons.IH [OF v _ Cons.prems(3)])
  then show ?case using Cons.prems by (auto simp: x)
qed simp

lemma forest_before:
  assumes "forest m (pre @ (b, t) # post)" "x \<in> set (pre @ [(b, t)])"
  shows "t_uplink (snd x) \<noteq> Up b"
proof -
  have f: "forest m pre" "forest (vias m pre) ((b, t) # post)" using assms(1) by (simp_all only: forest_append)
  then have "b \<notin> dom m \<union> nodes pre" using dom_vias [OF f(1)] by simp
  then show ?thesis using assms(2) forest_uplink [OF f(1), of "fst x" "snd x" b] f(2) dom_vias [OF f(1)] by auto
qed

lemma purge_subset: "set (purge S l) \<subseteq> set l"
  by (induction S l rule: purge.induct) auto

lemma mset_purge_cut: "mset (purge S l @ cut_off S l) = mset l"
  by (induction S l rule: purge.induct) auto

lemma set_purge_cut: "set l = set (purge S l) \<union> set (cut_off S l)"
  using arg_cong [OF mset_purge_cut, of set_mset S l] by simp

lemma length_purge_cut: "length (purge S l) + length (cut_off S l) = length l"
  using arg_cong [OF mset_purge_cut, of size S l] by simp

lemma distinct_purge_cut: "distinct (map f l) \<Longrightarrow> distinct (map f (purge S l @ cut_off S l))"
  using mset_eq_imp_distinct_iff [of "map f (purge S l @ cut_off S l)" "map f l"] mset_purge_cut [of S l]
  by (metis mset_map)

lemma length_purge: "length (purge S l) \<le> length l"
  using length_purge_cut [of S l] by linarith

lemma distinct_purge: "distinct (map f l) \<Longrightarrow> distinct (map f (purge S l))"
proof (induction S l rule: purge.induct)
  case (2 S a t l)
  then show ?case using purge_subset [of S l] by auto
qed simp

lemma purge_uplink: "x \<in> set (purge S l) \<Longrightarrow> u \<in> S \<Longrightarrow> t_uplink (snd x) \<noteq> Up u"
  by (induction S l rule: purge.induct) (auto split: if_splits)

lemma purge_keep:
  "\<forall>x \<in> set pre. t_uplink (snd x) \<notin> Up ` S \<Longrightarrow> purge S (pre @ x) = pre @ purge S x \<and> cut_off S (pre @ x) = cut_off S x"
  by (induction pre) auto

lemma purge_purge: "purge S (purge T l) = purge (S \<union> T) l"
proof (induction T l arbitrary: S rule: purge.induct)
  case (2 T a t l)
  show ?case
  proof (cases "t_uplink t \<in> Up ` T")
    case True
    then show ?thesis using "2.IH"(1) [OF True, of S] by (simp add: image_Un)
  next
    case False
    then show ?thesis using "2.IH"(2) [OF False] by (auto simp: image_Un)
  qed
qed simp

lemma cut_off_purge: "set (cut_off (S \<union> T) l) = set (cut_off T l) \<union> set (cut_off S (purge T l))"
proof (induction T l arbitrary: S rule: purge.induct)
  case (2 T a t l)
  consider "t_uplink t \<in> Up ` T" | "t_uplink t \<notin> Up ` T" "t_uplink t \<in> Up ` S" | "t_uplink t \<notin> Up ` (S \<union> T)" by auto
  then show ?case
  proof cases
    case 1
    then show ?thesis using "2.IH"(1) [of S] by (simp add: image_Un)
  next
    case 2
    then show ?thesis using "2.IH"(2) [of "insert a S"] by (simp add: image_Un)
  next
    case 3
    then show ?thesis using "2.IH"(2) [of S] by (simp add: image_Un)
  qed
qed simp

lemma forest_purge: "forest m l \<Longrightarrow> S \<inter> nodes l = {} \<Longrightarrow> forest (m |` (- S)) (purge S l)"
proof (induction l arbitrary: m S)
  case (Cons x l)
  obtain a t where x: "x = (a, t)" by (cases x)
  obtain v where v: "t_via t = Some v" "a \<notin> dom m" "forest (m(a \<mapsto> v)) l"
    using Cons.prems(1) unfolding x by (rule forest_Cons)
  then have a: "a \<notin> S" "a \<notin> nodes l" using Cons.prems(2) forest_fresh [OF v(3)] by (auto simp: x)
  show ?case
  proof (cases "t_uplink t \<in> Up ` S")
    case True
    have "(m(a \<mapsto> v)) |` (- insert a S) = m |` (- S)"
      using v(2) by (auto simp: restrict_map_def fun_eq_iff domIff)
    moreover have "insert a S \<inter> nodes l = {}" using Cons.prems(2) a by (auto simp: x)
    ultimately have "forest (m |` (- S)) (purge (insert a S) l)"
      using Cons.IH [OF v(3), of "insert a S"] by (simp only:)
    then show ?thesis using True by (simp add: x)
  next
    case False
    have "(m(a \<mapsto> v)) |` (- S) = (m |` (- S))(a \<mapsto> v)"
      using a by (auto simp: restrict_map_def fun_eq_iff)
    moreover have "S \<inter> nodes l = {}" using Cons.prems(2) by (auto simp: x)
    ultimately have "forest ((m |` (- S))(a \<mapsto> v)) (purge S l)"
      using Cons.IH [OF v(3), of S] by (simp only:)
    then show ?thesis using False v Cons.prems
      by (auto simp: x restrict_map_def dom_def split: uplink.splits)
  qed
qed simp

lemma cut_off_sum:
  assumes "S \<inter> T = {}" "distinct (map fst l)" "nodes l \<inter> (S \<union> T) = {}"
  shows "(\<Sum>x \<leftarrow> cut_off (S \<union> T) l. f x) = (\<Sum>x \<leftarrow> cut_off S l. f x) + (\<Sum>x \<leftarrow> cut_off T l. (f x :: nat))"
  using assms
proof (induction l arbitrary: S T)
  case (Cons x l)
  obtain a t where x: "x = (a, t)" by (cases x)
  have d: "distinct (map fst l)" "a \<notin> nodes l" "a \<notin> S" "a \<notin> T" using Cons.prems by (auto simp: x)
  consider "t_uplink t \<in> Up ` S" | "t_uplink t \<in> Up ` T" | "t_uplink t \<notin> Up ` (S \<union> T)" by auto
  then show ?case
  proof cases
    case 1
    then have "t_uplink t \<notin> Up ` T" using Cons.prems(1) by auto
    then show ?thesis
      using 1 Cons.IH [of "insert a S" T] Cons.prems d by (auto simp: x image_Un)
  next
    case 2
    then have "t_uplink t \<notin> Up ` S" using Cons.prems(1) by auto
    then show ?thesis
      using 2 Cons.IH [of S "insert a T"] Cons.prems d by (auto simp: x image_Un)
  next
    case 3
    then show ?thesis using Cons.IH [of S T] Cons.prems d by (auto simp: x image_Un)
  qed
qed simp

section \<open>The state of the botnet\<close>

definition name_ok :: "string \<Rightarrow> string \<Rightarrow> bool" where
  "name_ok me n \<longleftrightarrow> n \<noteq> [] \<and> cstring n \<and> length n \<le> HANDLEN \<and> istr_canon n \<noteq> istr_canon me"

abbreviation canon_of :: "nat \<times> tand_t \<Rightarrow> uchar list" where
  "canon_of x \<equiv> istr_canon (t_bot (snd x))"

definition index_of :: "(nat \<times> tand_t) list \<Rightarrow> uchar list \<Rightarrow> nat option option" where
  "index_of l = map_of (map (\<lambda>x. (canon_of x, Some (fst x))) l)"

definition index_ok :: "botnet \<Rightarrow> bool" where
  "index_ok st \<longleftrightarrow>
     istr_tab (bot_table st) \<and> ht_map istr_canon (bot_table st) = index_of (tandbot st) \<and>
     ht_count (bot_table st) = length (tandbot st) \<and> tands st = int (length (tandbot st)) \<and>
     distinct (map canon_of (tandbot st)) \<and>
     (\<forall>x \<in> set (tandbot st). name_ok (botnetnick st) (t_bot (snd x))) \<and> cstring (botnetnick st)"

definition bots_ok :: "botnet \<Rightarrow> bool" where
  "bots_ok st \<longleftrightarrow> index_ok st \<and> forest Map.empty (tandbot st)"

lemma bots_ok_eq:
  "bots_ok st \<longleftrightarrow>
     istr_tab (bot_table st) \<and> ht_map istr_canon (bot_table st) = index_of (tandbot st) \<and>
     ht_count (bot_table st) = length (tandbot st) \<and> tands st = int (length (tandbot st)) \<and>
     distinct (map canon_of (tandbot st)) \<and> forest Map.empty (tandbot st) \<and>
     (\<forall>x \<in> set (tandbot st). name_ok (botnetnick st) (t_bot (snd x))) \<and> cstring (botnetnick st)"
  by (auto simp: bots_ok_def index_ok_def)

lemma rfc_toupper_ascii: "rfc_toupper (tolower c) = rfc_toupper c"
  by (auto simp: uc_eq_iff uc_rfc_toupper uc_tolower)

lemma ascii_eq_canon:
  assumes "cstring a" "cstring b" "op_strcasecmp a b = 0"
  shows "istr_canon a = istr_canon b"
proof -
  have "map rfc_toupper (map tolower a) = map rfc_toupper (map tolower b)"
    using assms op_strcasecmp_eq0 by simp
  then show ?thesis using assms istr_canon_rfc by (simp add: rfc_toupper_ascii comp_def)
qed

lemma op_strcasecmp_refl: "cstring a \<Longrightarrow> op_strcasecmp a a = 0"
  by (simp add: op_strcasecmp_eq0)

lemma index_of_Some:
  "distinct (map canon_of l) \<Longrightarrow> index_of l k = Some v \<longleftrightarrow> (\<exists>x \<in> set l. canon_of x = k \<and> v = Some (fst x))"
  unfolding index_of_def by (subst map_of_eq_Some_iff) (auto simp: comp_def)

lemma index_of_None: "index_of l k = None \<longleftrightarrow> k \<notin> canon_of ` set l"
  by (auto simp: index_of_def map_of_eq_None_iff image_comp comp_def)

lemma index_of_remove:
  assumes "distinct (map canon_of (pre @ x # post))"
  shows "index_of (pre @ post) = (index_of (pre @ x # post))(canon_of x := None)"
proof
  fix k
  show "index_of (pre @ post) k = ((index_of (pre @ x # post))(canon_of x := None)) k"
  proof (cases "k = canon_of x")
    case True
    have "k \<notin> canon_of ` set (pre @ post)" unfolding True using assms by auto
    then show ?thesis using index_of_None [of "pre @ post" k] True by simp
  next
    case False
    then show ?thesis by (simp add: index_of_def map_add_def split: option.splits)
  qed
qed

lemma findbot_index:
  assumes "index_ok st"
  shows "findbot st who = Some a \<longleftrightarrow> (\<exists>t. (a, t) \<in> set (tandbot st) \<and> istr_canon (t_bot t) = istr_canon who)"
proof -
  have "findbot st who = (case index_of (tandbot st) (istr_canon who) of None \<Rightarrow> None | Some v \<Rightarrow> v)"
    using assms istr_keys.get [of "bot_table st" who] by (simp add: index_ok_def istr_tab_def findbot_def)
  then have "findbot st who = Some a \<longleftrightarrow> index_of (tandbot st) (istr_canon who) = Some (Some a)"
    by (simp split: option.splits)
  also have "\<dots> \<longleftrightarrow> (\<exists>x \<in> set (tandbot st). canon_of x = istr_canon who \<and> Some a = Some (fst x))"
    using assms by (intro index_of_Some) (simp add: index_ok_def)
  also have "\<dots> \<longleftrightarrow> (\<exists>t. (a, t) \<in> set (tandbot st) \<and> istr_canon (t_bot t) = istr_canon who)"
    by (metis option.inject prod.collapse fst_conv snd_conv)
  finally show ?thesis .
qed

lemma findbot_Some:
  "bots_ok st \<Longrightarrow> findbot st who = Some a \<longleftrightarrow> (\<exists>t. (a, t) \<in> set (tandbot st) \<and> istr_canon (t_bot t) = istr_canon who)"
  using findbot_index by (simp add: bots_ok_def)

lemma findbot_None:
  assumes "bots_ok st"
  shows "findbot st who = None \<longleftrightarrow> istr_canon who \<notin> canon_of ` set (tandbot st)"
proof -
  have "findbot st who = None \<longleftrightarrow> (\<forall>a. findbot st who \<noteq> Some a)" by simp
  then show ?thesis unfolding findbot_Some [OF assms] image_iff by (metis prod.collapse snd_conv)
qed

lemma tand_at_mid:
  "forest m (pre @ (b, t) # post) \<Longrightarrow> map_of (pre @ (b, t) # post) b = Some t"
  using forest_fresh [of m "pre @ (b, t) # post"] by (simp add: map_add_dom_app_simps dom_map_of_conv_image_fst)

lemma tand_at_iff:
  "forest m l \<Longrightarrow> map_of l b = Some t \<longleftrightarrow> (b, t) \<in> set l"
  using forest_fresh [of m l] by (simp add: map_of_eq_Some_iff)

lemma next_node_mid: "b \<notin> nodes pre \<Longrightarrow> next_node b (pre @ (b, t) # post) = Some (list_head post)"
  by (induction pre) (auto simp: list_head_def split: list.splits)

lemma unlink_first_mid:
  assumes "\<forall>x \<in> set pre. op_strcasecmp (t_bot (snd x)) who \<noteq> 0" "op_strcasecmp (t_bot t) who = 0"
  shows "unlink_first who (pre @ (b, t) # post) = Some (t, pre @ post)"
  using assms by (induction pre) auto

lemma unlink_first_None:
  "\<forall>x \<in> set l. op_strcasecmp (t_bot (snd x)) who \<noteq> 0 \<Longrightarrow> unlink_first who l = None"
  by (induction l) auto

text \<open>\<open>rembot\<close> takes one node out of the list and out of the index.\<close>

lemma rembot_index:
  assumes ok: "index_ok st" and l: "tandbot st = pre @ (b, t) # post"
    and who: "cstring who" "op_strcasecmp (t_bot t) who = 0"
  shows "\<exists>tab. rembot who st = Some (st\<lparr>tandbot := pre @ post, bot_table := tab, tands := tands st - 1\<rparr>) \<and>
    index_ok (st\<lparr>tandbot := pre @ post, bot_table := tab, tands := tands st - 1\<rparr>)"
proof -
  have d: "distinct (map canon_of (pre @ (b, t) # post))"
    and n: "\<forall>x \<in> set (tandbot st). name_ok (botnetnick st) (t_bot (snd x))"
    using ok by (simp_all add: index_ok_def l)
  have ct: "cstring (t_bot t)" using n by (simp add: l name_ok_def)
  have "op_strcasecmp (t_bot (snd x)) who \<noteq> 0" if "x \<in> set pre" for x
  proof
    assume "op_strcasecmp (t_bot (snd x)) who = 0"
    moreover have "cstring (t_bot (snd x))" using n that by (simp add: l name_ok_def)
    ultimately have "canon_of x = istr_canon who" using ascii_eq_canon who(1) by blast
    moreover have "istr_canon (t_bot t) = istr_canon who" using ascii_eq_canon ct who by blast
    ultimately show False using d that by (force simp: rev_image_eqI)
  qed
  then have u: "unlink_first who (tandbot st) = Some (t, pre @ post)"
    unfolding l using who(2) by (intro unlink_first_mid) auto
  obtain tab where tab: "op_htab_del (bot_table st) (t_bot t) = Some (tab, istr_keys.val_at (bot_table st) (t_bot t))"
      "istr_tab tab" "ht_map istr_canon tab = (ht_map istr_canon (bot_table st))(istr_canon (t_bot t) := None)"
      "ht_count tab + (if ht_map istr_canon (bot_table st) (istr_canon (t_bot t)) = None then 0 else 1) = ht_count (bot_table st)"
    using istr_keys.del [of "bot_table st" "t_bot t"] ok by (auto simp: index_ok_def istr_tab_def)
  have i: "ht_map istr_canon (bot_table st) = index_of (pre @ (b, t) # post)" using ok by (simp add: index_ok_def l)
  have "ht_map istr_canon tab = index_of (pre @ post)"
    unfolding tab(3) i using index_of_remove [OF d] by simp
  moreover have "ht_count tab = length (pre @ post)"
    using tab(4) ok index_of_None [of "pre @ (b, t) # post" "istr_canon (t_bot t)"] unfolding i by (simp add: index_ok_def l)
  ultimately have "index_ok (st\<lparr>tandbot := pre @ post, bot_table := tab, tands := tands st - 1\<rparr>)"
    using ok tab(2) d n by (auto simp: index_ok_def l)
  then show ?thesis using u tab(1) by (auto simp: rembot_def)
qed

text \<open>A node nothing hangs on leaves a forest.\<close>

lemma rembot_leaf:
  assumes ok: "bots_ok st" and l: "tandbot st = pre @ (b, t) # post"
    and leaf: "\<forall>x \<in> set post. t_uplink (snd x) \<noteq> Up b"
    and who: "cstring who" "op_strcasecmp (t_bot t) who = 0"
  shows "\<exists>tab. rembot who st = Some (st\<lparr>tandbot := pre @ post, bot_table := tab, tands := tands st - 1\<rparr>) \<and>
    bots_ok (st\<lparr>tandbot := pre @ post, bot_table := tab, tands := tands st - 1\<rparr>)"
proof -
  have f: "forest Map.empty pre" "forest (vias Map.empty pre) ((b, t) # post)"
    using ok by (simp_all only: bots_ok_def l forest_append)
  obtain v where v: "b \<notin> dom (vias Map.empty pre)" "forest ((vias Map.empty pre)(b \<mapsto> v)) post"
    using f(2) by (rule forest_Cons)
  have "forest ((vias Map.empty pre)(b \<mapsto> v) |` (- {b})) (purge {b} post)"
    using v(2) forest_fresh [OF v(2)] by (intro forest_purge) auto
  moreover have "purge {b} post = post" using purge_keep [of post "{b}" "[]"] leaf by auto
  moreover have "(vias Map.empty pre)(b \<mapsto> v) |` (- {b}) = vias Map.empty pre"
    using v(1) by (auto simp: restrict_map_def fun_eq_iff domIff)
  ultimately have "forest Map.empty (pre @ post)" using f(1) by (simp only: forest_append)
  then show ?thesis using rembot_index [OF _ l who] ok by (auto simp: bots_ok_def)
qed

lemma rembot_other:
  assumes "\<forall>x \<in> set (tandbot st). op_strcasecmp (t_bot (snd x)) who \<noteq> 0"
  shows "rembot who st = Some st"
  using assms by (simp add: rembot_def unlink_first_None)

section \<open>The party line\<close>

abbreviation on_bot :: "string \<Rightarrow> party_t \<Rightarrow> bool" where
  "on_bot b p \<equiv> op_strcasecmp (p_bot p) b = 0"

lemma mset_swap_out:
  assumes "i < length ps"
  shows "mset (butlast (ps[i := last ps])) = mset ps - {#ps ! i#}"
proof (cases "i = length ps - 1")
  case True
  have "ps \<noteq> []" using assms by auto
  then have "ps ! i = last ps" using True by (simp add: last_conv_nth)
  then have "ps[i := last ps] = ps" using list_update_id [of ps i] by simp
  moreover have "mset ps = add_mset (last ps) (mset (butlast ps))"
    using \<open>ps \<noteq> []\<close> by (metis append_butlast_last_id mset_append mset.simps union_mset_add_mset_right add.right_neutral)
  ultimately show ?thesis using \<open>ps ! i = last ps\<close> by simp
next
  case False
  let ?qs = "ps[i := last ps]"
  have ne: "?qs \<noteq> []" "ps \<noteq> []" using assms by auto
  have "last ?qs = last ps" using ne False assms by (simp add: last_conv_nth nth_list_update)
  then have "mset ?qs = add_mset (last ps) (mset (butlast ?qs))"
    using ne(1) by (metis append_butlast_last_id mset_append mset.simps union_mset_add_mset_right add.right_neutral)
  then show ?thesis using mset_update [OF assms, of "last ps"] by simp
qed

lemma remparty_loop_filter:
  "filter_mset (\<lambda>p. \<not> on_bot b p) (mset (remparty_loop b sock i ps)) = filter_mset (\<lambda>p. \<not> on_bot b p) (mset ps)"
proof (induction b sock i ps rule: remparty_loop.induct)
  case (1 b sock i ps)
  show ?case
  proof (cases "i < length ps \<and> party_is b sock (ps ! i)")
    case True
    then have "mset ps = add_mset (ps ! i) (mset (butlast (ps[i := last ps])))"
      by (subst mset_swap_out) simp_all
    then show ?thesis using True "1.IH"(1) by (subst remparty_loop.simps) (simp add: party_is_def)
  next
    case False
    then show ?thesis using "1.IH"(2) by (subst remparty_loop.simps) auto
  qed
qed

lemma remparty_loop_take:
  "\<forall>k < n. \<not> party_is b sock (ps ! k) \<Longrightarrow> n \<le> length ps \<Longrightarrow>
   n \<le> length (remparty_loop b sock i ps) \<and> take n (remparty_loop b sock i ps) = take n ps"
proof (induction b sock i ps rule: remparty_loop.induct)
  case (1 b sock i ps)
  show ?case
  proof (cases "i < length ps \<and> party_is b sock (ps ! i)")
    case True
    let ?qs = "butlast (ps[i := last ps])"
    have n: "n \<le> i" using True "1.prems"(1) not_le by blast
    have t: "take n ?qs = take n ps" using n True by (simp add: take_butlast)
    have "\<not> party_is b sock (?qs ! k)" if "k < n" for k
    proof -
      have "?qs ! k = ps ! k" using t nth_take [OF that, of ?qs] nth_take [OF that, of ps] by simp
      then show ?thesis using that "1.prems"(1) by metis
    qed
    moreover have "n \<le> length ?qs" using n True by auto
    ultimately have "n \<le> length (remparty_loop b sock (i + 1) ?qs) \<and> take n (remparty_loop b sock (i + 1) ?qs) = take n ?qs"
      using "1.IH"(1) True by blast
    then show ?thesis using True t by (subst (1 2) remparty_loop.simps) simp
  next
    case False
    then show ?thesis using "1.IH"(2) "1.prems" by (subst (1 2) remparty_loop.simps) auto
  qed
qed

lemma rempartybot_loop:
  "\<forall>k < i. k < length ps \<longrightarrow> \<not> on_bot b (ps ! k) \<Longrightarrow>
   mset (rempartybot_loop b i ps) = filter_mset (\<lambda>p. \<not> on_bot b p) (mset ps)"
proof (induction b i ps rule: rempartybot_loop.induct)
  case (1 b i ps)
  show ?case
  proof (cases "i < length ps")
    case i: True
    show ?thesis
    proof (cases "on_bot b (ps ! i)")
      case True
      let ?qs = "remparty_loop b (p_sock (ps ! i)) 0 ps"
      have t: "i \<le> length ?qs \<and> take i ?qs = take i ps"
        using "1.prems" i by (intro remparty_loop_take) (auto simp: party_is_def)
      have "\<not> on_bot b (?qs ! k)" if "k < i" for k
        using that t i "1.prems" by (metis less_trans nth_take)
      then have "mset (rempartybot_loop b i ?qs) = filter_mset (\<lambda>p. \<not> on_bot b p) (mset ?qs)"
        using "1.IH"(1) [OF i True] by blast
      then show ?thesis using i True by (subst rempartybot_loop.simps) (simp add: remparty_loop_filter)
    next
      case False
      have "\<forall>k < i + 1. k < length ps \<longrightarrow> \<not> on_bot b (ps ! k)"
        using "1.prems" False by (metis Suc_eq_plus1 less_SucE)
      then show ?thesis using "1.IH"(2) [OF i False] i False by (subst rempartybot_loop.simps) simp
    qed
  next
    case False
    have "\<not> on_bot b p" if "p \<in> set ps" for p
      using that "1.prems" False by (auto simp: in_set_conv_nth)
    then have "filter (\<lambda>p. \<not> on_bot b p) ps = ps" by simp
    then show ?thesis using False by (subst rempartybot_loop.simps) (simp flip: mset_filter)
  qed
qed

lemma rempartybot: "mset (party (rempartybot b st)) = filter_mset (\<lambda>p. \<not> on_bot b p) (mset (party st))"
  by (simp add: rempartybot_def rempartybot_loop)

lemma rempartybot_sel [simp]:
  "tandbot (rempartybot b st) = tandbot st" "bot_table (rempartybot b st) = bot_table st"
  "tands (rempartybot b st) = tands st" "botnetnick (rempartybot b st) = botnetnick st"
  by (simp_all add: rempartybot_def)

lemma bots_ok_rempartybot [simp]: "bots_ok (rempartybot b st) = bots_ok st"
  by (simp add: bots_ok_eq)

section \<open>\<open>unvia\<close>\<close>

text \<open>How many nodes there are from \<open>w\<close> on.\<close>

definition behind :: "nat \<Rightarrow> (nat \<times> tand_t) list \<Rightarrow> nat" where
  "behind w l = length (dropWhile (\<lambda>x. fst x \<noteq> w) l)"

lemma behind_mid: "w \<notin> nodes pre \<Longrightarrow> behind w (pre @ (w, t) # post) = Suc (length post)"
  by (induction pre) (auto simp: behind_def)

lemma behind_child:
  assumes "forest Map.empty (pre @ (b, t) # post)" "t_uplink t = Up w"
  shows "w \<in> nodes pre" "behind b (pre @ (b, t) # post) < behind w (pre @ (b, t) # post)"
    "length post' \<le> length post \<Longrightarrow> behind w (pre @ post') < behind w (pre @ (b, t) # post)"
proof -
  have f: "forest Map.empty pre" "forest (vias Map.empty pre) ((b, t) # post)"
    using assms(1) by (simp_all only: forest_append)
  then have d: "dom (vias Map.empty pre) = nodes pre" using dom_vias [OF f(1)] by simp
  show w: "w \<in> nodes pre" using f(2) assms(2) d by auto
  then obtain p1 s p2 where p: "pre = p1 @ (w, s) # p2" by (auto dest: split_list)
  have "distinct (map fst pre)" using forest_fresh [OF f(1)] by (rule conjunct2)
  then have w1: "w \<notin> nodes p1" unfolding p by simp
  have "b \<notin> nodes pre" using f(2) d by auto
  then have "behind b (pre @ (b, t) # post) = Suc (length post)" by (rule behind_mid)
  moreover have b: "behind w (pre @ q) = Suc (length p2 + length q)" for q
    using behind_mid [OF w1, of s "p2 @ q"] by (simp add: p)
  ultimately show "behind b (pre @ (b, t) # post) < behind w (pre @ (b, t) # post)" by simp
  show "length post' \<le> length post \<Longrightarrow> behind w (pre @ post') < behind w (pre @ (b, t) # post)"
    unfolding b by simp
qed

text \<open>What a run of the loop over \<open>suf\<close> leaves, when what precedes \<open>suf\<close> has been dealt with.\<close>

definition pruned :: "nat \<Rightarrow> (nat \<times> tand_t) list \<Rightarrow> (nat \<times> tand_t) list \<Rightarrow> botnet \<Rightarrow> botnet \<Rightarrow> bool" where
  "pruned w pre suf st st' \<longleftrightarrow>
     bots_ok st' \<and> tandbot st' = pre @ purge {w} suf \<and> botnetnick st' = botnetnick st \<and>
     mset (party st') =
       filter_mset (\<lambda>p. \<forall>x \<in> set (cut_off {w} suf). \<not> on_bot (t_bot (snd x)) p) (mset (party st))"

lemma unvia_loop_pruned:
  "bots_ok st \<Longrightarrow> tandbot st = pre @ suf \<Longrightarrow> behind w (tandbot st) \<le> n \<Longrightarrow>
   \<forall>x \<in> set pre. t_uplink (snd x) \<noteq> Up w \<Longrightarrow>
   \<exists>st'. unvia_loop w (list_head suf) st = Some st' \<and> pruned w pre suf st st'"
proof (induction n arbitrary: w st pre suf rule: less_induct)
  case (less n)
  show ?case using less.prems
  proof (induction "length suf" arbitrary: st pre suf rule: less_induct)
    case inner: less
    note ok = inner.prems(1) and l = inner.prems(2)
    have f: "forest Map.empty (pre @ suf)" using ok by (simp add: bots_ok_eq l)
    show ?case
    proof (cases suf)
      case Nil
      then show ?thesis using ok l by (subst unvia_loop.simps) (simp add: list_head_def pruned_def)
    next
      case (Cons x post)
      obtain b t where x: "x = (b, t)" by (cases x)
      have s: "suf = (b, t) # post" by (simp add: Cons x)
      have hd: "list_head suf = Some b" by (simp add: s list_head_def)
      have t: "tand_at st b = Some t" using tand_at_mid [of Map.empty pre b t post] f by (simp add: l s)
      have pb: "b \<notin> nodes pre" using forest_fresh [OF f] by (auto simp: s)
      have before: "\<forall>x \<in> set (pre @ [(b, t)]). t_uplink (snd x) \<noteq> Up b"
      proof
        fix x assume "x \<in> set (pre @ [(b, t)])"
        then show "t_uplink (snd x) \<noteq> Up b"
          using forest_before [of Map.empty pre b t post x] f by (simp add: s)
      qed
      show ?thesis
      proof (cases "t_uplink t = Up w")
        case False
        have "\<exists>st'. unvia_loop w (list_head post) st = Some st' \<and> pruned w (pre @ [(b, t)]) post st st'"
          using inner.prems False by (intro inner.hyps) (auto simp: s)
        moreover have "unvia_loop w (Some b) st = unvia_loop w (list_head post) st"
          using t False next_node_mid [OF pb, of t post] by (subst unvia_loop.simps) (simp add: l s)
        moreover have "t_uplink t \<notin> Up ` {w}" using False by auto
        ultimately show ?thesis unfolding hd by (auto simp: pruned_def s)
      next
        case True
        define st1 where "st1 = rempartybot (t_bot t) st"
        have f': "forest Map.empty (pre @ (b, t) # post)" using f by (simp add: s)
        have ok1: "bots_ok st1" "tandbot st1 = pre @ (b, t) # post" using ok l by (simp_all add: st1_def s)
        have "behind b (tandbot st1) < n"
          using behind_child(2) [OF f' True] inner.prems(3) by (simp add: ok1(2) l s)
        then have "\<exists>st2. unvia_loop b (list_head (tandbot st1)) st1 = Some st2 \<and> pruned b [] (tandbot st1) st1 st2"
          using ok1(1) by (intro less.IH [of "behind b (tandbot st1)"]) simp_all
        then obtain st2 where st2: "unvia_loop b (list_head (tandbot st1)) st1 = Some st2" "pruned b [] (tandbot st1) st1 st2"
          by blast
        have k: "purge {b} (pre @ (b, t) # post) = pre @ (b, t) # purge {b} post"
          "cut_off {b} (pre @ (b, t) # post) = cut_off {b} post"
          using purge_keep [of "pre @ [(b, t)]" "{b}" post] before by auto
        have l2: "bots_ok st2" "tandbot st2 = pre @ (b, t) # purge {b} post" "botnetnick st2 = botnetnick st"
          and p2: "mset (party st2) = filter_mset (\<lambda>p. \<forall>x \<in> set (cut_off {b} post). \<not> on_bot (t_bot (snd x)) p) (mset (party st1))"
          using st2(2) unfolding pruned_def ok1(2) k by (simp_all add: st1_def)
        have "distinct (map fst (pre @ (b, t) # purge {b} post))"
          using l2(1) forest_fresh [of Map.empty "tandbot st2"] unfolding l2(2) bots_ok_eq by simp
        have leaf: "\<forall>x \<in> set (purge {b} post). t_uplink (snd x) \<noteq> Up b" using purge_uplink by blast
        obtain tab where st3: "rembot (t_bot t) st2 = Some (st2\<lparr>tandbot := pre @ purge {b} post, bot_table := tab, tands := tands st2 - 1\<rparr>)"
            "bots_ok (st2\<lparr>tandbot := pre @ purge {b} post, bot_table := tab, tands := tands st2 - 1\<rparr>)"
        proof -
          have ct: "cstring (t_bot t)" using l2(1) by (simp add: bots_ok_eq l2(2) name_ok_def)
          show thesis using that rembot_leaf [OF l2(1,2) leaf ct op_strcasecmp_refl [OF ct]] by blast
        qed
        define st3 where "st3 = st2\<lparr>tandbot := pre @ purge {b} post, bot_table := tab, tands := tands st2 - 1\<rparr>"
        have l3: "bots_ok st3" "tandbot st3 = pre @ purge {b} post" "party st3 = party st2" "botnetnick st3 = botnetnick st"
          using st3 l2(3) by (simp_all add: st3_def)
        have "behind w (tandbot st3) \<le> n"
          using behind_child(3) [OF f' True length_purge [of "{b}" post]] inner.prems(3) by (simp add: l3(2) l s)
        moreover have "length (purge {b} post) < length suf" using length_purge [of "{b}" post] by (simp add: s)
        ultimately have "\<exists>st'. unvia_loop w (list_head (purge {b} post)) st3 = Some st' \<and> pruned w pre (purge {b} post) st3 st'"
          using l3 inner.prems(4) by (intro inner.hyps) simp_all
        then obtain st' where st': "unvia_loop w (list_head (purge {b} post)) st3 = Some st'" "pruned w pre (purge {b} post) st3 st'"
          by blast
        have run: "unvia_loop w (Some b) st = Some st'"
        proof -
          have "next_node b (tandbot st2) = Some (list_head (purge {b} post))" using next_node_mid [OF pb] l2(2) by simp
          moreover have "tand_at st2 b = Some t" using tand_at_mid [of Map.empty pre b t "purge {b} post"] l2 by (simp add: bots_ok_eq)
          ultimately show ?thesis using t True st2(1) st3(1) st'(1)
            by (subst unvia_loop.simps) (simp add: st3_def flip: st1_def)
        qed
        have p: "pruned w pre suf st st'"
        proof -
          have "purge {w} suf = purge {w} (purge {b} post)" "set (cut_off {w} suf) = insert (b, t) (set (cut_off {b} post) \<union> set (cut_off {w} (purge {b} post)))"
            using True purge_purge [of "{w}" "{b}" post] cut_off_purge [of "{w}" "{b}" post] by (auto simp: s insert_commute)
          moreover have "mset (party st1) = filter_mset (\<lambda>p. \<not> on_bot (t_bot t) p) (mset (party st))"
            by (simp add: st1_def rempartybot)
          ultimately show ?thesis using st'(2) l3 p2
            by (simp add: pruned_def filter_filter_mset ball_Un)
        qed
        show ?thesis using run p hd by simp
      qed
    qed
  qed
qed

text \<open>The whole of \<open>unvia\<close>, and \<open>rembot\<close> of the node itself behind it.\<close>

lemma unvia_pruned:
  assumes ok: "bots_ok st" and w: "(w, t) \<in> set (tandbot st)"
  shows "\<exists>st'. unvia (Some w) st = Some st' \<and> bots_ok st' \<and> tandbot st' = purge {w} (tandbot st) \<and>
    botnetnick st' = botnetnick st \<and> (w, t) \<in> set (tandbot st') \<and>
    mset (party st') = filter_mset (\<lambda>p. \<forall>x \<in> insert (w, t) (set (cut_off {w} (tandbot st))).
       \<not> on_bot (t_bot (snd x)) p) (mset (party st))"
proof -
  have f: "forest Map.empty (tandbot st)" using ok by (simp add: bots_ok_eq)
  have t: "tand_at st w = Some t" using tand_at_iff [OF f] w by simp
  let ?st = "rempartybot (t_bot t) st"
  obtain st' where st': "unvia_loop w (list_head (tandbot st)) ?st = Some st'" "pruned w [] (tandbot st) ?st st'"
    using unvia_loop_pruned [of ?st "[]" "tandbot st" w "behind w (tandbot st)"] ok by auto
  have "(w, t) \<in> set (purge {w} (tandbot st))"
  proof -
    obtain pre post where l: "tandbot st = pre @ (w, t) # post" using split_list [OF w] by blast
    have "\<forall>x \<in> set (pre @ [(w, t)]). t_uplink (snd x) \<noteq> Up w"
      using forest_before f unfolding l by blast
    then have "\<forall>x \<in> set (pre @ [(w, t)]). t_uplink (snd x) \<notin> Up ` {w}" by auto
    then show ?thesis using purge_keep [of "pre @ [(w, t)]" "{w}" post] by (simp add: l)
  qed
  then show ?thesis using st' t
    by (auto simp: unvia_def pruned_def rempartybot filter_filter_mset)
qed

definition hangs_on :: "botnet \<Rightarrow> nat \<Rightarrow> (nat \<times> tand_t) set" where
  "hangs_on st w = set (cut_off {w} (tandbot st)) \<union> {x \<in> set (tandbot st). fst x = w}"

text \<open>A bot leaves with everything that hangs on it.\<close>

lemma unvia_rembot:
  assumes ok: "bots_ok st" and w: "(w, t) \<in> set (tandbot st)"
    and who: "cstring who" "istr_canon who = istr_canon (t_bot t)"
  shows "\<exists>st1 st2. unvia (Some w) st = Some st1 \<and> rembot who st1 = Some st2 \<and> bots_ok st2 \<and>
    tandbot st2 = (if op_strcasecmp (t_bot t) who = 0
      then filter (\<lambda>x. fst x \<noteq> w) (purge {w} (tandbot st)) else purge {w} (tandbot st)) \<and>
    botnetnick st2 = botnetnick st \<and>
    mset (party st2) = filter_mset (\<lambda>p. \<forall>x \<in> hangs_on st w. \<not> on_bot (t_bot (snd x)) p) (mset (party st))"
proof -
  obtain st1 where st1: "unvia (Some w) st = Some st1" "bots_ok st1" "tandbot st1 = purge {w} (tandbot st)"
      "botnetnick st1 = botnetnick st" "(w, t) \<in> set (tandbot st1)"
      "mset (party st1) = filter_mset (\<lambda>p. \<forall>x \<in> insert (w, t) (set (cut_off {w} (tandbot st))).
         \<not> on_bot (t_bot (snd x)) p) (mset (party st))"
    using unvia_pruned [OF ok w] by blast
  have "{x \<in> set (tandbot st). fst x = w} = {(w, t)}"
    using w ok forest_fresh [of Map.empty "tandbot st"] by (auto simp: bots_ok_eq dest: eq_key_imp_eq_value)
  then have h: "hangs_on st w = insert (w, t) (set (cut_off {w} (tandbot st)))" by (auto simp: hangs_on_def)
  obtain pre post where l: "tandbot st1 = pre @ (w, t) # post" using split_list [OF st1(5)] by blast
  have leaf: "\<forall>x \<in> set post. t_uplink (snd x) \<noteq> Up w"
  proof
    fix x assume "x \<in> set post"
    then have "x \<in> set (purge {w} (tandbot st))" using l unfolding st1(3) by simp
    then show "t_uplink (snd x) \<noteq> Up w" by (rule purge_uplink) simp
  qed
  show ?thesis
  proof (cases "op_strcasecmp (t_bot t) who = 0")
    case True
    have f: "filter (\<lambda>x. fst x \<noteq> w) (tandbot st1) = pre @ post"
    proof -
      have "distinct (map fst (pre @ (w, t) # post))"
        using st1(2) forest_fresh [of Map.empty "tandbot st1"] unfolding l bots_ok_eq by simp
      then have "\<forall>x \<in> set (pre @ post). fst x \<noteq> w" by force
      then show ?thesis by (simp add: l filter_id_conv)
    qed
    obtain tab where "rembot who st1 = Some (st1\<lparr>tandbot := pre @ post, bot_table := tab, tands := tands st1 - 1\<rparr>)"
       "bots_ok (st1\<lparr>tandbot := pre @ post, bot_table := tab, tands := tands st1 - 1\<rparr>)"
      using rembot_leaf [OF st1(2) l leaf who(1) True] by blast
    then show ?thesis using True st1 f by (simp add: h)
  next
    case False
    have "op_strcasecmp (t_bot (snd x)) who \<noteq> 0" if x: "x \<in> set (tandbot st1)" for x
    proof
      assume eq: "op_strcasecmp (t_bot (snd x)) who = 0"
      have "cstring (t_bot (snd x))" using x st1(2) by (simp add: bots_ok_eq name_ok_def)
      then have "canon_of x = canon_of (w, t)" using ascii_eq_canon eq who by simp
      moreover have "inj_on canon_of (set (tandbot st1))" using st1(2) by (simp add: bots_ok_eq distinct_map)
      ultimately have "x = (w, t)" using x st1(5) by (meson inj_onD)
      then show False using eq False by simp
    qed
    then have "rembot who st1 = Some st1" by (intro rembot_other) simp
    then show ?thesis using False st1 by (simp add: h)
  qed
qed

end
