(* ===== verification/BotnetLinks.thy ===== *)
theory BotnetLinks
  imports BotnetInv
begin

text \<open>
  The handlers that link and unlink bots keep the forest and the index of \<open>BotnetInv\<close>, always
  return, and remove exactly what they announce; the party line has one entry for each socket of a bot.
\<close>

section \<open>Counting\<close>

lemma subtree_induct:
  assumes "tb = pre @ suf"
    and "\<And>w pre suf. tb = pre @ suf \<Longrightarrow> (\<And>b. behind b tb < behind w tb \<Longrightarrow> P b tb) \<Longrightarrow>
      (\<And>pre' suf'. tb = pre' @ suf' \<Longrightarrow> length suf' < length suf \<Longrightarrow> P w suf') \<Longrightarrow> P w suf"
  shows "P w suf"
  using assms(1)
proof (induction "behind w tb" arbitrary: w pre suf rule: less_induct)
  case outer: less
  show ?case using outer.prems
  proof (induction "length suf" arbitrary: pre suf rule: less_induct)
    case inner: less
    show ?case
    proof (rule assms(2) [OF inner.prems])
      show "P b tb" if "behind b tb < behind w tb" for b using outer.hyps [OF that, of "[]" tb] by simp
      show "P w suf'" if "tb = pre' @ suf'" "length suf' < length suf" for pre' suf' by (rule inner.hyps [OF that(2,1)])
    qed
  qed
qed

text \<open>The node \<open>b\<close> that hangs on \<open>w\<close>, and what else does.\<close>

lemma cut_off_child:
  assumes "forest Map.empty (pre @ (b, t) # post)" "t_uplink t = Up w"
  shows "cut_off {b} (pre @ (b, t) # post) = cut_off {b} post"
    "(\<Sum>x \<leftarrow> cut_off {w} ((b, t) # post). f x) =
      f (b, t) + (\<Sum>x \<leftarrow> cut_off {b} post. f x) + (\<Sum>x \<leftarrow> cut_off {w} post. (f x :: nat))"
proof -
  have "\<forall>x \<in> set (pre @ [(b, t)]). t_uplink (snd x) \<noteq> Up b" using forest_before assms(1) by blast
  then have "\<forall>x \<in> set (pre @ [(b, t)]). t_uplink (snd x) \<notin> Up ` {b}" by auto
  then show "cut_off {b} (pre @ (b, t) # post) = cut_off {b} post"
    using purge_keep [of "pre @ [(b, t)]" "{b}" post] by simp
  have d: "distinct (map fst (pre @ (b, t) # post))" using forest_fresh [OF assms(1)] by (rule conjunct2)
  have w: "w \<in> nodes pre" using behind_child(1) [OF assms] .
  have "b \<noteq> w" "nodes post \<inter> {b, w} = {}" using d w by auto
  then have "(\<Sum>x \<leftarrow> cut_off ({b} \<union> {w}) post. f x) = (\<Sum>x \<leftarrow> cut_off {b} post. f x) + (\<Sum>x \<leftarrow> cut_off {w} post. f x)"
    using d by (intro cut_off_sum) auto
  then show "(\<Sum>x \<leftarrow> cut_off {w} ((b, t) # post). f x) =
      f (b, t) + (\<Sum>x \<leftarrow> cut_off {b} post. f x) + (\<Sum>x \<leftarrow> cut_off {w} post. f x)"
    using assms(2) by (simp add: insert_is_Un [of b "{w}"])
qed

lemma bots_loop:
  assumes f: "forest Map.empty tb" and ne: "\<forall>x \<in> set tb. t_bot (snd x) \<noteq> []" and "tb = pre @ suf"
  shows "bots_loop tb w suf = Some (length (cut_off {w} suf))"
  using assms(3)
proof (rule subtree_induct [where P = "\<lambda>w suf. bots_loop tb w suf = Some (length (cut_off {w} suf))"])
  fix w pre suf
  assume l: "tb = pre @ suf"
    and child: "\<And>b. behind b tb < behind w tb \<Longrightarrow> bots_loop tb b tb = Some (length (cut_off {b} tb))"
    and rest: "\<And>pre' suf'. tb = pre' @ suf' \<Longrightarrow> length suf' < length suf \<Longrightarrow>
        bots_loop tb w suf' = Some (length (cut_off {w} suf'))"
  show "bots_loop tb w suf = Some (length (cut_off {w} suf))"
  proof (cases suf)
    case Nil
    then show ?thesis by (subst bots_loop.simps) simp
  next
    case (Cons x post)
    obtain b t where s: "suf = (b, t) # post" using Cons by (cases x) auto
    have post: "bots_loop tb w post = Some (length (cut_off {w} post))"
      using rest [of "pre @ [(b, t)]" post] l by (simp add: s)
    show ?thesis
    proof (cases "t_uplink t = Up w")
      case True
      have f': "forest Map.empty (pre @ (b, t) # post)" using f by (simp add: l s)
      note c = cut_off_child [OF f' True]
      have "bots_loop tb b tb = Some (length (cut_off {b} post))"
        using child [of b] behind_child(2) [OF f' True] c(1) by (simp add: l s)
      then show ?thesis using post True ne c(2) [of "\<lambda>_. 1"]
        by (subst bots_loop.simps) (simp add: l s sum_list_triv)
    next
      case False
      then have "t_uplink t \<notin> Up ` {w}" by auto
      then show ?thesis using post False by (subst bots_loop.simps) (simp add: s)
    qed
  qed
qed

lemma users_loop:
  assumes f: "forest Map.empty (tandbot st)" and ne: "\<forall>x \<in> set (tandbot st). t_bot (snd x) \<noteq> []"
    and "tandbot st = pre @ suf"
  shows "users_loop st w suf = Some (\<Sum>x \<leftarrow> cut_off {w} suf. users_on st (t_bot (snd x)))"
  using assms(3)
proof (rule subtree_induct [where P = "\<lambda>w suf. users_loop st w suf = Some (\<Sum>x \<leftarrow> cut_off {w} suf. users_on st (t_bot (snd x)))"])
  fix w pre suf
  let ?f = "\<lambda>x. users_on st (t_bot (snd x))"
  assume l: "tandbot st = pre @ suf"
    and child: "\<And>b. behind b (tandbot st) < behind w (tandbot st) \<Longrightarrow>
        users_loop st b (tandbot st) = Some (\<Sum>x \<leftarrow> cut_off {b} (tandbot st). ?f x)"
    and rest: "\<And>pre' suf'. tandbot st = pre' @ suf' \<Longrightarrow> length suf' < length suf \<Longrightarrow>
        users_loop st w suf' = Some (\<Sum>x \<leftarrow> cut_off {w} suf'. ?f x)"
  show "users_loop st w suf = Some (\<Sum>x \<leftarrow> cut_off {w} suf. ?f x)"
  proof (cases suf)
    case Nil
    then show ?thesis by (subst users_loop.simps) simp
  next
    case (Cons x post)
    obtain b t where s: "suf = (b, t) # post" using Cons by (cases x) auto
    have post: "users_loop st w post = Some (\<Sum>x \<leftarrow> cut_off {w} post. ?f x)"
      using rest [of "pre @ [(b, t)]" post] l by (simp add: s)
    show ?thesis
    proof (cases "t_uplink t = Up w")
      case True
      have f': "forest Map.empty (pre @ (b, t) # post)" using f by (simp add: l s)
      note c = cut_off_child [OF f' True]
      have "users_loop st b (tandbot st) = Some (\<Sum>x \<leftarrow> cut_off {b} post. ?f x)"
        using child [of b] behind_child(2) [OF f' True] c(1) by (simp add: l s)
      then show ?thesis using post True ne c(2) [of ?f]
        by (subst users_loop.simps) (simp add: l s)
    next
      case False
      then have "t_uplink t \<notin> Up ` {w}" by auto
      then show ?thesis using post False by (subst users_loop.simps) (simp add: s)
    qed
  qed
qed

section \<open>The routes\<close>

lemma vias_at:
  assumes "forest m l" "(a, t) \<in> set l"
  shows "vias m l a = t_via t"
proof -
  obtain pre post where l: "l = pre @ (a, t) # post" using split_list [OF assms(2)] by blast
  have "vias m' xs a = m' a" if "a \<notin> nodes xs" for m' xs using that by (induction xs arbitrary: m') auto
  moreover have "a \<notin> nodes post" using forest_fresh [OF assms(1)] unfolding l by simp
  ultimately show ?thesis by (simp add: l vias_append)
qed

lemma vias_root:
  assumes "forest m l" "\<forall>a v. m a = Some v \<longrightarrow> m v = Some v" "vias m l a = Some v"
  shows "vias m l v = Some v"
  using assms
proof (induction l arbitrary: m)
  case (Cons x l)
  obtain b t where x: "x = (b, t)" by (cases x)
  obtain u where u: "t_via t = Some u" "b \<notin> dom m" "forest (m(b \<mapsto> u)) l"
    using Cons.prems(1) unfolding x by (rule forest_Cons)
  have "\<forall>a v. (m(b \<mapsto> u)) a = Some v \<longrightarrow> (m(b \<mapsto> u)) v = Some v"
    using Cons.prems(1,2) u by (auto simp: x split: uplink.splits)
  moreover have "vias (m(b \<mapsto> u)) l a = Some v" using Cons.prems(3) u(1) by (simp add: x)
  ultimately have "vias (m(b \<mapsto> u)) l v = Some v" by (rule Cons.IH [OF u(3)])
  then show ?case using u(1) by (simp add: x)
qed simp

text \<open>The \<open>via\<close> of every node is a direct link that is still in the list.\<close>

lemma via_root:
  assumes "forest Map.empty l" "(a, t) \<in> set l"
  obtains v vt where "t_via t = Some v" "(v, vt) \<in> set l" "t_via vt = Some v"
proof -
  have "a \<in> dom (vias Map.empty l)" using dom_vias [OF assms(1)] assms(2) by force
  then obtain v where v: "vias Map.empty l a = Some v" by blast
  then have r: "vias Map.empty l v = Some v" using vias_root [OF assms(1)] by simp
  then have "v \<in> nodes l" using dom_vias [OF assms(1)] by blast
  then obtain vt where "(v, vt) \<in> set l" by auto
  then show thesis using that vias_at [OF assms(1)] v r assms(2) by metis
qed

lemma nextbot_loop_range: "j \<le> nextbot_loop name j ds \<or> nextbot_loop name j ds = - 1"
  by (induction name j ds rule: nextbot_loop.induct) auto

lemma nextbot_loop_hit:
  "nextbot_loop name j ds = i \<Longrightarrow> 0 \<le> j \<Longrightarrow> 0 \<le> i \<Longrightarrow>
   j \<le> i \<and> nat (i - j) < length ds \<and> op_strcasecmp name (d_nick (ds ! nat (i - j))) = 0 \<and> d_type (ds ! nat (i - j)) = DCC_BOT"
proof (induction name j ds rule: nextbot_loop.induct)
  case (2 name j d ds)
  show ?case
  proof (cases "op_strcasecmp name (d_nick d) = 0 \<and> d_type d = DCC_BOT")
    case True
    then show ?thesis using "2.prems" by simp
  next
    case False
    then have n: "nextbot_loop name (j + 1) ds = i" using "2.prems"(1) by (simp only: nextbot_loop.simps if_False)
    then have h: "j + 1 \<le> i \<and> nat (i - (j + 1)) < length ds \<and>
        op_strcasecmp name (d_nick (ds ! nat (i - (j + 1)))) = 0 \<and> d_type (ds ! nat (i - (j + 1))) = DCC_BOT"
      using "2.IH" [OF False] "2.prems"(2,3) by simp
    moreover have "nat (i - j) = Suc (nat (i - (j + 1)))" using h by linarith
    ultimately show ?thesis by simp
  qed
qed simp

lemma nextbot_total:
  assumes "bots_ok st"
  shows "\<exists>j \<ge> - 1. nextbot dcc st who = Some j"
proof (cases "findbot st who")
  case None
  then show ?thesis by (simp add: nextbot_def)
next
  case (Some a)
  have f: "forest Map.empty (tandbot st)" using assms by (simp add: bots_ok_eq)
  obtain t where t: "(a, t) \<in> set (tandbot st)" using Some findbot_Some [OF assms] by blast
  obtain v vt where v: "t_via t = Some v" "(v, vt) \<in> set (tandbot st)" using via_root [OF f t] by blast
  have "tand_at st a = Some t" "tand_at st v = Some vt" using tand_at_iff [OF f] t v by blast+
  moreover have "- 1 \<le> nextbot_loop (t_bot vt) 0 dcc" using nextbot_loop_range [of 0 "t_bot vt" dcc] by auto
  ultimately show ?thesis using Some v(1) by (simp add: nextbot_def)
qed

text \<open>What \<open>nextbot\<close> finds.\<close>

lemma nextbot_hit:
  assumes ok: "bots_ok st" and hit: "nextbot dcc st who = Some i" "0 \<le> i"
  obtains a t v vt where "findbot st who = Some a" "(a, t) \<in> set (tandbot st)"
    "istr_canon (t_bot t) = istr_canon who" "t_via t = Some v" "(v, vt) \<in> set (tandbot st)"
    "nextbot_loop (t_bot vt) 0 dcc = i" "nat i < length dcc"
    "op_strcasecmp (t_bot vt) (d_nick (dcc ! nat i)) = 0" "d_type (dcc ! nat i) = DCC_BOT"
proof -
  have f: "forest Map.empty (tandbot st)" using ok by (simp add: bots_ok_eq)
  obtain a where a: "findbot st who = Some a" using hit by (cases "findbot st who") (auto simp: nextbot_def)
  obtain t where t: "(a, t) \<in> set (tandbot st)" "istr_canon (t_bot t) = istr_canon who"
    using a findbot_Some [OF ok] by blast
  obtain v vt where v: "t_via t = Some v" "(v, vt) \<in> set (tandbot st)" using via_root [OF f t(1)] by blast
  have m: "tand_at st a = Some t" "tand_at st v = Some vt" using tand_at_iff [OF f] t v by blast+
  have "nextbot_loop (t_bot vt) 0 dcc = i" using a m v(1) hit by (simp add: nextbot_def split: if_splits)
  then show thesis using that [OF a t v] nextbot_loop_hit [of "t_bot vt" 0 dcc i] hit(2) by simp
qed

section \<open>Linking\<close>

lemma index_of_snoc:
  assumes "canon_of x \<notin> canon_of ` set l"
  shows "index_of (l @ [x]) = (index_of l)(canon_of x \<mapsto> Some (fst x))"
proof
  fix k
  have "index_of (l @ [x]) k =
      (case index_of l k of None \<Rightarrow> if k = canon_of x then Some (Some (fst x)) else None | Some v \<Rightarrow> Some v)"
    by (simp add: index_of_def map_add_def split: option.splits)
  then show "index_of (l @ [x]) k = ((index_of l)(canon_of x \<mapsto> Some (fst x))) k"
    using index_of_None [of l k] assms by (cases "k = canon_of x") (simp_all split: option.splits)
qed

text \<open>
  What \<open>addbot\<close> needs: an unused node and name, and either a direct link, or an \<open>uplink\<close> in the list
  whose \<open>via\<close> is the bot the news came from.
\<close>

lemma addbot_ok:
  assumes ok: "bots_ok st" and p: "p \<notin> nodes (tandbot st)" and n: "length (tandbot st) < 2 ^ 60"
    and hop: "cstring hop"
    and name: "name_ok (botnetnick st) who" "istr_canon who \<notin> canon_of ` set (tandbot st)"
    and up: "op_strcasecmp hop (botnetnick st) = 0 \<and> from_bot = who \<and> up = Me \<and> v = p \<or>
      (\<exists>u t. (u, t) \<in> set (tandbot st) \<and> istr_canon (t_bot t) = istr_canon hop \<and> up = Up u \<and>
         t_via t = Some v \<and> findbot st from_bot = Some v)"
  shows "\<exists>st' t. addbot p who from_bot hop flag vernum ssl st = Some st' \<and> bots_ok st' \<and>
    tandbot st' = tandbot st @ [(p, t)] \<and> t_bot t = who \<and> t_uplink t = up \<and> t_via t = Some v \<and>
    t_ver t = vernum \<and> t_share t = flag \<and> party st' = party st \<and> botnetnick st' = botnetnick st"
proof -
  let ?l = "tandbot st" and ?c = "istr_canon who"
  have f: "forest Map.empty ?l" using ok by (simp add: bots_ok_eq)
  have tr: "op_strlcpy [] who 33 = who" using name(1) by (simp add: name_ok_def)
  obtain tab rc where tab: "op_htab_set (bot_table st) who (Some p) = Some (tab, rc, istr_keys.val_at (bot_table st) who)"
      "istr_tab tab" "ht_map istr_canon tab = (index_of ?l)(?c \<mapsto> Some p)"
      "rc = (if index_of ?l ?c = None then 1 else 0)" "int (ht_count tab) = int (length ?l) + rc"
    using istr_keys.set [of "bot_table st" who "Some p"] ok n by (auto simp: bots_ok_eq istr_tab_def)
  have rc: "ht_count tab = length ?l + 1" using tab(4,5) name(2) index_of_None [of ?l ?c] by simp
  let ?st = "st\<lparr>bot_table := tab\<rparr>"
  have find: "findbot ?st k = (if istr_canon k = ?c then Some p else findbot st k)" for k
    using istr_keys.get [of tab k] istr_keys.get [of "bot_table st" k] tab(2,3) ok
    by (simp add: findbot_def bots_ok_eq istr_tab_def)
  define t where "t = \<lparr>t_bot = who, t_via = findbot ?st from_bot,
      t_uplink = (if op_strcasecmp hop (botnetnick st) = 0 then Me
                  else case findbot ?st hop of None \<Rightarrow> Nobody | Some b \<Rightarrow> Up b),
      t_ver = vernum, t_share = flag, t_ssl = ssl\<rparr>"
  have run: "addbot p who from_bot hop flag vernum ssl st = Some (?st\<lparr>tandbot := ?l @ [(p, t)], tands := tands st + 1\<rparr>)"
    using tab(1) by (simp add: addbot_def tr t_def Let_def)
  have t: "t_uplink t = up \<and> t_via t = Some v \<and> forest (vias Map.empty ?l) [(p, t)]"
    using up
  proof
    assume "op_strcasecmp hop (botnetnick st) = 0 \<and> from_bot = who \<and> up = Me \<and> v = p"
    then show ?thesis using find [of who] p dom_vias [OF f] by (auto simp: t_def)
  next
    assume "\<exists>u s. (u, s) \<in> set ?l \<and> istr_canon (t_bot s) = istr_canon hop \<and> up = Up u \<and>
         t_via s = Some v \<and> findbot st from_bot = Some v"
    then obtain u s where u: "(u, s) \<in> set ?l" "istr_canon (t_bot s) = istr_canon hop" "up = Up u"
      "t_via s = Some v" "findbot st from_bot = Some v" by blast
    have fu: "findbot st hop = Some u" using findbot_Some [OF ok] u(1,2) by blast
    have ne: "istr_canon hop \<noteq> ?c" using name(2) u(1,2) by force
    obtain vt where "(v, vt) \<in> set ?l" "istr_canon (t_bot vt) = istr_canon from_bot"
      using u(5) findbot_Some [OF ok] by blast
    then have ne2: "istr_canon from_bot \<noteq> ?c" using name(2) by force
    have "op_strcasecmp hop (botnetnick st) \<noteq> 0"
    proof
      assume e: "op_strcasecmp hop (botnetnick st) = 0"
      have us: "name_ok (botnetnick st) (t_bot s)" "cstring (botnetnick st)"
        using ok u(1) by (auto simp: bots_ok_eq)
      have "istr_canon hop = istr_canon (botnetnick st)" using ascii_eq_canon hop us(2) e by blast
      then show False using us(1) u(2) by (simp add: name_ok_def)
    qed
    moreover have "u \<in> dom (vias Map.empty ?l)" using dom_vias [OF f] u(1) by force
    moreover have "vias Map.empty ?l u = Some v" using vias_at [OF f u(1)] u(4) by simp
    moreover have "p \<notin> dom (vias Map.empty ?l)" using dom_vias [OF f] p by simp
    ultimately show ?thesis using find [of hop] find [of from_bot] fu ne ne2 u(3,5) by (simp add: t_def)
  qed
  have "forest Map.empty (?l @ [(p, t)])" using f t by (simp only: forest_append)
  moreover have "index_of (?l @ [(p, t)]) = (index_of ?l)(?c \<mapsto> Some p)"
    using index_of_snoc [of "(p, t)" ?l] name(2) by (simp add: t_def)
  ultimately have "bots_ok (?st\<lparr>tandbot := ?l @ [(p, t)], tands := tands st + 1\<rparr>)"
    using ok tab(2,3) rc name by (auto simp: bots_ok_eq t_def)
  then show ?thesis using run t by (auto simp: t_def)
qed

section \<open>Losing a link\<close>

lemma free_dcc_bot_ok:
  assumes ok: "bots_ok st" and d: "cstring (d_nick d)"
  shows "\<exists>st'. free_dcc_bot d st = Some st' \<and> bots_ok st' \<and> botnetnick st' = botnetnick st \<and>
    nodes (tandbot st') \<subseteq> nodes (tandbot st) \<and> mset (party st') \<subseteq># mset (party st)"
proof (cases "d_type d = DCC_BOT")
  case bot: True
  show ?thesis
  proof (cases "findbot st (d_nick d)")
    case None
    have "op_strcasecmp (t_bot (snd x)) (d_nick d) \<noteq> 0" if x: "x \<in> set (tandbot st)" for x
    proof
      assume e: "op_strcasecmp (t_bot (snd x)) (d_nick d) = 0"
      have "cstring (t_bot (snd x))" using ok x by (simp add: bots_ok_eq name_ok_def)
      then have "canon_of x = istr_canon (d_nick d)" using ascii_eq_canon d e by blast
      then show False using None findbot_None [OF ok] x by (metis image_eqI)
    qed
    then show ?thesis using None ok by (simp add: free_dcc_bot_def unvia_def rembot_other)
  next
    case (Some w)
    then obtain t where w: "(w, t) \<in> set (tandbot st)" "istr_canon (t_bot t) = istr_canon (d_nick d)"
      using findbot_Some [OF ok] by blast
    obtain st1 st2 where st2: "unvia (Some w) st = Some st1" "rembot (d_nick d) st1 = Some st2" "bots_ok st2"
        "tandbot st2 = (if op_strcasecmp (t_bot t) (d_nick d) = 0
          then filter (\<lambda>x. fst x \<noteq> w) (purge {w} (tandbot st)) else purge {w} (tandbot st))"
        "botnetnick st2 = botnetnick st"
        "mset (party st2) = filter_mset (\<lambda>p. \<forall>x \<in> hangs_on st w. \<not> on_bot (t_bot (snd x)) p) (mset (party st))"
      using unvia_rembot [OF ok w(1) d w(2) [symmetric]] by blast
    have "set (tandbot st2) \<subseteq> set (tandbot st)" using st2(4) purge_subset [of "{w}" "tandbot st"] by auto
    then have "nodes (tandbot st2) \<subseteq> nodes (tandbot st)" by (rule image_mono)
    then show ?thesis using Some bot st2 by (simp add: free_dcc_bot_def multiset_filter_subset)
  qed
next
  case False
  then show ?thesis using ok by (simp add: free_dcc_bot_def)
qed

abbreviation dcc_ok :: "dcc_t list \<Rightarrow> bool" where "dcc_ok dcc \<equiv> \<forall>d \<in> set dcc. cstring (d_nick d)"

lemma lostdcc_ok:
  assumes "bots_ok st" "dcc_ok dcc"
  shows "\<exists>dcc' st'. lostdcc n dcc st = Some (dcc', st') \<and> bots_ok st' \<and> dcc_ok dcc' \<and>
    botnetnick st' = botnetnick st \<and> nodes (tandbot st') \<subseteq> nodes (tandbot st) \<and> mset (party st') \<subseteq># mset (party st)"
proof (cases "n < length dcc")
  case True
  then have "cstring (d_nick (dcc ! n))" using assms(2) by simp
  then obtain st' where "free_dcc_bot (dcc ! n) st = Some st'" "bots_ok st'" "botnetnick st' = botnetnick st"
      "nodes (tandbot st') \<subseteq> nodes (tandbot st)" "mset (party st') \<subseteq># mset (party st)"
    using free_dcc_bot_ok [OF assms(1)] by blast
  then show ?thesis using True assms(2) by (auto simp: lostdcc_def dest!: set_update_subset_insert [THEN subsetD])
next
  case False
  then show ?thesis using assms by (simp add: lostdcc_def)
qed

section \<open>What the handlers do\<close>

lemma newsplit_cstring:
  assumes "cstring l"
  shows "cstring (fst (newsplit l)) \<and> cstring (snd (newsplit l))"
proof -
  have d: "set (dropWhile P x) \<subseteq> set x" "set (takeWhile P x) \<subseteq> set x" for P and x :: string
    by (auto dest: set_dropWhileD set_takeWhileD)
  moreover have "set (tl x) \<subseteq> set x" for x :: string by (cases x) auto
  ultimately have "set (fst (newsplit l)) \<subseteq> set l" "set (snd (newsplit l)) \<subseteq> set l"
    unfolding newsplit_eq [OF assms] fst_conv snd_conv by (meson order_trans)+
  then show ?thesis using assms by (auto simp: cstring_def)
qed

lemma newsplit_first:
  assumes "cstring par" "fst (newsplit (snd (newsplit par))) \<noteq> []"
  shows "fst (newsplit par) \<noteq> []"
proof
  let ?sp = "\<lambda>c. c = CHR '' ''" and ?w = "\<lambda>c. c \<noteq> CHR '' ''"
  assume "fst (newsplit par) = []"
  then have e: "takeWhile ?w (dropWhile ?sp par) = []" using newsplit_eq [OF assms(1)] by simp
  have "dropWhile ?sp par = []"
    using e hd_dropWhile [of ?sp par] by (cases "dropWhile ?sp par") (auto split: if_splits)
  then have "snd (newsplit par) = []" using newsplit_eq [OF assms(1)] by (simp del: dropWhile_eq_Nil_conv)
  then show False using assms(2) newsplit_eq [of "[]"] by simp
qed

lemma lastbot_total:
  assumes "bots_ok st"
  shows "\<exists>s. lastbot st who = Some s"
proof (cases "findbot st who")
  case None
  then show ?thesis by (simp add: lastbot_def)
next
  case (Some a)
  have f: "forest Map.empty (tandbot st)" using assms by (simp add: bots_ok_eq)
  obtain t where t: "(a, t) \<in> set (tandbot st)" using Some findbot_Some [OF assms] by blast
  then have m: "tand_at st a = Some t" using tand_at_iff [OF f] by blast
  obtain pre post where l: "tandbot st = pre @ (a, t) # post" using split_list [OF t] by blast
  have n: "t_uplink t \<noteq> Nobody" using f unfolding l forest_append by auto
  show ?thesis
  proof (cases "t_uplink t")
    case (Up u)
    then have "u \<in> nodes (tandbot st)" using forest_uplink [OF f t] by simp
    then obtain ut where "tand_at st u = Some ut" using tand_at_iff [OF f] by auto
    then show ?thesis using Some m Up by (simp add: lastbot_def)
  qed (use Some m n in \<open>simp_all add: lastbot_def\<close>)
qed

definition nlinked_fits :: "nat \<Rightarrow> string \<Rightarrow> dcc_t list \<Rightarrow> botnet \<Rightarrow> bool" where
  "nlinked_fits idx par dcc st \<longleftrightarrow>
     (let (name, par) = newsplit par; (hop, par) = newsplit par in
      hop \<noteq> [] \<and> \<not> in_chain st name \<and> \<not> bogus_name name \<and> nextbot dcc st hop = Some (int idx) \<and>
      \<not> d_leaf (dcc ! idx))"

lemma bot_nlinked_ok:
  assumes ok: "bots_ok st" and dcc: "dcc_ok dcc" and par: "cstring par" and idx: "idx < length dcc"
    and p: "p \<notin> nodes (tandbot st)" and n: "length (tandbot st) < 2 ^ 60"
    and me: "istr_canon (fst (newsplit par)) = istr_canon (botnetnick st) \<Longrightarrow>
      op_strcasecmp (fst (newsplit par)) (botnetnick st) = 0"
  shows "\<exists>r dcc' st'. bot_nlinked p idx par dcc st = Some (r, dcc', st') \<and> bots_ok st' \<and> dcc_ok dcc' \<and>
    (r = Linked \<longleftrightarrow> nlinked_fits idx par dcc st) \<and>
    (if r = Linked
     then dcc' = dcc \<and> (\<exists>t. tandbot st' = tandbot st @ [(p, t)] \<and> t_bot t = fst (newsplit par) \<and>
         (\<exists>u. findbot st (fst (newsplit (snd (newsplit par)))) = Some u \<and> t_uplink t = Up u)) \<and>
       nextbot dcc st' (fst (newsplit par)) = Some (int idx) \<and> party st' = party st \<and> botnetnick st' = botnetnick st
     else lostdcc idx dcc st = Some (dcc', st'))"
proof -
  define name where "name = fst (newsplit par)"
  define par1 where "par1 = snd (newsplit par)"
  define hop where "hop = fst (newsplit par1)"
  define par2 where "par2 = snd (newsplit par1)"
  define x where "x = (let x = (if par2 \<noteq> [] then hd par2 else CHR ''-'') in if x = CHR ''!'' then CHR ''-'' else x)"
  have split: "newsplit par = (name, par1)" "newsplit par1 = (hop, par2)"
    by (simp_all add: name_def par1_def hop_def par2_def)
  have cs: "cstring name" "cstring hop"
    using newsplit_cstring [OF par] newsplit_cstring [of par1] by (simp_all add: split)
  define r0 where "r0 = (if hop = [] then Invalid
               else if in_chain st name \<or> op_strcasecmp name (botnetnick st) = 0 then Loop else Linked)"
  obtain j where j: "nextbot dcc st hop = Some j" using nextbot_total [OF ok] by blast
  define r where "r = (if d_leaf (dcc ! idx) then Leaf
      else if r0 = Linked then if bogus_name name \<or> j \<noteq> int idx then Bogus else Linked else r0)"
  have run: "bot_nlinked p idx par dcc st =
      (if r \<noteq> Linked then map_option (Pair r) (lostdcc idx dcc st)
       else do {
         st \<leftarrow> addbot p name (d_nick (dcc ! idx)) hop x (base64_to_int (tl par2)) (d_ssl (dcc ! idx)) st;
         Some (Linked, dcc, st) })"
    by (simp add: bot_nlinked_def split j r_def r0_def x_def Let_def)
  have fits: "r = Linked \<longleftrightarrow> nlinked_fits idx par dcc st"
    using j by (auto simp: r_def r0_def nlinked_fits_def split in_chain_def)
  show ?thesis
  proof (cases "r = Linked")
    case False
    obtain dcc' st' where "lostdcc idx dcc st = Some (dcc', st')" "bots_ok st'" "dcc_ok dcc'"
      using lostdcc_ok [OF ok dcc] by blast
    then show ?thesis using False run fits by auto
  next
    case True
    then have r0: "hop \<noteq> []" "\<not> in_chain st name" "op_strcasecmp name (botnetnick st) \<noteq> 0"
      and nb: "\<not> bogus_name name" "j = int idx"
      by (auto simp: r_def r0_def split: if_splits)
    have hit: "nextbot dcc st hop = Some (int idx)" using j nb(2) by simp
    obtain u t v vt where u: "findbot st hop = Some u" "(u, t) \<in> set (tandbot st)" "istr_canon (t_bot t) = istr_canon hop"
        "t_via t = Some v" "(v, vt) \<in> set (tandbot st)" "nextbot_loop (t_bot vt) 0 dcc = int idx"
        "op_strcasecmp (t_bot vt) (d_nick (dcc ! nat (int idx))) = 0"
      by (rule nextbot_hit [OF ok hit of_nat_0_le_iff]) (rule that)
    have "cstring (t_bot vt)" using ok u(5) by (force simp: bots_ok_eq name_ok_def)
    then have "istr_canon (t_bot vt) = istr_canon (d_nick (dcc ! idx))"
      using ascii_eq_canon [of "t_bot vt" "d_nick (dcc ! idx)"] u(7) dcc idx by simp
    then have from_bot: "findbot st (d_nick (dcc ! idx)) = Some v" using findbot_Some [OF ok] u(5) by blast
    have ne: "name \<noteq> []" using newsplit_first [OF par] r0(1) by (simp add: split)
    have nok: "name_ok (botnetnick st) name" using ne cs(1) nb(1) me r0(3) by (auto simp: name_ok_def bogus_name_def split)
    have fresh: "istr_canon name \<notin> canon_of ` set (tandbot st)"
      using r0(2) findbot_None [OF ok] by (simp add: in_chain_def)
    have "\<exists>st' nt. addbot p name (d_nick (dcc ! idx)) hop x (base64_to_int (tl par2)) (d_ssl (dcc ! idx)) st = Some st' \<and>
      bots_ok st' \<and> tandbot st' = tandbot st @ [(p, nt)] \<and> t_bot nt = name \<and> t_uplink nt = Up u \<and> t_via nt = Some v \<and>
      t_ver nt = base64_to_int (tl par2) \<and> t_share nt = x \<and> party st' = party st \<and> botnetnick st' = botnetnick st"
      using u(2-4) from_bot by (intro addbot_ok [OF ok p n cs(2) nok fresh]) blast
    then obtain st' nt where st': "addbot p name (d_nick (dcc ! idx)) hop x (base64_to_int (tl par2)) (d_ssl (dcc ! idx)) st = Some st'"
      "bots_ok st'" "tandbot st' = tandbot st @ [(p, nt)]" "t_bot nt = name" "t_via nt = Some v"
      "t_uplink nt = Up u" "party st' = party st" "botnetnick st' = botnetnick st"
      by blast
    have f': "forest Map.empty (tandbot st')" using st'(2) by (simp add: bots_ok_eq)
    have "findbot st' name = Some p" using findbot_Some [OF st'(2)] st'(3,4) by auto
    moreover have "tand_at st' p = Some nt" "tand_at st' v = Some vt"
      using tand_at_iff [OF f'] st'(3) u(5) by auto
    ultimately have "nextbot dcc st' name = Some (int idx)" using st'(5) u(6) idx by (auto simp: nextbot_def)
    then show ?thesis using True run st' dcc fits u(1) by (simp add: split)
  qed
qed

lemma bot_unlinked_ok:
  assumes ok: "bots_ok st" and par: "cstring par"
  shows "\<exists>st'. bot_unlinked idx par dcc st = Some st' \<and> bots_ok st' \<and>
    (if nextbot dcc st (fst (newsplit par)) = Some (int idx)
     then \<exists>w t. findbot st (fst (newsplit par)) = Some w \<and> (w, t) \<in> set (tandbot st) \<and>
       tandbot st' = (if op_strcasecmp (t_bot t) (fst (newsplit par)) = 0
         then filter (\<lambda>x. fst x \<noteq> w) (purge {w} (tandbot st)) else purge {w} (tandbot st)) \<and>
       mset (party st') = filter_mset (\<lambda>p. \<forall>x \<in> hangs_on st w. \<not> on_bot (t_bot (snd x)) p) (mset (party st))
     else st' = st)"
proof -
  define name where "name = fst (newsplit par)"
  define par1 where "par1 = snd (newsplit par)"
  have split: "newsplit par = (name, par1)" by (simp add: name_def par1_def)
  have cs: "cstring name" using newsplit_cstring [OF par] by (simp add: split)
  obtain j where j: "- 1 \<le> j" "nextbot dcc st name = Some j" using nextbot_total [OF ok] by blast
  show ?thesis
  proof (cases "j = int idx")
    case False
    then show ?thesis using j ok by (auto simp: bot_unlinked_def split)
  next
    case True
    obtain w t where w: "findbot st name = Some w" "(w, t) \<in> set (tandbot st)" "istr_canon (t_bot t) = istr_canon name"
      using nextbot_hit [OF ok j(2)] True of_nat_0_le_iff by blast
    obtain s where s: "lastbot st name = Some s" using lastbot_total [OF ok] by blast
    obtain st1 st2 where st: "unvia (Some w) st = Some st1" "rembot name st1 = Some st2" "bots_ok st2"
        "tandbot st2 = (if op_strcasecmp (t_bot t) name = 0
          then filter (\<lambda>x. fst x \<noteq> w) (purge {w} (tandbot st)) else purge {w} (tandbot st))"
        "mset (party st2) = filter_mset (\<lambda>p. \<forall>x \<in> hangs_on st w. \<not> on_bot (t_bot (snd x)) p) (mset (party st))"
      using unvia_rembot [OF ok w(2) cs w(3) [symmetric]] by blast
    have "bot_unlinked idx par dcc st = Some st2"
      using True j s w(1) st(1,2) by (simp add: bot_unlinked_def split)
    moreover have "nextbot dcc st (fst (newsplit par)) = Some (int idx)" using j(2) True by (simp add: split)
    ultimately show ?thesis using w(1,2) st(3-5) by (auto simp: split)
  qed
qed

section \<open>What is lost with a link\<close>

abbreviation party_key :: "party_t \<Rightarrow> string \<times> int" where
  "party_key p \<equiv> (map tolower (p_bot p), p_sock p)"

text \<open>One entry for each socket of a bot.\<close>

definition party_ok :: "party_t list \<Rightarrow> bool" where
  "party_ok ps \<longleftrightarrow> (\<forall>p \<in> set ps. cstring (p_bot p)) \<and> distinct (map party_key ps)"

lemma users_sum:
  assumes "distinct (map canon_of xs)" "\<forall>x \<in> set xs. cstring (t_bot (snd x))" "party_ok (party st)"
  shows "(\<Sum>x \<leftarrow> xs. users_on st (t_bot (snd x))) =
    length (filter (\<lambda>p. \<exists>x \<in> set xs. on_bot (t_bot (snd x)) p) (party st))"
  using assms(1,2)
proof (induction xs)
  case (Cons x xs)
  have disj: "\<not> (on_bot (t_bot (snd x)) p \<and> (\<exists>y \<in> set xs. on_bot (t_bot (snd y)) p))" if p: "p \<in> set (party st)" for p
  proof
    assume "on_bot (t_bot (snd x)) p \<and> (\<exists>y \<in> set xs. on_bot (t_bot (snd y)) p)"
    then obtain y where y: "y \<in> set xs" "on_bot (t_bot (snd x)) p" "on_bot (t_bot (snd y)) p" by blast
    have "cstring (p_bot p)" using assms(3) p by (simp add: party_ok_def)
    then have "canon_of x = canon_of y"
      using ascii_eq_canon [of "p_bot p" "t_bot (snd x)"] ascii_eq_canon [of "p_bot p" "t_bot (snd y)"] y Cons.prems(2) by auto
    then show False using Cons.prems(1) y(1) by force
  qed
  have "length (filter (\<lambda>p. A p \<or> B p) ps) = length (filter A ps) + length (filter B ps)"
    if "\<And>p. p \<in> set ps \<Longrightarrow> \<not> (A p \<and> B p)" for A B and ps :: "party_t list"
    using that by (induction ps) auto
  from this [of "party st", OF disj] show ?case using Cons.IH Cons.prems by (simp add: users_on_def)
qed simp

lemma lostdcc_count:
  assumes ok: "bots_ok st" and ps: "party_ok (party st)" and n: "n < length dcc" "d_type (dcc ! n) = DCC_BOT"
    and w: "(w, t) \<in> set (tandbot st)" "op_strcasecmp (t_bot t) (d_nick (dcc ! n)) = 0" "cstring (d_nick (dcc ! n))"
  shows "\<exists>bots users dcc' st'.
    bots_in_subtree (findbot st (d_nick (dcc ! n))) st = Some bots \<and>
    users_in_subtree (findbot st (d_nick (dcc ! n))) st = Some users \<and>
    lostdcc n dcc st = Some (dcc', st') \<and> bots_ok st' \<and>
    length (tandbot st') + bots = length (tandbot st) \<and> length (party st') + users = length (party st)"
proof -
  let ?who = "d_nick (dcc ! n)" and ?l = "tandbot st" and ?f = "\<lambda>x. users_on st (t_bot (snd x))"
  have f: "forest Map.empty ?l" and d: "distinct (map canon_of ?l)"
    and nm: "\<forall>x \<in> set ?l. t_bot (snd x) \<noteq> [] \<and> cstring (t_bot (snd x))"
    using ok by (auto simp: bots_ok_eq name_ok_def)
  have ct: "cstring (t_bot t)" using nm w(1) by force
  have c: "istr_canon (t_bot t) = istr_canon ?who" using ascii_eq_canon ct w(2,3) by blast
  then have fb: "findbot st ?who = Some w" using findbot_Some [OF ok] w(1) by blast
  have t: "tand_at st w = Some t" using tand_at_iff [OF f] w(1) by blast
  have bots: "bots_in_subtree (Some w) st = Some (1 + length (cut_off {w} ?l))"
    using bots_loop [OF f, of "[]" ?l w] nm by (simp add: bots_in_subtree_def)
  have users: "users_in_subtree (Some w) st = Some (\<Sum>x \<leftarrow> (w, t) # cut_off {w} ?l. ?f x)"
    using users_loop [OF f, of "[]" ?l w] nm t by (simp add: users_in_subtree_def)
  obtain st1 st2 where st: "unvia (Some w) st = Some st1" "rembot ?who st1 = Some st2" "bots_ok st2"
      "tandbot st2 = filter (\<lambda>x. fst x \<noteq> w) (purge {w} ?l)"
      "mset (party st2) = filter_mset (\<lambda>p. \<forall>x \<in> hangs_on st w. \<not> on_bot (t_bot (snd x)) p) (mset (party st))"
    using unvia_rembot [OF ok w(1) w(3) c [symmetric]] w(2) by auto
  have lost: "lostdcc n dcc st = Some (dcc[n := \<lparr>d_nick = [], d_type = DCC_LOST, d_leaf = False, d_ssl = 0, d_share = False\<rparr>], st2)"
    using n fb st(1,2) by (simp add: lostdcc_def free_dcc_bot_def)
  have dist: "distinct (map fst ?l)" using forest_fresh [OF f] by (rule conjunct2)
  have wp: "(w, t) \<in> set (purge {w} ?l)"
    using unvia_pruned [OF ok w(1)] st(1) by auto
  moreover have dp: "distinct (map fst (purge {w} ?l))" using distinct_purge [OF dist] .
  ultimately have "length (filter (\<lambda>x. fst x \<noteq> w) (purge {w} ?l)) + 1 = length (purge {w} ?l)"
  proof -
    assume "(w, t) \<in> set (purge {w} ?l)"
    then obtain pre post where e: "purge {w} ?l = pre @ (w, t) # post" by (meson split_list)
    have "\<forall>x \<in> set (pre @ post). fst x \<noteq> w" using dp unfolding e by force
    then show ?thesis unfolding e by (simp add: filter_id_conv)
  qed
  then have lb: "length (tandbot st2) + (1 + length (cut_off {w} ?l)) = length ?l"
    using st(4) length_purge_cut [of "{w}" ?l] by simp
  let ?xs = "(w, t) # cut_off {w} ?l"
  have "{x \<in> set ?l. fst x = w} = {(w, t)}" using w(1) dist by (auto dest: eq_key_imp_eq_value)
  then have h: "hangs_on st w = set ?xs" by (auto simp: hangs_on_def)
  have dx: "distinct (map canon_of ?xs)" using distinct_purge_cut [OF d, of "{w}"] wp by force
  have "\<forall>x \<in> set ?xs. cstring (t_bot (snd x))" using nm ct set_purge_cut [of ?l "{w}"] by auto
  then have us: "(\<Sum>x \<leftarrow> ?xs. ?f x) = length (filter (\<lambda>p. \<exists>x \<in> set ?xs. on_bot (t_bot (snd x)) p) (party st))"
    by (rule users_sum [OF dx _ ps])
  have "length (party st2) = length (filter (\<lambda>p. \<not> (\<exists>x \<in> set ?xs. on_bot (t_bot (snd x)) p)) (party st))"
    using arg_cong [OF st(5), of size] unfolding h by (simp flip: mset_filter)
  then have "length (party st2) + (\<Sum>x \<leftarrow> ?xs. ?f x) = length (party st)"
    unfolding us using sum_length_filter_compl [of "\<lambda>p. \<exists>x \<in> set ?xs. on_bot (t_bot (snd x)) p" "party st"] by linarith
  then show ?thesis using fb bots users lost st(3) lb by auto
qed

section \<open>The other handlers\<close>

lemma bot_version_ok:
  assumes ok: "bots_ok st" and dcc: "dcc_ok dcc" and idx: "idx < length dcc"
    and p: "p \<notin> nodes (tandbot st)" and n: "length (tandbot st) < 2 ^ 60"
    and nick: "d_nick (dcc ! idx) \<noteq> []" "length (d_nick (dcc ! idx)) \<le> HANDLEN"
    and me: "istr_canon (d_nick (dcc ! idx)) = istr_canon (botnetnick st) \<Longrightarrow>
      op_strcasecmp (d_nick (dcc ! idx)) (botnetnick st) = 0"
  shows "\<exists>dcc' st'. bot_version p idx numver l dcc st = Some (dcc', st') \<and> bots_ok st' \<and> dcc_ok dcc' \<and>
    mset (party st') \<subseteq># mset (party st) \<and>
    (\<not> in_chain st (d_nick (dcc ! idx)) \<and> l = int HANDLEN \<longrightarrow>
       dcc' = dcc[idx := (dcc ! idx)\<lparr>d_type := DCC_BOT\<rparr>] \<and>
       (\<exists>t. tandbot st' = tandbot st @ [(p, t)] \<and> t_bot t = d_nick (dcc ! idx) \<and> t_uplink t = Me \<and> t_via t = Some p) \<and>
       party st' = party st \<and> botnetnick st' = botnetnick st)"
proof (cases "in_chain st (d_nick (dcc ! idx)) \<or> l \<noteq> int HANDLEN")
  case True
  then show ?thesis using lostdcc_ok [OF ok dcc, of idx] by (auto simp: bot_version_def)
next
  case False
  have cn: "cstring (d_nick (dcc ! idx))" using dcc idx by simp
  have hub: "cstring (botnetnick st)" using ok by (simp add: bots_ok_eq)
  have nok: "name_ok (botnetnick st) (d_nick (dcc ! idx))"
    using False nick cn me by (auto simp: name_ok_def in_chain_def)
  have fresh: "istr_canon (d_nick (dcc ! idx)) \<notin> canon_of ` set (tandbot st)"
    using False findbot_None [OF ok] by (simp add: in_chain_def)
  obtain st' where "addbot p (d_nick (dcc ! idx)) (d_nick (dcc ! idx)) (botnetnick st) (CHR ''-'') numver (d_ssl (dcc ! idx)) st = Some st'"
      "bots_ok st' \<and> (\<exists>t. tandbot st' = tandbot st @ [(p, t)] \<and> t_bot t = d_nick (dcc ! idx) \<and> t_uplink t = Me \<and> t_via t = Some p) \<and>
       party st' = party st \<and> botnetnick st' = botnetnick st"
    using addbot_ok [OF ok p n hub nok fresh, of "d_nick (dcc ! idx)" Me p "CHR ''-''" numver "d_ssl (dcc ! idx)"]
      op_strcasecmp_refl [OF hub] by blast
  moreover have "dcc_ok (dcc[idx := (dcc ! idx)\<lparr>d_type := DCC_BOT\<rparr>])"
    using dcc cn by (auto dest!: set_update_subset_insert [THEN subsetD])
  ultimately show ?thesis using False by (simp add: bot_version_def Let_def)
qed

lemma bot_thisbot_ok:
  assumes ok: "bots_ok st" and dcc: "dcc_ok dcc" and idx: "idx < length dcc" and par: "cstring par"
  shows "\<exists>dcc' st'. bot_thisbot idx par dcc st = Some (dcc', st') \<and> bots_ok st' \<and> dcc_ok dcc' \<and>
    mset (party st') \<subseteq># mset (party st)"
proof (cases "op_strcasecmp par (d_nick (dcc ! idx)) = 0")
  case True
  have "cstring (op_strlcpy (d_nick (dcc ! idx)) par (HANDLEN + 1))"
    using par dcc idx by (intro op_strlcpy_cstring) simp_all
  then have "dcc_ok (dcc[idx := (dcc ! idx)\<lparr>d_nick := op_strlcpy (d_nick (dcc ! idx)) par (HANDLEN + 1)\<rparr>])"
    using dcc by (auto dest!: set_update_subset_insert [THEN subsetD])
  then show ?thesis using True ok by (simp add: bot_thisbot_def)
next
  case False
  have "\<exists>st1. unvia (findbot st (d_nick (dcc ! idx))) st = Some st1 \<and> bots_ok st1 \<and> mset (party st1) \<subseteq># mset (party st)"
  proof (cases "findbot st (d_nick (dcc ! idx))")
    case None
    then show ?thesis using ok by (simp add: unvia_def)
  next
    case (Some w)
    then obtain t where "(w, t) \<in> set (tandbot st)" using findbot_Some [OF ok] by blast
    then obtain st1 where "unvia (Some w) st = Some st1" "bots_ok st1"
        "mset (party st1) = filter_mset (\<lambda>p. \<forall>x \<in> insert (w, t) (set (cut_off {w} (tandbot st))).
           \<not> on_bot (t_bot (snd x)) p) (mset (party st))"
      using unvia_pruned [OF ok] by blast
    then show ?thesis using Some by (simp only: multiset_filter_subset simp_thms option.inject)
  qed
  then obtain st1 where st1: "unvia (findbot st (d_nick (dcc ! idx))) st = Some st1" "bots_ok st1" "mset (party st1) \<subseteq># mset (party st)" by blast
  obtain dcc' st' where "lostdcc idx dcc st1 = Some (dcc', st')" "bots_ok st'" "dcc_ok dcc'" "mset (party st') \<subseteq># mset (party st1)"
    using lostdcc_ok [OF st1(2) dcc, of idx] by blast
  then show ?thesis using st1 False subset_mset.order_trans by (auto simp: bot_thisbot_def)
qed

lemma forest_map:
  assumes "\<And>x. fst (g x) = fst x \<and> t_uplink (snd (g x)) = t_uplink (snd x) \<and> t_via (snd (g x)) = t_via (snd x)"
  shows "forest m (map g l) = forest m l"
proof (induction l arbitrary: m)
  case (Cons x l)
  obtain a t b s where "x = (a, t)" "g x = (b, s)" by (metis surj_pair)
  moreover have "forest (m(a := t_via t)) (map g l) = forest (m(a := t_via t)) l" by (rule Cons.IH)
  ultimately show ?case using assms [of x] by (cases "t_uplink t") simp_all
qed simp

lemma bot_update_ok:
  assumes ok: "bots_ok st"
  shows "bots_ok (bot_update par st)"
proof -
  have "bots_ok (updatebot who share vernum st)" for who share vernum
  proof (cases "findbot st who")
    case (Some p)
    define g where "g = (\<lambda>(a, t :: tand_t). (a :: nat, if a = p
            then t\<lparr>t_share := if share \<noteq> NUL then share else t_share t,
                   t_ver := if vernum \<noteq> 0 then vernum else t_ver t\<rparr> else t))"
    have g: "fst (g x) = fst x" "t_uplink (snd (g x)) = t_uplink (snd x)" "t_via (snd (g x)) = t_via (snd x)"
      "t_bot (snd (g x)) = t_bot (snd x)" for x
      by (cases x; simp add: g_def)+
    have u: "updatebot who share vernum st = st\<lparr>tandbot := map g (tandbot st)\<rparr>"
      using Some by (simp add: updatebot_def g_def)
    have "index_of (map g (tandbot st)) = index_of (tandbot st)" by (simp add: index_of_def comp_def g)
    moreover have "forest Map.empty (map g (tandbot st)) = forest Map.empty (tandbot st)" by (rule forest_map) (simp add: g)
    ultimately show ?thesis using ok by (simp add: u bots_ok_eq comp_def g)
  qed (simp add: updatebot_def ok)
  then show ?thesis using ok by (simp add: bot_update_def Let_def split: prod.splits)
qed

lemma wipe_bots_all:
  "index_ok st \<Longrightarrow> \<exists>st'. wipe_bots st = Some st' \<and> bots_ok st' \<and> tandbot st' = [] \<and> party st' = party st \<and>
     botnetnick st' = botnetnick st"
proof (induction "tandbot st" arbitrary: st)
  case Nil
  then have e: "tandbot st = []" by simp
  then have "wipe_bots st = Some st" by (subst wipe_bots.simps) simp
  then show ?case using Nil e by (simp add: bots_ok_def)
next
  case (Cons x l)
  obtain a t where x: "x = (a, t)" by (cases x)
  have l: "tandbot st = [] @ (a, t) # l" using Cons.hyps(2) by (simp add: x)
  have ct: "cstring (t_bot t)" using Cons.prems by (simp add: index_ok_def l name_ok_def)
  obtain tab where r: "rembot (t_bot t) st = Some (st\<lparr>tandbot := [] @ l, bot_table := tab, tands := tands st - 1\<rparr>)"
      "index_ok (st\<lparr>tandbot := [] @ l, bot_table := tab, tands := tands st - 1\<rparr>)"
    using rembot_index [OF Cons.prems l ct op_strcasecmp_refl [OF ct]] by blast
  let ?st = "st\<lparr>tandbot := [] @ l, bot_table := tab, tands := tands st - 1\<rparr>"
  obtain st' where "wipe_bots ?st = Some st' \<and> bots_ok st' \<and> tandbot st' = [] \<and> party st' = party ?st \<and>
      botnetnick st' = botnetnick ?st"
    using Cons.hyps(1) [of ?st] r(2) by auto
  moreover have "wipe_bots st = wipe_bots ?st" using r(1) l by (subst wipe_bots.simps) simp
  ultimately show ?case by auto
qed

abbreviation no_link :: "dcc_t \<Rightarrow> bool" where
  "no_link d \<equiv> d_type d \<notin> {DCC_BOT, DCC_BOT_NEW, DCC_FORK_BOT}"

lemma lostdcc_no_link:
  assumes "lostdcc n dcc st = Some (dcc', st')" "n < length dcc"
  shows "no_link (dcc' ! n)" "\<And>k. k \<noteq> n \<Longrightarrow> dcc' ! k = dcc ! k"
  using assms by (auto simp: lostdcc_def bind_eq_Some_conv nth_list_update)

lemma find_idx_Some: "find_idx P xs = Some i \<Longrightarrow> i < length xs \<and> P (xs ! i) \<and> (\<forall>j < i. \<not> P (xs ! j))"
proof (induction xs arbitrary: i)
  case (Cons x xs)
  then show ?case by (cases i) (auto split: if_splits simp: less_Suc_eq_0_disj)
qed simp

lemma find_idx_SomeI:
  "i < length xs \<Longrightarrow> P (xs ! i) \<Longrightarrow> \<forall>j < i. \<not> P (xs ! j) \<Longrightarrow> find_idx P xs = Some i"
proof (induction xs arbitrary: i)
  case (Cons x xs)
  show ?case
  proof (cases i)
    case (Suc k)
    then have "\<not> P x" "\<forall>j < k. \<not> P (xs ! j)" using Cons.prems(3) by (metis nth_Cons_0 zero_less_Suc, auto)
    then show ?thesis using Cons.IH [of k] Cons.prems(1,2) Suc by simp
  qed (use Cons.prems in simp)
qed simp

lemma find_idx_None: "find_idx P xs = None \<longleftrightarrow> (\<forall>x \<in> set xs. \<not> P x)"
  by (induction xs) auto

text \<open>The connections that unlinking a name is about, and those that a shared unlink leaves alone.\<close>

definition links :: "string \<Rightarrow> dcc_t \<Rightarrow> bool" where
  "links nick d \<longleftrightarrow> op_strcasecmp (d_nick d) nick = 0 \<and> \<not> no_link d"

definition keeps :: "bool \<Rightarrow> int \<Rightarrow> dcc_t \<Rightarrow> bool" where
  "keeps share_unlinks idx d \<longleftrightarrow> d_type d = DCC_BOT \<and> idx = - 3 \<and> d_share d \<and> \<not> share_unlinks"

lemma botunlink_loop_step:
  "i < length dcc \<Longrightarrow> botunlink_loop su idx nick i dcc st =
     (if (c0 nick = CHR ''*'' \<or> op_strcasecmp (d_nick (dcc ! i)) nick = 0) \<and> \<not> no_link (dcc ! i)
      then if keeps su idx (dcc ! i) then Some (Some (- 1), dcc, st)
        else case lostdcc i dcc st of
               None \<Rightarrow> None
             | Some (dcc', st') \<Rightarrow>
                 if c0 nick \<noteq> CHR ''*'' then Some (Some 1, dcc', st') else botunlink_loop su idx nick (i + 1) dcc' st'
      else botunlink_loop su idx nick (i + 1) dcc st)"
  "\<not> i < length dcc \<Longrightarrow> botunlink_loop su idx nick i dcc st = Some (None, dcc, st)"
  by (subst botunlink_loop.simps, auto simp: keeps_def Let_def split: option.splits)+

lemma botunlink_loop_all:
  assumes "c0 nick = CHR ''*''" "bots_ok st" "dcc_ok dcc" "\<forall>k < i. k < length dcc \<longrightarrow> no_link (dcc ! k)"
  shows "\<exists>r dcc' st'. botunlink_loop su idx nick i dcc st = Some (r, dcc', st') \<and> bots_ok st' \<and> dcc_ok dcc' \<and>
    mset (party st') \<subseteq># mset (party st) \<and>
    (if \<exists>k \<ge> i. k < length dcc \<and> keeps su idx (dcc ! k) then r = Some (- 1) else r = None \<and> (\<forall>d \<in> set dcc'. no_link d))"
  using assms(2-)
proof (induction "length dcc - i" arbitrary: i dcc st)
  case 0
  then have "\<not> i < length dcc" by simp
  moreover from this have "\<forall>d \<in> set dcc. no_link d" using 0 by (auto simp: in_set_conv_nth)
  ultimately show ?case using 0 botunlink_loop_step(2) by auto
next
  case (Suc n)
  then have i: "i < length dcc" by simp
  have up: "(\<exists>k \<ge> i. k < length D \<and> keeps su idx (D ! k)) \<longleftrightarrow> keeps su idx (D ! i) \<or> (\<exists>k \<ge> i + 1. k < length D \<and> keeps su idx (D ! k))"
    if "i < length D" for D using that by (metis Suc_eq_plus1 Suc_le_eq le_neq_implies_less le_refl less_imp_le)
  show ?case
  proof (cases "no_link (dcc ! i)")
    case True
    then have nk: "\<not> keeps su idx (dcc ! i)" by (auto simp: keeps_def)
    have "\<forall>k < i + 1. k < length dcc \<longrightarrow> no_link (dcc ! k)" using True Suc.prems(3) by (auto simp: less_Suc_eq)
    then show ?thesis
      using Suc.hyps(1) [of dcc "i + 1" st] Suc.hyps(2) Suc.prems(1,2) botunlink_loop_step(1) [OF i, of su idx nick st] True nk up [OF i] by simp
  next
    case link: False
    show ?thesis
    proof (cases "keeps su idx (dcc ! i)")
      case True
      then show ?thesis using botunlink_loop_step(1) [OF i, of su idx nick st] link assms(1) Suc.prems(1,2) i by auto
    next
      case nk: False
      obtain dcc1 st1 where l: "lostdcc i dcc st = Some (dcc1, st1)" "bots_ok st1" "dcc_ok dcc1" "mset (party st1) \<subseteq># mset (party st)"
        using lostdcc_ok [OF Suc.prems(1,2)] by blast
      note n = lostdcc_no_link [OF l(1) i] lostdcc_length [OF l(1)]
      have d: "\<forall>k < i + 1. k < length dcc1 \<longrightarrow> no_link (dcc1 ! k)" using Suc.prems(3) n by (auto simp: less_Suc_eq)
      have m: "n = length dcc1 - (i + 1)" using Suc.hyps(2) n(3) by simp
      have kp: "(\<exists>k \<ge> i + 1. k < length dcc1 \<and> keeps su idx (dcc1 ! k)) \<longleftrightarrow> (\<exists>k \<ge> i + 1. k < length dcc \<and> keeps su idx (dcc ! k))"
        using n(2,3) by (metis Suc_eq_plus1 not_less_eq_eq order_refl)
      have e: "botunlink_loop su idx nick i dcc st = botunlink_loop su idx nick (i + 1) dcc1 st1"
        using botunlink_loop_step(1) [OF i, of su idx nick st] link nk l(1) assms(1) by simp
      obtain r dcc2 st2 where f: "botunlink_loop su idx nick (i + 1) dcc1 st1 = Some (r, dcc2, st2)" "bots_ok st2" "dcc_ok dcc2"
          "mset (party st2) \<subseteq># mset (party st1)"
          "if \<exists>k \<ge> i + 1. k < length dcc1 \<and> keeps su idx (dcc1 ! k) then r = Some (- 1) else r = None \<and> (\<forall>d \<in> set dcc2. no_link d)"
        using Suc.hyps(1) [OF m l(2,3) d] by blast
      have "mset (party st2) \<subseteq># mset (party st)" by (rule subset_mset.order_trans [OF f(4) l(4)])
      then show ?thesis using f(1-3,5) nk unfolding up [OF i] kp e by simp
    qed
  qed
qed

lemma botunlink_loop_one:
  assumes "c0 nick \<noteq> CHR ''*''" "\<forall>k < i. k < length dcc \<longrightarrow> \<not> links nick (dcc ! k)"
  shows "botunlink_loop su idx nick i dcc st =
    (case find_idx (links nick) dcc of
       None \<Rightarrow> Some (None, dcc, st)
     | Some k \<Rightarrow> if keeps su idx (dcc ! k) then Some (Some (- 1), dcc, st)
         else map_option (Pair (Some 1)) (lostdcc k dcc st))"
  using assms(2)
proof (induction "length dcc - i" arbitrary: i)
  case 0
  then have "\<not> i < length dcc" by simp
  moreover from this have "find_idx (links nick) dcc = None" using 0 unfolding find_idx_None by (auto simp: in_set_conv_nth)
  ultimately show ?case using botunlink_loop_step(2) by simp
next
  case (Suc n)
  then have i: "i < length dcc" by simp
  show ?case
  proof (cases "links nick (dcc ! i)")
    case True
    have "find_idx (links nick) dcc = Some i" using i True Suc.prems by (intro find_idx_SomeI) auto
    then show ?thesis
      using botunlink_loop_step(1) [OF i, of su idx nick st] True assms(1) by (auto simp: links_def split: option.splits)
  next
    case False
    then have "\<forall>k < i + 1. k < length dcc \<longrightarrow> \<not> links nick (dcc ! k)" using Suc.prems by (auto simp: less_Suc_eq)
    moreover have "botunlink_loop su idx nick i dcc st = botunlink_loop su idx nick (i + 1) dcc st"
      using botunlink_loop_step(1) [OF i, of su idx nick st] False assms(1) by (auto simp: links_def)
    ultimately show ?thesis using Suc.hyps(1) [of "i + 1"] Suc.hyps(2) by simp
  qed
qed

lemma botunlink_all:
  assumes "bots_ok st" "dcc_ok dcc" "c0 nick = CHR ''*''"
  shows "\<exists>dcc' st'. botunlink su idx nick dcc st =
      Some (if \<exists>d \<in> set dcc. keeps su idx d then - 1 else 0, dcc', st') \<and> bots_ok st' \<and> dcc_ok dcc' \<and>
    mset (party st') \<subseteq># mset (party st) \<and>
    (\<not> (\<exists>d \<in> set dcc. keeps su idx d) \<longrightarrow> (\<forall>d \<in> set dcc'. no_link d) \<and> tandbot st' = [] \<and> party st' = [])"
proof -
  obtain r dcc1 st1 where l: "botunlink_loop su idx nick 0 dcc st = Some (r, dcc1, st1)" "bots_ok st1" "dcc_ok dcc1"
    "mset (party st1) \<subseteq># mset (party st)" "if \<exists>k \<ge> 0. k < length dcc \<and> keeps su idx (dcc ! k) then r = Some (- 1) else r = None \<and> (\<forall>d \<in> set dcc1. no_link d)"
    using botunlink_loop_all [OF assms(3,1,2), of 0 su idx] by blast
  have k: "(\<exists>k \<ge> 0. k < length dcc \<and> keeps su idx (dcc ! k)) \<longleftrightarrow> (\<exists>d \<in> set dcc. keeps su idx d)" by (metis in_set_conv_nth le0)
  show ?thesis
  proof (cases "\<exists>d \<in> set dcc. keeps su idx d")
    case True
    then show ?thesis using l k by (simp add: botunlink_def)
  next
    case False
    then have n: "r = None" "\<forall>d \<in> set dcc1. no_link d" using l(5) unfolding k by auto
    obtain st2 where "wipe_bots st1 = Some st2" "bots_ok st2" "tandbot st2 = []"
      using wipe_bots_all [of st1] l(2) by (auto simp: bots_ok_def)
    then show ?thesis using l(1-3) n assms(3) False by (simp add: botunlink_def bots_ok_eq)
  qed
qed

lemma botunlink_one:
  assumes ok: "bots_ok st" and dcc: "dcc_ok dcc" and nick: "c0 nick \<noteq> CHR ''*''"
  shows "case find_idx (links nick) dcc of
      Some k \<Rightarrow> if keeps su idx (dcc ! k) then botunlink su idx nick dcc st = Some (- 1, dcc, st)
        else (\<exists>dcc' st'. lostdcc k dcc st = Some (dcc', st') \<and> botunlink su idx nick dcc st = Some (1, dcc', st'))
    | None \<Rightarrow>
        (case findbot st nick of
           None \<Rightarrow> botunlink su idx nick dcc st = Some (0, dcc, st)
         | Some b \<Rightarrow> \<exists>t tab pre post. tandbot st = pre @ (b, t) # post \<and> botunlink su idx nick dcc st =
             Some (1, dcc, st\<lparr>tandbot := pre @ post, bot_table := tab, tands := tands st - 1\<rparr>) \<and>
             index_ok (st\<lparr>tandbot := pre @ post, bot_table := tab, tands := tands st - 1\<rparr>))"
proof -
  note l = botunlink_loop_one [OF nick, of 0 dcc su idx st]
  show ?thesis
  proof (cases "find_idx (links nick) dcc")
    case (Some k)
    then show ?thesis using l lostdcc_ok [OF ok dcc, of k] by (auto simp: botunlink_def)
  next
    case None
    show ?thesis
    proof (cases "findbot st nick")
      case None2: None
      then show ?thesis using None l nick by (simp add: botunlink_def)
    next
      case (Some b)
      then obtain t where t: "(b, t) \<in> set (tandbot st)" using findbot_Some [OF ok] by blast
      then have m: "tand_at st b = Some t" using ok tand_at_iff unfolding bots_ok_def by blast
      obtain pre post where e: "tandbot st = pre @ (b, t) # post" using split_list [OF t] by blast
      have ct: "cstring (t_bot t)" using ok t by (force simp: bots_ok_eq name_ok_def)
      obtain tab where "rembot (t_bot t) st = Some (st\<lparr>tandbot := pre @ post, bot_table := tab, tands := tands st - 1\<rparr>)"
        "index_ok (st\<lparr>tandbot := pre @ post, bot_table := tab, tands := tands st - 1\<rparr>)"
        using rembot_index [OF _ e ct op_strcasecmp_refl [OF ct]] ok by (auto simp: bots_ok_def)
      then show ?thesis using None Some m l nick e by (auto simp: botunlink_def)
    qed
  qed
qed

lemma botunlink_ghost:
  assumes ok: "bots_ok st" and nick: "cstring nick" "c0 nick \<noteq> CHR ''*''"
    and far: "\<forall>d \<in> set dcc. op_strcasecmp (d_nick d) nick \<noteq> 0"
    and b: "(b, t) \<in> set (tandbot st)" "op_strcasecmp (t_bot t) nick = 0"
    and c: "(c, s) \<in> set (tandbot st)" "t_uplink s = Up b"
  shows "\<exists>st'. botunlink share_unlinks idx nick dcc st = Some (1, dcc, st') \<and> findbot st' (t_bot s) = Some c \<and>
    lastbot st' (t_bot s) = None \<and> \<not> bots_ok st' \<and> tandbot st' = remove1 (b, t) (tandbot st) \<and> party st' = party st"
proof -
  have f: "forest Map.empty (tandbot st)" and io: "index_ok st" using ok by (simp_all add: bots_ok_def)
  have "find_idx (links nick) dcc = None" using far unfolding find_idx_None by (auto simp: links_def)
  then have skip: "botunlink_loop share_unlinks idx nick 0 dcc st = Some (None, dcc, st)"
    using botunlink_loop_one [OF nick(2), of 0] by simp
  have ct: "cstring (t_bot t)" using ok b(1) by (force simp: bots_ok_eq name_ok_def)
  have "istr_canon (t_bot t) = istr_canon nick" using ascii_eq_canon ct nick(1) b(2) by blast
  then have fb: "findbot st nick = Some b" using findbot_Some [OF ok] b(1) by blast
  have m: "tand_at st b = Some t" using tand_at_iff [OF f] b(1) by blast
  obtain pre post where l: "tandbot st = pre @ (b, t) # post" using split_list [OF b(1)] by blast
  obtain tab where r: "rembot (t_bot t) st = Some (st\<lparr>tandbot := pre @ post, bot_table := tab, tands := tands st - 1\<rparr>)"
      "index_ok (st\<lparr>tandbot := pre @ post, bot_table := tab, tands := tands st - 1\<rparr>)"
    using rembot_index [OF io l ct op_strcasecmp_refl [OF ct]] by blast
  let ?st = "st\<lparr>tandbot := pre @ post, bot_table := tab, tands := tands st - 1\<rparr>"
  have d: "distinct (map fst (pre @ (b, t) # post))" using forest_fresh [OF f] unfolding l by (rule conjunct2)
  have cb: "c \<noteq> b"
    using forest_before [of Map.empty pre b t post "(b, t)"] f c d l b(1)
    by (metis (no_types, lifting) eq_key_imp_eq_value in_set_conv_decomp snd_conv)
  then have cs: "(c, s) \<in> set (tandbot ?st)" using c(1) l by auto
  have fc: "findbot ?st (t_bot s) = Some c" using findbot_index [OF r(2)] cs by blast
  have "map_of (pre @ post) c = Some s" using cs d by (intro map_of_is_SomeI) auto
  moreover have "map_of (pre @ post) b = None" using d by (simp add: map_of_eq_None_iff map_add_None)
  ultimately have lb: "lastbot ?st (t_bot s) = None" using fc c(2) by (simp add: lastbot_def)
  then have "\<not> bots_ok ?st" using lastbot_total [of ?st "t_bot s"] by auto
  moreover have "botunlink share_unlinks idx nick dcc st = Some (1, dcc, ?st)"
    using skip nick(2) fb m r(1) by (simp add: botunlink_def)
  moreover have "tandbot ?st = remove1 (b, t) (tandbot st)"
    using d l by (simp add: remove1_append) (metis fst_conv image_eqI)
  ultimately show ?thesis using fc lb by force
qed

end
