(* ===== verification/BotnetRun.thy ===== *)
theory BotnetRun
  imports BotnetLinks
begin

text \<open>
  The runs of a bot on the botnet and what holds of every state they reach, and the properties of
  the handlers in those states.
\<close>

section \<open>The party line\<close>

lemma party_is_key:
  "cstring (p_bot p) \<Longrightarrow> cstring b \<Longrightarrow> party_is b sock p \<longleftrightarrow> party_key p = (map tolower b, sock)"
  by (auto simp: party_is_def op_strcasecmp_eq0)

lemma party_ok_mset:
  assumes "party_ok ps" "mset qs \<subseteq># mset ps"
  shows "party_ok qs"
proof -
  obtain rs where "mset ps = mset qs + mset rs" using assms(2) by (metis ex_mset mset_subset_eq_exists_conv)
  then have m: "mset ps = mset (qs @ rs)" by simp
  then have "mset (map party_key ps) = mset (map party_key (qs @ rs))" unfolding mset_map by (rule arg_cong)
  then have "distinct (map party_key (qs @ rs))" using assms(1) unfolding party_ok_def by (metis mset_eq_imp_distinct_iff)
  moreover have "set ps = set (qs @ rs)" using m by (rule mset_eq_setD)
  ultimately show ?thesis using assms(1) by (auto simp: party_ok_def)
qed

lemma remparty_loop_none: "\<forall>p \<in> set ps. \<not> party_is b sock p \<Longrightarrow> remparty_loop b sock i ps = ps"
proof (induction b sock i ps rule: remparty_loop.induct)
  case (1 b sock i ps)
  then show ?case by (subst remparty_loop.simps) auto
qed

lemma remparty_loop_unique:
  "\<forall>k < i. k < length ps \<longrightarrow> \<not> party_is b sock (ps ! k) \<Longrightarrow> length (filter (party_is b sock) ps) \<le> 1 \<Longrightarrow>
   mset (remparty_loop b sock i ps) = filter_mset (\<lambda>p. \<not> party_is b sock p) (mset ps)"
proof (induction b sock i ps rule: remparty_loop.induct)
  case (1 b sock i ps)
  show ?case
  proof (cases "i < length ps")
    case False
    then have "\<forall>p \<in> set ps. \<not> party_is b sock p" using "1.prems"(1) by (auto simp: in_set_conv_nth)
    then have "filter (\<lambda>p. \<not> party_is b sock p) ps = ps" by simp
    then show ?thesis using False by (subst remparty_loop.simps) (simp flip: mset_filter)
  next
    case i: True
    show ?thesis
    proof (cases "party_is b sock (ps ! i)")
      case True
      let ?qs = "butlast (ps[i := last ps])"
      have m: "mset ps = add_mset (ps ! i) (mset ?qs)" using i by (subst mset_swap_out) simp_all
      have "size (filter_mset (party_is b sock) (mset ps)) \<le> 1" using "1.prems"(2) by (simp flip: mset_filter)
      then have "filter_mset (party_is b sock) (mset ?qs) = {#}" using True unfolding m by simp
      then have none: "\<forall>p \<in> set ?qs. \<not> party_is b sock p" by (simp add: filter_empty_conv flip: mset_filter)
      then have "filter (\<lambda>p. \<not> party_is b sock p) ?qs = ?qs" by simp
      then have "filter_mset (\<lambda>p. \<not> party_is b sock p) (mset ?qs) = mset ?qs" by (metis mset_filter)
      then show ?thesis using i True remparty_loop_none [OF none] unfolding m
        by (subst remparty_loop.simps) simp
    next
      case False
      have "\<forall>k < i + 1. k < length ps \<longrightarrow> \<not> party_is b sock (ps ! k)"
        using "1.prems"(1) False by (metis Suc_eq_plus1 less_SucE)
      then show ?thesis using "1.IH"(2) [OF i False] "1.prems"(2) i False by (subst remparty_loop.simps) simp
    qed
  qed
qed

lemma remparty_exact:
  assumes "party_ok (party st)" "cstring b"
  shows "mset (party (remparty b sock st)) = filter_mset (\<lambda>p. \<not> party_is b sock p) (mset (party st))"
proof -
  let ?f = "filter (party_is b sock) (party st)"
  have "distinct (map party_key ?f)" using assms(1) by (simp add: party_ok_def distinct_map_filter)
  moreover have "set (map party_key ?f) \<subseteq> {(map tolower b, sock)}"
    using assms party_is_key by (fastforce simp: party_ok_def)
  ultimately have "length ?f \<le> 1"
    using card_mono [of "{(map tolower b, sock)}" "set (map party_key ?f)"] distinct_card by fastforce
  then show ?thesis by (simp add: remparty_def remparty_loop_unique)
qed

lemma change_party_ok:
  assumes "party_ok (party st)" "\<And>p. p_bot (f p) = p_bot p \<and> p_sock (f p) = p_sock p"
  shows "party_ok (party (change_party P f st))"
proof -
  have "map party_key (party (change_party P f st)) = map party_key (party st)"
    using assms(2) by (simp add: change_party_def)
  moreover have "\<forall>p \<in> set (party (change_party P f st)). cstring (p_bot p)"
    using assms by (auto simp: change_party_def party_ok_def)
  ultimately show ?thesis using assms(1) by (simp only: party_ok_def)
qed

lemma party_ok_update:
  assumes "party_ok ps" "p_bot p = p_bot (ps ! i)" "p_sock p = p_sock (ps ! i)"
  shows "party_ok (ps[i := p])"
proof (cases "i < length ps")
  case True
  have "map party_key (ps[i := p]) = map party_key ps" using assms True by (simp add: map_update list_update_same_conv)
  moreover have "\<forall>q \<in> set (ps[i := p]). cstring (p_bot q)"
    using assms True by (auto simp: party_ok_def dest!: set_update_subset_insert [THEN subsetD])
  ultimately show ?thesis using assms(1) by (simp add: party_ok_def)
next
  case False
  then show ?thesis using assms(1) by (simp add: list_update_beyond)
qed

lemma addparty_ok:
  assumes ok: "party_ok (party st)" and b: "cstring b" "length b \<le> HANDLEN"
    and r: "addparty now b nick ch flag sock from_host st = (old, i, st')"
  shows "party_ok (party st') \<and> getparty st' b sock = int i \<and> i < length (party st') \<and> p_chan (party st' ! i) = ch \<and>
    (\<forall>j < length (party st). j \<noteq> i \<longrightarrow> party st' ! j = party st ! j)"
proof (cases "find_idx (party_is b sock) (party st)")
  case None
  have tr: "op_strlcpy [] b 33 = b" using b(2) by simp
  from r None obtain p where p: "party st' = party st @ [p]" "i = length (party st)" "p_bot p = b" "p_sock p = sock" "p_chan p = ch"
    by (auto simp: addparty_def Let_def tr)
  have no: "\<forall>q \<in> set (party st). \<not> party_is b sock q" using None by (simp add: find_idx_None)
  have pk: "party_key q \<noteq> party_key p" if "q \<in> set (party st)" for q
  proof -
    have "cstring (p_bot q)" using ok that by (simp add: party_ok_def)
    then have "party_key q \<noteq> (map tolower b, sock)" using no that party_is_key [of q b sock] b(1) by blast
    then show ?thesis using p(3,4) by argo
  qed
  have "party_key p \<notin> party_key ` set (party st)" by (rule notI, erule imageE) (metis pk)
  then have "party_ok (party st')" using ok b(1) p by (simp add: party_ok_def)
  moreover have "party_is b sock p" using p b(1) by (simp add: party_is_def op_strcasecmp_refl)
  then have "find_idx (party_is b sock) (party st @ [p]) = Some (length (party st))"
    using no by (intro find_idx_SomeI) (auto simp: nth_append)
  ultimately show ?thesis using p by (simp add: getparty_def nth_append)
next
  case (Some k)
  note f = find_idx_Some [OF Some]
  define p where "p = (let q = (party st ! k)\<lparr>p_chan := ch, p_timer := now\<rparr> in
    if from_host \<noteq> [] then q\<lparr>p_flag := (if flag = CHR '' '' then CHR ''-'' else flag), p_from := from_host\<rparr> else q)"
  have "(old, i, st') = (p_chan (party st ! k), k, st\<lparr>party := (party st)[k := p]\<rparr>)"
    using r unfolding addparty_def Some option.case Let_def p_def by (simp only:)
  then have p: "party st' = (party st)[k := p]" "i = k" "p_bot p = p_bot (party st ! k)"
      "p_sock p = p_sock (party st ! k)" "p_chan p = ch"
    by (simp_all add: p_def Let_def)
  have "party_ok (party st')" unfolding p(1) using ok p(3,4) by (rule party_ok_update)
  moreover have "find_idx (party_is b sock) ((party st)[k := p]) = Some k"
    using f p(3,4) by (intro find_idx_SomeI) (auto simp: party_is_def)
  ultimately show ?thesis using p f by (simp add: getparty_def)
qed

section \<open>Runs\<close>

text \<open>
  A run of the bot: a connection is opened, finishes its handshake, sends one of the messages about links or
  the party line, or is lost, or the bot unlinks everything or one name.  Left out is the branch of \<open>botunlink\<close>
  for a bot that is listed but has no connection under its name: it can leave a dangling uplink (\<open>botunlink_ghost_dangles\<close>).  The names of users and what comes in are C strings; \<open>p\<close> is a free address.
  No peer has a name that is the bot's own under RFC 1459 but not under ASCII case folding.
\<close>

definition own_name :: "botnet \<Rightarrow> string \<Rightarrow> bool" where
  "own_name st n \<longleftrightarrow> (istr_canon n = istr_canon (botnetnick st) \<longrightarrow> op_strcasecmp n (botnetnick st) = 0)"

inductive botnet_step :: "dcc_t list \<times> botnet \<Rightarrow> dcc_t list \<times> botnet \<Rightarrow> bool" where
  new_dcc: "cstring (d_nick d) \<Longrightarrow> d_type d \<noteq> DCC_BOT \<Longrightarrow> botnet_step (dcc, st) (dcc @ [d], st)"
| version: "idx < length dcc \<Longrightarrow> p \<notin> nodes (tandbot st) \<Longrightarrow> length (tandbot st) < 2 ^ 60 \<Longrightarrow>
    d_nick (dcc ! idx) \<noteq> [] \<Longrightarrow> length (d_nick (dcc ! idx)) \<le> HANDLEN \<Longrightarrow> own_name st (d_nick (dcc ! idx)) \<Longrightarrow>
    bot_version p idx numver l dcc st = Some (dcc', st') \<Longrightarrow> botnet_step (dcc, st) (dcc', st')"
| nlinked: "idx < length dcc \<Longrightarrow> cstring par \<Longrightarrow> p \<notin> nodes (tandbot st) \<Longrightarrow> length (tandbot st) < 2 ^ 60 \<Longrightarrow>
    own_name st (fst (newsplit par)) \<Longrightarrow>
    bot_nlinked p idx par dcc st = Some (r, dcc', st') \<Longrightarrow> botnet_step (dcc, st) (dcc', st')"
| unlinked: "idx < length dcc \<Longrightarrow> cstring par \<Longrightarrow>
    bot_unlinked idx par dcc st = Some st' \<Longrightarrow> botnet_step (dcc, st) (dcc, st')"
| update: "botnet_step (dcc, st) (dcc, bot_update par st)"
| thisbot: "idx < length dcc \<Longrightarrow> cstring par \<Longrightarrow>
    bot_thisbot idx par dcc st = Some (dcc', st') \<Longrightarrow> botnet_step (dcc, st) (dcc', st')"
| lost: "lostdcc n dcc st = Some (dcc', st') \<Longrightarrow> botnet_step (dcc, st) (dcc', st')"
| unlink_all: "botunlink su idx ''*'' dcc st = Some (r, dcc', st') \<Longrightarrow> botnet_step (dcc, st) (dcc', st')"
| unlink_one: "c0 nick \<noteq> CHR ''*'' \<Longrightarrow> find_idx (links nick) dcc \<noteq> None \<or> findbot st nick = None \<Longrightarrow>
    botunlink su idx nick dcc st = Some (r, dcc', st') \<Longrightarrow> botnet_step (dcc, st) (dcc', st')"
| join: "cstring b \<Longrightarrow> length b \<le> HANDLEN \<Longrightarrow>
    addparty now b nick ch flag sock from_host st = (old, i, st') \<Longrightarrow> botnet_step (dcc, st) (dcc, st')"
| part: "botnet_step (dcc, st) (dcc, remparty b sock st)"
| rename: "partynick b sock nick st = (i, old_nick, st') \<Longrightarrow> botnet_step (dcc, st) (dcc, st')"
| stat: "botnet_step (dcc, st) (dcc, partystat b sock add rem st)"
| setidle: "botnet_step (dcc, st) (dcc, partysetidle now b sock secs st)"
| unidle: "botnet_step (dcc, st) (dcc, snd (partyidle now b nick st))"
| away: "botnet_step (dcc, st) (dcc, partyaway b sock msg st)"

inductive botnet_run :: "string \<Rightarrow> dcc_t list \<times> botnet \<Rightarrow> bool" for me where
  start: "botnetnick st = me \<Longrightarrow> tands st = 0 \<Longrightarrow> party st = [] \<Longrightarrow> botnet_run me ([], init_bots st)"
| step: "botnet_run me x \<Longrightarrow> botnet_step x y \<Longrightarrow> botnet_run me y"

lemma init_bots_ok: "cstring (botnetnick st) \<Longrightarrow> tands st = 0 \<Longrightarrow> bots_ok (init_bots st)"
  using create_istr [of 32] by (auto simp: bots_ok_eq init_bots_def index_of_def op_htab_create_istr_def op_htab_create_def Let_def)

definition state_ok :: "dcc_t list \<times> botnet \<Rightarrow> bool" where
  "state_ok x \<longleftrightarrow> bots_ok (snd x) \<and> dcc_ok (fst x) \<and> party_ok (party (snd x))"

lemma bots_ok_party: "bots_ok (st\<lparr>party := ps, party_size := n\<rparr>) = bots_ok st" "bots_ok (st\<lparr>party := ps\<rparr>) = bots_ok st"
  by (simp_all add: bots_ok_eq)

lemma party_ops_ok:
  "bots_ok (change_party P f st) = bots_ok st"
  "bots_ok (remparty b sock st) = bots_ok st"
  by (simp_all add: change_party_def remparty_def bots_ok_party)

lemma addparty_bots_ok: "addparty now b nick ch flag sock from_host st = (old, i, st') \<Longrightarrow> bots_ok st' = bots_ok st"
  by (auto simp: addparty_def Let_def bots_ok_party split: option.splits)

lemma remparty_ok: "party_ok (party st) \<Longrightarrow> party_ok (party (remparty b sock st))"
proof -
  have "mset (remparty_loop b sock i ps) \<subseteq># mset ps" for i ps
  proof (induction b sock i ps rule: remparty_loop.induct)
    case (1 b sock i ps)
    show ?case
    proof (cases "i < length ps \<and> party_is b sock (ps ! i)")
      case True
      have "mset (butlast (ps[i := last ps])) \<subseteq># mset ps" using True by (simp add: mset_swap_out)
      then show ?thesis using True "1.IH"(1) subset_mset.order_trans by (subst remparty_loop.simps) auto
    next
      case False
      then show ?thesis using "1.IH"(2) by (subst remparty_loop.simps) auto
    qed
  qed
  then show "party_ok (party st) \<Longrightarrow> party_ok (party (remparty b sock st))"
    using party_ok_mset by (simp add: remparty_def)
qed

lemma partynick_ok:
  assumes "partynick b sock nick st = (i, old_nick, st')" "party_ok (party st)" "bots_ok st"
  shows "party_ok (party st') \<and> bots_ok st'"
proof (cases "find_idx (party_is b sock) (party st)")
  case None
  then show ?thesis using assms by (simp add: partynick_def)
next
  case (Some k)
  let ?p = "(party st ! k)\<lparr>p_nick := op_strlcpy (p_nick (party st ! k)) nick (HANDLEN + 1)\<rparr>"
  have "st' = st\<lparr>party := (party st)[k := ?p]\<rparr>" using assms(1) Some by (simp add: partynick_def Let_def)
  then show ?thesis using party_ok_update [OF assms(2), of ?p k] assms(3) by (simp add: bots_ok_party)
qed

lemma botnet_step_ok: "botnet_step x y \<Longrightarrow> state_ok x \<Longrightarrow> state_ok y"
proof (induction rule: botnet_step.induct)
  case (version idx dcc p st numver l dcc' st')
  then show ?case using bot_version_ok [of st dcc idx p numver l] party_ok_mset by (auto simp: own_name_def state_ok_def)
next
  case (nlinked idx dcc par p st r dcc' st')
  have n: "bots_ok st' \<and> dcc_ok dcc' \<and> (if r = Linked then party st' = party st else lostdcc idx dcc st = Some (dcc', st'))"
    using bot_nlinked_ok [of st dcc par idx p] nlinked by (auto simp: own_name_def state_ok_def)
  have "party_ok (party st')"
  proof (cases "r = Linked")
    case True
    then show ?thesis using n nlinked.prems by (simp add: state_ok_def)
  next
    case False
    then show ?thesis using n lostdcc_ok [of st dcc idx] nlinked.prems party_ok_mset by (auto simp: state_ok_def)
  qed
  then show ?case using n by (simp add: state_ok_def)
next
  case (unlinked idx dcc par st st')
  then have "bots_ok st' \<and> mset (party st') \<subseteq># mset (party st)"
    using bot_unlinked_ok [of st par idx dcc] by (auto simp: state_ok_def multiset_filter_subset split: if_splits)
  then show ?case using unlinked.prems party_ok_mset by (auto simp: state_ok_def)
next
  case (update dcc st par)
  have "party (bot_update par st) = party st"
    by (simp add: bot_update_def updatebot_def Let_def split: prod.splits option.splits)
  then show ?case using bot_update_ok update.prems by (simp add: state_ok_def)
next
  case (thisbot idx dcc par st dcc' st')
  then show ?case using bot_thisbot_ok [of st dcc idx par] party_ok_mset by (auto simp: state_ok_def)
next
  case (lost n dcc st dcc' st')
  then show ?case using lostdcc_ok [of st dcc n] party_ok_mset by (auto simp: state_ok_def)
next
  case (unlink_all su idx dcc st r dcc' st')
  have "bots_ok st" "dcc_ok dcc" "c0 ''*'' = CHR ''*''" using unlink_all.prems by (simp_all add: state_ok_def)
  from botunlink_all [OF this, of su idx] show ?case
    using unlink_all.hyps unlink_all.prems party_ok_mset by (auto simp: state_ok_def)
next
  case (unlink_one nick dcc st su idx r dcc' st')
  have ok: "bots_ok st" "dcc_ok dcc" "party_ok (party st)" using unlink_one.prems by (simp_all add: state_ok_def)
  show ?case
  proof (cases "find_idx (links nick) dcc")
    case None
    then show ?thesis using botunlink_one [OF ok(1,2) unlink_one.hyps(1), of su idx] unlink_one.hyps(2,3) ok by (simp add: state_ok_def)
  next
    case (Some k)
    then show ?thesis
      using botunlink_one [OF ok(1,2) unlink_one.hyps(1), of su idx] unlink_one.hyps(3) ok lostdcc_ok [OF ok(1,2), of k] party_ok_mset [OF ok(3)]
      by (auto simp: state_ok_def split: if_splits)
  qed
next
  case (join b now nick ch flag sock from_host st old i st' dcc)
  then show ?case using addparty_ok [OF _ join.hyps] addparty_bots_ok [OF join.hyps(3)] by (simp add: state_ok_def)
next
  case (part dcc st b sock)
  then show ?case by (simp add: state_ok_def party_ops_ok remparty_ok)
next
  case (rename b sock nick st i old_nick st' dcc)
  then show ?case using partynick_ok by (auto simp: state_ok_def)
qed (auto simp: state_ok_def party_ops_ok partystat_def partysetidle_def partyidle_def partyaway_def Let_def intro!: change_party_ok)

lemma botnet_run_ok: "botnet_run me x \<Longrightarrow> cstring me \<Longrightarrow> state_ok x"
proof (induction rule: botnet_run.induct)
  case (start st)
  then show ?case using init_bots_ok [of st] by (simp add: state_ok_def init_bots_def party_ok_def)
next
  case (step x y)
  then show ?case using botnet_step_ok by blast
qed

section \<open>An example\<close>

text \<open>A bot with one direct link, behind which another bot is linked.\<close>

definition hub :: botnet where
  "hub = \<lparr>tandbot = [], bot_table = op_htab_create_istr 32, tands = 0, party = [], party_size = 0, botnetnick = ''hub''\<rparr>"

definition leaf_dcc :: "dcc_type \<Rightarrow> dcc_t" where
  "leaf_dcc ty = \<lparr>d_nick = ''leaf'', d_type = ty, d_leaf = False, d_ssl = 0, d_share = False\<rparr>"

definition example_state :: "dcc_t list \<Rightarrow> botnet \<Rightarrow> bool" where
  "example_state dcc st \<longleftrightarrow>
     botnet_run ''hub'' (dcc, st) \<and> dcc = [leaf_dcc DCC_BOT] \<and> botnetnick st = ''hub'' \<and> party st = [] \<and>
     (\<exists>t s. tandbot st = [(1, t), (2, s)] \<and> t_bot t = ''leaf'' \<and> t_uplink t = Me \<and> t_bot s = ''far'' \<and> t_uplink s = Up 1)"

lemma example_names:
  "op_strcasecmp ''leaf'' ''hub'' \<noteq> 0" "op_strcasecmp ''far'' ''hub'' \<noteq> 0" "istr_canon ''leaf'' \<noteq> istr_canon ''hub''"
  "istr_canon ''far'' \<noteq> istr_canon ''hub''" "istr_canon ''far'' \<noteq> istr_canon ''leaf''" "\<not> bogus_name ''far''"
  "op_strcasecmp ''leaf'' ''far'' \<noteq> 0"
  by code_simp+

lemma example_run: "\<exists>dcc st. example_state dcc st"
proof -
  have r0: "botnet_run ''hub'' ([], init_bots hub)" by (rule botnet_run.start) (simp_all add: hub_def)
  let ?st = "init_bots hub"
  have ok0: "bots_ok ?st" by (rule init_bots_ok) (simp_all add: hub_def)
  have r1: "botnet_run ''hub'' ([leaf_dcc DCC_BOT_NEW], ?st)"
    using botnet_run.step [OF r0 botnet_step.new_dcc [of "leaf_dcc DCC_BOT_NEW" "[]" ?st]] by (simp add: leaf_dcc_def)
  have e: "tandbot ?st = []" "botnetnick ?st = ''hub''" "party ?st = []" by (simp_all add: hub_def init_bots_def)
  have n: "findbot ?st ''leaf'' = None" using findbot_None [OF ok0, of "''leaf''"] e(1) by simp
  let ?d = "leaf_dcc DCC_BOT_NEW"
  have nk: "d_nick ([?d] ! 0) = ''leaf''" by (simp add: leaf_dcc_def)
  have "\<exists>dcc' st'. bot_version 1 0 0 32 [?d] ?st = Some (dcc', st') \<and> bots_ok st' \<and> dcc_ok dcc' \<and>
    mset (party st') \<subseteq># mset (party ?st) \<and>
    (\<not> in_chain ?st (d_nick ([?d] ! 0)) \<and> (32 :: int) = int HANDLEN \<longrightarrow>
       dcc' = [?d][0 := ([?d] ! 0)\<lparr>d_type := DCC_BOT\<rparr>] \<and>
       (\<exists>t. tandbot st' = tandbot ?st @ [(1, t)] \<and> t_bot t = d_nick ([?d] ! 0) \<and> t_uplink t = Me \<and> t_via t = Some 1) \<and>
       party st' = party ?st \<and> botnetnick st' = botnetnick ?st)"
    by (rule bot_version_ok [OF ok0]) (simp_all add: leaf_dcc_def e example_names)
  moreover have "\<not> in_chain ?st (d_nick ([?d] ! 0))" unfolding in_chain_def nk e using n example_names(1) by blast
  moreover have "[?d][0 := ([?d] ! 0)\<lparr>d_type := DCC_BOT\<rparr>] = [leaf_dcc DCC_BOT]" by (simp add: leaf_dcc_def)
  ultimately obtain st1 t where s1: "bot_version 1 0 0 32 [?d] ?st = Some ([leaf_dcc DCC_BOT], st1)" "bots_ok st1"
      "tandbot st1 = [(1, t)]" "t_bot t = ''leaf''" "t_uplink t = Me" "t_via t = Some 1" "party st1 = []" "botnetnick st1 = ''hub''"
    using e nk by auto
  have r2: "botnet_run ''hub'' ([leaf_dcc DCC_BOT], st1)"
    by (rule botnet_run.step [OF r1 botnet_step.version [OF _ _ _ _ _ _ s1(1)]])
      (simp_all add: leaf_dcc_def e own_name_def example_names)
  let ?dcc = "[leaf_dcc DCC_BOT]" and ?par = "''far leaf -A''"
  have sp: "newsplit ?par = (''far'', ''leaf -A'')" "newsplit ''leaf -A'' = (''leaf'', ''-A'')" by (simp_all add: newsplit_eq)
  have f: "findbot st1 ''leaf'' = Some 1" "findbot st1 ''far'' = None"
    using findbot_Some [OF s1(2)] findbot_None [OF s1(2)] s1(3,4) example_names by auto
  have "nextbot ?dcc st1 ''leaf'' = Some 0"
    using f s1 by (simp add: nextbot_def leaf_dcc_def op_strcasecmp_refl)
  then have fits: "nlinked_fits 0 ?par ?dcc st1"
    using f(2) example_names s1(8) by (simp add: nlinked_fits_def sp in_chain_def leaf_dcc_def)
  have "\<exists>r dcc' st'. bot_nlinked 2 0 ?par ?dcc st1 = Some (r, dcc', st') \<and> bots_ok st' \<and> dcc_ok dcc' \<and>
    (r = Linked \<longleftrightarrow> nlinked_fits 0 ?par ?dcc st1) \<and>
    (if r = Linked
     then dcc' = ?dcc \<and> (\<exists>t. tandbot st' = tandbot st1 @ [(2, t)] \<and> t_bot t = fst (newsplit ?par) \<and>
         (\<exists>u. findbot st1 (fst (newsplit (snd (newsplit ?par)))) = Some u \<and> t_uplink t = Up u)) \<and>
       nextbot ?dcc st' (fst (newsplit ?par)) = Some (int 0) \<and> party st' = party st1 \<and> botnetnick st' = botnetnick st1
     else lostdcc 0 ?dcc st1 = Some (dcc', st'))"
    by (rule bot_nlinked_ok [OF s1(2)]) (simp_all add: leaf_dcc_def s1 sp example_names)
  then obtain st2 s where s2: "bot_nlinked 2 0 ?par ?dcc st1 = Some (Linked, ?dcc, st2)"
      "tandbot st2 = [(1, t), (2, s)]" "t_bot s = ''far''" "t_uplink s = Up 1" "party st2 = []" "botnetnick st2 = ''hub''"
    using fits f(1) s1 by (auto simp: sp)
  have "botnet_run ''hub'' (?dcc, st2)"
    by (rule botnet_run.step [OF r2 botnet_step.nlinked [OF _ _ _ _ _ s2(1)]])
      (simp_all add: s1 own_name_def sp example_names)
  then show ?thesis using s1 s2 unfolding example_state_def by blast
qed

section \<open>Properties\<close>

text \<open>
  C25: in every state a run reaches, the linked bots form a forest whose index \<open>bot_table\<close> is exact: every
  bot is found under its name, in every RFC 1459 spelling, and its \<open>via\<close> is a bot of the list with
  \<open>via\<close> itself; names are unique, and the party line has one entry for each socket of a bot.  The runs leave
  out the branch of \<open>botunlink\<close> for a bot without a connection, which breaks this, and peers whose name is the
  bot's own under RFC 1459 but not under ASCII case folding.
\<close>

theorem botnet_run_forest:
  assumes "botnet_run me (dcc, st)" "cstring me"
  shows "bots_ok st \<and> party_ok (party st) \<and>
    (\<forall>(a, t) \<in> set (tandbot st). findbot st (t_bot t) = Some a \<and> tand_at st a = Some t \<and>
      (\<exists>v vt. t_via t = Some v \<and> tand_at st v = Some vt \<and> t_via vt = Some v) \<and> (\<exists>s. lastbot st (t_bot t) = Some s))"
proof -
  have ok: "bots_ok st" "party_ok (party st)" using botnet_run_ok [OF assms] by (simp_all add: state_ok_def)
  then have f: "forest Map.empty (tandbot st)" by (simp add: bots_ok_eq)
  have "findbot st (t_bot t) = Some a \<and> tand_at st a = Some t \<and>
      (\<exists>v vt. t_via t = Some v \<and> tand_at st v = Some vt \<and> t_via vt = Some v) \<and> (\<exists>s. lastbot st (t_bot t) = Some s)"
    if at: "(a, t) \<in> set (tandbot st)" for a t
  proof -
    obtain v vt where v: "t_via t = Some v" "(v, vt) \<in> set (tandbot st)" "t_via vt = Some v" using via_root [OF f at] by blast
    then show ?thesis using findbot_Some [OF ok(1)] tand_at_iff [OF f] at lastbot_total [OF ok(1)] by metis
  qed
  then show ?thesis using ok by auto
qed

theorem botnet_run_forest_witness:
  "\<exists>dcc st t s. botnet_run ''hub'' (dcc, st) \<and> tandbot st = [(1, t), (2, s)] \<and> bots_ok st \<and> findbot st (t_bot s) = Some 2"
proof -
  obtain dcc st where "example_state dcc st" using example_run by blast
  then obtain t s where e: "botnet_run ''hub'' (dcc, st)" "tandbot st = [(1, t), (2, s)]" by (auto simp: example_state_def)
  then show ?thesis using botnet_run_forest [OF e(1)] by auto
qed

text \<open>
  C26: whatever a linked bot sends as \<open>nlinked\<close>, the handler returns.  It accepts exactly a new, well-formed name
  behind a bot that is reached through the same connection; the new bot goes to the end of the list below
  that bot and is then reached through that connection too.  Otherwise exactly that connection is dropped.
\<close>

theorem bot_nlinked_accepts:
  assumes run: "botnet_run me (dcc, st)" "cstring me" and idx: "idx < length dcc" and par: "cstring par"
    and p: "p \<notin> nodes (tandbot st)" "length (tandbot st) < 2 ^ 60" and own: "own_name st (fst (newsplit par))"
  shows "\<exists>r dcc' st'. bot_nlinked p idx par dcc st = Some (r, dcc', st') \<and> (r = Linked \<longleftrightarrow> nlinked_fits idx par dcc st) \<and>
    (if r = Linked
     then dcc' = dcc \<and> (\<exists>t u. tandbot st' = tandbot st @ [(p, t)] \<and> t_bot t = fst (newsplit par) \<and>
         findbot st (fst (newsplit (snd (newsplit par)))) = Some u \<and> t_uplink t = Up u) \<and>
       nextbot dcc st' (fst (newsplit par)) = Some (int idx)
     else lostdcc idx dcc st = Some (dcc', st'))"
proof -
  have ok: "bots_ok st" "dcc_ok dcc" using botnet_run_ok [OF run] by (simp_all add: state_ok_def)
  obtain r dcc' st' where *: "bot_nlinked p idx par dcc st = Some (r, dcc', st')" "r = Linked \<longleftrightarrow> nlinked_fits idx par dcc st"
    "if r = Linked
     then dcc' = dcc \<and> (\<exists>t. tandbot st' = tandbot st @ [(p, t)] \<and> t_bot t = fst (newsplit par) \<and>
         (\<exists>u. findbot st (fst (newsplit (snd (newsplit par)))) = Some u \<and> t_uplink t = Up u)) \<and>
       nextbot dcc st' (fst (newsplit par)) = Some (int idx) \<and> party st' = party st \<and> botnetnick st' = botnetnick st
     else lostdcc idx dcc st = Some (dcc', st')"
    using bot_nlinked_ok [OF ok par idx p] own unfolding own_name_def by blast
  show ?thesis using * by (intro exI [of _ r] exI [of _ dcc'] exI [of _ st']) (auto split: if_splits)
qed

theorem bot_nlinked_accepts_witness:
  "\<exists>dcc st r dcc' st'. botnet_run ''hub'' (dcc, st) \<and> bot_nlinked 3 0 ''new far -B'' dcc st = Some (r, dcc', st') \<and>
     (r = Linked \<longleftrightarrow> nlinked_fits 0 ''new far -B'' dcc st)"
proof -
  obtain dcc st where e: "example_state dcc st" using example_run by blast
  then have r: "botnet_run ''hub'' (dcc, st)" "botnetnick st = ''hub''" unfolding example_state_def by blast+
  have "istr_canon ''new'' \<noteq> istr_canon ''hub''" by code_simp
  then have own: "own_name st (fst (newsplit ''new far -B''))" by (simp add: own_name_def newsplit_eq r(2))
  have "3 \<notin> nodes (tandbot st)" "length (tandbot st) < 2 ^ 60" "0 < length dcc" using e by (auto simp: example_state_def)
  then show ?thesis using bot_nlinked_accepts [OF r(1) _ _ _ _ _ own, of 0 3] r(1) by simp blast
qed

text \<open>
  C3: on \<open>unlinked\<close> from the connection a bot is reached through, the handler returns and removes
  the bot and all that hangs on it, and all their users, and nothing else.  The bot itself is removed only when it is
  named in the same spelling up to ASCII case, although it was looked up by RFC 1459 case.  From any other
  connection nothing happens.
\<close>

theorem bot_unlinked_removes:
  assumes run: "botnet_run me (dcc, st)" "cstring me" and par: "cstring par"
  shows "\<exists>st'. bot_unlinked idx par dcc st = Some st' \<and>
    (if nextbot dcc st (fst (newsplit par)) = Some (int idx)
     then \<exists>w t. findbot st (fst (newsplit par)) = Some w \<and> (w, t) \<in> set (tandbot st) \<and>
       tandbot st' = (if op_strcasecmp (t_bot t) (fst (newsplit par)) = 0
         then filter (\<lambda>x. fst x \<noteq> w) (purge {w} (tandbot st)) else purge {w} (tandbot st)) \<and>
       mset (party st') = filter_mset (\<lambda>p. \<forall>x \<in> hangs_on st w. \<not> on_bot (t_bot (snd x)) p) (mset (party st))
     else st' = st)"
proof -
  have "bots_ok st" using botnet_run_ok [OF run] by (simp add: state_ok_def)
  from bot_unlinked_ok [OF this par, of idx dcc] show ?thesis by blast
qed

theorem bot_unlinked_removes_witness:
  "\<exists>dcc st st'. botnet_run ''hub'' (dcc, st) \<and> length (tandbot st) = 2 \<and>
     bot_unlinked 0 ''leaf gone'' dcc st = Some st' \<and> tandbot st' = []"
proof -
  obtain dcc st where e: "example_state dcc st" using example_run by blast
  then obtain t s where x: "botnet_run ''hub'' (dcc, st)" "dcc = [leaf_dcc DCC_BOT]" "tandbot st = [(1, t), (2, s)]"
      "t_bot t = ''leaf''" "t_uplink t = Me" "t_bot s = ''far''" "t_uplink s = Up 1"
    unfolding example_state_def by blast
  have ok: "bots_ok st" using botnet_run_ok [OF x(1)] by (simp add: state_ok_def)
  have n: "newsplit ''leaf gone'' = (''leaf'', ''gone'')" by (simp add: newsplit_eq)
  have f: "findbot st ''leaf'' = Some 1" using findbot_Some [OF ok] x(3,4) by auto
  have "t_via t = Some 1" using ok x(3,5) by (simp add: bots_ok_eq)
  then have nb: "nextbot dcc st ''leaf'' = Some (int 0)"
    using f x(2-4) by (simp add: nextbot_def leaf_dcc_def op_strcasecmp_refl)
  have "\<exists>st'. bot_unlinked 0 ''leaf gone'' dcc st = Some st' \<and>
    (if nextbot dcc st (fst (newsplit ''leaf gone'')) = Some (int 0)
     then \<exists>w t. findbot st (fst (newsplit ''leaf gone'')) = Some w \<and> (w, t) \<in> set (tandbot st) \<and>
       tandbot st' = (if op_strcasecmp (t_bot t) (fst (newsplit ''leaf gone'')) = 0
         then filter (\<lambda>x. fst x \<noteq> w) (purge {w} (tandbot st)) else purge {w} (tandbot st)) \<and>
       mset (party st') = filter_mset (\<lambda>p. \<forall>x \<in> hangs_on st w. \<not> on_bot (t_bot (snd x)) p) (mset (party st))
     else st' = st)"
    by (rule bot_unlinked_removes [OF x(1)]) simp_all
  then obtain st' u where st': "bot_unlinked 0 ''leaf gone'' dcc st = Some st'" "(1, u) \<in> set (tandbot st)"
      "tandbot st' = (if op_strcasecmp (t_bot u) ''leaf'' = 0
         then filter (\<lambda>x. fst x \<noteq> 1) (purge {1} (tandbot st)) else purge {1} (tandbot st))"
    using nb f by (auto simp: n)
  have "u = t" using st'(2) x(3) by simp
  moreover have "op_strcasecmp (t_bot t) ''leaf'' = 0" unfolding x(4) by (rule op_strcasecmp_refl) simp
  ultimately have "tandbot st' = []" using st'(3) x(3,5,7) by simp
  then show ?thesis using x(1,3) st'(1) by (intro exI [of _ dcc] exI [of _ st] exI [of _ st']) simp
qed

text \<open>
  C28: the numbers of bots and users with which a lost link is announced are the numbers of bots and
  users that \<open>lostdcc\<close> removes, and the counts and the removal return.
\<close>

theorem lostdcc_counts:
  assumes run: "botnet_run me (dcc, st)" "cstring me" and n: "n < length dcc" "d_type (dcc ! n) = DCC_BOT"
    and w: "(w, t) \<in> set (tandbot st)" "op_strcasecmp (t_bot t) (d_nick (dcc ! n)) = 0"
  shows "\<exists>bots users dcc' st'.
    bots_in_subtree (findbot st (d_nick (dcc ! n))) st = Some bots \<and>
    users_in_subtree (findbot st (d_nick (dcc ! n))) st = Some users \<and>
    lostdcc n dcc st = Some (dcc', st') \<and>
    length (tandbot st') + bots = length (tandbot st) \<and> length (party st') + users = length (party st)"
proof -
  have ok: "bots_ok st" "dcc_ok dcc" "party_ok (party st)" using botnet_run_ok [OF run] by (simp_all add: state_ok_def)
  then have "cstring (d_nick (dcc ! n))" using n(1) by simp
  from lostdcc_count [OF ok(1,3) n w this] show ?thesis by blast
qed

theorem lostdcc_counts_witness:
  "\<exists>dcc st bots users dcc' st'. botnet_run ''hub'' (dcc, st) \<and> length (tandbot st) = 2 \<and>
    bots_in_subtree (findbot st ''leaf'') st = Some bots \<and> users_in_subtree (findbot st ''leaf'') st = Some users \<and>
    lostdcc 0 dcc st = Some (dcc', st') \<and> length (tandbot st') + bots = 2 \<and> length (party st') + users = 0"
proof -
  obtain dcc st where "example_state dcc st" using example_run by blast
  then obtain t s where x: "botnet_run ''hub'' (dcc, st)" "dcc = [leaf_dcc DCC_BOT]" "tandbot st = [(1, t), (2, s)]"
      "t_bot t = ''leaf''" "party st = []"
    unfolding example_state_def by blast
  have d: "0 < length dcc" "d_type (dcc ! 0) = DCC_BOT" "d_nick (dcc ! 0) = ''leaf''" using x(2) by (simp_all add: leaf_dcc_def)
  have t: "(1, t) \<in> set (tandbot st)" "op_strcasecmp (t_bot t) (d_nick (dcc ! 0)) = 0"
    using x(3) unfolding x(4) d(3) by (simp, intro op_strcasecmp_refl, simp)
  have "cstring ''hub''" by simp
  from lostdcc_counts [OF x(1) this d(1,2) t] show ?thesis using x(1,3,5) unfolding d(3) by (simp only: list.size) fastforce
qed

text \<open>
  C34: what \<open>botunlink\<close> returns and does.  Unlinking everything returns 0 and leaves no link, no bot and nobody on the party line, unless the
  request is a shared one, \<open>share_unlinks\<close> is off and some linked bot shares users: then it stops there with - 1.  Unlinking one name drops exactly
  the first connection that is a link or an attempt to link with that name and returns 1 (- 1 and no change where that is such a kept link);
  without one it returns 1 and takes the bot of that name, if there is one, out of the list, and 0 without any change otherwise.
\<close>

theorem botunlink_returns:
  assumes run: "botnet_run me (dcc, st)" "cstring me"
  shows "if c0 nick = CHR ''*''
    then \<exists>dcc' st'. botunlink su idx nick dcc st = Some (if \<exists>d \<in> set dcc. keeps su idx d then - 1 else 0, dcc', st') \<and>
      (\<not> (\<exists>d \<in> set dcc. keeps su idx d) \<longrightarrow> (\<forall>d \<in> set dcc'. no_link d) \<and> tandbot st' = [] \<and> party st' = [])
    else case find_idx (links nick) dcc of
        Some k \<Rightarrow> if keeps su idx (dcc ! k) then botunlink su idx nick dcc st = Some (- 1, dcc, st)
          else \<exists>dcc' st'. lostdcc k dcc st = Some (dcc', st') \<and> botunlink su idx nick dcc st = Some (1, dcc', st')
      | None \<Rightarrow>
          (case findbot st nick of
             None \<Rightarrow> botunlink su idx nick dcc st = Some (0, dcc, st)
           | Some b \<Rightarrow> \<exists>t st'. (b, t) \<in> set (tandbot st) \<and> botunlink su idx nick dcc st = Some (1, dcc, st') \<and>
               tandbot st' = remove1 (b, t) (tandbot st) \<and> party st' = party st)"
proof -
  have ok: "bots_ok st" "dcc_ok dcc" using botnet_run_ok [OF run] by (simp_all add: state_ok_def)
  show ?thesis
  proof (cases "c0 nick = CHR ''*''")
    case True
    then show ?thesis using botunlink_all [OF ok True, of su idx] by auto
  next
    case False
    have gone: "tandbot st = pre @ (b, t) # post \<Longrightarrow> remove1 (b, t) (tandbot st) = pre @ post" for pre b t post
    proof -
      assume l: "tandbot st = pre @ (b, t) # post"
      have "distinct (map fst (tandbot st))" using forest_fresh [of Map.empty "tandbot st"] ok(1) by (simp add: bots_ok_def)
      then show ?thesis unfolding l by (simp add: remove1_append) (metis fst_conv image_eqI)
    qed
    show ?thesis
      using False botunlink_one [OF ok False, of su idx] gone
      by (simp cong: option.case_cong split: option.splits if_splits) fastforce?
  qed
qed

theorem botunlink_returns_witness:
  "\<exists>dcc st dcc' st'. botnet_run ''hub'' (dcc, st) \<and> length (tandbot st) = 2 \<and>
     botunlink True 0 ''*'' dcc st = Some (0, dcc', st') \<and> tandbot st' = [] \<and> party st' = []"
proof -
  obtain dcc st where "example_state dcc st" using example_run by blast
  then have x: "botnet_run ''hub'' (dcc, st)" "length (tandbot st) = 2" unfolding example_state_def by auto
  have "cstring ''hub''" "\<not> (\<exists>d \<in> set dcc. keeps True 0 d)" "c0 ''*'' = CHR ''*''" by (simp_all add: keeps_def)
  then show ?thesis using botunlink_returns [OF x(1), of "''*''" True 0] x by auto
qed

text \<open>
  C33: asked to unlink a bot that is linked behind another one, \<open>botunlink\<close> takes it for a ghost and removes
  its record and nothing else, neither what is behind it nor its users: a bot that hangs on it keeps an \<open>uplink\<close> to the freed
  node, through which \<open>lastbot\<close> then reads.
\<close>

theorem botunlink_ghost_dangles:
  assumes run: "botnet_run me (dcc, st)" "cstring me" and nick: "cstring nick" "c0 nick \<noteq> CHR ''*''"
    and far: "\<forall>d \<in> set dcc. op_strcasecmp (d_nick d) nick \<noteq> 0"
    and b: "(b, t) \<in> set (tandbot st)" "op_strcasecmp (t_bot t) nick = 0"
    and c: "(c, s) \<in> set (tandbot st)" "t_uplink s = Up b"
  shows "\<exists>st'. botunlink share_unlinks idx nick dcc st = Some (1, dcc, st') \<and> tandbot st' = remove1 (b, t) (tandbot st) \<and> party st' = party st \<and>
    findbot st' (t_bot s) = Some c \<and> lastbot st' (t_bot s) = None"
proof -
  have ok: "bots_ok st" using botnet_run_ok [OF run] by (simp add: state_ok_def)
  from botunlink_ghost [OF ok nick far b c, of share_unlinks idx] show ?thesis by blast
qed

lemma example_run_3:
  "\<exists>dcc st s u. botnet_run ''hub'' (dcc, st) \<and> dcc = [leaf_dcc DCC_BOT] \<and> (2, s) \<in> set (tandbot st) \<and> t_bot s = ''far'' \<and>
     (3, u) \<in> set (tandbot st) \<and> t_uplink u = Up 2"
proof -
  obtain dcc st where e: "example_state dcc st" using example_run by blast
  then obtain t s where x: "botnet_run ''hub'' (dcc, st)" "dcc = [leaf_dcc DCC_BOT]" "botnetnick st = ''hub''"
      "tandbot st = [(1, t), (2, s)]" "t_bot t = ''leaf''" "t_uplink t = Me" "t_bot s = ''far''" "t_uplink s = Up 1"
    unfolding example_state_def by blast
  let ?par = "''new far -B''"
  have n: "newsplit ?par = (''new'', ''far -B'')" "newsplit ''far -B'' = (''far'', ''-B'')" by (simp_all add: newsplit_eq)
  have ok: "bots_ok st" "dcc_ok dcc" using botnet_run_ok [OF x(1)] by (simp_all add: state_ok_def)
  have c: "istr_canon ''new'' \<noteq> istr_canon ''hub''" "istr_canon ''new'' \<noteq> istr_canon ''leaf''"
    "istr_canon ''new'' \<noteq> istr_canon ''far''" "\<not> bogus_name ''new''" "op_strcasecmp ''new'' ''hub'' \<noteq> 0" by code_simp+
  have f: "findbot st ''far'' = Some 2" "findbot st ''new'' = None"
    using findbot_Some [OF ok(1)] findbot_None [OF ok(1)] x(4,5,7) c by auto
  have "t_via t = Some 1" "t_via s = t_via t" using ok(1) x(4,6,8) by (simp_all add: bots_ok_eq)
  then have "nextbot dcc st ''far'' = Some 0"
    using f x(2,4,5) by (simp add: nextbot_def leaf_dcc_def op_strcasecmp_refl)
  then have fits: "nlinked_fits 0 ?par dcc st"
    using f(2) c x(2,3) by (simp add: nlinked_fits_def n in_chain_def leaf_dcc_def)
  have own: "own_name st (fst (newsplit ?par))" using c x(3) by (simp add: own_name_def n)
  have "\<exists>r dcc' st'. bot_nlinked 3 0 ?par dcc st = Some (r, dcc', st') \<and> bots_ok st' \<and> dcc_ok dcc' \<and>
    (r = Linked \<longleftrightarrow> nlinked_fits 0 ?par dcc st) \<and>
    (if r = Linked
     then dcc' = dcc \<and> (\<exists>t. tandbot st' = tandbot st @ [(3, t)] \<and> t_bot t = fst (newsplit ?par) \<and>
         (\<exists>u. findbot st (fst (newsplit (snd (newsplit ?par)))) = Some u \<and> t_uplink t = Up u)) \<and>
       nextbot dcc st' (fst (newsplit ?par)) = Some (int 0) \<and> party st' = party st \<and> botnetnick st' = botnetnick st
     else lostdcc 0 dcc st = Some (dcc', st'))"
    by (rule bot_nlinked_ok [OF ok]) (simp_all add: x(2,3,4) c n)
  then obtain st' u where st': "bot_nlinked 3 0 ?par dcc st = Some (Linked, dcc, st')"
      "tandbot st' = tandbot st @ [(3, u)]" "t_uplink u = Up 2"
    using fits f(1) by (auto simp: n)
  have "botnet_run ''hub'' (dcc, st')"
    by (rule botnet_run.step [OF x(1) botnet_step.nlinked [OF _ _ _ _ own st'(1)]]) (simp_all add: x(2,4))
  then show ?thesis using st' x(2,4,7) by auto
qed

theorem botunlink_ghost_dangles_witness:
  "\<exists>dcc st st'. botnet_run ''hub'' (dcc, st) \<and> botunlink True (- 3) ''far'' dcc st = Some (1, dcc, st') \<and>
     (\<exists>n. findbot st' n = Some 3 \<and> lastbot st' n = None)"
proof -
  obtain dcc st s u where x: "botnet_run ''hub'' (dcc, st)" "dcc = [leaf_dcc DCC_BOT]" "(2, s) \<in> set (tandbot st)"
      "t_bot s = ''far''" "(3, u) \<in> set (tandbot st)" "t_uplink u = Up 2"
    using example_run_3 by blast
  have "op_strcasecmp (t_bot s) ''far'' = 0" unfolding x(4) by (rule op_strcasecmp_refl) simp
  moreover have "\<forall>d \<in> set dcc. op_strcasecmp (d_nick d) ''far'' \<noteq> 0" using x(2) example_names by (simp add: leaf_dcc_def)
  moreover have "cstring ''hub''" "cstring ''far''" "c0 ''far'' \<noteq> CHR ''*''" by simp_all
  ultimately show ?thesis using botunlink_ghost_dangles [OF x(1) _ _ _ _ x(3) _ x(5,6), of "''far''" True "- 3"] x(1) by blast
qed

text \<open>
  on the party line, a user who joined is found under his bot and socket, keeps the places of all
  others, and when he leaves exactly he is gone.
\<close>

theorem party_join_part:
  assumes run: "botnet_run me (dcc, st)" "cstring me" and b: "cstring b" "length b \<le> HANDLEN"
    and join: "addparty now b nick ch flag sock from_host st = (old, i, st')"
  shows "getparty st' b sock = int i \<and> p_chan (party st' ! i) = ch \<and>
    (\<forall>j < length (party st). j \<noteq> i \<longrightarrow> party st' ! j = party st ! j) \<and>
    mset (party (remparty b sock st')) = filter_mset (\<lambda>p. \<not> party_is b sock p) (mset (party st')) \<and>
    getparty (remparty b sock st') b sock = - 1"
proof -
  have "party_ok (party st)" using botnet_run_ok [OF run] by (simp add: state_ok_def)
  note a = addparty_ok [OF this b join]
  then have r: "mset (party (remparty b sock st')) = filter_mset (\<lambda>p. \<not> party_is b sock p) (mset (party st'))"
    using remparty_exact b(1) by blast
  then have "\<forall>p \<in> set (party (remparty b sock st')). \<not> party_is b sock p"
    by (metis (no_types, lifting) mem_Collect_eq set_mset_filter set_mset_mset)
  then have "getparty (remparty b sock st') b sock = - 1" using find_idx_None by (metis getparty_def option.simps(4))
  then show ?thesis using a r by blast
qed

theorem party_join_part_witness:
  "\<exists>dcc st old i st'. botnet_run ''hub'' (dcc, st) \<and> addparty 5 ''leaf'' ''joe'' 0 (CHR '' '') 7 ''u@h'' st = (old, i, st') \<and>
     getparty st' ''leaf'' 7 = int i \<and> getparty (remparty ''leaf'' 7 st') ''leaf'' 7 = - 1"
proof -
  obtain dcc st where "example_state dcc st" using example_run by blast
  then have x: "botnet_run ''hub'' (dcc, st)" unfolding example_state_def by blast
  obtain old i st' where a: "addparty 5 ''leaf'' ''joe'' 0 (CHR '' '') 7 ''u@h'' st = (old, i, st')" by (metis surj_pair)
  have "cstring ''hub''" "cstring ''leaf''" "length ''leaf'' \<le> HANDLEN" by simp_all
  from party_join_part [OF x this a] show ?thesis using x a by blast
qed

end
