(* ===== verification/ServerPenalty.thy ===== *)
theory ServerPenalty
  imports StrUtil Rfc1459
begin

text \<open>
  What a line costs the sender on an IRC server: \<open>calc_penalty\<close> and \<open>splitnicks\<close> of
  \<open>src/src/mod/server.mod/server.c\<close>, with the settings of the server module that they and the
  send queues read.
\<close>

section \<open>Settings\<close>

datatype dp_queue =
  DP_MODE | DP_MODE_NEXT | DP_SERVER | DP_SERVER_NEXT | DP_HELP | DP_HELP_NEXT | DP_OTHER

datatype nett =
  NETT_DALNET | NETT_EFNET | NETT_FREENODE | NETT_HYBRID_EFNET | NETT_IRCNET | NETT_LIBERA
| NETT_QUAKENET | NETT_RIZON | NETT_UNDERNET | NETT_TWITCH | NETT_OPHION | NETT_OTHER

text \<open>
  A channel as \<open>findchan\<close> and \<open>ismember\<close> see it: its members as a list, and as the lookup function
  of its hash table once there is one.
\<close>

record chanset_t =
  chan_name :: string
  member_ht :: "(string \<Rightarrow> bool) option"
  member :: "string list"

text \<open>
  The variables of the module that the queues read and do not change.  \<open>tcl_out\<close> tells whether a
  Tcl binding asks that a line about to be queued is dropped.  \<open>lhs_first\<close> is the order in which
  the compiler evaluates \<open>last_time += calc_penalty(...)\<close>, where the call changes \<open>last_time\<close> too.
\<close>

record server_cfg =
  serv :: int
  msgrate :: int
  maxqmsg :: int
  double_mode :: bool
  double_server :: bool
  double_help :: bool
  use_penalties :: bool
  net_type_int :: nett
  use_fastdeq :: int
  stackablecmds :: string
  stackable2cmds :: string
  stack_limit :: int
  optimize_kicks :: int
  kick_method :: int
  chan_by_name :: "(string \<Rightarrow> chanset_t option) option"
  chanset :: "chanset_t list"
  tcl_out :: "dp_queue \<Rightarrow> string \<Rightarrow> bool"
  lhs_first :: bool

section \<open>Lists of nicks and of words\<close>

text \<open>\<open>splitnicks\<close>: the part before the next comma and what \<open>*rest\<close> points at afterwards.\<close>

definition splitnicks :: "string \<Rightarrow> string \<times> string" where
  "splitnicks rest =
     (let o1 = dropWhile (\<lambda>c. c = CHR '' '') rest;
          r = takeWhile (\<lambda>c. c \<noteq> CHR '','') o1;
          q = drop (length r) o1
      in (r, if q \<noteq> [] then tl q else q))"

lemma splitnicks_eq:
  "splitnicks rest =
     (takeWhile (\<lambda>c. c \<noteq> CHR '','') (dropWhile (\<lambda>c. c = CHR '' '') rest),
      tl (dropWhile (\<lambda>c. c \<noteq> CHR '','') (dropWhile (\<lambda>c. c = CHR '' '') rest)))"
proof -
  have "(if q \<noteq> [] then tl q else q) = tl q" for q :: string by (cases q) simp_all
  then show ?thesis by (simp only: splitnicks_def Let_def dropWhile_eq_drop [symmetric])
qed

lemma splitnicks_less: "rest \<noteq> [] \<Longrightarrow> length (snd (splitnicks rest)) < length rest"
proof -
  assume "rest \<noteq> []"
  let ?o = "dropWhile (\<lambda>c. c = CHR '' '') rest"
  have "length (tl (dropWhile (\<lambda>c. c \<noteq> CHR '','') ?o)) \<le> length ?o - 1"
    using length_dropWhile_le [of "\<lambda>c. c \<noteq> CHR '',''" ?o] by simp
  then show ?thesis
    using length_dropWhile_le [of "\<lambda>c. c = CHR '' ''" rest] \<open>rest \<noteq> []\<close>
    unfolding splitnicks_eq snd_conv by (cases rest; cases ?o) fastforce+
qed

lemma splitnicks_shorter: "(nick, nicks') = splitnicks nicks \<Longrightarrow> nicks \<noteq> [] \<Longrightarrow> length nicks' < length nicks"
  by (metis splitnicks_less snd_conv)

lemma splitnicks_Nil [simp]: "splitnicks [] = ([], [])"
  by (simp add: splitnicks_def)

text \<open>The loop \<open>while (strlen(nicks) > 0) nick = splitnicks(&nicks)\<close>.\<close>

function nicks_of :: "string \<Rightarrow> string list" where
  "nicks_of nicks =
     (if nicks = [] then []
      else let (nick, nicks) = splitnicks nicks in nick # nicks_of nicks)"
  by pat_completeness auto
termination
  by (relation "measure length") (simp, metis splitnicks_less in_measure snd_conv)

declare nicks_of.simps [simp del]

lemma newsplit_less: "rest \<noteq> [] \<Longrightarrow> length (snd (newsplit rest)) < length rest"
proof -
  assume ne: "rest \<noteq> []"
  define r where "r = drop (op_simd_count_leading True (CHR '' '') rest) rest"
  define n where "n = op_simd_find_delim True (CHR '' '') NUL r"
  have "snd (newsplit rest) = tl (drop n r)"
    by (simp add: newsplit_def Let_def r_def n_def)
  moreover have "length (tl (drop n r)) \<le> length rest - 1" by (simp add: r_def)
  ultimately show ?thesis using ne by (cases rest) auto
qed

text \<open>The loop \<open>while (strlen(s) > 0) newsplit(&s)\<close>.\<close>

function words_of :: "string \<Rightarrow> string list" where
  "words_of s =
     (if s = [] then []
      else let (w, s) = newsplit s in w # words_of s)"
  by pat_completeness auto
termination
  by (relation "measure length") (simp, metis newsplit_less in_measure snd_conv)

declare words_of.simps [simp del]

lemma newsplit_one_word:
  assumes "cstring (w @ r)" "CHR '' '' \<notin> set w" "w \<noteq> []"
  shows "newsplit (w @ CHR '' '' # r) = (w, r)"
proof -
  have "dropWhile (\<lambda>c. c = CHR '' '') (w @ CHR '' '' # r) = w @ CHR '' '' # r" using assms by (cases w) auto
  moreover have "cstring (w @ CHR '' '' # r)" using assms(1) by (simp add: cstring_def)
  moreover have "takeWhile (\<lambda>c. c \<noteq> CHR '' '') (w @ CHR '' '' # r) = w"
    "dropWhile (\<lambda>c. c \<noteq> CHR '' '') (w @ CHR '' '' # r) = CHR '' '' # r"
    using assms(2) by (induction w) auto
  ultimately show ?thesis by (simp add: newsplit_eq)
qed

section \<open>Penalties\<close>

definition is_cmd :: "string \<Rightarrow> string \<Rightarrow> bool" where
  "is_cmd cmd name \<longleftrightarrow> op_strcasecmp cmd name = 0"

text \<open>The victims of a KICK, counted up to the first empty one.\<close>

function kick_victims :: "string \<Rightarrow> string \<Rightarrow> int \<Rightarrow> int" where
  "kick_victims par3 par2 penalty =
     (if par3 = [] then penalty
      else let (par3, par2) = splitnicks par2 in kick_victims par3 par2 (penalty + 1))"
  by pat_completeness auto
termination
proof (relation "measure (\<lambda>(par3, par2, _). length par2 + (if par3 = [] then 0 else 1))", goal_cases)
  case (2 par3 par2 penalty x p3 p2)
  then have "splitnicks par2 = (p3, p2)" by simp
  with 2 show ?case using splitnicks_less [of par2] by (cases "par2 = []") auto
qed simp

declare kick_victims.simps [simp del]

definition kick_penalty :: "string \<Rightarrow> int \<Rightarrow> int" where
  "kick_penalty msg penalty =
     (let (par1, msg) = newsplit msg;
          (par2, msg) = newsplit msg;
          (par3, par2) = splitnicks par2;
          ii = kick_victims par3 par2 (penalty + 1);
          (par3, par1) = splitnicks par1
      in ii + ii * int (length (nicks_of par1)))"

definition mode_char :: "char \<Rightarrow> int" where
  "mode_char c = (if c \<in> set ''ntimps'' then 3 else if c \<notin> set ''+-'' then 1 else 0)"

definition mode_penalty :: "string \<Rightarrow> int \<Rightarrow> int" where
  "mode_penalty msg penalty =
     (let (par1, msg) = newsplit msg;
          (par2, msg) = newsplit msg;
          i = (if par2 = [] then 1 else 0) + sum_list (map mode_char par2) + 2 * int (length (words_of msg));
          ii = int (length (nicks_of par1))
      in penalty + ii * i)"

definition topic_penalty :: "string \<Rightarrow> int \<Rightarrow> int" where
  "topic_penalty msg penalty =
     (let (par1, msg) = newsplit msg;
          (par2, msg) = newsplit msg
      in penalty + 1 +
           (if par2 \<noteq> [] then 2 + 2 * int (length (nicks_of (snd (splitnicks par1)))) else 0))"

definition who_penalty :: "string \<Rightarrow> int \<Rightarrow> int" where
  "who_penalty msg penalty =
     penalty + sum_list (map (\<lambda>par2. if 4 < length par2 then 3 else 5) (nicks_of (fst (newsplit msg))))"

definition command_penalty :: "string \<Rightarrow> string \<Rightarrow> int \<Rightarrow> int" where
  "command_penalty cmd msg penalty =
     (if is_cmd cmd ''KICK'' then kick_penalty msg penalty
      else if is_cmd cmd ''MODE'' then mode_penalty msg penalty
      else if is_cmd cmd ''TOPIC'' then topic_penalty msg penalty
      else if is_cmd cmd ''PRIVMSG'' \<or> is_cmd cmd ''NOTICE''
        then penalty + int (length (nicks_of (fst (newsplit msg))))
      else if is_cmd cmd ''WHO'' then who_penalty msg penalty
      else if is_cmd cmd ''AWAY'' then (if msg \<noteq> [] then penalty + 2 else penalty + 1)
      else if is_cmd cmd ''INVITE'' then penalty + 3
      else if is_cmd cmd ''JOIN'' then penalty + 2
      else if is_cmd cmd ''PART'' then penalty + 4
      else if is_cmd cmd ''VERSION'' then penalty + 2
      else if is_cmd cmd ''TIME'' then penalty + 2
      else if is_cmd cmd ''TRACE'' then penalty + 2
      else if is_cmd cmd ''NICK'' then penalty + 3
      else if is_cmd cmd ''ISON'' then penalty + 1
      else if is_cmd cmd ''WHOIS'' then penalty + 2
      else if is_cmd cmd ''DNS'' then penalty + 2
      else penalty + 1)"

definition short_penalty_net :: "server_cfg \<Rightarrow> bool" where
  "short_penalty_net cfg \<longleftrightarrow> net_type_int cfg \<in> {NETT_UNDERNET, NETT_QUAKENET, NETT_HYBRID_EFNET}"

text \<open>The change of \<open>last_time\<close> inside the call, and the value returned.\<close>

definition calc_penalty :: "server_cfg \<Rightarrow> string \<Rightarrow> int \<times> int" where
  "calc_penalty cfg msg =
     (if \<not> use_penalties cfg \<and> \<not> short_penalty_net cfg then (0, 0)
      else
        let (cmd, msg) = newsplit msg;
            i = int (length msg)
        in if short_penalty_net cfg then (- 2 + (2 + i div 120), 0)
           else
             let penalty = command_penalty cmd msg (1 + i div 100);
                 penalty = (if 99 < penalty then 99 else penalty);
                 penalty = (if penalty < 2 then 2 else penalty)
             in (- 2, penalty))"

text \<open>
  A line is charged between 2 and 99 seconds, less the 2 seconds of the standard flood protection,
  where penalties are used; on the networks with the short formula \<open>last_time\<close> moves by one second
  for every 120 characters; elsewhere not at all.
\<close>

lemma calc_penalty_range:
  "calc_penalty cfg msg \<in>
     (if short_penalty_net cfg then {(int (length (snd (newsplit msg))) div 120, 0)}
      else if use_penalties cfg then {- 2} \<times> {2..99}
      else {(0, 0)})"
  by (auto simp: calc_penalty_def Let_def split_def)

end
