(* ===== verification/Ratelimit.thy ===== *)
theory Ratelimit
  imports Prelude
begin

text \<open>
  The token-bucket limiter of \<open>src/libop/include/op_ratelimit.h\<close>, which the server module puts in
  front of its send queues.  Times are microseconds in 64 bits; tokens are kept in thousandths, in
  32 bits.  \<open>None\<close> stands for the division by zero of a rate above a million events per second.
\<close>

section \<open>The limiter\<close>

abbreviation OP_RATELIMIT_SCALE :: "'a::len word" where "OP_RATELIMIT_SCALE \<equiv> 1000"

abbreviation UINT64_MAX :: "64 word" where "UINT64_MAX \<equiv> - 1"

record op_ratelimit_t =
  last_refill :: "64 word"
  rate_usec :: "64 word"
  tokens :: "32 word"
  capacity :: "32 word"

definition op_ratelimit_init :: "32 word \<Rightarrow> 32 word \<Rightarrow> 64 word \<Rightarrow> op_ratelimit_t" where
  "op_ratelimit_init cap rate_per_sec now_usec =
     \<lparr>last_refill = now_usec,
      rate_usec = (if 0 < rate_per_sec then ucast (1000000 div rate_per_sec) else UINT64_MAX),
      tokens = cap * OP_RATELIMIT_SCALE,
      capacity = cap * OP_RATELIMIT_SCALE\<rparr>"

definition ratelimit_refill :: "op_ratelimit_t \<Rightarrow> 64 word \<Rightarrow> op_ratelimit_t option" where
  "ratelimit_refill rl now_usec =
     (let elapsed = (if last_refill rl < now_usec then now_usec - last_refill rl else 0);
          rl = rl\<lparr>last_refill := now_usec\<rparr>
      in if rate_usec rl < UINT64_MAX \<and> 0 < elapsed then
           if rate_usec rl = 0 then None
           else let new_tokens = (elapsed div rate_usec rl) * OP_RATELIMIT_SCALE;
                    total = ucast (tokens rl) + new_tokens
                in Some (rl\<lparr>tokens := (if ucast (capacity rl) < total then capacity rl else ucast total)\<rparr>)
         else Some rl)"

definition op_ratelimit_check :: "op_ratelimit_t \<Rightarrow> 64 word \<Rightarrow> (bool \<times> op_ratelimit_t) option" where
  "op_ratelimit_check rl now_usec =
     (case ratelimit_refill rl now_usec of
        None \<Rightarrow> None
      | Some rl \<Rightarrow>
          if tokens rl < OP_RATELIMIT_SCALE then Some (False, rl)
          else Some (True, rl\<lparr>tokens := tokens rl - OP_RATELIMIT_SCALE\<rparr>))"

definition op_ratelimit_check_n :: "op_ratelimit_t \<Rightarrow> 64 word \<Rightarrow> 32 word \<Rightarrow> (bool \<times> op_ratelimit_t) option" where
  "op_ratelimit_check_n rl now_usec n =
     (case ratelimit_refill rl now_usec of
        None \<Rightarrow> None
      | Some rl \<Rightarrow>
          let cost = n * OP_RATELIMIT_SCALE
          in if tokens rl < cost then Some (False, rl)
             else Some (True, rl\<lparr>tokens := tokens rl - cost\<rparr>))"

definition op_ratelimit_tokens :: "op_ratelimit_t \<Rightarrow> 32 word" where
  "op_ratelimit_tokens rl = tokens rl div OP_RATELIMIT_SCALE"

definition op_ratelimit_reset :: "op_ratelimit_t \<Rightarrow> 64 word \<Rightarrow> op_ratelimit_t" where
  "op_ratelimit_reset rl now_usec = rl\<lparr>tokens := capacity rl, last_refill := now_usec\<rparr>"

definition op_ratelimit_drain :: "op_ratelimit_t \<Rightarrow> op_ratelimit_t" where
  "op_ratelimit_drain rl = rl\<lparr>tokens := 0\<rparr>"

section \<open>The limiter as a bucket of whole tokens\<close>

text \<open>
  A limiter in use has a proper interval and never more tokens than the capacity.  \<open>whole\<close> counts
  the tokens; a clock that steps back counts as no time passed.
\<close>

definition ratelimit_ok :: "op_ratelimit_t \<Rightarrow> bool" where
  "ratelimit_ok rl \<longleftrightarrow> 0 < rate_usec rl \<and> rate_usec rl < UINT64_MAX \<and> tokens rl \<le> capacity rl"

abbreviation whole :: "32 word \<Rightarrow> nat" where "whole t \<equiv> unat t div 1000"

definition refills :: "op_ratelimit_t \<Rightarrow> 64 word \<Rightarrow> nat" where
  "refills rl t = (unat t - unat (last_refill rl)) div unat (rate_usec rl)"

text \<open>The checks at a sequence of clock readings, and how many of them let the event pass.\<close>

fun ratelimit_run :: "op_ratelimit_t \<Rightarrow> 64 word list \<Rightarrow> (nat \<times> op_ratelimit_t) option" where
  "ratelimit_run rl [] = Some (0, rl)"
| "ratelimit_run rl (t # ts) =
     (case op_ratelimit_check rl t of
        None \<Rightarrow> None
      | Some (ok, rl) \<Rightarrow>
          (case ratelimit_run rl ts of
             None \<Rightarrow> None
           | Some (n, rl) \<Rightarrow> Some ((if ok then Suc n else n), rl)))"

lemma unat_elapsed: "unat (if l < t then t - l else (0 :: 64 word)) = unat t - unat l"
  by (auto simp: unat_sub word_less_nat_alt word_le_nat_alt)

lemma unat_ucast_up: "unat (ucast (a :: 32 word) :: 64 word) = unat a"
proof -
  have "unat a < 2 ^ 32" using unsigned_less [of a] by simp
  then show ?thesis by (simp add: unsigned_ucast_eq take_bit_eq_mod)
qed

lemma ucast_ucast_up [simp]: "ucast (ucast (a :: 32 word) :: 64 word) = a"
  by (rule bit_word_eqI) (simp add: bit_simps)

lemma ucast_less_ucast: "ucast (a :: 32 word) < (b :: 64 word) \<longleftrightarrow> unat a < unat b"
  by (simp add: word_less_nat_alt unat_ucast_up)

lemma unat_ucast_le: "unat (ucast (t :: 64 word) :: 32 word) \<le> unat t"
  by (simp add: unsigned_ucast_eq take_bit_eq_mod)

lemma ratelimit_refill_Some:
  assumes "ratelimit_ok rl"
  obtains rl' where "ratelimit_refill rl t = Some rl'" "ratelimit_ok rl'" "last_refill rl' = t"
    "rate_usec rl' = rate_usec rl" "capacity rl' = capacity rl"
    "unat (tokens rl') \<le> unat (tokens rl) + refills rl t * 1000"
proof -
  define el where "el = (if last_refill rl < t then t - last_refill rl else 0)"
  define total :: "64 word" where "total = ucast (tokens rl) + (el div rate_usec rl) * OP_RATELIMIT_SCALE"
  define tk where "tk = (if 0 < el then if ucast (capacity rl) < total then capacity rl else ucast total else tokens rl)"
  have "ratelimit_refill rl t = Some (rl\<lparr>last_refill := t, tokens := tk\<rparr>)"
    using assms by (auto simp: ratelimit_refill_def ratelimit_ok_def Let_def tk_def el_def total_def)
  moreover have "tk \<le> capacity rl"
    using assms unat_ucast_le [of total]
    by (simp add: tk_def ratelimit_ok_def word_le_nat_alt ucast_less_ucast)
  moreover have "unat tk \<le> unat (tokens rl) + refills rl t * 1000"
  proof (cases "0 < el")
    case True
    have "unat total \<le> unat (tokens rl) + unat el div unat (rate_usec rl) * 1000"
      unfolding total_def
      by (simp add: unat_word_ariths unat_div unat_ucast_up)
    moreover have "unat el div unat (rate_usec rl) = refills rl t"
      by (simp add: refills_def el_def unat_elapsed)
    ultimately show ?thesis
      using True unat_ucast_le [of total] by (auto simp: tk_def ucast_less_ucast)
  qed (simp add: tk_def)
  ultimately show thesis
    using assms by (intro that [of "rl\<lparr>last_refill := t, tokens := tk\<rparr>"]) (simp_all add: ratelimit_ok_def)
qed

lemma op_ratelimit_check_Some:
  assumes "ratelimit_ok rl"
  obtains ok rl' where "op_ratelimit_check rl t = Some (ok, rl')" "ratelimit_ok rl'" "last_refill rl' = t"
    "rate_usec rl' = rate_usec rl" "capacity rl' = capacity rl"
    "unat (tokens rl') + (if ok then 1000 else 0) \<le> unat (tokens rl) + refills rl t * 1000"
    "ok \<or> unat (tokens rl') < 1000"
proof -
  obtain r where r: "ratelimit_refill rl t = Some r" "ratelimit_ok r" "last_refill r = t"
      "rate_usec r = rate_usec rl" "capacity r = capacity rl"
      "unat (tokens r) \<le> unat (tokens rl) + refills rl t * 1000"
    using assms by (rule ratelimit_refill_Some)
  show thesis
  proof (cases "tokens r < OP_RATELIMIT_SCALE")
    case True
    then show thesis using r by (intro that [of False r]) (simp_all add: op_ratelimit_check_def word_less_nat_alt)
  next
    case False
    then have "unat (tokens r - 1000) = unat (tokens r) - 1000" "1000 \<le> unat (tokens r)"
      by (simp_all add: unat_sub word_le_nat_alt word_less_nat_alt)
    then show thesis using r False
      by (intro that [of True "r\<lparr>tokens := tokens r - 1000\<rparr>"])
        (auto simp: op_ratelimit_check_def ratelimit_ok_def word_le_nat_alt)
  qed
qed

lemma div_telescope:
  fixes a b c d :: nat
  assumes "a \<le> b" "b \<le> c"
  shows "(b - a) div d + (c - b) div d \<le> (c - a) div d"
proof -
  have "(b - a) div d + (c - b) div d \<le> ((b - a) + (c - b)) div d"
    by (subst div_add1_eq) simp
  then show ?thesis using assms by simp
qed

lemma ratelimit_run_Some:
  assumes "ratelimit_ok rl" "sorted (last_refill rl # ts)"
  shows "\<exists>n rl'. ratelimit_run rl ts = Some (n, rl') \<and> ratelimit_ok rl' \<and>
           n * 1000 + unat (tokens rl') \<le> unat (tokens rl) + refills rl (last (last_refill rl # ts)) * 1000"
  using assms
proof (induction ts arbitrary: rl)
  case Nil
  then show ?case by (simp add: refills_def)
next
  case (Cons t ts)
  obtain ok r where r: "op_ratelimit_check rl t = Some (ok, r)" "ratelimit_ok r" "last_refill r = t"
      "rate_usec r = rate_usec rl"
      "unat (tokens r) + (if ok then 1000 else 0) \<le> unat (tokens rl) + refills rl t * 1000"
    using Cons.prems(1) by (rule op_ratelimit_check_Some)
  have "sorted (last_refill r # ts)" using Cons.prems(2) r(3) by simp
  from Cons.IH [OF r(2) this] obtain n r' where n: "ratelimit_run r ts = Some (n, r')" "ratelimit_ok r'"
      "n * 1000 + unat (tokens r') \<le> unat (tokens r) + refills r (last (t # ts)) * 1000"
    using r(3) by auto
  let ?u = "last (t # ts)"
  have "t \<le> ?u" using Cons.prems(2) by (cases ts rule: rev_cases) auto
  then have "refills rl t + refills r ?u \<le> refills rl ?u"
    using Cons.prems(2) r(3,4) div_telescope [of "unat (last_refill rl)" "unat t" "unat ?u" "unat (rate_usec rl)"]
    by (simp add: refills_def word_le_nat_alt)
  then show ?case using r(1,5) n by (auto split: if_splits)
qed

text \<open>
  A check that comes before a whole interval has passed adds nothing, yet moves the clock.
\<close>

lemma op_ratelimit_check_early:
  assumes "ratelimit_ok rl" "unat t - unat (last_refill rl) < unat (rate_usec rl)"
  shows "op_ratelimit_check rl t =
    (if tokens rl < 1000 then Some (False, rl\<lparr>last_refill := t\<rparr>)
     else Some (True, rl\<lparr>last_refill := t, tokens := tokens rl - 1000\<rparr>))"
proof -
  define el where "el = (if last_refill rl < t then t - last_refill rl else 0)"
  have "unat el < unat (rate_usec rl)" using assms(2) by (simp add: el_def unat_elapsed)
  then have z: "el div rate_usec rl = 0" by (simp add: word_arith_nat_div)
  have "\<not> unat (capacity rl) < unat (tokens rl)" using assms(1) by (simp add: ratelimit_ok_def word_le_nat_alt)
  then have "ratelimit_refill rl t = Some (rl\<lparr>last_refill := t\<rparr>)"
    using assms(1) z unfolding ratelimit_refill_def Let_def el_def [symmetric]
    by (auto simp: ratelimit_ok_def ucast_less_ucast unat_ucast_up)
  then show ?thesis by (simp add: op_ratelimit_check_def)
qed

lemma ratelimit_run_early:
  assumes "ratelimit_ok rl"
    "successively (\<lambda>a b. unat b - unat a < unat (rate_usec rl)) (last_refill rl # ts)"
  shows "map_option fst (ratelimit_run rl ts) = Some (min (length ts) (whole (tokens rl)))"
  using assms
proof (induction ts arbitrary: rl)
  case (Cons t ts)
  define ok where "ok = (\<not> tokens rl < 1000)"
  define r where "r = rl\<lparr>last_refill := t, tokens := tokens rl - (if ok then 1000 else 0)\<rparr>"
  have c: "op_ratelimit_check rl t = Some (ok, r)"
    using op_ratelimit_check_early [of rl t] Cons.prems by (simp add: ok_def r_def)
  have u: "whole (tokens rl) = (if ok then Suc (whole (tokens r)) else 0)"
    "ok \<Longrightarrow> tokens rl - 1000 \<le> tokens rl" "\<not> ok \<Longrightarrow> whole (tokens r) = 0"
    by (auto simp: ok_def r_def word_less_nat_alt word_le_nat_alt unat_sub le_div_geq)
  have "ratelimit_ok r" using Cons.prems(1) u(2) by (auto simp: ratelimit_ok_def r_def)
  moreover have "successively (\<lambda>a b. unat b - unat a < unat (rate_usec r)) (last_refill r # ts)"
    using Cons.prems(2) by (cases ts) (simp_all add: r_def)
  ultimately have "map_option fst (ratelimit_run r ts) = Some (min (length ts) (whole (tokens r)))"
    by (rule Cons.IH)
  then show ?case using c u by (auto split: option.splits)
qed simp

section \<open>Properties\<close>

lemma op_ratelimit_init_ok:
  assumes "0 < rate" "rate \<le> 1000000"
  shows "ratelimit_ok (op_ratelimit_init cap rate now)"
proof -
  have "unat rate \<noteq> 0" "unat rate \<le> 1000000"
    using assms by (simp_all add: word_less_nat_alt word_le_nat_alt)
  then have "0 < 1000000 div unat rate" "1000000 div unat rate \<le> 1000000"
    by (simp_all add: div_greater_zero_iff)
  then have "0 < unat (1000000 div rate)" "unat (1000000 div rate) \<le> 1000000"
    by (simp_all add: unat_div)
  then show ?thesis
    using assms by (simp add: ratelimit_ok_def op_ratelimit_init_def word_less_nat_alt unat_ucast_up
        unsigned_minus_1_eq_mask mask_eq_exp_minus_1)
qed

text \<open>
  C38: the limiter admits no more events than the capacity and one for every full interval since
  it was set up.
\<close>

theorem ratelimit_run_bound:
  fixes cap rate :: "32 word" and now :: "64 word"
  assumes "0 < rate" "rate \<le> 1000000" "unat cap \<le> 4294967" "sorted (now # ts)"
  shows "\<exists>n rl. ratelimit_run (op_ratelimit_init cap rate now) ts = Some (n, rl) \<and>
           n \<le> unat cap + (unat (last (now # ts)) - unat now) div (1000000 div unat rate)"
proof -
  let ?rl = "op_ratelimit_init cap rate now"
  have "unat (cap * 1000) = unat cap * 1000" using assms(3) by (simp add: unat_word_ariths)
  moreover have "refills ?rl (last (now # ts)) = (unat (last (now # ts)) - unat now) div (1000000 div unat rate)"
    using assms(1) by (simp add: refills_def op_ratelimit_init_def unat_ucast_up unat_div)
  ultimately show ?thesis
    using ratelimit_run_Some [of ?rl ts] op_ratelimit_init_ok [OF assms(1,2), of cap now] assms(4)
    by (auto simp: op_ratelimit_init_def)
qed

theorem ratelimit_run_bound_witness:
  "\<exists>n rl. ratelimit_run (op_ratelimit_init 10 5 1000) [1000, 300000, 5000000] = Some (n, rl) \<and>
     n \<le> unat (10 :: 32 word) + (unat (last [1000, 1000, 300000, 5000000 :: 64 word]) - unat (1000 :: 64 word)) div (1000000 div unat (5 :: 32 word))"
  using ratelimit_run_bound [of 5 10 1000 "[1000, 300000, 5000000]"] by simp

text \<open>
  C39: when the checks come closer together than the interval, the bucket is never refilled: what
  it held is all that ever passes, however long the checks go on.
\<close>

theorem ratelimit_starves:
  assumes "ratelimit_ok rl"
    "successively (\<lambda>a b. unat b - unat a < unat (rate_usec rl)) (last_refill rl # ts)"
  shows "map_option fst (ratelimit_run rl ts) = Some (min (length ts) (whole (tokens rl)))"
  using assms by (rule ratelimit_run_early)

theorem ratelimit_starves_witness:
  "map_option fst (ratelimit_run (op_ratelimit_init 2 5 0) [199999, 399998, 599997, 799996]) = Some 2"
proof -
  have "successively (\<lambda>a b. unat b - unat a < 200000) [0, 199999, 399998, 599997, 799996 :: 64 word]"
    by simp
  then have "map_option fst (ratelimit_run (op_ratelimit_init 2 5 0) [199999, 399998, 599997, 799996])
      = Some (min (length [199999, 399998, 599997, 799996 :: 64 word]) (whole (tokens (op_ratelimit_init 2 5 0))))"
    by (intro ratelimit_starves op_ratelimit_init_ok) (simp_all add: op_ratelimit_init_def)
  moreover have "min (length [199999, 399998, 599997, 799996 :: 64 word]) (whole (tokens (op_ratelimit_init 2 5 0))) = 2"
    by (simp add: op_ratelimit_init_def)
  ultimately show ?thesis by (simp only:)
qed

end
