(* ===== verification/ServerQueue.thy ===== *)
theory ServerQueue
  imports ServerPenalty Ratelimit Prelude "HOL-Library.Monad_Syntax"
begin

text \<open>
  The queues of outgoing lines of \<open>src/src/mod/server.mod/server.c\<close>: \<open>queue_server\<close> puts a line
  into one of them, \<open>deq_msg\<close> sends from them, merging kicks (\<open>deq_kick\<close>) and commands that take
  several targets (\<open>fast_deq\<close>) on the way; \<open>check_queues\<close> follows a nick change.  Times are
  seconds.  \<open>None\<close> stands for an access to freed memory or through a null pointer, or a division by
  zero.  The log is left out; of the Tcl bindings only the answer to a line about to be queued
  is kept.
\<close>

section \<open>State\<close>

abbreviation SENDLINEMAX :: nat where "SENDLINEMAX \<equiv> 4096 + 511"

abbreviation MAXPENALTY :: int where "MAXPENALTY \<equiv> 10"

text \<open>
  A queue: the lines from \<open>head\<close> on, and what \<open>last\<close> points at: nothing, the last of these nodes,
  or a node that has been freed.
\<close>

datatype last_ptr = LNull | LTail | LFreed

record msgq_head =
  msgs :: "string list"
  last_node :: last_ptr
  tot :: int
  warned :: bool

record server =
  modeq :: msgq_head
  mq :: msgq_head
  hq :: msgq_head
  burst :: int
  last_time :: int
  lastpingtime :: int
  double_warned :: bool
  outgoing_rl :: op_ratelimit_t
  sent :: "string list"

definition crlf :: string where "crlf = [CHR 0x0D, CHR 0x0A]"

definition write_to_server :: "string \<Rightarrow> server \<Rightarrow> server" where
  "write_to_server s st = st\<lparr>sent := sent st @ [s @ crlf]\<rparr>"

text \<open>\<open>last_time += calc_penalty(msg)\<close>.\<close>

definition charge :: "server_cfg \<Rightarrow> string \<Rightarrow> server \<Rightarrow> server" where
  "charge cfg msg st =
     (let (d, penalty) = calc_penalty cfg msg
      in st\<lparr>last_time := (if lhs_first cfg then last_time st else last_time st + d) + penalty\<rparr>)"

fun queue_of :: "dp_queue \<Rightarrow> server \<Rightarrow> msgq_head" where
  "queue_of DP_MODE st = modeq st"
| "queue_of DP_MODE_NEXT st = modeq st"
| "queue_of DP_HELP st = hq st"
| "queue_of DP_HELP_NEXT st = hq st"
| "queue_of _ st = mq st"

fun set_queue :: "dp_queue \<Rightarrow> msgq_head \<Rightarrow> server \<Rightarrow> server" where
  "set_queue DP_MODE h st = st\<lparr>modeq := h\<rparr>"
| "set_queue DP_MODE_NEXT h st = st\<lparr>modeq := h\<rparr>"
| "set_queue DP_HELP h st = st\<lparr>hq := h\<rparr>"
| "set_queue DP_HELP_NEXT h st = st\<lparr>hq := h\<rparr>"
| "set_queue _ h st = st\<lparr>mq := h\<rparr>"

definition msgq_clear :: "msgq_head \<Rightarrow> msgq_head" where
  "msgq_clear qh = \<lparr>msgs = [], last_node = LNull, tot = 0, warned = False\<rparr>"

definition empty_msgq :: "server \<Rightarrow> server" where
  "empty_msgq st =
     st\<lparr>modeq := msgq_clear (modeq st), mq := msgq_clear (mq st), hq := msgq_clear (hq st), burst := 0\<rparr>"

text \<open>Freeing the head and unlinking it.\<close>

definition drop_head :: "msgq_head \<Rightarrow> msgq_head" where
  "drop_head h =
     h\<lparr>msgs := tl (msgs h), tot := tot h - 1,
       last_node := (if tl (msgs h) = [] then LNull else last_node h)\<rparr>"

section \<open>Merging commands: \<open>fast_deq\<close>\<close>

text \<open>
  The walk over the lines behind the head: the targets collected, the lines left, how many were
  merged, and whether the last node was.  \<open>victims\<close> starts as a zeroed buffer, so that formatting
  into it while it is empty writes through a null pointer.
\<close>

fun fast_scan ::
  "server_cfg \<Rightarrow> char \<Rightarrow> string \<Rightarrow> string \<Rightarrow> string \<Rightarrow> string list \<Rightarrow> string \<Rightarrow> int \<Rightarrow>
    (string \<times> string list \<times> int \<times> bool) option" where
  "fast_scan cfg sep cmd to msg [] victims cmd_count = Some (victims, [], cmd_count, False)"
| "fast_scan cfg sep cmd to msg (nm # ms) victims cmd_count =
     (let (nextcmd, nextmsg) = newsplit nm;
          (nextto, nextmsg) = newsplit nextmsg
      in if to \<noteq> nextto \<and> cmd = nextcmd \<and> msg = nextmsg \<and>
            length cmd + length victims + length nextto + length msg + 2 < SENDLINEMAX - 2 \<and>
            (stack_limit cfg = 0 \<or> cmd_count < stack_limit cfg - 1)
         then if victims = [] then None
              else do {
                (victims, ms', n, tail) \<leftarrow>
                  fast_scan cfg sep cmd to msg ms (victims @ sep # nextto) (cmd_count + 1);
                Some (victims, ms', n, tail \<or> ms = [])
              }
         else do {
           (victims, ms', n, tail) \<leftarrow> fast_scan cfg sep cmd to msg ms victims cmd_count;
           Some (victims, nm # ms', n, tail)
         })"

definition may_stack :: "server_cfg \<Rightarrow> string \<Rightarrow> bool" where
  "may_stack cfg cmd \<longleftrightarrow>
     (let found = (\<exists>w \<in> set (words_of (stackablecmds cfg)). is_cmd w cmd)
      in \<not> (use_fastdeq cfg = 2 \<and> \<not> found) \<and> \<not> (use_fastdeq cfg = 3 \<and> found))"

definition stack_sep :: "server_cfg \<Rightarrow> string \<Rightarrow> char" where
  "stack_sep cfg cmd =
     (if 1 < use_fastdeq cfg \<and> (\<exists>w \<in> set (words_of (stackable2cmds cfg)). is_cmd w cmd)
      then CHR '' '' else CHR '','')"

definition fast_deq :: "server_cfg \<Rightarrow> dp_queue \<Rightarrow> server \<Rightarrow> (bool \<times> server) option" where
  "fast_deq cfg which st =
     (if use_fastdeq cfg = 0 \<or> which \<notin> {DP_MODE, DP_SERVER, DP_HELP} then Some (False, st)
      else let h = queue_of which st in
        case msgs h of
          [] \<Rightarrow> None
        | m # ms \<Rightarrow>
            let (cmd, msg) = newsplit m in
            if 1 < use_fastdeq cfg \<and> \<not> may_stack cfg cmd then Some (False, st)
            else let (to, msg) = newsplit msg in do {
              (victims, ms', n, tail) \<leftarrow> fast_scan cfg (stack_sep cfg cmd) cmd to msg ms to 0;
              if n = 0 then Some (False, st)
              else let tosend = cmd @ '' '' @ victims @ '' '' @ msg;
                       st = write_to_server tosend st;
                       h = h\<lparr>msgs := m # ms', tot := tot h - n,
                             last_node := (if tail then LTail else last_node h)\<rparr>
                   in Some (True, charge cfg tosend (set_queue which (drop_head h) st))
            })"

section \<open>Kicks: \<open>purge_kicks\<close>, \<open>parse_q\<close> and \<open>deq_kick\<close>\<close>

definition op_strncasecmp :: "string \<Rightarrow> string \<Rightarrow> nat \<Rightarrow> int" where
  "op_strncasecmp s1 s2 n = op_strcasecmp (take n s1) (take n s2)"

definition findchan :: "server_cfg \<Rightarrow> string \<Rightarrow> chanset_t option" where
  "findchan cfg name =
     (case Option.bind (chan_by_name cfg) (\<lambda>ht. ht name) of
        Some c \<Rightarrow> Some c
      | None \<Rightarrow> find (\<lambda>c. rfc_casecmp (chan_name c) name = 0) (chanset cfg))"

definition ismember :: "chanset_t \<Rightarrow> string \<Rightarrow> bool" where
  "ismember chan nick =
     (case member_ht chan of
        Some ht \<Rightarrow> ht nick
      | None \<Rightarrow> \<exists>x \<in> set (takeWhile (\<lambda>x. x \<noteq> []) (member chan)). rfc_casecmp x nick = 0)"

text \<open>
  The walks over a queue that drop or rewrite lines: \<open>None\<close> unlinks and frees the node.  \<open>last\<close> is
  reset when nothing is left and not otherwise.
\<close>

definition walk_queue :: "(string \<Rightarrow> string option) \<Rightarrow> msgq_head \<Rightarrow> msgq_head" where
  "walk_queue f q =
     (let ms' = List.map_filter f (msgs q)
      in q\<lparr>msgs := ms', tot := tot q - int (length (msgs q) - length ms'),
           last_node := (if msgs q = [] then last_node q
                         else if ms' = [] then LNull
                         else if f (last (msgs q)) = None then LFreed
                         else last_node q)\<rparr>)"

definition kick_line :: "string \<Rightarrow> string \<Rightarrow> string \<Rightarrow> string" where
  "kick_line chan newnicks reason = ''KICK '' @ chan @ '' '' @ tl newnicks @ '' '' @ reason"

definition comma_list :: "string list \<Rightarrow> string" where
  "comma_list nicks = concat (map (\<lambda>nick. CHR '','' # nick) nicks)"

definition on_target :: "server_cfg \<Rightarrow> string \<Rightarrow> string \<Rightarrow> bool" where
  "on_target cfg chan nick \<longleftrightarrow>
     (\<exists>ch \<in> set (words_of chan). case findchan cfg ch of None \<Rightarrow> False | Some cs \<Rightarrow> ismember cs nick)"

definition purge_line :: "server_cfg \<Rightarrow> string \<Rightarrow> string option" where
  "purge_line cfg m =
     (if op_strncasecmp m ''KICK'' 4 = 0 then
        let (_, reason) = newsplit m;
            (chan, reason) = newsplit reason;
            (nicks, reason) = newsplit reason;
            newnicks = comma_list (filter (on_target cfg chan) (nicks_of nicks));
            changed = (\<exists>nick \<in> set (nicks_of nicks). \<not> on_target cfg chan nick)
        in if changed then if newnicks = [] then None else Some (kick_line chan newnicks reason)
           else Some m
      else Some m)"

definition purge_kicks :: "server_cfg \<Rightarrow> msgq_head \<Rightarrow> msgq_head" where
  "purge_kicks cfg q = walk_queue (purge_line cfg) q"

text \<open>\<open>parse_q\<close>: the victims of one kick after \<open>oldnick\<close> has become \<open>newnick\<close>.\<close>

function parse_nicks :: "string \<Rightarrow> string \<Rightarrow> string \<Rightarrow> string \<Rightarrow> string \<Rightarrow> string \<Rightarrow> bool \<Rightarrow> string \<times> bool" where
  "parse_nicks chan msg oldnick newnick nicks newnicks changed =
     (if nicks = [] then (newnicks, changed)
      else let (nick, nicks) = splitnicks nicks in
        if op_strcasecmp nick oldnick = 0 \<and>
           9 + length chan + length newnicks + length newnick + length nicks + length msg < SENDLINEMAX - 1
        then parse_nicks chan msg oldnick newnick nicks (newnicks @ '','' @ newnick @ nick) True
        else parse_nicks chan msg oldnick newnick nicks ('','' @ nick) changed)"
  by pat_completeness auto
termination
  by (relation "measure (\<lambda>(_, _, _, _, nicks, _). length nicks)") (simp_all add: splitnicks_shorter)

declare parse_nicks.simps [simp del]

definition parse_line :: "server_cfg \<Rightarrow> string \<Rightarrow> string \<Rightarrow> string \<Rightarrow> string option" where
  "parse_line cfg oldnick newnick m =
     (if optimize_kicks cfg = 2 \<and> op_strncasecmp m ''KICK '' 5 = 0 then
        let (_, msg) = newsplit m;
            (chan, msg) = newsplit msg;
            (nicks, msg) = newsplit msg;
            (newnicks, changed) = parse_nicks chan msg oldnick newnick nicks [] False
        in if changed then if newnicks = [] then None else Some (kick_line chan newnicks msg)
           else Some m
      else Some m)"

definition parse_q :: "server_cfg \<Rightarrow> string \<Rightarrow> string \<Rightarrow> msgq_head \<Rightarrow> msgq_head" where
  "parse_q cfg oldnick newnick q = walk_queue (parse_line cfg oldnick newnick) q"

definition check_queues :: "server_cfg \<Rightarrow> string \<Rightarrow> string \<Rightarrow> server \<Rightarrow> server" where
  "check_queues cfg oldnick newnick st =
     (if optimize_kicks cfg \<noteq> 2 then st
      else let parse = (\<lambda>q. if msgs q \<noteq> [] then parse_q cfg oldnick newnick q else q)
           in st\<lparr>modeq := parse (modeq st), mq := parse (mq st), hq := parse (hq st)\<rparr>)"

text \<open>
  \<open>deq_kick\<close>: the victims of a later kick of the same channel and reason join the first one while
  there is room (\<open>newnicks\<close>); the others stay (\<open>newnicks2\<close>).
\<close>

fun take_nicks ::
  "server_cfg \<Rightarrow> string \<Rightarrow> string \<Rightarrow> string list \<Rightarrow> string \<times> int \<times> string \<times> bool \<Rightarrow> string \<times> int \<times> string \<times> bool" where
  "take_nicks cfg chan reason [] acc = acc"
| "take_nicks cfg chan reason (nick # nicks) (newnicks, nr, newnicks2, changed) =
     (if nr < kick_method cfg \<and> 9 + length chan + length newnicks + length nick + length reason < 510
      then take_nicks cfg chan reason nicks (newnicks @ '','' @ nick, nr + 1, newnicks2, True)
      else take_nicks cfg chan reason nicks (newnicks, nr, newnicks2 @ '','' @ nick, changed))"

text \<open>
  The walk over the lines behind the head: the victims, the lines left, how many were freed and
  whether the last node was.
\<close>

fun merge_kicks ::
  "server_cfg \<Rightarrow> string \<Rightarrow> string \<Rightarrow> string list \<Rightarrow> string \<Rightarrow> int \<Rightarrow> string \<times> string list \<times> int \<times> bool" where
  "merge_kicks cfg chan reason [] newnicks nr = (newnicks, [], 0, False)"
| "merge_kicks cfg chan reason (m # ms) newnicks nr =
     (if \<not> nr < kick_method cfg then (newnicks, m # ms, 0, False)
      else
        let keep = (\<lambda>m newnicks nr.
              let (newnicks, ms', n, tail) = merge_kicks cfg chan reason ms newnicks nr
              in (newnicks, m # ms', n, tail))
        in if op_strncasecmp m ''KICK'' 4 = 0 then
             let (_, reason2) = newsplit m;
                 (chan2, reason2) = newsplit reason2;
                 (nicks, reason2) = newsplit reason2
             in if op_strcasecmp chan chan2 = 0 \<and> op_strcasecmp reason reason2 = 0 then
                  let (newnicks, nr, newnicks2, changed) =
                        take_nicks cfg chan reason (nicks_of nicks) (newnicks, nr, [], False)
                  in if changed then
                       if newnicks2 = [] then
                         let (newnicks, ms', n, tail) = merge_kicks cfg chan reason ms newnicks nr
                         in (newnicks, ms', n + 1, tail \<or> ms = [])
                       else keep (kick_line chan2 newnicks2 reason) newnicks nr
                     else keep m newnicks nr
                else keep m newnicks nr
           else keep m newnicks nr)"

definition deq_kick :: "server_cfg \<Rightarrow> dp_queue \<Rightarrow> server \<Rightarrow> (bool \<times> server) option" where
  "deq_kick cfg which st =
     (if optimize_kicks cfg = 0 \<or> which \<notin> {DP_MODE, DP_SERVER, DP_HELP} then Some (False, st)
      else let h = queue_of which st in
        if msgs h = [] then None
        else if op_strncasecmp (hd (msgs h)) ''KICK'' 4 \<noteq> 0 then Some (False, st)
        else
          let h = (if optimize_kicks cfg = 2 then purge_kicks cfg h else h);
              st = set_queue which h st
          in case msgs h of
               [] \<Rightarrow> Some (True, st)
             | m # ms \<Rightarrow>
                 if op_strncasecmp m ''KICK'' 4 \<noteq> 0 then Some (False, st)
                 else
                   let (_, reason) = newsplit m;
                       (chan, reason) = newsplit reason;
                       (nicks, reason) = newsplit reason;
                       ws = words_of nicks;
                       (newnicks, ms', n, tail) =
                         merge_kicks cfg chan reason ms (comma_list ws) (int (length ws));
                       newmsg = kick_line chan newnicks reason;
                       st = write_to_server newmsg st;
                       h = h\<lparr>msgs := m # ms', tot := tot h - n,
                             last_node := (if tail then LFreed else last_node h)\<rparr>
                   in Some (True, set_queue which (drop_head h) (charge cfg newmsg st)))"

section \<open>Sending: \<open>deq_msg\<close>\<close>

text \<open>Sending the head of a queue as it is.\<close>

definition send_head :: "server_cfg \<Rightarrow> dp_queue \<Rightarrow> server \<Rightarrow> server" where
  "send_head cfg which st =
     (let h = queue_of which st; m = hd (msgs h)
      in set_queue which (drop_head h) (charge cfg m (write_to_server m st)))"

text \<open>Sending one line, or one merged from several.\<close>

definition deq_one :: "server_cfg \<Rightarrow> dp_queue \<Rightarrow> server \<Rightarrow> server option" where
  "deq_one cfg which st = do {
     (kicked, st) \<leftarrow> deq_kick cfg which st;
     if kicked then Some st
     else do {
       (stacked, st) \<leftarrow> fast_deq cfg which st;
       if stacked then Some st else Some (send_head cfg which st)
     }
   }"

lemma burst_set_queue [simp]: "burst (set_queue which h st) = burst st"
  by (cases which) simp_all

lemma burst_charge [simp]: "burst (charge cfg m st) = burst st"
  by (simp add: charge_def Let_def split_def)

lemma burst_write [simp]: "burst (write_to_server m st) = burst st"
  by (simp add: write_to_server_def)

lemma deq_kick_burst: "deq_kick cfg which st = Some (b, st') \<Longrightarrow> burst st' = burst st"
  by (auto simp: deq_kick_def Let_def split_def split: if_splits list.splits)

lemma fast_deq_burst: "fast_deq cfg which st = Some (b, st') \<Longrightarrow> burst st' = burst st"
  by (auto simp: fast_deq_def Let_def split_def split: if_splits list.splits bind_splits)

lemma deq_one_burst: "deq_one cfg which st = Some st' \<Longrightarrow> burst st' = burst st"
  by (auto simp: deq_one_def send_head_def Let_def split: bind_splits if_splits
      dest!: deq_kick_burst fast_deq_burst)

text \<open>The loop over the mode queue.\<close>

function deq_modeq :: "server_cfg \<Rightarrow> int \<Rightarrow> server \<Rightarrow> server option" where
  "deq_modeq cfg now st =
     (if msgs (modeq st) \<noteq> [] \<and> burst st < 4 \<and> last_time st - now < MAXPENALTY
      then do {
        st \<leftarrow> deq_one cfg DP_MODE st;
        deq_modeq cfg now (st\<lparr>burst := burst st + 1\<rparr>)
      }
      else Some st)"
  by pat_completeness auto
termination
  by (relation "measure (\<lambda>(_, _, st). nat (4 - burst st))") (auto dest!: deq_one_burst)

declare deq_modeq.simps [simp del]

text \<open>What is sent once the rate limiter agrees; \<open>ok\<close> as computed from the clock.\<close>

definition deq_send :: "server_cfg \<Rightarrow> int \<Rightarrow> bool \<Rightarrow> server \<Rightarrow> server option" where
  "deq_send cfg now ok st =
     (if msgs (modeq st) \<noteq> [] then do {
        st \<leftarrow> deq_modeq cfg now st;
        Some (if msgs (modeq st) = [] then st\<lparr>modeq := (modeq st)\<lparr>last_node := LNull\<rparr>\<rparr> else st)
      }
      else if 1 < burst st then Some st
      else if msgs (mq st) \<noteq> [] then deq_one cfg DP_SERVER (st\<lparr>burst := burst st + 1\<rparr>)
      else if msgs (hq st) = [] \<or> burst st \<noteq> 0 \<or> \<not> ok then Some st
      else deq_one cfg DP_HELP st)"

text \<open>The clock: one step of the burst is forgotten every \<open>msgrate\<close> seconds.\<close>

definition deq_due :: "server_cfg \<Rightarrow> int \<Rightarrow> server \<Rightarrow> bool" where
  "deq_due cfg now st \<longleftrightarrow> msgrate cfg \<le> now - last_time st \<or> now < last_time st - 90"

definition deq_clock :: "server_cfg \<Rightarrow> int \<Rightarrow> server \<Rightarrow> server" where
  "deq_clock cfg now st =
     (if deq_due cfg now st
      then st\<lparr>last_time := now, burst := (if 0 < burst st then burst st - 1 else burst st)\<rparr> else st)"

definition deq_msg :: "server_cfg \<Rightarrow> int \<Rightarrow> 64 word \<Rightarrow> server \<Rightarrow> server option" where
  "deq_msg cfg now usec st =
     (let ok = deq_due cfg now st; st = deq_clock cfg now st
      in if serv cfg < 0 then Some st
         else do {
           (pass, rl) \<leftarrow> op_ratelimit_check (outgoing_rl st) usec;
           if \<not> pass then Some (st\<lparr>outgoing_rl := rl\<rparr>)
           else deq_send cfg now ok (st\<lparr>outgoing_rl := rl\<rparr>)
         })"

section \<open>Queueing: \<open>queue_server\<close>\<close>

definition no_queue :: "string \<Rightarrow> bool" where
  "no_queue buf \<longleftrightarrow> op_strncasecmp buf ''PING'' 4 = 0 \<or> op_strncasecmp buf ''PONG'' 4 = 0 \<or>
     op_strncasecmp buf ''AUTHENTICATE'' 12 = 0"

fun qnext :: "dp_queue \<Rightarrow> bool" where
  "qnext which \<longleftrightarrow> which \<in> {DP_MODE_NEXT, DP_SERVER_NEXT, DP_HELP_NEXT}"

fun doublemsg :: "server_cfg \<Rightarrow> dp_queue \<Rightarrow> bool" where
  "doublemsg cfg DP_MODE \<longleftrightarrow> double_mode cfg"
| "doublemsg cfg DP_MODE_NEXT \<longleftrightarrow> double_mode cfg"
| "doublemsg cfg DP_HELP \<longleftrightarrow> double_help cfg"
| "doublemsg cfg DP_HELP_NEXT \<longleftrightarrow> double_help cfg"
| "doublemsg cfg _ \<longleftrightarrow> double_server cfg"

text \<open>Linking a new node in front or behind the last one.\<close>

definition push_front :: "string \<Rightarrow> msgq_head \<Rightarrow> msgq_head" where
  "push_front buf h =
     h\<lparr>msgs := buf # msgs h, last_node := (if last_node h = LNull then LTail else last_node h)\<rparr>"

definition push_back :: "string \<Rightarrow> msgq_head \<Rightarrow> msgq_head option" where
  "push_back buf h =
     (case last_node h of
        LNull \<Rightarrow> Some (h\<lparr>msgs := [buf], last_node := LTail\<rparr>)
      | LTail \<Rightarrow> Some (h\<lparr>msgs := msgs h @ [buf]\<rparr>)
      | LFreed \<Rightarrow> None)"

definition enqueue :: "server_cfg \<Rightarrow> dp_queue \<Rightarrow> string \<Rightarrow> server \<Rightarrow> server option" where
  "enqueue cfg which buf st =
     (let h = queue_of which st in do {
        h \<leftarrow> (if qnext which then Some (push_front buf h) else push_back buf h);
        Some (set_queue which (h\<lparr>tot := tot h + 1, warned := False\<rparr>) st\<lparr>double_warned := False\<rparr>)
      })"

definition queue_server :: "server_cfg \<Rightarrow> int \<Rightarrow> 64 word \<Rightarrow> dp_queue \<Rightarrow> string \<Rightarrow> server \<Rightarrow> server option" where
  "queue_server cfg now usec which msg st =
     (if serv cfg < 0 then Some st
      else
        let buf = remove_crlf msg in
        if no_queue buf then
          Some (write_to_server buf
            (if buf ! 1 \<in> {CHR ''I'', CHR ''i''} then st\<lparr>lastpingtime := now\<rparr> else st))
        else if which = DP_OTHER then Some st
        else
          let h = queue_of which st;
              flush = (\<lambda>st. if which = DP_MODE \<or> which = DP_MODE_NEXT then deq_msg cfg now usec st else Some st)
          in if tot h < maxqmsg cfg then
               if \<not> doublemsg cfg which \<and> (\<exists>tq \<in> set (msgs h). op_strcasecmp tq buf = 0)
               then Some (st\<lparr>double_warned := True\<rparr>)
               else if tcl_out cfg which buf then Some st
               else do { st \<leftarrow> enqueue cfg which buf st; flush st }
             else flush (set_queue which (h\<lparr>warned := True\<rparr>) st))"

section \<open>Well-formed queues\<close>

definition queue_ok :: "server_cfg \<Rightarrow> bool \<Rightarrow> msgq_head \<Rightarrow> bool" where
  "queue_ok cfg double h \<longleftrightarrow>
     tot h = int (length (msgs h)) \<and>
     last_node h = (if msgs h = [] then LNull else LTail) \<and>
     tot h \<le> max 0 (maxqmsg cfg) \<and>
     (\<forall>m \<in> set (msgs h). cstring m) \<and>
     (double \<or> distinct (map (map tolower) (msgs h)))"

definition server_ok :: "server_cfg \<Rightarrow> server \<Rightarrow> bool" where
  "server_ok cfg st \<longleftrightarrow>
     queue_ok cfg (double_mode cfg) (modeq st) \<and>
     queue_ok cfg (double_server cfg) (mq st) \<and>
     queue_ok cfg (double_help cfg) (hq st) \<and>
     0 \<le> burst st \<and> burst st \<le> 4 \<and> ratelimit_ok (outgoing_rl st)"

definition server_init :: "64 word \<Rightarrow> server" where
  "server_init usec =
     \<lparr>modeq = \<lparr>msgs = [], last_node = LNull, tot = 0, warned = False\<rparr>,
      mq = \<lparr>msgs = [], last_node = LNull, tot = 0, warned = False\<rparr>,
      hq = \<lparr>msgs = [], last_node = LNull, tot = 0, warned = False\<rparr>,
      burst = 0, last_time = 0, lastpingtime = 0, double_warned = False,
      outgoing_rl = op_ratelimit_init 10 5 usec, sent = []\<rparr>"

text \<open>What the module does to the queues between two connections.\<close>

inductive server_step :: "server_cfg \<Rightarrow> server \<Rightarrow> server \<Rightarrow> bool" for cfg where
  queued: "cstring msg \<Longrightarrow> queue_server cfg now usec which msg st = Some st' \<Longrightarrow> server_step cfg st st'"
| timer: "deq_msg cfg now usec st = Some st' \<Longrightarrow> server_step cfg st st'"
| nick: "server_step cfg st (check_queues cfg oldnick newnick st)"
| cleared: "server_step cfg st (empty_msgq st)"

inductive server_run :: "server_cfg \<Rightarrow> server \<Rightarrow> server \<Rightarrow> bool" for cfg where
  refl: "server_run cfg st st"
| step: "server_run cfg st st' \<Longrightarrow> server_step cfg st' st'' \<Longrightarrow> server_run cfg st st''"

end
