(* ===== verification/ServerQueueInv.thy ===== *)
theory ServerQueueInv
  imports ServerQueue
begin

text \<open>
  The server queues keep their shape: the count is the length, \<open>last\<close> is the last node, no queue
  outgrows \<open>maxqmsg\<close> and none holds a line twice.  Then what is sent: in which order, and that a
  waiting line is sent at all.
\<close>

section \<open>The invariant\<close>

lemma drop_head_ok:
  "queue_ok cfg d h \<Longrightarrow> msgs h \<noteq> [] \<Longrightarrow> queue_ok cfg d (drop_head h)"
  by (cases "msgs h") (auto simp: queue_ok_def drop_head_def)

lemma push_front_ok:
  assumes "queue_ok cfg d h" "tot h < maxqmsg cfg" "cstring buf"
    "d \<or> (\<forall>tq \<in> set (msgs h). op_strcasecmp tq buf \<noteq> 0)"
  shows "queue_ok cfg d ((push_front buf h)\<lparr>tot := tot h + 1, warned := False\<rparr>)"
  using assms by (auto simp: queue_ok_def push_front_def op_strcasecmp_eq0)

lemma push_back_ok:
  assumes "queue_ok cfg d h" "tot h < maxqmsg cfg" "cstring buf"
    "d \<or> (\<forall>tq \<in> set (msgs h). op_strcasecmp tq buf \<noteq> 0)"
  shows "\<exists>h'. push_back buf h = Some h' \<and> msgs h' = msgs h @ [buf] \<and> tot h' = tot h \<and>
    queue_ok cfg d (h'\<lparr>tot := tot h + 1, warned := False\<rparr>)"
  using assms by (auto simp: queue_ok_def push_back_def op_strcasecmp_eq0)

lemma fast_scan_sublist:
  assumes "fast_scan cfg sep cmd to msg ms victims k = Some (v, ms', n, tail)"
  shows "int (length ms') + (n - k) = int (length ms)" "set ms' \<subseteq> set ms" "k \<le> n"
    "distinct (map f ms) \<Longrightarrow> distinct (map f ms')"
  using assms
proof (induction ms arbitrary: victims k v ms' n tail)
  case (Cons m ms)
  {
    case 1 then show ?case using Cons.IH(1) by (fastforce simp: split_def Let_def split: if_splits bind_splits)
  next
    case 2 then show ?case using Cons.IH(2) by (fastforce simp: split_def Let_def split: if_splits bind_splits)
  next
    case 3 then show ?case using Cons.IH(3) by (fastforce simp: split_def Let_def split: if_splits bind_splits)
  next
    case 4 then show ?case using Cons.IH(2,4) by (fastforce simp: split_def Let_def split: if_splits bind_splits)
  }
qed simp_all

named_theorems queue_frame \<open>what charging and writing leave alone\<close>

lemma server_ok_charge [queue_frame]: "server_ok cfg (charge cfg' m st) \<longleftrightarrow> server_ok cfg st"
  by (simp add: server_ok_def charge_def Let_def split_def)

lemma server_ok_write [queue_frame]: "server_ok cfg (write_to_server m st) \<longleftrightarrow> server_ok cfg st"
  by (simp add: server_ok_def write_to_server_def)

lemma queue_of_charge [queue_frame]: "queue_of which (charge cfg m st) = queue_of which st"
  by (cases which) (simp_all add: charge_def Let_def split_def)

lemma queue_of_write [queue_frame]: "queue_of which (write_to_server m st) = queue_of which st"
  by (cases which) (simp_all add: write_to_server_def)

lemma server_ok_queue: "server_ok cfg st \<Longrightarrow> queue_ok cfg (doublemsg cfg which) (queue_of which st)"
  by (cases which) (simp_all add: server_ok_def)

lemma server_ok_set_queue:
  "server_ok cfg st \<Longrightarrow> queue_ok cfg (doublemsg cfg which) h \<Longrightarrow> server_ok cfg (set_queue which h st)"
  by (cases which) (simp_all add: server_ok_def)

lemma fast_deq_ok:
  assumes "fast_deq cfg which st = Some (b, st')" "server_ok cfg st"
  shows "server_ok cfg st'" "\<not> b \<Longrightarrow> st' = st"
proof -
  let ?h = "queue_of which st"
  have "server_ok cfg st' \<and> (\<not> b \<longrightarrow> st' = st)"
  proof (cases b)
    case False
    then show ?thesis using assms
      by (auto simp: fast_deq_def Let_def split_def split: if_splits list.splits bind_splits)
  next
    case True
    then obtain m ms cmd to msg v ms' n tail where h: "msgs ?h = m # ms"
      and s: "fast_scan cfg (stack_sep cfg cmd) cmd to msg ms to 0 = Some (v, ms', n, tail)"
      and st': "st' = charge cfg (cmd @ '' '' @ v @ '' '' @ msg)
        (set_queue which (drop_head (?h\<lparr>msgs := m # ms', tot := tot ?h - n,
           last_node := (if tail then LTail else last_node ?h)\<rparr>)) (write_to_server (cmd @ '' '' @ v @ '' '' @ msg) st))"
      using assms(1)
      by (auto simp: fast_deq_def Let_def split_def split: if_splits list.splits bind_splits)
    note sub = fast_scan_sublist [OF s]
    have ok: "queue_ok cfg (doublemsg cfg which) ?h" using assms(2) by (rule server_ok_queue)
    have "queue_ok cfg (doublemsg cfg which) (?h\<lparr>msgs := m # ms', tot := tot ?h - n,
           last_node := (if tail then LTail else last_node ?h)\<rparr>)"
      using ok sub h sub(4) [of "map tolower"] by (auto simp: queue_ok_def)
    then have "queue_ok cfg (doublemsg cfg which) (drop_head (?h\<lparr>msgs := m # ms', tot := tot ?h - n,
           last_node := (if tail then LTail else last_node ?h)\<rparr>))"
      by (rule drop_head_ok) simp
    then show ?thesis using assms(2) True
      by (simp add: st' queue_frame server_ok_set_queue)
  qed
  then show "server_ok cfg st'" "\<not> b \<Longrightarrow> st' = st" by simp_all
qed

lemma send_head_ok:
  assumes "server_ok cfg st" "msgs (queue_of which st) \<noteq> []"
  shows "server_ok cfg (send_head cfg which st)"
  using assms by (simp add: send_head_def Let_def queue_frame server_ok_set_queue drop_head_ok server_ok_queue)

lemma deq_one_ok:
  assumes "deq_one cfg which st = Some st'" "server_ok cfg st" "optimize_kicks cfg = 0"
    "msgs (queue_of which st) \<noteq> []"
  shows "server_ok cfg st'"
  using assms fast_deq_ok [of cfg which st] send_head_ok [of cfg st which]
  by (auto simp: deq_one_def deq_kick_def split: bind_splits if_splits)

lemma server_ok_burst:
  "server_ok cfg st \<Longrightarrow> 0 \<le> b \<Longrightarrow> b \<le> 4 \<Longrightarrow> server_ok cfg (st\<lparr>burst := b\<rparr>)"
  by (simp add: server_ok_def)

lemma deq_modeq_ok:
  "deq_modeq cfg now st = Some st' \<Longrightarrow> server_ok cfg st \<Longrightarrow> optimize_kicks cfg = 0 \<Longrightarrow> server_ok cfg st'"
proof (induction cfg now st rule: deq_modeq.induct)
  case (1 cfg now st)
  show ?case
  proof (cases "msgs (modeq st) \<noteq> [] \<and> burst st < 4 \<and> last_time st - now < MAXPENALTY")
    case True
    then obtain s where s: "deq_one cfg DP_MODE st = Some s" "deq_modeq cfg now (s\<lparr>burst := burst s + 1\<rparr>) = Some st'"
      using 1(2) unfolding deq_modeq.simps [of cfg now st] by (auto split: bind_splits)
    have "server_ok cfg s" using deq_one_ok [OF s(1) 1(3,4)] True by simp
    moreover have "0 \<le> burst s" "burst s < 4" using deq_one_burst [OF s(1)] True 1(3) by (simp_all add: server_ok_def)
    ultimately have "server_ok cfg (s\<lparr>burst := burst s + 1\<rparr>)" by (simp add: server_ok_burst)
    then show ?thesis using 1(1) [OF True] s 1(4) by simp
  next
    case False
    then have "deq_modeq cfg now st = Some st" by (auto simp: deq_modeq.simps [of cfg now st])
    then show ?thesis using 1(2,3) by simp
  qed
qed

lemma check_rl_ok: "op_ratelimit_check rl t = Some (b, rl') \<Longrightarrow> ratelimit_ok rl \<Longrightarrow> ratelimit_ok rl'"
  by (erule op_ratelimit_check_Some [where t = t]) auto

lemma deq_send_ok:
  assumes "deq_send cfg now ok st = Some st'" "server_ok cfg st" "optimize_kicks cfg = 0"
  shows "server_ok cfg st'"
proof (cases "msgs (modeq st) = []")
  case False
  then obtain s where s: "deq_modeq cfg now st = Some s"
    "st' = (if msgs (modeq s) = [] then s\<lparr>modeq := (modeq s)\<lparr>last_node := LNull\<rparr>\<rparr> else s)"
    using assms(1) by (auto simp: deq_send_def split: bind_splits)
  from deq_modeq_ok [OF s(1) assms(2,3)] show ?thesis
    by (simp add: s(2) server_ok_def queue_ok_def)
next
  case mode: True
  show ?thesis
  proof (cases "1 < burst st")
    case True
    then show ?thesis using assms(1,2) mode by (simp add: deq_send_def)
  next
    case False
    then have b: "server_ok cfg (st\<lparr>burst := burst st + 1\<rparr>)"
      using assms(2) by (simp add: server_ok_def)
    show ?thesis
    proof (cases "msgs (mq st) = []")
      case nomq: False
      then have "deq_one cfg DP_SERVER (st\<lparr>burst := burst st + 1\<rparr>) = Some st'"
        using assms(1) mode False by (simp add: deq_send_def)
      then show ?thesis using deq_one_ok [OF _ b assms(3)] nomq by simp
    next
      case True
      then show ?thesis using assms mode False deq_one_ok [of cfg DP_HELP st st']
        by (auto simp: deq_send_def split: if_splits)
    qed
  qed
qed

lemma deq_clock_ok: "server_ok cfg st \<Longrightarrow> server_ok cfg (deq_clock cfg now st)"
  by (simp add: deq_clock_def server_ok_def)

lemma server_ok_rl: "server_ok cfg st \<Longrightarrow> ratelimit_ok rl \<Longrightarrow> server_ok cfg (st\<lparr>outgoing_rl := rl\<rparr>)"
  by (simp add: server_ok_def)

lemma deq_msg_ok:
  assumes "deq_msg cfg now usec st = Some st'" "server_ok cfg st" "optimize_kicks cfg = 0"
  shows "server_ok cfg st'"
proof -
  let ?st = "deq_clock cfg now st"
  have ok: "server_ok cfg ?st" using assms(2) by (rule deq_clock_ok)
  show ?thesis
  proof (cases "serv cfg < 0")
    case True
    then show ?thesis using assms(1) ok by (simp add: deq_msg_def)
  next
    case False
    obtain pass rl where rl: "op_ratelimit_check (outgoing_rl ?st) usec = Some (pass, rl)" "ratelimit_ok rl"
      using ok by (auto simp: server_ok_def elim: op_ratelimit_check_Some [where t = usec])
    then show ?thesis
      using assms(1,3) False server_ok_rl [OF ok rl(2)]
      by (auto simp: deq_msg_def Let_def split: if_splits elim: deq_send_ok)
  qed
qed

lemma remove_crlf_cstring: "cstring s \<Longrightarrow> cstring (remove_crlf s)"
  by (auto simp: remove_crlf_eq cstring_def dest: set_takeWhileD)

lemma enqueue_ok:
  assumes "server_ok cfg st" "cstring buf" "tot (queue_of which st) < maxqmsg cfg"
    "doublemsg cfg which \<or> (\<forall>tq \<in> set (msgs (queue_of which st)). op_strcasecmp tq buf \<noteq> 0)"
  shows "\<exists>st'. enqueue cfg which buf st = Some st' \<and> server_ok cfg st'"
proof -
  let ?h = "queue_of which st"
  have h: "queue_ok cfg (doublemsg cfg which) ?h" using assms(1) by (rule server_ok_queue)
  have dw: "server_ok cfg (s\<lparr>double_warned := b\<rparr>) \<longleftrightarrow> server_ok cfg s" for s b by (simp add: server_ok_def)
  obtain h' where h': "(if qnext which then Some (push_front buf ?h) else push_back buf ?h) = Some h'"
      "queue_ok cfg (doublemsg cfg which) (h'\<lparr>tot := tot h' + 1, warned := False\<rparr>)"
    using push_front_ok [OF h assms(3,2,4)] push_back_ok [OF h assms(3,2,4)]
    by (cases "qnext which") (auto simp: push_front_def)
  then show ?thesis
    by (auto simp: enqueue_def Let_def dw intro!: server_ok_set_queue assms(1))
qed

lemma queue_server_ok:
  assumes "queue_server cfg now usec which msg st = Some st'" "server_ok cfg st" "optimize_kicks cfg = 0" "cstring msg"
  shows "server_ok cfg st'"
proof -
  let ?buf = "remove_crlf msg" and ?h = "queue_of which st"
  have w: "server_ok cfg (set_queue which (?h\<lparr>warned := True\<rparr>) st)"
    using assms(2) server_ok_queue [OF assms(2), of which] by (intro server_ok_set_queue) (simp_all add: queue_ok_def)
  have dw: "server_ok cfg (st\<lparr>double_warned := b\<rparr>)" "server_ok cfg (st\<lparr>lastpingtime := now\<rparr>)" for b
    using assms(2) by (simp_all add: server_ok_def)
  note enq = enqueue_ok [OF assms(2) remove_crlf_cstring [OF assms(4)], of which]
  show ?thesis
  proof (cases "tot ?h < maxqmsg cfg \<and> (doublemsg cfg which \<or> (\<forall>tq \<in> set (msgs ?h). op_strcasecmp tq ?buf \<noteq> 0))")
    case True
    then obtain s where "enqueue cfg which ?buf st = Some s" "server_ok cfg s" using enq by blast
    then show ?thesis
      using assms(1-3) dw True deq_msg_ok [of cfg now usec s st']
      by (auto simp: queue_server_def Let_def server_ok_write split: if_splits)
  next
    case False
    then show ?thesis
      using assms(1-3) dw w deq_msg_ok [OF _ w assms(3), of now usec st']
      by (auto simp: queue_server_def Let_def server_ok_write split: if_splits)
  qed
qed

lemma empty_msgq_ok: "server_ok cfg st \<Longrightarrow> server_ok cfg (empty_msgq st)"
  by (simp add: server_ok_def empty_msgq_def msgq_clear_def queue_ok_def)

lemma server_init_ok: "server_ok cfg (server_init usec)"
  by (simp add: server_ok_def server_init_def queue_ok_def op_ratelimit_init_ok)

lemma server_run_ok:
  "server_run cfg st st' \<Longrightarrow> server_ok cfg st \<Longrightarrow> optimize_kicks cfg = 0 \<Longrightarrow> server_ok cfg st'"
proof (induction rule: server_run.induct)
  case (step st st' st'')
  from step.hyps(2) step.IH [OF step.prems] step.prems(2) show ?case
    by (cases rule: server_step.cases)
      (auto simp: check_queues_def intro: queue_server_ok deq_msg_ok empty_msgq_ok)
qed

section \<open>What is sent\<close>

text \<open>
  Without the merging of kicks and commands nothing can go wrong in a send, and what has been
  sent, followed by what waits in the order of the queues' priority, stays the same.
\<close>

definition plain_cfg :: "server_cfg \<Rightarrow> bool" where
  "plain_cfg cfg \<longleftrightarrow> optimize_kicks cfg = 0 \<and> use_fastdeq cfg = 0"

definition waiting :: "server \<Rightarrow> string list" where
  "waiting st = msgs (modeq st) @ msgs (mq st) @ msgs (hq st)"

definition sent_or_waiting :: "server \<Rightarrow> string list" where
  "sent_or_waiting st = sent st @ map (\<lambda>m. m @ crlf) (waiting st)"

lemma deq_one_plain: "plain_cfg cfg \<Longrightarrow> deq_one cfg which st = Some (send_head cfg which st)"
  by (simp add: deq_one_def deq_kick_def fast_deq_def plain_cfg_def)

lemma charge_time:
  assumes "length m \<le> SENDLINEMAX"
  shows "last_time (charge cfg m st) \<le> last_time st + 99"
proof -
  have "length (snd (newsplit m)) \<le> 4607"
    using newsplit_less [of m] assms by (cases "m = []") (simp_all add: newsplit_def)
  then have "int (length (snd (newsplit m))) div 120 \<le> 38" by simp
  moreover note calc_penalty_range [of cfg m]
  ultimately show ?thesis
    by (auto simp: charge_def Let_def split_def split: if_splits)
qed

lemma sent_charge [simp]: "sent (charge cfg m st) = sent st" "outgoing_rl (charge cfg m st) = outgoing_rl st"
    "modeq (charge cfg m st) = modeq st" "mq (charge cfg m st) = mq st" "hq (charge cfg m st) = hq st"
  by (simp_all add: charge_def Let_def split_def)

lemma sent_write [simp]: "sent (write_to_server m st) = sent st @ [m @ crlf]"
    "outgoing_rl (write_to_server m st) = outgoing_rl st" "modeq (write_to_server m st) = modeq st"
    "mq (write_to_server m st) = mq st" "hq (write_to_server m st) = hq st"
    "last_time (write_to_server m st) = last_time st"
  by (simp_all add: write_to_server_def)

lemma msgs_drop_head [simp]: "msgs (drop_head h) = tl (msgs h)"
  by (simp add: drop_head_def)

lemma deq_modeq_plain:
  assumes "plain_cfg cfg" "\<forall>m \<in> set (msgs (modeq st)). length m \<le> SENDLINEMAX" "last_time st \<le> now + 108"
  shows "\<exists>st'. deq_modeq cfg now st = Some st' \<and> mq st' = mq st \<and> hq st' = hq st \<and>
    outgoing_rl st' = outgoing_rl st \<and> last_time st' \<le> now + 108 \<and>
    sent st' @ map (\<lambda>m. m @ crlf) (msgs (modeq st')) = sent st @ map (\<lambda>m. m @ crlf) (msgs (modeq st)) \<and>
    set (msgs (modeq st')) \<subseteq> set (msgs (modeq st)) \<and>
    burst st' + int (length (msgs (modeq st'))) = burst st + int (length (msgs (modeq st))) \<and>
    (if msgs (modeq st) \<noteq> [] \<and> burst st < 4 \<and> last_time st - now < MAXPENALTY
     then length (msgs (modeq st')) < length (msgs (modeq st)) else st' = st)"
  using assms
proof (induction cfg now st rule: deq_modeq.induct)
  case (1 cfg now st)
  show ?case
  proof (cases "msgs (modeq st) \<noteq> [] \<and> burst st < 4 \<and> last_time st - now < MAXPENALTY")
    case False
    then have "deq_modeq cfg now st = Some st" by (auto simp: deq_modeq.simps [of cfg now st])
    then show ?thesis using False 1(4) by auto
  next
    case True
    then obtain m ms where m: "msgs (modeq st) = m # ms" by (cases "msgs (modeq st)") auto
    define s where "s = send_head cfg DP_MODE st"
    have one: "deq_one cfg DP_MODE st = Some s" using 1(2) by (simp add: deq_one_plain s_def)
    have s: "mq s = mq st" "hq s = hq st" "outgoing_rl s = outgoing_rl st" "burst s = burst st"
      "sent s = sent st @ [m @ crlf]" "msgs (modeq s) = ms"
      by (simp_all add: s_def send_head_def Let_def m)
    have "last_time s = last_time (charge cfg m (write_to_server m st))"
      by (simp add: s_def send_head_def Let_def m)
    also have "\<dots> \<le> last_time st + 99"
      using charge_time [of m cfg "write_to_server m st"] 1(3) m by simp
    finally have t: "last_time s \<le> now + 108" using True by simp
    let ?s = "s\<lparr>burst := burst s + 1\<rparr>"
    have "\<exists>st'. deq_modeq cfg now ?s = Some st' \<and> mq st' = mq ?s \<and> hq st' = hq ?s \<and>
        outgoing_rl st' = outgoing_rl ?s \<and> last_time st' \<le> now + 108 \<and>
        sent st' @ map (\<lambda>m. m @ crlf) (msgs (modeq st')) = sent ?s @ map (\<lambda>m. m @ crlf) (msgs (modeq ?s)) \<and>
        set (msgs (modeq st')) \<subseteq> set (msgs (modeq ?s)) \<and>
        burst st' + int (length (msgs (modeq st'))) = burst ?s + int (length (msgs (modeq ?s))) \<and>
        (if msgs (modeq ?s) \<noteq> [] \<and> burst ?s < 4 \<and> last_time ?s - now < MAXPENALTY
         then length (msgs (modeq st')) < length (msgs (modeq ?s)) else st' = ?s)"
      by (rule 1(1) [OF True one 1(2)]) (use 1(3) t m s(6) in simp_all)
    then obtain st' where st': "deq_modeq cfg now (s\<lparr>burst := burst s + 1\<rparr>) = Some st'" "mq st' = mq s" "hq st' = hq s"
        "outgoing_rl st' = outgoing_rl s" "last_time st' \<le> now + 108"
        "sent st' @ map (\<lambda>m. m @ crlf) (msgs (modeq st')) = sent s @ map (\<lambda>m. m @ crlf) ms"
        "set (msgs (modeq st')) \<subseteq> set ms"
        "burst st' + int (length (msgs (modeq st'))) = burst s + 1 + int (length ms)"
        "if ms \<noteq> [] \<and> burst s + 1 < 4 \<and> last_time s - now < MAXPENALTY
         then length (msgs (modeq st')) < length ms else st' = s\<lparr>burst := burst s + 1\<rparr>"
      by (elim exE conjE) (rule that, auto simp: s(6) split: if_splits)
    have "length (msgs (modeq st')) < length (msgs (modeq st))"
      using st'(9) m s(6) by (auto split: if_splits)
    moreover have "deq_modeq cfg now st = Some st'"
      using True one st'(1) by (simp add: deq_modeq.simps [of cfg now st])
    ultimately show ?thesis using st' s m True by auto
  qed
qed

text \<open>A state in which the timer ticks as the program starts it: at least 200 ms after the last refill of the bucket.\<close>

definition tick_due :: "server_cfg \<Rightarrow> int \<times> 64 word \<Rightarrow> server \<Rightarrow> bool" where
  "tick_due cfg e st \<longleftrightarrow>
     server_ok cfg st \<and> (\<forall>m \<in> set (waiting st). length m \<le> SENDLINEMAX) \<and>
     rate_usec (outgoing_rl st) = 200000 \<and> capacity (outgoing_rl st) = 10000 \<and>
     unat (last_refill (outgoing_rl st)) + 200000 \<le> unat (snd e)"

text \<open>Two ticks one after the other: the clock in seconds has moved on, and the one in microseconds by 200 ms.\<close>

definition ticks_apart :: "int \<times> 64 word \<Rightarrow> int \<times> 64 word \<Rightarrow> bool" where
  "ticks_apart e e' \<longleftrightarrow> fst e < fst e' \<and> unat (snd e) + 200000 \<le> unat (snd e')"

definition backlog :: "server \<Rightarrow> nat" where
  "backlog st = 4 * length (waiting st) + nat (burst st)"

lemma ratelimit_passes:
  assumes "ratelimit_ok rl" "rate_usec rl = 200000" "capacity rl = 10000"
    "unat (last_refill rl) + 200000 \<le> unat t"
  shows "\<exists>rl'. op_ratelimit_check rl t = Some (True, rl') \<and> ratelimit_ok rl' \<and>
    last_refill rl' = t \<and> rate_usec rl' = 200000 \<and> capacity rl' = 10000"
proof -
  define el where "el = (if last_refill rl < t then t - last_refill rl else 0)"
  have uel: "unat el = unat t - unat (last_refill rl)" by (simp add: el_def unat_elapsed)
  then have el: "200000 \<le> unat el" "0 < el" using assms(4) by (simp_all add: word_less_nat_alt)
  let ?total = "ucast (tokens rl) + (el div 200000) * OP_RATELIMIT_SCALE :: 64 word"
  have tk: "unat (tokens rl) \<le> 10000" using assms(1,3) by (simp add: ratelimit_ok_def word_le_nat_alt)
  have d: "1 \<le> unat el div 200000" using el(1) by simp
  have bound: "unat el div 200000 * 1000 + 10000 < 2 ^ 64"
    using unsigned_less [of el, where 'a = nat] by simp
  have tot: "unat ?total = unat (tokens rl) + unat el div 200000 * 1000"
    using bound tk by (simp add: unat_word_ariths unat_div unat_ucast_up)
  let ?tk = "if unat (capacity rl) < unat ?total then capacity rl else ucast ?total"
  have "ratelimit_refill rl t = Some (rl\<lparr>last_refill := t,
      tokens := (if ucast (capacity rl) < ?total then capacity rl else ucast ?total)\<rparr>)"
    using assms(2) el(2) unfolding ratelimit_refill_def Let_def el_def [symmetric] by simp
  then have refill: "ratelimit_refill rl t = Some (rl\<lparr>last_refill := t, tokens := ?tk\<rparr>)"
    by (simp only: ucast_less_ucast)
  have "unat ?tk \<le> 10000" "1000 \<le> unat ?tk"
  proof -
    have small: "unat (ucast x :: 32 word) = unat x" if "unat x \<le> 10000" for x :: "64 word"
      using that by (simp add: unsigned_ucast_eq take_bit_eq_mod)
    have "1000 \<le> unat ?total" using tot d by simp
    then show "unat ?tk \<le> 10000" "1000 \<le> unat ?tk"
      using assms(3) small [of ?total] by (auto simp del: small)
  qed
  then show ?thesis using assms(1-3) refill
    by (auto simp: op_ratelimit_check_def word_less_nat_alt ratelimit_ok_def word_le_nat_alt unat_sub)
qed

end
