(* ===== verification/ServerQueueLive.thy ===== *)
theory ServerQueueLive
  imports ServerQueueInv
begin

text \<open>
  The queues drain: the contract of a timer whose ticks take from a backlog, its consequence, and
  \<open>deq_msg\<close> as an instance.
\<close>

section \<open>Draining by ticks\<close>

fun run_ticks :: "('e \<Rightarrow> 's \<Rightarrow> 's option) \<Rightarrow> 'e list \<Rightarrow> 's \<Rightarrow> 's option" where
  "run_ticks tick [] s = Some s"
| "run_ticks tick (e # es) s = do { s \<leftarrow> tick e s; run_ticks tick es s }"

locale draining =
  fixes tick :: "'e \<Rightarrow> 's \<Rightarrow> 's option"
    and due :: "'e \<Rightarrow> 's \<Rightarrow> bool"
    and apart :: "'e \<Rightarrow> 'e \<Rightarrow> bool"
    and content :: "'s \<Rightarrow> 'c"
    and left :: "'e \<Rightarrow> 's \<Rightarrow> nat"
    and drained :: "'s \<Rightarrow> bool"
  assumes tick_returns: "due e s \<Longrightarrow> \<exists>s'. tick e s = Some s'"
    and tick_due: "due e s \<Longrightarrow> tick e s = Some s' \<Longrightarrow> apart e e' \<Longrightarrow> due e' s'"
    and tick_content: "due e s \<Longrightarrow> tick e s = Some s' \<Longrightarrow> content s' = content s"
    and tick_left: "due e s \<Longrightarrow> tick e s = Some s' \<Longrightarrow> apart e e' \<Longrightarrow> \<not> drained s \<Longrightarrow> left e' s' < left e s"
    and left_pos: "\<not> drained s \<Longrightarrow> 0 < left e s"
    and tick_drained: "due e s \<Longrightarrow> tick e s = Some s' \<Longrightarrow> drained s \<Longrightarrow> drained s'"
begin

lemma run_drains:
  assumes "successively apart (e # es)" "due e s" "left e s \<le> length es"
  shows "\<exists>s'. run_ticks tick (e # es) s = Some s' \<and> drained s' \<and> content s' = content s"
  using assms
proof (induction es arbitrary: e s)
  case Nil
  obtain s' where s': "tick e s = Some s'" using tick_returns [OF Nil(2)] by blast
  then have "drained s'" using left_pos [of s e] tick_drained [OF Nil(2) s'] Nil(3) by auto
  then show ?case using s' tick_content [OF Nil(2) s'] by simp
next
  case (Cons e' es)
  obtain s' where s': "tick e s = Some s'" using tick_returns [OF Cons.prems(2)] by blast
  have due': "due e' s'" using tick_due [OF Cons.prems(2) s'] Cons.prems(1) by simp
  have keep: "drained s'' \<Longrightarrow> due e'' s'' \<Longrightarrow> successively apart (e'' # es') \<Longrightarrow>
      \<exists>t. run_ticks tick (e'' # es') s'' = Some t \<and> drained t \<and> content t = content s''" for s'' e'' es'
  proof (induction es' arbitrary: e'' s'')
    case Nil
    then show ?case using tick_returns [OF Nil(2)] tick_drained tick_content by force
  next
    case (Cons e3 es')
    obtain t where t: "tick e'' s'' = Some t" using tick_returns [OF Cons.prems(2)] by blast
    then show ?case
      using Cons.IH [of t e3] tick_drained [OF Cons.prems(2) t Cons.prems(1)]
        tick_due [OF Cons.prems(2) t, of e3] tick_content [OF Cons.prems(2) t] Cons.prems(3) by auto
  qed
  show ?case
  proof (cases "drained s")
    case True
    then show ?thesis using keep [OF _ Cons.prems(2,1)] by simp
  next
    case False
    then have "left e' s' \<le> length es" using tick_left [OF Cons.prems(2) s', of e'] Cons.prems(1,3) by simp
    then show ?thesis
      using Cons.IH [OF _ due'] Cons.prems(1) s' tick_content [OF Cons.prems(2) s'] by auto
  qed
qed

end

section \<open>A tick of \<open>deq_msg\<close>\<close>

definition server_tick :: "server_cfg \<Rightarrow> int \<times> 64 word \<Rightarrow> server \<Rightarrow> server option" where
  "server_tick cfg e st = deq_msg cfg (fst e) (snd e) st"

definition tick_fine :: "int \<Rightarrow> server \<Rightarrow> server \<Rightarrow> bool" where
  "tick_fine now st st' \<longleftrightarrow>
     outgoing_rl st' = outgoing_rl st \<and> last_time st' \<le> now + 189 \<and>
     sent_or_waiting st' = sent_or_waiting st \<and> set (waiting st') \<subseteq> set (waiting st)"

lemma send_head_fine:
  assumes "msgs (queue_of which st) = m # ms" "length m \<le> SENDLINEMAX" "last_time st \<le> now + 90"
    "which = DP_SERVER \<and> msgs (modeq st) = [] \<or> which = DP_HELP \<and> msgs (modeq st) = [] \<and> msgs (mq st) = []"
  shows "tick_fine now st (send_head cfg which st)" "length (waiting st) = Suc (length (waiting (send_head cfg which st)))"
    "burst (send_head cfg which st) = burst st"
proof -
  have "last_time (send_head cfg which st) = last_time (charge cfg m (write_to_server m st))"
    using assms(1,4) by (auto simp: send_head_def Let_def)
  then have "last_time (send_head cfg which st) \<le> last_time st + 99"
    using charge_time [OF assms(2), of cfg "write_to_server m st"] by simp
  then show "tick_fine now st (send_head cfg which st)"
    using assms(1,3,4)
    by (auto simp: tick_fine_def send_head_def Let_def sent_or_waiting_def waiting_def)
  show "length (waiting st) = Suc (length (waiting (send_head cfg which st)))"
    "burst (send_head cfg which st) = burst st"
    using assms(1,4) by (auto simp: send_head_def Let_def waiting_def)
qed

text \<open>Either something is sent, or nothing waits, or nothing happens because of the burst, the penalties or the clock.\<close>

lemma deq_send_fine:
  assumes "plain_cfg cfg" "\<forall>m \<in> set (waiting st). length m \<le> SENDLINEMAX" "last_time st \<le> now + 90"
    "ok \<longrightarrow> last_time st = now" "0 \<le> burst st"
  shows "\<exists>st'. deq_send cfg now ok st = Some st' \<and> tick_fine now st st' \<and>
    (waiting st = [] \<and> st' = st \<or> backlog st' < backlog st \<or> st' = st \<and> (1 \<le> burst st \<or> \<not> ok))"
proof (cases "msgs (modeq st) = []")
  case False
  have short: "\<forall>m \<in> set (msgs (modeq st)). length m \<le> SENDLINEMAX" using assms(2) by (simp add: waiting_def)
  obtain s where s: "deq_modeq cfg now st = Some s" "mq s = mq st" "hq s = hq st" "outgoing_rl s = outgoing_rl st"
      "last_time s \<le> now + 108"
      "sent s @ map (\<lambda>m. m @ crlf) (msgs (modeq s)) = sent st @ map (\<lambda>m. m @ crlf) (msgs (modeq st))"
      "set (msgs (modeq s)) \<subseteq> set (msgs (modeq st))"
      "burst s + int (length (msgs (modeq s))) = burst st + int (length (msgs (modeq st)))"
      "if burst st < 4 \<and> last_time st - now < MAXPENALTY then length (msgs (modeq s)) < length (msgs (modeq st)) else s = st"
    using deq_modeq_plain [OF assms(1) short, of now] False assms(3) by auto
  define s' where "s' = (if msgs (modeq s) = [] then s\<lparr>modeq := (modeq s)\<lparr>last_node := LNull\<rparr>\<rparr> else s)"
  have e: "msgs (modeq s') = msgs (modeq s)" "mq s' = mq s" "hq s' = hq s" "outgoing_rl s' = outgoing_rl s"
    "last_time s' = last_time s" "sent s' = sent s" "burst s' = burst s"
    by (simp_all add: s'_def)
  have "tick_fine now st s'"
    using s e by (auto simp: tick_fine_def sent_or_waiting_def waiting_def)
  moreover have "backlog s' < backlog st \<or> s' = st \<and> (1 \<le> burst st \<or> \<not> ok)"
  proof (cases "burst st < 4 \<and> last_time st - now < MAXPENALTY")
    case True
    then have "length (msgs (modeq s)) < length (msgs (modeq st))" using s(9) by auto
    then have "backlog s' < backlog st" using s(8) assms(5) by (simp add: backlog_def waiting_def e s(2,3))
    then show ?thesis ..
  next
    case no: False
    then show ?thesis using s(9) assms(4) False by (auto simp: s'_def)
  qed
  moreover have "deq_send cfg now ok st = Some s'"
    using False s(1) by (simp add: deq_send_def s'_def)
  ultimately show ?thesis by blast
next
  case mode: True
  have refl: "tick_fine now st st" using assms(3) by (simp add: tick_fine_def)
  show ?thesis
  proof (cases "1 < burst st")
    case True
    then show ?thesis using mode refl by (simp add: deq_send_def)
  next
    case low: False
    show ?thesis
    proof (cases "msgs (mq st)")
      case (Cons m ms)
      let ?s = "st\<lparr>burst := burst st + 1\<rparr>"
      note f = send_head_fine [of DP_SERVER ?s m ms now cfg]
      have "length m \<le> SENDLINEMAX" using assms(2) Cons by (simp add: waiting_def)
      then have f: "tick_fine now ?s (send_head cfg DP_SERVER ?s)"
          "length (waiting ?s) = Suc (length (waiting (send_head cfg DP_SERVER ?s)))"
          "burst (send_head cfg DP_SERVER ?s) = burst st + 1"
        using f Cons mode assms(3) by simp_all
      have "tick_fine now st (send_head cfg DP_SERVER ?s)"
        using f(1) by (simp add: tick_fine_def sent_or_waiting_def waiting_def)
      moreover have "backlog (send_head cfg DP_SERVER ?s) < backlog st"
        using f(2,3) assms(5) by (simp add: backlog_def waiting_def)
      ultimately show ?thesis using Cons mode low assms(1) by (simp add: deq_send_def deq_one_plain)
    next
      case nomq: Nil
      show ?thesis
      proof (cases "msgs (hq st)")
        case Nil
        then show ?thesis using mode nomq low refl by (simp add: deq_send_def waiting_def)
      next
        case (Cons m ms)
        have l: "length m \<le> SENDLINEMAX" using assms(2) Cons by (simp add: waiting_def)
        have q: "msgs (queue_of DP_HELP st) = m # ms" using Cons by simp
        note f = send_head_fine [OF q l assms(3), of cfg]
        show ?thesis
        proof (cases "burst st \<noteq> 0 \<or> \<not> ok")
          case True
          then show ?thesis using Cons mode nomq low refl assms(5) by (auto simp: deq_send_def)
        next
          case False
          then show ?thesis using Cons mode nomq low f assms(1) by (simp add: deq_send_def deq_one_plain backlog_def)
        qed
      qed
    qed
  qed
qed

definition plain_due :: "server_cfg \<Rightarrow> int \<times> 64 word \<Rightarrow> server \<Rightarrow> bool" where
  "plain_due cfg e st \<longleftrightarrow> plain_cfg cfg \<and> 0 \<le> serv cfg \<and> 0 \<le> msgrate cfg \<and> tick_due cfg e st"

lemma server_tick_fine:
  assumes "plain_due cfg e st"
  shows "\<exists>st'. server_tick cfg e st = Some st' \<and> server_ok cfg st' \<and> last_time st' \<le> fst e + 189 \<and>
    last_refill (outgoing_rl st') = snd e \<and> rate_usec (outgoing_rl st') = 200000 \<and>
    capacity (outgoing_rl st') = 10000 \<and>
    sent_or_waiting st' = sent_or_waiting st \<and> set (waiting st') \<subseteq> set (waiting st) \<and>
    (waiting st = [] \<and> waiting st' = [] \<or> backlog st' < backlog st \<or>
     \<not> deq_due cfg (fst e) st \<and> last_time st' = last_time st \<and> backlog st' = backlog st)"
proof -
  obtain now usec where e: "e = (now, usec)" by (cases e)
  have p: "plain_cfg cfg" "\<not> serv cfg < 0" "server_ok cfg st" "\<forall>m \<in> set (waiting st). length m \<le> SENDLINEMAX"
    "0 \<le> msgrate cfg" "rate_usec (outgoing_rl st) = 200000" "capacity (outgoing_rl st) = 10000"
    "unat (last_refill (outgoing_rl st)) + 200000 \<le> unat usec"
    using assms by (simp_all add: plain_due_def tick_due_def e)
  let ?c = "deq_clock cfg now st" and ?ok = "deq_due cfg now st"
  have c: "waiting ?c = waiting st" "sent ?c = sent st" "outgoing_rl ?c = outgoing_rl st" "last_time ?c \<le> now + 90"
    "?ok \<longrightarrow> last_time ?c = now" "\<not> ?ok \<longrightarrow> ?c = st" "?ok \<longrightarrow> burst ?c = (if 0 < burst st then burst st - 1 else burst st)"
    by (auto simp: deq_clock_def waiting_def deq_due_def)
  obtain rl where rl: "op_ratelimit_check (outgoing_rl st) usec = Some (True, rl)" "ratelimit_ok rl"
      "last_refill rl = usec" "rate_usec rl = 200000" "capacity rl = 10000"
    using ratelimit_passes [OF _ p(6-8)] p(3) by (auto simp: server_ok_def)
  let ?s = "?c\<lparr>outgoing_rl := rl\<rparr>"
  have s: "waiting ?s = waiting st" "sent_or_waiting ?s = sent_or_waiting st" "last_time ?s = last_time ?c"
    "burst ?s = burst ?c" "backlog ?s = backlog ?c"
    using c(1,2) by (simp_all add: waiting_def sent_or_waiting_def backlog_def)
  have b: "0 \<le> burst st" "burst st \<le> 4" using p(3) by (simp_all add: server_ok_def)
  have short: "\<forall>m \<in> set (waiting ?s). length m \<le> SENDLINEMAX" using s(1) p(4) by simp
  have low: "0 \<le> burst ?s" using s(4) c(6,7) b by (cases ?ok) auto
  have lt: "last_time ?s \<le> now + 90" "?ok \<longrightarrow> last_time ?s = now" using s(3) c(4,5) by auto
  obtain st' where st': "deq_send cfg now ?ok ?s = Some st'" "tick_fine now ?s st'"
      "waiting ?s = [] \<and> st' = ?s \<or> backlog st' < backlog ?s \<or> st' = ?s \<and> (1 \<le> burst ?s \<or> \<not> ?ok)"
    using deq_send_fine [OF p(1) short lt low] by blast
  have tick: "server_tick cfg e st = Some st'"
    using p(2) rl(1) st'(1) c(3) by (simp add: server_tick_def deq_msg_def Let_def e)
  have ok: "server_ok cfg st'"
    using deq_msg_ok [of cfg now usec st st'] tick p(1,3) by (simp add: server_tick_def e plain_cfg_def)
  have le: "backlog ?c \<le> backlog st" using c(1,6,7) b by (cases ?ok) (auto simp: backlog_def)
  have dec: "?ok \<Longrightarrow> 1 \<le> burst ?c \<Longrightarrow> backlog ?c < backlog st" using c(1,7) b by (auto simp: backlog_def split: if_splits)
  have "waiting st = [] \<and> waiting st' = [] \<or> backlog st' < backlog st \<or>
      \<not> ?ok \<and> last_time st' = last_time st \<and> backlog st' = backlog st"
    using st'(3)
  proof (elim disjE conjE)
    assume "st' = ?s" "1 \<le> burst ?s"
    then show ?thesis using dec s c(6) by (cases ?ok) auto
  qed (use s c(6) le in auto)
  then show ?thesis
    using tick ok st'(2) s rl by (simp add: tick_fine_def e)
qed

text \<open>
  How many ticks it may take at most: the backlog falls at the latest when the penalties have passed, and until then a second is gone with
  each tick.
\<close>

definition ticks_left :: "server_cfg \<Rightarrow> int \<times> 64 word \<Rightarrow> server \<Rightarrow> nat" where
  "ticks_left cfg e st =
     (190 + nat (msgrate cfg)) * backlog st + (if deq_due cfg (fst e) st then 0 else nat (last_time st + msgrate cfg - fst e))"

lemma ticks_left_decreases:
  assumes "plain_due cfg e s" "server_tick cfg e s = Some s'" "ticks_apart e e'" "waiting s \<noteq> []"
  shows "ticks_left cfg e' s' < ticks_left cfg e s"
proof -
  have t: "last_time s' \<le> fst e + 189" "fst e < fst e'" "0 \<le> msgrate cfg"
    "backlog s' < backlog s \<or> \<not> deq_due cfg (fst e) s \<and> last_time s' = last_time s \<and> backlog s' = backlog s"
    using server_tick_fine [OF assms(1)] assms by (auto simp: ticks_apart_def plain_due_def)
  let ?w = "\<lambda>e s. if deq_due cfg (fst e) s then 0 else nat (last_time s + msgrate cfg - fst e)" and ?k = "190 + nat (msgrate cfg)"
  from t(4) show ?thesis
  proof
    assume b: "backlog s' < backlog s"
    have "?w e' s' < ?k" using t(1-3) by auto
    then have "ticks_left cfg e' s' < ?k * Suc (backlog s')" by (simp add: ticks_left_def)
    also have "\<dots> \<le> ?k * backlog s" using b by (intro mult_le_mono2) simp
    also have "\<dots> \<le> ticks_left cfg e s" by (simp add: ticks_left_def)
    finally show ?thesis .
  next
    assume b: "\<not> deq_due cfg (fst e) s \<and> last_time s' = last_time s \<and> backlog s' = backlog s"
    then have "?w e' s' < ?w e s" using t(2) by (auto simp: deq_due_def)
    then show ?thesis using b by (simp add: ticks_left_def)
  qed
qed

lemma ticks_left_pos: "waiting s \<noteq> [] \<Longrightarrow> 0 < ticks_left cfg e s"
  by (simp add: ticks_left_def backlog_def)

interpretation deq: draining "server_tick cfg" "plain_due cfg" ticks_apart sent_or_waiting "ticks_left cfg"
    "\<lambda>st. waiting st = []" for cfg
proof (unfold_locales, goal_cases)
  case (1 e s)
  then show ?case using server_tick_fine by blast
next
  case (2 e s s' e')
  from server_tick_fine [OF 2(1)] 2(2) show ?case
    using 2(1,3) by (auto simp: plain_due_def tick_due_def ticks_apart_def)
next
  case (3 e s s')
  then show ?case using server_tick_fine [OF 3(1)] by auto
next
  case (4 e s s' e')
  then show ?case by (rule ticks_left_decreases)
next
  case (5 s e)
  then show ?case by (rule ticks_left_pos)
next
  case (6 e s s')
  then show ?case using server_tick_fine [OF 6(1)] by (auto simp: backlog_def)
qed

section \<open>Properties\<close>

text \<open>The settings the module starts with, on a connection, with \<open>fast-deq\<close> for the examples of merging.\<close>

definition example_cfg :: server_cfg where
  "example_cfg =
     \<lparr>serv = 5, msgrate = 2, maxqmsg = 300, double_mode = False, double_server = False, double_help = False,
      use_penalties = False, net_type_int = NETT_EFNET, use_fastdeq = 1, stackablecmds = [],
      stackable2cmds = ''USERHOST ISON'', stack_limit = 4, optimize_kicks = 0, kick_method = 1,
      chan_by_name = None, chanset = [], tcl_out = (\<lambda>_ _. False), lhs_first = False\<rparr>"




text \<open>
  C19: the queues drain under the timer as the program runs it, a tick every second or less often.  With neither kicks nor commands merged
  (\<open>optimize_kicks\<close> and \<open>use_fastdeq\<close> off, the latter the default) and on a connection, every line waiting is sent, in the order of the queues' priority and
  first in, first out within a queue, if nothing new is queued, after at most \<open>190 + msgrate\<close> ticks for each of four steps per line and each step of the burst,
  whatever penalties the lines are charged and wherever \<open>last_time\<close> stands.
\<close>

theorem deq_msg_drains:
  assumes "optimize_kicks cfg = 0" "use_fastdeq cfg = 0" "0 \<le> serv cfg" "0 \<le> msgrate cfg"
    "tick_due cfg e st" "successively ticks_apart (e # es)"
    "(190 + nat (msgrate cfg)) * (4 * length (waiting st) + nat (burst st) + 1) \<le> length es"
  shows "\<exists>st'. run_ticks (server_tick cfg) (e # es) st = Some st' \<and> waiting st' = [] \<and>
    sent st' = sent st @ map (\<lambda>m. m @ crlf) (msgs (modeq st) @ msgs (mq st) @ msgs (hq st))"
proof -
  have "(if deq_due cfg (fst e) st then 0 else nat (last_time st + msgrate cfg - fst e)) \<le> 190 + nat (msgrate cfg)"
    using assms(4) by (auto simp: deq_due_def)
  then have "ticks_left cfg e st \<le> length es" using assms(7) by (simp add: ticks_left_def backlog_def)
  moreover have "plain_due cfg e st" using assms(1-5) by (simp add: plain_due_def plain_cfg_def)
  ultimately show ?thesis
    using deq.run_drains [of e es cfg st] assms(6) by (auto simp: sent_or_waiting_def waiting_def)
qed

lemma successively_upt:
  assumes "\<And>i. i < n \<Longrightarrow> P (f i) (f (Suc i))"
  shows "successively P (map f [0..<Suc n])"
  using assms
proof (induction n)
  case (Suc n)
  then have "successively P (map f [0..<Suc n])" by simp
  then show ?case using Suc.prems [of n] by (simp add: successively_append_iff)
qed simp

text \<open>One line in the help queue and one tick in each second.\<close>

theorem deq_msg_drains_witness:
  "\<exists>st'. run_ticks (server_tick (example_cfg\<lparr>use_fastdeq := 0\<rparr>)) (map (\<lambda>i. (10 + int i, of_nat (1000000 * Suc i))) [0..<Suc 999])
       ((server_init 0)\<lparr>hq := \<lparr>msgs = [''NICK a''], last_node = LTail, tot = 1, warned = False\<rparr>\<rparr>) = Some st' \<and>
     waiting st' = [] \<and> sent st' = [''NICK a'' @ crlf]"
proof -
  let ?cfg = "example_cfg\<lparr>use_fastdeq := 0\<rparr>" and ?f = "\<lambda>i. (10 + int i, of_nat (1000000 * Suc i)) :: int \<times> 64 word"
  let ?st = "(server_init 0)\<lparr>hq := \<lparr>msgs = [''NICK a''], last_node = LTail, tot = 1, warned = False\<rparr>\<rparr>"
  have "server_ok ?cfg ?st"
    using server_init_ok [of ?cfg 0] by (simp add: server_ok_def queue_ok_def server_init_def example_cfg_def)
  then have due: "tick_due ?cfg (?f 0) ?st"
    by (simp add: tick_due_def waiting_def server_init_def example_cfg_def op_ratelimit_init_def)
  have u: "unat (of_nat (1000000 * Suc i) :: 64 word) = 1000000 * Suc i" if "i \<le> 999" for i
    proof -
    have "1000000 * Suc i < 2 ^ 64" using that by simp
    moreover have "unat (of_nat n :: 64 word) = n" if "n < 2 ^ 64" for n
      using that by (simp add: unsigned_of_nat take_bit_nat_eq_self)
    ultimately show ?thesis by blast
  qed
  have d: "1000000 * Suc i + 200000 \<le> 1000000 * Suc (Suc i)" for i by simp
  have "successively ticks_apart (map ?f [0..<Suc 999])"
    by (rule successively_upt) (simp add: ticks_apart_def u d del: of_nat_mult of_nat_Suc mult_Suc_right)
  moreover have l: "map g [0..<Suc n] = g 0 # map g [Suc 0..<Suc n]" for g :: "nat \<Rightarrow> int \<times> 64 word" and n
    by (simp add: upt_conv_Cons del: upt_Suc)
  moreover define es where "es = map ?f [Suc 0..<Suc 999]"
  moreover have "length es = 999" by (simp only: es_def length_map length_upt)
  ultimately have es: "successively ticks_apart (?f 0 # es)" "map ?f [0..<Suc 999] = ?f 0 # es" "length es = 999"
    by (simp_all only:)
  from deq_msg_drains [OF _ _ _ _ due es(1)] show ?thesis
    unfolding es(2) using es(3) by (simp add: example_cfg_def waiting_def server_init_def)
qed

end
