(* ===== verification/ServerQueueMerge.thy ===== *)
theory ServerQueueMerge
  imports ServerQueueLive
begin

text \<open>What the merging of commands sends, and what the optimisation of kicks does to a queue.\<close>

section \<open>Merged commands\<close>

abbreviation target_of :: "string \<Rightarrow> string" where "target_of line \<equiv> fst (newsplit (snd (newsplit line)))"

abbreviation merges_with :: "string \<Rightarrow> string \<Rightarrow> bool" where
  "merges_with m nm \<equiv> fst (newsplit nm) = fst (newsplit m) \<and> target_of nm \<noteq> target_of m \<and>
     snd (newsplit (snd (newsplit nm))) = snd (newsplit (snd (newsplit m)))"

lemma fast_scan_shuffles:
  assumes "fast_scan cfg sep (fst (newsplit m)) (target_of m) (snd (newsplit (snd (newsplit m)))) ms victims k
    = Some (v, ms', n, tail)"
  shows "\<exists>merged. ms \<in> shuffles merged ms' \<and> (\<forall>nm \<in> set merged. merges_with m nm) \<and>
    v = victims @ concat (map (\<lambda>nm. sep # target_of nm) merged) \<and> n = k + int (length merged) \<and>
    (merged = [] \<or> length (fst (newsplit m)) + length v + length (snd (newsplit (snd (newsplit m)))) \<le> SENDLINEMAX - 4) \<and>
    (merged = [] \<or> stack_limit cfg = 0 \<or> n \<le> stack_limit cfg - 1)"
  using assms
proof (induction ms arbitrary: victims k v ms' n tail)
  case Nil
  then show ?case by (intro exI [of _ "[]"]) auto
next
  case (Cons nm ms)
  let ?cmd = "fst (newsplit m)" and ?to = "target_of m" and ?msg = "snd (newsplit (snd (newsplit m)))"
  let ?c = "?to \<noteq> target_of nm \<and> ?cmd = fst (newsplit nm) \<and> ?msg = snd (newsplit (snd (newsplit nm))) \<and>
            length ?cmd + length victims + length (target_of nm) + length ?msg + 2 < SENDLINEMAX - 2 \<and>
            (stack_limit cfg = 0 \<or> k < stack_limit cfg - 1)"
  show ?case
  proof (cases ?c)
    case True
    then obtain t where s: "fast_scan cfg sep ?cmd ?to ?msg ms (victims @ sep # target_of nm) (k + 1) = Some (v, ms', n, t)"
      using Cons.prems by (auto simp: split_def Let_def split: if_splits bind_splits)
    obtain merged where g: "ms \<in> shuffles merged ms'" "\<forall>nm \<in> set merged. merges_with m nm"
        "v = (victims @ sep # target_of nm) @ concat (map (\<lambda>nm. sep # target_of nm) merged)"
        "n = k + 1 + int (length merged)"
        "merged = [] \<or> length ?cmd + length v + length ?msg \<le> SENDLINEMAX - 4"
        "merged = [] \<or> stack_limit cfg = 0 \<or> n \<le> stack_limit cfg - 1"
      using Cons.IH [OF s] by blast
    have "nm # ms \<in> shuffles (nm # merged) ms'" using g(1) by (rule Cons_in_shuffles_leftI)
    moreover have "\<forall>x \<in> set (nm # merged). merges_with m x" using g(2) True by (auto dest: not_sym)
    moreover have "v = victims @ concat (map (\<lambda>nm. sep # target_of nm) (nm # merged))" using g(3) by simp
    moreover have "n = k + int (length (nm # merged))" using g(4) by simp
    moreover have "length ?cmd + length victims + length (target_of nm) + length ?msg + 2 < SENDLINEMAX - 2"
      using True by blast
    then have "length ?cmd + length v + length ?msg \<le> SENDLINEMAX - 4"
      using g(3,5) by (cases "merged = []") simp_all
    moreover have "stack_limit cfg = 0 \<or> n \<le> stack_limit cfg - 1"
      using g(4,6) True by (cases "merged = []") auto
    ultimately show ?thesis by blast
  next
    case False
    then obtain t ms2 where s: "fast_scan cfg sep ?cmd ?to ?msg ms victims k = Some (v, ms2, n, t)" "ms' = nm # ms2"
      using Cons.prems by (auto simp: split_def Let_def split: if_splits bind_splits)
    obtain merged where "ms \<in> shuffles merged ms2" "\<forall>nm \<in> set merged. merges_with m nm"
        "v = victims @ concat (map (\<lambda>nm. sep # target_of nm) merged)" "n = k + int (length merged)"
        "merged = [] \<or> length ?cmd + length v + length ?msg \<le> SENDLINEMAX - 4"
        "merged = [] \<or> stack_limit cfg = 0 \<or> n \<le> stack_limit cfg - 1"
      using Cons.IH [OF s(1)] by blast
    moreover from this(1) have "nm # ms \<in> shuffles merged ms'" unfolding s(2) by (rule Cons_in_shuffles_rightI)
    ultimately show ?thesis by blast
  qed
qed

section \<open>Properties\<close>

text \<open>
  C40: when \<open>fast_deq\<close> merges, the line it sends has the head's command and arguments and the
  targets of the head and of at least one other line, in queue order; those lines have the same
  command and arguments and another target, all others stay in their order; the line fits
  \<open>SENDLINEMAX\<close> and the number of targets the stack limit.
\<close>

theorem fast_deq_merges:
  assumes "fast_deq cfg which st = Some (True, st')" "msgs (queue_of which st) = m # ms"
  shows "\<exists>merged line. ms \<in> shuffles merged (msgs (queue_of which st')) \<and> merged \<noteq> [] \<and>
    (\<forall>nm \<in> set merged. merges_with m nm) \<and>
    line = fst (newsplit m) @ '' '' @ target_of m @
      concat (map (\<lambda>nm. stack_sep cfg (fst (newsplit m)) # target_of nm) merged) @ '' '' @
      snd (newsplit (snd (newsplit m))) \<and>
    sent st' = sent st @ [line @ crlf] \<and> length line \<le> SENDLINEMAX - 2 \<and>
    (stack_limit cfg = 0 \<or> int (length merged) + 1 \<le> stack_limit cfg)"
proof -
  let ?cmd = "fst (newsplit m)" and ?to = "target_of m" and ?msg = "snd (newsplit (snd (newsplit m)))"
  obtain v ms' n tail where s: "fast_scan cfg (stack_sep cfg ?cmd) ?cmd ?to ?msg ms ?to 0 = Some (v, ms', n, tail)"
      and n: "n \<noteq> 0" and st': "st' = charge cfg (?cmd @ '' '' @ v @ '' '' @ ?msg)
        (set_queue which (drop_head ((queue_of which st)\<lparr>msgs := m # ms', tot := tot (queue_of which st) - n,
           last_node := (if tail then LTail else last_node (queue_of which st))\<rparr>))
          (write_to_server (?cmd @ '' '' @ v @ '' '' @ ?msg) st))"
    using assms by (auto simp: fast_deq_def Let_def split_def split: if_splits bind_splits)
  have q: "msgs (queue_of which st') = ms'"
    unfolding st' queue_of_charge by (cases which) simp_all
  have sent: "sent (set_queue which h s) = sent s" for h s by (cases which) simp_all
  obtain merged where g: "ms \<in> shuffles merged ms'" "\<forall>nm \<in> set merged. merges_with m nm"
      "v = ?to @ concat (map (\<lambda>nm. stack_sep cfg ?cmd # target_of nm) merged)" "n = 0 + int (length merged)"
      "merged = [] \<or> length ?cmd + length v + length ?msg \<le> SENDLINEMAX - 4"
      "merged = [] \<or> stack_limit cfg = 0 \<or> n \<le> stack_limit cfg - 1"
    using fast_scan_shuffles [OF s] by blast
  have ne: "merged \<noteq> []" using n g(4) by auto
  let ?line = "?cmd @ '' '' @ v @ '' '' @ ?msg"
  have "length ?line \<le> SENDLINEMAX - 2" using g(5) ne by simp
  moreover have "stack_limit cfg = 0 \<or> int (length merged) + 1 \<le> stack_limit cfg" using g(4,6) ne by auto
  moreover have "sent st' = sent st @ [?line @ crlf]" unfolding st' sent_charge sent by simp
  moreover have "ms \<in> shuffles merged (msgs (queue_of which st'))" using g(1) q by simp
  moreover have "?line = ?cmd @ '' '' @ ?to @
      concat (map (\<lambda>nm. stack_sep cfg ?cmd # target_of nm) merged) @ '' '' @ ?msg" using g(3) by simp
  ultimately show ?thesis using ne g(2) by blast
qed

lemma words_simps [simp]:
  "words_of [] = []"
  "s \<noteq> [] \<Longrightarrow> words_of s = fst (newsplit s) # words_of (snd (newsplit s))"
  "nicks_of [] = []"
  "s \<noteq> [] \<Longrightarrow> nicks_of s = fst (splitnicks s) # nicks_of (snd (splitnicks s))"
  by (simp_all add: words_of.simps [of s] words_of.simps [of "[]"] nicks_of.simps [of s] nicks_of.simps [of "[]"] split_def Let_def)

theorem fast_deq_merges_witness:
  "\<exists>st' merged line.
     fast_deq example_cfg DP_SERVER
       ((server_init 0)\<lparr>mq := \<lparr>msgs = [''WHOIS a'', ''NICK x'', ''WHOIS b''], last_node = LTail, tot = 3, warned = False\<rparr>\<rparr>)
       = Some (True, st') \<and>
     [''NICK x'', ''WHOIS b''] \<in> shuffles merged (msgs (queue_of DP_SERVER st')) \<and> merged \<noteq> [] \<and>
     sent st' = [line @ crlf]"
proof -
  let ?st = "(server_init 0)\<lparr>mq := \<lparr>msgs = [''WHOIS a'', ''NICK x'', ''WHOIS b''], last_node = LTail, tot = 3, warned = False\<rparr>\<rparr>"
  obtain st' where st': "fast_deq example_cfg DP_SERVER ?st = Some (True, st')"
    by (simp add: fast_deq_def example_cfg_def newsplit_eq stack_sep_def Let_def)
  have "msgs (queue_of DP_SERVER ?st) = ''WHOIS a'' # [''NICK x'', ''WHOIS b'']" by simp
  from fast_deq_merges [OF st' this] obtain merged line where
    "[''NICK x'', ''WHOIS b''] \<in> shuffles merged (msgs (queue_of DP_SERVER st'))" "merged \<noteq> []"
    "sent st' = sent ?st @ [line @ crlf]" by blast
  then show ?thesis using st' by (auto simp: server_init_def)
qed

text \<open>
  merging a kick that stands at the end of the queue leaves \<open>last\<close> on the freed node: the
  merged kick is sent, and the next line queued is written through that pointer.
\<close>

theorem deq_kick_dangling_last:
  assumes "optimize_kicks cfg = 1" "1 < kick_method cfg" "op_strncasecmp line ''KICK'' 4 \<noteq> 0"
    "msgs (mq st) = [''KICK #c a :r'', line, ''KICK #c b :r'']"
  shows "\<exists>st'. deq_kick cfg DP_SERVER st = Some (True, st') \<and> msgs (mq st') = [line] \<and>
    sent st' = sent st @ [''KICK #c a,b :r'' @ crlf] \<and> enqueue cfg DP_SERVER buf st' = None"
proof -
  have kick: "op_strncasecmp (''KICK'' @ r) ''KICK'' 4 = 0" for r
    by (simp add: op_strncasecmp_def tolower_def)
  have "merge_kicks cfg ''#c'' '':r'' [line, ''KICK #c b :r''] '',a'' 1 = ('',a,b'', [line], 1, True)"
    using assms(2,3) kick [of "'' #c b :r''"] by (simp add: newsplit_eq splitnicks_def Let_def tolower_def)
  then show ?thesis
    using assms(1,4) kick [of "'' #c a :r''"]
    by (simp add: deq_kick_def Let_def newsplit_eq comma_list_def kick_line_def enqueue_def push_back_def drop_head_def)
qed

theorem deq_kick_dangling_last_witness:
  "\<exists>st'. deq_kick (example_cfg\<lparr>optimize_kicks := 1, kick_method := 4\<rparr>) DP_SERVER
       ((server_init 0)\<lparr>mq := \<lparr>msgs = [''KICK #c a :r'', ''MODE #c'', ''KICK #c b :r''], last_node = LTail, tot = 3, warned = False\<rparr>\<rparr>)
       = Some (True, st') \<and> msgs (mq st') = [''MODE #c''] \<and>
     sent st' = sent (server_init 0) @ [''KICK #c a,b :r'' @ crlf] \<and>
     enqueue (example_cfg\<lparr>optimize_kicks := 1, kick_method := 4\<rparr>) DP_SERVER ''JOIN #d'' st' = None"
  using deq_kick_dangling_last [of "example_cfg\<lparr>optimize_kicks := 1, kick_method := 4\<rparr>" "''MODE #c''"
      "(server_init 0)\<lparr>mq := \<lparr>msgs = [''KICK #c a :r'', ''MODE #c'', ''KICK #c b :r''], last_node = LTail, tot = 3, warned = False\<rparr>\<rparr>" "''JOIN #d''"]
  by (simp add: op_strncasecmp_def tolower_def)

lemma splitnicks_word:
  assumes "CHR '' '' \<notin> set w" "CHR '','' \<notin> set w" "w \<noteq> []"
  shows "splitnicks (w @ CHR '','' # r) = (w, r)" "splitnicks w = (w, [])"
proof -
  have "dropWhile (\<lambda>c. c = CHR '' '') (w @ CHR '','' # r) = w @ CHR '','' # r"
    "dropWhile (\<lambda>c. c = CHR '' '') w = w" using assms by (cases w; auto)+
  moreover have "takeWhile (\<lambda>c. c \<noteq> CHR '','') (w @ CHR '','' # r) = w"
    "dropWhile (\<lambda>c. c \<noteq> CHR '','') (w @ CHR '','' # r) = CHR '','' # r"
    "takeWhile (\<lambda>c. c \<noteq> CHR '','') w = w" "dropWhile (\<lambda>c. c \<noteq> CHR '','') w = []"
    using assms(2) by (induction w) auto
  ultimately show "splitnicks (w @ CHR '','' # r) = (w, r)" "splitnicks w = (w, [])"
    by (simp_all only: splitnicks_eq list.sel)
qed

lemma parse_nicks_Nil [simp]: "parse_nicks chan msg old new [] acc c = (acc, c)"
  by (simp add: parse_nicks.simps)

text \<open>The kick of one or two victims, taken apart by \<open>parse_line\<close>.\<close>

lemma parse_line_kick:
  assumes "optimize_kicks cfg = 2" "cstring (chan @ nicks @ reason)"
    "CHR '' '' \<notin> set (chan @ nicks)" "chan \<noteq> []" "nicks \<noteq> []"
    "parse_nicks chan reason old new nicks [] False = (CHR '','' # newnicks, True)"
  shows "parse_line cfg old new (''KICK '' @ chan @ '' '' @ nicks @ '' '' @ reason) =
    Some (''KICK '' @ chan @ '' '' @ newnicks @ '' '' @ reason)"
proof -
  let ?r2 = "nicks @ CHR '' '' # reason" and ?r1 = "chan @ CHR '' '' # nicks @ CHR '' '' # reason"
  have "newsplit (''KICK'' @ CHR '' '' # ?r1) = (''KICK'', ?r1)"
    using assms(2) by (intro newsplit_one_word) (simp_all add: cstring_def)
  moreover have "newsplit ?r1 = (chan, ?r2)"
    using assms(2-4) by (intro newsplit_one_word) (simp_all add: cstring_def)
  moreover have "newsplit ?r2 = (nicks, reason)"
    using assms(2-5) by (intro newsplit_one_word) (simp_all add: cstring_def)
  moreover have "op_strncasecmp (''KICK'' @ CHR '' '' # ?r1) ''KICK '' 5 = 0"
    by (simp add: op_strncasecmp_def tolower_def)
  ultimately show ?thesis
    using assms(1,6) by (simp add: parse_line_def kick_line_def)
qed

text \<open>
  after a nick change \<open>parse_q\<close> puts the old nick right behind the new one, a nick that nobody
  has, and a later victim that did not change its nick drops all the victims in front of it.
\<close>

theorem parse_q_garbles_kick:
  assumes "optimize_kicks cfg = 2" "cstring (chan @ old @ other @ new @ reason)"
    "set (chan @ old @ other) \<inter> {CHR '' '', CHR '',''} = {}" "chan \<noteq> []" "old \<noteq> []" "other \<noteq> []"
    "op_strcasecmp other old \<noteq> 0"
    "length chan + length old + length new + length other + length reason < 4590"
  shows "parse_line cfg old new (''KICK '' @ chan @ '' '' @ old @ '' '' @ reason) =
      Some (''KICK '' @ chan @ '' '' @ new @ old @ '' '' @ reason) \<and>
    parse_line cfg old new (''KICK '' @ chan @ '' '' @ (old @ '','' @ other) @ '' '' @ reason) =
      Some (''KICK '' @ chan @ '' '' @ other @ '' '' @ reason)"
proof
  have refl: "op_strcasecmp old old = 0" using assms(2) by (simp add: op_strcasecmp_eq0)
  have "parse_nicks chan reason old new old [] False = (CHR '','' # new @ old, True)"
    using assms(3,5,8) refl splitnicks_word [of old] by (subst parse_nicks.simps) auto
  then show "parse_line cfg old new (''KICK '' @ chan @ '' '' @ old @ '' '' @ reason) =
      Some (''KICK '' @ chan @ '' '' @ new @ old @ '' '' @ reason)"
    using assms(1-5) parse_line_kick [of cfg chan old reason old new "new @ old"] by auto
  have "parse_nicks chan reason old new other acc True = (CHR '','' # other, True)" for acc
    using assms(3,6,7) splitnicks_word [of other] by (subst parse_nicks.simps) auto
  then have "parse_nicks chan reason old new (old @ CHR '','' # other) [] False = (CHR '','' # other, True)"
    using assms(3,5,8) refl splitnicks_word [of old] by (subst parse_nicks.simps) auto
  then show "parse_line cfg old new (''KICK '' @ chan @ '' '' @ (old @ '','' @ other) @ '' '' @ reason) =
      Some (''KICK '' @ chan @ '' '' @ other @ '' '' @ reason)"
    using assms(1-5) parse_line_kick [of cfg chan "old @ CHR '','' # other" reason old new other] by auto
qed

theorem parse_q_garbles_kick_witness:
  "parse_line (example_cfg\<lparr>optimize_kicks := 2\<rparr>) ''al'' ''bo'' ''KICK #c al :bye'' = Some ''KICK #c boal :bye'' \<and>
   parse_line (example_cfg\<lparr>optimize_kicks := 2\<rparr>) ''al'' ''bo'' ''KICK #c al,xy :bye'' = Some ''KICK #c xy :bye''"
  using parse_q_garbles_kick [of "example_cfg\<lparr>optimize_kicks := 2\<rparr>" "''#c''" "''al''" "''xy''" "''bo''" "'':bye''"]
  by (simp add: tolower_def)

end
