(* ===== verification/ChanMode.thy ===== *)
theory ChanMode
  imports ServerPenalty Base64 "HOL-Library.Monad_Syntax"
begin

unbundle bit_operations_syntax

text \<open>
  The queue of channel mode changes of \<open>src/src/mod/irc.mod/mode.c\<close>: \<open>real_add_mode\<close> collects
  changes in the channel record, \<open>flush_mode\<close> writes them as one MODE line for the server queues.
  \<open>None\<close> stands for an access outside of an array or through a null pointer, or a signed overflow.
\<close>

section \<open>State\<close>

abbreviation MODES_PER_LINE_MAX :: nat where "MODES_PER_LINE_MAX \<equiv> 6"

abbreviation PLUS :: int32 where "PLUS \<equiv> 0x01"
abbreviation MINUS :: int32 where "MINUS \<equiv> 0x02"
abbreviation CHOP :: int32 where "CHOP \<equiv> 0x04"
abbreviation BAN :: int32 where "BAN \<equiv> 0x08"
abbreviation VOICE :: int32 where "VOICE \<equiv> 0x10"
abbreviation EXEMPT :: int32 where "EXEMPT \<equiv> 0x20"
abbreviation INVITE :: int32 where "INVITE \<equiv> 0x40"
abbreviation CHHOP :: int32 where "CHHOP \<equiv> 0x80"
abbreviation CHOWN :: int32 where "CHOWN \<equiv> 0x100"

record cmode_t =
  cm_type :: int32
  cm_op :: "string option"

text \<open>
  The part of \<open>chanset_t\<close> the queue uses, its lists of members and masks up to the empty entry that
  ends them, and the lines written so far with the queue they went to.
\<close>

datatype pri = NORMAL | QUICK

record modechan =
  name :: string
  members :: "(string \<times> 64 word) list"
  bans :: "string list"
  exempts :: "string list"
  invites :: "string list"
  pls :: string
  mns :: string
  mkey :: "string option"
  rmkey :: "string option"
  mlimit :: int
  bytes :: int
  compat :: int
  cmode :: "cmode_t list"
  mode_lines :: "(pri \<times> string) list"

text \<open>The settings of the irc module.\<close>

record mode_cfg =
  botname :: string
  modesperline :: int
  mode_buf_len :: int
  prevent_mixing :: bool
  include_lk :: bool
  max_bans :: int
  max_exempts :: int
  max_invites :: int
  max_modes :: int

section \<open>Writing the MODE line\<close>

text \<open>
  \<open>out\<close>, \<open>plus\<close> (0 after a minus sign, 1 after a plus sign, 2 before any), \<open>post\<close> and \<open>postsize\<close>.
\<close>

record flush =
  outp :: string
  plus :: nat
  post :: string
  postsize :: nat

abbreviation POSTLEN :: nat where "POSTLEN \<equiv> 512"

definition put_mode :: "bool \<Rightarrow> string \<Rightarrow> flush \<Rightarrow> flush" where
  "put_mode add letters f =
     (if add then f\<lparr>outp := outp f @ (if plus f \<noteq> 1 then ''+'' else []) @ letters, plus := 1\<rparr>
      else f\<lparr>outp := outp f @ (if plus f \<noteq> 0 then ''-'' else []) @ letters, plus := 0\<rparr>)"

definition put_arg :: "string \<Rightarrow> flush \<Rightarrow> flush" where
  "put_arg s f =
     (let (p1, n1) = egg_strcatn (post f) s POSTLEN;
          (p2, n2) = egg_strcatn p1 '' '' POSTLEN
      in f\<lparr>post := p2, postsize := postsize f - n1 - n2\<rparr>)"

definition put_limit :: "string \<Rightarrow> flush \<Rightarrow> flush" where
  "put_limit digits f =
     (let dst = op_strlcpy [] (digits @ '' '') (postsize f + 1)
      in f\<lparr>post := take (POSTLEN - 1 - postsize f) (post f) @ dst, postsize := postsize f - length dst\<rparr>)"

definition type_letter :: "int32 \<Rightarrow> char" where
  "type_letter t =
     (if has t BAN then CHR ''b'' else if has t CHOP then CHR ''o'' else if has t CHHOP then CHR ''h''
      else if has t EXEMPT then CHR ''e'' else if has t INVITE then CHR ''I''
      else if has t CHOWN then CHR ''q'' else CHR ''v'')"

fun flush_slots :: "bool \<Rightarrow> nat \<Rightarrow> cmode_t list \<Rightarrow> flush \<Rightarrow> (cmode_t list \<times> flush) option" where
  "flush_slots add 0 cs f = Some (cs, f)"
| "flush_slots add (Suc n) [] f = None"
| "flush_slots add (Suc n) (c # cs) f =
     (if has (cm_type c) (if add then PLUS else MINUS) then
        case cm_op c of
          None \<Rightarrow> None
        | Some s \<Rightarrow>
            if length s < postsize f then do {
              (cs, f) \<leftarrow> flush_slots add n cs (put_arg s (put_mode add [type_letter (cm_type c)] f));
              Some (\<lparr>cm_type = 0, cm_op = None\<rparr> # cs, f)
            }
            else do { (cs, f) \<leftarrow> flush_slots add n cs f; Some (c # cs, f) }
      else do { (cs, f) \<leftarrow> flush_slots add n cs f; Some (c # cs, f) })"

text \<open>The end of \<open>flush_mode\<close>: the trailing space is cut off and the parameters follow the letters.\<close>

definition mode_text :: "flush \<Rightarrow> string" where
  "mode_text f =
     (if post f = [] then outp f
      else let index = POSTLEN - 1 - postsize f;
               p = (if 0 < index \<and> post f ! (index - 1) = CHR '' '' then take (index - 1) (post f) else post f)
           in fst (egg_strcatn (fst (egg_strcatn (outp f) '' '' POSTLEN)) p POSTLEN))"

definition flush_mode :: "mode_cfg \<Rightarrow> pri \<Rightarrow> modechan \<Rightarrow> modechan option" where
  "flush_mode cfg pri chan =
     (let f = \<lparr>outp = [], plus = 2, post = [], postsize = POSTLEN - 1\<rparr>;
          f = (if mns chan \<noteq> [] then put_mode False (mns chan) f else f);
          f = (if pls chan \<noteq> [] then put_mode True (pls chan) f else f);
          chan = chan\<lparr>mns := [], pls := [], bytes := 0, compat := 0\<rparr>;
          (chan, f) = (case mkey chan of
              Some k \<Rightarrow> if rmkey chan = None then (chan\<lparr>mkey := None\<rparr>, put_arg k (put_mode True ''k'' f)) else (chan, f)
            | None \<Rightarrow> (chan, f))
      in do {
        (chan, f) \<leftarrow>
          (if mlimit chan \<noteq> 0 \<and> 12 \<le> postsize f
           then do {
             digits \<leftarrow> int_to_base10 (mlimit chan);
             Some (chan\<lparr>mlimit := 0\<rparr>, put_limit digits (put_mode True ''l'' f))
           }
           else Some (chan, f));
        let (chan, f) = (case rmkey chan of
              Some k \<Rightarrow> (chan\<lparr>rmkey := None\<rparr>, put_arg k (put_mode False ''k'' f))
            | None \<Rightarrow> (chan, f)) in do {
        (cs, f) \<leftarrow> flush_slots False (nat (modesperline cfg)) (cmode chan) f;
        (cs, f) \<leftarrow> flush_slots True (nat (modesperline cfg)) cs f;
        let chan = chan\<lparr>cmode := cs\<rparr>; t = mode_text f in
        Some (if t \<noteq> []
              then chan\<lparr>mode_lines := mode_lines chan @ [(pri, ''MODE '' @ name chan @ '' '' @ t)]\<rparr>
              else chan)
      }})"

section \<open>Queueing a change\<close>

definition find_member :: "modechan \<Rightarrow> string \<Rightarrow> (string \<times> 64 word) option" where
  "find_member chan nick = find (\<lambda>x. rfc_casecmp (fst x) nick = 0) (members chan)"

definition set_member_flag :: "string \<Rightarrow> 64 word \<Rightarrow> modechan \<Rightarrow> modechan" where
  "set_member_flag nick flag chan =
     (let before = takeWhile (\<lambda>x. rfc_casecmp (fst x) nick \<noteq> 0) (members chan)
      in case drop (length before) (members chan) of
           [] \<Rightarrow> chan
         | (n, fl) # rest \<Rightarrow> chan\<lparr>members := before @ (n, fl OR flag) # rest\<rparr>)"

definition has_member_flag :: "mode_cfg \<Rightarrow> modechan \<Rightarrow> 64 word \<Rightarrow> bool" where
  "has_member_flag cfg chan flag =
     (case find_member chan (botname cfg) of None \<Rightarrow> False | Some (_, fl) \<Rightarrow> has fl flag)"

definition me_op :: "mode_cfg \<Rightarrow> modechan \<Rightarrow> bool" where
  "me_op cfg chan = has_member_flag cfg chan 0x00001"

definition me_halfop :: "mode_cfg \<Rightarrow> modechan \<Rightarrow> bool" where
  "me_halfop cfg chan = has_member_flag cfg chan 0x01000"

definition halfop_cantdomode :: "mode_cfg \<Rightarrow> modechan \<Rightarrow> char \<Rightarrow> bool" where
  "halfop_cantdomode cfg chan mode \<longleftrightarrow>
     \<not> me_op cfg chan \<and> (\<not> me_halfop cfg chan \<or> mode \<in> set ''ahoq'' \<or> mode = NUL)"

text \<open>The flag a member has in a mode, and the flags that +mode or -mode has been sent.\<close>

definition member_flags :: "char \<Rightarrow> 64 word \<times> 64 word \<times> 64 word" where
  "member_flags mode =
     (if mode = CHR ''o'' then (0x00001, 0x00008, 0x00010)
      else if mode = CHR ''h'' then (0x01000, 0x04000, 0x08000)
      else if mode = CHR ''v'' then (0x00002, 0x00040, 0x00080)
      else (0x100000, 0x200000, 0x400000))"

text \<open>The checks on the member: \<open>None\<close> is the early return.\<close>

definition mode_member :: "char \<Rightarrow> char \<Rightarrow> string \<Rightarrow> modechan \<Rightarrow> modechan option" where
  "mode_member pm mode op chan =
     (if mode \<notin> set ''ohvq'' then Some chan
      else case find_member chan op of
        None \<Rightarrow> None
      | Some (_, fl) \<Rightarrow>
          let (hasf, sentf, sentdef) = member_flags mode in
          if pm = CHR ''-'' then
            if has fl sentdef \<or> \<not> has fl hasf then None else Some (set_member_flag op sentdef chan)
          else if pm = CHR ''+'' then
            if has fl sentf \<or> has fl hasf then None else Some (set_member_flag op sentf chan)
          else Some chan)"

text \<open>\<open>prevent_mixing\<close>: bans and ops on one line, exempts and invites on another.\<close>

definition mode_compat :: "mode_cfg \<Rightarrow> char \<Rightarrow> modechan \<Rightarrow> modechan option" where
  "mode_compat cfg mode chan =
     (let new = mode = CHR ''e'' \<or> mode = CHR ''I'' in
      if compat chan = 0 then Some (chan\<lparr>compat := (if new then 2 else 1)\<rparr>)
      else if new then
        (if prevent_mixing cfg \<and> compat chan = 1 then flush_mode cfg NORMAL chan else Some chan)
      else if prevent_mixing cfg \<and> compat chan = 2 then flush_mode cfg NORMAL chan
      else Some chan)"

definition mode_type :: "char \<Rightarrow> char \<Rightarrow> int32" where
  "mode_type pm mode =
     (if pm = CHR ''+'' then PLUS else MINUS) OR
     (if mode = CHR ''o'' then CHOP else if mode = CHR ''h'' then CHHOP else if mode = CHR ''b'' then BAN
      else if mode = CHR ''v'' then VOICE else if mode = CHR ''e'' then EXEMPT
      else if mode = CHR ''q'' then CHOWN else INVITE)"

definition ismodeline :: "string list \<Rightarrow> string \<Rightarrow> bool" where
  "ismodeline masks user \<longleftrightarrow> (\<exists>m \<in> set masks. rfc_casecmp m user = 0)"

definition mask_list :: "modechan \<Rightarrow> char \<Rightarrow> string list" where
  "mask_list chan mode =
     (if mode = CHR ''b'' then bans chan else if mode = CHR ''e'' then exempts chan else invites chan)"

text \<open>Is the mask already set or unset, or the list full?\<close>

definition mask_refused :: "mode_cfg \<Rightarrow> char \<Rightarrow> char \<Rightarrow> string \<Rightarrow> modechan \<Rightarrow> bool" where
  "mask_refused cfg pm mode op chan \<longleftrightarrow>
     mode \<in> set ''beI'' \<and>
     (pm = CHR ''-'' \<and> \<not> ismodeline (mask_list chan mode) op \<or>
      pm = CHR ''+'' \<and>
        (ismodeline (mask_list chan mode) op \<or>
         mode = CHR ''b'' \<and> max_bans cfg \<le> int (length (bans chan)) \<or>
         mode = CHR ''e'' \<and> max_exempts cfg \<le> int (length (exempts chan)) \<or>
         mode = CHR ''I'' \<and> max_invites cfg \<le> int (length (invites chan)) \<or>
         max_modes cfg \<le> int (length (bans chan) + length (exempts chan) + length (invites chan))))"

text \<open>The loops over the slots; \<open>None\<close> is an index beyond \<open>MODES_PER_LINE_MAX\<close>.\<close>

fun slot_dup :: "nat \<Rightarrow> cmode_t list \<Rightarrow> int32 \<Rightarrow> string \<Rightarrow> bool option" where
  "slot_dup 0 cs t op = Some False"
| "slot_dup (Suc n) [] t op = None"
| "slot_dup (Suc n) (c # cs) t op =
     (if cm_type c = t \<and> (case cm_op c of None \<Rightarrow> False | Some s \<Rightarrow> rfc_casecmp s op = 0) then Some True
      else slot_dup n cs t op)"

fun slot_put :: "nat \<Rightarrow> cmode_t list \<Rightarrow> int32 \<Rightarrow> string \<Rightarrow> (bool \<times> cmode_t list) option" where
  "slot_put 0 cs t op = Some (False, cs)"
| "slot_put (Suc n) [] t op = None"
| "slot_put (Suc n) (c # cs) t op =
     (if cm_type c = 0 then Some (True, \<lparr>cm_type = t, cm_op = Some op\<rparr> # cs)
      else do { (b, cs) \<leftarrow> slot_put n cs t op; Some (b, c # cs) })"

fun slots_used :: "nat \<Rightarrow> cmode_t list \<Rightarrow> int option" where
  "slots_used 0 cs = Some 0"
| "slots_used (Suc n) [] = None"
| "slots_used (Suc n) (c # cs) =
     map_option (\<lambda>k. if cm_type c \<noteq> 0 then k + 1 else k) (slots_used n cs)"

text \<open>Storing the change; \<open>Inl\<close> is the early return.\<close>

definition mode_store :: "mode_cfg \<Rightarrow> char \<Rightarrow> char \<Rightarrow> string \<Rightarrow> modechan \<Rightarrow> (modechan + modechan) option" where
  "mode_store cfg pm mode op chan =
     (let n = nat (modesperline cfg) in
      if mode \<in> set ''ohbveIq'' then
        if mask_refused cfg pm mode op chan then Some (Inl chan)
        else do {
          dup \<leftarrow> slot_dup n (cmode chan) (mode_type pm mode) op;
          if dup then Some (Inl chan)
          else do {
            let l = int (length op) + 1;
            chan \<leftarrow> (if mode_buf_len cfg < bytes chan + l then flush_mode cfg NORMAL chan else Some chan);
            (placed, cs) \<leftarrow> slot_put n (cmode chan) (mode_type pm mode) op;
            Some (Inr (if placed then chan\<lparr>cmode := cs, bytes := bytes chan + l\<rparr> else chan))
          }
        }
      else if pm = CHR ''+'' \<and> mode = CHR ''k'' then Some (Inr (chan\<lparr>mkey := Some op\<rparr>))
      else if pm = CHR ''-'' \<and> mode = CHR ''k'' then Some (Inr (chan\<lparr>rmkey := Some op\<rparr>))
      else if pm = CHR ''+'' \<and> mode = CHR ''l'' then Some (Inr (chan\<lparr>mlimit := egg_atoi op\<rparr>))
      else
        let ms = (if pm = CHR ''+'' then pls chan else mns chan) in
        if mode \<in> set ms \<or> mode = NUL then Some (Inr chan)
        else if 20 \<le> length ms then None
        else Some (Inr (if pm = CHR ''+'' then chan\<lparr>pls := ms @ [mode]\<rparr> else chan\<lparr>mns := ms @ [mode]\<rparr>)))"

definition real_add_mode :: "mode_cfg \<Rightarrow> char \<Rightarrow> char \<Rightarrow> string \<Rightarrow> modechan \<Rightarrow> modechan option" where
  "real_add_mode cfg pm mode op chan =
     (if halfop_cantdomode cfg chan mode then Some chan
      else case mode_member pm mode op chan of
        None \<Rightarrow> Some chan
      | Some chan \<Rightarrow> do {
          chan \<leftarrow> mode_compat cfg mode chan;
          r \<leftarrow> mode_store cfg pm mode op chan;
          case r of
            Inl chan \<Rightarrow> Some chan
          | Inr chan \<Rightarrow> do {
              used \<leftarrow> slots_used (nat (modesperline cfg)) (cmode chan);
              let lk = (if include_lk cfg then (if mlimit chan \<noteq> 0 then 1 else 0) +
                          (if rmkey chan \<noteq> None then 1 else 0) + (if mkey chan \<noteq> None then 1 else 0) else 0);
              if modesperline cfg - used - lk < 1 then flush_mode cfg NORMAL chan else Some chan
            }
        })"

end
