(* ===== verification/ChanModeFlush.thy ===== *)
theory ChanModeFlush
  imports ChanMode
begin

text \<open>
  What a server reads from the line \<open>flush_mode\<close> writes: the changes that were queued, in order.
\<close>

section \<open>Reading a MODE line\<close>

type_synonym change = "bool \<times> char \<times> string option"

definition takes_arg :: "bool \<Rightarrow> char \<Rightarrow> bool" where
  "takes_arg add c \<longleftrightarrow> c \<in> set ''ohvbeIqk'' \<or> add \<and> c = CHR ''l''"

fun read_modes :: "bool \<Rightarrow> string \<Rightarrow> string list \<Rightarrow> change list" where
  "read_modes add [] args = []"
| "read_modes add (c # cs) args =
     (if c = CHR ''+'' then read_modes True cs args
      else if c = CHR ''-'' then read_modes False cs args
      else if takes_arg add c then
        (case args of
           [] \<Rightarrow> (add, c, None) # read_modes add cs []
         | a # args \<Rightarrow> (add, c, Some a) # read_modes add cs args)
      else (add, c, None) # read_modes add cs args)"

definition read_mode_text :: "string \<Rightarrow> change list" where
  "read_mode_text s = (case words_of s of [] \<Rightarrow> [] | letters # args \<Rightarrow> read_modes True letters args)"

section \<open>The line as it grows\<close>

definition plain_letter :: "bool \<Rightarrow> char \<Rightarrow> bool" where
  "plain_letter add c \<longleftrightarrow> c \<notin> {NUL, CHR '' '', CHR ''+'', CHR ''-''} \<and> \<not> takes_arg add c"

definition word :: "string \<Rightarrow> bool" where
  "word s \<longleftrightarrow> s \<noteq> [] \<and> cstring s \<and> CHR '' '' \<notin> set s"

text \<open>
  \<open>flushing f args ch\<close>: the letters so far with the parameters \<open>args\<close> read as the changes \<open>ch\<close>,
  whatever follows.
\<close>

definition flushing :: "flush \<Rightarrow> string list \<Rightarrow> change list \<Rightarrow> bool" where
  "flushing f args ch \<longleftrightarrow>
     post f = concat (map (\<lambda>a. a @ '' '') args) \<and> postsize f + length (post f) = POSTLEN - 1 \<and>
     length (outp f) \<le> 2 * length ch \<and>
     (\<forall>a \<in> set args. word a) \<and> cstring (outp f) \<and> CHR '' '' \<notin> set (outp f) \<and>
     (outp f = [] \<longleftrightarrow> plus f = 2) \<and> (plus f = 2 \<longrightarrow> ch = [] \<and> args = []) \<and>
     (\<forall>cs bs. read_modes True (outp f @ cs) (args @ bs) = ch @ read_modes (plus f \<noteq> 0) cs bs)"

lemma flushing_size: "flushing f args ch \<Longrightarrow> postsize f + length (post f) = POSTLEN - 1"
  unfolding flushing_def by blast

lemma flushing_start: "flushing \<lparr>outp = [], plus = 2, post = [], postsize = POSTLEN - 1\<rparr> [] []"
  by (simp add: flushing_def)

lemma read_plain:
  "\<forall>c \<in> set letters. plain_letter add c \<Longrightarrow>
   read_modes add (letters @ cs) bs = map (\<lambda>c. (add, c, None)) letters @ read_modes add cs bs"
  by (induction letters) (auto simp: plain_letter_def)

lemma put_mode_simps [simp]:
  "post (put_mode add l f) = post f" "postsize (put_mode add l f) = postsize f"
  "plus (put_mode add l f) = (if add then 1 else 0)"
  "outp (put_mode add l f) = outp f @ (if add then if plus f \<noteq> 1 then ''+'' else [] else if plus f \<noteq> 0 then ''-'' else []) @ l"
  by (simp_all add: put_mode_def)

lemma read_put_mode:
  "read_modes (plus f \<noteq> 0) ((if add then if plus f \<noteq> 1 then ''+'' else [] else if plus f \<noteq> 0 then ''-'' else []) @ l @ cs) bs
   = read_modes add (l @ cs) bs" if "plus f \<in> {0, 1, 2}"
  using that by auto

lemma flushing_letters:
  assumes "flushing f args ch" "\<forall>c \<in> set letters. plain_letter add c" "plus f \<in> {0, 1, 2}" "letters \<noteq> []"
  shows "flushing (put_mode add letters f) args (ch @ map (\<lambda>c. (add, c, None)) letters)"
proof -
  have "cstring letters" "CHR '' '' \<notin> set letters"
    using assms(2) by (auto simp: cstring_def plain_letter_def)
  moreover have "1 \<le> length letters" using assms(4) by (cases letters) simp_all
  ultimately show ?thesis
    using assms read_put_mode [OF assms(3)] read_plain [OF assms(2)]
    by (auto simp: flushing_def cstring_def)
qed

lemma egg_strcatn_whole:
  "length dst + length src < n \<Longrightarrow> egg_strcatn dst src n = (dst @ src, length src)"
  by (simp add: egg_strcatn_eq)

lemma put_arg_eq:
  assumes "length (post f) + length s < POSTLEN - 1"
  shows "put_arg s f = f\<lparr>post := post f @ s @ '' '', postsize := postsize f - (length s + 1)\<rparr>"
  using assms by (simp add: put_arg_def egg_strcatn_whole)

lemma flushing_arg:
  assumes "flushing f args ch" "takes_arg add c" "c \<notin> {CHR ''+'', CHR ''-''}" "plus f \<in> {0, 1, 2}" "word s"
    "length s < postsize f"
  shows "flushing ((put_mode add [c] f)\<lparr>post := post f @ s @ '' '', postsize := postsize f - (length s + 1)\<rparr>)
    (args @ [s]) (ch @ [(add, c, Some s)])"
proof -
  have c: "c \<noteq> NUL" "c \<noteq> CHR '' ''" using assms(2) by (auto simp: takes_arg_def)
  have r: "read_modes True (outp f @ cs) (args @ bs) = ch @ read_modes (plus f \<noteq> 0) cs bs" for cs bs
    using assms(1) by (simp add: flushing_def)
  have "read_modes True (outp (put_mode add [c] f) @ cs) ((args @ [s]) @ bs) =
      (ch @ [(add, c, Some s)]) @ read_modes add cs bs" for cs bs
    using read_put_mode [OF assms(4), of add "[c]" cs "s # bs"] assms(2,3)
    by (simp add: r [of _ "s # bs"] del: read_modes.simps) simp
  then show ?thesis
    using assms c by (auto simp: flushing_def cstring_def word_def)
qed

lemma flushing_put_arg:
  assumes "flushing f args ch" "takes_arg add c" "c \<notin> {CHR ''+'', CHR ''-''}" "plus f \<in> {0, 1, 2}" "word s"
    "length s < postsize f"
  shows "flushing (put_arg s (put_mode add [c] f)) (args @ [s]) (ch @ [(add, c, Some s)])"
    "postsize (put_arg s (put_mode add [c] f)) = postsize f - (length s + 1)"
    "plus (put_arg s (put_mode add [c] f)) = (if add then 1 else 0)"
proof -
  have "length (post (put_mode add [c] f)) + length s < POSTLEN - 1"
    using flushing_size [OF assms(1)] assms(6) by simp
  from put_arg_eq [OF this] flushing_arg [OF assms]
  show "flushing (put_arg s (put_mode add [c] f)) (args @ [s]) (ch @ [(add, c, Some s)])"
    "postsize (put_arg s (put_mode add [c] f)) = postsize f - (length s + 1)"
    "plus (put_arg s (put_mode add [c] f)) = (if add then 1 else 0)" by simp_all
qed

lemma flushing_put_limit:
  assumes "flushing f args ch" "plus f \<in> {0, 1, 2}" "word s" "length s < postsize f"
  shows "flushing (put_limit s (put_mode True ''l'' f)) (args @ [s]) (ch @ [(True, CHR ''l'', Some s)])"
    "postsize (put_limit s (put_mode True ''l'' f)) = postsize f - (length s + 1)"
    "plus (put_limit s (put_mode True ''l'' f)) = 1"
proof -
  have "POSTLEN - 1 - postsize f = length (post f)" using flushing_size [OF assms(1)] by simp
  then have "put_limit s (put_mode True ''l'' f) =
      (put_mode True ''l'' f)\<lparr>post := post f @ s @ '' '', postsize := postsize f - (length s + 1)\<rparr>"
    using assms(4) by (simp add: put_limit_def)
  then show "flushing (put_limit s (put_mode True ''l'' f)) (args @ [s]) (ch @ [(True, CHR ''l'', Some s)])"
    "postsize (put_limit s (put_mode True ''l'' f)) = postsize f - (length s + 1)"
    "plus (put_limit s (put_mode True ''l'' f)) = 1"
    using flushing_arg [OF assms(1) _ _ assms(2-4), of True "CHR ''l''"] by (simp_all add: takes_arg_def)
qed

section \<open>The slots\<close>

definition slot_ok :: "cmode_t \<Rightarrow> bool" where
  "slot_ok c \<longleftrightarrow>
     cm_type c = 0 \<and> cm_op c = None \<or>
     (\<exists>pm mode s. pm \<in> set ''+-'' \<and> mode \<in> set ''ohbveIq'' \<and> cm_type c = mode_type pm mode \<and> cm_op c = Some s \<and> word s)"

definition slot_change :: "cmode_t \<Rightarrow> change" where
  "slot_change c = (has (cm_type c) PLUS, type_letter (cm_type c), cm_op c)"

definition slot_bytes :: "cmode_t \<Rightarrow> nat" where
  "slot_bytes c = (case cm_op c of None \<Rightarrow> 0 | Some s \<Rightarrow> length s + 1)"

abbreviation sign_bit :: "bool \<Rightarrow> int32" where "sign_bit add \<equiv> if add then PLUS else MINUS"

abbreviation empty_slot :: cmode_t where "empty_slot \<equiv> \<lparr>cm_type = 0, cm_op = None\<rparr>"

lemma mode_type_facts:
  assumes "pm \<in> set ''+-''" "mode \<in> set ''ohbveIq''"
  shows "mode_type pm mode \<noteq> 0" "has (mode_type pm mode) PLUS \<longleftrightarrow> pm = CHR ''+''"
    "has (mode_type pm mode) MINUS \<longleftrightarrow> pm = CHR ''-''" "type_letter (mode_type pm mode) = mode"
  using assms by (auto simp: mode_type_def type_letter_def has_def)

lemma slot_ok_sign:
  assumes "slot_ok c"
  shows "has (cm_type c) (sign_bit add) \<longleftrightarrow> cm_type c \<noteq> 0 \<and> has (cm_type c) PLUS = add"
    "cm_type c = 0 \<longleftrightarrow> cm_op c = None"
    "cm_type c \<noteq> 0 \<Longrightarrow> \<exists>s. cm_op c = Some s \<and> word s \<and> takes_arg add (type_letter (cm_type c)) \<and>
       type_letter (cm_type c) \<notin> {CHR ''+'', CHR ''-''}"
proof -
  have "(has (cm_type c) (sign_bit add) \<longleftrightarrow> cm_type c \<noteq> 0 \<and> has (cm_type c) PLUS = add) \<and>
    (cm_type c = 0 \<longleftrightarrow> cm_op c = None) \<and>
    (cm_type c \<noteq> 0 \<longrightarrow> (\<exists>s. cm_op c = Some s \<and> word s \<and> takes_arg add (type_letter (cm_type c)) \<and>
       type_letter (cm_type c) \<notin> {CHR ''+'', CHR ''-''}))"
  proof (cases "cm_type c = 0 \<and> cm_op c = None")
    case False
    then obtain pm mode s where s: "pm \<in> set ''+-''" "mode \<in> set ''ohbveIq''" "cm_type c = mode_type pm mode"
        "cm_op c = Some s" "word s"
      using assms by (auto simp only: slot_ok_def)
    note t = mode_type_facts [OF s(1,2)]
    have "mode \<notin> {CHR ''+'', CHR ''-''}" "takes_arg add mode" "pm = CHR ''+'' \<or> pm = CHR ''-''"
      using s(1,2) by (auto simp: takes_arg_def)
    then show ?thesis using s(3-5) t by auto
  qed simp
  then show "has (cm_type c) (sign_bit add) \<longleftrightarrow> cm_type c \<noteq> 0 \<and> has (cm_type c) PLUS = add"
    "cm_type c = 0 \<longleftrightarrow> cm_op c = None"
    "cm_type c \<noteq> 0 \<Longrightarrow> \<exists>s. cm_op c = Some s \<and> word s \<and> takes_arg add (type_letter (cm_type c)) \<and>
       type_letter (cm_type c) \<notin> {CHR ''+'', CHR ''-''}" by blast+
qed

lemma flush_slots_flushing:
  fixes add :: bool
  assumes "flushing f args ch" "plus f \<in> {0, 1, 2}" "\<forall>c \<in> set cs. slot_ok c" "n \<le> length cs"
    "sum_list (map slot_bytes (take n cs)) \<le> postsize f"
  defines "mine c \<equiv> cm_type c \<noteq> 0 \<and> has (cm_type c) PLUS = add"
  shows "\<exists>f'. flush_slots add n cs f = Some (map (\<lambda>c. if mine c then empty_slot else c) (take n cs) @ drop n cs, f') \<and>
    flushing f' (args @ map (\<lambda>c. the (cm_op c)) (filter mine (take n cs))) (ch @ map slot_change (filter mine (take n cs))) \<and>
    plus f' \<in> {0, 1, 2} \<and>
    postsize f' + sum_list (map slot_bytes (filter mine (take n cs))) = postsize f"
  using assms(1-5)
proof (induction n arbitrary: cs f args ch)
  case 0
  then show ?case by simp
next
  case (Suc n)
  then obtain c cs' where cs: "cs = c # cs'" by (cases cs) auto
  have ok: "slot_ok c" "\<forall>c \<in> set cs'. slot_ok c" and len: "n \<le> length cs'"
    using Suc.prems(3,4) by (simp_all add: cs)
  show ?case
  proof (cases "mine c")
    case True
    then obtain s where s: "cm_op c = Some s" "word s" "takes_arg add (type_letter (cm_type c))"
        "type_letter (cm_type c) \<notin> {CHR ''+'', CHR ''-''}"
      using slot_ok_sign [OF ok(1)] by (auto simp: mine_def)
    have sb: "slot_bytes c = length s + 1" using s(1) by (simp add: slot_bytes_def)
    then have fits: "length s < postsize f" using Suc.prems(5) by (simp add: cs)
    let ?f = "put_arg s (put_mode add [type_letter (cm_type c)] f)"
    note g = flushing_put_arg [OF Suc.prems(1) s(3,4) Suc.prems(2) s(2) fits]
    have sc: "slot_change c = (add, type_letter (cm_type c), Some s)"
      using True s(1) by (simp add: slot_change_def mine_def)
    have "sum_list (map slot_bytes (take n cs')) \<le> postsize ?f"
      using Suc.prems(5) sb g(2) by (simp add: cs)
    moreover have "plus ?f \<in> {0, 1, 2}" using g(3) by simp
    ultimately obtain f' where
      f': "flush_slots add n cs' ?f = Some (map (\<lambda>c. if mine c then empty_slot else c) (take n cs') @ drop n cs', f')"
        "flushing f' ((args @ [s]) @ map (\<lambda>c. the (cm_op c)) (filter mine (take n cs')))
           ((ch @ [(add, type_letter (cm_type c), Some s)]) @ map slot_change (filter mine (take n cs')))"
        "plus f' \<in> {0, 1, 2}" "postsize f' + sum_list (map slot_bytes (filter mine (take n cs'))) = postsize ?f"
      using Suc.IH [OF g(1) _ ok(2) len] by blast
    have "has (cm_type c) (sign_bit add)" using True slot_ok_sign(1) [OF ok(1), of add] by (simp add: mine_def)
    then show ?thesis
      using f' s(1) fits True g(2) sc sb by (auto simp: cs)
  next
    case False
    then have "\<not> has (cm_type c) (sign_bit add)" using slot_ok_sign(1) [OF ok(1), of add] by (simp add: mine_def)
    moreover have fits: "sum_list (map slot_bytes (take n cs')) \<le> postsize f" using Suc.prems(5) by (simp add: cs)
    obtain f' where
      "flush_slots add n cs' f = Some (map (\<lambda>c. if mine c then empty_slot else c) (take n cs') @ drop n cs', f')"
      "flushing f' (args @ map (\<lambda>c. the (cm_op c)) (filter mine (take n cs'))) (ch @ map slot_change (filter mine (take n cs')))"
      "plus f' \<in> {0, 1, 2}" "postsize f' + sum_list (map slot_bytes (filter mine (take n cs'))) = postsize f"
      using Suc.IH [OF Suc.prems(1,2) ok(2) len fits] by blast
    ultimately show ?thesis using False by (auto simp: cs)
  qed
qed

section \<open>The line as a whole\<close>

lemma length_dec: "n < 10 ^ Suc k \<Longrightarrow> length (dec n) \<le> Suc k"
proof (induction k arbitrary: n)
  case 0
  then show ?case by (subst dec.simps) simp
next
  case (Suc k)
  then have "n div 10 < 10 ^ Suc k" by (simp add: less_mult_imp_div_less mult.commute)
  then show ?case using Suc.IH [of "n div 10"] by (subst dec.simps) auto
qed

lemma dec_int_word: "- INT_MAX \<le> v \<Longrightarrow> v \<le> INT_MAX \<Longrightarrow> word (dec_int v) \<and> length (dec_int v) \<le> 11"
proof -
  assume v: "- INT_MAX \<le> v" "v \<le> INT_MAX"
  have "CHR '' '' \<notin> set (dec n)" for n
  proof
    assume "CHR '' '' \<in> set (dec n)"
    then have "isdigit (CHR '' '')" by (rule dec_digits)
    then show False by (simp add: isdigit_def)
  qed
  moreover have "nat \<bar>v\<bar> < 10 ^ Suc 9" using v by (simp add: INT_MAX_def nat_less_iff)
  then have "length (dec (nat \<bar>v\<bar>)) \<le> 10" using length_dec [of "nat \<bar>v\<bar>" 9] by simp
  ultimately show ?thesis by (auto simp: dec_int_def word_def)
qed

primrec spaced :: "string list \<Rightarrow> string" where
  "spaced [] = []"
| "spaced (a # args) = CHR '' '' # a @ spaced args"

lemma cstring_spaced: "\<forall>a \<in> set args. word a \<Longrightarrow> cstring (spaced args)"
  by (induction args) (auto simp: word_def cstring_def)

lemma words_of_join:
  "word w \<Longrightarrow> \<forall>a \<in> set args. word a \<Longrightarrow> words_of (w @ spaced args) = w # args"
proof (induction args arbitrary: w)
  case Nil
  then have w: "cstring w" "CHR '' '' \<notin> set w" by (simp_all add: word_def)
  then have "dropWhile (\<lambda>c. c = CHR '' '') w = w" by (cases w) auto
  moreover have "takeWhile (\<lambda>c. c \<noteq> CHR '' '') w = w" "dropWhile (\<lambda>c. c \<noteq> CHR '' '') w = []"
    using w(2) by (induction w) auto
  ultimately have "newsplit w = (w, [])" using w by (simp only: newsplit_eq list.sel)
  then show ?case using Nil by (simp add: words_of.simps [of w] words_of.simps [of "[]"] word_def)
next
  case (Cons a args)
  have ct: "cstring (a @ spaced args)"
    using Cons.prems(2) cstring_spaced [of args] by (auto simp: cstring_def word_def)
  have "newsplit (w @ CHR '' '' # (a @ spaced args)) = (w, a @ spaced args)"
    using Cons.prems ct by (intro newsplit_one_word) (auto simp: word_def cstring_def)
  then show ?case
    using Cons.IH [of a] Cons.prems
    by (subst words_of.simps) (simp add: word_def)
qed

lemma mode_text_flushing:
  assumes "flushing f args ch" "length (outp f) + length (post f) < POSTLEN" "plus f \<noteq> 2"
  shows "mode_text f = outp f @ spaced args" "read_mode_text (mode_text f) = ch"
proof -
  have sp: "'' '' @ concat (map (\<lambda>a. a @ '' '') args) = spaced args @ '' ''" for args :: "string list"
    by (induction args) simp_all
  have p: "post f = concat (map (\<lambda>a. a @ '' '') args)" "POSTLEN - 1 - postsize f = length (post f)"
    using assms(1) flushing_size [OF assms(1)] by (simp_all add: flushing_def)
  show t: "mode_text f = outp f @ spaced args"
  proof (cases args rule: rev_cases)
    case Nil
    then show ?thesis using p by (simp add: mode_text_def)
  next
    case (snoc as a)
    then have ne: "post f \<noteq> []" "last (post f) = CHR '' ''" using p(1) by simp_all
    then have l: "post f ! (length (post f) - 1) = CHR '' ''" by (simp add: last_conv_nth)
    have "mode_text f = fst (egg_strcatn (fst (egg_strcatn (outp f) '' '' POSTLEN)) (butlast (post f)) POSTLEN)"
      using ne l unfolding mode_text_def p(2) Let_def by (simp add: butlast_conv_take)
    also have "\<dots> = outp f @ '' '' @ butlast (post f)"
      using assms(2) ne by (cases "post f" rule: rev_cases) (simp_all add: egg_strcatn_whole)
    also have "'' '' @ butlast (post f) = butlast ('' '' @ post f)" using ne by simp
    also have "'' '' @ post f = spaced args @ '' ''" unfolding p(1) by (rule sp)
    finally show ?thesis by simp
  qed
  have "word (outp f)" "\<forall>a \<in> set args. word a" and
    r: "\<forall>cs bs. read_modes True (outp f @ cs) (args @ bs) = ch @ read_modes (plus f \<noteq> 0) cs bs"
    using assms(1,3) by (auto simp: flushing_def word_def)
  moreover have "read_modes True (outp f) args = ch"
    using spec [OF spec [OF r], of "[]" "[]"] by simp
  ultimately show "read_mode_text (mode_text f) = ch"
    by (simp only: t read_mode_text_def words_of_join list.case)
qed

section \<open>\<open>flush_mode\<close>\<close>

definition chan_ok :: "mode_cfg \<Rightarrow> modechan \<Rightarrow> bool" where
  "chan_ok cfg chan \<longleftrightarrow>
     (\<forall>c \<in> set (mns chan). plain_letter False c) \<and> (\<forall>c \<in> set (pls chan). plain_letter True c) \<and>
     (\<forall>k. mkey chan = Some k \<longrightarrow> word k) \<and> (\<forall>k. rmkey chan = Some k \<longrightarrow> word k) \<and>
     - INT_MAX \<le> mlimit chan \<and> mlimit chan \<le> INT_MAX \<and>
     length (cmode chan) = MODES_PER_LINE_MAX \<and> (\<forall>c \<in> set (cmode chan). slot_ok c) \<and>
     1 \<le> modesperline cfg \<and> modesperline cfg \<le> int MODES_PER_LINE_MAX"

definition opt_bytes :: "string option \<Rightarrow> nat" where
  "opt_bytes k = (case k of None \<Rightarrow> 0 | Some s \<Rightarrow> length s + 1)"

text \<open>The room all changes take, with 12 bytes for a limit.\<close>

definition line_bytes :: "modechan \<Rightarrow> nat" where
  "line_bytes chan = 2 * (length (mns chan) + length (pls chan) + 9) + opt_bytes (mkey chan) +
     opt_bytes (rmkey chan) + 12 + sum_list (map slot_bytes (cmode chan))"

abbreviation my_slots :: "mode_cfg \<Rightarrow> modechan \<Rightarrow> cmode_t list" where
  "my_slots cfg chan \<equiv> take (nat (modesperline cfg)) (cmode chan)"

definition slots_of :: "bool \<Rightarrow> cmode_t list \<Rightarrow> cmode_t list" where
  "slots_of add cs = filter (\<lambda>c. cm_type c \<noteq> 0 \<and> has (cm_type c) PLUS = add) cs"

text \<open>The changes \<open>flush_mode\<close> sends, in order: of a change of the key only the \<open>-k\<close>.\<close>

definition sent_changes :: "mode_cfg \<Rightarrow> modechan \<Rightarrow> change list" where
  "sent_changes cfg chan =
     map (\<lambda>c. (False, c, None)) (mns chan) @ map (\<lambda>c. (True, c, None)) (pls chan) @
     (case mkey chan of Some k \<Rightarrow> if rmkey chan = None then [(True, CHR ''k'', Some k)] else [] | None \<Rightarrow> []) @
     (if mlimit chan \<noteq> 0 then [(True, CHR ''l'', Some (dec_int (mlimit chan)))] else []) @
     (case rmkey chan of Some k \<Rightarrow> [(False, CHR ''k'', Some k)] | None \<Rightarrow> []) @
     map slot_change (slots_of False (my_slots cfg chan)) @ map slot_change (slots_of True (my_slots cfg chan))"

definition flushed :: "mode_cfg \<Rightarrow> modechan \<Rightarrow> modechan" where
  "flushed cfg chan =
     chan\<lparr>mns := [], pls := [], bytes := 0, compat := 0,
       mkey := (if rmkey chan = None then None else mkey chan), mlimit := 0, rmkey := None,
       cmode := replicate (nat (modesperline cfg)) empty_slot @ drop (nat (modesperline cfg)) (cmode chan)\<rparr>"

text \<open>One stage: it reads on from \<open>ch\<close> with the changes \<open>new\<close> and takes \<open>n\<close> bytes at most.\<close>

definition stage :: "flush \<Rightarrow> change list \<Rightarrow> nat \<Rightarrow> bool" where
  "stage f ch room \<longleftrightarrow> (\<exists>args. flushing f args ch) \<and> plus f \<in> {0, 1, 2} \<and> room \<le> postsize f"

lemma stage_letters:
  assumes "stage f ch room" "\<forall>c \<in> set l. plain_letter add c"
  shows "stage (if l \<noteq> [] then put_mode add l f else f) (ch @ map (\<lambda>c. (add, c, None)) l) room"
proof (cases "l = []")
  case False
  obtain args where "flushing f args ch" "plus f \<in> {0, 1, 2}" "room \<le> postsize f"
    using assms(1) by (auto simp: stage_def)
  from flushing_letters [OF this(1) assms(2) this(2) False] this(3) False show ?thesis
    by (auto simp: stage_def)
qed (use assms(1) in simp)

lemma stage_arg:
  assumes "stage f ch (length s + 1 + room)" "takes_arg add c" "c \<notin> {CHR ''+'', CHR ''-''}" "word s"
  shows "stage (put_arg s (put_mode add [c] f)) (ch @ [(add, c, Some s)]) room"
proof -
  obtain args where "flushing f args ch" "plus f \<in> {0, 1, 2}" "length s < postsize f"
    using assms(1) by (auto simp: stage_def)
  from flushing_put_arg [OF this(1) assms(2,3) this(2) assms(4) this(3)] show ?thesis
    using assms(1) by (auto simp: stage_def)
qed

lemma stage_limit:
  assumes "stage f ch (12 + room)" "word s" "length s \<le> 11"
  shows "stage (put_limit s (put_mode True ''l'' f)) (ch @ [(True, CHR ''l'', Some s)]) room"
proof -
  obtain args where "flushing f args ch" "plus f \<in> {0, 1, 2}" "length s < postsize f"
    using assms(1,3) by (auto simp: stage_def)
  from flushing_put_limit [OF this(1,2) assms(2) this(3)] show ?thesis
    using assms(1,3) by (auto simp: stage_def)
qed

lemma stage_slots:
  assumes "stage f ch room" "\<forall>c \<in> set cs. slot_ok c" "n \<le> length cs" "sum_list (map slot_bytes (take n cs)) \<le> room"
  shows "\<exists>f'. flush_slots add n cs f =
      Some (map (\<lambda>c. if cm_type c \<noteq> 0 \<and> has (cm_type c) PLUS = add then empty_slot else c) (take n cs) @ drop n cs, f') \<and>
    stage f' (ch @ map slot_change (slots_of add (take n cs))) (room - sum_list (map slot_bytes (slots_of add (take n cs))))"
proof -
  obtain args where a: "flushing f args ch" "plus f \<in> {0, 1, 2}" "room \<le> postsize f"
    using assms(1) by (auto simp: stage_def)
  have "sum_list (map slot_bytes (take n cs)) \<le> postsize f" using a(3) assms(4) by simp
  from flush_slots_flushing [OF a(1,2) assms(2,3) this, of add] a(3) show ?thesis
    by (auto simp: stage_def slots_of_def)
qed

lemma stage_less: "stage f ch room \<Longrightarrow> room' \<le> room \<Longrightarrow> stage f ch room'"
  by (auto simp: stage_def)

definition clear_slots :: "bool \<Rightarrow> cmode_t list \<Rightarrow> cmode_t list" where
  "clear_slots add cs = map (\<lambda>c. if cm_type c \<noteq> 0 \<and> has (cm_type c) PLUS = add then empty_slot else c) cs"

lemma slot_ok_empty: "slot_ok empty_slot"
  by (simp add: slot_ok_def)

lemma clear_slots_facts:
  assumes "\<forall>c \<in> set cs. slot_ok c"
  shows "\<forall>c \<in> set (clear_slots add cs). slot_ok c" "slots_of True (clear_slots False cs) = slots_of True cs"
    "clear_slots True (clear_slots False cs) = replicate (length cs) empty_slot"
    "length (slots_of False cs) + length (slots_of True cs) \<le> length cs"
    "sum_list (map slot_bytes (slots_of False cs)) + sum_list (map slot_bytes (slots_of True cs)) = sum_list (map slot_bytes cs)"
    "sum_list (map slot_bytes (clear_slots False cs)) = sum_list (map slot_bytes (slots_of True cs))"
proof -
  have *: "slot_ok c \<Longrightarrow> cm_type c = 0 \<Longrightarrow> c = empty_slot \<and> slot_bytes c = 0" for c
    using slot_ok_sign(2) [of c] by (cases c) (simp add: slot_bytes_def)
  have e: "slot_bytes empty_slot = 0" by (simp add: slot_bytes_def)
  show "\<forall>c \<in> set (clear_slots add cs). slot_ok c"
    using assms slot_ok_empty by (auto simp: clear_slots_def)
  show "slots_of True (clear_slots False cs) = slots_of True cs"
    by (induction cs) (simp_all add: slots_of_def clear_slots_def)
  show "clear_slots True (clear_slots False cs) = replicate (length cs) empty_slot"
    using assms * by (induction cs) (auto simp: clear_slots_def)
  show "length (slots_of False cs) + length (slots_of True cs) \<le> length cs"
    by (induction cs) (simp_all add: slots_of_def)
  show "sum_list (map slot_bytes (slots_of False cs)) + sum_list (map slot_bytes (slots_of True cs)) = sum_list (map slot_bytes cs)"
    using assms * by (induction cs) (auto simp: slots_of_def)
  show "sum_list (map slot_bytes (clear_slots False cs)) = sum_list (map slot_bytes (slots_of True cs))"
    using assms * e by (induction cs) (auto simp: slots_of_def clear_slots_def)
qed

lemma flush_mode_flushed:
  assumes "chan_ok cfg chan" "line_bytes chan \<le> POSTLEN - 1"
  shows "\<exists>t. flush_mode cfg pri chan = Some ((flushed cfg chan)\<lparr>mode_lines :=
      (if sent_changes cfg chan = [] then mode_lines chan
       else mode_lines chan @ [(pri, ''MODE '' @ name chan @ '' '' @ t)])\<rparr>) \<and>
    read_mode_text t = sent_changes cfg chan"
proof -
  let ?n = "nat (modesperline cfg)"
  define cs where "cs = my_slots cfg chan"
  define S where "S = sum_list (map slot_bytes cs)"
  define r where "r = 2 * (length (mns chan) + length (pls chan) + 9)"
  have n: "?n \<le> length (cmode chan)" "length cs = ?n" "length cs \<le> 6"
    using assms(1) by (auto simp: chan_ok_def cs_def)
  have ok: "\<forall>c \<in> set (cmode chan). slot_ok c" "\<forall>c \<in> set cs. slot_ok c"
    using assms(1) by (auto simp: chan_ok_def cs_def dest: in_set_takeD)
  have "sum_list (map slot_bytes (cmode chan)) = S + sum_list (map slot_bytes (drop ?n (cmode chan)))"
    unfolding S_def cs_def by (metis append_take_drop_id map_append sum_list_append)
  then have room: "opt_bytes (mkey chan) + (12 + (opt_bytes (rmkey chan) + (S + r))) \<le> 511"
    using assms(2) by (simp add: line_bytes_def r_def)
  define f0 where "f0 = \<lparr>outp = [], plus = 2, post = [], postsize = POSTLEN - 1\<rparr>"
  define f1 where "f1 = (if mns chan \<noteq> [] then put_mode False (mns chan) f0 else f0)"
  define f2 where "f2 = (if pls chan \<noteq> [] then put_mode True (pls chan) f1 else f1)"
  define c2 where "c2 = map (\<lambda>c. (False, c, None :: string option)) (mns chan) @ map (\<lambda>c. (True, c, None)) (pls chan)"
  have "stage f0 [] 511" using flushing_start by (auto simp: stage_def f0_def)
  then have "stage f1 ([] @ map (\<lambda>c. (False, c, None)) (mns chan)) 511"
    unfolding f1_def by (rule stage_letters) (use assms(1) in \<open>simp add: chan_ok_def\<close>)
  then have "stage f2 (([] @ map (\<lambda>c. (False, c, None)) (mns chan)) @ map (\<lambda>c. (True, c, None)) (pls chan)) 511"
    unfolding f2_def by (rule stage_letters) (use assms(1) in \<open>simp add: chan_ok_def\<close>)
  then have s2: "stage f2 c2 511" by (simp add: c2_def)
  define f3 where "f3 = (case mkey chan of Some k \<Rightarrow> if rmkey chan = None then put_arg k (put_mode True ''k'' f2) else f2 | None \<Rightarrow> f2)"
  define c3 where "c3 = c2 @ (case mkey chan of Some k \<Rightarrow> if rmkey chan = None then [(True, CHR ''k'', Some k)] else [] | None \<Rightarrow> [])"
  have s3: "stage f3 c3 (12 + (opt_bytes (rmkey chan) + (S + r)))"
  proof (cases "mkey chan")
    case None
    then show ?thesis using stage_less [OF s2] room by (simp add: f3_def c3_def)
  next
    case (Some k)
    then have "word k" using assms(1) by (simp add: chan_ok_def)
    moreover have "stage f2 c2 (length k + 1 + (12 + (opt_bytes (rmkey chan) + (S + r))))"
      using stage_less [OF s2] room Some by (simp add: opt_bytes_def)
    ultimately have "stage (put_arg k (put_mode True ''k'' f2)) (c2 @ [(True, CHR ''k'', Some k)]) (12 + (opt_bytes (rmkey chan) + (S + r)))"
      by (intro stage_arg) (simp_all add: takes_arg_def)
    then show ?thesis using Some stage_less [OF s2] room by (cases "rmkey chan") (simp_all add: f3_def c3_def)
  qed
  define f4 where "f4 = (if mlimit chan \<noteq> 0 then put_limit (dec_int (mlimit chan)) (put_mode True ''l'' f3) else f3)"
  define c4 where "c4 = c3 @ (if mlimit chan \<noteq> 0 then [(True, CHR ''l'', Some (dec_int (mlimit chan)))] else [])"
  have lim: "- INT_MAX \<le> mlimit chan" "mlimit chan \<le> INT_MAX" using assms(1) by (simp_all add: chan_ok_def)
  have s4: "stage f4 c4 (opt_bytes (rmkey chan) + (S + r))"
    using stage_limit [OF s3, of "dec_int (mlimit chan)"] dec_int_word [OF lim] stage_less [OF s3]
    by (auto simp: f4_def c4_def)
  define f5 where "f5 = (case rmkey chan of Some k \<Rightarrow> put_arg k (put_mode False ''k'' f4) | None \<Rightarrow> f4)"
  define c5 where "c5 = c4 @ (case rmkey chan of Some k \<Rightarrow> [(False, CHR ''k'', Some k)] | None \<Rightarrow> [])"
  have s5: "stage f5 c5 (S + r)"
  proof (cases "rmkey chan")
    case None
    then show ?thesis using s4 by (simp add: f5_def c5_def opt_bytes_def)
  next
    case (Some k)
    then have "word k" "stage f4 c4 (length k + 1 + (S + r))" using assms(1) s4 by (simp_all add: chan_ok_def opt_bytes_def)
    then have "stage (put_arg k (put_mode False ''k'' f4)) (c4 @ [(False, CHR ''k'', Some k)]) (S + r)"
      by (intro stage_arg) (simp_all add: takes_arg_def)
    then show ?thesis using Some by (simp add: f5_def c5_def)
  qed
  note cl = clear_slots_facts [OF ok(2)]
  obtain f6 where f6: "flush_slots False ?n (cmode chan) f5 = Some (clear_slots False cs @ drop ?n (cmode chan), f6)"
      "stage f6 (c5 @ map slot_change (slots_of False cs)) (S + r - sum_list (map slot_bytes (slots_of False cs)))"
    using stage_slots [OF s5 ok(1) n(1), of False] by (auto simp: S_def cs_def clear_slots_def)
  let ?cm = "clear_slots False cs @ drop ?n (cmode chan)"
  have t6: "take ?n ?cm = clear_slots False cs" "drop ?n ?cm = drop ?n (cmode chan)"
    using n(2) by (simp_all add: clear_slots_def)
  have "\<forall>c \<in> set ?cm. slot_ok c" using cl(1) ok(1) by (auto dest: in_set_dropD)
  moreover have "sum_list (map slot_bytes (take ?n ?cm)) \<le> S + r - sum_list (map slot_bytes (slots_of False cs))"
    using cl(5,6) t6(1) by (simp add: S_def)
  ultimately obtain f7 where f7: "flush_slots True ?n ?cm f6 = Some (clear_slots True (clear_slots False cs) @ drop ?n (cmode chan), f7)"
      "stage f7 ((c5 @ map slot_change (slots_of False cs)) @ map slot_change (slots_of True (clear_slots False cs)))
        (S + r - sum_list (map slot_bytes (slots_of False cs)) - sum_list (map slot_bytes (slots_of True (clear_slots False cs))))"
    using stage_slots [OF f6(2), of ?cm ?n True] t6 n(2) by (auto simp: clear_slots_def)
  have q: "(c5 @ map slot_change (slots_of False cs)) @ map slot_change (slots_of True (clear_slots False cs)) = sent_changes cfg chan"
    by (simp add: c5_def c4_def c3_def c2_def sent_changes_def cs_def [symmetric] cl(2))
  have "S + r - sum_list (map slot_bytes (slots_of False cs)) - sum_list (map slot_bytes (slots_of True (clear_slots False cs))) = r"
    using cl(2,5) by (simp add: S_def)
  then have s7: "stage f7 (sent_changes cfg chan) r" using f7(2) q by simp
  have p12: "12 \<le> postsize f3" using s3 by (simp add: stage_def)
  have dig: "int_to_base10 (mlimit chan) = Some (dec_int (mlimit chan))" using int_to_base10_dec [OF lim(1)] .
  have cm: "clear_slots True (clear_slots False cs) @ drop ?n (cmode chan) = cmode (flushed cfg chan)"
    using cl(3) n(2) by (simp add: flushed_def)
  have mode: "flush_mode cfg pri chan =
      Some (if mode_text f7 \<noteq> []
            then (flushed cfg chan)\<lparr>mode_lines := mode_lines chan @ [(pri, ''MODE '' @ name chan @ '' '' @ mode_text f7)]\<rparr>
            else flushed cfg chan)"
    using f6(1) f7(1) p12 dig cm
    unfolding flush_mode_def Let_def f0_def [symmetric] f1_def [symmetric] f2_def [symmetric]
    by (cases "mkey chan"; cases "rmkey chan"; cases "mlimit chan = 0")
      (simp_all add: f3_def f4_def f5_def flushed_def)
  obtain args where fl: "flushing f7 args (sent_changes cfg chan)" and pl: "r \<le> postsize f7"
    using s7 by (auto simp: stage_def)
  have "length (slots_of False cs) + length (slots_of True cs) \<le> 6" using cl(4) n(3) by simp
  then have "length (sent_changes cfg chan) \<le> length (mns chan) + length (pls chan) + 9"
    by (simp add: sent_changes_def cs_def [symmetric] split: option.splits)
  then have "length (outp f7) \<le> r" using fl by (simp add: flushing_def r_def)
  then have len: "length (outp f7) + length (post f7) < POSTLEN" using flushing_size [OF fl] pl by simp
  show ?thesis
  proof (cases "sent_changes cfg chan = []")
    case True
    then have "outp f7 = []" using fl by (simp add: flushing_def)
    then have "post f7 = []" using fl by (simp add: flushing_def)
    then have "mode_text f7 = []" using \<open>outp f7 = []\<close> by (simp add: mode_text_def)
    then show ?thesis using mode True
      by (intro exI [of _ "[]"]) (simp add: read_mode_text_def words_of.simps [of "[]"] flushed_def)
  next
    case False
    then have p: "plus f7 \<noteq> 2" "outp f7 \<noteq> []" using fl by (auto simp: flushing_def)
    from mode_text_flushing [OF fl len p(1)] p(2) mode False show ?thesis by auto
  qed
qed

end
