(* ===== verification/ChanModeQueue.thy ===== *)
theory ChanModeQueue
  imports ChanModeFlush "HOL-Library.Multiset"
begin

text \<open>
  No change of a mode with a parameter is lost or sent twice between \<open>real_add_mode\<close> and the lines
  written, and where the queue of changes goes wrong.
\<close>

section \<open>Changes written and changes waiting\<close>

definition line_changes :: "modechan \<Rightarrow> string \<Rightarrow> change list" where
  "line_changes chan line = read_mode_text (drop (length (''MODE '' @ name chan @ '' '')) line)"

definition pending :: "mode_cfg \<Rightarrow> modechan \<Rightarrow> change multiset" where
  "pending cfg chan =
     mset (map (\<lambda>c. (False, c, None)) (mns chan)) + mset (map (\<lambda>c. (True, c, None)) (pls chan)) +
     (case mkey chan of Some k \<Rightarrow> {#(True, CHR ''k'', Some k)#} | None \<Rightarrow> {#}) +
     (if mlimit chan \<noteq> 0 then {#(True, CHR ''l'', Some (dec_int (mlimit chan)))#} else {#}) +
     (case rmkey chan of Some k \<Rightarrow> {#(False, CHR ''k'', Some k)#} | None \<Rightarrow> {#}) +
     mset (map slot_change (filter (\<lambda>c. cm_type c \<noteq> 0) (my_slots cfg chan)))"

definition all_changes :: "mode_cfg \<Rightarrow> modechan \<Rightarrow> change multiset" where
  "all_changes cfg chan =
     mset (concat (map (\<lambda>(_, line). line_changes chan line) (mode_lines chan))) + pending cfg chan"

definition queue_ok :: "mode_cfg \<Rightarrow> modechan \<Rightarrow> bool" where
  "queue_ok cfg chan \<longleftrightarrow>
     chan_ok cfg chan \<and> length (mns chan) \<le> 20 \<and> length (pls chan) \<le> 20 \<and>
     opt_bytes (mkey chan) \<le> 61 \<and> opt_bytes (rmkey chan) \<le> 61 \<and>
     bytes chan = int (sum_list (map slot_bytes (my_slots cfg chan))) \<and> bytes chan \<le> 200 \<and>
     (\<forall>c \<in> set (drop (nat (modesperline cfg)) (cmode chan)). c = empty_slot) \<and>
     (\<exists>c \<in> set (my_slots cfg chan). cm_type c = 0)"

lemma line_bytes_fit:
  assumes "queue_ok cfg chan \<or> chan_ok cfg chan \<and> length (mns chan) \<le> 20 \<and> length (pls chan) \<le> 20 \<and>
     opt_bytes (mkey chan) \<le> 61 \<and> opt_bytes (rmkey chan) \<le> 61 \<and>
     bytes chan = int (sum_list (map slot_bytes (my_slots cfg chan))) \<and> bytes chan \<le> 200 \<and>
     (\<forall>c \<in> set (drop (nat (modesperline cfg)) (cmode chan)). c = empty_slot)"
  shows "line_bytes chan \<le> POSTLEN - 1"
proof -
  let ?n = "nat (modesperline cfg)"
  have a: "length (mns chan) \<le> 20" "length (pls chan) \<le> 20" "opt_bytes (mkey chan) \<le> 61" "opt_bytes (rmkey chan) \<le> 61"
    "int (sum_list (map slot_bytes (my_slots cfg chan))) \<le> 200"
    "\<forall>c \<in> set (drop ?n (cmode chan)). c = empty_slot"
    using assms by (auto simp: queue_ok_def)
  have z: "sum_list (map slot_bytes cs) = 0" if "\<forall>c \<in> set cs. c = empty_slot" for cs
    using that by (induction cs) (auto simp: slot_bytes_def)
  have "sum_list (map slot_bytes (cmode chan)) =
      sum_list (map slot_bytes (my_slots cfg chan)) + sum_list (map slot_bytes (drop ?n (cmode chan)))"
    by (metis append_take_drop_id map_append sum_list_append)
  then show ?thesis using a z [OF a(6)] by (simp add: line_bytes_def)
qed

lemma slots_of_mset:
  "mset (map slot_change (filter (\<lambda>c. cm_type c \<noteq> 0) cs)) =
     mset (map slot_change (slots_of False cs)) + mset (map slot_change (slots_of True cs))"
  by (induction cs) (auto simp: slots_of_def)

lemma my_slots_flushed:
  "length (cmode chan) = MODES_PER_LINE_MAX \<Longrightarrow> modesperline cfg \<le> int MODES_PER_LINE_MAX \<Longrightarrow>
   my_slots cfg (flushed cfg chan) = replicate (nat (modesperline cfg)) empty_slot"
  by (simp add: flushed_def)

lemma pending_flushed:
  assumes "chan_ok cfg chan"
  shows "mset (sent_changes cfg chan) + pending cfg (flushed cfg chan) = pending cfg chan"
proof -
  have "my_slots cfg (flushed cfg chan) = replicate (nat (modesperline cfg)) empty_slot"
    using assms by (intro my_slots_flushed) (simp_all add: chan_ok_def)
  then show ?thesis
    using slots_of_mset [of "my_slots cfg chan"]
    by (simp add: pending_def sent_changes_def flushed_def split: option.splits)
qed

text \<open>The lists and members, which flushing leaves alone.\<close>

definition same_channel :: "modechan \<Rightarrow> modechan \<Rightarrow> bool" where
  "same_channel chan chan' \<longleftrightarrow> name chan' = name chan \<and> members chan' = members chan \<and> bans chan' = bans chan \<and>
     exempts chan' = exempts chan \<and> invites chan' = invites chan"

lemma flush_mode_ok:
  assumes "chan_ok cfg chan" "length (mns chan) \<le> 20" "length (pls chan) \<le> 20"
    "opt_bytes (mkey chan) \<le> 61" "opt_bytes (rmkey chan) \<le> 61"
    "bytes chan = int (sum_list (map slot_bytes (my_slots cfg chan)))" "bytes chan \<le> 200"
    "\<forall>c \<in> set (drop (nat (modesperline cfg)) (cmode chan)). c = empty_slot"
  shows "\<exists>chan'. flush_mode cfg pri chan = Some chan' \<and> queue_ok cfg chan' \<and>
    all_changes cfg chan' = all_changes cfg chan \<and> same_channel chan chan' \<and> bytes chan' = 0 \<and>
    my_slots cfg chan' = replicate (nat (modesperline cfg)) empty_slot"
proof -
  let ?n = "nat (modesperline cfg)"
  have "line_bytes chan \<le> POSTLEN - 1" using line_bytes_fit assms by blast
  from flush_mode_flushed [OF assms(1) this, of pri] obtain t where
    fl: "flush_mode cfg pri chan = Some ((flushed cfg chan)\<lparr>mode_lines :=
      (if sent_changes cfg chan = [] then mode_lines chan
       else mode_lines chan @ [(pri, ''MODE '' @ name chan @ '' '' @ t)])\<rparr>)"
      "read_mode_text t = sent_changes cfg chan" by blast
  let ?c = "(flushed cfg chan)\<lparr>mode_lines :=
      (if sent_changes cfg chan = [] then mode_lines chan
       else mode_lines chan @ [(pri, ''MODE '' @ name chan @ '' '' @ t)])\<rparr>"
  have sl: "my_slots cfg ?c = replicate ?n empty_slot"
    using my_slots_flushed [of chan cfg] assms(1) by (simp add: chan_ok_def)
  have n: "0 < ?n" "?n \<le> 6" using assms(1) by (auto simp: chan_ok_def)
  have drop: "drop ?n (cmode ?c) = drop ?n (cmode chan)"
    using assms(1) by (simp add: chan_ok_def flushed_def)
  have "chan_ok cfg ?c"
    using assms(1) slot_ok_empty by (auto simp: chan_ok_def flushed_def dest: in_set_dropD split: if_splits)
  moreover have "\<exists>c \<in> set (my_slots cfg ?c). cm_type c = 0" using sl n(1) by simp
  moreover have "sum_list (map slot_bytes (my_slots cfg ?c)) = 0"
    by (simp only: sl) (simp add: slot_bytes_def sum_list_replicate)
  ultimately have "queue_ok cfg ?c"
    using assms(4,8) drop by (simp add: queue_ok_def flushed_def opt_bytes_def)
  moreover have "all_changes cfg ?c = all_changes cfg chan"
  proof -
    have lc: "line_changes ?c = line_changes chan" by (rule ext) (simp add: line_changes_def flushed_def)
    have pc: "pending cfg ?c = pending cfg (flushed cfg chan)" by (simp add: pending_def)
    have "mset (concat (map (\<lambda>(_, line). line_changes chan line) (mode_lines ?c))) =
        mset (concat (map (\<lambda>(_, line). line_changes chan line) (mode_lines chan))) + mset (sent_changes cfg chan)"
      using fl(2) by (simp add: line_changes_def)
    then show ?thesis
      unfolding all_changes_def lc pc using pending_flushed [OF assms(1)] by (simp only: add.assoc)
  qed
  ultimately show ?thesis
    using fl(1) sl by (intro exI [of _ ?c]) (simp add: same_channel_def flushed_def)
qed

section \<open>The slots as a list\<close>

lemma slot_dup_eq:
  "n \<le> length cs \<Longrightarrow> slot_dup n cs t op =
     Some (\<exists>c \<in> set (take n cs). cm_type c = t \<and> (\<exists>s. cm_op c = Some s \<and> rfc_casecmp s op = 0))"
proof (induction n cs t op rule: slot_dup.induct)
  case (3 n c cs t op)
  then show ?case by (cases "cm_op c") auto
qed simp_all

lemma slots_used_eq:
  "n \<le> length cs \<Longrightarrow> slots_used n cs = Some (int (length (filter (\<lambda>c. cm_type c \<noteq> 0) (take n cs))))"
  by (induction n cs rule: slots_used.induct) simp_all

lemma slot_put_free:
  assumes "n \<le> length cs" "\<exists>c \<in> set (take n cs). cm_type c = 0"
  shows "\<exists>xs c ys. cs = xs @ c # ys \<and> length xs < n \<and> cm_type c = 0 \<and>
    slot_put n cs t op = Some (True, xs @ \<lparr>cm_type = t, cm_op = Some op\<rparr> # ys)"
  using assms
proof (induction n cs t op rule: slot_put.induct)
  case (3 n c cs t op)
  show ?case
  proof (cases "cm_type c = 0")
    case True
    then show ?thesis by (intro exI [of _ "[]"] exI [of _ c] exI [of _ cs]) simp
  next
    case False
    then obtain xs d ys where "cs = xs @ d # ys" "length xs < n" "cm_type d = 0"
        "slot_put n cs t op = Some (True, xs @ \<lparr>cm_type = t, cm_op = Some op\<rparr> # ys)"
      using 3 by auto
    then show ?thesis using False by (intro exI [of _ "c # xs"] exI [of _ d] exI [of _ ys]) simp
  qed
qed simp_all

lemma queue_ok_len:
  assumes "queue_ok cfg chan"
  shows "nat (modesperline cfg) \<le> length (cmode chan)" "0 < nat (modesperline cfg)"
proof -
  have "length (cmode chan) = 6" "1 \<le> modesperline cfg" "modesperline cfg \<le> 6"
    using assms by (simp_all add: queue_ok_def chan_ok_def)
  then show "nat (modesperline cfg) \<le> length (cmode chan)" "0 < nat (modesperline cfg)" by simp_all
qed

section \<open>Adding a change\<close>

definition mixes :: "mode_cfg \<Rightarrow> char \<Rightarrow> modechan \<Rightarrow> bool" where
  "mixes cfg mode chan \<longleftrightarrow> prevent_mixing cfg \<and> compat chan = (if mode \<in> set ''eI'' then 1 else 2)"

definition refused :: "mode_cfg \<Rightarrow> char \<Rightarrow> char \<Rightarrow> string \<Rightarrow> modechan \<Rightarrow> bool" where
  "refused cfg pm mode op chan \<longleftrightarrow>
     halfop_cantdomode cfg chan mode \<or> mode_member pm mode op chan = None \<or> mask_refused cfg pm mode op chan \<or>
     \<not> mixes cfg mode chan \<and>
       (\<exists>c \<in> set (my_slots cfg chan). cm_type c = mode_type pm mode \<and> (\<exists>s. cm_op c = Some s \<and> rfc_casecmp s op = 0))"

lemma all_changes_frame [simp]:
  "all_changes cfg (chan\<lparr>compat := k\<rparr>) = all_changes cfg chan"
  "all_changes cfg (chan\<lparr>members := l\<rparr>) = all_changes cfg chan"
  "queue_ok cfg (chan\<lparr>compat := k\<rparr>) \<longleftrightarrow> queue_ok cfg chan"
  "queue_ok cfg (chan\<lparr>members := l\<rparr>) \<longleftrightarrow> queue_ok cfg chan"
  by (simp_all add: all_changes_def pending_def line_changes_def queue_ok_def chan_ok_def)

lemma flush_queue_ok:
  assumes "queue_ok cfg chan"
  shows "\<exists>chan'. flush_mode cfg pri chan = Some chan' \<and> queue_ok cfg chan' \<and>
    all_changes cfg chan' = all_changes cfg chan \<and> same_channel chan chan' \<and> bytes chan' = 0 \<and>
    my_slots cfg chan' = replicate (nat (modesperline cfg)) empty_slot"
  using assms by (intro flush_mode_ok) (simp_all add: queue_ok_def)

lemma mode_member_Some: "mode_member pm mode op chan = Some chan' \<Longrightarrow> \<exists>l. chan' = chan\<lparr>members := l\<rparr>"
  by (auto simp: mode_member_def set_member_flag_def Let_def split: if_splits option.splits list.splits prod.splits)
    (metis modechan.surjective modechan.update_convs(2))+

lemma mode_compat_ok:
  assumes "queue_ok cfg chan"
  shows "\<exists>chan'. mode_compat cfg mode chan = Some chan' \<and> queue_ok cfg chan' \<and>
    all_changes cfg chan' = all_changes cfg chan \<and> same_channel chan chan' \<and>
    my_slots cfg chan' = (if mixes cfg mode chan then replicate (nat (modesperline cfg)) empty_slot else my_slots cfg chan)"
proof (cases "mixes cfg mode chan")
  case True
  then have "mode_compat cfg mode chan = flush_mode cfg NORMAL chan"
    by (auto simp: mode_compat_def mixes_def Let_def split: if_splits)
  then show ?thesis using flush_queue_ok [OF assms, of NORMAL] True by auto
next
  case False
  then show ?thesis using assms
    by (auto simp: mode_compat_def mixes_def Let_def same_channel_def split: if_splits)
qed

text \<open>Storing the change in a free slot.\<close>

lemma put_slot_ok:
  assumes "queue_ok cfg chan" "pm \<in> set ''+-''" "mode \<in> set ''ohbveIq''" "word op"
    "bytes chan + int (length op) + 1 \<le> 200"
  shows "\<exists>cs. slot_put (nat (modesperline cfg)) (cmode chan) (mode_type pm mode) op = Some (True, cs) \<and>
    (let chan' = chan\<lparr>cmode := cs, bytes := bytes chan + (int (length op) + 1)\<rparr> in
     chan_ok cfg chan' \<and> bytes chan' = int (sum_list (map slot_bytes (my_slots cfg chan'))) \<and>
     drop (nat (modesperline cfg)) cs = drop (nat (modesperline cfg)) (cmode chan) \<and>
     all_changes cfg chan' = all_changes cfg chan + {#(pm = CHR ''+'', mode, Some op)#})"
proof -
  let ?n = "nat (modesperline cfg)" and ?new = "\<lparr>cm_type = mode_type pm mode, cm_op = Some op\<rparr>"
  have n: "?n \<le> length (cmode chan)" using queue_ok_len [OF assms(1)] by simp
  have "\<exists>c \<in> set (take ?n (cmode chan)). cm_type c = 0" using assms(1) by (simp add: queue_ok_def)
  from slot_put_free [OF n this, of "mode_type pm mode" op] obtain xs c ys where
    cs: "cmode chan = xs @ c # ys" "length xs < ?n" "cm_type c = 0"
      "slot_put ?n (cmode chan) (mode_type pm mode) op = Some (True, xs @ ?new # ys)" by blast
  let ?chan = "chan\<lparr>cmode := xs @ ?new # ys, bytes := bytes chan + (int (length op) + 1)\<rparr>"
  define k where "k = ?n - length xs - 1"
  have t: "take ?n (xs @ d # ys) = xs @ d # take k ys" "drop ?n (xs @ d # ys) = drop k ys" for d
  proof -
    have "?n = length xs + Suc k" using cs(2) by (simp add: k_def)
    then show "take ?n (xs @ d # ys) = xs @ d # take k ys" "drop ?n (xs @ d # ys) = drop k ys" by simp_all
  qed
  note mt = mode_type_facts [OF assms(2,3)]
  have ok: "chan_ok cfg chan" using assms(1) by (simp add: queue_ok_def)
  have "slot_ok c" using ok cs(1) by (simp add: chan_ok_def)
  then have c: "cm_op c = None" using slot_ok_sign(2) cs(3) by blast
  have "slot_ok ?new" using assms(2-4) by (auto simp: slot_ok_def)
  then have "chan_ok cfg ?chan" using ok cs(1) by (simp add: chan_ok_def)
  moreover have my1: "my_slots cfg ?chan = xs @ ?new # take k ys" by (subst t(1) [symmetric]) simp
  have my0: "my_slots cfg chan = xs @ c # take k ys" unfolding cs(1) by (rule t)
  have "bytes ?chan = int (sum_list (map slot_bytes (my_slots cfg ?chan)))"
  proof -
    have "bytes chan = int (sum_list (map slot_bytes (xs @ c # take k ys)))"
      using assms(1) unfolding queue_ok_def my0 by blast
    moreover have "slot_bytes c = 0" "slot_bytes ?new = length op + 1" using c by (simp_all add: slot_bytes_def)
    ultimately show ?thesis unfolding my1 by simp
  qed
  moreover have "all_changes cfg ?chan = all_changes cfg chan + {#(pm = CHR ''+'', mode, Some op)#}"
  proof -
    have lc: "line_changes ?chan = line_changes chan" by (rule ext) (simp add: line_changes_def)
    have "slot_change ?new = (pm = CHR ''+'', mode, Some op)" using mt by (simp add: slot_change_def)
    then have "pending cfg ?chan = pending cfg chan + {#(pm = CHR ''+'', mode, Some op)#}"
      unfolding pending_def my1 my0 using mt(1) cs(3) by simp
    then show ?thesis unfolding all_changes_def lc by simp
  qed
  ultimately show ?thesis using cs t by (intro exI [of _ "xs @ ?new # ys"]) (simp add: Let_def)
qed

lemma free_slot:
  "length (filter (\<lambda>c. cm_type c \<noteq> 0) cs) < length cs \<Longrightarrow> \<exists>c \<in> set cs. cm_type c = 0"
  by (metis (mono_tags, lifting) filter_True less_irrefl)

definition lk_modes :: "mode_cfg \<Rightarrow> modechan \<Rightarrow> int" where
  "lk_modes cfg chan =
     (if include_lk cfg then (if mlimit chan \<noteq> 0 then 1 else 0) +
        (if rmkey chan \<noteq> None then 1 else 0) + (if mkey chan \<noteq> None then 1 else 0) else 0)"

text \<open>The check for a full line at the end of \<open>real_add_mode\<close>.\<close>

lemma full_line_ok:
  assumes "chan_ok cfg chan" "length (mns chan) \<le> 20" "length (pls chan) \<le> 20"
    "opt_bytes (mkey chan) \<le> 61" "opt_bytes (rmkey chan) \<le> 61"
    "bytes chan = int (sum_list (map slot_bytes (my_slots cfg chan)))" "bytes chan \<le> 200"
    "\<forall>c \<in> set (drop (nat (modesperline cfg)) (cmode chan)). c = empty_slot"
    "slots_used (nat (modesperline cfg)) (cmode chan) = Some used"
  shows "\<exists>chan'. (if modesperline cfg - used - lk_modes cfg chan < 1 then flush_mode cfg NORMAL chan else Some chan) = Some chan' \<and>
    queue_ok cfg chan' \<and> all_changes cfg chan' = all_changes cfg chan"
proof (cases "modesperline cfg - used - lk_modes cfg chan < 1")
  case True
  then show ?thesis using flush_mode_ok [OF assms(1-8), of NORMAL] by auto
next
  case False
  have l: "nat (modesperline cfg) \<le> length (cmode chan)" "1 \<le> modesperline cfg"
    using assms(1) by (auto simp: chan_ok_def nat_le_iff)
  then have "used = int (length (filter (\<lambda>c. cm_type c \<noteq> 0) (my_slots cfg chan)))"
    using assms(9) slots_used_eq by simp
  moreover have "0 \<le> lk_modes cfg chan" by (simp add: lk_modes_def)
  ultimately have "length (filter (\<lambda>c. cm_type c \<noteq> 0) (my_slots cfg chan)) < length (my_slots cfg chan)"
    using False l by simp
  then have "\<exists>c \<in> set (my_slots cfg chan). cm_type c = 0" by (rule free_slot)
  then show ?thesis using False assms by (simp add: queue_ok_def)
qed

lemma mask_refused_same: "same_channel chan chan' \<Longrightarrow> mask_refused cfg pm mode op chan' = mask_refused cfg pm mode op chan"
  by (simp add: same_channel_def mask_refused_def mask_list_def)

lemma mode_store_list:
  assumes "mode \<in> set ''ohbveIq''"
  shows "mode_store cfg pm mode op chan =
     (if mask_refused cfg pm mode op chan then Some (Inl chan)
      else do {
        dup \<leftarrow> slot_dup (nat (modesperline cfg)) (cmode chan) (mode_type pm mode) op;
        if dup then Some (Inl chan)
        else do {
          chan \<leftarrow> (if mode_buf_len cfg < bytes chan + (int (length op) + 1) then flush_mode cfg NORMAL chan else Some chan);
          (placed, cs) \<leftarrow> slot_put (nat (modesperline cfg)) (cmode chan) (mode_type pm mode) op;
          Some (Inr (if placed then chan\<lparr>cmode := cs, bytes := bytes chan + (int (length op) + 1)\<rparr> else chan))
        }
      })"
  using assms by (simp only: mode_store_def Let_def if_True)

lemma real_add_mode_ok:
  assumes "queue_ok cfg chan" "pm \<in> set ''+-''" "mode \<in> set ''ohbveIq''" "word op" "length op < 200"
    "mode_buf_len cfg \<le> 200"
  shows "\<exists>chan'. real_add_mode cfg pm mode op chan = Some chan' \<and> queue_ok cfg chan' \<and>
    all_changes cfg chan' = all_changes cfg chan +
      (if refused cfg pm mode op chan then {#} else {#(pm = CHR ''+'', mode, Some op)#})"
proof (cases "halfop_cantdomode cfg chan mode \<or> mode_member pm mode op chan = None")
  case True
  then show ?thesis using assms(1) by (auto simp: real_add_mode_def refused_def)
next
  case may: False
  let ?n = "nat (modesperline cfg)"
  obtain l where mm: "mode_member pm mode op chan = Some (chan\<lparr>members := l\<rparr>)"
    using may mode_member_Some by fastforce
  let ?c0 = "chan\<lparr>members := l\<rparr>"
  obtain c1 where c1: "mode_compat cfg mode ?c0 = Some c1" "queue_ok cfg c1" "all_changes cfg c1 = all_changes cfg chan"
      "same_channel ?c0 c1" "my_slots cfg c1 = (if mixes cfg mode ?c0 then replicate ?n empty_slot else my_slots cfg chan)"
    using mode_compat_ok [of cfg ?c0 mode] assms(1) by auto
  have mix: "mixes cfg mode ?c0 = mixes cfg mode chan" by (simp add: mixes_def)
  have mr: "mask_refused cfg pm mode op c1 = mask_refused cfg pm mode op chan"
    using mask_refused_same [OF c1(4)] by (simp add: mask_refused_def mask_list_def)
  define dup where "dup \<longleftrightarrow> (\<exists>c \<in> set (my_slots cfg c1). cm_type c = mode_type pm mode \<and> (\<exists>s. cm_op c = Some s \<and> rfc_casecmp s op = 0))"
  have "dup \<longleftrightarrow> \<not> mixes cfg mode chan \<and>
      (\<exists>c \<in> set (my_slots cfg chan). cm_type c = mode_type pm mode \<and> (\<exists>s. cm_op c = Some s \<and> rfc_casecmp s op = 0))"
    using c1(5) mode_type_facts(1) [OF assms(2,3)] unfolding dup_def mix by auto
  then have ref: "refused cfg pm mode op chan \<longleftrightarrow> mask_refused cfg pm mode op c1 \<or> dup"
    using may mr by (auto simp: refused_def)
  have sd: "slot_dup ?n (cmode c1) (mode_type pm mode) op = Some dup"
    using slot_dup_eq [OF queue_ok_len(1) [OF c1(2)]] by (simp add: dup_def)
  show ?thesis
  proof (cases "refused cfg pm mode op chan")
    case True
    then have "mode_store cfg pm mode op c1 = Some (Inl c1)"
      using ref sd by (auto simp: mode_store_list [OF assms(3)])
    then show ?thesis using may mm c1 True by (simp add: real_add_mode_def)
  next
    case False
    let ?l = "int (length op) + 1"
    obtain c2 where c2: "(if mode_buf_len cfg < bytes c1 + ?l then flush_mode cfg NORMAL c1 else Some c1) = Some c2"
        "queue_ok cfg c2" "all_changes cfg c2 = all_changes cfg chan" "bytes c2 + ?l \<le> 200"
      using flush_queue_ok [OF c1(2), of NORMAL] c1(2,3) assms(5,6) by (cases "mode_buf_len cfg < bytes c1 + ?l") auto
    obtain cs where cs: "slot_put ?n (cmode c2) (mode_type pm mode) op = Some (True, cs)"
        "let chan' = c2\<lparr>cmode := cs, bytes := bytes c2 + ?l\<rparr> in
         chan_ok cfg chan' \<and> bytes chan' = int (sum_list (map slot_bytes (my_slots cfg chan'))) \<and>
         drop ?n cs = drop ?n (cmode c2) \<and>
         all_changes cfg chan' = all_changes cfg c2 + {#(pm = CHR ''+'', mode, Some op)#}"
      using put_slot_ok [OF c2(2) assms(2-4)] c2(4) by auto
    let ?c3 = "c2\<lparr>cmode := cs, bytes := bytes c2 + ?l\<rparr>"
    have store: "mode_store cfg pm mode op c1 = Some (Inr ?c3)"
      using False ref sd c2(1) cs(1) by (simp add: mode_store_list [OF assms(3)])
    have ok3: "chan_ok cfg ?c3" "bytes ?c3 = int (sum_list (map slot_bytes (my_slots cfg ?c3)))"
      "drop ?n cs = drop ?n (cmode c2)"
      "all_changes cfg ?c3 = all_changes cfg chan + {#(pm = CHR ''+'', mode, Some op)#}"
      using cs(2) [unfolded Let_def c2(3)] by blast+
    have "?n \<le> length (cmode ?c3)" using ok3(1) by (simp add: chan_ok_def nat_le_iff)
    then obtain used where used: "slots_used ?n (cmode ?c3) = Some used" using slots_used_eq by blast
    have "\<exists>chan'. (if modesperline cfg - used - lk_modes cfg ?c3 < 1 then flush_mode cfg NORMAL ?c3 else Some ?c3) = Some chan' \<and>
        queue_ok cfg chan' \<and> all_changes cfg chan' = all_changes cfg ?c3"
      using c2(2,4) ok3(3) by (intro full_line_ok [OF ok3(1) _ _ _ _ ok3(2) _ _ used]) (simp_all add: queue_ok_def)
    then obtain c4 where c4: "(if modesperline cfg - used - lk_modes cfg ?c3 < 1 then flush_mode cfg NORMAL ?c3 else Some ?c3) = Some c4"
        "queue_ok cfg c4" "all_changes cfg c4 = all_changes cfg ?c3" by blast
    have "real_add_mode cfg pm mode op chan = Some c4"
      using may mm c1(1) store used c4(1) by (simp add: real_add_mode_def lk_modes_def [of cfg ?c3] Let_def del: modechan.simps)
    then show ?thesis using c4(2,3) ok3(4) False by auto
  qed
qed

section \<open>Modes without a parameter\<close>

lemma flush_slots_overrun: "length cs < n \<Longrightarrow> flush_slots add n cs f = None"
  by (induction add n cs f rule: flush_slots.induct) (auto split: option.splits)

lemma add_letter:
  assumes "queue_ok cfg chan" "\<not> halfop_cantdomode cfg chan c" "plain_letter True c" "plain_letter False c"
    "pm \<in> set ''+-''" "c \<noteq> CHR ''l''"
    "compat chan \<in> {0, 1}" "mlimit chan = 0" "mkey chan = None" "rmkey chan = None"
    "filter (\<lambda>c. cm_type c \<noteq> 0) (my_slots cfg chan) = []"
    "pm = CHR ''+'' \<Longrightarrow> pls chan = []" "pm = CHR ''-'' \<Longrightarrow> mns chan = []"
  shows "real_add_mode cfg pm c op chan =
    Some (if pm = CHR ''+'' then chan\<lparr>compat := 1, pls := [c]\<rparr> else chan\<lparr>compat := 1, mns := [c]\<rparr>)"
proof -
  have c: "c \<notin> set ''ohbveIqk''" "c \<noteq> NUL" using assms(3) by (auto simp: plain_letter_def takes_arg_def)
  have mm: "mode_member pm c op chan = Some chan" using c(1) by (auto simp: mode_member_def)
  have mc: "mode_compat cfg c chan = Some (chan\<lparr>compat := 1\<rparr>)"
    using assms(7) c(1) by (auto simp: mode_compat_def Let_def)
  have st: "mode_store cfg pm c op (chan\<lparr>compat := 1\<rparr>) =
      Some (Inr (if pm = CHR ''+'' then chan\<lparr>compat := 1, pls := [c]\<rparr> else chan\<lparr>compat := 1, mns := [c]\<rparr>))"
    using c assms(5,6,12,13) by (auto simp: mode_store_def Let_def)
  have "slots_used (nat (modesperline cfg)) (cmode chan) = Some 0"
    using slots_used_eq [OF queue_ok_len(1) [OF assms(1)]] assms(11) by simp
  moreover have "1 \<le> modesperline cfg" using assms(1) by (simp add: queue_ok_def chan_ok_def)
  ultimately show ?thesis using assms(2,8-10) mm mc st by (simp add: real_add_mode_def)
qed

section \<open>Properties\<close>

text \<open>The module's initial settings, and a channel on which the bot is op.\<close>

definition example_modes :: mode_cfg where
  "example_modes =
     \<lparr>botname = ''bot'', modesperline = 3, mode_buf_len = 200, prevent_mixing = True, include_lk = True,
      max_bans = 30, max_exempts = 20, max_invites = 20, max_modes = 30\<rparr>"

definition example_chan :: modechan where
  "example_chan =
     \<lparr>name = ''#c'', members = [(''bot'', 1), (''al'', 0)], bans = [], exempts = [], invites = [],
      pls = [], mns = [], mkey = None, rmkey = None, mlimit = 0, bytes = 0, compat = 0,
      cmode = replicate 6 \<lparr>cm_type = 0, cm_op = None\<rparr>, mode_lines = []\<rparr>"

lemma example_ok: "queue_ok example_modes example_chan"
  by (simp add: queue_ok_def chan_ok_def example_modes_def example_chan_def opt_bytes_def slot_bytes_def slot_ok_def
      INT_MAX_def sum_list_replicate)

lemma read_mode_text_Nil: "read_mode_text [] = []"
  by (simp add: read_mode_text_def words_of.simps [of "[]"])

text \<open>
  C21: the line \<open>flush_mode\<close> writes reads back, under the MODE grammar of the server, as changes that were queued, with their signs and
  parameters, each once and in the order of \<open>sent_changes\<close> (minus letters, plus letters, \<open>+k\<close>, \<open>+l\<close>, \<open>-k\<close>, the slots of minus, the slots of plus).  What is not
  sent stays queued, and that is nothing, or, where both a \<open>-k\<close> and a \<open>+k\<close> are queued, the \<open>+k\<close> alone.  The parameters must fit into the
  511 bytes of the line, which \<open>queue_ok\<close> grants.
\<close>

theorem flush_mode_reads_back:
  assumes "chan_ok cfg chan" "line_bytes chan \<le> POSTLEN - 1"
  shows "\<exists>t chan'. flush_mode cfg pri chan = Some chan' \<and>
    mode_lines chan' =
      (if t = [] then mode_lines chan else mode_lines chan @ [(pri, ''MODE '' @ name chan @ '' '' @ t)]) \<and>
    read_mode_text t = sent_changes cfg chan \<and>
    mset (read_mode_text t) + pending cfg chan' = pending cfg chan \<and>
    pending cfg chan' = (case mkey chan of Some k \<Rightarrow> if rmkey chan = None then {#} else {#(True, CHR ''k'', Some k)#} | None \<Rightarrow> {#})"
proof -
  obtain t where t: "flush_mode cfg pri chan = Some ((flushed cfg chan)\<lparr>mode_lines :=
      (if sent_changes cfg chan = [] then mode_lines chan else mode_lines chan @ [(pri, ''MODE '' @ name chan @ '' '' @ t)])\<rparr>)"
    "read_mode_text t = sent_changes cfg chan" using flush_mode_flushed [OF assms] by blast
  let ?t = "if sent_changes cfg chan = [] then [] else t"
  let ?c = "(flushed cfg chan)\<lparr>mode_lines := (if ?t = [] then mode_lines chan else mode_lines chan @ [(pri, ''MODE '' @ name chan @ '' '' @ ?t)])\<rparr>"
  have r: "read_mode_text [] = []" by (rule read_mode_text_Nil)
  then have ne: "t \<noteq> []" if "sent_changes cfg chan \<noteq> []" using that t(2) by auto
  have p: "pending cfg ?c = pending cfg (flushed cfg chan)" by (simp add: pending_def)
  have "my_slots cfg (flushed cfg chan) = replicate (nat (modesperline cfg)) empty_slot"
    using assms by (intro my_slots_flushed) (simp_all add: chan_ok_def)
  then have "pending cfg (flushed cfg chan) =
      (case mkey chan of Some k \<Rightarrow> if rmkey chan = None then {#} else {#(True, CHR ''k'', Some k)#} | None \<Rightarrow> {#})"
    by (simp add: pending_def flushed_def split: option.splits)
  then show ?thesis
    using t ne r p pending_flushed [OF assms(1)] by (intro exI [of _ ?t] exI [of _ ?c]) (auto split: if_splits)
qed

lemma dec_25: "dec_int 25 = ''25''"
  by code_simp

lemma same_nick: "rfc_casecmp ''bot'' ''al'' \<noteq> 0" "rfc_casecmp ''bot'' ''bot'' = 0" "rfc_casecmp ''al'' ''al'' = 0"
  by code_simp+

text \<open>A change of the key: the \<open>+k\<close> waits for the next line.\<close>

theorem flush_mode_reads_back_witness:
  "\<exists>t chan'. flush_mode example_modes QUICK (example_chan\<lparr>pls := ''im'', mkey := Some ''secret'', rmkey := Some ''old'', mlimit := 25\<rparr>) = Some chan' \<and>
    read_mode_text t = [(True, CHR ''i'', None), (True, CHR ''m'', None), (True, CHR ''l'', Some ''25''), (False, CHR ''k'', Some ''old'')] \<and>
    mode_lines chan' = [(QUICK, ''MODE #c '' @ t)] \<and> pending example_modes chan' = {#(True, CHR ''k'', Some ''secret'')#}"
proof -
  let ?c = "example_chan\<lparr>pls := ''im'', mkey := Some ''secret'', rmkey := Some ''old'', mlimit := 25\<rparr>"
  have "chan_ok example_modes ?c"
    using example_ok by (simp add: queue_ok_def chan_ok_def example_chan_def plain_letter_def takes_arg_def word_def INT_MAX_def)
  moreover have "line_bytes ?c \<le> POSTLEN - 1"
    by (simp add: line_bytes_def example_chan_def opt_bytes_def slot_bytes_def sum_list_replicate)
  moreover have s: "sent_changes example_modes ?c =
      [(True, CHR ''i'', None), (True, CHR ''m'', None), (True, CHR ''l'', Some ''25''), (False, CHR ''k'', Some ''old'')]"
    by (simp add: sent_changes_def example_chan_def example_modes_def slots_of_def dec_25)
  ultimately obtain t chan' where t: "flush_mode example_modes QUICK ?c = Some chan'" "read_mode_text t = sent_changes example_modes ?c"
    "mode_lines chan' = (if t = [] then mode_lines ?c else mode_lines ?c @ [(QUICK, ''MODE '' @ name ?c @ '' '' @ t)])"
    "pending example_modes chan' =
       (case mkey ?c of Some k \<Rightarrow> if rmkey ?c = None then {#} else {#(True, CHR ''k'', Some k)#} | None \<Rightarrow> {#})"
    using flush_mode_reads_back [of example_modes ?c QUICK] by blast
  have "t \<noteq> []" using t(2) s read_mode_text_Nil by auto
  then show ?thesis using t s by (intro exI [of _ t] exI [of _ chan']) (simp add: example_chan_def)
qed

text \<open>
  C20: an accepted change of a mode with a parameter is afterwards either in a line written or
  waiting in a slot, exactly once and with all changes from before; a free slot remains, so that
  the next one is not dropped.
\<close>

theorem real_add_mode_conserves:
  assumes "queue_ok cfg chan" "pm \<in> set ''+-''" "mode \<in> set ''ohbveIq''" "word op" "length op < 200"
    "mode_buf_len cfg \<le> 200"
  shows "\<exists>chan'. real_add_mode cfg pm mode op chan = Some chan' \<and> queue_ok cfg chan' \<and>
    all_changes cfg chan' = all_changes cfg chan +
      (if refused cfg pm mode op chan then {#} else {#(pm = CHR ''+'', mode, Some op)#})"
  using assms by (rule real_add_mode_ok)

theorem real_add_mode_conserves_witness:
  "\<exists>chan'. real_add_mode example_modes (CHR ''+'') (CHR ''o'') ''al'' example_chan = Some chan' \<and>
    queue_ok example_modes chan' \<and>
    all_changes example_modes chan' = all_changes example_modes example_chan + {#(True, CHR ''o'', Some ''al'')#}"
proof -
  have "\<not> refused example_modes (CHR ''+'') (CHR ''o'') ''al'' example_chan"
    by (simp add: refused_def halfop_cantdomode_def me_op_def has_member_flag_def find_member_def mode_member_def
        member_flags_def mask_refused_def mode_type_def example_modes_def example_chan_def rfc_toupper_fast_def has_def same_nick
        del: rfc_casecmp.simps)
  then show ?thesis
    using real_add_mode_conserves [OF example_ok, of "CHR ''+''" "CHR ''o''" "''al''"]
    by (simp add: word_def example_modes_def)
qed

text \<open>
  setting and then unsetting a plain mode before the line is written sends the two changes in
  the opposite order, so that the mode stays set.
\<close>

theorem opposite_modes_swapped:
  assumes "queue_ok cfg chan" "sent_changes cfg chan = []" "compat chan = 0" "\<not> halfop_cantdomode cfg chan c"
    "plain_letter True c" "plain_letter False c"
  shows "\<exists>chan' t. (do {
      s \<leftarrow> real_add_mode cfg (CHR ''+'') c [] chan;
      s \<leftarrow> real_add_mode cfg (CHR ''-'') c [] s;
      flush_mode cfg NORMAL s }) = Some chan' \<and>
    mode_lines chan' = mode_lines chan @ [(NORMAL, ''MODE '' @ name chan @ '' '' @ t)] \<and>
    read_mode_text t = [(False, c, None), (True, c, None)]"
proof -
  have e: "mns chan = []" "pls chan = []" "mkey chan = None" "rmkey chan = None" "mlimit chan = 0"
    "slots_of False (my_slots cfg chan) = []" "slots_of True (my_slots cfg chan) = []"
    using assms(2) by (auto simp: sent_changes_def split: option.splits if_splits)
  have f: "filter (\<lambda>c. cm_type c \<noteq> 0) (my_slots cfg chan) = []"
    using slots_of_mset [of "my_slots cfg chan"] e(6,7) by simp
  have l: "c \<noteq> CHR ''l''" using assms(5) by (auto simp: plain_letter_def takes_arg_def)
  let ?s1 = "chan\<lparr>compat := 1, pls := [c]\<rparr>"
  let ?s2 = "?s1\<lparr>compat := 1, mns := [c]\<rparr>"
  have one: "real_add_mode cfg (CHR ''+'') c [] chan = Some ?s1"
    using add_letter [OF assms(1,4,5,6) _ l, of "CHR ''+''" "[]"] e f assms(3) by simp
  have q1: "queue_ok cfg ?s1" using assms(1,5) by (simp add: queue_ok_def chan_ok_def)
  have h1: "\<not> halfop_cantdomode cfg ?s1 c"
    using assms(4) by (simp add: halfop_cantdomode_def me_op_def me_halfop_def has_member_flag_def find_member_def)
  have two: "real_add_mode cfg (CHR ''-'') c [] ?s1 = Some ?s2"
    using add_letter [OF q1 h1 assms(5,6) _ l, of "CHR ''-''" "[]"] e f by simp
  have q2: "queue_ok cfg ?s2" using q1 assms(6) by (simp add: queue_ok_def chan_ok_def)
  have qc: "sent_changes cfg ?s2 = [(False, c, None), (True, c, None)]"
    using e by (simp add: sent_changes_def)
  have "line_bytes ?s2 \<le> POSTLEN - 1" using line_bytes_fit q2 by blast
  then obtain t where "flush_mode cfg NORMAL ?s2 = Some ((flushed cfg ?s2)\<lparr>mode_lines :=
      mode_lines ?s2 @ [(NORMAL, ''MODE '' @ name ?s2 @ '' '' @ t)]\<rparr>)" "read_mode_text t = sent_changes cfg ?s2"
    using flush_mode_flushed [of cfg ?s2 NORMAL] q2 qc by (auto simp: queue_ok_def)
  then show ?thesis using one two qc by simp
qed

theorem opposite_modes_swapped_witness:
  "\<exists>chan' t. (do {
      s \<leftarrow> real_add_mode example_modes (CHR ''+'') (CHR ''m'') [] example_chan;
      s \<leftarrow> real_add_mode example_modes (CHR ''-'') (CHR ''m'') [] s;
      flush_mode example_modes NORMAL s }) = Some chan' \<and>
    mode_lines chan' = mode_lines example_chan @ [(NORMAL, ''MODE '' @ name example_chan @ '' '' @ t)] \<and>
    read_mode_text t = [(False, CHR ''m'', None), (True, CHR ''m'', None)]"
proof (rule opposite_modes_swapped [OF example_ok])
  show "sent_changes example_modes example_chan = []" "compat example_chan = 0"
    by (simp_all add: sent_changes_def example_chan_def example_modes_def slots_of_def)
  show "\<not> halfop_cantdomode example_modes example_chan (CHR ''m'')"
    by (simp add: halfop_cantdomode_def me_op_def has_member_flag_def find_member_def example_modes_def
        example_chan_def rfc_toupper_fast_def has_def)
  show "plain_letter True (CHR ''m'')" "plain_letter False (CHR ''m'')"
    by (simp_all add: plain_letter_def takes_arg_def)
qed

text \<open>
  with \<open>modesperline\<close> above the number of slots, which the MODES token of the server sets
  without a limit until the next \<open>flush_modes\<close>, flushing reads and writes past the slots.
\<close>

theorem flush_mode_overruns:
  assumes "length (cmode chan) = MODES_PER_LINE_MAX" "int MODES_PER_LINE_MAX < modesperline cfg"
  shows "flush_mode cfg pri chan = None"
proof -
  have "length (cmode chan) < nat (modesperline cfg)" using assms by simp
  then have "flush_slots False (nat (modesperline cfg)) (cmode chan) f = None" for f by (rule flush_slots_overrun)
  then show ?thesis
    by (auto simp: flush_mode_def Let_def split: option.splits prod.splits bind_splits if_splits)
qed

theorem flush_mode_overruns_witness:
  "flush_mode (example_modes\<lparr>modesperline := 12\<rparr>) NORMAL example_chan = None"
  by (rule flush_mode_overruns) (simp_all add: example_chan_def)

end
