(* ===== verification/CidrTbl.thy ===== *)
theory CidrTbl
  imports MatchAddr
begin

text \<open>
  \<open>src/libop/src/cidr_tbl.c\<close>: the table of IPv4 and IPv6 prefixes, a binary trie per family.  A null
  \<open>cidr_node_t *\<close> is \<open>Null\<close>; the nodes are never shared.  A stored \<open>void *\<close> is an optional value, \<open>None\<close> the
  null pointer.  An address is the list of its bytes in network order, 4 or 16 of them; the family
  \<open>AF_INET6\<close> is the flag \<open>v6\<close>.  The block heap of the nodes is left out.
\<close>

datatype 'v cidr_node = Null | Node (node_data: "'v option") "'v cidr_node" "'v cidr_node"

record 'v op_cidr_tbl =
  root4 :: "'v cidr_node"
  root6 :: "'v cidr_node"
  count4 :: nat
  count6 :: nat

definition node_alloc :: "'v cidr_node" where
  "node_alloc = Node None Null Null"

definition or_alloc :: "'v cidr_node \<Rightarrow> 'v cidr_node" where
  "or_alloc n = (if n = Null then node_alloc else n)"

section \<open>The bits of an address\<close>

definition ntohl :: "uchar list \<Rightarrow> int32" where
  "ntohl b = foldl (\<lambda>h x. push_bit 8 h OR ucast x) 0 b"

definition htonl :: "int32 \<Rightarrow> uchar list" where
  "htonl h = map (\<lambda>i. ucast (drop_bit (8 * (3 - i)) h)) [0..<4]"

definition bit4 :: "uchar list \<Rightarrow> nat \<Rightarrow> bool" where
  "bit4 addr depth = (drop_bit (31 - depth) (ntohl addr) AND 1 \<noteq> 0)"

definition bit6 :: "uchar list \<Rightarrow> nat \<Rightarrow> bool" where
  "bit6 addr depth = (drop_bit (7 - depth mod 8) (addr ! (depth div 8)) AND 1 \<noteq> 0)"

definition addr_bit :: "bool \<Rightarrow> uchar list \<Rightarrow> nat \<Rightarrow> bool" where
  "addr_bit v6 addr depth = (if \<not> v6 then bit4 addr depth else bit6 addr depth)"

section \<open>The trie\<close>

text \<open>The walks: \<open>i\<close> is the depth reached and the number before it how many bits are left.\<close>

fun trie_set :: "bool \<Rightarrow> uchar list \<Rightarrow> nat \<Rightarrow> nat \<Rightarrow> 'v option \<Rightarrow> 'v cidr_node \<Rightarrow> 'v cidr_node \<times> 'v option" where
  "trie_set v6 addr 0 i val cur =
     (case or_alloc cur of Null \<Rightarrow> (Null, None) | Node d l r \<Rightarrow> (Node val l r, d))"
| "trie_set v6 addr (Suc n) i val cur =
     (case or_alloc cur of
        Null \<Rightarrow> (Null, None)
      | Node d l r \<Rightarrow>
          if addr_bit v6 addr i
          then let (r, old) = trie_set v6 addr n (i + 1) val r in (Node d l r, old)
          else let (l, old) = trie_set v6 addr n (i + 1) val l in (Node d l r, old))"

fun trie_del :: "bool \<Rightarrow> uchar list \<Rightarrow> nat \<Rightarrow> nat \<Rightarrow> 'v cidr_node \<Rightarrow> 'v cidr_node \<times> 'v option" where
  "trie_del v6 addr n i Null = (Null, None)"
| "trie_del v6 addr 0 i (Node d l r) = (Node None l r, d)"
| "trie_del v6 addr (Suc n) i (Node d l r) =
     (if addr_bit v6 addr i
      then let (r, old) = trie_del v6 addr n (i + 1) r in (Node d l r, old)
      else let (l, old) = trie_del v6 addr n (i + 1) l in (Node d l r, old))"

fun trie_match_any :: "bool \<Rightarrow> uchar list \<Rightarrow> nat \<Rightarrow> nat \<Rightarrow> 'v cidr_node \<Rightarrow> 'v option" where
  "trie_match_any v6 addr n i Null = None"
| "trie_match_any v6 addr n i (Node d l r) =
     (if d \<noteq> None then d
      else case n of
        0 \<Rightarrow> None
      | Suc n \<Rightarrow> trie_match_any v6 addr n (i + 1) (if addr_bit v6 addr i then r else l))"

fun trie_lpm :: "bool \<Rightarrow> uchar list \<Rightarrow> nat \<Rightarrow> nat \<Rightarrow> 'v option \<Rightarrow> 'v cidr_node \<Rightarrow> 'v option" where
  "trie_lpm v6 addr n i best Null = best"
| "trie_lpm v6 addr n i best (Node d l r) =
     (let best = (if d \<noteq> None then d else best)
      in case n of
           0 \<Rightarrow> best
         | Suc n \<Rightarrow> trie_lpm v6 addr n (i + 1) best (if addr_bit v6 addr i then r else l))"

text \<open>\<open>trie_foreach\<close>: the address written into \<open>ctx\<close>, the caller's data and the stop flag are passed on.\<close>

record 'u each_ctx =
  ss_addr :: "uchar list"
  each_ud :: 'u
  each_stop :: bool

definition set_addr_bit :: "bool \<Rightarrow> nat \<Rightarrow> bool \<Rightarrow> uchar list \<Rightarrow> uchar list" where
  "set_addr_bit v6 depth b a =
     (if \<not> v6
      then let host = ntohl a; m = push_bit (31 - depth) 1 in htonl (if b then host OR m else host AND NOT m)
      else let byte = depth div 8; m = push_bit (7 - depth mod 8) 1
           in a[byte := (if b then a ! byte OR m else a ! byte AND NOT m)])"

definition clr_addr_bit :: "bool \<Rightarrow> nat \<Rightarrow> uchar list \<Rightarrow> uchar list" where
  "clr_addr_bit v6 depth a =
     (if \<not> v6 then htonl (ntohl a AND NOT (push_bit (31 - depth) 1))
      else let byte = depth div 8 in a[byte := a ! byte AND NOT (push_bit (7 - depth mod 8) 1)])"

definition visit :: "(uchar list \<Rightarrow> nat \<Rightarrow> 'v \<Rightarrow> 'u \<Rightarrow> bool \<times> 'u) \<Rightarrow> nat \<Rightarrow> 'v option \<Rightarrow> 'u each_ctx \<Rightarrow> 'u each_ctx" where
  "visit fn depth d ctx =
     (case d of
        None \<Rightarrow> ctx
      | Some v \<Rightarrow>
          let (go, ud) = fn (ss_addr ctx) depth v (each_ud ctx) in ctx\<lparr>each_ud := ud, each_stop := \<not> go\<rparr>)"

fun trie_foreach :: "(uchar list \<Rightarrow> nat \<Rightarrow> 'v \<Rightarrow> 'u \<Rightarrow> bool \<times> 'u) \<Rightarrow> bool \<Rightarrow> 'v cidr_node \<Rightarrow> nat \<Rightarrow> 'u each_ctx \<Rightarrow> 'u each_ctx" where
  "trie_foreach fn v6 Null depth ctx = ctx"
| "trie_foreach fn v6 (Node d l r) depth ctx =
     (if each_stop ctx then ctx
      else
        let ctx = visit fn depth d ctx;
            ctx = (if each_stop ctx \<or> l = Null then ctx
                   else let ctx = ctx\<lparr>ss_addr := set_addr_bit v6 depth False (ss_addr ctx)\<rparr>;
                            ctx = trie_foreach fn v6 l (depth + 1) ctx
                        in ctx\<lparr>ss_addr := clr_addr_bit v6 depth (ss_addr ctx)\<rparr>)
        in if each_stop ctx \<or> r = Null then ctx
           else let ctx = ctx\<lparr>ss_addr := set_addr_bit v6 depth True (ss_addr ctx)\<rparr>;
                    ctx = trie_foreach fn v6 r (depth + 1) ctx
                in ctx\<lparr>ss_addr := clr_addr_bit v6 depth (ss_addr ctx)\<rparr>)"

fun walk_vals :: "'v cidr_node \<Rightarrow> 'v list" where
  "walk_vals Null = []"
| "walk_vals (Node d l r) = (case d of None \<Rightarrow> [] | Some v \<Rightarrow> [v]) @ walk_vals l @ walk_vals r"

section \<open>The operations\<close>

definition op_cidr_create :: "'v op_cidr_tbl" where
  "op_cidr_create = \<lparr>root4 = Null, root6 = Null, count4 = 0, count6 = 0\<rparr>"

text \<open>The values handed to \<open>free_fn\<close>, in order.\<close>

definition op_cidr_destroy :: "'v op_cidr_tbl \<Rightarrow> 'v list" where
  "op_cidr_destroy t = walk_vals (root4 t) @ walk_vals (root6 t)"

text \<open>\<open>-1\<close> for a bad length, 1 for a new prefix, 0 for one whose value is replaced, with the old value.\<close>

definition op_cidr_set4 :: "'v op_cidr_tbl \<Rightarrow> uchar list \<Rightarrow> int \<Rightarrow> 'v option \<Rightarrow> 'v op_cidr_tbl \<times> int \<times> 'v option" where
  "op_cidr_set4 t addr plen val =
     (if plen < 0 \<or> 32 < plen then (t, -1, None)
      else let (root, old) = trie_set False addr (nat plen) 0 val (root4 t);
               t = t\<lparr>root4 := root\<rparr>
           in (if old = None then (t\<lparr>count4 := count4 t + 1\<rparr>, 1, old) else (t, 0, old)))"

definition op_cidr_set6 :: "'v op_cidr_tbl \<Rightarrow> uchar list \<Rightarrow> int \<Rightarrow> 'v option \<Rightarrow> 'v op_cidr_tbl \<times> int \<times> 'v option" where
  "op_cidr_set6 t addr plen val =
     (if plen < 0 \<or> 128 < plen then (t, -1, None)
      else let (root, old) = trie_set True addr (nat plen) 0 val (root6 t);
               t = t\<lparr>root6 := root\<rparr>
           in (if old = None then (t\<lparr>count6 := count6 t + 1\<rparr>, 1, old) else (t, 0, old)))"

text \<open>The loop of \<open>trie_del\<close> does not run for a negative length.\<close>

definition op_cidr_del4 :: "'v op_cidr_tbl \<Rightarrow> uchar list \<Rightarrow> int \<Rightarrow> 'v op_cidr_tbl \<times> 'v option" where
  "op_cidr_del4 t addr plen =
     (let (root, old) = trie_del False addr (nat plen) 0 (root4 t);
          t = t\<lparr>root4 := root\<rparr>
      in (if old \<noteq> None then t\<lparr>count4 := count4 t - 1\<rparr> else t, old))"

definition op_cidr_del6 :: "'v op_cidr_tbl \<Rightarrow> uchar list \<Rightarrow> int \<Rightarrow> 'v op_cidr_tbl \<times> 'v option" where
  "op_cidr_del6 t addr plen =
     (let (root, old) = trie_del True addr (nat plen) 0 (root6 t);
          t = t\<lparr>root6 := root\<rparr>
      in (if old \<noteq> None then t\<lparr>count6 := count6 t - 1\<rparr> else t, old))"

definition op_cidr_match_any4 :: "'v op_cidr_tbl \<Rightarrow> uchar list \<Rightarrow> 'v option" where
  "op_cidr_match_any4 t addr = trie_match_any False addr 32 0 (root4 t)"

definition op_cidr_match_any6 :: "'v op_cidr_tbl \<Rightarrow> uchar list \<Rightarrow> 'v option" where
  "op_cidr_match_any6 t addr = trie_match_any True addr 128 0 (root6 t)"

text \<open>A \<open>sockaddr_storage\<close> of one of the two families.\<close>

datatype sockaddr = SS4 "uchar list" | SS6 "uchar list"

definition op_cidr_match_any_ss :: "'v op_cidr_tbl \<Rightarrow> sockaddr \<Rightarrow> 'v option" where
  "op_cidr_match_any_ss t ss = (case ss of SS4 a \<Rightarrow> op_cidr_match_any4 t a | SS6 a \<Rightarrow> op_cidr_match_any6 t a)"

definition op_cidr_lpm4 :: "'v op_cidr_tbl \<Rightarrow> uchar list \<Rightarrow> 'v option" where
  "op_cidr_lpm4 t addr = trie_lpm False addr 32 0 None (root4 t)"

definition op_cidr_lpm6 :: "'v op_cidr_tbl \<Rightarrow> uchar list \<Rightarrow> 'v option" where
  "op_cidr_lpm6 t addr = trie_lpm True addr 128 0 None (root6 t)"

definition op_cidr_lpm_ss :: "'v op_cidr_tbl \<Rightarrow> sockaddr \<Rightarrow> 'v option" where
  "op_cidr_lpm_ss t ss = (case ss of SS4 a \<Rightarrow> op_cidr_lpm4 t a | SS6 a \<Rightarrow> op_cidr_lpm6 t a)"

definition op_cidr_count4 :: "'v op_cidr_tbl \<Rightarrow> nat" where
  "op_cidr_count4 t = count4 t"

definition op_cidr_count6 :: "'v op_cidr_tbl \<Rightarrow> nat" where
  "op_cidr_count6 t = count6 t"

definition op_cidr_foreach4 :: "'v op_cidr_tbl \<Rightarrow> (uchar list \<Rightarrow> nat \<Rightarrow> 'v \<Rightarrow> 'u \<Rightarrow> bool \<times> 'u) \<Rightarrow> 'u \<Rightarrow> 'u" where
  "op_cidr_foreach4 t fn ud =
     each_ud (trie_foreach fn False (root4 t) 0 \<lparr>ss_addr = replicate 4 0, each_ud = ud, each_stop = False\<rparr>)"

definition op_cidr_foreach6 :: "'v op_cidr_tbl \<Rightarrow> (uchar list \<Rightarrow> nat \<Rightarrow> 'v \<Rightarrow> 'u \<Rightarrow> bool \<times> 'u) \<Rightarrow> 'u \<Rightarrow> 'u" where
  "op_cidr_foreach6 t fn ud =
     each_ud (trie_foreach fn True (root6 t) 0 \<lparr>ss_addr = replicate 16 0, each_ud = ud, each_stop = False\<rparr>)"

section \<open>Reading addresses\<close>

text \<open>
  \<open>pton\<close> is the C library's \<open>inet_pton\<close>, the family first: the bytes of the address, \<open>None\<close> unless it
  returned 1.
\<close>

type_synonym pton = "bool \<Rightarrow> string \<Rightarrow> uchar list option"

definition op_cidr_parse_addr :: "pton \<Rightarrow> string \<Rightarrow> sockaddr option" where
  "op_cidr_parse_addr pton s =
     (case pton False s of
        Some a \<Rightarrow> Some (SS4 a)
      | None \<Rightarrow> map_option SS6 (pton True s))"

definition ADDRBUF :: nat where "ADDRBUF = 47"

text \<open>The number behind the slash: no error of \<open>strtol\<close>, at least a digit, and nothing behind it.\<close>

definition parse_plen :: "string \<Rightarrow> int option" where
  "parse_plen t =
     (let (v, rest) = strtol t 10
      in if v \<le> - (2 ^ 63) \<or> 2 ^ 63 - 1 \<le> v \<or> rest = t \<or> rest \<noteq> [] then None else Some v)"

definition op_cidr_parse_str :: "pton \<Rightarrow> string \<Rightarrow> (sockaddr \<times> int) option" where
  "op_cidr_parse_str pton s =
     (let slash = strchr s (CHR ''/'');
          arg = (case slash of
                   None \<Rightarrow> Some (s, - 1)
                 | Some p \<Rightarrow>
                     if p = 0 \<or> ADDRBUF \<le> p then None
                     else map_option (\<lambda>n. (take p s, n)) (parse_plen (drop (Suc p) s)))
      in case arg of
           None \<Rightarrow> None
         | Some (s, parsed) \<Rightarrow>
             (case op_cidr_parse_addr pton s of
                None \<Rightarrow> None
              | Some ss \<Rightarrow>
                  let bits = (case ss of SS4 _ \<Rightarrow> 32 | SS6 _ \<Rightarrow> 128);
                      plen = (if slash = None then bits else parsed)
                  in if plen < 0 \<or> bits < plen then None else Some (ss, plen)))"

end
