(* ===== verification/CidrMap.thy ===== *)
theory CidrMap
  imports CidrTbl
begin

text \<open>
  The prefix table refines a map from a family and the bits of a prefix to a value; matching finds the shortest
  or the longest stored prefix of an address.
\<close>

section \<open>The bits of an address\<close>

lemma odd_drop_bit: "drop_bit n w AND 1 \<noteq> 0 \<longleftrightarrow> bit w n" for w :: "'a::len word"
  by (auto simp: and_one_eq bit_iff_odd_drop_bit odd_iff_mod_2_eq_one)

lemma bit6_abit: "bit6 a i = abit a i"
  by (simp add: bit6_def odd_drop_bit abit_def)

lemma bit_ntohl:
  assumes "length a = 4" "n < 32"
  shows "bit (ntohl a) n = bit (a ! (3 - n div 8)) (n mod 8)"
proof -
  obtain w x y z where a: "a = [w, x, y, z]"
    using assms(1) by (auto simp: length_Suc_conv eval_nat_numeral)
  have h: "bit (v :: uchar) m \<Longrightarrow> m < 8" for v m
    using bit_imp_le_length by fastforce
  have hn: "8 \<le> m \<Longrightarrow> \<not> bit v m" for v :: uchar and m
    using h by force
  have b: "bit (ntohl a) n \<longleftrightarrow> (24 \<le> n \<and> bit w (n - 24) \<or> 16 \<le> n \<and> bit x (n - 16) \<or> 8 \<le> n \<and> bit y (n - 8) \<or> bit z n)"
    using assms(2) by (auto simp: a ntohl_def bit_or_iff bit_push_bit_iff bit_ucast_iff dest: h)
  consider "n < 8" | "8 \<le> n" "n < 16" | "16 \<le> n" "n < 24" | "24 \<le> n" by linarith
  then show ?thesis
  proof cases
    case 1
    then show ?thesis using b by (simp add: a)
  next
    case 2
    then have "n div 8 = 1" "n mod 8 = n - 8" by (auto simp: mod_if div_if)
    then show ?thesis using 2 b by (simp add: a hn)
  next
    case 3
    then have "n div 8 = 2" "n mod 8 = n - 16" by (auto simp: mod_if div_if)
    then show ?thesis using 3 b by (simp add: a hn)
  next
    case 4
    then have "n div 8 = 3" "n mod 8 = n - 24" using assms(2) by (auto simp: mod_if div_if)
    then show ?thesis using 4 b by (simp add: a hn)
  qed
qed

lemma bit4_abit:
  assumes "length a = 4" "i < 32"
  shows "bit4 a i = abit a i"
proof -
  have "i div 8 < 4" "i mod 8 < 8" using assms(2) by auto
  then have "31 - i = 8 * (3 - i div 8) + (7 - i mod 8)"
    using mult_div_mod_eq [of 8 i] by linarith
  moreover have "(8 * q + r) mod 8 = r \<and> (8 * q + r) div 8 = q" if "r < 8" for q r :: nat
    using that by simp
  moreover have "7 - i mod 8 < 8" by simp
  ultimately have "(31 - i) mod 8 = 7 - i mod 8" "(31 - i) div 8 = 3 - i div 8"
    by metis+
  then have "(31 - i) mod 8 = 7 - i mod 8" "3 - (31 - i) div 8 = i div 8"
    using \<open>i div 8 < 4\<close> by simp_all
  then show ?thesis using assms by (simp add: bit4_def odd_drop_bit bit_ntohl abit_def)
qed

definition addr_len :: "bool \<Rightarrow> nat" where
  "addr_len v6 = (if v6 then 16 else 4)"

lemma addr_bit_abit: "length a = addr_len v6 \<Longrightarrow> i < 8 * addr_len v6 \<Longrightarrow> addr_bit v6 a i = abit a i"
  by (cases v6) (simp_all add: addr_bit_def addr_len_def bit6_abit bit4_abit)

text \<open>The first \<open>n\<close> bits.\<close>

definition prefix_bits :: "uchar list \<Rightarrow> nat \<Rightarrow> bool list" where
  "prefix_bits a n = map (abit a) [0..<n]"

definition path :: "bool \<Rightarrow> uchar list \<Rightarrow> nat \<Rightarrow> nat \<Rightarrow> bool list" where
  "path v6 a i n = map (addr_bit v6 a) [i..<i + n]"

lemma path_0 [simp]: "path v6 a i 0 = []"
  by (simp add: path_def)

lemma path_Suc: "path v6 a i (Suc n) = addr_bit v6 a i # path v6 a (Suc i) n"
  by (simp add: path_def upt_conv_Cons del: upt_Suc)

lemma path_prefix:
  "length a = addr_len v6 \<Longrightarrow> n \<le> 8 * addr_len v6 \<Longrightarrow> path v6 a 0 n = prefix_bits a n"
  by (auto simp: path_def prefix_bits_def addr_bit_abit)

lemma length_prefix_bits [simp]: "length (prefix_bits a n) = n"
  by (simp add: prefix_bits_def)

lemma prefix_bits_eq: "prefix_bits a n = prefix_bits b n \<longleftrightarrow> (\<forall>i < n. abit a i = abit b i)"
  by (auto simp: prefix_bits_def list_eq_iff_nth_eq)

section \<open>The trie as a map\<close>

fun node_map :: "'v cidr_node \<Rightarrow> bool list \<Rightarrow> 'v option" where
  "node_map Null bs = None"
| "node_map (Node d l r) [] = d"
| "node_map (Node d l r) (b # bs) = node_map (if b then r else l) bs"

lemma or_alloc_cases: "\<exists>d l r. or_alloc cur = Node d l r \<and> node_map (Node d l r) = node_map cur"
proof (cases cur)
  case Null
  have "node_map (Node None Null Null) bs = None" for bs by (cases bs) auto
  then have "node_map (Node None Null Null) = node_map Null" by (intro ext) simp
  then show ?thesis using Null by (auto simp: or_alloc_def node_alloc_def)
qed (auto simp: or_alloc_def)

lemma trie_set_map:
  "trie_set v6 a n i val cur = (t, old) \<Longrightarrow>
     node_map t = (node_map cur)(path v6 a i n := val) \<and> old = node_map cur (path v6 a i n)"
proof (induction n arbitrary: i cur t old)
  case 0
  obtain d l r where o: "or_alloc cur = Node d l r" "node_map (Node d l r) = node_map cur"
    using or_alloc_cases by blast
  have "node_map (Node val l r) bs = ((node_map (Node d l r))([] := val)) bs" for bs by (cases bs) auto
  then show ?case using 0 o(1) by (auto simp: o(2) [symmetric])
next
  case (Suc n)
  obtain d l r where o: "or_alloc cur = Node d l r" "node_map (Node d l r) = node_map cur"
    using or_alloc_cases by blast
  let ?b = "addr_bit v6 a i"
  obtain t' old' where s: "trie_set v6 a n (Suc i) val (if ?b then r else l) = (t', old')" by force
  note ih = Suc.IH [OF s]
  have t: "t = (if ?b then Node d l t' else Node d t' r)" "old = old'"
    using Suc.prems o(1) s by (auto split: if_splits prod.splits)
  have "node_map t bs = ((node_map (Node d l r))(?b # path v6 a (Suc i) n := val)) bs" for bs
    using ih by (cases bs) (auto simp: t)
  then show ?case using ih unfolding path_Suc o(2) [symmetric] by (auto simp: t)
qed

lemma trie_del_map:
  "trie_del v6 a n i cur = (t, old) \<Longrightarrow>
     node_map t = (node_map cur)(path v6 a i n := None) \<and> old = node_map cur (path v6 a i n)"
proof (induction v6 a n i cur arbitrary: t old rule: trie_del.induct)
  case (1 v6 a n i)
  then show ?case by auto
next
  case (2 v6 a i d l r)
  have "node_map (Node None l r) bs = ((node_map (Node d l r))([] := None)) bs" for bs by (cases bs) auto
  then show ?case using 2 by auto
next
  case (3 v6 a n i d l r)
  let ?b = "addr_bit v6 a i"
  obtain t' old' where s: "trie_del v6 a n (i + 1) (if ?b then r else l) = (t', old')" by force
  have ih: "node_map t' = (node_map (if ?b then r else l))(path v6 a (i + 1) n := None) \<and>
      old' = node_map (if ?b then r else l) (path v6 a (i + 1) n)"
    using 3 s by (auto split: if_splits)
  have t: "t = (if ?b then Node d l t' else Node d t' r)" "old = old'"
    using 3(3) s by (auto split: if_splits prod.splits)
  have "node_map t bs = ((node_map (Node d l r))(?b # path v6 a (Suc i) n := None)) bs" for bs
    using ih by (cases bs) (auto simp: t)
  then show ?case using ih unfolding path_Suc by (auto simp: t)
qed

lemma all_le_Suc: "(\<forall>k \<le> Suc n. P k) \<longleftrightarrow> P 0 \<and> (\<forall>k \<le> n. P (Suc k))"
  by (metis Suc_le_mono le0 not0_implies_Suc)

lemma trie_match_any_iff:
  "trie_match_any v6 a n i t = Some v \<longleftrightarrow>
     (\<exists>k \<le> n. node_map t (path v6 a i k) = Some v \<and> (\<forall>j < k. node_map t (path v6 a i j) = None))"
proof (induction v6 a n i t rule: trie_match_any.induct)
  case (2 v6 a n i d l r)
  show ?case
  proof (cases d)
    case None
    show ?thesis
    proof (cases n)
      case (Suc m)
      then show ?thesis
        using 2 [OF _ Suc] None by (simp add: ex_le_Suc All_less_Suc2 path_Suc)
    qed (use None in simp)
  next
    case (Some w)
    have k0: "(\<forall>j < k. node_map (Node (Some w) l r) (path v6 a i j) = None) \<longleftrightarrow> k = 0" for k
      by (cases k) auto
    then show ?thesis unfolding Some k0 by auto
  qed
qed simp

lemma trie_lpm_iff:
  "trie_lpm v6 a n i best t = Some v \<longleftrightarrow>
     (\<exists>k \<le> n. node_map t (path v6 a i k) = Some v \<and> (\<forall>j \<le> n. k < j \<longrightarrow> node_map t (path v6 a i j) = None)) \<or>
     best = Some v \<and> (\<forall>k \<le> n. node_map t (path v6 a i k) = None)"
proof (induction v6 a n i best t rule: trie_lpm.induct)
  case (2 v6 a n i best d l r)
  show ?case
  proof (cases n)
    case (Suc m)
    show ?thesis
      using 2 [OF refl Suc] by (cases d) (auto simp: Suc ex_le_Suc all_le_Suc path_Suc Let_def)
  qed (cases d; auto)
qed simp

text \<open>No path is longer than an address.\<close>

fun depth_ok :: "nat \<Rightarrow> 'v cidr_node \<Rightarrow> bool" where
  "depth_ok n Null \<longleftrightarrow> True"
| "depth_ok 0 (Node d l r) \<longleftrightarrow> l = Null \<and> r = Null"
| "depth_ok (Suc n) (Node d l r) \<longleftrightarrow> depth_ok n l \<and> depth_ok n r"

lemma depth_ok_map: "depth_ok n t \<Longrightarrow> node_map t bs \<noteq> None \<Longrightarrow> length bs \<le> n"
proof (induction n t arbitrary: bs rule: depth_ok.induct)
  case (2 d l r)
  then show ?case by (cases bs) auto
next
  case (3 n d l r)
  then show ?case by (cases bs) (auto split: if_splits)
qed simp

lemma depth_ok_or_alloc: "depth_ok n t \<Longrightarrow> depth_ok n (or_alloc t)"
  by (cases n) (auto simp: or_alloc_def node_alloc_def)

lemma depth_ok_data: "depth_ok n (Node d l r) \<Longrightarrow> depth_ok n (Node d' l r)"
  by (cases n) auto

lemma depth_ok_set:
  "trie_set v6 a n i val t = (t', old) \<Longrightarrow> n \<le> m \<Longrightarrow> depth_ok m t \<Longrightarrow> depth_ok m t'"
proof (induction n arbitrary: i t t' old m)
  case 0
  then show ?case using depth_ok_or_alloc [OF 0(3)]
    by (auto intro: depth_ok_data split: cidr_node.splits)
next
  case (Suc n)
  obtain k where m: "m = Suc k" using Suc.prems(2) by (cases m) auto
  obtain d l r where o: "or_alloc t = Node d l r" using or_alloc_cases by blast
  then have "depth_ok k l" "depth_ok k r" using depth_ok_or_alloc [OF Suc.prems(3)] by (simp_all add: m)
  then show ?case using Suc.prems(1,2) Suc.IH o by (auto simp: m split: if_splits prod.splits)
qed

lemma depth_ok_del: "trie_del v6 a n i t = (t', old) \<Longrightarrow> depth_ok m t \<Longrightarrow> depth_ok m t'"
proof (induction v6 a n i t arbitrary: t' old m rule: trie_del.induct)
  case (2 v6 a i d l r)
  then show ?case by (auto intro: depth_ok_data)
next
  case (3 v6 a n i d l r)
  then show ?case by (cases m) (auto split: if_splits prod.splits)
qed simp

section \<open>The table as a map\<close>

lemma node_map_Null [simp]: "node_map Null = Map.empty"
  by (rule ext) simp

text \<open>The stored prefixes of both families; \<open>tbl_ok\<close> says that none is too long and the counts are right.\<close>

definition cidr_map :: "'v op_cidr_tbl \<Rightarrow> bool \<Rightarrow> bool list \<Rightarrow> 'v option" where
  "cidr_map t v6 = node_map (if v6 then root6 t else root4 t)"

definition fam_ok :: "'v op_cidr_tbl \<Rightarrow> bool \<Rightarrow> bool" where
  "fam_ok t v6 \<longleftrightarrow> finite (dom (cidr_map t v6)) \<and> depth_ok (8 * addr_len v6) (if v6 then root6 t else root4 t) \<and>
     (if v6 then count6 t else count4 t) = card (dom (cidr_map t v6))"

definition tbl_ok :: "'v op_cidr_tbl \<Rightarrow> bool" where
  "tbl_ok t \<longleftrightarrow> fam_ok t False \<and> fam_ok t True"

definition op_cidr_set :: "bool \<Rightarrow> 'v op_cidr_tbl \<Rightarrow> uchar list \<Rightarrow> int \<Rightarrow> 'v option \<Rightarrow> 'v op_cidr_tbl \<times> int \<times> 'v option" where
  "op_cidr_set v6 = (if v6 then op_cidr_set6 else op_cidr_set4)"

definition op_cidr_del :: "bool \<Rightarrow> 'v op_cidr_tbl \<Rightarrow> uchar list \<Rightarrow> int \<Rightarrow> 'v op_cidr_tbl \<times> 'v option" where
  "op_cidr_del v6 = (if v6 then op_cidr_del6 else op_cidr_del4)"

definition op_cidr_match_any :: "bool \<Rightarrow> 'v op_cidr_tbl \<Rightarrow> uchar list \<Rightarrow> 'v option" where
  "op_cidr_match_any v6 = (if v6 then op_cidr_match_any6 else op_cidr_match_any4)"

definition op_cidr_lpm :: "bool \<Rightarrow> 'v op_cidr_tbl \<Rightarrow> uchar list \<Rightarrow> 'v option" where
  "op_cidr_lpm v6 = (if v6 then op_cidr_lpm6 else op_cidr_lpm4)"

lemma tbl_ok_create: "tbl_ok op_cidr_create" "cidr_map op_cidr_create v6 = Map.empty"
  by (auto simp: tbl_ok_def fam_ok_def cidr_map_def op_cidr_create_def)

lemma card_update: "finite (dom m) \<Longrightarrow> card (dom (m(k \<mapsto> v))) = (if m k = None then card (dom m) + 1 else card (dom m))"
  by (auto simp: domIff card_insert_if insert_absorb)

lemma card_remove: "finite (dom m) \<Longrightarrow> card (dom (m(k := None))) = (if m k = None then card (dom m) else card (dom m) - 1)"
  by (auto simp: domIff)

lemma set_refines:
  assumes "tbl_ok t" "length a = addr_len v6" "0 \<le> plen" "plen \<le> 8 * int (addr_len v6)"
    "op_cidr_set v6 t a plen (Some v) = (t', rc, old)"
  shows "tbl_ok t' \<and> cidr_map t' v6 = (cidr_map t v6)(prefix_bits a (nat plen) \<mapsto> v) \<and>
    cidr_map t' (\<not> v6) = cidr_map t (\<not> v6) \<and> old = cidr_map t v6 (prefix_bits a (nat plen)) \<and>
    rc = (if old = None then 1 else 0)"
proof -
  let ?r = "if v6 then root6 t else root4 t"
  obtain r' o' where s: "trie_set v6 a (nat plen) 0 (Some v) ?r = (r', o')" by force
  have m: "node_map r' = (node_map ?r)(prefix_bits a (nat plen) \<mapsto> v)" "o' = node_map ?r (prefix_bits a (nat plen))"
    using trie_set_map [OF s] assms(2-4) by (simp_all add: path_prefix)
  have t: "t' = (if v6 then t\<lparr>root6 := r', count6 := (if o' = None then count6 t + 1 else count6 t)\<rparr>
      else t\<lparr>root4 := r', count4 := (if o' = None then count4 t + 1 else count4 t)\<rparr>)"
    "old = o'" "rc = (if old = None then 1 else 0)"
    using assms(3-5) s
    by (auto simp: op_cidr_set_def op_cidr_set4_def op_cidr_set6_def addr_len_def Let_def split: if_splits)
  have c: "cidr_map t' v6 = (cidr_map t v6)(prefix_bits a (nat plen) \<mapsto> v)" "cidr_map t' (\<not> v6) = cidr_map t (\<not> v6)"
    using m by (simp_all add: t cidr_map_def split: if_splits)
  have f: "fam_ok t v6" "fam_ok t (\<not> v6)" using assms(1) by (cases v6; simp add: tbl_ok_def)+
  have "nat plen \<le> 8 * addr_len v6" using assms(4) by linarith
  moreover have "depth_ok (8 * addr_len v6) ?r" using f(1) by (simp add: fam_ok_def)
  ultimately have "depth_ok (8 * addr_len v6) r'" using depth_ok_set [OF s] by simp
  then have "fam_ok t' v6"
    using f(1) card_update [of "cidr_map t v6"] unfolding fam_ok_def c
    by (auto simp: t m cidr_map_def)
  moreover have "fam_ok t' (\<not> v6)" using f(2) unfolding fam_ok_def c by (auto simp: t)
  ultimately have "tbl_ok t'" by (cases v6) (simp_all add: tbl_ok_def)
  then show ?thesis using c t m by (simp add: cidr_map_def)
qed

lemma del_refines:
  assumes "tbl_ok t" "length a = addr_len v6" "0 \<le> plen" "plen \<le> 8 * int (addr_len v6)"
    "op_cidr_del v6 t a plen = (t', old)"
  shows "tbl_ok t' \<and> cidr_map t' v6 = (cidr_map t v6)(prefix_bits a (nat plen) := None) \<and>
    cidr_map t' (\<not> v6) = cidr_map t (\<not> v6) \<and> old = cidr_map t v6 (prefix_bits a (nat plen))"
proof -
  let ?r = "if v6 then root6 t else root4 t"
  obtain r' o' where s: "trie_del v6 a (nat plen) 0 ?r = (r', o')" by force
  have m: "node_map r' = (node_map ?r)(prefix_bits a (nat plen) := None)" "o' = node_map ?r (prefix_bits a (nat plen))"
    using trie_del_map [OF s] assms(2-4) by (simp_all add: path_prefix)
  have t: "t' = (if v6 then t\<lparr>root6 := r', count6 := (if o' \<noteq> None then count6 t - 1 else count6 t)\<rparr>
      else t\<lparr>root4 := r', count4 := (if o' \<noteq> None then count4 t - 1 else count4 t)\<rparr>)" "old = o'"
    using assms(5) s by (auto simp: op_cidr_del_def op_cidr_del4_def op_cidr_del6_def Let_def split: if_splits)
  have c: "cidr_map t' v6 = (cidr_map t v6)(prefix_bits a (nat plen) := None)" "cidr_map t' (\<not> v6) = cidr_map t (\<not> v6)"
    using m by (simp_all add: t cidr_map_def split: if_splits)
  have f: "fam_ok t v6" "fam_ok t (\<not> v6)" using assms(1) by (cases v6; simp add: tbl_ok_def)+
  have "depth_ok (8 * addr_len v6) r'" using f(1) depth_ok_del [OF s] by (simp add: fam_ok_def)
  then have "fam_ok t' v6"
    using f(1) card_remove [of "cidr_map t v6"] unfolding fam_ok_def c
    by (auto simp: t m cidr_map_def)
  moreover have "fam_ok t' (\<not> v6)" using f(2) unfolding fam_ok_def c by (auto simp: t)
  ultimately have "tbl_ok t'" by (cases v6) (simp_all add: tbl_ok_def)
  then show ?thesis using c t m by (simp add: cidr_map_def)
qed


lemma match_any_iff:
  assumes "length a = addr_len v6"
  shows "op_cidr_match_any v6 t a = Some v \<longleftrightarrow>
    (\<exists>k \<le> 8 * addr_len v6. cidr_map t v6 (prefix_bits a k) = Some v \<and>
       (\<forall>j < k. cidr_map t v6 (prefix_bits a j) = None))"
proof -
  have e: "op_cidr_match_any v6 t a = trie_match_any v6 a (8 * addr_len v6) 0 (if v6 then root6 t else root4 t)"
    by (simp add: op_cidr_match_any_def op_cidr_match_any4_def op_cidr_match_any6_def addr_len_def)
  have "j \<le> k \<Longrightarrow> k \<le> 8 * addr_len v6 \<Longrightarrow> path v6 a 0 j = prefix_bits a j" for j k
    using path_prefix [OF assms] by simp
  then show ?thesis unfolding e trie_match_any_iff cidr_map_def
    by (intro ex_cong1 conj_cong refl all_cong1 imp_cong) (metis order_refl less_imp_le)+
qed

lemma lpm_iff:
  assumes "length a = addr_len v6"
  shows "op_cidr_lpm v6 t a = Some v \<longleftrightarrow>
    (\<exists>k \<le> 8 * addr_len v6. cidr_map t v6 (prefix_bits a k) = Some v \<and>
       (\<forall>j \<le> 8 * addr_len v6. k < j \<longrightarrow> cidr_map t v6 (prefix_bits a j) = None))"
proof -
  have e: "op_cidr_lpm v6 t a = trie_lpm v6 a (8 * addr_len v6) 0 None (if v6 then root6 t else root4 t)"
    by (simp add: op_cidr_lpm_def op_cidr_lpm4_def op_cidr_lpm6_def addr_len_def)
  have "k \<le> 8 * addr_len v6 \<Longrightarrow> path v6 a 0 k = prefix_bits a k" for k
    using assms by (rule path_prefix)
  then show ?thesis unfolding e trie_lpm_iff cidr_map_def
    by (simp cong: conj_cong imp_cong)
qed

lemma match_any_None:
  assumes "length a = addr_len v6"
  shows "op_cidr_match_any v6 t a = None \<longleftrightarrow> (\<forall>k \<le> 8 * addr_len v6. cidr_map t v6 (prefix_bits a k) = None)"
proof -
  have "(\<exists>v. op_cidr_match_any v6 t a = Some v) \<longleftrightarrow> (\<exists>k \<le> 8 * addr_len v6. cidr_map t v6 (prefix_bits a k) \<noteq> None)"
    (is "?l \<longleftrightarrow> ?r")
  proof
    assume ?r
    then have "\<exists>k. k \<le> 8 * addr_len v6 \<and> cidr_map t v6 (prefix_bits a k) \<noteq> None" by blast
    from exists_least_iff [THEN iffD1, OF this] show ?l
      unfolding match_any_iff [OF assms] by (meson less_le_trans less_imp_le not_None_eq)
  qed (auto simp: match_any_iff [OF assms])
  then show ?thesis by (metis not_None_eq)
qed

end
