(* ===== verification/CidrEach.thy ===== *)
theory CidrEach
  imports CidrMap
begin

text \<open>
  The enumeration of the prefix table: every stored prefix is reported once, in order of the prefixes, with the
  address whose remaining bits are zero, until the callback asks to stop.
\<close>

section \<open>Addresses built bit by bit\<close>

text \<open>The address that begins with the given bits and continues with zeros.\<close>

definition canon_addr :: "bool \<Rightarrow> bool list \<Rightarrow> uchar list \<Rightarrow> bool" where
  "canon_addr v6 bs a \<longleftrightarrow> length a = addr_len v6 \<and>
     (\<forall>i < 8 * addr_len v6. abit a i = (i < length bs \<and> bs ! i))"

lemma addr_eqI:
  assumes "length a = n" "length b = n" "\<And>i. i < 8 * n \<Longrightarrow> abit a i = abit b i"
  shows "a = b"
proof (rule nth_equalityI)
  fix j assume j: "j < length a"
  have "bit (a ! j) (7 - k) = bit (b ! j) (7 - k)" if "k < 8" for k
    using assms(3) [of "8 * j + k"] j assms(1) that by (simp add: abit_byte)
  then show "a ! j = b ! j" by (simp add: byte_eq_iff)
qed (simp add: assms)

lemma canon_addr_unique: "canon_addr v6 bs a \<Longrightarrow> canon_addr v6 bs b \<Longrightarrow> a = b"
  by (rule addr_eqI [of _ "addr_len v6"]) (auto simp: canon_addr_def)

lemma length_htonl [simp]: "length (htonl h) = 4"
  by (simp add: htonl_def)

lemma abit_htonl:
  assumes "i < 32"
  shows "abit (htonl h) i = bit h (31 - i)"
proof -
  have "i div 8 < 4" "i mod 8 < 8" using assms by auto
  then have "8 * (3 - i div 8) + (7 - i mod 8) = 31 - i"
    using mult_div_mod_eq [of 8 i] by linarith
  moreover have "htonl h ! (i div 8) = ucast (drop_bit (8 * (3 - i div 8)) h)"
    using \<open>i div 8 < 4\<close> by (simp add: htonl_def)
  ultimately show ?thesis by (auto simp: abit_def bit_ucast_iff bit_drop_bit_eq possible_bit_word)
qed

lemma abit_ntohl: "length a = 4 \<Longrightarrow> i < 32 \<Longrightarrow> bit (ntohl a) (31 - i) = abit a i"
  using bit4_abit [of a i] by (simp add: bit4_def odd_drop_bit)

lemma abit_list_update:
  assumes "d < 8 * length a" "i < 8 * length a"
  shows "abit (a[d div 8 := w]) i = (if i div 8 = d div 8 then bit w (7 - i mod 8) else abit a i)"
proof -
  have "d div 8 < length a" "i div 8 < length a" using assms by auto
  then show ?thesis by (simp add: abit_def)
qed

lemma same_bit: "i div 8 = d div 8 \<Longrightarrow> 7 - i mod 8 = 7 - d mod 8 \<longleftrightarrow> i = d" for i d :: nat
proof -
  assume e: "i div 8 = d div 8"
  have "i mod 8 < 8" "d mod 8 < 8" by simp_all
  then show ?thesis using e mult_div_mod_eq [of 8 i] mult_div_mod_eq [of 8 d] by (metis diff_diff_cancel less_Suc_eq_le eval_nat_numeral(3) numeral_2_eq_2 Suc_numeral semiring_norm(2,5,8))
qed

lemma bit_push_1: "bit (push_bit n 1 :: 'a::len word) m \<longleftrightarrow> m = n \<and> n < LENGTH('a)"
  by (auto simp: bit_exp_iff)

lemma set_addr_bit_abit:
  assumes "length a = addr_len v6" "d < 8 * addr_len v6" "i < 8 * addr_len v6"
  shows "length (set_addr_bit v6 d b a) = addr_len v6"
    "abit (set_addr_bit v6 d b a) i = (if i = d then b else abit a i)"
    "length (clr_addr_bit v6 d a) = addr_len v6"
    "abit (clr_addr_bit v6 d a) i = (i \<noteq> d \<and> abit a i)"
proof -
  show "length (set_addr_bit v6 d b a) = addr_len v6" "length (clr_addr_bit v6 d a) = addr_len v6"
    using assms(1) by (simp_all add: set_addr_bit_def clr_addr_bit_def addr_len_def Let_def)
  have i4: "31 - i = 31 - d \<longleftrightarrow> i = d" if "\<not> v6" using assms(2,3) that by (auto simp: addr_len_def)
  show "abit (set_addr_bit v6 d b a) i = (if i = d then b else abit a i)"
  proof (cases v6)
    case True
    have "7 - i mod 8 = 7 - d mod 8 \<longleftrightarrow> i = d" if "i div 8 = d div 8" using that by (rule same_bit)
    then show ?thesis using assms True
      by (auto simp: set_addr_bit_def Let_def abit_list_update bit_or_iff bit_and_iff bit_not_iff bit_exp_iff abit_def [of a i])
  next
    case False
    then show ?thesis using assms i4
      by (auto simp: set_addr_bit_def Let_def abit_htonl bit_or_iff bit_and_iff bit_not_iff bit_exp_iff abit_ntohl addr_len_def)
  qed
  show "abit (clr_addr_bit v6 d a) i = (i \<noteq> d \<and> abit a i)"
  proof (cases v6)
    case True
    have "7 - i mod 8 = 7 - d mod 8 \<longleftrightarrow> i = d" if "i div 8 = d div 8" using that by (rule same_bit)
    then show ?thesis using assms True
      by (auto simp: clr_addr_bit_def Let_def abit_list_update bit_and_iff bit_not_iff bit_exp_iff abit_def [of a i])
  next
    case False
    then show ?thesis using assms i4
      by (auto simp: clr_addr_bit_def Let_def abit_htonl bit_and_iff bit_not_iff bit_exp_iff abit_ntohl addr_len_def)
  qed
qed

lemma canon_set: "canon_addr v6 bs a \<Longrightarrow> length bs < 8 * addr_len v6 \<Longrightarrow> canon_addr v6 (bs @ [b]) (set_addr_bit v6 (length bs) b a)"
  unfolding canon_addr_def by (auto simp: set_addr_bit_abit nth_append less_Suc_eq)

lemma canon_clr: "canon_addr v6 (bs @ [b]) a \<Longrightarrow> length bs < 8 * addr_len v6 \<Longrightarrow> canon_addr v6 bs (clr_addr_bit v6 (length bs) a)"
  unfolding canon_addr_def by (auto simp: set_addr_bit_abit nth_append less_Suc_eq)

section \<open>The enumeration\<close>

text \<open>The stored prefixes below a node, in the order of the walk.\<close>

fun node_entries :: "bool list \<Rightarrow> 'v cidr_node \<Rightarrow> (bool list \<times> 'v) list" where
  "node_entries bs Null = []"
| "node_entries bs (Node d l r) =
     (case d of None \<Rightarrow> [] | Some v \<Rightarrow> [(bs, v)]) @ node_entries (bs @ [False]) l @ node_entries (bs @ [True]) r"

lemma node_entries_prefix: "(cs, v) \<in> set (node_entries bs t) \<Longrightarrow> \<exists>ds. cs = bs @ ds"
proof (induction t arbitrary: bs)
  case (Node d l r)
  then show ?case by (auto split: option.splits) (metis append.assoc)+
qed simp

lemma node_entries_map: "(bs @ cs, v) \<in> set (node_entries bs t) \<longleftrightarrow> node_map t cs = Some v"
proof (induction t arbitrary: bs cs)
  case (Node d l r)
  show ?case
  proof (cases cs)
    case Nil
    then show ?thesis by (auto dest: node_entries_prefix split: option.splits)
  next
    case (Cons b cs')
    then show ?thesis
      using Node.IH(1) [of "bs @ [False]" cs'] Node.IH(2) [of "bs @ [True]" cs']
      by (cases b) (auto dest: node_entries_prefix split: option.splits)
  qed
qed simp

lemma node_entries_distinct: "distinct (map fst (node_entries bs t))"
proof (induction t arbitrary: bs)
  case (Node d l r)
  then show ?case by (auto split: option.splits dest!: node_entries_prefix)
qed simp

text \<open>The callback run over a list until it returns false.\<close>

fun run_each :: "('a \<Rightarrow> 'u \<Rightarrow> bool \<times> 'u) \<Rightarrow> 'a list \<Rightarrow> bool \<times> 'u \<Rightarrow> bool \<times> 'u" where
  "run_each f [] s = s"
| "run_each f (x # xs) s = (if fst s then s else run_each f xs (let (go, ud) = f x (snd s) in (\<not> go, ud)))"

lemma run_each_append: "run_each f (xs @ ys) s = run_each f ys (run_each f xs s)"
proof (induction xs arbitrary: s)
  case (Cons x xs)
  have "fst s \<Longrightarrow> run_each f ys s = s" by (cases ys) auto
  then show ?case using Cons by auto
qed simp

lemma run_each_stopped: "fst s \<Longrightarrow> run_each f xs s = s"
  by (cases xs) auto

text \<open>The address itself, and the report of an entry.\<close>

definition addr_of_bits :: "bool \<Rightarrow> bool list \<Rightarrow> uchar list" where
  "addr_of_bits v6 bs =
     map (\<lambda>j. horner_sum of_bool 2 (map (\<lambda>i. 8 * j + 7 - i < length bs \<and> bs ! (8 * j + 7 - i)) [0..<8])) [0..<addr_len v6]"

lemma canon_addr_of_bits: "canon_addr v6 bs (addr_of_bits v6 bs)"
proof -
  have "abit (addr_of_bits v6 bs) i = (i < length bs \<and> bs ! i)" if i: "i < 8 * addr_len v6" for i
  proof -
    have "i div 8 < addr_len v6" "8 * (i div 8) + 7 - (7 - i mod 8) = i"
      using i mult_div_mod_eq [of 8 i] by linarith+
    moreover have "7 - i mod 8 < 8" by simp
    ultimately show ?thesis
      by (simp add: abit_def addr_of_bits_def bit_horner_sum_bit_word_iff less_Suc_eq_le del: upt_Suc)
  qed
  then show ?thesis by (simp add: canon_addr_def addr_of_bits_def)
qed

lemma canon_addr_eq: "canon_addr v6 bs a \<Longrightarrow> a = addr_of_bits v6 bs"
  using canon_addr_of_bits canon_addr_unique by blast

definition report :: "bool \<Rightarrow> (uchar list \<Rightarrow> nat \<Rightarrow> 'v \<Rightarrow> 'u \<Rightarrow> bool \<times> 'u) \<Rightarrow> bool list \<times> 'v \<Rightarrow> 'u \<Rightarrow> bool \<times> 'u" where
  "report v6 fn = (\<lambda>(bs, v). fn (addr_of_bits v6 bs) (length bs) v)"

lemma visit_run:
  "canon_addr v6 bs (ss_addr ctx) \<Longrightarrow> \<not> each_stop ctx \<Longrightarrow>
     ss_addr (visit fn (length bs) d ctx) = ss_addr ctx \<and>
     (each_stop (visit fn (length bs) d ctx), each_ud (visit fn (length bs) d ctx)) =
       run_each (report v6 fn) (case d of None \<Rightarrow> [] | Some v \<Rightarrow> [(bs, v)]) (each_stop ctx, each_ud ctx)"
  by (auto simp: visit_def report_def dest!: canon_addr_eq split: option.splits prod.splits)

lemma trie_foreach_entries:
  assumes "canon_addr v6 bs (ss_addr ctx)" "length bs \<le> 8 * addr_len v6" "depth_ok (8 * addr_len v6 - length bs) t"
  shows "canon_addr v6 bs (ss_addr (trie_foreach fn v6 t (length bs) ctx)) \<and>
    (each_stop (trie_foreach fn v6 t (length bs) ctx), each_ud (trie_foreach fn v6 t (length bs) ctx)) =
      run_each (report v6 fn) (node_entries bs t) (each_stop ctx, each_ud ctx)"
  using assms
proof (induction t arbitrary: bs ctx)
  case (Node d l r)
  define descend where "descend b t c =
    (if each_stop c \<or> t = Null then c
     else let c = trie_foreach fn v6 t (length bs + 1) (c\<lparr>ss_addr := set_addr_bit v6 (length bs) b (ss_addr c)\<rparr>)
          in c\<lparr>ss_addr := clr_addr_bit v6 (length bs) (ss_addr c)\<rparr>)" for b t and c :: "'a each_ctx"
  have child: "canon_addr v6 bs (ss_addr (descend b t c)) \<and>
      (each_stop (descend b t c), each_ud (descend b t c)) =
        run_each (report v6 fn) (node_entries (bs @ [b]) t) (each_stop c, each_ud c)"
    if t: "t \<in> {l, r}" and c: "canon_addr v6 bs (ss_addr c)" for b t c
  proof (cases "each_stop c \<or> t = Null")
    case False
    then obtain n where n: "8 * addr_len v6 - length bs = Suc n"
      using Node.prems(3) t by (cases "8 * addr_len v6 - length bs") auto
    have s: "canon_addr v6 (bs @ [b]) (set_addr_bit v6 (length bs) b (ss_addr c))"
      using c n by (intro canon_set) auto
    have "8 * addr_len v6 - length (bs @ [b]) = n" using n by simp
    then have d: "depth_ok (8 * addr_len v6 - length (bs @ [b])) t"
      using Node.prems(3) t n by auto
    have "length (bs @ [b]) \<le> 8 * addr_len v6" using n by simp
    note ih = Node.IH(1) [of "bs @ [b]"] Node.IH(2) [of "bs @ [b]"]
    then show ?thesis
      using False t s d n canon_clr [of v6 bs b] \<open>length (bs @ [b]) \<le> _\<close>
      by (auto simp: descend_def Let_def)
  qed (use c in \<open>auto simp: descend_def run_each_stopped\<close>)
  show ?case
  proof (cases "each_stop ctx")
    case True
    then show ?thesis using Node.prems(1) by (simp add: run_each_stopped)
  next
    case False
    let ?v = "visit fn (length bs) d ctx"
    have v: "canon_addr v6 bs (ss_addr ?v)"
      "(each_stop ?v, each_ud ?v) = run_each (report v6 fn) (case d of None \<Rightarrow> [] | Some v \<Rightarrow> [(bs, v)]) (each_stop ctx, each_ud ctx)"
      using visit_run [OF Node.prems(1) False, of fn d] Node.prems(1) by auto
    have e: "trie_foreach fn v6 (Node d l r) (length bs) ctx = descend True r (descend False l ?v)"
      using False by (simp add: descend_def Let_def)
    let ?c1 = "descend False l ?v"
    have c1: "canon_addr v6 bs (ss_addr ?c1)"
      "(each_stop ?c1, each_ud ?c1) = run_each (report v6 fn) (node_entries (bs @ [False]) l) (each_stop ?v, each_ud ?v)"
      using child [of l ?v False] v(1) by blast+
    show ?thesis
      using child [of r ?c1 True] c1 unfolding e node_entries.simps run_each_append v(2) [symmetric] by simp
  qed
qed simp

lemma foreach_run:
  assumes "depth_ok (8 * addr_len v6) n"
  shows "each_ud (trie_foreach fn v6 n 0 \<lparr>ss_addr = replicate (addr_len v6) 0, each_ud = ud, each_stop = False\<rparr>) =
    snd (run_each (report v6 fn) (node_entries [] n) (False, ud))"
proof -
  let ?c = "\<lparr>ss_addr = replicate (addr_len v6) 0, each_ud = ud, each_stop = False\<rparr>"
  have "canon_addr v6 [] (ss_addr ?c)" by (auto simp: canon_addr_def abit_def)
  then have "(each_stop (trie_foreach fn v6 n 0 ?c), each_ud (trie_foreach fn v6 n 0 ?c)) =
      run_each (report v6 fn) (node_entries [] n) (False, ud)"
    using trie_foreach_entries [of v6 "[]" ?c n fn] assms by simp
  then show ?thesis by (metis snd_conv)
qed

section \<open>Properties of the table\<close>

text \<open>
  C11: setting a prefix updates exactly that prefix of its family in the map the table stands for, reports
  whether it was new and what it held, and keeps the counts right; deleting takes exactly that prefix out.
\<close>

theorem op_cidr_set_refines:
  assumes "tbl_ok t" "length a = addr_len v6" "0 \<le> plen" "plen \<le> 8 * int (addr_len v6)"
  shows "(case op_cidr_set v6 t a plen (Some v) of (t', rc, old) \<Rightarrow>
      tbl_ok t' \<and> cidr_map t' v6 = (cidr_map t v6)(prefix_bits a (nat plen) \<mapsto> v) \<and>
      cidr_map t' (\<not> v6) = cidr_map t (\<not> v6) \<and> old = cidr_map t v6 (prefix_bits a (nat plen)) \<and>
      rc = (if old = None then 1 else 0)) \<and>
    (case op_cidr_del v6 t a plen of (t', old) \<Rightarrow>
      tbl_ok t' \<and> cidr_map t' v6 = (cidr_map t v6)(prefix_bits a (nat plen) := None) \<and>
      cidr_map t' (\<not> v6) = cidr_map t (\<not> v6) \<and> old = cidr_map t v6 (prefix_bits a (nat plen)))"
proof -
  obtain t' rc old where e: "op_cidr_set v6 t a plen (Some v) = (t', rc, old)" using prod_cases3 by blast
  obtain t2 old2 where d: "op_cidr_del v6 t a plen = (t2, old2)" by force
  show ?thesis using set_refines [OF assms e] del_refines [OF assms d] by (simp add: e d)
qed

theorem op_cidr_set_refines_witness:
  "case op_cidr_set False op_cidr_create [10, 0, 0, 0] 8 (Some ''net'') of (t', rc, old) \<Rightarrow>
    tbl_ok t' \<and> cidr_map t' False = [replicate 4 False @ [True, False, True, False] \<mapsto> ''net''] \<and> rc = 1"
proof -
  have "prefix_bits [10, 0, 0, 0] 8 = replicate 4 False @ [True, False, True, False]" by code_simp
  then show ?thesis
    using op_cidr_set_refines [of op_cidr_create "[10, 0, 0, 0]" False 8 "''net''"]
    by (auto simp: tbl_ok_create addr_len_def split: prod.splits)
qed

text \<open>
  C12: matching any prefix finds the shortest stored prefix of the address, the longest match the longest one,
  and neither misses one.
\<close>

theorem op_cidr_match_prefixes:
  assumes "length a = addr_len v6"
  shows "(op_cidr_match_any v6 t a = Some v \<longleftrightarrow>
      (\<exists>k \<le> 8 * addr_len v6. cidr_map t v6 (prefix_bits a k) = Some v \<and>
         (\<forall>j < k. cidr_map t v6 (prefix_bits a j) = None))) \<and>
    (op_cidr_lpm v6 t a = Some v \<longleftrightarrow>
      (\<exists>k \<le> 8 * addr_len v6. cidr_map t v6 (prefix_bits a k) = Some v \<and>
         (\<forall>j \<le> 8 * addr_len v6. k < j \<longrightarrow> cidr_map t v6 (prefix_bits a j) = None)))"
  by (intro conjI match_any_iff lpm_iff assms)

theorem op_cidr_match_prefixes_witness:
  "let t = fst (op_cidr_set4 (fst (op_cidr_set4 op_cidr_create [10, 0, 0, 0] 8 (Some ''wide''))) [10, 1, 0, 0] 16 (Some ''near''))
   in op_cidr_match_any False t [10, 1, 2, 3] = Some ''wide'' \<and> op_cidr_lpm False t [10, 1, 2, 3] = Some ''near''"
proof -
  obtain t1 r1 o1 where e1: "op_cidr_set False op_cidr_create [10, 0, 0, 0] 8 (Some ''wide'') = (t1, r1, o1)"
    using prod_cases3 by blast
  have t1: "tbl_ok t1" "cidr_map t1 False = [prefix_bits [10, 0, 0, 0] 8 \<mapsto> ''wide'']"
    using set_refines [OF tbl_ok_create(1) _ _ _ e1] by (simp_all add: addr_len_def tbl_ok_create)
  obtain t r2 o2 where e: "op_cidr_set False t1 [10, 1, 0, 0] 16 (Some ''near'') = (t, r2, o2)"
    using prod_cases3 by blast
  have t: "cidr_map t False = [prefix_bits [10, 0, 0, 0] 8 \<mapsto> ''wide'', prefix_bits [10, 1, 0, 0] 16 \<mapsto> ''near'']"
    using set_refines [OF t1(1) _ _ _ e] by (simp add: addr_len_def t1)
  have p: "prefix_bits [10, 0, 0, 0] 8 = prefix_bits [10, 1, 2, 3] 8" "prefix_bits [10, 1, 0, 0] 16 = prefix_bits [10, 1, 2, 3] 16"
    by code_simp+
  have n: "prefix_bits [10, 1, 2, 3] j = prefix_bits [10, 1, 2, 3] k \<longleftrightarrow> j = k" for j k
    using length_prefix_bits by metis
  have m: "cidr_map t False (prefix_bits [10, 1, 2, 3] k) = (if k = 16 then Some ''near'' else if k = 8 then Some ''wide'' else None)" for k
    by (simp add: t p n)
  have "op_cidr_match_any False t [10, 1, 2, 3] = Some ''wide''"
    using op_cidr_match_prefixes [of "[10, 1, 2, 3]" False t "''wide''"] unfolding m
    by (simp add: addr_len_def)
  moreover have "op_cidr_lpm False t [10, 1, 2, 3] = Some ''near''"
    using op_cidr_match_prefixes [of "[10, 1, 2, 3]" False t "''near''"] unfolding m
    by (simp add: addr_len_def) presburger
  ultimately show ?thesis
    using e1 e by (simp add: op_cidr_set_def)
qed

text \<open>
  enumerating a family reports every stored prefix exactly once, with its address, length and value, in the
  order of the prefixes, up to the first report the callback answers with false.
\<close>

theorem op_cidr_foreach_reports:
  assumes "tbl_ok t"
  shows "op_cidr_foreach4 t fn ud = snd (run_each (report False fn) (node_entries [] (root4 t)) (False, ud)) \<and>
    op_cidr_foreach6 t fn' ud' = snd (run_each (report True fn') (node_entries [] (root6 t)) (False, ud')) \<and>
    set (node_entries [] (root4 t)) = {(bs, v). cidr_map t False bs = Some v} \<and> distinct (map fst (node_entries [] (root4 t))) \<and>
    set (node_entries [] (root6 t)) = {(bs, v). cidr_map t True bs = Some v} \<and> distinct (map fst (node_entries [] (root6 t)))"
proof -
  have d: "depth_ok 32 (root4 t)" "depth_ok 128 (root6 t)"
    using assms by (simp_all add: tbl_ok_def fam_ok_def addr_len_def)
  have s: "set (node_entries [] n) = {(bs, v). node_map n bs = Some v}" for n :: "'a cidr_node"
    using node_entries_map [of "[]" _ _ n] by auto
  show ?thesis
    using foreach_run [of False "root4 t" fn ud]
      foreach_run [of True "root6 t" fn' ud'] d
    by (simp add: op_cidr_foreach4_def op_cidr_foreach6_def addr_len_def s cidr_map_def node_entries_distinct)
qed

theorem op_cidr_foreach_reports_witness:
  "op_cidr_foreach4 (fst (op_cidr_set4 op_cidr_create [192, 0, 0, 0] 2 (Some ''wide''))) (\<lambda>a n v acc. (True, (a, n, v) # acc)) [] =
    [([192, 0, 0, 0], 2, ''wide'')]"
proof -
  let ?t = "fst (op_cidr_set4 op_cidr_create [192, 0, 0, 0] 2 (Some ''wide''))"
  have "op_cidr_set False op_cidr_create [192, 0, 0, 0] 2 (Some ''wide'') = op_cidr_set4 op_cidr_create [192, 0, 0, 0] 2 (Some ''wide'')"
    by (simp add: op_cidr_set_def)
  then have ok: "tbl_ok ?t"
    using set_refines [OF tbl_ok_create(1), of "[192, 0, 0, 0]" False 2 "''wide''"]
    by (cases "op_cidr_set4 op_cidr_create [192, 0, 0, 0] 2 (Some ''wide'')") (simp add: addr_len_def)
  have "root4 ?t = Node None Null (Node None Null (Node (Some ''wide'') Null Null))" by code_simp
  moreover have "addr_of_bits False [True, True] = [192, 0, 0, 0]" by code_simp
  ultimately show ?thesis
    using op_cidr_foreach_reports [OF ok, of "\<lambda>a n v acc. (True, (a, n, v) # acc)" "[]" "\<lambda>a n v u. (True, u)" "()"]
    by (simp add: report_def)
qed

end
