(* ===== verification/MaskList.thy ===== *)
theory MaskList
  imports CidrEach HtabMap StrUtil "HOL-Library.Monad_Syntax"
begin

text \<open>
  The persistent ban, exempt and invite lists of \<open>src/src/mod/channels.mod/userchan.c\<close>: a linked list per kind,
  global and per channel, a hash table from mask to record beside it and, for a channel, a prefix table of the
  masks whose host is a CIDR block.

  A \<open>char *\<close> that a record owns is its address with the text it points at; the text never changes.  \<open>freed\<close>
  holds the addresses given back.  The table keeps the pointer, so a look-up reads the text of freed
  memory when the key it meets was freed: that is \<open>None\<close>.  A record is identified by its address.
\<close>

section \<open>The state\<close>

type_synonym mstr = "nat \<times> string"

abbreviation MASKREC_STICKY :: int32 where "MASKREC_STICKY \<equiv> 1"
abbreviation MASKREC_PERM :: int32 where "MASKREC_PERM \<equiv> 2"

record maskrec =
  mk_ptr :: nat
  mk_mask :: mstr
  mk_desc :: string
  mk_user :: string
  mk_expire :: int
  mk_added :: int
  mk_lastactive :: int
  mk_flags :: int32

text \<open>A list with its hash table and its prefix table; null pointers are \<open>None\<close>.\<close>

record masks =
  recs :: "maskrec list"
  mask_ht :: "(mstr, nat) op_htab option"
  ip_trie :: "nat op_cidr_tbl option"

datatype mkind = Ban | Exempt | Invite

text \<open>The masks the server has set on a channel.\<close>

record masklist =
  ml_mask :: string
  ml_who :: string
  ml_timer :: int

text \<open>A member, and whether the user record found for him is that of a bot.\<close>

record chmember =
  mb_nick :: string
  mb_userhost :: string
  mb_flags :: "64 word"
  mb_isbot :: bool

record mchan =
  ch_dname :: string
  ch_masks :: "mkind \<Rightarrow> masks"
  ch_set :: "mkind \<Rightarrow> masklist list"
  ch_members :: "chmember list"
  ch_inviteonly :: bool

text \<open>
  What the module keeps: the allocator's next address and the addresses freed, the global lists, the channels, the text
  last deleted, the lines shared with the bots linked and the mode changes asked for.
\<close>

record mstate =
  next_ptr :: nat
  freed :: "nat list"
  global_masks :: "mkind \<Rightarrow> masks"
  chanset :: "mchan list"
  lastdeletedmask :: "string option"
  shared :: "(string option \<times> string) list"
  mode_requests :: "(string \<times> char \<times> char \<times> string) list"

text \<open>
  The settings and the services of other modules: \<open>noshare\<close>, the CIDR switch of \<open>addr_match\<close>, the bot's own \<open>nick!user@host\<close> when the server module is loaded, its nick,
  and the C library's \<open>inet_pton\<close>.
\<close>

record mask_cfg =
  noshare :: bool
  cidr_support :: bool
  own_host :: "string option"
  own_nick :: string
  force_expire :: bool
  use_exempts :: bool
  use_invites :: bool
  lib_pton :: pton

text \<open>The list meant: \<open>chan ? &chan->bans : &global_bans\<close>, the channel by its place in \<open>chanset\<close>.\<close>

definition get_masks :: "mkind \<Rightarrow> nat option \<Rightarrow> mstate \<Rightarrow> masks" where
  "get_masks k w st = (case w of None \<Rightarrow> global_masks st k | Some i \<Rightarrow> ch_masks (chanset st ! i) k)"

definition put_masks :: "mkind \<Rightarrow> nat option \<Rightarrow> masks \<Rightarrow> mstate \<Rightarrow> mstate" where
  "put_masks k w m st =
     (case w of
        None \<Rightarrow> st\<lparr>global_masks := (global_masks st)(k := m)\<rparr>
      | Some i \<Rightarrow> st\<lparr>chanset := (chanset st)[i := (chanset st ! i)\<lparr>ch_masks := (ch_masks (chanset st ! i))(k := m)\<rparr>]\<rparr>)"

definition dname_of :: "nat option \<Rightarrow> mstate \<Rightarrow> string option" where
  "dname_of w st = map_option (\<lambda>i. ch_dname (chanset st ! i)) w"

definition shareout :: "mask_cfg \<Rightarrow> string option \<Rightarrow> string \<Rightarrow> mstate \<Rightarrow> mstate" where
  "shareout cfg chan out st = (if noshare cfg then st else st\<lparr>shared := shared st @ [(chan, out)]\<rparr>)"

section \<open>The hash table of masks\<close>

definition mask_hash :: "mstr \<Rightarrow> 64 word" where
  "mask_hash k = op_htab_hash_istr (snd k)"

definition mask_eq :: "mstr \<Rightarrow> mstr \<Rightarrow> bool" where
  "mask_eq a b = htab_eq_istr (snd a) (snd b)"

definition mask_htab_create :: "64 word \<Rightarrow> (mstr, 'v) op_htab" where
  "mask_htab_create n = op_htab_create mask_hash mask_eq n"

text \<open>
  The keys a search for \<open>key\<close> may read are those with its hash; none of them may be freed.
\<close>

definition reads_ok :: "nat list \<Rightarrow> (mstr, 'v) op_htab \<Rightarrow> string \<Rightarrow> bool" where
  "reads_ok dead ht key =
     list_all (\<lambda>s. hs_hash s \<noteq> fix_hash (op_htab_hash_istr key) \<or>
       (case hs_key s of None \<Rightarrow> True | Some k \<Rightarrow> fst k \<notin> set dead)) (ht_slots ht)"

definition ht_get :: "nat list \<Rightarrow> (mstr, nat) op_htab \<Rightarrow> string \<Rightarrow> nat option option" where
  "ht_get dead ht key = (if reads_ok dead ht key then Some (op_htab_get ht (0, key)) else None)"

definition ht_set :: "nat list \<Rightarrow> (mstr, nat) op_htab \<Rightarrow> mstr \<Rightarrow> nat \<Rightarrow> (mstr, nat) op_htab option" where
  "ht_set dead ht key v =
     (if reads_ok dead ht (snd key) then map_option fst (op_htab_set ht key (Some v)) else None)"

definition ht_del :: "nat list \<Rightarrow> (mstr, nat) op_htab \<Rightarrow> string \<Rightarrow> (mstr, nat) op_htab option" where
  "ht_del dead ht key =
     (if reads_ok dead ht key then map_option fst (op_htab_del ht (0, key)) else None)"

section \<open>CIDR masks\<close>

definition mask_host :: "string \<Rightarrow> string" where
  "mask_host msk = (case strchr msk (CHR ''@'') of Some p \<Rightarrow> drop (Suc p) msk | None \<Rightarrow> msk)"

definition mask_is_cidr :: "string \<Rightarrow> bool" where
  "mask_is_cidr msk =
     (let host = mask_host msk
      in case strchr host (CHR ''/'') of None \<Rightarrow> False | Some p \<Rightarrow> str_isdigit (drop (Suc p) host))"

definition isxdigit :: "char \<Rightarrow> bool" where
  "isxdigit c \<longleftrightarrow> isdigit c \<or> CHR ''a'' \<le> c \<and> c \<le> CHR ''f'' \<or> CHR ''A'' \<le> c \<and> c \<le> CHR ''F''"

definition str_is_ip :: "string \<Rightarrow> bool" where
  "str_is_ip s \<longleftrightarrow> s \<noteq> [] \<and> strchr s (CHR ''*'') = None \<and> strchr s (CHR ''?'') = None \<and>
     list_all (\<lambda>c. isxdigit c \<or> c = CHR ''.'' \<or> c = CHR '':'') s"

definition ip_trie_add :: "mask_cfg \<Rightarrow> string \<Rightarrow> nat \<Rightarrow> nat op_cidr_tbl option \<Rightarrow> nat op_cidr_tbl option" where
  "ip_trie_add cfg msk r trie =
     (if \<not> mask_is_cidr msk then trie
      else let t = (case trie of None \<Rightarrow> op_cidr_create | Some t \<Rightarrow> t)
           in case op_cidr_parse_str (lib_pton cfg) (mask_host msk) of
                None \<Rightarrow> Some t
              | Some (SS4 a, plen) \<Rightarrow> Some (fst (op_cidr_set4 t a plen (Some r)))
              | Some (SS6 a, plen) \<Rightarrow> Some (fst (op_cidr_set6 t a plen (Some r))))"

definition ip_trie_del :: "mask_cfg \<Rightarrow> string \<Rightarrow> nat op_cidr_tbl option \<Rightarrow> nat op_cidr_tbl option" where
  "ip_trie_del cfg msk trie =
     (case trie of
        None \<Rightarrow> None
      | Some t \<Rightarrow>
          if \<not> mask_is_cidr msk then Some t
          else case op_cidr_parse_str (lib_pton cfg) (mask_host msk) of
                 None \<Rightarrow> Some t
               | Some (SS4 a, plen) \<Rightarrow> Some (fst (op_cidr_del4 t a plen))
               | Some (SS6 a, plen) \<Rightarrow> Some (fst (op_cidr_del6 t a plen)))"

definition ip_trie_match :: "mask_cfg \<Rightarrow> nat op_cidr_tbl option \<Rightarrow> string \<Rightarrow> nat option" where
  "ip_trie_match cfg trie host =
     (case trie of
        None \<Rightarrow> None
      | Some t \<Rightarrow>
          if \<not> str_is_ip host then None
          else case op_cidr_parse_addr (lib_pton cfg) host of
                 None \<Rightarrow> None
               | Some ss \<Rightarrow> op_cidr_match_any_ss t ss)"

section \<open>Looking up\<close>

text \<open>The record a stored pointer leads to; \<open>None\<close> if it is not in the list any more.\<close>

definition deref :: "maskrec list \<Rightarrow> nat \<Rightarrow> maskrec option" where
  "deref us r = find (\<lambda>u. mk_ptr u = r) us"

definition find_mask :: "maskrec list \<Rightarrow> string \<Rightarrow> maskrec option" where
  "find_mask us msk = find (\<lambda>u. rfc_casecmp (snd (mk_mask u)) msk = 0) us"

definition lookup_mask :: "nat list \<Rightarrow> masks \<Rightarrow> string \<Rightarrow> maskrec option option" where
  "lookup_mask dead m msk =
     (case mask_ht m of
        None \<Rightarrow> Some (find_mask (recs m) msk)
      | Some ht \<Rightarrow> do {
          r \<leftarrow> ht_get dead ht msk;
          case r of None \<Rightarrow> Some None | Some p \<Rightarrow> map_option Some (deref (recs m) p)
        })"

definition u_sticky_mask :: "nat list \<Rightarrow> masks \<Rightarrow> string \<Rightarrow> int32 option" where
  "u_sticky_mask dead m uhost =
     map_option (\<lambda>r. case r of None \<Rightarrow> 0 | Some u \<Rightarrow> mk_flags u AND MASKREC_STICKY) (lookup_mask dead m uhost)"

definition u_equals_mask :: "nat list \<Rightarrow> masks \<Rightarrow> string \<Rightarrow> int option" where
  "u_equals_mask dead m msk =
     map_option (\<lambda>r. case r of None \<Rightarrow> 0 | Some u \<Rightarrow> if has (mk_flags u) MASKREC_PERM then 2 else 1) (lookup_mask dead m msk)"

definition match_addr :: "mask_cfg \<Rightarrow> string \<Rightarrow> string \<Rightarrow> bool" where
  "match_addr cfg a b \<longleftrightarrow> addr_match (cidr_support cfg) a b False False \<noteq> 0"

definition u_match_mask :: "mask_cfg \<Rightarrow> maskrec list \<Rightarrow> string \<Rightarrow> bool" where
  "u_match_mask cfg us msk \<longleftrightarrow> list_ex (\<lambda>u. match_addr cfg (snd (mk_mask u)) msk) us"

definition u_match_mask_trie :: "mask_cfg \<Rightarrow> masks \<Rightarrow> string \<Rightarrow> bool" where
  "u_match_mask_trie cfg m msk \<longleftrightarrow>
     (case strchr msk (CHR ''@'') of
        None \<Rightarrow> False
      | Some p \<Rightarrow> ip_trie_match cfg (ip_trie m) (drop (Suc p) msk) \<noteq> None) \<or>
     list_ex (\<lambda>u. match_addr cfg (snd (mk_mask u)) msk) (recs m)"

text \<open>\<open>u_setsticky_mask\<close>: the loop, the new list and what is returned, with the text shared.\<close>

fun setsticky_loop :: "int \<Rightarrow> maskrec list \<Rightarrow> string \<Rightarrow> int \<Rightarrow> maskrec list \<times> int \<times> string option" where
  "setsticky_loop j [] uhost sticky = ([], if 0 \<le> j then - j else 0, None)"
| "setsticky_loop j (u # us) uhost sticky =
     (let j = (if 0 \<le> j then j - 1 else j)
      in if j = 0 \<or> j < 0 \<and> rfc_casecmp (snd (mk_mask u)) uhost = 0 then
           (if 0 < sticky then (u\<lparr>mk_flags := mk_flags u OR MASKREC_STICKY\<rparr> # us, 1, Some (if j = 0 then snd (mk_mask u) else uhost))
            else if sticky = 0 then
              (u\<lparr>mk_flags := mk_flags u AND NOT MASKREC_STICKY\<rparr> # us, 1, Some (if j = 0 then snd (mk_mask u) else uhost))
            else (u # us, 0, None))
         else let (us, rc, s) = setsticky_loop j us uhost sticky in (u # us, rc, s))"

definition u_setsticky_mask :: "mask_cfg \<Rightarrow> mkind \<Rightarrow> nat option \<Rightarrow> string \<Rightarrow> int \<Rightarrow> string \<Rightarrow> mstate \<Rightarrow> mstate \<times> int" where
  "u_setsticky_mask cfg k w uhost sticky botcmd st =
     (let m = get_masks k w st;
          (us, rc, s) = setsticky_loop (if str_isdigit uhost then egg_atoi uhost else - 1) (recs m) uhost sticky;
          st = put_masks k w (m\<lparr>recs := us\<rparr>) st
      in (case s of
            None \<Rightarrow> st
          | Some text \<Rightarrow>
              shareout cfg (dname_of w st) (botcmd @ '' '' @ text @ '' '' @ dec_int sticky @ '' '' @
                (case dname_of w st of Some d \<Rightarrow> d | None \<Rightarrow> []) @ [CHR 0x0A]) st,
          rc))"

section \<open>Deleting\<close>

fun nth_mask :: "int \<Rightarrow> nat \<Rightarrow> maskrec list \<Rightarrow> nat \<times> int" where
  "nth_mask j i [] = (i, j)"
| "nth_mask j i (u # us) = (if j = 0 then (i, j) else nth_mask (j - 1) (i + 1) us)"

text \<open>The place of the record \<open>who\<close> names, or what is returned when there is none.\<close>

definition del_target :: "maskrec list \<Rightarrow> string \<Rightarrow> int + nat" where
  "del_target us who =
     (if strchr who (CHR ''!'') = None \<and> str_isdigit who then
        let (i, j) = nth_mask (egg_atoi who - 1) 0 us
        in if i < length us then Inr i else Inl (- j - 1)
      else
        let i = length (takeWhile (\<lambda>u. rfc_casecmp (snd (mk_mask u)) who \<noteq> 0) us)
        in if i < length us then Inr i else Inl 0)"

definition del_letters :: "mkind \<Rightarrow> string" where
  "del_letters k = (case k of Ban \<Rightarrow> ''b'' | Exempt \<Rightarrow> ''e'' | Invite \<Rightarrow> ''inv'')"

definition share_del :: "mask_cfg \<Rightarrow> mkind \<Rightarrow> nat option \<Rightarrow> string \<Rightarrow> mstate \<Rightarrow> mstate" where
  "share_del cfg k w msk st =
     (case str_escape msk (CHR '':'') (CHR 0x5C) of
        None \<Rightarrow> st
      | Some m \<Rightarrow>
          (case dname_of w st of
             Some d \<Rightarrow> shareout cfg (Some d) (''-'' @ del_letters k @ ''c '' @ d @ '' '' @ m @ [CHR 0x0A]) st
           | None \<Rightarrow> shareout cfg None (''-'' @ del_letters k @ '' '' @ m @ [CHR 0x0A]) st))"

definition remove_rec :: "mask_cfg \<Rightarrow> mkind \<Rightarrow> nat option \<Rightarrow> nat \<Rightarrow> mstate \<Rightarrow> mstate option" where
  "remove_rec cfg k w i st =
     (let m = get_masks k w st; u = recs m ! i; text = snd (mk_mask u); st = share_del cfg k w text st
      in do {
        ht \<leftarrow> (case mask_ht m of
                 None \<Rightarrow> Some None
               | Some ht \<Rightarrow> map_option Some (ht_del (freed st) ht text));
        let trie = (if w \<noteq> None then ip_trie_del cfg text (ip_trie m) else ip_trie m) in
        Some (put_masks k w (m\<lparr>recs := take i (recs m) @ drop (Suc i) (recs m), mask_ht := ht, ip_trie := trie\<rparr>)
          (st\<lparr>lastdeletedmask := Some text, freed := fst (mk_mask u) # freed st\<rparr>))
      })"

definition u_delmask :: "mask_cfg \<Rightarrow> mkind \<Rightarrow> nat option \<Rightarrow> string \<Rightarrow> bool \<Rightarrow> mstate \<Rightarrow> (mstate \<times> int) option" where
  "u_delmask cfg k w who doit st =
     (case del_target (recs (get_masks k w st)) who of
        Inl rc \<Rightarrow> Some (st, rc)
      | Inr i \<Rightarrow> if doit then map_option (\<lambda>st. (st, 1)) (remove_rec cfg k w i st) else Some (st, 1))"

definition u_delban :: "mask_cfg \<Rightarrow> nat option \<Rightarrow> string \<Rightarrow> bool \<Rightarrow> mstate \<Rightarrow> (mstate \<times> int) option" where
  "u_delban cfg = u_delmask cfg Ban"

definition u_delexempt :: "mask_cfg \<Rightarrow> nat option \<Rightarrow> string \<Rightarrow> bool \<Rightarrow> mstate \<Rightarrow> (mstate \<times> int) option" where
  "u_delexempt cfg = u_delmask cfg Exempt"

definition u_delinvite :: "mask_cfg \<Rightarrow> nat option \<Rightarrow> string \<Rightarrow> bool \<Rightarrow> mstate \<Rightarrow> (mstate \<times> int) option" where
  "u_delinvite cfg = u_delmask cfg Invite"

section \<open>Adding\<close>

definition fix_broken_mask :: "string \<Rightarrow> string" where
  "fix_broken_mask oldmask =
     (let strat = strchr oldmask (CHR ''@''); strbang = strchr oldmask (CHR ''!'')
      in if strbang = None \<and> strat = None then oldmask @ ''!*@*''
         else case strat of
           None \<Rightarrow> oldmask @ ''@*''
         | Some p \<Rightarrow> if strbang = None then take p oldmask @ ''!*'' @ drop p oldmask else oldmask)"

abbreviation MAX_BAN_MASK_LEN :: nat where "MAX_BAN_MASK_LEN \<equiv> 200"

definition fit_mask :: "string \<Rightarrow> string" where
  "fit_mask msk = (let host = fix_broken_mask msk in if MAX_BAN_MASK_LEN < length host then take MAX_BAN_MASK_LEN host else host)"

definition channels_ban_list_limit :: int where
  "channels_ban_list_limit = 128"

definition count_masklist :: "masklist list \<Rightarrow> int" where
  "count_masklist m = int (length (takeWhile (\<lambda>e. ml_mask e \<noteq> []) m))"

definition list_full :: "mkind \<Rightarrow> nat option \<Rightarrow> mstate \<Rightarrow> bool" where
  "list_full k w st \<longleftrightarrow>
     (case w of None \<Rightarrow> False | Some i \<Rightarrow> channels_ban_list_limit \<le> count_masklist (ch_set (chanset st ! i) k))"

definition share_add :: "mask_cfg \<Rightarrow> int \<Rightarrow> mkind \<Rightarrow> nat option \<Rightarrow> string \<Rightarrow> int \<Rightarrow> int32 \<Rightarrow> string \<Rightarrow> string \<Rightarrow> mstate \<Rightarrow> mstate" where
  "share_add cfg now k w msk expire flags from note st =
     (case str_escape msk (CHR '':'') (CHR 0x5C) of
        None \<Rightarrow> st
      | Some m \<Rightarrow>
          let fl = (if has flags MASKREC_STICKY then ''s'' else []) @ (if has flags MASKREC_PERM then ''p'' else ''-'');
              tail = fl @ '' '' @ from @ '' '' @ note @ [CHR 0x0A]
          in (case dname_of w st of
                None \<Rightarrow> shareout cfg None (''+'' @ del_letters k @ '' '' @ m @ '' '' @ dec_int (expire - now) @ '' '' @ tail) st
              | Some d \<Rightarrow>
                  shareout cfg (Some d) (''+'' @ del_letters k @ ''c '' @ m @ '' '' @ dec_int (expire - now) @ '' '' @ d @ '' '' @ tail) st))"

text \<open>
  The common part of the three functions, from the search for a record with the same mask on.  \<open>host\<close>
  is allocated before, so its address differs from all others.
\<close>

definition enter_mask :: "mask_cfg \<Rightarrow> int \<Rightarrow> mkind \<Rightarrow> nat option \<Rightarrow> string \<Rightarrow> string \<Rightarrow> string \<Rightarrow> int \<Rightarrow> int32 \<Rightarrow> mstate \<Rightarrow> mstate option" where
  "enter_mask cfg now k w host from note expire flags st =
     (let m = get_masks k w st;
          i = length (takeWhile (\<lambda>u. rfc_casecmp (snd (mk_mask u)) host \<noteq> 0) (recs m));
          (flags, note) = (if c0 note = CHR ''*'' then (flags OR MASKREC_STICKY, tl note) else (flags, note));
          (flags, expire) = (if expire = 0 \<or> has flags MASKREC_PERM then (flags OR MASKREC_PERM, 0) else (flags, expire));
          key = (next_ptr st, host);
          p = (if i < length (recs m) then mk_ptr (recs m ! i) else next_ptr st + 1);
          u = \<lparr>mk_ptr = p, mk_mask = key, mk_desc = note, mk_user = from, mk_expire = expire, mk_added = now,
               mk_lastactive = 0, mk_flags = flags\<rparr>;
          dead = (if i < length (recs m) then fst (mk_mask (recs m ! i)) # freed st else freed st);
          us = (if i < length (recs m) then (recs m)[i := u] else u # recs m)
      in do {
        ht \<leftarrow> (case mask_ht m of
                 None \<Rightarrow> Some None
               | Some ht \<Rightarrow> map_option Some (ht_set dead ht key p));
        let trie = (if w \<noteq> None then ip_trie_add cfg host p (ip_trie m) else ip_trie m) in
        Some (share_add cfg now k w host expire flags from note
          (put_masks k w (m\<lparr>recs := us, mask_ht := ht, ip_trie := trie\<rparr>)
            (st\<lparr>next_ptr := next_ptr st + 2, freed := dead\<rparr>)))
      })"

definition u_addban :: "mask_cfg \<Rightarrow> int \<Rightarrow> nat option \<Rightarrow> string \<Rightarrow> string \<Rightarrow> string \<Rightarrow> int \<Rightarrow> int32 \<Rightarrow> mstate \<Rightarrow> (mstate \<times> int) option" where
  "u_addban cfg now w ban from note expire flags st =
     (let host = fit_mask ban
      in if list_full Ban w st then Some (st, 0)
         else if (case own_host cfg of None \<Rightarrow> False | Some me \<Rightarrow> match_addr cfg host me) then Some (st, 0)
         else if expire = now then Some (st, 1)
         else map_option (\<lambda>st. (st, 1)) (enter_mask cfg now Ban w host from note expire flags st))"

definition u_addinvite :: "mask_cfg \<Rightarrow> int \<Rightarrow> nat option \<Rightarrow> string \<Rightarrow> string \<Rightarrow> string \<Rightarrow> int \<Rightarrow> int32 \<Rightarrow> mstate \<Rightarrow> (mstate \<times> int) option" where
  "u_addinvite cfg now w invite from note expire flags st =
     (if list_full Invite w st then Some (st, 0)
      else map_option (\<lambda>st. (st, 1)) (enter_mask cfg now Invite w (fit_mask invite) from note expire flags st))"

definition u_addexempt :: "mask_cfg \<Rightarrow> int \<Rightarrow> nat option \<Rightarrow> string \<Rightarrow> string \<Rightarrow> string \<Rightarrow> int \<Rightarrow> int32 \<Rightarrow> mstate \<Rightarrow> (mstate \<times> int) option" where
  "u_addexempt cfg now w exempt from note expire flags st =
     (if list_full Exempt w st then Some (st, 0)
      else map_option (\<lambda>st. (st, 1)) (enter_mask cfg now Exempt w (fit_mask exempt) from note expire flags st))"

end
