(* ===== verification/MaskExpire.thy ===== *)
theory MaskExpire
  imports MaskList
begin

text \<open>
  The timed checks of \<open>userchan.c\<close> that take expired masks off the lists and ask for their removal from the
  channels.  \<open>b->timer\<close> remembers that a removal was asked for in this second.
\<close>

abbreviation CHANOP :: "64 word" where "CHANOP \<equiv> 0x00001"

definition find_userhost :: "string \<Rightarrow> chmember list \<Rightarrow> chmember option" where
  "find_userhost sfrom ms = find (\<lambda>m. op_strcasecmp sfrom (mb_userhost m) = 0) (takeWhile (\<lambda>m. mb_nick m \<noteq> []) ms)"

definition find_nick :: "string \<Rightarrow> chmember list \<Rightarrow> chmember option" where
  "find_nick snick ms = find (\<lambda>m. rfc_casecmp (mb_nick m) snick = 0) (takeWhile (\<lambda>m. mb_nick m \<noteq> []) ms)"

definition expired_mask :: "mask_cfg \<Rightarrow> mchan \<Rightarrow> string \<Rightarrow> bool" where
  "expired_mask cfg chan who =
     (if force_expire cfg then True
      else
        let (snick, sfrom) = splitnick (op_strlcpy [] who UHOSTLEN)
        in if snick = [] then True
           else
             case (case find_nick snick (ch_members chan) of
                     None \<Rightarrow> find_userhost sfrom (ch_members chan)
                   | Some m \<Rightarrow> Some m) of
               None \<Rightarrow> True
             | Some m \<Rightarrow>
                 if \<not> has (mb_flags m) CHANOP \<or> rfc_casecmp (mb_nick m) (own_nick cfg) = 0 then True
                 else \<not> mb_isbot m)"

definition mode_letter :: "mkind \<Rightarrow> char" where
  "mode_letter k = (case k of Ban \<Rightarrow> CHR ''b'' | Exempt \<Rightarrow> CHR ''e'' | Invite \<Rightarrow> CHR ''I'')"

text \<open>The loop over the masks set on a channel: which of them are to be removed, and the list with their timers.\<close>

definition to_unset :: "mask_cfg \<Rightarrow> int \<Rightarrow> mchan \<Rightarrow> string \<Rightarrow> masklist \<Rightarrow> bool" where
  "to_unset cfg now chan text b \<longleftrightarrow>
     rfc_casecmp (ml_mask b) text = 0 \<and> expired_mask cfg chan (ml_who b) \<and> ml_timer b \<noteq> now"

fun unset_loop :: "mask_cfg \<Rightarrow> int \<Rightarrow> mchan \<Rightarrow> string \<Rightarrow> masklist list \<Rightarrow> masklist list \<times> nat" where
  "unset_loop cfg now chan text [] = ([], 0)"
| "unset_loop cfg now chan text (b # bs) =
     (if ml_mask b = [] then (b # bs, 0)
      else let (bs, n) = unset_loop cfg now chan text bs
           in if to_unset cfg now chan text b then (b\<lparr>ml_timer := now\<rparr> # bs, n + 1) else (b # bs, n))"

definition unset_on :: "mask_cfg \<Rightarrow> int \<Rightarrow> mkind \<Rightarrow> string \<Rightarrow> nat \<Rightarrow> mstate \<Rightarrow> mstate" where
  "unset_on cfg now k text i st =
     (let chan = chanset st ! i; (bs, n) = unset_loop cfg now chan text (ch_set chan k)
      in st\<lparr>chanset := (chanset st)[i := chan\<lparr>ch_set := (ch_set chan)(k := bs)\<rparr>],
            mode_requests := mode_requests st @ replicate n (ch_dname chan, CHR ''-'', mode_letter k, text)\<rparr>)"

text \<open>An exempt stays while a ban it lifts is set.\<close>

definition still_banned :: "mask_cfg \<Rightarrow> string \<Rightarrow> mchan \<Rightarrow> bool" where
  "still_banned cfg text chan =
     list_ex (\<lambda>b. mask_match (cidr_support cfg) (ml_mask b) text \<noteq> 0) (takeWhile (\<lambda>b. ml_mask b \<noteq> []) (ch_set chan Ban))"

definition may_unset :: "mask_cfg \<Rightarrow> mkind \<Rightarrow> string \<Rightarrow> mchan \<Rightarrow> bool" where
  "may_unset cfg k text chan =
     (case k of Ban \<Rightarrow> True | Exempt \<Rightarrow> \<not> still_banned cfg text chan | Invite \<Rightarrow> \<not> ch_inviteonly chan)"

definition unset_if :: "mask_cfg \<Rightarrow> int \<Rightarrow> mkind \<Rightarrow> string \<Rightarrow> nat \<Rightarrow> mstate \<Rightarrow> mstate" where
  "unset_if cfg now k text i st = (if may_unset cfg k text (chanset st ! i) then unset_on cfg now k text i st else st)"

text \<open>One expired record of a global list and of a list of a channel.\<close>

definition expire_global :: "mask_cfg \<Rightarrow> int \<Rightarrow> mkind \<Rightarrow> string \<Rightarrow> mstate \<Rightarrow> mstate option" where
  "expire_global cfg now k text st =
     (let st = fold (unset_if cfg now k text) [0..<length (chanset st)] st
      in map_option fst (u_delmask cfg k None text True st))"

definition expire_chan :: "mask_cfg \<Rightarrow> int \<Rightarrow> mkind \<Rightarrow> nat \<Rightarrow> string \<Rightarrow> mstate \<Rightarrow> mstate option" where
  "expire_chan cfg now k i text st =
     (if k = Exempt \<and> still_banned cfg text (chanset st ! i) then Some st
      else map_option fst (u_delmask cfg k (Some i) text True (unset_if cfg now k text i st)))"

definition is_expired :: "int \<Rightarrow> maskrec \<Rightarrow> bool" where
  "is_expired now u \<longleftrightarrow> \<not> has (mk_flags u) MASKREC_PERM \<and> mk_expire u \<le> now"

text \<open>
  The loop over a list, with the next record fetched before the current one is removed.  The fuel is the length of the
  list; a record that is not in the list any more is a read of freed memory.
\<close>

fun expire_loop :: "mask_cfg \<Rightarrow> int \<Rightarrow> mkind \<Rightarrow> nat option \<Rightarrow> nat \<Rightarrow> nat option \<Rightarrow> mstate \<Rightarrow> mstate option" where
  "expire_loop cfg now k w n None st = Some st"
| "expire_loop cfg now k w 0 (Some p) st = None"
| "expire_loop cfg now k w (Suc n) (Some p) st =
     (let us = recs (get_masks k w st); i = length (takeWhile (\<lambda>u. mk_ptr u \<noteq> p) us)
      in if i = length us then None
         else
           let u = us ! i;
               u2 = (if Suc i < length us then Some (mk_ptr (us ! Suc i)) else None)
           in if is_expired now u
              then do {
                st \<leftarrow> (case w of
                        None \<Rightarrow> expire_global cfg now k (snd (mk_mask u)) st
                      | Some c \<Rightarrow> expire_chan cfg now k c (snd (mk_mask u)) st);
                expire_loop cfg now k w n u2 st
              }
              else expire_loop cfg now k w n u2 st)"

definition expire_list :: "mask_cfg \<Rightarrow> int \<Rightarrow> mkind \<Rightarrow> nat option \<Rightarrow> mstate \<Rightarrow> mstate option" where
  "expire_list cfg now k w st =
     (let us = recs (get_masks k w st)
      in expire_loop cfg now k w (length us) (if us = [] then None else Some (mk_ptr (hd us))) st)"

fun expire_chans :: "mask_cfg \<Rightarrow> int \<Rightarrow> mkind \<Rightarrow> nat list \<Rightarrow> mstate \<Rightarrow> mstate option" where
  "expire_chans cfg now k [] st = Some st"
| "expire_chans cfg now k (i # is) st = do { st \<leftarrow> expire_list cfg now k (Some i) st; expire_chans cfg now k is st }"

definition check_expired_masks :: "mask_cfg \<Rightarrow> int \<Rightarrow> mkind \<Rightarrow> mstate \<Rightarrow> mstate option" where
  "check_expired_masks cfg now k st = do {
     st \<leftarrow> expire_list cfg now k None st;
     expire_chans cfg now k [0..<length (chanset st)] st }"

definition check_expired_bans :: "mask_cfg \<Rightarrow> int \<Rightarrow> mstate \<Rightarrow> mstate option" where
  "check_expired_bans cfg now st = check_expired_masks cfg now Ban st"

definition check_expired_exempts :: "mask_cfg \<Rightarrow> int \<Rightarrow> mstate \<Rightarrow> mstate option" where
  "check_expired_exempts cfg now st = (if \<not> use_exempts cfg then Some st else check_expired_masks cfg now Exempt st)"

definition check_expired_invites :: "mask_cfg \<Rightarrow> int \<Rightarrow> mstate \<Rightarrow> mstate option" where
  "check_expired_invites cfg now st = (if \<not> use_invites cfg then Some st else check_expired_masks cfg now Invite st)"

end
