(* ===== verification/HtabLive.thy ===== *)
theory HtabLive
  imports HtabMap
begin

text \<open>
  The entries of a hash table after an operation, for users that care which key pointer an entry has, and tables whose keys
  have changed since they were entered.
\<close>

section \<open>The entries after an operation\<close>

context htab_keys
begin

lemma set_live:
  assumes "tab ht" "ht_count ht < 2 ^ 60" "ht_map canon ht (canon key) = None"
  shows "\<exists>ht'. op_htab_set ht key val = Some (ht', 1, None) \<and>
    live (ht_slots ht') = add_mset \<lparr>hs_key = Some key, hs_val = val, hs_hash = fix_hash (hash key)\<rparr> (live (ht_slots ht))"
proof -
  let ?e = "\<lparr>hs_key = Some key, hs_val = val, hs_hash = fix_hash (hash key)\<rparr>"
  have n: "htab_find_idx ht key (fix_hash (hash key)) = None" using find_map [OF assms(1), of key] assms(3) by simp
  obtain g where g: "htab_maybe_grow ht = Some g" "tab g" "live (ht_slots g) = live (ht_slots ht)"
    "4 * (ht_count g + 1) \<le> 3 * length (ht_slots g)"
    using maybe_grow [OF assms(1,2)] by blast
  note t = tabD [OF g(2)]
  have h: "hs_hash ?e \<noteq> 0" by (simp add: fix_hash_def)
  have "size (live (ht_slots g)) < length (ht_slots g)" using g(4) t(6) by auto
  then obtain T where "htab_insert_slot (ht_mask g) (ht_slots g) ?e = Some T" "live T = add_mset ?e (live (ht_slots g))"
    using insert_slot [OF t(3,5) _ h] t(4) by auto
  then show ?thesis using n g(1,3) tabD(1) [OF assms(1)] by (simp add: op_htab_set_def htab_add_def Let_def)
qed

lemma del_live:
  assumes "tab ht" "ht_map canon ht (canon key) \<noteq> None"
  shows "\<exists>ht' s. op_htab_del ht key = Some (ht', val_at ht key) \<and> slot_key canon s = canon key \<and>
    live (ht_slots ht) = add_mset s (live (ht_slots ht'))"
proof -
  note t = tabD [OF assms(1)]
  let ?T = "ht_slots ht"
  obtain i where i: "htab_find_idx ht key (fix_hash (hash key)) = Some i"
    using find_map [OF assms(1), of key] assms(2) by auto
  note f = find_Some [OF assms(1) i]
  have "size (live ?T) < length ?T" using t(6,7) cap_ge [OF t(3)] by linarith
  then obtain z where z: "z < length ?T" "\<not> occ ?T z" using empty_slot_exists by blast
  obtain T where T: "htab_del_loop (length ?T - 1) ?T i = Some T" "live T = live ?T - {#?T ! i#}"
    using del_loop [OF t(3,5) f(1) z f(2)] by blast
  then have l: "live ?T = add_mset (?T ! i) (live T)" using live_nth [OF f(1,2)] by simp
  obtain ht' where ht': "htab_del_at ht i = Some ht'" "ht_slots ht' = T"
    using T(1) t(4) by (auto simp: htab_del_at_def)
  obtain v where "op_htab_del ht key = Some (ht', v)"
    using ht'(1) i t(1) by (auto simp: op_htab_del_def Let_def)
  moreover have "v = val_at ht key" using del [OF assms(1), of key] calculation by auto
  ultimately show ?thesis using l f(3) ht'(2) by blast
qed

end


section \<open>Lists as maps\<close>

lemma map_of_find:
  "map_of (map (\<lambda>u. (f u, g u)) us) c = map_option g (find (\<lambda>u. f u = c) us)"
  by (induction us) auto

lemma map_of_without:
  "f x \<notin> f ` set xs \<Longrightarrow> f x \<notin> f ` set ys \<Longrightarrow>
     map_of (map (\<lambda>u. (f u, g u)) (xs @ ys)) = (map_of (map (\<lambda>u. (f u, g u)) (xs @ x # ys)))(f x := None)"
proof (induction xs)
  case Nil
  then have "map_of (map (\<lambda>u. (f u, g u)) ys) (f x) = None" by (auto simp: map_of_eq_None_iff image_iff)
  then show ?case by (auto simp: fun_eq_iff)
next
  case (Cons a xs)
  then show ?case by (auto simp: fun_upd_twist)
qed

lemma map_of_remove:
  assumes "distinct (map f us)" "i < length us"
  shows "map_of (map (\<lambda>u. (f u, g u)) (take i us @ drop (Suc i) us)) = (map_of (map (\<lambda>u. (f u, g u)) us))(f (us ! i) := None)"
proof -
  have u: "us = take i us @ us ! i # drop (Suc i) us" using assms(2) by (rule id_take_nth_drop)
  have "f (us ! i) \<notin> f ` set (take i us)" "f (us ! i) \<notin> f ` set (drop (Suc i) us)"
    using assms(1) by (subst (asm) u; auto)+
  from map_of_without [OF this, of g] show ?thesis using u by simp
qed

section \<open>Tables whose keys changed\<close>

text \<open>What holds of the slots whatever their keys read.\<close>

definition ht_frame :: "('k, 'v) op_htab \<Rightarrow> bool" where
  "ht_frame ht \<longleftrightarrow> cap_ok (length (ht_slots ht)) \<and> ht_mask ht = length (ht_slots ht) - 1 \<and> robin (ht_slots ht) \<and>
     ht_count ht = size (live (ht_slots ht)) \<and> 4 * ht_count ht \<le> 3 * length (ht_slots ht)"

lemma tab_frame: "tab_ok canon hash eq ht \<Longrightarrow> ht_frame ht"
  by (auto simp: tab_ok_def ht_ok_def ht_frame_def)

lemma frame_grow:
  assumes "ht_frame ht" "ht_count ht < 2 ^ 60"
  shows "\<exists>g. htab_maybe_grow ht = Some g \<and> ht_frame g \<and> live (ht_slots g) = live (ht_slots ht) \<and> ht_count g = ht_count ht \<and>
    4 * (ht_count g + 1) \<le> 3 * length (ht_slots g)"
proof -
  let ?c = "length (ht_slots ht)"
  have t: "cap_ok ?c" "ht_mask ht = ?c - 1" "robin (ht_slots ht)" "ht_count ht = size (live (ht_slots ht))"
    "4 * ht_count ht \<le> 3 * ?c" using assms(1) by (auto simp: ht_frame_def)
  obtain k where k: "4 \<le> k" "k \<le> 62" "?c = 2 ^ k" using t(1) by (auto simp: cap_ok_def)
  have m: "ht_mask ht + 1 = ?c" using t(2) cap_ge [OF t(1)] by linarith
  have c4: "4 dvd ?c" using k le_imp_power_dvd [of 2 k "2 :: nat"] by simp
  show ?thesis
  proof (cases "?c * 3 \<le> ht_count ht * 4")
    case True
    have "(2::nat) ^ k < 2 ^ 61" using True assms(2) k(3) by simp
    then have "k < 61" by (rule power_less_imp_less_exp [rotated]) simp
    then have c: "cap_ok (?c * 2)" unfolding cap_ok_def using k by (intro exI [of _ "k + 1"]) simp
    let ?new = "replicate (?c * 2) empty_slot :: ('a, 'b) op_htab_slot list"
    have "size (live (ht_slots ht)) < ?c * 2" using t(4,5) cap_ge [OF t(1)] by linarith
    then obtain T where T: "htab_rehash (?c * 2 - 1) (ht_slots ht) ?new = Some T" "length T = ?c * 2" "robin T"
      "live T = live (ht_slots ht)"
      using rehash [of ?new "ht_slots ht"] c by (auto simp: robin_replicate live_replicate)
    have "4 * (ht_count ht + 1) \<le> 3 * (?c * 2)" using t(5) cap_ge [OF t(1)] by auto
    then show ?thesis
      using True m T c t by (auto simp: htab_maybe_grow_def htab_resize_def ht_frame_def Let_def)
  next
    case False
    then have "4 * (ht_count ht + 1) \<le> 3 * ?c" using c4 by (elim dvdE) simp
    then show ?thesis using False m assms(1) by (simp add: htab_maybe_grow_def Let_def)
  qed
qed

lemma frame_add:
  assumes "ht_frame ht" "ht_count ht < 2 ^ 60" "h \<noteq> 0"
  shows "\<exists>ht'. htab_add ht key val h = Some ht' \<and> ht_frame ht' \<and>
    live (ht_slots ht') = add_mset \<lparr>hs_key = Some key, hs_val = val, hs_hash = h\<rparr> (live (ht_slots ht))"
proof -
  let ?e = "\<lparr>hs_key = Some key, hs_val = val, hs_hash = h\<rparr>"
  obtain g where g: "htab_maybe_grow ht = Some g" "ht_frame g" "live (ht_slots g) = live (ht_slots ht)"
    "4 * (ht_count g + 1) \<le> 3 * length (ht_slots g)"
    using frame_grow [OF assms(1,2)] by blast
  have t: "cap_ok (length (ht_slots g))" "ht_mask g = length (ht_slots g) - 1" "robin (ht_slots g)"
    "ht_count g = size (live (ht_slots g))" using g(2) by (auto simp: ht_frame_def)
  have "size (live (ht_slots g)) < length (ht_slots g)" using g(4) t(4) by auto
  then obtain T where "htab_insert_slot (ht_mask g) (ht_slots g) ?e = Some T"
    "length T = length (ht_slots g)" "robin T" "live T = add_mset ?e (live (ht_slots g))"
    using insert_slot [OF t(1,3), of ?e] t(2) assms(3) by auto
  then show ?thesis using g t by (auto simp: htab_add_def ht_frame_def)
qed

lemma frame_find:
  assumes "ht_frame ht" "htab_find_idx ht key h = Some i"
  shows "i < length (ht_slots ht) \<and> occ (ht_slots ht) i \<and> hs_hash (ht_slots ht ! i) = h \<and>
    ht_eq_fn ht (the (hs_key (ht_slots ht ! i))) key"
proof -
  have t: "cap_ok (length (ht_slots ht))" "ht_mask ht = length (ht_slots ht) - 1" using assms(1) by (auto simp: ht_frame_def)
  have "unat h AND (length (ht_slots ht) - 1) < length (ht_slots ht)"
    using cap_ge [OF t(1)] unfolding and_cap1 [OF t(1)] by (intro mod_less_divisor) linarith
  then show ?thesis using probe_sound [OF _ t(1)] assms(2) unfolding htab_find_idx_def t by blast
qed

lemma frame_del_at:
  assumes "ht_frame ht" "i < length (ht_slots ht)" "occ (ht_slots ht) i"
  shows "\<exists>ht'. htab_del_at ht i = Some ht' \<and> ht_frame ht' \<and> live (ht_slots ht) = add_mset (ht_slots ht ! i) (live (ht_slots ht'))"
proof -
  let ?T = "ht_slots ht"
  have t: "cap_ok (length ?T)" "ht_mask ht = length ?T - 1" "robin ?T" "ht_count ht = size (live ?T)"
    "4 * ht_count ht \<le> 3 * length ?T" using assms(1) by (auto simp: ht_frame_def)
  have "size (live ?T) < length ?T" using t(4,5) cap_ge [OF t(1)] by linarith
  then obtain z where z: "z < length ?T" "\<not> occ ?T z" using empty_slot_exists by blast
  obtain T where T: "htab_del_loop (length ?T - 1) ?T i = Some T" "length T = length ?T" "robin T" "live T = live ?T - {#?T ! i#}"
    using del_loop [OF t(1,3) assms(2) z assms(3)] by blast
  have l: "live ?T = add_mset (?T ! i) (live T)" using T(4) live_nth [OF assms(2,3)] by simp
  then have "ht_count ht - 1 = size (live T)" "4 * (ht_count ht - 1) \<le> 3 * length ?T" using t(4,5) by simp_all
  then show ?thesis using T(1-3) t(1,2) l by (simp add: htab_del_at_def ht_frame_def)
qed

end
