(* ===== verification/MaskInv.thy ===== *)
theory MaskInv
  imports MaskExpire HtabLive
begin

text \<open>
  The invariant of the mask lists: the hash table of a list holds exactly its records, under the pointers to
  the masks they own now, and the prefix table of a channel leads only to records of the list whose block is
  the prefix.
\<close>

section \<open>The table of a list\<close>

definition mcanon :: "mstr \<Rightarrow> uchar list" where
  "mcanon k = istr_canon (snd k)"

interpretation mask_keys: htab_keys mcanon mask_hash mask_eq
  by unfold_locales (simp_all add: mcanon_def mask_hash_def mask_eq_def htab_eq_istr hash_istr_canon)

definition canon_of :: "maskrec \<Rightarrow> uchar list" where
  "canon_of u = mcanon (mk_mask u)"

lemma casecmp_canon: "cstring a \<Longrightarrow> cstring b \<Longrightarrow> rfc_casecmp a b = 0 \<longleftrightarrow> istr_canon a = istr_canon b"
  by (simp add: istr_canon_rfc rfc_casecmp_eq0)

definition list_ok :: "nat list \<Rightarrow> nat \<Rightarrow> maskrec list \<Rightarrow> bool" where
  "list_ok dead bnd us \<longleftrightarrow> distinct (map mk_ptr us) \<and> distinct (map canon_of us) \<and> distinct (map (fst \<circ> mk_mask) us) \<and>
     (\<forall>u \<in> set us. mk_ptr u < bnd \<and> fst (mk_mask u) < bnd \<and> fst (mk_mask u) \<notin> set dead \<and>
       cstring (snd (mk_mask u)) \<and> \<not> str_isdigit (snd (mk_mask u)))"

definition table_ok :: "maskrec list \<Rightarrow> (mstr, nat) op_htab \<Rightarrow> bool" where
  "table_ok us ht \<longleftrightarrow> mask_keys.tab ht \<and> ht_count ht = length us \<and>
     ht_map mcanon ht = map_of (map (\<lambda>u. (canon_of u, Some (mk_ptr u))) us) \<and>
     (\<forall>s \<in># live (ht_slots ht). \<exists>u \<in> set us. hs_key s = Some (mk_mask u))"

lemma reads_ok:
  assumes "table_ok us ht" "list_ok dead bnd us"
  shows "reads_ok dead ht key"
proof -
  have "fst k \<notin> set dead" if "s \<in> set (ht_slots ht)" "hs_hash s = fix_hash h" "hs_key s = Some k" for s k h
  proof -
    have "s \<in># live (ht_slots ht)" using that(1,2) by (simp add: live_filter fix_hash_def)
    then show ?thesis using assms that(3) by (fastforce simp: table_ok_def list_ok_def)
  qed
  then show ?thesis by (auto simp: reads_ok_def list_all_iff split: option.splits)
qed

lemma find_mask_canon:
  assumes "list_ok dead bnd us" "cstring key"
  shows "find_mask us key = find (\<lambda>u. canon_of u = istr_canon key) us"
proof -
  have "\<forall>u \<in> set us. rfc_casecmp (snd (mk_mask u)) key = 0 \<longleftrightarrow> canon_of u = istr_canon key"
    using assms by (simp add: list_ok_def casecmp_canon canon_of_def mcanon_def)
  then show ?thesis unfolding find_mask_def by (induction us) auto
qed

lemma deref_in: "distinct (map mk_ptr us) \<Longrightarrow> u \<in> set us \<Longrightarrow> deref us (mk_ptr u) = Some u"
  unfolding deref_def by (induction us) auto

lemma find_in: "find P us = Some u \<Longrightarrow> u \<in> set us \<and> P u"
  by (auto simp: find_Some_iff)

lemma lookup_mask_list:
  assumes "list_ok dead bnd (recs m)" "case mask_ht m of None \<Rightarrow> True | Some ht \<Rightarrow> table_ok (recs m) ht" "cstring key"
  shows "lookup_mask dead m key = Some (find_mask (recs m) key)"
proof (cases "mask_ht m")
  case (Some ht)
  have t: "table_ok (recs m) ht" using assms(2) Some by simp
  then have "op_htab_get ht (0, key) = map_option mk_ptr (find_mask (recs m) key)"
    by (auto simp: table_ok_def mask_keys.get map_of_find find_mask_canon [OF assms(1,3)] mcanon_def split: option.splits)
  then show ?thesis
    using Some reads_ok [OF t assms(1)] assms(1) deref_in [of "recs m"]
    by (auto simp: lookup_mask_def ht_get_def list_ok_def find_mask_def split: option.splits dest!: find_in)
qed (simp add: lookup_mask_def)

lemma table_insert:
  assumes "table_ok us ht" "canon_of u \<notin> canon_of ` set us" "length us < 2 ^ 60"
  shows "\<exists>ht' rc old. op_htab_set ht (mk_mask u) (Some (mk_ptr u)) = Some (ht', rc, old) \<and> table_ok (u # us) ht'"
proof -
  have t: "mask_keys.tab ht" "ht_count ht < 2 ^ 60" using assms(1,3) by (auto simp: table_ok_def)
  have new: "ht_map mcanon ht (mcanon (mk_mask u)) = None"
    using assms(1,2) by (auto simp: table_ok_def map_of_eq_None_iff canon_of_def image_iff)
  obtain ht' where ht': "op_htab_set ht (mk_mask u) (Some (mk_ptr u)) = Some (ht', 1, None)"
    "live (ht_slots ht') = add_mset \<lparr>hs_key = Some (mk_mask u), hs_val = Some (mk_ptr u), hs_hash = fix_hash (mask_hash (mk_mask u))\<rparr> (live (ht_slots ht))"
    using mask_keys.set_live [OF t new] by blast
  moreover have "mask_keys.tab ht'" "ht_map mcanon ht' = (ht_map mcanon ht)(mcanon (mk_mask u) \<mapsto> Some (mk_ptr u))"
    "ht_count ht' = ht_count ht + 1"
    using mask_keys.set [OF t, of "mk_mask u" "Some (mk_ptr u)"] ht'(1) new by auto
  ultimately show ?thesis using assms(1) by (auto simp: table_ok_def canon_of_def)
qed

lemma table_remove:
  assumes "table_ok us ht" "list_ok dead bnd us" "i < length us"
  shows "\<exists>ht' old. op_htab_del ht (0, snd (mk_mask (us ! i))) = Some (ht', old) \<and> table_ok (take i us @ drop (Suc i) us) ht'"
proof -
  let ?u = "us ! i" and ?k = "(0 :: nat, snd (mk_mask (us ! i)))"
  have t: "mask_keys.tab ht" using assms(1) by (simp add: table_ok_def)
  have d: "distinct (map canon_of us)" using assms(2) by (simp add: list_ok_def)
  have c: "mcanon ?k = canon_of ?u" by (simp add: mcanon_def canon_of_def)
  have "?u \<in> set us" using assms(3) by simp
  then have m: "ht_map mcanon ht (mcanon ?k) \<noteq> None"
    using assms(1) by (auto simp: table_ok_def map_of_eq_None_iff c image_iff)
  obtain ht' s where h: "op_htab_del ht ?k = Some (ht', mask_keys.val_at ht ?k)" "slot_key mcanon s = mcanon ?k"
    "live (ht_slots ht) = add_mset s (live (ht_slots ht'))"
    using mask_keys.del_live [OF t m] by blast
  have h': "mask_keys.tab ht'" "ht_map mcanon ht' = (ht_map mcanon ht)(mcanon ?k := None)" "ht_count ht' + 1 = ht_count ht"
    using mask_keys.del [OF t, of ?k] h(1) m by auto
  have "\<exists>v \<in> set (take i us @ drop (Suc i) us). hs_key x = Some (mk_mask v)" if x: "x \<in># live (ht_slots ht')" for x
  proof -
    have "x \<in># live (ht_slots ht)" using h(3) x by simp
    then obtain v where v: "v \<in> set us" "hs_key x = Some (mk_mask v)" using assms(1) by (auto simp: table_ok_def)
    have "ht_map mcanon ht' (slot_key mcanon x) \<noteq> None"
      using ht_map_None [of mcanon ht' "slot_key mcanon x"] x h'(1) mask_keys.tabD(8) by blast
    then have "canon_of v \<noteq> canon_of ?u" using v(2) by (auto simp: h'(2) c slot_key_def canon_of_def split: if_splits)
    moreover have "set us = insert ?u (set (take i us @ drop (Suc i) us))"
      using id_take_nth_drop [OF assms(3)] by (metis Un_insert_right list.simps(15) set_append)
    ultimately show ?thesis using v by auto
  qed
  then have "table_ok (take i us @ drop (Suc i) us) ht'"
    using h' assms(1,3) map_of_remove [OF d assms(3), of "\<lambda>u. Some (mk_ptr u)"]
    by (auto simp: table_ok_def c)
  then show ?thesis using h(1) by blast
qed

section \<open>The prefix table of a channel\<close>

text \<open>What the code relies on of \<open>inet_pton\<close>: it writes 4 or 16 bytes.\<close>

definition pton_ok :: "mask_cfg \<Rightarrow> bool" where
  "pton_ok cfg \<longleftrightarrow> (\<forall>v6 s a. lib_pton cfg v6 s = Some a \<longrightarrow> length a = addr_len v6)"

text \<open>The prefix a mask stands for, if its host is a CIDR block.\<close>

definition block :: "mask_cfg \<Rightarrow> string \<Rightarrow> (bool \<times> bool list) option" where
  "block cfg text =
     (if \<not> mask_is_cidr text then None
      else case op_cidr_parse_str (lib_pton cfg) (mask_host text) of
             None \<Rightarrow> None
           | Some (SS4 a, n) \<Rightarrow> Some (False, prefix_bits a (nat n))
           | Some (SS6 a, n) \<Rightarrow> Some (True, prefix_bits a (nat n)))"

definition trie_map :: "nat op_cidr_tbl option \<Rightarrow> bool \<Rightarrow> bool list \<Rightarrow> nat option" where
  "trie_map trie = (case trie of None \<Rightarrow> (\<lambda>v6 bs. None) | Some t \<Rightarrow> cidr_map t)"

definition trie_tbl_ok :: "nat op_cidr_tbl option \<Rightarrow> bool" where
  "trie_tbl_ok trie \<longleftrightarrow> (case trie of None \<Rightarrow> True | Some t \<Rightarrow> tbl_ok t)"

lemma parse_addr_ok:
  "pton_ok cfg \<Longrightarrow> op_cidr_parse_addr (lib_pton cfg) s = Some ss \<Longrightarrow>
     (case ss of SS4 a \<Rightarrow> length a = addr_len False | SS6 a \<Rightarrow> length a = addr_len True)"
  by (auto simp: op_cidr_parse_addr_def pton_ok_def split: option.splits)

lemma parse_str_ok:
  assumes "pton_ok cfg" "op_cidr_parse_str (lib_pton cfg) s = Some (ss, n)"
  shows "0 \<le> n" "case ss of SS4 a \<Rightarrow> length a = addr_len False \<and> n \<le> 32 | SS6 a \<Rightarrow> length a = addr_len True \<and> n \<le> 128"
proof -
  obtain s' where p: "op_cidr_parse_addr (lib_pton cfg) s' = Some ss" "0 \<le> n" "n \<le> (case ss of SS4 _ \<Rightarrow> 32 | SS6 _ \<Rightarrow> 128)"
    using assms(2) unfolding op_cidr_parse_str_def Let_def
    by (force split: option.splits if_splits prod.splits)
  then show "0 \<le> n" "case ss of SS4 a \<Rightarrow> length a = addr_len False \<and> n \<le> 32 | SS6 a \<Rightarrow> length a = addr_len True \<and> n \<le> 128"
    using parse_addr_ok [OF assms(1) p(1)] by (auto split: sockaddr.splits)
qed

lemma set_step:
  assumes "tbl_ok t" "length a = addr_len v6" "0 \<le> n" "n \<le> 8 * int (addr_len v6)"
  shows "tbl_ok (fst (op_cidr_set v6 t a n (Some p)))"
    "cidr_map (fst (op_cidr_set v6 t a n (Some p))) = (cidr_map t)(v6 := (cidr_map t v6)(prefix_bits a (nat n) \<mapsto> p))"
    "tbl_ok (fst (op_cidr_del v6 t a n))"
    "cidr_map (fst (op_cidr_del v6 t a n)) = (cidr_map t)(v6 := (cidr_map t v6)(prefix_bits a (nat n) := None))"
proof -
  obtain t1 rc old where e1: "op_cidr_set v6 t a n (Some p) = (t1, rc, old)" using prod_cases3 by blast
  note s = set_refines [OF assms e1]
  obtain t2 old' where e2: "op_cidr_del v6 t a n = (t2, old')" by force
  note d = del_refines [OF assms e2]
  have "f = (g(v6 := f v6)) \<longleftrightarrow> f (\<not> v6) = g (\<not> v6)" for f g :: "bool \<Rightarrow> 'b"
    by (auto simp: fun_eq_iff)
  with s d have "tbl_ok t1" "cidr_map t1 = (cidr_map t)(v6 := (cidr_map t v6)(prefix_bits a (nat n) \<mapsto> p))"
    "tbl_ok t2" "cidr_map t2 = (cidr_map t)(v6 := (cidr_map t v6)(prefix_bits a (nat n) := None))"
    by metis+
  then show "tbl_ok (fst (op_cidr_set v6 t a n (Some p)))"
    "cidr_map (fst (op_cidr_set v6 t a n (Some p))) = (cidr_map t)(v6 := (cidr_map t v6)(prefix_bits a (nat n) \<mapsto> p))"
    "tbl_ok (fst (op_cidr_del v6 t a n))"
    "cidr_map (fst (op_cidr_del v6 t a n)) = (cidr_map t)(v6 := (cidr_map t v6)(prefix_bits a (nat n) := None))"
    by (simp_all add: e1 e2)
qed

lemma ip_trie_add_map:
  assumes "pton_ok cfg" "trie_tbl_ok trie"
  shows "trie_tbl_ok (ip_trie_add cfg text p trie)"
    "trie_map (ip_trie_add cfg text p trie) =
      (case block cfg text of None \<Rightarrow> trie_map trie
       | Some (v6, bs) \<Rightarrow> (trie_map trie)(v6 := (trie_map trie v6)(bs \<mapsto> p)))"
proof -
  let ?t = "case trie of None \<Rightarrow> op_cidr_create | Some t \<Rightarrow> t"
  have t: "tbl_ok ?t" "cidr_map ?t = trie_map trie"
    using assms(2) tbl_ok_create by (auto simp: trie_tbl_ok_def trie_map_def fun_eq_iff split: option.splits)
  have s4: "op_cidr_set4 = op_cidr_set False" and s6: "op_cidr_set6 = op_cidr_set True"
    by (simp_all add: op_cidr_set_def fun_eq_iff)
  show "trie_tbl_ok (ip_trie_add cfg text p trie)"
    using assms t(1) parse_str_ok [OF assms(1)]
    by (fastforce simp: ip_trie_add_def trie_tbl_ok_def Let_def s4 s6 addr_len_def intro!: set_step(1) split: option.splits sockaddr.splits)
  show "trie_map (ip_trie_add cfg text p trie) =
      (case block cfg text of None \<Rightarrow> trie_map trie
       | Some (v6, bs) \<Rightarrow> (trie_map trie)(v6 := (trie_map trie v6)(bs \<mapsto> p)))"
  proof (cases "mask_is_cidr text")
    case True
    show ?thesis
    proof (cases "op_cidr_parse_str (lib_pton cfg) (mask_host text)")
      case None
      then show ?thesis using True t(2) by (simp add: ip_trie_add_def block_def trie_map_def Let_def)
    next
      case (Some sn)
      obtain ss n where sn: "sn = (ss, n)" by force
      note ok = parse_str_ok [OF assms(1), of "mask_host text" ss n]
      show ?thesis
        using True Some sn ok set_step(2) [OF t(1), of _ _ n p] t(2)
        by (cases ss) (auto simp: ip_trie_add_def block_def trie_map_def [of "Some _"] Let_def s4 s6 addr_len_def)
    qed
  qed (simp add: ip_trie_add_def block_def)
qed

lemma ip_trie_del_map:
  assumes "pton_ok cfg" "trie_tbl_ok trie"
  shows "trie_tbl_ok (ip_trie_del cfg text trie)"
    "trie_map (ip_trie_del cfg text trie) =
      (case block cfg text of None \<Rightarrow> trie_map trie
       | Some (v6, bs) \<Rightarrow> (trie_map trie)(v6 := (trie_map trie v6)(bs := None)))"
proof -
  have s4: "op_cidr_del4 = op_cidr_del False" and s6: "op_cidr_del6 = op_cidr_del True"
    by (simp_all add: op_cidr_del_def fun_eq_iff)
  show "trie_tbl_ok (ip_trie_del cfg text trie)"
    using assms parse_str_ok [OF assms(1)]
    by (fastforce simp: ip_trie_del_def trie_tbl_ok_def Let_def s4 s6 addr_len_def intro!: set_step(3) split: option.splits sockaddr.splits)
  show "trie_map (ip_trie_del cfg text trie) =
      (case block cfg text of None \<Rightarrow> trie_map trie
       | Some (v6, bs) \<Rightarrow> (trie_map trie)(v6 := (trie_map trie v6)(bs := None)))"
  proof (cases "mask_is_cidr text \<and> trie \<noteq> None \<and> op_cidr_parse_str (lib_pton cfg) (mask_host text) \<noteq> None")
    case True
    then obtain t ss n where tn: "trie = Some t" "op_cidr_parse_str (lib_pton cfg) (mask_host text) = Some (ss, n)" by auto
    have t: "tbl_ok t" using assms(2) tn(1) by (simp add: trie_tbl_ok_def)
    note ok = parse_str_ok [OF assms(1) tn(2)]
    show ?thesis
      using True tn ok set_step(4) [OF t, of _ _ n]
      by (cases ss) (auto simp: ip_trie_del_def block_def trie_map_def Let_def s4 s6 addr_len_def)
  qed (auto simp: ip_trie_del_def block_def trie_map_def fun_eq_iff split: option.splits sockaddr.splits)
qed

text \<open>The address a host stands for, if it is one.\<close>

definition host_addr :: "mask_cfg \<Rightarrow> string \<Rightarrow> (bool \<times> uchar list) option" where
  "host_addr cfg host =
     (if \<not> str_is_ip host then None
      else case op_cidr_parse_addr (lib_pton cfg) host of
             None \<Rightarrow> None
           | Some (SS4 a) \<Rightarrow> Some (False, a)
           | Some (SS6 a) \<Rightarrow> Some (True, a))"

lemma ip_trie_match_iff:
  assumes "pton_ok cfg"
  shows "ip_trie_match cfg trie host \<noteq> None \<longleftrightarrow>
    (\<exists>v6 a k. host_addr cfg host = Some (v6, a) \<and> k \<le> 8 * addr_len v6 \<and> trie_map trie v6 (prefix_bits a k) \<noteq> None)"
proof (cases "trie = None \<or> host_addr cfg host = None")
  case True
  then show ?thesis
    by (auto simp: ip_trie_match_def host_addr_def trie_map_def split: option.splits sockaddr.splits)
next
  case False
  then obtain t ss where t: "trie = Some t" and ss: "str_is_ip host" "op_cidr_parse_addr (lib_pton cfg) host = Some ss"
    by (auto simp: host_addr_def split: if_splits option.splits)
  note ok = parse_addr_ok [OF assms ss(2)]
  show ?thesis
    using ok ss t match_any_None [of _ False t] match_any_None [of _ True t]
    by (cases ss) (auto simp: ip_trie_match_def host_addr_def trie_map_def op_cidr_match_any_ss_def op_cidr_match_any_def)
qed

end
