(* ===== verification/MaskState.thy ===== *)
theory MaskState
  imports MaskInv
begin

text \<open>
  The invariant of the module's state and that every operation keeps it: each list agrees with its hash table and
  with its prefix table, and no two lists share an address.
\<close>

section \<open>Reading and writing a list\<close>

definition place_ok :: "nat option \<Rightarrow> mstate \<Rightarrow> bool" where
  "place_ok w st \<longleftrightarrow> (case w of None \<Rightarrow> True | Some i \<Rightarrow> i < length (chanset st))"

lemma place_ok_simps [simp]:
  "place_ok None st" "place_ok (Some i) st \<longleftrightarrow> i < length (chanset st)"
  by (simp_all add: place_ok_def)

text \<open>Two states with the same lists, allocations and channels.\<close>

definition same_lists :: "mstate \<Rightarrow> mstate \<Rightarrow> bool" where
  "same_lists st st' \<longleftrightarrow> freed st' = freed st \<and> next_ptr st' = next_ptr st \<and>
     length (chanset st') = length (chanset st) \<and>
     (\<forall>k w. place_ok w st \<longrightarrow> get_masks k w st' = get_masks k w st)"

lemma same_lists_refl [simp]: "same_lists st st"
  by (simp add: same_lists_def)

lemma same_lists_trans: "same_lists a b \<Longrightarrow> same_lists b c \<Longrightarrow> same_lists a c"
  by (auto simp: same_lists_def place_ok_def split: option.splits)

lemma same_listsI:
  "freed st' = freed st \<Longrightarrow> next_ptr st' = next_ptr st \<Longrightarrow> global_masks st' = global_masks st \<Longrightarrow>
     map ch_masks (chanset st') = map ch_masks (chanset st) \<Longrightarrow> same_lists st st'"
proof -
  assume a: "freed st' = freed st" "next_ptr st' = next_ptr st" "global_masks st' = global_masks st"
    "map ch_masks (chanset st') = map ch_masks (chanset st)"
  have l: "length (chanset st') = length (chanset st)" using a(4) by (rule map_eq_imp_length_eq)
  have "ch_masks (chanset st' ! i) = ch_masks (chanset st ! i)" if "i < length (chanset st)" for i
    using a(4) l that by (metis nth_map)
  then show ?thesis using a l by (auto simp: same_lists_def get_masks_def split: option.splits)
qed

lemma share_fields [simp]:
  "freed (shareout cfg d s st) = freed st" "next_ptr (shareout cfg d s st) = next_ptr st"
  "chanset (shareout cfg d s st) = chanset st" "global_masks (shareout cfg d s st) = global_masks st"
  "mode_requests (shareout cfg d s st) = mode_requests st"
  by (simp_all add: shareout_def)

lemma share_del_fields [simp]:
  "freed (share_del cfg k w text st) = freed st" "next_ptr (share_del cfg k w text st) = next_ptr st"
  "chanset (share_del cfg k w text st) = chanset st" "global_masks (share_del cfg k w text st) = global_masks st"
  "mode_requests (share_del cfg k w text st) = mode_requests st"
  by (auto simp: share_del_def split: option.splits)

lemma share_add_fields [simp]:
  "freed (share_add cfg now k w text e fl f n st) = freed st" "next_ptr (share_add cfg now k w text e fl f n st) = next_ptr st"
  "chanset (share_add cfg now k w text e fl f n st) = chanset st"
  "global_masks (share_add cfg now k w text e fl f n st) = global_masks st"
  "mode_requests (share_add cfg now k w text e fl f n st) = mode_requests st"
  by (auto simp: share_add_def Let_def split: option.splits)

lemma same_lists_share [simp]: "same_lists st (shareout cfg d s st)"
  by (simp add: shareout_def same_listsI)

lemma same_lists_share_del [simp]: "same_lists st (share_del cfg k w text st)"
  by (auto simp: share_del_def split: option.splits)

lemma same_lists_share_add [simp]: "same_lists st (share_add cfg now k w text e fl f n st)"
  by (auto simp: share_add_def Let_def split: option.splits)

lemma put_fields [simp]:
  "freed (put_masks k w m st) = freed st" "next_ptr (put_masks k w m st) = next_ptr st"
  "length (chanset (put_masks k w m st)) = length (chanset st)"
  by (auto simp: put_masks_def split: option.splits)

lemma get_put:
  assumes "place_ok w st" "place_ok w' st"
  shows "get_masks k' w' (put_masks k w m st) = (if k' = k \<and> w' = w then m else get_masks k' w' st)"
  using assms by (auto simp: get_masks_def put_masks_def nth_list_update split: option.splits)

section \<open>The invariant\<close>

definition trie_ok :: "mask_cfg \<Rightarrow> maskrec list \<Rightarrow> nat op_cidr_tbl option \<Rightarrow> bool" where
  "trie_ok cfg us trie \<longleftrightarrow> trie_tbl_ok trie \<and>
     (\<forall>v6 bs p. trie_map trie v6 bs = Some p \<longrightarrow>
        (\<exists>u \<in> set us. mk_ptr u = p \<and> block cfg (snd (mk_mask u)) = Some (v6, bs)))"

definition masks_ok :: "mask_cfg \<Rightarrow> nat list \<Rightarrow> nat \<Rightarrow> masks \<Rightarrow> bool" where
  "masks_ok cfg dead bnd m \<longleftrightarrow> list_ok dead bnd (recs m) \<and>
     (\<exists>ht. mask_ht m = Some ht \<and> table_ok (recs m) ht) \<and> trie_ok cfg (recs m) (ip_trie m)"

definition owned :: "masks \<Rightarrow> nat set" where
  "owned m = (fst \<circ> mk_mask) ` set (recs m)"

definition mstate_ok :: "mask_cfg \<Rightarrow> mstate \<Rightarrow> bool" where
  "mstate_ok cfg st \<longleftrightarrow>
     (\<forall>k w. place_ok w st \<longrightarrow> masks_ok cfg (freed st) (next_ptr st) (get_masks k w st)) \<and>
     (\<forall>k w k' w'. place_ok w st \<longrightarrow> place_ok w' st \<longrightarrow> (k, w) \<noteq> (k', w') \<longrightarrow>
        owned (get_masks k w st) \<inter> owned (get_masks k' w' st) = {}) \<and>
     (\<forall>k. ip_trie (get_masks k None st) = None) \<and> (\<forall>a \<in> set (freed st). a < next_ptr st)"

lemma mstate_okD:
  "mstate_ok cfg st \<Longrightarrow> place_ok w st \<Longrightarrow> masks_ok cfg (freed st) (next_ptr st) (get_masks k w st)"
  "mstate_ok cfg st \<Longrightarrow> ip_trie (get_masks k None st) = None"
  "mstate_ok cfg st \<Longrightarrow> a \<in> set (freed st) \<Longrightarrow> a < next_ptr st"
  by (auto simp: mstate_ok_def)

lemma place_same: "same_lists st st' \<Longrightarrow> place_ok w st' \<longleftrightarrow> place_ok w st"
  by (auto simp: same_lists_def place_ok_def split: option.splits)

lemma mstate_ok_same: "mstate_ok cfg st \<Longrightarrow> same_lists st st' \<Longrightarrow> mstate_ok cfg st'"
  unfolding mstate_ok_def by (simp add: place_same) (simp add: same_lists_def)

text \<open>Replacing one list, with more memory allocated or freed.\<close>

lemma mstate_ok_put:
  assumes ok: "mstate_ok cfg st" and w: "place_ok w st" and m: "masks_ok cfg dead bnd m"
    and new: "owned m \<subseteq> owned (get_masks k w st) \<union> {next_ptr st..}"
    and dead: "set dead \<subseteq> set (freed st) \<union> owned (get_masks k w st)" and bnd: "next_ptr st \<le> bnd"
    and gl: "w = None \<longrightarrow> ip_trie m = None"
    and st': "same_lists (put_masks k w m (st\<lparr>freed := dead, next_ptr := bnd\<rparr>)) st'"
  shows "mstate_ok cfg st'"
proof -
  let ?s = "put_masks k w m (st\<lparr>freed := dead, next_ptr := bnd\<rparr>)"
  have g: "get_masks k' w' ?s = (if k' = k \<and> w' = w then m else get_masks k' w' st)" if "place_ok w' st" for k' w'
    using get_put [of w "st\<lparr>freed := dead, next_ptr := bnd\<rparr>" w' k' k m] w that
    by (auto simp: place_ok_def get_masks_def split: option.splits)
  have p: "place_ok w' ?s \<longleftrightarrow> place_ok w' st" for w' by (simp add: place_ok_def split: option.splits)
  have old: "masks_ok cfg dead bnd (get_masks k' w' st)" if "place_ok w' st" "(k', w') \<noteq> (k, w)" for k' w'
  proof -
    have o: "masks_ok cfg (freed st) (next_ptr st) (get_masks k' w' st)" using ok that(1) by (rule mstate_okD(1))
    have "owned (get_masks k' w' st) \<inter> owned (get_masks k w st) = {}"
      using ok that w unfolding mstate_ok_def by blast
    then have "list_ok dead bnd (recs (get_masks k' w' st))"
      using o dead bnd by (fastforce simp: masks_ok_def list_ok_def owned_def)
    then show ?thesis using o by (simp add: masks_ok_def)
  qed
  have lim: "owned (get_masks k' w' st) \<inter> {next_ptr st..} = {}" if "place_ok w' st" for k' w'
    using mstate_okD(1) [OF ok that, of k'] by (force simp: masks_ok_def list_ok_def owned_def)
  have "owned (get_masks a v st) \<inter> owned m = {}" if "place_ok v st" "(a, v) \<noteq> (k, w)" for a v
  proof -
    have "owned (get_masks a v st) \<inter> owned (get_masks k w st) = {}"
      using ok that w unfolding mstate_ok_def by blast
    then show ?thesis using new lim [OF that(1), of a] by blast
  qed
  moreover have "a < bnd" if "a \<in> set dead" for a
    using that dead bnd mstate_okD(3) [OF ok, of a] mstate_okD(1) [OF ok w, of k]
    by (force simp: masks_ok_def list_ok_def owned_def)
  ultimately have "mstate_ok cfg ?s"
    using m old ok gl unfolding mstate_ok_def p by (auto simp: g)
  then show ?thesis using st' by (rule mstate_ok_same)
qed

section \<open>Removing a record\<close>

lemma list_ok_sub:
  assumes "list_ok dead bnd us" "i < length us"
  shows "list_ok (fst (mk_mask (us ! i)) # dead) bnd (take i us @ drop (Suc i) us)"
proof -
  have u: "us = take i us @ us ! i # drop (Suc i) us" using assms(2) by (rule id_take_nth_drop)
  show ?thesis using assms(1) by (subst (asm) u) (auto simp: list_ok_def image_iff)
qed

lemma trie_ok_sub:
  assumes "pton_ok cfg" "trie_ok cfg us trie" "list_ok dead bnd us" "i < length us"
  shows "trie_ok cfg (take i us @ drop (Suc i) us) (ip_trie_del cfg (snd (mk_mask (us ! i))) trie)"
proof -
  have u: "us = take i us @ us ! i # drop (Suc i) us" using assms(4) by (rule id_take_nth_drop)
  have t: "trie_tbl_ok trie" using assms(2) by (simp add: trie_ok_def)
  have "\<exists>v \<in> set (take i us @ drop (Suc i) us). mk_ptr v = p \<and> block cfg (snd (mk_mask v)) = Some (v6, bs)"
    if "trie_map (ip_trie_del cfg (snd (mk_mask (us ! i))) trie) v6 bs = Some p" for v6 bs p
  proof -
    have m: "trie_map trie v6 bs = Some p" "block cfg (snd (mk_mask (us ! i))) \<noteq> Some (v6, bs)"
      using that unfolding ip_trie_del_map(2) [OF assms(1) t] by (auto split: option.splits if_splits)
    then obtain v where v: "v \<in> set us" "mk_ptr v = p" "block cfg (snd (mk_mask v)) = Some (v6, bs)"
      using assms(2) unfolding trie_ok_def by blast
    then have "v \<noteq> us ! i" using m(2) by blast
    then show ?thesis using v u by (metis UnE UnI1 UnI2 set_ConsD set_append)
  qed
  then show ?thesis using ip_trie_del_map(1) [OF assms(1) t] by (auto simp: trie_ok_def)
qed

lemma remove_rec_ok:
  assumes "pton_ok cfg" "mstate_ok cfg st" "place_ok w st" "i < length (recs (get_masks k w st))"
  shows "\<exists>st' m'. remove_rec cfg k w i st = Some st' \<and> mstate_ok cfg st' \<and>
    same_lists (put_masks k w m' (st\<lparr>freed := fst (mk_mask (recs (get_masks k w st) ! i)) # freed st\<rparr>)) st' \<and>
    recs m' = take i (recs (get_masks k w st)) @ drop (Suc i) (recs (get_masks k w st)) \<and>
    map ch_set (chanset st') = map ch_set (chanset st) \<and>
    mode_requests st' = mode_requests st"
proof -
  let ?m = "get_masks k w st"
  let ?us = "recs ?m" and ?text = "snd (mk_mask (recs (get_masks k w st) ! i))"
  have m: "masks_ok cfg (freed st) (next_ptr st) ?m" using assms(2,3) by (rule mstate_okD(1))
  then obtain ht where ht: "mask_ht ?m = Some ht" "table_ok ?us ht" and l: "list_ok (freed st) (next_ptr st) ?us"
    and t: "trie_ok cfg ?us (ip_trie ?m)" by (auto simp: masks_ok_def)
  obtain ht' old where h: "op_htab_del ht (0, ?text) = Some (ht', old)" "table_ok (take i ?us @ drop (Suc i) ?us) ht'"
    using table_remove [OF ht(2) l assms(4)] by blast
  let ?trie = "if w \<noteq> None then ip_trie_del cfg ?text (ip_trie ?m) else ip_trie ?m"
  let ?m' = "?m\<lparr>recs := take i ?us @ drop (Suc i) ?us, mask_ht := Some ht', ip_trie := ?trie\<rparr>"
  let ?dead = "fst (mk_mask (?us ! i)) # freed st"
  let ?sd = "share_del cfg k w ?text st"
  let ?st' = "put_masks k w ?m' (?sd\<lparr>lastdeletedmask := Some ?text, freed := ?dead\<rparr>)"
  have r: "remove_rec cfg k w i st = Some ?st'"
    using ht(1) h(1) reads_ok [OF ht(2) l] by (simp add: remove_rec_def Let_def ht_del_def)
  have same: "same_lists (put_masks k w ?m' (st\<lparr>freed := ?dead\<rparr>)) ?st'"
    by (rule same_listsI) (simp_all add: put_masks_def split: option.splits)
  have "trie_ok cfg (take i ?us @ drop (Suc i) ?us) ?trie"
    using trie_ok_sub [OF assms(1) t l assms(4)] mstate_okD(2) [OF assms(2), of k] by (auto simp: trie_ok_def trie_map_def trie_tbl_ok_def)
  then have "masks_ok cfg ?dead (next_ptr st) ?m'"
    using list_ok_sub [OF l assms(4)] h(2) by (simp add: masks_ok_def)
  moreover have "owned ?m' \<subseteq> owned ?m" by (auto simp: owned_def dest: in_set_takeD in_set_dropD)
  moreover have "set ?dead \<subseteq> set (freed st) \<union> owned ?m" using assms(4) by (auto simp: owned_def)
  moreover have "st\<lparr>freed := ?dead, next_ptr := next_ptr st\<rparr> = st\<lparr>freed := ?dead\<rparr>" by simp
  ultimately have "mstate_ok cfg ?st'"
    using same mstate_okD(2) [OF assms(2), of k] by (intro mstate_ok_put [OF assms(2,3), where dead = ?dead and bnd = "next_ptr st" and m = ?m']) auto
  moreover have "map ch_set (chanset ?st') = map ch_set (chanset st)"
    using assms(3) by (auto simp: put_masks_def list_eq_iff_nth_eq nth_list_update split: option.splits)
  moreover have "mode_requests ?st' = mode_requests st" by (auto simp: put_masks_def split: option.splits)
  ultimately show ?thesis using r same by (intro exI [of _ ?st'] exI [of _ ?m']) auto
qed

section \<open>Entering a record\<close>

lemma length_takeWhile_find:
  "length (takeWhile (\<lambda>x. \<not> P x) xs) < length xs \<longleftrightarrow> find P xs \<noteq> None"
  "find P xs \<noteq> None \<Longrightarrow> find P xs = Some (xs ! length (takeWhile (\<lambda>x. \<not> P x) xs))"
  by (induction xs) auto

lemma find_canon_None:
  assumes "list_ok dead bnd us" "cstring host"
  shows "find_mask us host = None \<longleftrightarrow> istr_canon host \<notin> canon_of ` set us"
  using find_mask_canon [OF assms] by (force simp: find_None_iff)

lemma trie_ok_add:
  assumes "pton_ok cfg" "trie_ok cfg us trie" "snd (mk_mask u) = text" "mk_ptr u = p"
  shows "trie_ok cfg (u # us) (ip_trie_add cfg text p trie)"
proof -
  have t: "trie_tbl_ok trie" using assms(2) by (simp add: trie_ok_def)
  have "\<exists>v \<in> set (u # us). mk_ptr v = q \<and> block cfg (snd (mk_mask v)) = Some (v6, bs)"
    if "trie_map (ip_trie_add cfg text p trie) v6 bs = Some q" for v6 bs q
  proof (cases "block cfg text = Some (v6, bs)")
    case True
    then have "q = p" using that unfolding ip_trie_add_map(2) [OF assms(1) t] by simp
    then show ?thesis using True assms(3,4) by auto
  next
    case False
    then have "trie_map trie v6 bs = Some q"
      using that unfolding ip_trie_add_map(2) [OF assms(1) t] by (auto split: option.splits if_splits)
    then show ?thesis using assms(2) unfolding trie_ok_def by (meson list.set_intros(2))
  qed
  then show ?thesis using ip_trie_add_map(1) [OF assms(1) t] by (simp add: trie_ok_def)
qed

text \<open>The record made, whatever the list.\<close>

definition new_rec :: "int \<Rightarrow> nat \<Rightarrow> mstr \<Rightarrow> string \<Rightarrow> string \<Rightarrow> int \<Rightarrow> int32 \<Rightarrow> maskrec" where
  "new_rec now p key from note expire flags =
     (let sticky = (if c0 note = CHR ''*'' then flags OR MASKREC_STICKY else flags);
          perm = (expire = 0 \<or> has sticky MASKREC_PERM)
      in \<lparr>mk_ptr = p, mk_mask = key, mk_desc = (if c0 note = CHR ''*'' then tl note else note), mk_user = from,
          mk_expire = (if perm then 0 else expire), mk_added = now, mk_lastactive = 0,
          mk_flags = (if perm then sticky OR MASKREC_PERM else sticky)\<rparr>)"

lemma enter_mask_new:
  assumes "pton_ok cfg" "mstate_ok cfg st" "place_ok w st" "cstring host"
    "find_mask (recs (get_masks k w st)) host = None" "length (recs (get_masks k w st)) < 2 ^ 60" "\<not> str_isdigit host"
  shows "\<exists>st' m'. enter_mask cfg now k w host from note expire flags st = Some st' \<and> mstate_ok cfg st' \<and>
    same_lists (put_masks k w m' (st\<lparr>next_ptr := next_ptr st + 2\<rparr>)) st' \<and>
    recs m' = new_rec now (next_ptr st + 1) (next_ptr st, host) from note expire flags # recs (get_masks k w st) \<and>
    trie_map (ip_trie m') = (if w = None then trie_map (ip_trie (get_masks k w st))
      else case block cfg host of None \<Rightarrow> trie_map (ip_trie (get_masks k w st))
           | Some (v6, bs) \<Rightarrow> (trie_map (ip_trie (get_masks k w st)))(v6 := (trie_map (ip_trie (get_masks k w st)) v6)(bs \<mapsto> next_ptr st + 1)))"
proof -
  let ?m = "get_masks k w st"
  let ?us = "recs ?m" and ?p = "next_ptr st + 1"
  let ?u = "new_rec now ?p (next_ptr st, host) from note expire flags"
  have u: "mk_mask ?u = (next_ptr st, host)" "mk_ptr ?u = ?p" by (simp_all add: new_rec_def Let_def)
  have m: "masks_ok cfg (freed st) (next_ptr st) ?m" using assms(2,3) by (rule mstate_okD(1))
  then obtain ht where ht: "mask_ht ?m = Some ht" "table_ok ?us ht" and l: "list_ok (freed st) (next_ptr st) ?us"
    and t: "trie_ok cfg ?us (ip_trie ?m)" by (auto simp: masks_ok_def)
  have c: "canon_of ?u = istr_canon host" using u(1) by (simp add: canon_of_def mcanon_def)
  have fresh: "canon_of ?u \<notin> canon_of ` set ?us"
    using assms(5) unfolding find_canon_None [OF l assms(4)] c .
  obtain ht' rc old where h: "op_htab_set ht (mk_mask ?u) (Some (mk_ptr ?u)) = Some (ht', rc, old)" "table_ok (?u # ?us) ht'"
    using table_insert [OF ht(2) fresh assms(6)] by blast
  have i: "\<not> length (takeWhile (\<lambda>u. rfc_casecmp (snd (mk_mask u)) host \<noteq> 0) ?us) < length ?us"
    using assms(5) length_takeWhile_find(1) [of "\<lambda>u. rfc_casecmp (snd (mk_mask u)) host = 0" ?us] by (simp add: find_mask_def)
  let ?trie = "if w \<noteq> None then ip_trie_add cfg host ?p (ip_trie ?m) else ip_trie ?m"
  let ?m' = "?m\<lparr>recs := ?u # ?us, mask_ht := Some ht', ip_trie := ?trie\<rparr>"
  let ?st1 = "put_masks k w ?m' (st\<lparr>next_ptr := next_ptr st + 2\<rparr>)"
  obtain st' where r: "enter_mask cfg now k w host from note expire flags st = Some st'" and same: "same_lists ?st1 st'"
  proof
    show "enter_mask cfg now k w host from note expire flags st =
        Some (share_add cfg now k w host (mk_expire ?u) (mk_flags ?u) from (mk_desc ?u) ?st1)"
      using i ht(1) h(1) reads_ok [OF ht(2) l] unfolding u
      by (simp add: enter_mask_def ht_set_def new_rec_def Let_def)
  qed simp
  have "trie_ok cfg (?u # ?us) ?trie"
    using trie_ok_add [OF assms(1) t, of ?u host ?p] mstate_okD(2) [OF assms(2), of k] u
    by (auto simp: trie_ok_def trie_map_def trie_tbl_ok_def)
  moreover have "list_ok (freed st) (next_ptr st + 2) (?u # ?us)"
    using l fresh assms(4,7) mstate_okD(3) [OF assms(2), of "next_ptr st"] unfolding list_ok_def using u by auto
  ultimately have "masks_ok cfg (freed st) (next_ptr st + 2) ?m'" using h(2) by (simp add: masks_ok_def)
  moreover have "owned ?m' \<subseteq> owned ?m \<union> {next_ptr st..}" using u by (auto simp: owned_def)
  moreover have "st\<lparr>freed := freed st, next_ptr := next_ptr st + 2\<rparr> = st\<lparr>next_ptr := next_ptr st + 2\<rparr>" by simp
  ultimately have "mstate_ok cfg st'"
    using same mstate_okD(2) [OF assms(2), of k]
    by (intro mstate_ok_put [OF assms(2,3), where dead = "freed st" and bnd = "next_ptr st + 2" and m = ?m']) auto
  moreover have "trie_tbl_ok (ip_trie ?m)" using t by (simp add: trie_ok_def)
  ultimately show ?thesis
    using r same ip_trie_add_map(2) [OF assms(1), of "ip_trie ?m" host ?p] by (intro exI [of _ st'] exI [of _ ?m']) auto
qed

text \<open>A mask that is in the list already: the table still has the pointer that was freed.\<close>

lemma enter_mask_again:
  assumes "mstate_ok cfg st" "place_ok w st" "cstring host" "find_mask (recs (get_masks k w st)) host \<noteq> None"
  shows "enter_mask cfg now k w host from note expire flags st = None"
proof -
  let ?m = "get_masks k w st"
  let ?us = "recs ?m"
  have m: "masks_ok cfg (freed st) (next_ptr st) ?m" using assms(1,2) by (rule mstate_okD(1))
  then obtain ht where ht: "mask_ht ?m = Some ht" "table_ok ?us ht" and l: "list_ok (freed st) (next_ptr st) ?us"
    by (auto simp: masks_ok_def)
  let ?i = "length (takeWhile (\<lambda>u. rfc_casecmp (snd (mk_mask u)) host \<noteq> 0) ?us)"
  have i: "?i < length ?us" "find_mask ?us host = Some (?us ! ?i)"
    using assms(4) length_takeWhile_find [of "\<lambda>u. rfc_casecmp (snd (mk_mask u)) host = 0" ?us]
    by (simp_all add: find_mask_def)
  let ?u = "?us ! ?i"
  have c: "canon_of ?u = istr_canon host" using i find_mask_canon [OF l assms(3)] by (auto dest!: find_in)
  have u: "?u \<in> set ?us" using i(1) by simp
  have "ht_map mcanon ht (canon_of ?u) \<noteq> None"
    using ht(2) u by (auto simp: table_ok_def map_of_eq_None_iff image_iff)
  moreover have k: "keys_once mcanon (live (ht_slots ht))" using ht(2) mask_keys.tabD(8) by (auto simp: table_ok_def)
  ultimately obtain s where s: "s \<in># live (ht_slots ht)" "slot_key mcanon s = canon_of ?u"
    unfolding ht_map_None [OF k] by blast
  then obtain v where v: "v \<in> set ?us" "hs_key s = Some (mk_mask v)" using ht(2) by (auto simp: table_ok_def)
  have "canon_of v = canon_of ?u" using s(2) v(2) by (simp add: slot_key_def canon_of_def)
  then have "v = ?u" using l v(1) u by (auto simp: list_ok_def distinct_map inj_on_def)
  moreover have "hs_hash s = fix_hash (mask_hash (mk_mask v))"
    using ht(2) mask_keys.tabD(9) [of ht s] s(1) v(2) by (simp add: table_ok_def)
  moreover have "mask_hash (mk_mask ?u) = op_htab_hash_istr host"
    using c by (simp add: mask_hash_def canon_of_def mcanon_def hash_istr_canon)
  ultimately have "s \<in> set (ht_slots ht)" "hs_hash s = fix_hash (op_htab_hash_istr host)" "hs_key s = Some (mk_mask ?u)"
    using s(1) v(2) by (auto simp: live_filter)
  then have "\<not> reads_ok (fst (mk_mask ?u) # freed st) ht host"
    by (auto simp: reads_ok_def list_all_iff intro!: bexI [of _ s])
  then show ?thesis using i(1) ht(1) by (simp add: enter_mask_def ht_set_def Let_def split_beta)
qed

end
