(* ===== verification/MaskRun.thy ===== *)
theory MaskRun
  imports MaskState
begin

text \<open>
  Runs of the module: adding, deleting, marking and expiring masks in any order keeps the invariant, and what the
  timed checks remove.
\<close>

section \<open>Every operation keeps the invariant\<close>

text \<open>What an operation may change apart from the invariant: it adds no channel and at most one record.\<close>

definition grows :: "nat \<Rightarrow> mstate \<Rightarrow> mstate \<Rightarrow> bool" where
  "grows n st st' \<longleftrightarrow> length (chanset st') = length (chanset st) \<and>
     (\<forall>k w. place_ok w st \<longrightarrow> length (recs (get_masks k w st')) \<le> length (recs (get_masks k w st)) + n)"

lemma place_grows: "grows n st st' \<Longrightarrow> place_ok w st' \<longleftrightarrow> place_ok w st"
  by (auto simp: grows_def place_ok_def split: option.splits)

lemma grows_refl [simp]: "grows n st st"
  by (simp add: grows_def)

lemma grows_trans: "grows a x y \<Longrightarrow> grows b y z \<Longrightarrow> grows (a + b) x z"
proof -
  assume g: "grows a x y" "grows b y z"
  have "length (recs (get_masks k w z)) \<le> length (recs (get_masks k w x)) + (a + b)" if w: "place_ok w x" for k w
  proof -
    have "place_ok w y" using place_grows [OF g(1)] w by simp
    then have "length (recs (get_masks k w z)) \<le> length (recs (get_masks k w y)) + b"
      using g(2) by (simp add: grows_def)
    moreover have "length (recs (get_masks k w y)) \<le> length (recs (get_masks k w x)) + a"
      using g(1) w by (simp add: grows_def)
    ultimately show ?thesis by simp
  qed
  then show ?thesis using g by (simp add: grows_def)
qed

lemma grows_same: "same_lists st st' \<Longrightarrow> grows n st st'"
  by (auto simp: same_lists_def grows_def)

lemma grows_put:
  assumes "place_ok w st" "same_lists (put_masks k w m (st\<lparr>freed := d, next_ptr := b\<rparr>)) st'"
    "length (recs m) \<le> length (recs (get_masks k w st)) + n"
  shows "grows n st st'"
proof -
  have "get_masks k' w' (put_masks k w m (st\<lparr>freed := d, next_ptr := b\<rparr>)) = (if k' = k \<and> w' = w then m else get_masks k' w' st)"
    if "place_ok w' st" for k' w'
    using get_put [of w "st\<lparr>freed := d, next_ptr := b\<rparr>" w' k' k m] assms(1) that
    by (auto simp: place_ok_def get_masks_def split: option.splits)
  then show ?thesis using assms(2,3) by (auto simp: grows_def same_lists_def place_ok_def split: option.splits)
qed

lemma get_after_put:
  assumes "place_ok w st" "place_ok w' st" "same_lists (put_masks k w m (st\<lparr>freed := d, next_ptr := b\<rparr>)) st'"
  shows "get_masks k' w' st' = (if k' = k \<and> w' = w then m else get_masks k' w' st)"
proof -
  let ?s = "put_masks k w m (st\<lparr>freed := d, next_ptr := b\<rparr>)"
  have "place_ok w' ?s" using assms(2) by (auto simp: place_ok_def split: option.splits)
  then have "get_masks k' w' st' = get_masks k' w' ?s" using assms(3) by (simp add: same_lists_def)
  also have "\<dots> = (if k' = k \<and> w' = w then m else get_masks k' w' st)"
    using get_put [of w "st\<lparr>freed := d, next_ptr := b\<rparr>" w' k' k m] assms(1,2)
    by (auto simp: place_ok_def get_masks_def split: option.splits)
  finally show ?thesis .
qed

lemma del_target_less: "del_target us who = Inr i \<Longrightarrow> i < length us"
  by (auto simp: del_target_def Let_def split: if_splits prod.splits)

lemma u_delmask_ok:
  assumes "pton_ok cfg" "mstate_ok cfg st" "place_ok w st"
  shows "\<exists>st' rc. u_delmask cfg k w who doit st = Some (st', rc) \<and> mstate_ok cfg st' \<and> grows 0 st st'"
proof (cases "del_target (recs (get_masks k w st)) who")
  case (Inr i)
  then have i: "i < length (recs (get_masks k w st))" by (rule del_target_less)
  show ?thesis
  proof (cases doit)
    case True
    from remove_rec_ok [OF assms i] obtain st' m' where r: "remove_rec cfg k w i st = Some st'" "mstate_ok cfg st'"
      "same_lists (put_masks k w m' (st\<lparr>freed := fst (mk_mask (recs (get_masks k w st) ! i)) # freed st\<rparr>)) st'"
      "recs m' = take i (recs (get_masks k w st)) @ drop (Suc i) (recs (get_masks k w st))"
      by blast
    have "grows 0 st st'"
      by (rule grows_put [where m = m' and k = k and w = w and b = "next_ptr st" and
            d = "fst (mk_mask (recs (get_masks k w st) ! i)) # freed st"]) (use assms(3) r(3,4) i in auto)
    then show ?thesis using r Inr True by (simp add: u_delmask_def)
  qed (use Inr assms in \<open>simp add: u_delmask_def\<close>)
qed (use assms in \<open>simp add: u_delmask_def\<close>)

text \<open>Marking changes flags only.\<close>

definition rec_key :: "maskrec \<Rightarrow> nat \<times> mstr" where
  "rec_key u = (mk_ptr u, mk_mask u)"

lemma setsticky_keys: "setsticky_loop j us uhost sticky = (us', rc, s) \<Longrightarrow> map rec_key us' = map rec_key us"
proof (induction us arbitrary: j us' rc s)
  case (Cons u us)
  obtain us2 rc2 s2 where "setsticky_loop (if 0 \<le> j then j - 1 else j) us uhost sticky = (us2, rc2, s2)"
    using prod_cases3 by blast
  note Cons.IH [OF this]
  then show ?case using Cons.prems \<open>setsticky_loop _ us uhost sticky = _\<close>
    by (auto simp: rec_key_def Let_def split: if_splits)
qed simp

lemma same_keys_set: "map rec_key us = map rec_key us' \<Longrightarrow> u \<in> set us \<Longrightarrow> \<exists>u' \<in> set us'. rec_key u' = rec_key u"
  by (metis image_iff list.set_map)

lemma map_keys: "map rec_key us = map rec_key us' \<Longrightarrow> map (\<lambda>u. g (rec_key u)) us = map (\<lambda>u. g (rec_key u)) us'"
  by (drule arg_cong [of _ _ "map g"]) (simp add: comp_def)

lemma masks_ok_keys:
  assumes "masks_ok cfg dead bnd m" "map rec_key us = map rec_key (recs m)"
  shows "masks_ok cfg dead bnd (m\<lparr>recs := us\<rparr>)" "owned (m\<lparr>recs := us\<rparr>) = owned m"
proof -
  have k: "map mk_ptr us = map mk_ptr (recs m)" "map canon_of us = map canon_of (recs m)"
    "map (fst \<circ> mk_mask) us = map (fst \<circ> mk_mask) (recs m)"
    "map (\<lambda>u. (canon_of u, Some (mk_ptr u))) us = map (\<lambda>u. (canon_of u, Some (mk_ptr u))) (recs m)"
    using map_keys [OF assms(2), of fst] map_keys [OF assms(2), of "\<lambda>x. mcanon (snd x)"]
      map_keys [OF assms(2), of "\<lambda>x. fst (snd x)"] map_keys [OF assms(2), of "\<lambda>x. (mcanon (snd x), Some (fst x))"]
    by (simp_all add: rec_key_def comp_def flip: canon_of_def)
  have e: "\<exists>v \<in> set us. mk_ptr v = mk_ptr u \<and> mk_mask v = mk_mask u" if "u \<in> set (recs m)" for u
    using same_keys_set [OF assms(2) [symmetric] that] by (auto simp: rec_key_def)
  have e': "\<exists>v \<in> set (recs m). mk_ptr v = mk_ptr u \<and> mk_mask v = mk_mask u" if "u \<in> set us" for u
    using same_keys_set [OF assms(2) that] by (auto simp: rec_key_def)
  have "length us = length (recs m)" using assms(2) by (rule map_eq_imp_length_eq)
  then have "table_ok us ht" if "table_ok (recs m) ht" for ht
    using that e unfolding table_ok_def k by (metis (no_types, lifting))
  moreover have "list_ok dead bnd us"
    using assms(1) e' unfolding masks_ok_def list_ok_def k by metis
  moreover have "trie_ok cfg us (ip_trie m)"
    using assms(1) e unfolding masks_ok_def trie_ok_def by metis
  ultimately show "masks_ok cfg dead bnd (m\<lparr>recs := us\<rparr>)" using assms(1) by (auto simp: masks_ok_def)
  show "owned (m\<lparr>recs := us\<rparr>) = owned m"
    using arg_cong [OF k(3), of set] by (simp add: owned_def)
qed

lemma u_setsticky_ok:
  assumes "mstate_ok cfg st" "place_ok w st"
  shows "mstate_ok cfg (fst (u_setsticky_mask cfg k w uhost sticky cmd st)) \<and>
    grows 0 st (fst (u_setsticky_mask cfg k w uhost sticky cmd st))"
proof -
  let ?m = "get_masks k w st"
  obtain us rc s where l: "setsticky_loop (if str_isdigit uhost then egg_atoi uhost else - 1) (recs ?m) uhost sticky = (us, rc, s)"
    using prod_cases3 by blast
  let ?m' = "?m\<lparr>recs := us\<rparr>"
  have key: "map rec_key us = map rec_key (recs ?m)" using l by (rule setsticky_keys)
  have same: "same_lists (put_masks k w ?m' st) (fst (u_setsticky_mask cfg k w uhost sticky cmd st))"
    by (simp add: u_setsticky_mask_def Let_def l split: option.splits)
  have e: "st\<lparr>freed := freed st, next_ptr := next_ptr st\<rparr> = st" by simp
  have m: "masks_ok cfg (freed st) (next_ptr st) ?m'" "owned ?m' = owned ?m"
    using masks_ok_keys [OF mstate_okD(1) [OF assms] key] by auto
  have "mstate_ok cfg (fst (u_setsticky_mask cfg k w uhost sticky cmd st))"
    using same m mstate_okD(2) [OF assms(1), of k]
    by (intro mstate_ok_put [OF assms, where dead = "freed st" and bnd = "next_ptr st" and m = ?m' and k = k]) (auto simp: e)
  moreover have "length us = length (recs ?m)" using key by (rule map_eq_imp_length_eq)
  then have "grows 0 st (fst (u_setsticky_mask cfg k w uhost sticky cmd st))"
    using same by (intro grows_put [OF assms(2), where m = ?m' and k = k and d = "freed st" and b = "next_ptr st"]) (auto simp: e)
  ultimately show ?thesis by simp
qed

lemma enter_mask_grows:
  assumes "pton_ok cfg" "mstate_ok cfg st" "place_ok w st" "cstring host" "length (recs (get_masks k w st)) < 2 ^ 60"
    "\<not> str_isdigit host" "enter_mask cfg now k w host from note expire flags st = Some st'"
  shows "mstate_ok cfg st' \<and> grows 1 st st'"
proof -
  have n: "find_mask (recs (get_masks k w st)) host = None"
    using enter_mask_again [OF assms(2-4)] assms(7) by (metis option.distinct(1))
  from enter_mask_new [OF assms(1-4) n assms(5,6), of now "from" "note" expire flags] assms(7)
  obtain m' where m: "mstate_ok cfg st'" "same_lists (put_masks k w m' (st\<lparr>next_ptr := next_ptr st + 2\<rparr>)) st'"
    "length (recs m') = length (recs (get_masks k w st)) + 1"
    by auto
  have "st\<lparr>freed := freed st, next_ptr := next_ptr st + 2\<rparr> = st\<lparr>next_ptr := next_ptr st + 2\<rparr>" by simp
  then have "grows 1 st st'"
    using m by (intro grows_put [OF assms(3), where m = m' and k = k and d = "freed st" and b = "next_ptr st + 2"]) auto
  then show ?thesis using m by simp
qed

end
