(* ===== verification/MaskTimed.thy ===== *)
theory MaskTimed
  imports MaskRun
begin

text \<open>What the timed checks do to the lists.\<close>

section \<open>Asking for removals changes no list\<close>

definition ban_texts :: "mstate \<Rightarrow> string list list" where
  "ban_texts st = map (\<lambda>c. map ml_mask (ch_set c Ban)) (chanset st)"

lemma still_banned_texts:
  "still_banned cfg text chan =
     list_ex (\<lambda>b. mask_match (cidr_support cfg) b text \<noteq> 0) (takeWhile (\<lambda>b. b \<noteq> []) (map ml_mask (ch_set chan Ban)))"
  by (simp add: still_banned_def takeWhile_map list_ex_iff comp_def)

lemma still_banned_same:
  assumes "ban_texts st' = ban_texts st" "i < length (chanset st)"
  shows "still_banned cfg text (chanset st' ! i) = still_banned cfg text (chanset st ! i)"
proof -
  have "length (chanset st') = length (chanset st)"
    using assms(1) unfolding ban_texts_def by (rule map_eq_imp_length_eq)
  then have "map ml_mask (ch_set (chanset st' ! i) Ban) = map ml_mask (ch_set (chanset st ! i) Ban)"
    using assms by (metis (no_types, lifting) ban_texts_def nth_map)
  then show ?thesis by (simp add: still_banned_texts)
qed

lemma unset_loop_masks: "map ml_mask (fst (unset_loop cfg now chan text bs)) = map ml_mask bs"
  by (induction bs) (auto simp: split_beta)

lemma unset_if_same:
  assumes "i < length (chanset st)"
  shows "same_lists st (unset_if cfg now k text i st)" "ban_texts (unset_if cfg now k text i st) = ban_texts st"
proof -
  show "same_lists st (unset_if cfg now k text i st)"
    by (auto simp: unset_if_def unset_on_def Let_def split_beta map_update intro!: same_listsI)
       (metis assms list_update_id map_update nth_map)
  show "ban_texts (unset_if cfg now k text i st) = ban_texts st"
    using assms unset_loop_masks
    by (auto simp: unset_if_def unset_on_def ban_texts_def Let_def split_beta list_eq_iff_nth_eq nth_list_update)
qed

lemma unset_all_same:
  "list_all (\<lambda>i. i < length (chanset st)) is \<Longrightarrow>
     same_lists st (fold (unset_if cfg now k text) is st) \<and> ban_texts (fold (unset_if cfg now k text) is st) = ban_texts st"
proof (induction "is" arbitrary: st)
  case (Cons i "is")
  let ?s = "unset_if cfg now k text i st"
  have s: "same_lists st ?s" "ban_texts ?s = ban_texts st" using unset_if_same Cons.prems by auto
  then have "list_all (\<lambda>i. i < length (chanset ?s)) is" using Cons.prems by (simp add: same_lists_def)
  then show ?case using Cons.IH [of ?s] s same_lists_trans by auto
qed simp

section \<open>One list\<close>

text \<open>A record the check takes away.\<close>

definition drops :: "mask_cfg \<Rightarrow> int \<Rightarrow> mkind \<Rightarrow> nat option \<Rightarrow> mstate \<Rightarrow> maskrec \<Rightarrow> bool" where
  "drops cfg now k w st u \<longleftrightarrow> is_expired now u \<and>
     \<not> (k = Exempt \<and> (case w of None \<Rightarrow> False | Some c \<Rightarrow> still_banned cfg (snd (mk_mask u)) (chanset st ! c)))"

lemma takeWhile_place:
  "i < length xs \<Longrightarrow> \<not> P (xs ! i) \<Longrightarrow> (\<And>j. j < i \<Longrightarrow> P (xs ! j)) \<Longrightarrow> length (takeWhile P xs) = i"
proof (induction xs arbitrary: i)
  case (Cons x xs)
  then show ?case by (cases i) (auto, metis Suc_less_eq nth_Cons_Suc, metis nth_Cons_0 zero_less_Suc)
qed simp

lemma del_target_self:
  assumes "list_ok dead bnd us" "i < length us"
  shows "del_target us (snd (mk_mask (us ! i))) = Inr i"
proof -
  let ?t = "snd (mk_mask (us ! i))"
  have c: "cstring (snd (mk_mask u))" if "u \<in> set us" for u using assms(1) that by (simp add: list_ok_def)
  have "length (takeWhile (\<lambda>u. rfc_casecmp (snd (mk_mask u)) ?t \<noteq> 0) us) = i"
  proof (rule takeWhile_place)
    show "i < length us" by fact
    show "\<not> rfc_casecmp (snd (mk_mask (us ! i))) ?t \<noteq> 0"
      using casecmp_canon [OF c c, of "us ! i" "us ! i"] assms(2) by simp
    fix j assume "j < i"
    then have "canon_of (us ! j) \<noteq> canon_of (us ! i)"
      using assms(1,2) by (auto simp: list_ok_def distinct_conv_nth)
    then show "rfc_casecmp (snd (mk_mask (us ! j))) ?t \<noteq> 0"
      using casecmp_canon [OF c c, of "us ! j" "us ! i"] assms(2) \<open>j < i\<close> by (simp add: canon_of_def mcanon_def)
  qed
  moreover have "\<not> str_isdigit ?t" using assms by (simp add: list_ok_def)
  ultimately show ?thesis using assms(2) by (simp add: del_target_def)
qed

text \<open>The effect of an operation that touches one list only.\<close>

definition only_list :: "mkind \<Rightarrow> nat option \<Rightarrow> maskrec list \<Rightarrow> mstate \<Rightarrow> mstate \<Rightarrow> bool" where
  "only_list k w us st st' \<longleftrightarrow> length (chanset st') = length (chanset st) \<and> ban_texts st' = ban_texts st \<and>
     recs (get_masks k w st') = us \<and>
     (\<forall>k' w'. place_ok w' st \<longrightarrow> (k', w') \<noteq> (k, w) \<longrightarrow> get_masks k' w' st' = get_masks k' w' st)"

lemma only_list_trans: "only_list k w us st st1 \<Longrightarrow> only_list k w us' st1 st2 \<Longrightarrow> only_list k w us' st st2"
  unfolding only_list_def place_ok_def by (simp split: option.splits)

lemma only_drops:
  assumes "only_list k w us st st1" "place_ok w st"
  shows "drops cfg now k w st1 = drops cfg now k w st"
proof (cases w)
  case (Some c)
  then show ?thesis
    using assms still_banned_same [of st1 st c cfg] by (simp add: only_list_def drops_def fun_eq_iff)
qed (simp add: drops_def fun_eq_iff)

lemma delete_self:
  assumes "pton_ok cfg" "mstate_ok cfg st" "place_ok w st" "i < length (recs (get_masks k w st))"
    "same_lists st st1" "ban_texts st1 = ban_texts st"
  shows "\<exists>st'. map_option fst (u_delmask cfg k w (snd (mk_mask (recs (get_masks k w st) ! i))) True st1) = Some st' \<and>
    mstate_ok cfg st' \<and> only_list k w (take i (recs (get_masks k w st)) @ drop (Suc i) (recs (get_masks k w st))) st st'"
proof -
  have m: "mstate_ok cfg st1" using assms(2,5) by (rule mstate_ok_same)
  have g: "get_masks k' w' st1 = get_masks k' w' st" if "place_ok w' st" for k' w'
    using assms(5) that by (simp add: same_lists_def)
  have w: "place_ok w st1" using assms(3,5) by (simp add: place_same)
  let ?us = "recs (get_masks k w st)"
  have l: "list_ok (freed st) (next_ptr st) ?us"
    using mstate_okD(1) [OF assms(2,3), of k] by (simp add: masks_ok_def)
  have t: "del_target ?us (snd (mk_mask (?us ! i))) = Inr i" using del_target_self [OF l assms(4)] .
  have i: "i < length (recs (get_masks k w st1))" using assms(4) g [OF assms(3)] by simp
  obtain st' m' where r: "remove_rec cfg k w i st1 = Some st'" "mstate_ok cfg st'"
    "same_lists (put_masks k w m' (st1\<lparr>freed := fst (mk_mask (?us ! i)) # freed st1\<rparr>)) st'"
    "recs m' = take i ?us @ drop (Suc i) ?us" "map ch_set (chanset st') = map ch_set (chanset st1)"
    using remove_rec_ok [OF assms(1) m w i] g [OF assms(3)] by auto
  have e: "st1\<lparr>freed := d, next_ptr := next_ptr st1\<rparr> = st1\<lparr>freed := d\<rparr>" for d by simp
  have "get_masks k' w' st' = (if k' = k \<and> w' = w then m' else get_masks k' w' st1)" if "place_ok w' st1" for k' w'
    using get_after_put [OF w that, where m = m' and d = "fst (mk_mask (?us ! i)) # freed st1" and b = "next_ptr st1"] r(3)
    unfolding e by blast
  moreover have "ban_texts st' = ban_texts st1"
    using arg_cong [OF r(5), of "map (\<lambda>f. map ml_mask (f Ban))"] by (simp add: ban_texts_def comp_def)
  moreover have "length (chanset st') = length (chanset st1)" using r(5) by (rule map_eq_imp_length_eq)
  moreover have "length (chanset st1) = length (chanset st)" using assms(5) by (simp add: same_lists_def)
  ultimately have "only_list k w (take i ?us @ drop (Suc i) ?us) st st'"
    using r(4) assms(3,5,6) w g by (auto simp: only_list_def place_same)
  then show ?thesis using r(1,2) t g [OF assms(3)] by (simp add: u_delmask_def)
qed

lemma expire_step:
  assumes "pton_ok cfg" "mstate_ok cfg st" "place_ok w st" "i < length (recs (get_masks k w st))"
  defines "u \<equiv> recs (get_masks k w st) ! i"
  assumes "is_expired now u"
  shows "\<exists>st'. (case w of None \<Rightarrow> expire_global cfg now k (snd (mk_mask u)) st
                | Some c \<Rightarrow> expire_chan cfg now k c (snd (mk_mask u)) st) = Some st' \<and> mstate_ok cfg st' \<and>
    only_list k w (if drops cfg now k w st u then take i (recs (get_masks k w st)) @ drop (Suc i) (recs (get_masks k w st))
      else recs (get_masks k w st)) st st'"
proof (cases w)
  case None
  have "list_all (\<lambda>i. i < length (chanset st)) [0..<length (chanset st)]" by (simp add: list_all_iff)
  note s = unset_all_same [OF this, of cfg now k "snd (mk_mask u)"]
  show ?thesis
    using delete_self [OF assms(1-4) conjunct1 [OF s] conjunct2 [OF s]] None assms(6)
    by (simp add: expire_global_def drops_def u_def Let_def)
next
  case (Some c)
  then have c: "c < length (chanset st)" using assms(3) by simp
  note s = unset_if_same [OF c, of cfg now k "snd (mk_mask u)"]
  show ?thesis
  proof (cases "k = Exempt \<and> still_banned cfg (snd (mk_mask u)) (chanset st ! c)")
    case True
    then show ?thesis using Some assms(2,6) by (simp add: expire_chan_def drops_def only_list_def)
  next
    case False
    have "drops cfg now k w st u" using False Some assms(6) by (simp add: drops_def)
    moreover have "expire_chan cfg now k c (snd (mk_mask u)) st =
        map_option fst (u_delmask cfg k w (snd (mk_mask u)) True (unset_if cfg now k (snd (mk_mask u)) c st))"
      using False Some by (simp only: expire_chan_def if_False)
    ultimately show ?thesis
      using delete_self [OF assms(1-4) s] Some
      by (simp add: u_def)
  qed
qed

definition expire_one :: "mask_cfg \<Rightarrow> int \<Rightarrow> mkind \<Rightarrow> nat option \<Rightarrow> maskrec \<Rightarrow> mstate \<Rightarrow> mstate option" where
  "expire_one cfg now k w u st =
     (if is_expired now u
      then (case w of None \<Rightarrow> expire_global cfg now k (snd (mk_mask u)) st
            | Some c \<Rightarrow> expire_chan cfg now k c (snd (mk_mask u)) st)
      else Some st)"

lemma expire_loop_at:
  assumes "list_ok dead bnd us" "recs (get_masks k w st) = us" "us = pre @ u # suf"
  shows "expire_loop cfg now k w (Suc n) (Some (mk_ptr u)) st =
    Option.bind (expire_one cfg now k w u st) (expire_loop cfg now k w n (if suf = [] then None else Some (mk_ptr (hd suf))))"
proof -
  have tw: "length (takeWhile (\<lambda>v. mk_ptr v \<noteq> mk_ptr u) us) = length pre"
    using assms(1) unfolding assms(3) list_ok_def
    by (intro takeWhile_place) (auto simp: nth_append intro: nth_mem, metis imageI nth_mem)
  have nx: "(if Suc (length pre) < length us then Some (mk_ptr (us ! Suc (length pre))) else None) =
      (if suf = [] then None else Some (mk_ptr (hd suf)))"
    by (auto simp: assms(3) nth_append hd_conv_nth)
  have "us ! length pre = u" "length pre \<noteq> length us" by (simp_all add: assms(3))
  then show ?thesis
    unfolding expire_loop.simps assms(2) Let_def tw nx by (cases w) (simp_all add: expire_one_def)
qed

lemma expire_loop_drops:
  assumes "pton_ok cfg" "mstate_ok cfg st" "place_ok w st" "recs (get_masks k w st) = pre @ suf" "length suf \<le> n"
  shows "\<exists>st'. expire_loop cfg now k w n (if suf = [] then None else Some (mk_ptr (hd suf))) st = Some st' \<and>
    mstate_ok cfg st' \<and> only_list k w (pre @ filter (\<lambda>u. \<not> drops cfg now k w st u) suf) st st'"
  using assms
proof (induction suf arbitrary: st pre n)
  case Nil
  then show ?case by (simp add: only_list_def)
next
  case (Cons u suf)
  obtain n' where n: "n = Suc n'" "length suf \<le> n'" using Cons.prems(5) by (cases n) auto
  let ?us = "recs (get_masks k w st)" and ?i = "length pre"
  have us: "?us = pre @ u # suf" by (rule Cons.prems(4))
  have l: "list_ok (freed st) (next_ptr st) ?us"
    using mstate_okD(1) [OF Cons.prems(2,3), of k] by (simp add: masks_ok_def)
  have i: "?i < length ?us" "?us ! ?i = u" by (simp_all add: us)
  note at = expire_loop_at [OF l refl us, of cfg now n', folded n(1)]
  show ?case
  proof (cases "is_expired now u")
    case True
    obtain st1 where s1: "(case w of None \<Rightarrow> expire_global cfg now k (snd (mk_mask u)) st
        | Some c \<Rightarrow> expire_chan cfg now k c (snd (mk_mask u)) st) = Some st1" "mstate_ok cfg st1"
      "only_list k w (if drops cfg now k w st u then take ?i ?us @ drop (Suc ?i) ?us else ?us) st st1"
      using expire_step [OF Cons.prems(1-3) i(1), unfolded i(2), of now] True by auto
    let ?pre = "if drops cfg now k w st u then pre else pre @ [u]"
    have o: "only_list k w (?pre @ suf) st st1" using s1(3) by (auto simp: us)
    have w: "place_ok w st1" using o Cons.prems(3) unfolding only_list_def by (cases w) simp_all
    have d: "drops cfg now k w st1 = drops cfg now k w st"
      using only_drops [OF o Cons.prems(3)] .
    moreover obtain st' where "expire_loop cfg now k w n' (if suf = [] then None else Some (mk_ptr (hd suf))) st1 = Some st'"
      "mstate_ok cfg st'" "only_list k w (?pre @ filter (\<lambda>u. \<not> drops cfg now k w st1 u) suf) st1 st'"
      using Cons.IH [OF Cons.prems(1) s1(2) w, of ?pre n'] o n(2) by (auto simp: only_list_def)
    moreover have "?pre @ filter (\<lambda>u. \<not> drops cfg now k w st u) suf = pre @ filter (\<lambda>u. \<not> drops cfg now k w st u) (u # suf)"
      by simp
    ultimately have "\<exists>st'. expire_loop cfg now k w n' (if suf = [] then None else Some (mk_ptr (hd suf))) st1 = Some st' \<and>
        mstate_ok cfg st' \<and> only_list k w (pre @ filter (\<lambda>u. \<not> drops cfg now k w st u) (u # suf)) st st'"
      using only_list_trans [OF o] by metis
    then show ?thesis
      using s1(1) True at by (simp add: expire_one_def)
  next
    case False
    then have "\<not> drops cfg now k w st u" by (simp add: drops_def)
    then show ?thesis
      using Cons.IH [OF Cons.prems(1-3), of "pre @ [u]" n'] n(2) us at False by (simp add: expire_one_def)
  qed
qed

end
