(* ===== verification/MaskProps.thy ===== *)
theory MaskProps
  imports MaskTimed
begin

text \<open>
  Runs of the module: channels are added, masks are added, deleted, marked and expired in any order, while the server
  changes what is set on the channels.
\<close>

section \<open>The start\<close>

definition no_masks :: "64 word \<Rightarrow> masks" where
  "no_masks n = \<lparr>recs = [], mask_ht = Some (mask_htab_create n), ip_trie = None\<rparr>"

definition channels_start :: mstate where
  "channels_start = \<lparr>next_ptr = 0, freed = [], global_masks = (\<lambda>k. no_masks (case k of Ban \<Rightarrow> 64 | Exempt \<Rightarrow> 32 | Invite \<Rightarrow> 32)),
     chanset = [], lastdeletedmask = None, shared = [], mode_requests = []\<rparr>"

definition new_chan :: "string \<Rightarrow> mchan" where
  "new_chan dname = \<lparr>ch_dname = dname, ch_masks = (\<lambda>k. no_masks 16), ch_set = (\<lambda>k. []), ch_members = [], ch_inviteonly = False\<rparr>"

lemma masks_ok_none: "unat n \<le> 2 ^ 61 \<Longrightarrow> masks_ok cfg dead bnd (no_masks n)"
  using mask_keys.create [of n]
  by (auto simp: masks_ok_def no_masks_def list_ok_def trie_ok_def trie_tbl_ok_def trie_map_def table_ok_def
      mask_htab_create_def op_htab_create_def Let_def live_def empty_slot_def)

lemma owned_none [simp]: "owned (no_masks n) = {}" "ip_trie (no_masks n) = None" "recs (no_masks n) = []"
  by (simp_all add: owned_def no_masks_def)

lemma start_ok: "mstate_ok cfg channels_start"
  by (auto simp: mstate_ok_def place_ok_def channels_start_def get_masks_def masks_ok_none split: option.splits mkind.splits)

lemma new_chan_ok:
  assumes "mstate_ok cfg st"
  shows "mstate_ok cfg (st\<lparr>chanset := chanset st @ [new_chan d]\<rparr>)"
proof -
  let ?s = "st\<lparr>chanset := chanset st @ [new_chan d]\<rparr>"
  have p: "place_ok w ?s \<longleftrightarrow> place_ok w st \<or> w = Some (length (chanset st))" for w
    by (auto simp: place_ok_def split: option.splits)
  have g: "get_masks k w ?s = get_masks k w st" if "place_ok w st" for k w
    using that by (auto simp: get_masks_def place_ok_def nth_append split: option.splits)
  have n: "get_masks k (Some (length (chanset st))) ?s = no_masks 16" for k
    by (simp add: get_masks_def new_chan_def)
  show ?thesis
    using assms unfolding mstate_ok_def p by (auto simp: g n masks_ok_none)
qed

section \<open>The masks entered\<close>

lemma fit_mask_text:
  assumes "cstring ban" "length ban \<le> 196"
  shows "cstring (fit_mask ban)" "\<not> str_isdigit (fit_mask ban)"
proof -
  let ?f = "fix_broken_mask ban"
  have l: "length ?f \<le> 200"
    using assms(2) by (auto simp: fix_broken_mask_def Let_def split: option.splits)
  have "NUL \<notin> set ?f"
    using assms(1) by (auto simp: fix_broken_mask_def Let_def cstring_def dest: in_set_takeD in_set_dropD split: option.splits)
  moreover have "CHR ''@'' \<in> set ?f"
  proof (cases "strchr ban (CHR ''@'')")
    case (Some p)
    then have "ban ! p = CHR ''@''" "p < length ban" using strchr_Some [OF Some] by auto
    then have "CHR ''@'' \<in> set (drop p ban)" by (metis Cons_nth_drop_Suc list.set_intros(1))
    then show ?thesis using Some by (auto simp: fix_broken_mask_def Let_def dest: in_set_dropD)
  qed (auto simp: fix_broken_mask_def Let_def)
  moreover have "\<not> isdigit (CHR ''@'')" by code_simp
  ultimately show "cstring (fit_mask ban)" "\<not> str_isdigit (fit_mask ban)"
    using l by (auto simp: fit_mask_def Let_def str_isdigit_def cstring_def list_all_iff)
qed

section \<open>The timed checks\<close>

definition expired_lists :: "mask_cfg \<Rightarrow> int \<Rightarrow> mkind \<Rightarrow> nat option set \<Rightarrow> mstate \<Rightarrow> mstate \<Rightarrow> bool" where
  "expired_lists cfg now k W st st' \<longleftrightarrow> length (chanset st') = length (chanset st) \<and> ban_texts st' = ban_texts st \<and>
     (\<forall>k' w. place_ok w st \<longrightarrow>
        recs (get_masks k' w st') =
          (if k' = k \<and> w \<in> W then filter (\<lambda>u. \<not> drops cfg now k w st u) (recs (get_masks k' w st)) else recs (get_masks k' w st)))"

lemma place_len: "length (chanset st') = length (chanset st) \<Longrightarrow> place_ok w st' \<longleftrightarrow> place_ok w st"
  by (simp add: place_ok_def split: option.splits)

lemma drops_same:
  assumes "length (chanset st') = length (chanset st)" "ban_texts st' = ban_texts st" "place_ok w st"
  shows "drops cfg now k w st' = drops cfg now k w st"
  using assms still_banned_same [of st' st _ cfg] by (cases w) (simp_all add: drops_def fun_eq_iff)

lemma expired_lists_trans:
  assumes "expired_lists cfg now k W st st1" "expired_lists cfg now k V st1 st2" "W \<inter> V = {}"
  shows "expired_lists cfg now k (W \<union> V) st st2"
proof -
  have l: "length (chanset st1) = length (chanset st)" "ban_texts st1 = ban_texts st"
    using assms(1) by (simp_all add: expired_lists_def)
  have "recs (get_masks k' w st2) =
      (if k' = k \<and> w \<in> W \<union> V then filter (\<lambda>u. \<not> drops cfg now k w st u) (recs (get_masks k' w st)) else recs (get_masks k' w st))"
    if "place_ok w st" for k' w
    using assms that place_len [OF l(1)] drops_same [OF l that] by (auto simp: expired_lists_def)
  then show ?thesis using assms(1,2) by (simp add: expired_lists_def)
qed

lemma expire_list_lists:
  assumes "pton_ok cfg" "mstate_ok cfg st" "place_ok w st"
  shows "\<exists>st'. expire_list cfg now k w st = Some st' \<and> mstate_ok cfg st' \<and> expired_lists cfg now k {w} st st'"
  using expire_loop_drops [OF assms, of k "[]" "recs (get_masks k w st)" "length (recs (get_masks k w st))" now]
  by (auto simp: expire_list_def only_list_def expired_lists_def)

lemma expire_chans_lists:
  assumes "pton_ok cfg" "mstate_ok cfg st" "distinct is" "list_all (\<lambda>i. i < length (chanset st)) is"
  shows "\<exists>st'. expire_chans cfg now k is st = Some st' \<and> mstate_ok cfg st' \<and> expired_lists cfg now k (Some ` set is) st st'"
  using assms
proof (induction "is" arbitrary: st)
  case Nil
  then show ?case by (simp add: expired_lists_def)
next
  case (Cons i "is")
  obtain st1 where 1: "expire_list cfg now k (Some i) st = Some st1" "mstate_ok cfg st1" "expired_lists cfg now k {Some i} st st1"
    using expire_list_lists [of cfg st "Some i" now k] Cons.prems by auto
  then have "list_all (\<lambda>i. i < length (chanset st1)) is" using Cons.prems by (simp add: expired_lists_def)
  then obtain st2 where "expire_chans cfg now k is st1 = Some st2" "mstate_ok cfg st2"
    "expired_lists cfg now k (Some ` set is) st1 st2"
    using Cons.IH [of st1] Cons.prems 1(2) by auto
  then show ?case using 1(1) expired_lists_trans [OF 1(3)] Cons.prems(3) by force
qed

lemma check_lists:
  assumes "pton_ok cfg" "mstate_ok cfg st"
  shows "\<exists>st'. check_expired_masks cfg now k st = Some st' \<and> mstate_ok cfg st' \<and> expired_lists cfg now k (Collect (\<lambda>w. place_ok w st)) st st'"
proof -
  obtain st1 where 1: "expire_list cfg now k None st = Some st1" "mstate_ok cfg st1" "expired_lists cfg now k {None} st st1"
    using expire_list_lists [OF assms, of None] by auto
  have l: "length (chanset st1) = length (chanset st)" using 1(3) by (simp add: expired_lists_def)
  obtain st2 where 2: "expire_chans cfg now k [0..<length (chanset st1)] st1 = Some st2" "mstate_ok cfg st2"
    "expired_lists cfg now k (Some ` set [0..<length (chanset st1)]) st1 st2"
    using expire_chans_lists [OF assms(1) 1(2), of "[0..<length (chanset st1)]" now k] by (auto simp: list_all_iff)
  have "{None} \<union> Some ` set [0..<length (chanset st1)] = Collect (\<lambda>w. place_ok w st)"
  proof (rule set_eqI)
    show "w \<in> {None} \<union> Some ` set [0..<length (chanset st1)] \<longleftrightarrow> w \<in> Collect (\<lambda>w. place_ok w st)" for w
      by (cases w) (auto simp: l)
  qed
  then show ?thesis using 1(1) 2 expired_lists_trans [OF 1(3) 2(3)] by (auto simp: check_expired_masks_def)
qed

lemma check_grows:
  assumes "expired_lists cfg now k W st st'"
  shows "grows 0 st st'"
  using assms by (auto simp: grows_def expired_lists_def intro: length_filter_le)

section \<open>Calls\<close>

text \<open>What the rest of the bot asks of the module, and what the server makes known.\<close>

datatype mask_call =
    AddChan string
  | AddMask mkind "nat option" string string string int int32
  | DelMask mkind "nat option" string bool
  | StickMask mkind "nat option" string int string
  | TimedCheck mkind
  | ServerNews nat "mkind \<Rightarrow> masklist list" "chmember list" bool

definition u_addmask :: "mask_cfg \<Rightarrow> int \<Rightarrow> mkind \<Rightarrow> nat option \<Rightarrow> string \<Rightarrow> string \<Rightarrow> string \<Rightarrow> int \<Rightarrow> int32 \<Rightarrow> mstate \<Rightarrow> (mstate \<times> int) option" where
  "u_addmask cfg now k = (case k of Ban \<Rightarrow> u_addban cfg now | Exempt \<Rightarrow> u_addexempt cfg now | Invite \<Rightarrow> u_addinvite cfg now)"

fun mask_step :: "mask_cfg \<Rightarrow> int \<Rightarrow> mask_call \<Rightarrow> mstate \<Rightarrow> mstate option" where
  "mask_step cfg now (AddChan d) st = Some (st\<lparr>chanset := chanset st @ [new_chan d]\<rparr>)"
| "mask_step cfg now (AddMask k w m from note expire flags) st = map_option fst (u_addmask cfg now k w m from note expire flags st)"
| "mask_step cfg now (DelMask k w who doit) st = map_option fst (u_delmask cfg k w who doit st)"
| "mask_step cfg now (StickMask k w uhost sticky botcmd) st = Some (fst (u_setsticky_mask cfg k w uhost sticky botcmd st))"
| "mask_step cfg now (TimedCheck k) st =
     (case k of Ban \<Rightarrow> check_expired_bans cfg now st | Exempt \<Rightarrow> check_expired_exempts cfg now st
      | Invite \<Rightarrow> check_expired_invites cfg now st)"
| "mask_step cfg now (ServerNews i bs ms ionly) st =
     Some (st\<lparr>chanset := (chanset st)[i := (chanset st ! i)\<lparr>ch_set := bs, ch_members := ms, ch_inviteonly := ionly\<rparr>]\<rparr>)"

text \<open>A call names a list that exists and, when it adds a mask, a text of at most 196 characters.\<close>

fun call_ok :: "mask_call \<Rightarrow> mstate \<Rightarrow> bool" where
  "call_ok (AddMask k w m from note expire flags) st \<longleftrightarrow> place_ok w st \<and> cstring m \<and> length m \<le> 196"
| "call_ok (DelMask k w who doit) st \<longleftrightarrow> place_ok w st"
| "call_ok (StickMask k w uhost sticky botcmd) st \<longleftrightarrow> place_ok w st"
| "call_ok (ServerNews i bs ms ionly) st \<longleftrightarrow> i < length (chanset st)"
| "call_ok c st \<longleftrightarrow> True"

inductive masks_reach :: "mask_cfg \<Rightarrow> nat \<Rightarrow> mstate \<Rightarrow> bool" for cfg where
  start: "masks_reach cfg 0 channels_start"
| call: "masks_reach cfg n st \<Longrightarrow> call_ok c st \<Longrightarrow> mask_step cfg now c st = Some st' \<Longrightarrow> masks_reach cfg (Suc n) st'"

text \<open>When \<open>u_addban\<close> and its siblings turn a mask away.\<close>

definition refused :: "mask_cfg \<Rightarrow> int \<Rightarrow> mkind \<Rightarrow> nat option \<Rightarrow> string \<Rightarrow> int \<Rightarrow> mstate \<Rightarrow> bool" where
  "refused cfg now k w m expire st \<longleftrightarrow> list_full k w st \<or>
     k = Ban \<and> ((case own_host cfg of None \<Rightarrow> False | Some me \<Rightarrow> match_addr cfg (fit_mask m) me) \<or> expire = now)"

lemma u_addmask_cases:
  "map_option fst (u_addmask cfg now k w m from note expire flags st) =
     (if refused cfg now k w m expire st then Some st else enter_mask cfg now k w (fit_mask m) from note expire flags st)"
  by (cases k) (auto simp: u_addmask_def u_addban_def u_addexempt_def u_addinvite_def refused_def Let_def option.map_comp comp_def option.map_ident)

definition sizes_ok :: "nat \<Rightarrow> mstate \<Rightarrow> bool" where
  "sizes_ok n st \<longleftrightarrow> (\<forall>k w. place_ok w st \<longrightarrow> length (recs (get_masks k w st)) \<le> n)"

lemma sizes_grow: "sizes_ok n st \<Longrightarrow> grows m st st' \<Longrightarrow> m \<le> 1 \<Longrightarrow> sizes_ok (Suc n) st'"
proof -
  assume a: "sizes_ok n st" "grows m st st'" "m \<le> 1"
  have "length (recs (get_masks k w st')) \<le> Suc n" if "place_ok w st'" for k w
  proof -
    have w: "place_ok w st" using that place_grows [OF a(2)] by simp
    then have "length (recs (get_masks k w st')) \<le> length (recs (get_masks k w st)) + m" "length (recs (get_masks k w st)) \<le> n"
      using a(1,2) by (simp_all add: grows_def sizes_ok_def)
    then show ?thesis using a(3) by linarith
  qed
  then show "sizes_ok (Suc n) st'" by (simp add: sizes_ok_def)
qed

lemma news_same:
  "same_lists st (st\<lparr>chanset := (chanset st)[i := (chanset st ! i)\<lparr>ch_set := bs, ch_members := ms, ch_inviteonly := ionly\<rparr>]\<rparr>)"
  by (cases "i < length (chanset st)"; rule same_listsI)
    (auto simp: list_eq_iff_nth_eq nth_list_update list_update_beyond)

text \<open>A step either adds a mask that is listed, or returns and keeps the invariant.\<close>

definition adds_listed :: "mask_cfg \<Rightarrow> int \<Rightarrow> mask_call \<Rightarrow> mstate \<Rightarrow> bool" where
  "adds_listed cfg now c st \<longleftrightarrow>
     (case c of AddMask k w m from note expire flags \<Rightarrow>
        \<not> refused cfg now k w m expire st \<and> find_mask (recs (get_masks k w st)) (fit_mask m) \<noteq> None
      | _ \<Rightarrow> False)"

lemma step_ok:
  assumes p: "pton_ok cfg" and m: "mstate_ok cfg st" and n: "sizes_ok n st" "n < 2 ^ 60" and c: "call_ok c st"
  shows "if adds_listed cfg now c st then mask_step cfg now c st = None
    else \<exists>st'. mask_step cfg now c st = Some st' \<and> mstate_ok cfg st' \<and> sizes_ok (Suc n) st'"
proof (cases c)
  case (AddChan d)
  let ?s = "st\<lparr>chanset := chanset st @ [new_chan d]\<rparr>"
  have "length (recs (get_masks k w ?s)) \<le> Suc n" if "place_ok w ?s" for k w
  proof (cases "place_ok w st")
    case True
    then have "get_masks k w ?s = get_masks k w st"
      by (cases w) (simp_all add: get_masks_def nth_append)
    then show ?thesis using n(1) True by (simp add: sizes_ok_def le_SucI)
  next
    case False
    then have "w = Some (length (chanset st))" using that by (cases w) auto
    then show ?thesis by (simp add: get_masks_def new_chan_def)
  qed
  then have "sizes_ok (Suc n) ?s" by (simp add: sizes_ok_def)
  then show ?thesis using AddChan new_chan_ok [OF m, of d] by (simp add: adds_listed_def)
next
  case (AddMask k w t "from" "note" expire flags)
  then have w: "place_ok w st" and t: "cstring (fit_mask t)" "\<not> str_isdigit (fit_mask t)" using c fit_mask_text by auto
  have l: "length (recs (get_masks k w st)) < 2 ^ 60" using n w le_less_trans unfolding sizes_ok_def by blast
  show ?thesis
  proof (cases "refused cfg now k w t expire st")
    case True
    then show ?thesis using AddMask m sizes_grow [OF n(1) grows_refl, of 0]
      by (simp add: adds_listed_def u_addmask_cases)
  next
    case False
    show ?thesis
    proof (cases "find_mask (recs (get_masks k w st)) (fit_mask t)")
      case None
      obtain st' where e: "enter_mask cfg now k w (fit_mask t) from note expire flags st = Some st'"
        using enter_mask_new [OF p m w t(1) None l t(2)] by blast
      then show ?thesis
        using enter_mask_grows [OF p m w t(1) l t(2) e] sizes_grow [OF n(1), of 1] False AddMask None
        by (simp add: adds_listed_def u_addmask_cases)
    next
      case (Some u)
      then show ?thesis
        using enter_mask_again [OF m w t(1), where k = k] False AddMask by (simp add: adds_listed_def u_addmask_cases)
    qed
  qed
next
  case (DelMask k w who doit)
  then show ?thesis
    using u_delmask_ok [OF p m, of w k who doit] sizes_grow [OF n(1), of 0] c by (auto simp: adds_listed_def)
next
  case (StickMask k w uhost sticky botcmd)
  then show ?thesis
    using u_setsticky_ok [OF m, of w k uhost sticky botcmd] sizes_grow [OF n(1), of 0] c by (auto simp: adds_listed_def)
next
  case (TimedCheck k)
  obtain st' where s: "check_expired_masks cfg now k st = Some st'" "mstate_ok cfg st'" "sizes_ok (Suc n) st'"
    using check_lists [OF p m, of now k] check_grows sizes_grow [OF n(1), of 0] by blast
  have "sizes_ok (Suc n) st" using sizes_grow [OF n(1) grows_refl, of 0] by simp
  then show ?thesis
    using s m TimedCheck
    by (cases k) (simp_all add: adds_listed_def check_expired_bans_def check_expired_exempts_def check_expired_invites_def)
next
  case (ServerNews i bs ms ionly)
  then show ?thesis
    using mstate_ok_same [OF m news_same] sizes_grow [OF n(1) grows_same [OF news_same], of 0] by (simp add: adds_listed_def)
qed

lemma reach_ok:
  assumes "masks_reach cfg n st" "pton_ok cfg" "n < 2 ^ 60"
  shows "mstate_ok cfg st \<and> sizes_ok n st"
  using assms(1,3)
proof induction
  case start
  then show ?case
    using start_ok by (auto simp: sizes_ok_def channels_start_def [abs_def] get_masks_def place_ok_def split: option.splits mkind.splits)
next
  case (call n st c now st')
  then show ?case using step_ok [OF assms(2), of st n c now] by (simp split: if_splits)
qed

end
