(* ===== verification/MaskClaims.thy ===== *)
theory MaskClaims
  imports MaskProps
begin

text \<open>The properties of the persistent mask lists.\<close>

section \<open>A concrete setting\<close>

definition demo_pton :: pton where
  "demo_pton v6 s = (if v6 then None else if s = ''10.0.0.0'' then Some [10, 0, 0, 0]
     else if s = ''10.1.2.3'' then Some [10, 1, 2, 3] else None)"

definition demo_cfg :: mask_cfg where
  "demo_cfg = \<lparr>noshare = False, cidr_support = True, own_host = None, own_nick = ''Lamest'', force_expire = False,
     use_exempts = True, use_invites = True, lib_pton = demo_pton\<rparr>"

lemma demo_pton_ok: "pton_ok demo_cfg"
  by (auto simp: pton_ok_def demo_cfg_def demo_pton_def addr_len_def split: if_splits)

lemma demo_block: "block demo_cfg (fit_mask ''bad!*@10.0.0.0/8'') = Some (False, [False, False, False, False, True, False, True, False])"
  by code_simp

definition demo_chan :: mstate where
  "demo_chan = channels_start\<lparr>chanset := [new_chan ''#eggdrop'']\<rparr>"

lemma demo_chan_reach: "masks_reach demo_cfg 1 demo_chan"
  using masks_reach.call [OF masks_reach.start, of "AddChan ''#eggdrop''" demo_cfg 0 demo_chan]
  by (simp add: demo_chan_def channels_start_def)

lemma demo_empty: "recs (get_masks k (Some 0) demo_chan) = []" "recs (get_masks k None demo_chan) = []" "place_ok (Some 0) demo_chan"
  "length (chanset demo_chan) = 1" "\<not> refused demo_cfg 0 k (Some 0) m e demo_chan \<or> k = Ban \<and> e = 0"
  by (simp_all add: demo_chan_def channels_start_def get_masks_def new_chan_def refused_def list_full_def
      count_masklist_def channels_ban_list_limit_def demo_cfg_def)

section \<open>Entering a mask\<close>

lemma u_addmask_entered:
  "\<not> refused cfg now k w m expire st \<Longrightarrow> u_addmask cfg now k w m from note expire flags st =
     map_option (\<lambda>st. (st, 1)) (enter_mask cfg now k w (fit_mask m) from note expire flags st)"
  by (cases k) (auto simp: u_addmask_def u_addban_def u_addexempt_def u_addinvite_def refused_def Let_def)

lemma add_new:
  assumes "masks_reach cfg n st" "pton_ok cfg" "n < 2 ^ 60" "place_ok w st" "cstring m" "length m \<le> 196"
    "\<not> refused cfg now k w m expire st" "find_mask (recs (get_masks k w st)) (fit_mask m) = None"
  shows "\<exists>st' m'. u_addmask cfg now k w m from note expire flags st = Some (st', 1) \<and>
    (\<forall>k' w'. place_ok w' st \<longrightarrow> get_masks k' w' st' = (if k' = k \<and> w' = w then m' else get_masks k' w' st)) \<and>
    recs m' = new_rec now (next_ptr st + 1) (next_ptr st, fit_mask m) from note expire flags # recs (get_masks k w st) \<and>
    (\<forall>v6 bs. w \<noteq> None \<longrightarrow> block cfg (fit_mask m) = Some (v6, bs) \<longrightarrow> trie_map (ip_trie m') v6 bs = Some (next_ptr st + 1))"
proof -
  have ok: "mstate_ok cfg st" "sizes_ok n st" using reach_ok [OF assms(1-3)] by simp_all
  have l: "length (recs (get_masks k w st)) < 2 ^ 60" using ok(2) assms(3,4) le_less_trans unfolding sizes_ok_def by blast
  note t = fit_mask_text [OF assms(5,6)]
  obtain st' m' where e: "enter_mask cfg now k w (fit_mask m) from note expire flags st = Some st'"
    "same_lists (put_masks k w m' (st\<lparr>next_ptr := next_ptr st + 2\<rparr>)) st'"
    "recs m' = new_rec now (next_ptr st + 1) (next_ptr st, fit_mask m) from note expire flags # recs (get_masks k w st)"
    "trie_map (ip_trie m') = (if w = None then trie_map (ip_trie (get_masks k w st))
      else case block cfg (fit_mask m) of None \<Rightarrow> trie_map (ip_trie (get_masks k w st))
           | Some (v6, bs) \<Rightarrow> (trie_map (ip_trie (get_masks k w st)))(v6 := (trie_map (ip_trie (get_masks k w st)) v6)(bs \<mapsto> next_ptr st + 1)))"
    using enter_mask_new [OF assms(2) ok(1) assms(4) t(1) assms(8) l t(2), of now "from" "note" expire flags] by blast
  have x: "st\<lparr>freed := freed st, next_ptr := next_ptr st + 2\<rparr> = st\<lparr>next_ptr := next_ptr st + 2\<rparr>" by simp
  have "get_masks k' w' st' = (if k' = k \<and> w' = w then m' else get_masks k' w' st)" if "place_ok w' st" for k' w'
    using get_after_put [OF assms(4) that, where m = m' and d = "freed st" and b = "next_ptr st + 2"] e(2) unfolding x by blast
  then show ?thesis using e(1,3,4) u_addmask_entered [OF assms(7)] by (intro exI [of _ st'] exI [of _ m']) auto
qed

section \<open>The tables agree with the lists\<close>

text \<open>
  C8: after any run of the module's own calls (\<open>masks_reach\<close>: adding, deleting, marking, matching and the timed
  checks, but not the restoring of masks from the user file nor \<open>clear_userlist\<close>, which fill and free the lists
  without their tables), looking a mask up through the hash table of a list gives what a search of the list
  gives, and never reads freed memory: \<open>u_equals_mask\<close> and \<open>u_sticky_mask\<close> are functions of the list.
\<close>
theorem mask_lookups_agree:
  assumes "masks_reach cfg n st" "pton_ok cfg" "n < 2 ^ 60" "place_ok w st" "cstring key"
  shows "u_equals_mask (freed st) (get_masks k w st) key =
      Some (case find_mask (recs (get_masks k w st)) key of
              None \<Rightarrow> 0 | Some u \<Rightarrow> if has (mk_flags u) MASKREC_PERM then 2 else 1) \<and>
    u_sticky_mask (freed st) (get_masks k w st) key =
      Some (case find_mask (recs (get_masks k w st)) key of None \<Rightarrow> 0 | Some u \<Rightarrow> mk_flags u AND MASKREC_STICKY)"
proof -
  have "masks_ok cfg (freed st) (next_ptr st) (get_masks k w st)"
    using reach_ok [OF assms(1-3)] assms(4) mstate_okD(1) by blast
  then have "lookup_mask (freed st) (get_masks k w st) key = Some (find_mask (recs (get_masks k w st)) key)"
    using assms(5) by (intro lookup_mask_list) (auto simp: masks_ok_def)
  then show ?thesis by (simp add: u_equals_mask_def u_sticky_mask_def)
qed

theorem mask_lookups_agree_witness:
  "u_equals_mask (freed demo_chan) (get_masks Ban (Some 0) demo_chan) ''*!*@x'' = Some 0"
  using mask_lookups_agree [OF demo_chan_reach demo_pton_ok _ demo_empty(3), of "''*!*@x''" Ban]
  by (simp add: demo_empty cstring_def find_mask_def)

text \<open>
  C7: the one call of the module that does not return is the one that adds a mask which is in the list: the record found
  is reused and the text it owned is freed, and the entry then made in the hash table is compared with the entry of the
  text that was freed.  Every other addition, deletion, marking and timed check returns.
\<close>
theorem mask_step_returns:
  assumes "masks_reach cfg n st" "pton_ok cfg" "n < 2 ^ 60" "call_ok c st"
  shows "mask_step cfg now c st = None \<longleftrightarrow> adds_listed cfg now c st"
  using step_ok [OF assms(2), of st n c now] reach_ok [OF assms(1-3)] assms(3,4) by (auto split: if_splits)

theorem mask_step_returns_witness:
  "\<exists>st. mask_step demo_cfg 0 (AddMask Exempt None ''bad!*@10.0.0.0/8'' ''me'' ''out'' 0 0) st = None \<and>
     mask_step demo_cfg 0 (TimedCheck Ban) st \<noteq> None"
proof -
  let ?c = "AddMask Exempt None ''bad!*@10.0.0.0/8'' ''me'' ''out'' 0 0"
  have r: "\<not> refused demo_cfg 0 Exempt None m 0 st" for m st by (simp add: refused_def list_full_def)
  have c: "cstring ''bad!*@10.0.0.0/8''" by (simp add: cstring_def)
  have e: "recs (get_masks Exempt None channels_start) = []" by (simp add: channels_start_def get_masks_def)
  have new: "mk_mask (new_rec 0 p key f n e fl) = key" for p key f n e fl by (simp add: new_rec_def Let_def)
  obtain st where st: "u_addmask demo_cfg 0 Exempt None ''bad!*@10.0.0.0/8'' ''me'' ''out'' 0 0 channels_start = Some (st, 1)"
    "map (snd \<circ> mk_mask) (recs (get_masks Exempt None st)) = [fit_mask ''bad!*@10.0.0.0/8'']"
    using add_new [OF masks_reach.start demo_pton_ok _ _ c _ r, of "''me''" "''out''" 0]
    by (auto simp: e new find_mask_def)
  then have "mask_step demo_cfg 0 ?c channels_start = Some st" by simp
  moreover have "call_ok ?c channels_start" using c by simp
  ultimately have m: "masks_reach demo_cfg (Suc 0) st" using masks_reach.call [OF masks_reach.start] by blast
  have "rfc_casecmp (fit_mask ''bad!*@10.0.0.0/8'') (fit_mask ''bad!*@10.0.0.0/8'') = 0" by code_simp
  then have "find_mask (recs (get_masks Exempt None st)) (fit_mask ''bad!*@10.0.0.0/8'') \<noteq> None"
    using st(2) by (auto simp: find_mask_def map_eq_Cons_conv)
  then show ?thesis
    using mask_step_returns [OF m demo_pton_ok, of ?c 0] mask_step_returns [OF m demo_pton_ok, of "TimedCheck Ban" 0] c r
    by (intro exI [of _ st]) (simp add: adds_listed_def del: mask_step.simps)
qed

text \<open>
  a mask added to a list that does not have it is at the head of the list with the flags and the note the
  arguments stand for, an expiry of zero making it permanent and a star before the note sticky; the rest of the list and
  the other lists stay.
\<close>
theorem u_addmask_enters:
  assumes "masks_reach cfg n st" "pton_ok cfg" "n < 2 ^ 60" "place_ok w st" "cstring m" "length m \<le> 196"
    "\<not> refused cfg now k w m expire st" "find_mask (recs (get_masks k w st)) (fit_mask m) = None"
  shows "\<exists>st'. u_addmask cfg now k w m from note expire flags st = Some (st', 1) \<and>
    (\<forall>k' w'. place_ok w' st \<longrightarrow>
       recs (get_masks k' w' st') = (if k' = k \<and> w' = w
         then new_rec now (next_ptr st + 1) (next_ptr st, fit_mask m) from note expire flags # recs (get_masks k w st)
         else recs (get_masks k' w' st)))"
proof -
  from add_new [OF assms, of "from" "note" flags] obtain st' m' where
    "u_addmask cfg now k w m from note expire flags st = Some (st', 1)"
    "\<forall>k' w'. place_ok w' st \<longrightarrow> get_masks k' w' st' = (if k' = k \<and> w' = w then m' else get_masks k' w' st)"
    "recs m' = new_rec now (next_ptr st + 1) (next_ptr st, fit_mask m) from note expire flags # recs (get_masks k w st)"
    by blast
  then show ?thesis by (intro exI [of _ st']) auto
qed

theorem u_addmask_enters_witness:
  "\<exists>st'. u_addmask demo_cfg 0 Ban (Some 0) ''bad!*@10.0.0.0/8'' ''me'' ''*out'' 60 0 demo_chan = Some (st', 1) \<and>
     map mk_desc (recs (get_masks Ban (Some 0) st')) = [''out''] \<and> map mk_flags (recs (get_masks Ban (Some 0) st')) = [MASKREC_STICKY]"
proof -
  have "\<not> refused demo_cfg 0 Ban (Some 0) ''bad!*@10.0.0.0/8'' 60 demo_chan" "cstring ''bad!*@10.0.0.0/8''"
    using demo_empty(5) [of Ban "''bad!*@10.0.0.0/8''" 60] by (simp_all add: cstring_def)
  from u_addmask_enters [OF demo_chan_reach demo_pton_ok _ demo_empty(3) this(2) _ this(1), of "''me''" "''*out''" 0]
  show ?thesis using demo_empty(3) by (auto simp: demo_empty find_mask_def new_rec_def Let_def c0_def has_def)
qed

section \<open>The prefix tables\<close>

text \<open>
  C9: a ban of a channel whose host is a CIDR block matches, in the check that uses the prefix table, everybody whose address is
  in the block, whatever nick and user name the mask asks for, and whether or not \<open>cidr-support\<close> is on.  The comment of
  \<open>u_match_mask_trie\<close> says that it matches like \<open>u_match_mask\<close>, and the documentation of the setting that blocks match
  only when it is on.
\<close>
theorem cidr_ban_covers_block:
  assumes "masks_reach cfg n st" "pton_ok cfg" "n < 2 ^ 60" "i < length (chanset st)" "cstring m" "length m \<le> 196"
    "\<not> refused cfg now k (Some i) m expire st" "find_mask (recs (get_masks k (Some i) st)) (fit_mask m) = None"
    "block cfg (fit_mask m) = Some (v6, prefix_bits a bits)"
    "strchr user (CHR ''@'') = Some p" "host_addr cfg (drop (Suc p) user) = Some (v6, a)" "bits \<le> 8 * addr_len v6"
  shows "\<exists>st'. u_addmask cfg now k (Some i) m from note expire flags st = Some (st', 1) \<and>
    u_match_mask_trie cfg (get_masks k (Some i) st') user"
proof -
  have w: "place_ok (Some i) st" using assms(4) by simp
  from add_new [OF assms(1-3) w assms(5-8), of "from" "note" flags] obtain st' m' where a:
    "u_addmask cfg now k (Some i) m from note expire flags st = Some (st', 1)"
    "get_masks k (Some i) st' = m'" "trie_map (ip_trie m') v6 (prefix_bits a bits) = Some (next_ptr st + 1)"
    using w assms(9) by auto
  then have "ip_trie_match cfg (ip_trie m') (drop (Suc p) user) \<noteq> None"
    unfolding ip_trie_match_iff [OF assms(2)] using assms(11,12) by (metis option.distinct(1))
  then show ?thesis using a(1,2) assms(10) by (simp add: u_match_mask_trie_def)
qed

theorem cidr_ban_covers_block_witness:
  "\<exists>st'. u_addmask demo_cfg 0 Ban (Some 0) ''bad!*@10.0.0.0/8'' ''me'' ''out'' 60 0 demo_chan = Some (st', 1) \<and>
     u_match_mask_trie demo_cfg (get_masks Ban (Some 0) st') ''good!user@10.1.2.3''"
proof -
  have "\<not> refused demo_cfg 0 Ban (Some 0) ''bad!*@10.0.0.0/8'' 60 demo_chan" "cstring ''bad!*@10.0.0.0/8''"
    using demo_empty(5) [of Ban "''bad!*@10.0.0.0/8''" 60] by (simp_all add: cstring_def)
  moreover have "block demo_cfg (fit_mask ''bad!*@10.0.0.0/8'') = Some (False, prefix_bits [10, 1, 2, 3] 8)"
    unfolding demo_block by code_simp
  moreover have "strchr ''good!user@10.1.2.3'' (CHR ''@'') = Some 9" by code_simp
  moreover have "host_addr demo_cfg (drop (Suc 9) ''good!user@10.1.2.3'') = Some (False, [10, 1, 2, 3])" by code_simp
  ultimately show ?thesis
    using cidr_ban_covers_block [OF demo_chan_reach demo_pton_ok, of 0 "''bad!*@10.0.0.0/8''" 0 Ban 60]
    by (simp add: demo_empty find_mask_def addr_len_def)
qed

text \<open>
  C10: the check with the prefix table never misses what the list alone matches, and what it matches beyond that is
  an address in the block of a mask that is in the list.
\<close>
theorem match_mask_trie_sound:
  assumes "masks_reach cfg n st" "pton_ok cfg" "n < 2 ^ 60" "place_ok w st"
  shows "(u_match_mask cfg (recs (get_masks k w st)) user \<longrightarrow> u_match_mask_trie cfg (get_masks k w st) user) \<and>
    (u_match_mask_trie cfg (get_masks k w st) user \<longrightarrow>
       u_match_mask cfg (recs (get_masks k w st)) user \<or>
       (\<exists>u p v6 a bits. u \<in> set (recs (get_masks k w st)) \<and> strchr user (CHR ''@'') = Some p \<and>
          host_addr cfg (drop (Suc p) user) = Some (v6, a) \<and> block cfg (snd (mk_mask u)) = Some (v6, prefix_bits a bits)))"
proof -
  let ?m = "get_masks k w st"
  have t: "trie_ok cfg (recs ?m) (ip_trie ?m)"
    using reach_ok [OF assms(1-3)] assms(4) mstate_okD(1) by (auto simp: masks_ok_def)
  have "\<exists>u v6 a bits. u \<in> set (recs ?m) \<and> host_addr cfg host = Some (v6, a) \<and> block cfg (snd (mk_mask u)) = Some (v6, prefix_bits a bits)"
    if "ip_trie_match cfg (ip_trie ?m) host \<noteq> None" for host
    using that t unfolding ip_trie_match_iff [OF assms(2)] trie_ok_def by blast
  then show ?thesis by (auto simp: u_match_mask_trie_def u_match_mask_def split: option.splits)
qed

theorem match_mask_trie_sound_witness: "\<not> u_match_mask_trie demo_cfg (get_masks Ban (Some 0) demo_chan) ''good!user@10.1.2.3''"
  using match_mask_trie_sound [OF demo_chan_reach demo_pton_ok _ demo_empty(3), of Ban "''good!user@10.1.2.3''"]
  by (simp add: demo_empty u_match_mask_def)

section \<open>Deleting by number\<close>

lemma nth_mask_count: "nth_mask j i us = (if 0 \<le> j \<and> j < int (length us) then (i + nat j, 0) else (i + length us, j - int (length us)))"
  by (induction us arbitrary: j i) auto

text \<open>
  \<open>u_delban\<close> with a number deletes the ban at that place, counted from one, when there is one.  Otherwise it deletes
  nothing and returns the length of the list minus the number: negative for a number past the end, but the length
  of the list for the number zero, which the callers take for success.
\<close>
theorem delban_number:
  assumes "str_isdigit who"
  shows "u_delban cfg w who doit st =
    (let n = int (length (recs (get_masks Ban w st))); k = egg_atoi who
     in if 1 \<le> k \<and> k \<le> n
        then if doit then map_option (\<lambda>st. (st, 1)) (remove_rec cfg Ban w (nat (k - 1)) st) else Some (st, 1)
        else Some (st, n - k))"
proof -
  have "\<not> isdigit (CHR ''!'')" by code_simp
  then have "strchr who (CHR ''!'') = None" using assms by (auto simp: strchr_None str_isdigit_def list_all_iff)
  then show ?thesis
    using assms by (auto simp: u_delban_def u_delmask_def del_target_def nth_mask_count Let_def)
qed

theorem delban_number_witness:
  "u_delban demo_cfg None ''0'' True (channels_start\<lparr>global_masks := (\<lambda>k. (no_masks 64)\<lparr>recs := [new_rec 0 1 (0, ''*!*@a'') [] [] 0 0]\<rparr>)\<rparr>) =
    Some (channels_start\<lparr>global_masks := (\<lambda>k. (no_masks 64)\<lparr>recs := [new_rec 0 1 (0, ''*!*@a'') [] [] 0 0]\<rparr>)\<rparr>, 1)"
proof -
  have "str_isdigit ''0''" "egg_atoi ''0'' = 0" by code_simp+
  then show ?thesis using delban_number [of "''0''" demo_cfg None True] by (simp add: get_masks_def)
qed

section \<open>The timed checks\<close>

text \<open>
  C13: the timed check of the bans returns, leaves in every ban list exactly the records that are permanent or still to
  expire, in their order, and changes no list of another kind.
\<close>
theorem check_expired_bans_lists:
  assumes "masks_reach cfg n st" "pton_ok cfg" "n < 2 ^ 60"
  shows "\<exists>st'. check_expired_bans cfg now st = Some st' \<and>
    (\<forall>k w. place_ok w st \<longrightarrow>
       recs (get_masks k w st') = (if k = Ban then filter (\<lambda>u. \<not> is_expired now u) (recs (get_masks k w st))
         else recs (get_masks k w st)))"
proof -
  obtain st' where c: "check_expired_masks cfg now Ban st = Some st'" "expired_lists cfg now Ban (Collect (\<lambda>w. place_ok w st)) st st'"
    using check_lists [OF assms(2), of st now Ban] reach_ok [OF assms] by auto
  have "(\<lambda>u. \<not> drops cfg now Ban w st u) = (\<lambda>u. \<not> is_expired now u)" for w by (simp add: drops_def)
  then show ?thesis using c by (intro exI [of _ st']) (simp add: check_expired_bans_def expired_lists_def)
qed

theorem check_expired_bans_lists_witness:
  "\<exists>st'. check_expired_bans demo_cfg 5 demo_chan = Some st' \<and> recs (get_masks Ban (Some 0) st') = []"
  using check_expired_bans_lists [OF demo_chan_reach demo_pton_ok, of 5] demo_empty(3) by (fastforce simp: demo_empty)

text \<open>
  C14: an exempt that has expired is taken off the list of a channel only when no ban set there matches it; the global list
  loses its expired exempts even then, although the documentation of \<open>newexempt\<close> says that an exempt stays until the
  corresponding ban is removed.
\<close>
theorem check_expired_exempts_lists:
  assumes "masks_reach cfg n st" "pton_ok cfg" "n < 2 ^ 60" "use_exempts cfg"
  shows "\<exists>st'. check_expired_exempts cfg now st = Some st' \<and>
    recs (get_masks Exempt None st') = filter (\<lambda>u. \<not> is_expired now u) (recs (get_masks Exempt None st)) \<and>
    (\<forall>i < length (chanset st). recs (get_masks Exempt (Some i) st') =
       filter (\<lambda>u. \<not> is_expired now u \<or> still_banned cfg (snd (mk_mask u)) (chanset st ! i)) (recs (get_masks Exempt (Some i) st)))"
proof -
  obtain st' where c: "check_expired_masks cfg now Exempt st = Some st'" "expired_lists cfg now Exempt (Collect (\<lambda>w. place_ok w st)) st st'"
    using check_lists [OF assms(2), of st now Exempt] reach_ok [OF assms(1-3)] by auto
  have "(\<lambda>u. \<not> drops cfg now Exempt None st u) = (\<lambda>u. \<not> is_expired now u)"
    "(\<lambda>u. \<not> drops cfg now Exempt (Some i) st u) = (\<lambda>u. \<not> is_expired now u \<or> still_banned cfg (snd (mk_mask u)) (chanset st ! i))" for i
    by (auto simp: drops_def)
  then show ?thesis using c assms(4) by (intro exI [of _ st']) (simp add: check_expired_exempts_def expired_lists_def)
qed

theorem check_expired_exempts_lists_witness:
  "\<exists>st'. check_expired_exempts demo_cfg 5 demo_chan = Some st' \<and> recs (get_masks Exempt (Some 0) st') = []"
  using check_expired_exempts_lists [OF demo_chan_reach demo_pton_ok, of 5] by (fastforce simp: demo_empty demo_cfg_def)

end
