(* ===== verification/UserRec.thy ===== *)
theory UserRec
  imports FlagsText MatchAddr StrUtil HtabMap "HOL-Library.Monad_Syntax"
begin

text \<open>
  The user list of \<open>src/src/userrec.c\<close>: the linked list of user records, the hash table from handles to records, the
  record found last, the hostmasks of a user (\<open>hosts_set\<close> of \<open>userent.c\<close>), and the merge sort that orders the list before
  it is written.

  A record is its address; the heap maps the addresses that are allocated to their contents.  The hash table keeps pointers
  to the handles \<open>inside\<close> the records, so the text of a key is read from the heap when the key is compared; the key of a record
  that was freed cannot be read, which is \<open>None\<close>.
\<close>

section \<open>The state\<close>

record userrec =
  u_handle :: string
  u_flags :: "64 word"
  u_flags_udef :: "64 word"
  u_botfl :: intptr
  u_hosts :: "string list"
  u_dirty :: bool

text \<open>The key of an entry, and the key a search brings.\<close>

datatype hkey = Own nat | Text string

text \<open>A connection: its nick, the user logged in, and whether it is a chat or waits for the password of one.\<close>

record udcc =
  d_nick :: string
  d_user :: "nat option"
  d_chat :: bool

record ustate =
  u_heap :: "nat \<rightharpoonup> userrec"
  u_next :: nat
  userlist :: "nat list"
  user_handle_dict :: "(hkey, nat) op_htab option"
  lastuser :: "nat option"
  u_dcc :: "udcc list"
  u_shared :: "string list"

record ucfg =
  u_noshare :: bool
  u_cidr :: bool
  default_flags :: int32
  default_uflags :: int32

abbreviation HANDLELEN :: nat where "HANDLELEN \<equiv> 32"
abbreviation EGG_BG_HANDLE :: string where "EGG_BG_HANDLE \<equiv> ''-HQ''"
abbreviation BADHANDCHARS :: string where "BADHANDCHARS \<equiv> ''-,+*=:!.@#;$%&''"

definition uflag :: "userrec \<Rightarrow> int32 \<Rightarrow> bool" where
  "uflag u f \<longleftrightarrow> u_flags u AND ucast f \<noteq> 0"

definition bflag :: "userrec \<Rightarrow> intptr \<Rightarrow> bool" where
  "bflag u f \<longleftrightarrow> u_botfl u AND f \<noteq> 0"

definition u_share :: "ucfg \<Rightarrow> string \<Rightarrow> ustate \<Rightarrow> ustate" where
  "u_share cfg out st = st\<lparr>u_shared := u_shared st @ [out @ [CHR 0x0A]]\<rparr>"

definition rmspace :: "string \<Rightarrow> string" where
  "rmspace s = dropWhile isspace (rev (dropWhile isspace (rev s)))"

section \<open>The table of handles\<close>

definition text_of :: "(nat \<rightharpoonup> userrec) \<Rightarrow> hkey \<Rightarrow> string" where
  "text_of heap k = (case k of Text s \<Rightarrow> s | Own p \<Rightarrow> (case heap p of Some u \<Rightarrow> u_handle u | None \<Rightarrow> []))"

definition hkey_hash :: "(nat \<rightharpoonup> userrec) \<Rightarrow> hkey \<Rightarrow> 64 word" where
  "hkey_hash heap k = op_htab_hash_istr (text_of heap k)"

definition hkey_eq :: "(nat \<rightharpoonup> userrec) \<Rightarrow> hkey \<Rightarrow> hkey \<Rightarrow> bool" where
  "hkey_eq heap a b \<longleftrightarrow> htab_eq_istr (text_of heap a) (text_of heap b)"

text \<open>The table as it reads its keys now.\<close>

definition at_heap :: "(nat \<rightharpoonup> userrec) \<Rightarrow> (hkey, nat) op_htab \<Rightarrow> (hkey, nat) op_htab" where
  "at_heap heap ht = ht\<lparr>ht_hash_fn := hkey_hash heap, ht_eq_fn := hkey_eq heap\<rparr>"

definition dict_reads :: "(nat \<rightharpoonup> userrec) \<Rightarrow> (hkey, nat) op_htab \<Rightarrow> string \<Rightarrow> bool" where
  "dict_reads heap ht key \<longleftrightarrow>
     list_all (\<lambda>s. hs_hash s \<noteq> fix_hash (op_htab_hash_istr key) \<or>
       (case hs_key s of Some (Own p) \<Rightarrow> heap p \<noteq> None | _ \<Rightarrow> True)) (ht_slots ht)"

definition dict_get :: "(nat \<rightharpoonup> userrec) \<Rightarrow> (hkey, nat) op_htab \<Rightarrow> string \<Rightarrow> nat option option" where
  "dict_get heap ht key = (if dict_reads heap ht key then Some (op_htab_get (at_heap heap ht) (Text key)) else None)"

definition dict_set :: "(nat \<rightharpoonup> userrec) \<Rightarrow> (hkey, nat) op_htab \<Rightarrow> nat \<Rightarrow> (hkey, nat) op_htab option" where
  "dict_set heap ht p =
     (if dict_reads heap ht (text_of heap (Own p)) then map_option fst (op_htab_set (at_heap heap ht) (Own p) (Some p)) else None)"

definition dict_del :: "(nat \<rightharpoonup> userrec) \<Rightarrow> (hkey, nat) op_htab \<Rightarrow> string \<Rightarrow> (hkey, nat) op_htab option" where
  "dict_del heap ht key =
     (if dict_reads heap ht key then map_option fst (op_htab_del (at_heap heap ht) (Text key)) else None)"

text \<open>The branch \<open>if (user_handle_dict)\<close>.\<close>

definition if_dict :: "((hkey, nat) op_htab \<Rightarrow> (hkey, nat) op_htab option) \<Rightarrow> (hkey, nat) op_htab option \<Rightarrow> (hkey, nat) op_htab option option" where
  "if_dict f d = (case d of None \<Rightarrow> Some None | Some ht \<Rightarrow> map_option Some (f ht))"

fun dict_fill :: "(nat \<rightharpoonup> userrec) \<Rightarrow> nat list \<Rightarrow> (hkey, nat) op_htab \<Rightarrow> (hkey, nat) op_htab option" where
  "dict_fill heap [] ht = Some ht"
| "dict_fill heap (p # ps) ht = do { ht \<leftarrow> dict_set heap ht p; dict_fill heap ps ht }"

definition user_dict_rebuild :: "ustate \<Rightarrow> (hkey, nat) op_htab option" where
  "user_dict_rebuild st =
     dict_fill (u_heap st) (userlist st) (op_htab_create (hkey_hash (u_heap st)) (hkey_eq (u_heap st)) 64)"

section \<open>Looking a handle up\<close>

text \<open>A walk of a list; \<open>None\<close> when it meets a record that was freed.\<close>

fun find_handle :: "(nat \<rightharpoonup> userrec) \<Rightarrow> nat list \<Rightarrow> string \<Rightarrow> nat option option" where
  "find_handle heap [] key = Some None"
| "find_handle heap (p # ps) key =
     (case heap p of None \<Rightarrow> None
      | Some u \<Rightarrow> if op_strcasecmp (u_handle u) key = 0 then Some (Some p) else find_handle heap ps key)"

definition check_dcclist_hand :: "udcc list \<Rightarrow> string \<Rightarrow> nat option" where
  "check_dcclist_hand ds key =
     (case find (\<lambda>d. op_strcasecmp (d_nick d) key = 0) ds of None \<Rightarrow> None | Some d \<Rightarrow> d_user d)"

text \<open>\<open>get_user_by_handle(userlist, handle)\<close>, after the tests of the argument.\<close>

definition lookup_handle :: "string \<Rightarrow> ustate \<Rightarrow> (ustate \<times> nat option) option" where
  "lookup_handle key st = do {
     hit \<leftarrow> (case lastuser st of
               None \<Rightarrow> Some False
             | Some p \<Rightarrow> map_option (\<lambda>u. op_strcasecmp (u_handle u) key = 0) (u_heap st p));
     if hit then Some (st, lastuser st)
     else case check_dcclist_hand (u_dcc st) key of
       Some p \<Rightarrow> Some (st, Some p)
     | None \<Rightarrow> do {
         dict \<leftarrow> (if user_handle_dict st = None \<and> userlist st \<noteq> [] then map_option Some (user_dict_rebuild st)
                   else Some (user_handle_dict st));
         let st = st\<lparr>user_handle_dict := dict\<rparr>;
         case dict of
           Some ht \<Rightarrow> do {
             r \<leftarrow> dict_get (u_heap st) ht key;
             Some (if r = None then st else st\<lparr>lastuser := r\<rparr>, r)
           }
         | None \<Rightarrow> do {
             r \<leftarrow> find_handle (u_heap st) (userlist st) key;
             Some (if r = None then st else st\<lparr>lastuser := r\<rparr>, r)
           }
       }
   }"

definition get_user_by_handle :: "string \<Rightarrow> ustate \<Rightarrow> (ustate \<times> nat option) option" where
  "get_user_by_handle handle st =
     (let key = rmspace handle
      in if key = [] \<or> c0 key = CHR ''*'' then Some (st, None) else lookup_handle key st)"

text \<open>
  \<open>correct_handle\<close>: the size given to \<open>op_strlcpy\<close> is that of a pointer.
\<close>

definition correct_handle :: "string \<Rightarrow> ustate \<Rightarrow> (ustate \<times> string) option" where
  "correct_handle handle st = do {
     (st, r) \<leftarrow> get_user_by_handle handle st;
     let handle = rmspace handle;
     case r of
       None \<Rightarrow> Some (st, handle)
     | Some p \<Rightarrow> map_option (\<lambda>u. (st, op_strlcpy handle (u_handle u) 8)) (u_heap st p)
   }"

section \<open>Hostmasks\<close>

definition op_vec_remove :: "'a list \<Rightarrow> nat \<Rightarrow> 'a list" where
  "op_vec_remove v i = (if length v \<le> i then v else take i v @ drop (Suc i) v)"

definition op_vec_push :: "'a list \<Rightarrow> 'a \<Rightarrow> 'a list" where
  "op_vec_push v x = v @ [x]"

text \<open>The loops from the last element down that remove what \<open>p\<close> holds of, with the number removed.\<close>

fun vec_purge :: "('a \<Rightarrow> bool) \<Rightarrow> nat \<Rightarrow> 'a list \<Rightarrow> 'a list \<times> nat" where
  "vec_purge p 0 v = (v, 0)"
| "vec_purge p (Suc i) v =
     (if p (v ! i) then let (v, n) = vec_purge p i (op_vec_remove v i) in (v, n + 1) else vec_purge p i v)"

definition no_commas :: "string \<Rightarrow> string" where
  "no_commas s = map (\<lambda>c. if c = CHR '','' then CHR ''?'' else c) s"

definition hosts_set :: "bool \<Rightarrow> string \<Rightarrow> string list \<Rightarrow> string list" where
  "hosts_set cidr buf v =
     (if op_strcasecmp buf ''none'' = 0 then []
      else let host = no_commas buf;
               v = fst (vec_purge (\<lambda>e. addr_match cidr host e True True \<noteq> 0) (length v) v)
           in op_vec_push v host)"

definition set_hosts :: "bool \<Rightarrow> string \<Rightarrow> userrec \<Rightarrow> userrec" where
  "set_hosts cidr buf u = u\<lparr>u_hosts := hosts_set cidr buf (u_hosts u), u_dirty := True\<rparr>"

text \<open>The best match: the loops over the users and over the masks of one.\<close>

fun best_mask :: "ucfg \<Rightarrow> string \<Rightarrow> nat \<Rightarrow> string list \<Rightarrow> nat option \<times> int \<Rightarrow> nat option \<times> int" where
  "best_mask cfg host p [] (ret, cnt) = (ret, cnt)"
| "best_mask cfg host p (m # ms) (ret, cnt) =
     (let i = addr_match (u_cidr cfg) m host True False
      in best_mask cfg host p ms (if cnt < i then (Some p, i) else (ret, cnt)))"

fun best_user :: "ucfg \<Rightarrow> (nat \<rightharpoonup> userrec) \<Rightarrow> string \<Rightarrow> nat list \<Rightarrow> nat option \<times> int \<Rightarrow> (nat option \<times> int) option" where
  "best_user cfg heap host [] best = Some best"
| "best_user cfg heap host (p # ps) best =
     (case heap p of None \<Rightarrow> None | Some u \<Rightarrow> best_user cfg heap host ps (best_mask cfg host p (u_hosts u) best))"

definition get_user_by_host :: "ucfg \<Rightarrow> string \<Rightarrow> ustate \<Rightarrow> (ustate \<times> nat option) option" where
  "get_user_by_host cfg host st =
     (let host2 = rmspace (op_strlcpy [] host UHOSTLEN)
      in if host2 = [] then Some (st, None)
         else map_option (\<lambda>(ret, cnt). (if ret = None then st else st\<lparr>lastuser := ret\<rparr>, ret))
           (best_user cfg (u_heap st) host2 (userlist st) (None, 0)))"

section \<open>Adding, deleting and renaming\<close>

definition user_text :: "string option \<Rightarrow> string" where
  "user_text host = (case host of Some h \<Rightarrow> if h = [] then ''none'' else no_commas (op_strlcpy [] h UHOSTLEN) | None \<Rightarrow> ''none'')"

text \<open>The record that \<open>adduser\<close> makes.\<close>

definition new_user :: "ucfg \<Rightarrow> string \<Rightarrow> string option \<Rightarrow> int32 \<Rightarrow> userrec" where
  "new_user cfg handle host flags =
     (let own = flags \<noteq> USER_DEFAULT
      in set_hosts (u_cidr cfg) (user_text host)
           \<lparr>u_handle = op_strlcpy [] handle (HANDLELEN + 1), u_flags = (if own then scast flags else scast (default_flags cfg)),
            u_flags_udef = (if own then 0 else scast (default_uflags cfg)), u_botfl = 0, u_hosts = [], u_dirty = True\<rparr>)"

definition share_user :: "ucfg \<Rightarrow> string \<Rightarrow> string option \<Rightarrow> string \<Rightarrow> int32 \<Rightarrow> userrec \<Rightarrow> ustate \<Rightarrow> ustate" where
  "share_user cfg handle host pass flags u st =
     (if \<not> u_noshare cfg \<and> c0 handle \<noteq> CHR ''*'' \<and> flags AND USER_UNSHARED = 0 then
        u_share cfg (''n '' @ handle @ '' '' @ user_text host @ '' '' @ pass @ '' '' @
          fst (build_flags (zero_fr\<lparr>fr_match := FR_GLOBAL, fr_global := ucast (u_flags u), fr_udef_global := ucast (u_flags_udef u)\<rparr>) None)) st
      else st)"

text \<open>
  \<open>userlist = adduser(userlist, ...)\<close>.  The walk to the end starts at \<open>lastuser\<close>, which must be in the list.
  The first user of an empty list is not entered into the table.
\<close>

definition adduser :: "ucfg \<Rightarrow> string \<Rightarrow> string option \<Rightarrow> string \<Rightarrow> int32 \<Rightarrow> ustate \<Rightarrow> ustate option" where
  "adduser cfg handle host pass flags st =
     (let p = u_next st; u = new_user cfg handle host flags;
          st = share_user cfg handle host pass flags u (st\<lparr>u_heap := (u_heap st)(p \<mapsto> u), u_next := p + 1\<rparr>)
      in if userlist st = [] then Some (st\<lparr>userlist := [p]\<rparr>)
         else if (case lastuser st of None \<Rightarrow> False | Some x \<Rightarrow> x \<notin> set (userlist st)) then None
         else do {
           dict \<leftarrow> if_dict (\<lambda>ht. dict_set (u_heap st) ht p) (user_handle_dict st);
           Some (st\<lparr>userlist := userlist st @ [p], lastuser := Some p, user_handle_dict := dict\<rparr>)
         })"

definition deluser :: "ucfg \<Rightarrow> string \<Rightarrow> ustate \<Rightarrow> (ustate \<times> int) option" where
  "deluser cfg handle st = do {
     r \<leftarrow> find_handle (u_heap st) (userlist st) handle;
     case r of
       None \<Rightarrow> Some (st, 0)
     | Some p \<Rightarrow> do {
         u \<leftarrow> u_heap st p;
         let st = (if \<not> u_noshare cfg \<and> c0 handle \<noteq> CHR ''*'' \<and> \<not> uflag u USER_UNSHARED then u_share cfg (''k '' @ handle) st else st);
         let st = st\<lparr>userlist := remove1 p (userlist st),
                     u_dcc := map (\<lambda>d. if d_user d = Some p then d\<lparr>d_user := None\<rparr> else d) (u_dcc st)\<rparr>;
         dict \<leftarrow> if_dict (\<lambda>ht. dict_del (u_heap st) ht handle) (user_handle_dict st);
         Some (st\<lparr>user_handle_dict := dict, u_heap := (u_heap st)(p := None), lastuser := None\<rparr>, 1)
       }
   }"

text \<open>The connections of a user that was renamed.\<close>

definition rename_dcc :: "string \<Rightarrow> string \<Rightarrow> udcc \<Rightarrow> udcc" where
  "rename_dcc old newh d =
     (if d_chat d \<and> op_strcasecmp (d_nick d) old = 0 then d\<lparr>d_nick := op_strlcpy (d_nick d) newh (HANDLELEN + 1)\<rparr> else d)"

text \<open>
  \<open>change_handle\<close> writes the new handle into the record, whose old text is the key in the table, before it deletes the old
  key.  The second character of an empty handle is read.
\<close>

definition change_handle :: "ucfg \<Rightarrow> nat \<Rightarrow> string \<Rightarrow> ustate \<Rightarrow> (ustate \<times> int) option" where
  "change_handle cfg p newh st = do {
     u \<leftarrow> u_heap st p;
     if op_strcasecmp (u_handle u) EGG_BG_HANDLE = 0 then Some (st, 0)
     else if newh = [] then None
     else if tl newh = [] \<and> strchr BADHANDCHARS (c0 newh) \<noteq> None then Some (st, 0)
     else do {
       let st = (if \<not> u_noshare cfg \<and> \<not> uflag u USER_UNSHARED then u_share cfg (''h '' @ u_handle u @ '' '' @ newh) st else st);
       let s = op_strlcpy [] (u_handle u) (HANDLELEN + 1);
       let heap = (u_heap st)(p \<mapsto> u\<lparr>u_handle := op_strlcpy (u_handle u) newh (HANDLELEN + 1), u_dirty := True\<rparr>);
       dict \<leftarrow> if_dict (\<lambda>ht. do { ht \<leftarrow> dict_del heap ht s; dict_set heap ht p }) (user_handle_dict st);
       Some (st\<lparr>u_heap := heap, user_handle_dict := dict, u_dcc := map (rename_dcc s newh) (u_dcc st)\<rparr>, 1)
     }
   }"

text \<open>\<open>del_host_or_account\<close> for a hostmask: when nothing was removed, all masks are dropped.\<close>

definition delhost_by_handle :: "ucfg \<Rightarrow> string \<Rightarrow> string \<Rightarrow> ustate \<Rightarrow> (ustate \<times> int) option" where
  "delhost_by_handle cfg handle host st = do {
     (st, r) \<leftarrow> get_user_by_handle handle st;
     case r of
       None \<Rightarrow> Some (st, 0)
     | Some p \<Rightarrow> do {
         u \<leftarrow> u_heap st p;
         let (v, i) = vec_purge (\<lambda>e. rfc_casecmp e host = 0) (length (u_hosts u)) (u_hosts u);
         let u' = (if i = 0 then set_hosts (u_cidr cfg) ''none'' u else u\<lparr>u_hosts := v, u_dirty := True\<rparr>);
         let st = st\<lparr>u_heap := (u_heap st)(p \<mapsto> u')\<rparr>;
         Some (if \<not> u_noshare cfg \<and> i \<noteq> 0 \<and> \<not> uflag u USER_UNSHARED
               then u_share cfg (''-h '' @ rmspace handle @ '' '' @ host) st else st, int i)
       }
   }"

text \<open>\<open>add_host_or_account\<close> for a hostmask: an unknown handle is a null pointer, read unless sharing is off.\<close>

definition addhost_by_handle :: "ucfg \<Rightarrow> string \<Rightarrow> string \<Rightarrow> ustate \<Rightarrow> ustate option" where
  "addhost_by_handle cfg handle host st = do {
     (st, r) \<leftarrow> get_user_by_handle handle st;
     case r of
       None \<Rightarrow> if u_noshare cfg then Some st else None
     | Some p \<Rightarrow> do {
         u \<leftarrow> u_heap st p;
         let st = st\<lparr>u_heap := (u_heap st)(p \<mapsto> set_hosts (u_cidr cfg) host u)\<rparr>;
         Some (if \<not> u_noshare cfg \<and> \<not> uflag u USER_UNSHARED
               then u_share cfg ((if uflag u USER_BOT then ''+bh '' else ''+h '') @ rmspace handle @ '' '' @
                 (if op_strcasecmp host ''none'' = 0 then host else no_commas host)) st else st)
       }
   }"

definition clear_userlist :: "ustate \<Rightarrow> ustate" where
  "clear_userlist st =
     st\<lparr>u_heap := (\<lambda>p. if p \<in> set (userlist st) then None else u_heap st p), userlist := [],
        u_dcc := map (\<lambda>d. d\<lparr>d_user := None\<rparr>) (u_dcc st), lastuser := None, user_handle_dict := None\<rparr>"

section \<open>Sorting\<close>

definition sort_compare :: "userrec \<Rightarrow> userrec \<Rightarrow> bool" where
  "sort_compare a b =
     (if u_flags a AND u_flags b AND ucast USER_BOT \<noteq> 0 then
        if \<not> bflag a BOT_HUB \<and> bflag b BOT_HUB then True
        else if bflag a BOT_HUB \<and> \<not> bflag b BOT_HUB then False
        else if \<not> bflag a BOT_ALT \<and> bflag b BOT_ALT then True
        else if bflag a BOT_ALT \<and> \<not> bflag b BOT_ALT then False
        else if \<not> bflag a BOT_LEAF \<and> bflag b BOT_LEAF then True
        else if bflag a BOT_LEAF \<and> \<not> bflag b BOT_LEAF then False
        else 0 < op_strcasecmp (u_handle a) (u_handle b)
      else
        if \<not> uflag a USER_BOT \<and> uflag b USER_BOT then True
        else if uflag a USER_BOT \<and> \<not> uflag b USER_BOT then False
        else if \<not> uflag a USER_OWNER \<and> uflag b USER_OWNER then True
        else if uflag a USER_OWNER \<and> \<not> uflag b USER_OWNER then False
        else if \<not> uflag a USER_MASTER \<and> uflag b USER_MASTER then True
        else if uflag a USER_MASTER \<and> \<not> uflag b USER_MASTER then False
        else if \<not> uflag a USER_OP \<and> uflag b USER_OP then True
        else if uflag a USER_OP \<and> \<not> uflag b USER_OP then False
        else if \<not> uflag a USER_HALFOP \<and> uflag b USER_HALFOP then True
        else if uflag a USER_HALFOP \<and> \<not> uflag b USER_HALFOP then False
        else 0 < op_strcasecmp (u_handle a) (u_handle b))"

fun ms_merge :: "('a \<Rightarrow> 'a \<Rightarrow> bool) \<Rightarrow> 'a list \<Rightarrow> 'a list \<Rightarrow> 'a list" where
  "ms_merge gt (a # as) (b # bs) =
     (if gt a b then b # ms_merge gt (a # as) bs else a # ms_merge gt as (b # bs))"
| "ms_merge gt [] bs = bs"
| "ms_merge gt as [] = as"

text \<open>\<open>cnt\<close> is the length of the list: the two halves are cut at \<open>cnt / 2\<close>.\<close>

function ms_sort :: "('a \<Rightarrow> 'a \<Rightarrow> bool) \<Rightarrow> 'a list \<Rightarrow> nat \<Rightarrow> 'a list" where
  "ms_sort gt head cnt =
     (if cnt < 2 \<or> head = [] then head
      else ms_merge gt (ms_sort gt (take (cnt div 2) head) (cnt div 2))
             (ms_sort gt (drop (cnt div 2) head) (cnt - cnt div 2)))"
  by auto
termination
  by (relation "measure (\<lambda>(gt, head, cnt). cnt)") auto

declare ms_sort.simps [simp del]

definition sort_userlist :: "ustate \<Rightarrow> ustate" where
  "sort_userlist st =
     (let n = length (userlist st)
      in if 1 < n then st\<lparr>userlist := ms_sort (\<lambda>a b. sort_compare (the (u_heap st a)) (the (u_heap st b))) (userlist st) n\<rparr> else st)"

end
