(* ===== verification/UserSort.thy ===== *)
theory UserSort
  imports UserRec
begin

text \<open>
  The merge sort of the user list is the stable sort by a key: bots before users, then the flags in order of rank, then
  the handle without regard to case.
\<close>

section \<open>Merge sort\<close>

lemma ms_merge_Nil [simp]: "ms_merge gt as [] = as"
  by (cases "as") auto

lemma ms_merge_mset [simp]: "mset (ms_merge gt as bs) = mset as + mset bs"
  by (induction gt "as" bs rule: ms_merge.induct) auto

lemma ms_merge_set [simp]: "set (ms_merge gt as bs) = set as \<union> set bs"
  by (metis ms_merge_mset set_mset_mset set_mset_union)

lemma merge_sorted:
  fixes key :: "'a \<Rightarrow> 'k::linorder"
  assumes "\<And>a b. a \<in> set as \<Longrightarrow> b \<in> set bs \<Longrightarrow> gt a b \<longleftrightarrow> key b < key a" "sorted (map key as)" "sorted (map key bs)"
  shows "sorted (map key (ms_merge gt as bs))"
  using assms
  by (induction gt "as" bs rule: ms_merge.induct) (force simp: not_less)+

lemma merge_stable:
  fixes key :: "'a \<Rightarrow> 'k::linorder"
  assumes "\<And>a b. a \<in> set as \<Longrightarrow> b \<in> set bs \<Longrightarrow> gt a b \<longleftrightarrow> key b < key a" "sorted (map key as)" "sorted (map key bs)"
  shows "filter (\<lambda>x. key x = k) (ms_merge gt as bs) = filter (\<lambda>x. key x = k) as @ filter (\<lambda>x. key x = k) bs"
  using assms
proof (induction gt "as" bs rule: ms_merge.induct)
  case (1 gt a as' b bs')
  show ?case
  proof (cases "gt a b")
    case True
    then have lt: "key b < key a" using 1(3) by simp
    have "filter (\<lambda>x. key x = k) (a # as') = []" if "key b = k"
      using lt 1(4) that by (auto simp: filter_empty_conv)
    moreover have "filter (\<lambda>x. key x = k) (ms_merge gt (a # as') bs') = filter (\<lambda>x. key x = k) (a # as') @ filter (\<lambda>x. key x = k) bs'"
      using 1(1) [OF True] 1(3-5) by simp
    ultimately show ?thesis using True by simp
  next
    case False
    then show ?thesis using 1(2) [OF False] 1(3-5) by simp
  qed
qed auto

lemma ms_sort_key:
  fixes key :: "'a \<Rightarrow> 'k::linorder"
  assumes "\<And>a b. a \<in> set xs \<Longrightarrow> b \<in> set xs \<Longrightarrow> gt a b \<longleftrightarrow> key b < key a"
  shows "ms_sort gt xs (length xs) = sort_key key xs"
  using assms
proof (induction "length xs" arbitrary: xs rule: less_induct)
  case less
  show ?case
  proof (cases "length xs < 2 \<or> xs = []")
    case True
    then have "ms_sort gt xs (length xs) = xs" by (subst ms_sort.simps) simp
    moreover have "sort_key key xs = xs" using True by (cases xs; cases "tl xs") auto
    ultimately show ?thesis by simp
  next
    case False
    let ?n = "length xs div 2"
    have n: "?n < length xs" "length xs - ?n < length xs" "0 < ?n" using False by auto
    have s: "set (take ?n xs) \<subseteq> set xs" "set (drop ?n xs) \<subseteq> set xs" by (simp_all add: set_take_subset set_drop_subset)
    have a: "ms_sort gt (take ?n xs) ?n = sort_key key (take ?n xs)"
      using less.hyps [of "take ?n xs"] less.prems n s by (simp add: subset_iff min_absorb2)
    have b: "ms_sort gt (drop ?n xs) (length xs - ?n) = sort_key key (drop ?n xs)"
      using less.hyps [of "drop ?n xs"] less.prems n s by (simp add: subset_iff)
    have m: "ms_sort gt xs (length xs) = ms_merge gt (sort_key key (take ?n xs)) (sort_key key (drop ?n xs))"
      using False a b by (subst ms_sort.simps) simp
    have g: "gt a b \<longleftrightarrow> key b < key a" if "a \<in> set (sort_key key (take ?n xs))" "b \<in> set (sort_key key (drop ?n xs))" for a b
      using less.prems that s by (auto simp: subset_iff)
    have "mset (take ?n xs) + mset (drop ?n xs) = mset xs" by (metis append_take_drop_id mset_append)
    moreover have "filter (\<lambda>x. key x = k) (take ?n xs) @ filter (\<lambda>x. key x = k) (drop ?n xs) = filter (\<lambda>x. key x = k) xs" for k
      by (metis append_take_drop_id filter_append)
    moreover have e: "(\<lambda>x. key k = key x) = (\<lambda>x. key x = key k)" for k by auto
    moreover have "sorted (map key (ms_merge gt (sort_key key (take ?n xs)) (sort_key key (drop ?n xs))))"
      by (rule merge_sorted) (use g in simp_all)
    moreover have "filter (\<lambda>x. key x = k) (ms_merge gt (sort_key key (take ?n xs)) (sort_key key (drop ?n xs))) =
        filter (\<lambda>x. key x = k) (sort_key key (take ?n xs)) @ filter (\<lambda>x. key x = k) (sort_key key (drop ?n xs))" for k
      by (rule merge_stable) (use g in simp_all)
    ultimately have "sort_key key xs = ms_merge gt (sort_key key (take ?n xs)) (sort_key key (drop ?n xs))"
      by (intro properties_for_sort_key) (simp_all add: sort_key_stable e)
    then show ?thesis using m by simp
  qed
qed

section \<open>The order of users\<close>

text \<open>The flags that count, highest first; a set flag comes first.\<close>

definition rank_flags :: "userrec \<Rightarrow> bool list" where
  "rank_flags u =
     (if uflag u USER_BOT then [True, bflag u BOT_HUB, bflag u BOT_ALT, bflag u BOT_LEAF]
      else [False, uflag u USER_OWNER, uflag u USER_MASTER, uflag u USER_OP, uflag u USER_HALFOP])"

definition rank :: "userrec \<Rightarrow> string" where
  "rank u = map (\<lambda>b. if b then CHR ''0'' else CHR ''1'') (rank_flags u) @ map tolower (u_handle u)"

lemma bot_and: "u_flags a AND u_flags b AND ucast USER_BOT \<noteq> 0 \<longleftrightarrow> uflag a USER_BOT \<and> uflag b USER_BOT"
proof -
  have "x AND (ucast USER_BOT :: 64 word) \<noteq> 0 \<longleftrightarrow> bit x 1" for x :: "64 word"
  proof -
    have e: "(ucast USER_BOT :: 64 word) = 2 ^ 1" by (simp add: USER_BOT_def)
    show ?thesis unfolding e and_exp_eq_0_iff_not_bit by simp
  qed
  then show ?thesis by (simp add: uflag_def bit_and_iff flip: and.assoc)
qed

lemma flag_less:
  "((if x then CHR ''0'' else CHR ''1'') # xs) < ((if y then CHR ''0'' else CHR ''1'') # ys) \<longleftrightarrow> (if x = y then xs < ys else x)"
  by simp

lemma flag_chain: "(if \<not> x \<and> y then True else if x \<and> \<not> y then False else r) \<longleftrightarrow> (if y = x then r else y)"
  by auto

lemma sort_compare_rank:
  assumes "cstring (u_handle a)" "cstring (u_handle b)"
  shows "sort_compare a b \<longleftrightarrow> rank b < rank a"
proof -
  have h: "0 < op_strcasecmp (u_handle a) (u_handle b) \<longleftrightarrow> map tolower (u_handle b) < map tolower (u_handle a)"
    using op_strcasecmp_eq0 [OF assms] op_strcasecmp_less [OF assms] by (metis linorder_neqE_linordered_idom linorder_neqE order_less_imp_not_less)
  show ?thesis
    by (cases "uflag a USER_BOT"; cases "uflag b USER_BOT")
      (simp_all add: sort_compare_def bot_and h rank_def rank_flags_def flag_less flag_chain)
qed

text \<open>
  C17: the merge sort that orders the user list before it is written is the stable sort by rank: bots first, hubs before alternates
  before leaves before other bots, then owners, masters, ops, halfops and other users, each by handle without regard to case.
\<close>
theorem sort_userlist_sorts:
  assumes "\<And>p. p \<in> set (userlist st) \<Longrightarrow> \<exists>u. u_heap st p = Some u \<and> cstring (u_handle u)"
  shows "sort_userlist st = st\<lparr>userlist := sort_key (\<lambda>p. rank (the (u_heap st p))) (userlist st)\<rparr>"
proof -
  have "ms_sort (\<lambda>a b. sort_compare (the (u_heap st a)) (the (u_heap st b))) (userlist st) (length (userlist st)) =
      sort_key (\<lambda>p. rank (the (u_heap st p))) (userlist st)"
    using assms by (intro ms_sort_key sort_compare_rank) (metis option.sel)+
  moreover have "sort_key f xs = xs" if "length xs \<le> 1" for f :: "nat \<Rightarrow> string" and xs
    using that by (cases xs) auto
  ultimately show ?thesis by (simp add: sort_userlist_def Let_def)
qed

definition plain_user :: "string \<Rightarrow> int32 \<Rightarrow> userrec" where
  "plain_user h fl = \<lparr>u_handle = h, u_flags = ucast fl, u_flags_udef = 0, u_botfl = 0, u_hosts = [], u_dirty = False\<rparr>"

definition demo_users :: ustate where
  "demo_users = \<lparr>u_heap = [1 \<mapsto> plain_user ''zed'' 0, 2 \<mapsto> plain_user ''Amy'' 0, 3 \<mapsto> plain_user ''hub'' USER_BOT],
     u_next = 4, userlist = [1, 2, 3], user_handle_dict = None, lastuser = None, u_dcc = [], u_shared = []\<rparr>"

theorem sort_userlist_sorts_witness: "userlist (sort_userlist demo_users) = [3, 2, 1]"
proof -
  have "rank (plain_user ''zed'' 0) = ''11111zed''" "rank (plain_user ''Amy'' 0) = ''11111amy''"
    "rank (plain_user ''hub'' USER_BOT) = ''0111hub''" by code_simp+
  then have "sort_key (\<lambda>p. rank (the (u_heap demo_users p))) [1, 2, 3] = [3, 2, 1]"
    by (simp add: demo_users_def less_eq_char_def less_char_def)
  moreover have "\<exists>u. u_heap demo_users p = Some u \<and> cstring (u_handle u)" if "p \<in> set (userlist demo_users)" for p
    using that by (auto simp: demo_users_def plain_user_def cstring_def)
  ultimately show ?thesis using sort_userlist_sorts [of demo_users] by (simp add: demo_users_def)
qed

end
