(* ===== verification/UserHosts.thy ===== *)
theory UserHosts
  imports UserSort
begin

text \<open>The hostmasks of a user: what adding and deleting one leaves, and which user a host belongs to.\<close>

section \<open>Purging a vector\<close>

lemma vec_purge_take:
  "i \<le> length v \<Longrightarrow> vec_purge p i v = (filter (\<lambda>x. \<not> p x) (take i v) @ drop i v, length (filter p (take i v)))"
proof (induction i arbitrary: v)
  case (Suc i)
  then have i: "i < length v" by simp
  have t: "take (Suc i) v = take i v @ [v ! i]" using i by (rule take_Suc_conv_app_nth)
  show ?case
  proof (cases "p (v ! i)")
    case True
    have r: "op_vec_remove v i = take i v @ drop (Suc i) v" using i by (simp add: op_vec_remove_def)
    have "vec_purge p i (op_vec_remove v i) = (filter (\<lambda>x. \<not> p x) (take i v) @ drop (Suc i) v, length (filter p (take i v)))"
      using Suc.IH [of "op_vec_remove v i"] i by (simp add: r)
    then show ?thesis using True by (simp add: t)
  next
    case False
    then show ?thesis using Suc.IH [of v] i Cons_nth_drop_Suc [OF i] by (simp add: t)
  qed
qed simp

lemma vec_purge_all: "vec_purge p (length v) v = (filter (\<lambda>x. \<not> p x) v, length (filter p v))"
  using vec_purge_take [of "length v" v p] by simp

text \<open>
  adding a hostmask drops from a user's list exactly the masks the new one covers, keeps the others in order and puts the new one,
  its commas turned into question marks, last; the mask \<open>none\<close> drops all.
\<close>
theorem hosts_set_keeps:
  "hosts_set cidr buf v =
     (if op_strcasecmp buf ''none'' = 0 then []
      else filter (\<lambda>e. addr_match cidr (no_commas buf) e True True = 0) v @ [no_commas buf])"
  by (simp add: hosts_set_def vec_purge_all op_vec_push_def Let_def)

section \<open>Deleting a hostmask\<close>

text \<open>
  C16: deleting a hostmask that the user does not have deletes all hostmasks of the user; one that he has is taken out, with all
  others that are equal to it, and the rest stay.
\<close>
theorem delhost_wipes:
  assumes "get_user_by_handle handle st = Some (st1, Some p)" "u_heap st1 p = Some u"
  shows "\<exists>st' n. delhost_by_handle cfg handle host st = Some (st', n) \<and>
    map_option u_hosts (u_heap st' p) =
      Some (if \<forall>m \<in> set (u_hosts u). rfc_casecmp m host \<noteq> 0 then [] else filter (\<lambda>m. rfc_casecmp m host \<noteq> 0) (u_hosts u))"
  using assms
  by (auto simp: delhost_by_handle_def vec_purge_all set_hosts_def hosts_set_def u_share_def filter_empty_conv Let_def)

theorem delhost_wipes_witness:
  "\<exists>st' n. delhost_by_handle \<lparr>u_noshare = False, u_cidr = True, default_flags = 0, default_uflags = 0\<rparr> ''zed'' ''*!*@c''
     (demo_users\<lparr>u_heap := [1 \<mapsto> (plain_user ''zed'' 0)\<lparr>u_hosts := [''*!*@a'', ''*!*@b'']\<rparr>], lastuser := Some 1\<rparr>) = Some (st', n) \<and>
   map_option u_hosts (u_heap st' 1) = Some []"
proof -
  let ?u = "(plain_user ''zed'' 0)\<lparr>u_hosts := [''*!*@a'', ''*!*@b'']\<rparr>"
  let ?st = "demo_users\<lparr>u_heap := [1 \<mapsto> ?u], lastuser := Some 1\<rparr>"
  have "rmspace ''zed'' = ''zed''" "op_strcasecmp ''zed'' ''zed'' = 0" by code_simp+
  then have g: "get_user_by_handle ''zed'' ?st = Some (?st, Some 1)"
    by (simp add: get_user_by_handle_def lookup_handle_def plain_user_def c0_def)
  have "rfc_casecmp ''*!*@a'' ''*!*@c'' \<noteq> 0" "rfc_casecmp ''*!*@b'' ''*!*@c'' \<noteq> 0" by code_simp+
  then have "\<forall>m \<in> set (u_hosts ?u). rfc_casecmp m ''*!*@c'' \<noteq> 0" by (simp del: rfc_casecmp.simps)
  moreover have "u_heap ?st 1 = Some ?u" by simp
  ultimately show ?thesis
    using delhost_wipes [OF g, of ?u "\<lparr>u_noshare = False, u_cidr = True, default_flags = 0, default_uflags = 0\<rparr>" "''*!*@c''"]
    by (simp only: if_P simp_thms)
qed

section \<open>The closest match\<close>

text \<open>How well the best of a user's masks matches.\<close>

definition user_score :: "ucfg \<Rightarrow> string \<Rightarrow> userrec \<Rightarrow> int" where
  "user_score cfg host u = foldr max (map (\<lambda>m. addr_match (u_cidr cfg) m host True False) (u_hosts u)) 0"

lemma score_ge0: "0 \<le> foldr max xs (0 :: int)"
  by (induction xs) auto

lemma best_mask_score:
  "0 \<le> cnt \<Longrightarrow> best_mask cfg host p ms (ret, cnt) =
     (let top = foldr max (map (\<lambda>m. addr_match (u_cidr cfg) m host True False) ms) 0
      in if cnt < top then (Some p, top) else (ret, cnt))"
proof (induction ms arbitrary: ret cnt)
  case (Cons m ms)
  let ?i = "addr_match (u_cidr cfg) m host True False"
  let ?r = "if cnt < ?i then (Some p, ?i) else (ret, cnt)"
  have "0 \<le> snd ?r" using Cons.prems by simp
  then show ?case
    using Cons.IH [of "snd ?r" "fst ?r"] score_ge0 [of "map (\<lambda>m. addr_match (u_cidr cfg) m host True False) ms"]
    by (simp add: Let_def split: if_splits) (auto simp: max_def)
qed (simp add: Let_def)

text \<open>The first element of a list with the highest score, if any is positive.\<close>

fun first_best :: "('a \<Rightarrow> int) \<Rightarrow> 'a list \<Rightarrow> 'a option \<times> int \<Rightarrow> 'a option \<times> int" where
  "first_best f [] b = b"
| "first_best f (x # xs) (r, c) = first_best f xs (if c < f x then (Some x, f x) else (r, c))"

lemma first_best_top:
  "first_best f xs (r, c) = (r', c') \<Longrightarrow> c \<le> c' \<and> (\<forall>x \<in> set xs. f x \<le> c') \<and>
     (if c' = c then r' = r else \<exists>i < length xs. r' = Some (xs ! i) \<and> f (xs ! i) = c' \<and> (\<forall>j < i. f (xs ! j) < c'))"
proof (induction xs arbitrary: r c)
  case (Cons x xs)
  let ?c = "max c (f x)" and ?r = "if c < f x then Some x else r"
  have e: "first_best f xs (?r, ?c) = (r', c')" using Cons.prems by (auto simp: max_def split: if_splits)
  note ih = Cons.IH [OF e]
  show ?case
  proof (cases "c' = ?c")
    case True
    then show ?thesis using ih by (auto simp: max_def split: if_splits intro!: exI [of _ 0])
  next
    case False
    then obtain i where i: "i < length xs" "r' = Some (xs ! i)" "f (xs ! i) = c'" "\<forall>j < i. f (xs ! j) < c'"
      using ih by auto
    have "f x < c'" using ih False by auto
    then have "\<forall>j < Suc i. f ((x # xs) ! j) < c'" using i(4) by (simp add: All_less_Suc2)
    then have "\<exists>i < length (x # xs). r' = Some ((x # xs) ! i) \<and> f ((x # xs) ! i) = c' \<and> (\<forall>j < i. f ((x # xs) ! j) < c')"
      using i by (intro exI [of _ "Suc i"]) simp
    moreover have "c' \<noteq> c" "c \<le> c'" "\<forall>y \<in> set (x # xs). f y \<le> c'" using ih False by auto
    ultimately show ?thesis by simp
  qed
qed simp

lemma best_user_first:
  "0 \<le> cnt \<Longrightarrow> \<forall>p \<in> set ps. heap p \<noteq> None \<Longrightarrow>
     best_user cfg heap host ps (ret, cnt) = Some (first_best (\<lambda>p. user_score cfg host (the (heap p))) ps (ret, cnt))"
proof (induction ps arbitrary: ret cnt)
  case (Cons p ps)
  then obtain u where u: "heap p = Some u" by auto
  let ?s = "user_score cfg host u"
  have "best_mask cfg host p (u_hosts u) (ret, cnt) = (if cnt < ?s then (Some p, ?s) else (ret, cnt))"
    using best_mask_score [OF Cons.prems(1)] by (simp add: user_score_def Let_def)
  then show ?case using Cons.IH [of ?s "Some p"] Cons.IH [of cnt ret] Cons.prems u score_ge0 by (simp add: user_score_def)
qed simp

text \<open>
  C15: \<open>get_user_by_host\<close> finds the user with the mask that matches best; of several, the first in the list; and nobody when no mask
  of any user matches.
\<close>
theorem get_user_by_host_closest:
  assumes "\<And>p. p \<in> set (userlist st) \<Longrightarrow> \<exists>u. u_heap st p = Some u" "rmspace (op_strlcpy [] host UHOSTLEN) = host2" "host2 \<noteq> []"
  shows "\<exists>st' r. get_user_by_host cfg host st = Some (st', r) \<and>
    (case r of
       None \<Rightarrow> st' = st \<and> (\<forall>p \<in> set (userlist st). user_score cfg host2 (the (u_heap st p)) = 0)
     | Some p \<Rightarrow> st' = st\<lparr>lastuser := Some p\<rparr> \<and>
         (\<exists>i < length (userlist st). userlist st ! i = p \<and> 0 < user_score cfg host2 (the (u_heap st p)) \<and>
            (\<forall>q \<in> set (userlist st). user_score cfg host2 (the (u_heap st q)) \<le> user_score cfg host2 (the (u_heap st p))) \<and>
            (\<forall>j < i. user_score cfg host2 (the (u_heap st (userlist st ! j))) < user_score cfg host2 (the (u_heap st p)))))"
proof -
  let ?f = "\<lambda>p. user_score cfg host2 (the (u_heap st p))"
  obtain r c where b: "first_best ?f (userlist st) (None, 0) = (r, c)" by force
  have g: "get_user_by_host cfg host st = Some (if r = None then st else st\<lparr>lastuser := r\<rparr>, r)"
    using best_user_first [of 0 "userlist st" "u_heap st" cfg host2 None] assms b
    by (simp add: get_user_by_host_def Let_def)
  note t = first_best_top [OF b]
  have p: "0 \<le> ?f q" for q using score_ge0 by (simp add: user_score_def)
  show ?thesis
  proof (cases "c = 0")
    case True
    then have "r = None" "\<forall>q \<in> set (userlist st). ?f q = 0" using t p by (auto intro: antisym)
    then show ?thesis using g by simp
  next
    case False
    then obtain i where i: "i < length (userlist st)" "r = Some (userlist st ! i)" "?f (userlist st ! i) = c"
      "\<forall>j < i. ?f (userlist st ! j) < c" using t by auto
    have "0 < c" using False t by simp
    then show ?thesis using g i t by (intro exI [of _ "st\<lparr>lastuser := r\<rparr>"] exI [of _ r]) auto
  qed
qed

theorem get_user_by_host_closest_witness:
  "\<exists>st'. get_user_by_host \<lparr>u_noshare = False, u_cidr = True, default_flags = 0, default_uflags = 0\<rparr> ''a!b@c'' demo_users = Some (st', None)"
proof -
  have "rmspace (op_strlcpy [] ''a!b@c'' UHOSTLEN) = ''a!b@c''" by code_simp
  moreover have "\<exists>u. u_heap demo_users p = Some u" if "p \<in> set (userlist demo_users)" for p
    using that by (auto simp: demo_users_def)
  moreover have "user_score cfg h (the (u_heap demo_users p)) = 0" if "p \<in> set (userlist demo_users)" for cfg h p
    using that by (auto simp: demo_users_def plain_user_def user_score_def)
  ultimately show ?thesis
    using get_user_by_host_closest [of demo_users "''a!b@c''" "''a!b@c''"]
    by (force split: option.splits)
qed

end
