(* ===== verification/UserDict.thy ===== *)
theory UserDict
  imports UserHosts HtabLive
begin

text \<open>
  The table of handles agrees with the user list as long as no user is renamed: the invariant, that every operation keeps it, and what a
  look-up gives.
\<close>

section \<open>Keys in a heap\<close>

definition hcanon :: "(nat \<rightharpoonup> userrec) \<Rightarrow> hkey \<Rightarrow> uchar list" where
  "hcanon heap k = istr_canon (text_of heap k)"

interpretation hkeys: htab_keys "hcanon heap" "hkey_hash heap" "hkey_eq heap" for heap
  by unfold_locales (simp_all add: hcanon_def hkey_hash_def hkey_eq_def htab_eq_istr hash_istr_canon)

abbreviation own_canon :: "(nat \<rightharpoonup> userrec) \<Rightarrow> nat \<Rightarrow> uchar list" where
  "own_canon heap p \<equiv> hcanon heap (Own p)"

lemma at_heap_simps [simp]:
  "ht_slots (at_heap heap ht) = ht_slots ht" "ht_mask (at_heap heap ht) = ht_mask ht" "ht_count (at_heap heap ht) = ht_count ht"
  "ht_hash_fn (at_heap heap ht) = hkey_hash heap" "ht_eq_fn (at_heap heap ht) = hkey_eq heap"
  "at_heap heap (at_heap heap' ht) = at_heap heap ht" "ht_map c (at_heap heap ht) = ht_map c ht"
  by (simp_all add: at_heap_def ht_map_def)

lemma at_heap_id: "tab_ok c (hkey_hash heap) (hkey_eq heap) ht \<Longrightarrow> at_heap heap ht = ht"
  by (simp add: at_heap_def tab_ok_def)

definition dict_ok :: "(nat \<rightharpoonup> userrec) \<Rightarrow> nat list \<Rightarrow> (hkey, nat) op_htab \<Rightarrow> bool" where
  "dict_ok heap ps ht \<longleftrightarrow> tab_ok (hcanon heap) (hkey_hash heap) (hkey_eq heap) (at_heap heap ht) \<and> ht_count ht = length ps \<and>
     ht_map (hcanon heap) ht = map_of (map (\<lambda>p. (own_canon heap p, Some p)) ps) \<and>
     (\<forall>s \<in># live (ht_slots ht). \<exists>p \<in> set ps. hs_key s = Some (Own p))"

text \<open>A heap in which the handles of the list read the same.\<close>

lemma ht_map_cong:
  assumes "\<forall>s \<in># live (ht_slots ht). c' (the (hs_key s)) = c (the (hs_key s))"
  shows "ht_map c' ht = ht_map c ht"
proof -
  have "map (\<lambda>s. (slot_key c' s, hs_val s)) (filter (\<lambda>s. hs_hash s \<noteq> 0) (ht_slots ht)) =
      map (\<lambda>s. (slot_key c s, hs_val s)) (filter (\<lambda>s. hs_hash s \<noteq> 0) (ht_slots ht))"
    using assms by (intro map_cong) (auto simp: live_filter slot_key_def)
  then show ?thesis unfolding ht_map_def by (rule arg_cong)
qed

lemma dict_ok_heap:
  assumes "dict_ok heap ps ht" "\<And>p. p \<in> set ps \<Longrightarrow> own_canon heap' p = own_canon heap p"
  shows "dict_ok heap' ps ht"
proof -
  have k: "\<forall>s \<in># live (ht_slots ht). hcanon heap' (the (hs_key s)) = hcanon heap (the (hs_key s))"
    using assms by (fastforce simp: dict_ok_def)
  then have h: "\<forall>s \<in># live (ht_slots ht). hkey_hash heap' (the (hs_key s)) = hkey_hash heap (the (hs_key s))"
    by (simp add: hkey_hash_def hcanon_def hash_istr_canon)
  have "image_mset (slot_key (hcanon heap')) (live (ht_slots ht)) = image_mset (slot_key (hcanon heap)) (live (ht_slots ht))"
    using k by (intro image_mset_cong) (simp add: slot_key_def)
  then have "keys_once (hcanon heap') (live (ht_slots ht)) = keys_once (hcanon heap) (live (ht_slots ht))"
    by (simp add: keys_once_def)
  moreover have "map_of (map (\<lambda>p. (own_canon heap' p, Some p)) ps) = map_of (map (\<lambda>p. (own_canon heap p, Some p)) ps)"
    using assms(2) by (intro arg_cong [where f = map_of] map_cong) auto
  ultimately show ?thesis
    using assms(1) h ht_map_cong [OF k] unfolding dict_ok_def tab_ok_def ht_ok_def by simp
qed

section \<open>The operations of the table\<close>

lemma dict_reads:
  assumes "dict_ok heap ps ht" "\<forall>p \<in> set ps. heap p \<noteq> None"
  shows "dict_reads heap ht key"
proof -
  have "heap p \<noteq> None" if "s \<in> set (ht_slots ht)" "hs_hash s = fix_hash h" "hs_key s = Some (Own p)" for s h p
  proof -
    have "s \<in># live (ht_slots ht)" using that(1,2) by (simp add: live_filter fix_hash_def)
    then show ?thesis using assms that(3) by (fastforce simp: dict_ok_def)
  qed
  then show ?thesis by (auto simp: dict_reads_def list_all_iff split: option.splits hkey.splits)
qed

lemma dict_get_find:
  assumes "dict_ok heap ps ht" "\<forall>p \<in> set ps. heap p \<noteq> None"
  shows "dict_get heap ht key = Some (find (\<lambda>p. own_canon heap p = istr_canon key) ps)"
  using assms dict_reads [OF assms, of key] hkeys.get [of heap "at_heap heap ht" "Text key"]
  by (auto simp: dict_get_def dict_ok_def map_of_find hcanon_def [of heap "Text key"] text_of_def split: option.splits)

lemma dict_set_new:
  assumes "dict_ok heap ps ht" "\<forall>p \<in> set ps. heap p \<noteq> None" "own_canon heap p \<notin> own_canon heap ` set ps" "length ps < 2 ^ 60"
  shows "\<exists>ht'. dict_set heap ht p = Some ht' \<and> dict_ok heap (p # ps) ht'"
proof -
  have t: "tab_ok (hcanon heap) (hkey_hash heap) (hkey_eq heap) (at_heap heap ht)" "ht_count (at_heap heap ht) < 2 ^ 60"
    using assms(1,4) by (auto simp: dict_ok_def)
  have new: "ht_map (hcanon heap) (at_heap heap ht) (own_canon heap p) = None"
    using assms(1,3) by (auto simp: dict_ok_def map_of_eq_None_iff image_iff)
  obtain ht' where ht': "op_htab_set (at_heap heap ht) (Own p) (Some p) = Some (ht', 1, None)"
    "live (ht_slots ht') = add_mset \<lparr>hs_key = Some (Own p), hs_val = Some p, hs_hash = fix_hash (hkey_hash heap (Own p))\<rparr>
      (live (ht_slots ht))"
    using hkeys.set_live [OF t new] by auto
  moreover have "tab_ok (hcanon heap) (hkey_hash heap) (hkey_eq heap) ht'"
    "ht_map (hcanon heap) ht' = (ht_map (hcanon heap) ht)(own_canon heap p \<mapsto> Some p)" "ht_count ht' = ht_count ht + 1"
    using hkeys.set [OF t, of "Own p" "Some p"] ht'(1) new by auto
  ultimately show ?thesis
    using assms(1) dict_reads [OF assms(1,2)] by (auto simp: dict_ok_def dict_set_def at_heap_id)
qed

lemma dict_del_own:
  assumes "dict_ok heap (xs @ p # ys) ht" "\<forall>p \<in> set (xs @ p # ys). heap p \<noteq> None" "distinct (map (own_canon heap) (xs @ p # ys))"
    "istr_canon key = own_canon heap p"
  shows "\<exists>ht'. dict_del heap ht key = Some ht' \<and> dict_ok heap (xs @ ys) ht'"
proof -
  have t: "tab_ok (hcanon heap) (hkey_hash heap) (hkey_eq heap) (at_heap heap ht)" using assms(1) by (simp add: dict_ok_def)
  have c: "hcanon heap (Text key) = own_canon heap p" using assms(4) by (simp add: hcanon_def text_of_def)
  have m: "ht_map (hcanon heap) ht = map_of (map (\<lambda>p. (own_canon heap p, Some p)) (xs @ p # ys))"
    using assms(1) by (simp add: dict_ok_def)
  have f: "ht_map (hcanon heap) (at_heap heap ht) (hcanon heap (Text key)) \<noteq> None"
    using m by (simp add: c map_of_eq_None_iff)
  obtain ht' s where h: "op_htab_del (at_heap heap ht) (Text key) = Some (ht', hkeys.val_at heap (at_heap heap ht) (Text key))"
    "slot_key (hcanon heap) s = hcanon heap (Text key)" "live (ht_slots (at_heap heap ht)) = add_mset s (live (ht_slots ht'))"
    using hkeys.del_live [OF t f] by blast
  have h': "tab_ok (hcanon heap) (hkey_hash heap) (hkey_eq heap) ht'"
    "ht_map (hcanon heap) ht' = (ht_map (hcanon heap) ht)(own_canon heap p := None)" "ht_count ht' + 1 = ht_count ht"
    using hkeys.del [OF t, of "Text key"] h(1) f by (auto simp: c)
  have d: "own_canon heap p \<notin> own_canon heap ` set xs" "own_canon heap p \<notin> own_canon heap ` set ys" using assms(3) by auto
  have w: "map_of (map (\<lambda>p. (own_canon heap p, Some p)) (xs @ ys)) =
      (map_of (map (\<lambda>p. (own_canon heap p, Some p)) (xs @ p # ys)))(own_canon heap p := None)"
    using d by (rule map_of_without)
  have "\<exists>q \<in> set (xs @ ys). hs_key x = Some (Own q)" if x: "x \<in># live (ht_slots ht')" for x
  proof -
    have "x \<in># live (ht_slots ht)" using h(3) x by simp
    then obtain q where q: "q \<in> set (xs @ p # ys)" "hs_key x = Some (Own q)" using assms(1) by (auto simp: dict_ok_def)
    have "keys_once (hcanon heap) (live (ht_slots ht'))" using h'(1) hkeys.tabD(8) by blast
    then have "ht_map (hcanon heap) ht' (slot_key (hcanon heap) x) \<noteq> None" using ht_map_None x by metis
    then have "q \<noteq> p" using q(2) by (auto simp: h'(2) slot_key_def)
    then show ?thesis using q by auto
  qed
  then show ?thesis
    using h(1) h' assms(1) w m dict_reads [OF assms(1,2)] by (auto simp: dict_ok_def dict_del_def at_heap_id)
qed

end
