(* ===== verification/UserState.thy ===== *)
theory UserState
  imports UserDict
begin

text \<open>The invariant of the user list and the operations that keep it.\<close>

section \<open>Handles\<close>

lemma rfc_of_ascii: "rfc_toupper (tolower c) = rfc_toupper c"
  by (auto simp: uc_eq_iff uc_rfc_toupper uc_tolower)

lemma ascii_canon:
  assumes "cstring a" "cstring b" "op_strcasecmp a b = 0"
  shows "istr_canon a = istr_canon b"
proof -
  have "map rfc_toupper (map tolower a) = map rfc_toupper (map tolower b)"
    using assms op_strcasecmp_eq0 by simp
  then show ?thesis using assms istr_canon_rfc by (simp add: rfc_of_ascii comp_def)
qed

lemma rfc_canon: "cstring a \<Longrightarrow> cstring b \<Longrightarrow> rfc_casecmp a b = 0 \<longleftrightarrow> istr_canon a = istr_canon b"
  by (simp add: istr_canon_rfc rfc_casecmp_eq0)

section \<open>The invariant\<close>

definition user_ok :: "(nat \<rightharpoonup> userrec) \<Rightarrow> nat \<Rightarrow> bool" where
  "user_ok heap p \<longleftrightarrow> (\<exists>u. heap p = Some u \<and> cstring (u_handle u) \<and> length (u_handle u) \<le> HANDLELEN)"

definition udcc_ok :: "(nat \<rightharpoonup> userrec) \<Rightarrow> nat list \<Rightarrow> udcc \<Rightarrow> bool" where
  "udcc_ok heap ps d \<longleftrightarrow> cstring (d_nick d) \<and>
     (case d_user d of None \<Rightarrow> True | Some p \<Rightarrow> p \<in> set ps \<and> istr_canon (d_nick d) = own_canon heap p)"

definition users_ok :: "ustate \<Rightarrow> bool" where
  "users_ok st \<longleftrightarrow> distinct (map (own_canon (u_heap st)) (userlist st)) \<and>
     (\<forall>p \<in> set (userlist st). user_ok (u_heap st) p) \<and> (\<forall>p. u_heap st p \<noteq> None \<longrightarrow> p < u_next st) \<and>
     (case lastuser st of None \<Rightarrow> True | Some p \<Rightarrow> p \<in> set (userlist st)) \<and>
     (case user_handle_dict st of None \<Rightarrow> True | Some ht \<Rightarrow> \<exists>ps. mset ps = mset (userlist st) \<and> dict_ok (u_heap st) ps ht) \<and>
     (\<forall>d \<in> set (u_dcc st). udcc_ok (u_heap st) (userlist st) d) \<and> length (userlist st) < 2 ^ 60"

lemma users_okD:
  assumes "users_ok st"
  shows "distinct (map (own_canon (u_heap st)) (userlist st))" "\<And>p. p \<in> set (userlist st) \<Longrightarrow> user_ok (u_heap st) p"
    "\<And>p. u_heap st p \<noteq> None \<Longrightarrow> p < u_next st" "\<And>p. lastuser st = Some p \<Longrightarrow> p \<in> set (userlist st)"
    "\<And>ht. user_handle_dict st = Some ht \<Longrightarrow> \<exists>ps. mset ps = mset (userlist st) \<and> dict_ok (u_heap st) ps ht"
    "\<And>d. d \<in> set (u_dcc st) \<Longrightarrow> udcc_ok (u_heap st) (userlist st) d" "length (userlist st) < 2 ^ 60"
  using assms by (auto simp: users_ok_def)

lemma user_allocated: "users_ok st \<Longrightarrow> mset ps = mset (userlist st) \<Longrightarrow> \<forall>p \<in> set ps. u_heap st p \<noteq> None"
  using users_okD(2) by (fastforce simp: user_ok_def dest: mset_eq_setD)

lemma own_canon_handle: "heap p = Some u \<Longrightarrow> own_canon heap p = istr_canon (u_handle u)"
  by (simp add: hcanon_def text_of_def)

text \<open>The user a handle means.\<close>

definition user_of :: "ustate \<Rightarrow> string \<Rightarrow> nat option" where
  "user_of st key = find (\<lambda>p. own_canon (u_heap st) p = istr_canon key) (userlist st)"

lemma find_unique:
  assumes "distinct (map f xs)" "x \<in> set xs" "f x = c"
  shows "find (\<lambda>y. f y = c) xs = Some x"
  using assms by (induction xs) auto

lemma find_mset:
  assumes "distinct (map f xs)" "mset ys = mset xs"
  shows "find (\<lambda>y. f y = c) ys = find (\<lambda>y. f y = c) xs"
proof (cases "find (\<lambda>y. f y = c) xs")
  case None
  then have "find (\<lambda>y. f y = c) ys = None" using mset_eq_setD [OF assms(2)] by (auto simp: find_None_iff)
  then show ?thesis using None by simp
next
  case (Some x)
  then have "x \<in> set ys" "f x = c" using mset_eq_setD [OF assms(2)] by (auto simp: find_Some_iff)
  moreover have "distinct (map f ys)" using assms by (metis mset_eq_imp_distinct_iff mset_map)
  ultimately show ?thesis using Some find_unique by metis
qed

lemma user_of_in: "users_ok st \<Longrightarrow> p \<in> set (userlist st) \<Longrightarrow> own_canon (u_heap st) p = istr_canon key \<Longrightarrow> user_of st key = Some p"
  unfolding user_of_def by (rule find_unique) (auto dest: users_okD(1))

lemma find_elem: "find P xs = Some x \<Longrightarrow> x \<in> set xs \<and> P x"
  by (auto simp: find_Some_iff)

lemma user_of_Some: "user_of st key = Some p \<Longrightarrow> p \<in> set (userlist st) \<and> own_canon (u_heap st) p = istr_canon key"
  by (auto simp: user_of_def find_Some_iff)

section \<open>Looking up\<close>

lemma dict_fill_ok:
  "dict_ok heap qs ht \<Longrightarrow> \<forall>p \<in> set (qs @ ps). heap p \<noteq> None \<Longrightarrow> distinct (map (own_canon heap) (qs @ ps)) \<Longrightarrow>
     length (qs @ ps) < 2 ^ 60 \<Longrightarrow> \<exists>ht' qs'. dict_fill heap ps ht = Some ht' \<and> dict_ok heap qs' ht' \<and> mset qs' = mset (qs @ ps)"
proof (induction ps arbitrary: qs ht)
  case (Cons p ps)
  have "own_canon heap p \<notin> own_canon heap ` set qs" using Cons.prems(3) by auto
  then obtain ht1 where h: "dict_set heap ht p = Some ht1" "dict_ok heap (p # qs) ht1"
    using dict_set_new [OF Cons.prems(1), of p] Cons.prems(2,4) by auto
  have "distinct (map (own_canon heap) ((p # qs) @ ps))" using Cons.prems(3) by auto
  then show ?case using Cons.IH [OF h(2)] h(1) Cons.prems(2,4) by simp
qed auto

lemma rebuild_ok:
  assumes "users_ok st"
  shows "\<exists>ht ps. user_dict_rebuild st = Some ht \<and> mset ps = mset (userlist st) \<and> dict_ok (u_heap st) ps ht"
proof -
  let ?ht = "op_htab_create (hkey_hash (u_heap st)) (hkey_eq (u_heap st)) 64 :: (hkey, nat) op_htab"
  have t: "tab_ok (hcanon (u_heap st)) (hkey_hash (u_heap st)) (hkey_eq (u_heap st)) ?ht \<and> ht_map (hcanon (u_heap st)) ?ht = Map.empty"
    by (rule hkeys.create) simp
  moreover have "at_heap (u_heap st) ?ht = ?ht" using t by (intro at_heap_id) blast
  moreover have "live (ht_slots ?ht) = {#}" "ht_count ?ht = 0"
    by (simp_all add: op_htab_create_def live_replicate Let_def)
  ultimately have "dict_ok (u_heap st) [] ?ht" by (simp add: dict_ok_def)
  then show ?thesis
    using dict_fill_ok [of "u_heap st" "[]" ?ht "userlist st"] users_okD(1,7) [OF assms] user_allocated [OF assms]
    by (auto simp: user_dict_rebuild_def)
qed

lemma users_ok_cache:
  assumes "users_ok st" "case l of None \<Rightarrow> True | Some p \<Rightarrow> p \<in> set (userlist st)"
    "case d of None \<Rightarrow> True | Some ht \<Rightarrow> \<exists>ps. mset ps = mset (userlist st) \<and> dict_ok (u_heap st) ps ht"
  shows "users_ok (st\<lparr>lastuser := l, user_handle_dict := d\<rparr>)"
  using assms by (cases l; cases d) (auto simp: users_ok_def)

lemma lookup_user_of:
  assumes ok: "users_ok st" and key: "cstring key"
  shows "\<exists>l d. lookup_handle key st = Some (st\<lparr>lastuser := l, user_handle_dict := d\<rparr>, user_of st key) \<and>
    users_ok (st\<lparr>lastuser := l, user_handle_dict := d\<rparr>)"
proof -
  have hit: "user_of st key = Some p" if "p \<in> set (userlist st)" "u_heap st p = Some u" "op_strcasecmp (u_handle u) key = 0" for p u
    using user_of_in [OF ok that(1)] ascii_canon [OF _ key that(3)] users_okD(2) [OF ok that(1)] that(2)
    by (auto simp: user_ok_def own_canon_handle)
  have id: "st\<lparr>lastuser := lastuser st, user_handle_dict := user_handle_dict st\<rparr> = st" by simp
  consider (last) p u where "lastuser st = Some p" "u_heap st p = Some u" "op_strcasecmp (u_handle u) key = 0"
    | (miss) "(case lastuser st of None \<Rightarrow> Some False | Some p \<Rightarrow> map_option (\<lambda>u. op_strcasecmp (u_handle u) key = 0) (u_heap st p)) = Some False"
    using users_okD(2,4) [OF ok] by (fastforce simp: user_ok_def split: option.splits)
  then show ?thesis
  proof cases
    case last
    then have "lookup_handle key st = Some (st, user_of st key)"
      using hit users_okD(4) [OF ok] by (simp add: lookup_handle_def)
    then show ?thesis using ok id by metis
  next
    case miss
    show ?thesis
    proof (cases "check_dcclist_hand (u_dcc st) key")
      case (Some p)
      then obtain d where d: "d \<in> set (u_dcc st)" "op_strcasecmp (d_nick d) key = 0" "d_user d = Some p"
        using find_elem by (fastforce simp: check_dcclist_hand_def split: option.splits)
      then have "p \<in> set (userlist st)" "own_canon (u_heap st) p = istr_canon key"
        using users_okD(6) [OF ok d(1)] ascii_canon [OF _ key d(2)] by (auto simp: udcc_ok_def)
      then have "user_of st key = Some p" by (rule user_of_in [OF ok])
      then have "lookup_handle key st = Some (st, user_of st key)"
        using Some miss by (simp add: lookup_handle_def)
      then show ?thesis using ok id by metis
    next
      case None
      obtain dict where d: "(if user_handle_dict st = None \<and> userlist st \<noteq> [] then map_option Some (user_dict_rebuild st)
          else Some (user_handle_dict st)) = Some dict"
        "case dict of None \<Rightarrow> userlist st = [] | Some ht \<Rightarrow> \<exists>ps. mset ps = mset (userlist st) \<and> dict_ok (u_heap st) ps ht"
        using rebuild_ok [OF ok] users_okD(5) [OF ok] by (cases "user_handle_dict st"; cases "userlist st = []") fastforce+
      have l: "case user_of st key of None \<Rightarrow> True | Some p \<Rightarrow> p \<in> set (userlist st)"
        using user_of_Some by (auto split: option.splits)
      show ?thesis
      proof (cases dict)
        case N: None
        then have "userlist st = []" using d(2) by simp
        then have "find_handle (u_heap st) (userlist st) key = Some None" "user_of st key = None" by (simp_all add: user_of_def)
        then show ?thesis
          using miss None d(1) N users_ok_cache [OF ok, of "lastuser st" None] users_okD(4) [OF ok]
          by (intro exI [of _ "lastuser st"] exI [of _ None]) (auto simp: lookup_handle_def split: option.splits)
      next
        case S: (Some ht)
        then obtain ps where ps: "mset ps = mset (userlist st)" "dict_ok (u_heap st) ps ht" using d(2) by auto
        have "dict_get (u_heap st) ht key = Some (user_of st key)"
          using dict_get_find [OF ps(2) user_allocated [OF ok ps(1)]] find_mset [OF users_okD(1) [OF ok] ps(1)]
          by (simp add: user_of_def)
        then show ?thesis
          using miss None d S l users_ok_cache [OF ok, of _ "Some ht"] users_okD(4) [OF ok]
          by (intro exI [of _ "if user_of st key = None then lastuser st else user_of st key"] exI [of _ "Some ht"])
            (auto simp: lookup_handle_def split: option.splits)
      qed
    qed
  qed
qed

section \<open>Adding and deleting\<close>

lemma u_share_fields [simp]:
  "u_heap (u_share cfg out st) = u_heap st" "userlist (u_share cfg out st) = userlist st"
  "user_handle_dict (u_share cfg out st) = user_handle_dict st" "lastuser (u_share cfg out st) = lastuser st"
  "u_dcc (u_share cfg out st) = u_dcc st" "u_next (u_share cfg out st) = u_next st"
  "u_heap (share_user cfg h host pass fl u st) = u_heap st" "userlist (share_user cfg h host pass fl u st) = userlist st"
  "user_handle_dict (share_user cfg h host pass fl u st) = user_handle_dict st" "lastuser (share_user cfg h host pass fl u st) = lastuser st"
  "u_dcc (share_user cfg h host pass fl u st) = u_dcc st" "u_next (share_user cfg h host pass fl u st) = u_next st"
  by (simp_all add: u_share_def share_user_def)

lemma share_ok: "users_ok (u_share cfg out st) = users_ok st" "users_ok (share_user cfg h host pass fl u st) = users_ok st"
  by (auto simp: users_ok_def split: option.splits)

lemma new_user_handle: "u_handle (new_user cfg handle host flags) = op_strlcpy [] handle (HANDLELEN + 1)"
  by (simp add: new_user_def set_hosts_def Let_def)

lemma strlcpy_text:
  "cstring s \<Longrightarrow> cstring (op_strlcpy d s (HANDLELEN + 1))" "length (op_strlcpy d s (HANDLELEN + 1)) \<le> HANDLELEN"
  by (auto simp: op_strlcpy_take cstring_def dest: in_set_takeD)

text \<open>The list with a record more.\<close>

lemma users_ok_add:
  assumes ok: "users_ok st" and n: "length (userlist st) + 1 < 2 ^ 60" and u: "cstring (u_handle u)" "length (u_handle u) \<le> HANDLELEN"
    and new: "user_of st (u_handle u) = None"
    and l: "case l of None \<Rightarrow> True | Some p \<Rightarrow> p \<in> set (userlist st @ [u_next st])"
    and d: "case dict of None \<Rightarrow> True
      | Some ht \<Rightarrow> \<exists>ps. mset ps = mset (userlist st @ [u_next st]) \<and> dict_ok ((u_heap st)(u_next st \<mapsto> u)) ps ht"
    and st': "u_heap st' = (u_heap st)(u_next st \<mapsto> u)" "userlist st' = userlist st @ [u_next st]" "u_next st' = u_next st + 1"
      "lastuser st' = l" "user_handle_dict st' = dict" "u_dcc st' = u_dcc st"
  shows "users_ok st'"
proof -
  let ?p = "u_next st" and ?h = "(u_heap st)(u_next st \<mapsto> u)"
  have p: "?p \<notin> set (userlist st)"
    using users_okD(2,3) [OF ok] by (fastforce simp: user_ok_def)
  have c: "own_canon ?h q = own_canon (u_heap st) q" if "q \<in> set (userlist st)" for q
    using p that by (auto simp: hcanon_def text_of_def)
  have "own_canon ?h ?p \<notin> own_canon ?h ` set (userlist st)"
    using new c by (auto simp: own_canon_handle user_of_def find_None_iff)
  then have dist: "distinct (map (own_canon ?h) (userlist st @ [?p]))"
    using users_okD(1) [OF ok] c by (simp cong: map_cong)
  have us: "user_ok ?h q" if "q \<in> set (userlist st @ [?p])" for q
    using users_okD(2) [OF ok, of q] p that u by (auto simp: user_ok_def)
  have dc: "udcc_ok ?h (userlist st @ [?p]) x" if "x \<in> set (u_dcc st)" for x
    using users_okD(6) [OF ok that] c by (auto simp: udcc_ok_def split: option.splits)
  have lim: "\<forall>q. ?h q \<noteq> None \<longrightarrow> q < ?p + 1" using users_okD(3) [OF ok] by (auto intro: less_SucI)
  show ?thesis
    unfolding users_ok_def st' using dist us lim l d dc n by (intro conjI ballI) simp_all
qed

lemma adduser_ok:
  assumes ok: "users_ok st" and n: "length (userlist st) + 1 < 2 ^ 60" and hn: "cstring handle"
    and new: "user_of st (op_strlcpy [] handle (HANDLELEN + 1)) = None" and e: "userlist st = [] \<longrightarrow> user_handle_dict st = None"
  shows "\<exists>st'. adduser cfg handle host pass flags st = Some st' \<and> users_ok st' \<and>
    userlist st' = userlist st @ [u_next st] \<and> u_heap st' = (u_heap st)(u_next st \<mapsto> new_user cfg handle host flags)"
proof -
  let ?p = "u_next st" and ?u = "new_user cfg handle host flags"
  let ?h = "(u_heap st)(?p \<mapsto> ?u)"
  let ?s = "share_user cfg handle host pass flags ?u (st\<lparr>u_heap := ?h, u_next := ?p + 1\<rparr>)"
  note add = users_ok_add [OF ok n, of ?u]
  have u: "cstring (u_handle ?u)" "length (u_handle ?u) \<le> HANDLELEN" "user_of st (u_handle ?u) = None"
    using new strlcpy_text(1) [OF hn] strlcpy_text(2) [where d = "[]" and s = handle] by (simp_all add: new_user_handle)
  show ?thesis
  proof (cases "userlist st = []")
    case True
    then have "lastuser st = None" using users_okD(4) [OF ok] by (cases "lastuser st") auto
    then have "users_ok (?s\<lparr>userlist := [?p]\<rparr>)" using True e by (intro add u) simp_all
    then show ?thesis using True by (simp add: adduser_def Let_def)
  next
    case False
    have l: "\<not> (case lastuser st of None \<Rightarrow> False | Some x \<Rightarrow> x \<notin> set (userlist st))"
      using users_okD(4) [OF ok] by (auto split: option.splits)
    obtain dict where di: "if_dict (\<lambda>ht. dict_set ?h ht ?p) (user_handle_dict st) = Some dict"
      "case dict of None \<Rightarrow> True | Some ht \<Rightarrow> \<exists>ps. mset ps = mset (userlist st @ [?p]) \<and> dict_ok ?h ps ht"
    proof (cases "user_handle_dict st")
      case None
      then show ?thesis using that [of None] by (simp add: if_dict_def)
    next
      case (Some ht)
      then obtain ps where ps: "mset ps = mset (userlist st)" "dict_ok (u_heap st) ps ht" using users_okD(5) [OF ok] by blast
      have s: "set ps = set (userlist st)" using ps(1) by (rule mset_eq_setD)
      have p: "?p \<notin> set (userlist st)" using users_okD(2,3) [OF ok] by (fastforce simp: user_ok_def)
      have c: "own_canon ?h q = own_canon (u_heap st) q" if "q \<in> set ps" for q
        using p that s by (auto simp: hcanon_def text_of_def)
      have o: "dict_ok ?h ps ht" using ps(2) c by (rule dict_ok_heap)
      have "own_canon ?h ?p \<notin> own_canon ?h ` set ps"
        using u(3) c s by (auto simp: own_canon_handle user_of_def find_None_iff)
      moreover have "\<forall>q \<in> set ps. ?h q \<noteq> None" using user_allocated [OF ok ps(1)] by auto
      moreover have "length ps < 2 ^ 60" using users_okD(7) [OF ok] mset_eq_length [OF ps(1)] by simp
      ultimately obtain ht' where "dict_set ?h ht ?p = Some ht'" "dict_ok ?h (?p # ps) ht'"
        using dict_set_new [OF o, of ?p] by blast
      moreover have "mset (?p # ps) = mset (userlist st @ [?p])" using ps(1) by simp
      ultimately have "if_dict (\<lambda>ht. dict_set ?h ht ?p) (user_handle_dict st) = Some (Some ht')"
        "\<exists>qs. mset qs = mset (userlist st @ [?p]) \<and> dict_ok ?h qs ht'" using Some by (auto simp only: if_dict_def option.simps)
      then show ?thesis using that [of "Some ht'"] by simp
    qed
    have "users_ok (?s\<lparr>userlist := userlist st @ [?p], lastuser := Some ?p, user_handle_dict := dict\<rparr>)"
      by (rule add [OF u _ di(2)]) simp_all
    then show ?thesis using False l di(1) by (cases "lastuser st") (simp_all add: adduser_def Let_def)
  qed
qed

lemma find_handle_user:
  assumes "users_ok st" "cstring key"
  shows "\<exists>r. find_handle (u_heap st) (userlist st) key = Some r \<and>
    (case r of None \<Rightarrow> True | Some p \<Rightarrow> p \<in> set (userlist st) \<and> user_of st key = Some p)"
proof -
  have u: "user_of st key = Some p" if "p \<in> set (userlist st)" "u_heap st p = Some u" "op_strcasecmp (u_handle u) key = 0" for p u
    using user_of_in [OF assms(1) that(1)] ascii_canon [OF _ assms(2) that(3)] users_okD(2) [OF assms(1) that(1)] that(2)
    by (auto simp: user_ok_def own_canon_handle)
  have "\<exists>r. find_handle (u_heap st) ps key = Some r \<and> (case r of None \<Rightarrow> True | Some p \<Rightarrow> p \<in> set ps \<and> user_of st key = Some p)"
    if "set ps \<subseteq> set (userlist st)" for ps
    using that
  proof (induction ps)
    case (Cons p ps)
    then obtain v where v: "u_heap st p = Some v" using users_okD(2) [OF assms(1)] by (auto simp: user_ok_def)
    then show ?case using Cons u [OF _ v] by (fastforce split: option.splits)
  qed simp
  then show ?thesis by simp
qed

lemma users_ok_remove:
  assumes ok: "users_ok st" and p: "p \<in> set (userlist st)"
    and d: "case dict of None \<Rightarrow> True
      | Some ht \<Rightarrow> \<exists>ps. mset ps = mset (remove1 p (userlist st)) \<and> dict_ok (u_heap st) ps ht"
    and st': "u_heap st' = (u_heap st)(p := None)" "userlist st' = remove1 p (userlist st)" "u_next st' = u_next st"
      "lastuser st' = None" "user_handle_dict st' = dict"
      "u_dcc st' = map (\<lambda>d. if d_user d = Some p then d\<lparr>d_user := None\<rparr> else d) (u_dcc st)"
  shows "users_ok st'"
proof -
  let ?h = "(u_heap st)(p := None)" and ?l = "remove1 p (userlist st)"
  have dist: "distinct (userlist st)" using users_okD(1) [OF ok] by (simp add: distinct_map)
  then have s: "set ?l = set (userlist st) - {p}" by simp
  have c: "own_canon ?h q = own_canon (u_heap st) q" if "q \<noteq> p" for q
    using that by (simp add: hcanon_def text_of_def)
  have "map (own_canon ?h) ?l = map (own_canon (u_heap st)) ?l" using c s by (intro map_cong) auto
  moreover have "distinct (map (own_canon (u_heap st)) ?l)"
    using users_okD(1) [OF ok] dist by (auto simp: distinct_map intro: inj_on_subset)
  ultimately have di: "distinct (map (own_canon ?h) ?l)" by metis
  have us: "user_ok ?h q" if "q \<in> set ?l" for q
    using users_okD(2) [OF ok, of q] that s by (auto simp: user_ok_def)
  have dc: "udcc_ok ?h ?l x" if x: "x \<in> set (u_dcc st')" for x
  proof -
    obtain y where y: "y \<in> set (u_dcc st)" "x = (if d_user y = Some p then y\<lparr>d_user := None\<rparr> else y)"
      using x by (auto simp: st')
    then show ?thesis using users_okD(6) [OF ok y(1)] c s by (auto simp: udcc_ok_def split: option.splits)
  qed
  have dd: "case dict of None \<Rightarrow> True | Some ht \<Rightarrow> \<exists>ps. mset ps = mset ?l \<and> dict_ok ?h ps ht"
  proof (cases dict)
    case (Some ht)
    then obtain ps where ps: "mset ps = mset ?l" "dict_ok (u_heap st) ps ht" using d by auto
    have "p \<notin> set ps" using mset_eq_setD [OF ps(1)] s by simp
    then have "dict_ok ?h ps ht" by (intro dict_ok_heap [OF ps(2)] c) auto
    then show ?thesis using ps(1) Some by auto
  qed simp
  have "length ?l < 2 ^ 60" using users_okD(7) [OF ok] by (simp add: length_remove1 less_imp_diff_less)
  then show ?thesis
    using di us dd dc users_okD(3) [OF ok] unfolding users_ok_def st'(1-5) by auto
qed

lemma deluser_ok:
  assumes ok: "users_ok st" and key: "cstring key"
  shows "\<exists>st' n. deluser cfg key st = Some (st', n) \<and> users_ok st' \<and>
    (n = 1 \<longrightarrow> (\<exists>p. user_of st key = Some p \<and> userlist st' = remove1 p (userlist st) \<and> u_heap st' = (u_heap st)(p := None)))"
proof -
  obtain r where r: "find_handle (u_heap st) (userlist st) key = Some r"
    "case r of None \<Rightarrow> True | Some p \<Rightarrow> p \<in> set (userlist st) \<and> user_of st key = Some p"
    using find_handle_user [OF assms] by blast
  show ?thesis
  proof (cases r)
    case None
    then show ?thesis using r(1) ok by (simp add: deluser_def)
  next
    case (Some p)
    then have p: "p \<in> set (userlist st)" "user_of st key = Some p" using r(2) by auto
    then obtain u where u: "u_heap st p = Some u" using users_okD(2) [OF ok] by (auto simp: user_ok_def)
    obtain dict where di: "if_dict (\<lambda>ht. dict_del (u_heap st) ht key) (user_handle_dict st) = Some dict"
      "case dict of None \<Rightarrow> True | Some ht \<Rightarrow> \<exists>ps. mset ps = mset (remove1 p (userlist st)) \<and> dict_ok (u_heap st) ps ht"
    proof (cases "user_handle_dict st")
      case None
      then show ?thesis using that [of None] by (simp add: if_dict_def)
    next
      case (Some ht)
      then obtain ps where ps: "mset ps = mset (userlist st)" "dict_ok (u_heap st) ps ht" using users_okD(5) [OF ok] by blast
      have "p \<in> set ps" using mset_eq_setD [OF ps(1)] p(1) by simp
      then obtain xs ys where xy: "ps = xs @ p # ys" by (meson split_list)
      have dist: "distinct (map (own_canon (u_heap st)) ps)"
        using users_okD(1) [OF ok] ps(1) by (metis mset_eq_imp_distinct_iff mset_map)
      have "istr_canon key = own_canon (u_heap st) p" using user_of_Some [OF p(2)] by simp
      then obtain ht' where "dict_del (u_heap st) ht key = Some ht'" "dict_ok (u_heap st) (xs @ ys) ht'"
        using dict_del_own [OF ps(2) [unfolded xy] user_allocated [OF ok ps(1), unfolded xy] dist [unfolded xy]] by blast
      moreover have "mset (xs @ ys) = mset (remove1 p (userlist st))" by (simp flip: ps(1)) (simp add: xy)
      ultimately have "if_dict (\<lambda>ht. dict_del (u_heap st) ht key) (user_handle_dict st) = Some (Some ht')"
        "\<exists>qs. mset qs = mset (remove1 p (userlist st)) \<and> dict_ok (u_heap st) qs ht'" using Some by (auto simp only: if_dict_def option.simps)
      then show ?thesis using that [of "Some ht'"] by simp
    qed
    define s0 where "s0 = (if \<not> u_noshare cfg \<and> c0 key \<noteq> CHR ''*'' \<and> \<not> uflag u USER_UNSHARED then u_share cfg (''k '' @ key) st else st)"
    have s0: "userlist s0 = userlist st" "u_dcc s0 = u_dcc st" "user_handle_dict s0 = user_handle_dict st" "u_heap s0 = u_heap st"
      "u_next s0 = u_next st" by (simp_all add: s0_def)
    let ?s = "s0\<lparr>userlist := remove1 p (userlist st), u_dcc := map (\<lambda>d. if d_user d = Some p then d\<lparr>d_user := None\<rparr> else d) (u_dcc st),
      user_handle_dict := dict, u_heap := (u_heap st)(p := None), lastuser := None\<rparr>"
    have "deluser cfg key st = Some (?s, 1)"
      unfolding deluser_def r(1) Some by (simp add: u di(1) s0 flip: s0_def)
    moreover have "users_ok ?s"
      using s0(5) by (intro users_ok_remove [OF ok p(1) di(2)]) simp_all
    ultimately show ?thesis using p(2) by (intro exI [of _ ?s] exI [of _ 1]) simp
  qed
qed

end
