(* ===== verification/UserRun.thy ===== *)
theory UserRun
  imports UserState
begin

text \<open>
  Runs of the user list without renaming: looking up, adding, deleting, changing hostmasks, sorting and clearing in any order; and
  what renaming does.
\<close>

section \<open>The other operations\<close>

lemma rmspace_cstring: "cstring s \<Longrightarrow> cstring (rmspace s)"
  by (auto simp: rmspace_def cstring_def dest!: set_dropWhileD)

lemma get_user_ok:
  assumes "users_ok st" "cstring handle"
  shows "\<exists>l d r. get_user_by_handle handle st = Some (st\<lparr>lastuser := l, user_handle_dict := d\<rparr>, r) \<and>
    users_ok (st\<lparr>lastuser := l, user_handle_dict := d\<rparr>) \<and> (r = None \<or> r = user_of st (rmspace handle))"
proof (cases "rmspace handle = [] \<or> c0 (rmspace handle) = CHR ''*''")
  case True
  then have "get_user_by_handle handle st = Some (st, None)" by (auto simp: get_user_by_handle_def Let_def)
  then show ?thesis
    using assms by (intro exI [of _ "lastuser st"] exI [of _ "user_handle_dict st"] exI [of _ None]) simp
next
  case False
  then show ?thesis
    using lookup_user_of [OF assms(1) rmspace_cstring [OF assms(2)]] by (auto simp: get_user_by_handle_def Let_def)
qed

text \<open>Changing a record but not its handle.\<close>

lemma users_ok_change:
  assumes ok: "users_ok st" and u: "u_heap st p = Some u" "u_handle u' = u_handle u"
    and st': "u_heap st' = (u_heap st)(p \<mapsto> u')" "userlist st' = userlist st" "u_next st' = u_next st" "lastuser st' = lastuser st"
      "user_handle_dict st' = user_handle_dict st" "u_dcc st' = u_dcc st"
  shows "users_ok st'"
proof -
  let ?h = "(u_heap st)(p \<mapsto> u')"
  have c: "own_canon ?h q = own_canon (u_heap st) q" for q using u by (simp add: hcanon_def text_of_def)
  have "case user_handle_dict st of None \<Rightarrow> True | Some ht \<Rightarrow> \<exists>ps. mset ps = mset (userlist st) \<and> dict_ok ?h ps ht"
    using users_okD(5) [OF ok] dict_ok_heap [where heap = "u_heap st" and heap' = ?h, OF _ c] by (fastforce split: option.splits)
  moreover have "user_ok ?h q" if "q \<in> set (userlist st)" for q
    using users_okD(2) [OF ok that] u by (auto simp: user_ok_def)
  moreover have "\<forall>q. ?h q \<noteq> None \<longrightarrow> q < u_next st" using users_okD(3) [OF ok] u(1) by auto
  moreover have "udcc_ok ?h (userlist st) d = udcc_ok (u_heap st) (userlist st) d" for d by (simp add: udcc_ok_def c split: option.splits)
  ultimately show ?thesis
    using ok unfolding users_ok_def st' by (auto simp: c split: option.splits)
qed

lemma sort_ok:
  assumes ok: "users_ok st"
  shows "users_ok (sort_userlist st) \<and> mset (userlist (sort_userlist st)) = mset (userlist st) \<and> u_heap (sort_userlist st) = u_heap st"
proof -
  obtain us where s: "sort_userlist st = st\<lparr>userlist := us\<rparr>" "mset us = mset (userlist st)"
  proof
    show "sort_userlist st = st\<lparr>userlist := sort_key (\<lambda>p. rank (the (u_heap st p))) (userlist st)\<rparr>"
    proof -
      have e: "\<exists>u. u_heap st p = Some u \<and> cstring (u_handle u)" if "p \<in> set (userlist st)" for p
        using users_okD(2) [OF ok that] by (auto simp: user_ok_def)
      have "ms_sort (\<lambda>a b. sort_compare (the (u_heap st a)) (the (u_heap st b))) (userlist st) (length (userlist st)) =
          sort_key (\<lambda>p. rank (the (u_heap st p))) (userlist st)"
        using e by (intro ms_sort_key sort_compare_rank) (metis option.sel)+
      moreover have "sort_key f xs = xs" if "length xs \<le> 1" for f :: "nat \<Rightarrow> string" and xs
        using that by (cases xs) auto
      ultimately show ?thesis by (simp add: sort_userlist_def Let_def)
    qed
  qed simp
  have m: "set us = set (userlist st)" "length us = length (userlist st)"
    using s(2) by (auto dest: mset_eq_setD mset_eq_length)
  have "distinct (map (own_canon (u_heap st)) us)"
    using users_okD(1) [OF ok] s(2) by (metis mset_eq_imp_distinct_iff mset_map)
  then have "users_ok (st\<lparr>userlist := us\<rparr>)"
    using ok m s(2) by (auto simp: users_ok_def udcc_ok_def split: option.splits)
  then show ?thesis by (simp add: s)
qed

lemma clear_ok: "users_ok st \<Longrightarrow> users_ok (clear_userlist st)"
  by (auto simp: users_ok_def clear_userlist_def udcc_ok_def split: if_splits option.splits)

section \<open>Calls\<close>

datatype user_call =
    GetUser string
  | GetHost string
  | AddUser string "string option" string int32
  | DelUser string
  | AddHost string string
  | DelHost string string
  | SortUsers
  | ClearUsers
  | Connect udcc

text \<open>A connection opens with the user its nick stands for.\<close>

definition open_dcc :: "udcc \<Rightarrow> ustate \<Rightarrow> ustate option" where
  "open_dcc d st = map_option (\<lambda>(st, r). st\<lparr>u_dcc := u_dcc st @ [d\<lparr>d_user := r\<rparr>]\<rparr>) (get_user_by_handle (d_nick d) st)"

fun user_step :: "ucfg \<Rightarrow> user_call \<Rightarrow> ustate \<Rightarrow> ustate option" where
  "user_step cfg (GetUser handle) st = map_option fst (get_user_by_handle handle st)"
| "user_step cfg (GetHost host) st = map_option fst (get_user_by_host cfg host st)"
| "user_step cfg (AddUser handle host pass flags) st = adduser cfg handle host pass flags st"
| "user_step cfg (DelUser handle) st = map_option fst (deluser cfg handle st)"
| "user_step cfg (AddHost handle host) st = addhost_by_handle cfg handle host st"
| "user_step cfg (DelHost handle host) st = map_option fst (delhost_by_handle cfg handle host st)"
| "user_step cfg SortUsers st = Some (sort_userlist st)"
| "user_step cfg ClearUsers st = Some (clear_userlist st)"
| "user_step cfg (Connect d) st = open_dcc d st"

text \<open>
  The callers look a handle up before they add it or a host to it, and a user is not added to a list that was emptied by
  deletions.
\<close>

fun user_call_ok :: "user_call \<Rightarrow> ustate \<Rightarrow> bool" where
  "user_call_ok (GetUser handle) st \<longleftrightarrow> cstring handle"
| "user_call_ok (AddUser handle host pass flags) st \<longleftrightarrow> cstring handle \<and>
     user_of st (op_strlcpy [] handle (HANDLELEN + 1)) = None \<and> (userlist st = [] \<longrightarrow> user_handle_dict st = None)"
| "user_call_ok (DelUser handle) st \<longleftrightarrow> cstring handle"
| "user_call_ok (AddHost handle host) st \<longleftrightarrow> cstring handle \<and> rmspace handle \<noteq> [] \<and> c0 (rmspace handle) \<noteq> CHR ''*'' \<and>
     user_of st (rmspace handle) \<noteq> None"
| "user_call_ok (DelHost handle host) st \<longleftrightarrow> cstring handle"
| "user_call_ok (Connect d) st \<longleftrightarrow> cstring (d_nick d) \<and> rmspace (d_nick d) = d_nick d"
| "user_call_ok c st \<longleftrightarrow> True"

definition users_start :: ustate where
  "users_start = \<lparr>u_heap = Map.empty, u_next = 0, userlist = [], user_handle_dict = None, lastuser = None, u_dcc = [], u_shared = []\<rparr>"

inductive users_reach :: "ucfg \<Rightarrow> nat \<Rightarrow> ustate \<Rightarrow> bool" for cfg where
  start: "users_reach cfg 0 users_start"
| call: "users_reach cfg n st \<Longrightarrow> user_call_ok c st \<Longrightarrow> user_step cfg c st = Some st' \<Longrightarrow> users_reach cfg (Suc n) st'"

lemma host_user_ok:
  assumes "users_ok st"
  shows "\<exists>st' r. get_user_by_host cfg host st = Some (st', r) \<and> users_ok st' \<and> userlist st' = userlist st"
proof (cases "rmspace (op_strlcpy [] host UHOSTLEN) = []")
  case True
  then show ?thesis using assms by (simp add: get_user_by_host_def)
next
  case False
  let ?h = "rmspace (op_strlcpy [] host UHOSTLEN)"
  let ?f = "\<lambda>p. user_score cfg ?h (the (u_heap st p))"
  obtain r c where b: "first_best ?f (userlist st) (None, 0) = (r, c)" by force
  have "\<forall>p \<in> set (userlist st). u_heap st p \<noteq> None" using user_allocated [OF assms refl] .
  then have g: "get_user_by_host cfg host st = Some (if r = None then st else st\<lparr>lastuser := r\<rparr>, r)"
    using best_user_first [of 0 "userlist st" "u_heap st" cfg ?h None] False b by (simp add: get_user_by_host_def Let_def)
  have "r = None \<or> (\<exists>p \<in> set (userlist st). r = Some p)" using first_best_top [OF b] by (auto split: if_splits)
  then have "users_ok (if r = None then st else st\<lparr>lastuser := r\<rparr>)"
    using assms by (auto simp: users_ok_def split: option.splits)
  then show ?thesis using g by auto
qed

lemma user_step_ok:
  assumes ok: "users_ok st" and c: "user_call_ok c st" and n: "length (userlist st) + 1 < 2 ^ 60"
  shows "\<exists>st'. user_step cfg c st = Some st' \<and> users_ok st' \<and> length (userlist st') \<le> length (userlist st) + 1"
proof (cases c)
  case (GetUser handle)
  then show ?thesis using get_user_ok [OF ok, of handle] c by fastforce
next
  case (GetHost host)
  then show ?thesis using host_user_ok [OF ok, of cfg host] by fastforce
next
  case (AddUser handle host pass flags)
  then show ?thesis using adduser_ok [OF ok n, of handle cfg host pass flags] c by auto
next
  case (DelUser handle)
  then obtain st' k where d: "deluser cfg handle st = Some (st', k)" "users_ok st'"
    using deluser_ok [OF ok, of handle cfg] c by auto
  have "length (userlist st') \<le> length (userlist st) + 1"
    using d(1) by (auto simp: deluser_def Let_def length_remove1 split: option.splits bind_splits)
  then show ?thesis using d DelUser by simp
next
  case (AddHost handle host)
  obtain l d where g: "get_user_by_handle handle st = Some (st\<lparr>lastuser := l, user_handle_dict := d\<rparr>, user_of st (rmspace handle))"
    "users_ok (st\<lparr>lastuser := l, user_handle_dict := d\<rparr>)"
    using lookup_user_of [OF ok rmspace_cstring, of handle] c AddHost by (auto simp: get_user_by_handle_def Let_def)
  obtain p where p: "user_of st (rmspace handle) = Some p" using c AddHost by auto
  obtain u where u: "u_heap st p = Some u" using user_of_Some [OF p] users_okD(2) [OF ok] by (auto simp: user_ok_def)
  have "users_ok (st\<lparr>lastuser := l, user_handle_dict := d, u_heap := (u_heap st)(p \<mapsto> set_hosts (u_cidr cfg) host u)\<rparr>)"
    using u by (intro users_ok_change [OF g(2), of p u "set_hosts (u_cidr cfg) host u"]) (simp_all add: set_hosts_def)
  then show ?thesis using g(1) p u AddHost by (simp add: addhost_by_handle_def Let_def share_ok)
next
  case (DelHost handle host)
  obtain l d r where g: "get_user_by_handle handle st = Some (st\<lparr>lastuser := l, user_handle_dict := d\<rparr>, r)"
    "users_ok (st\<lparr>lastuser := l, user_handle_dict := d\<rparr>)" "r = None \<or> r = user_of st (rmspace handle)"
    using get_user_ok [OF ok, of handle] c DelHost by auto
  show ?thesis
  proof (cases r)
    case None
    then show ?thesis using g DelHost by (simp add: delhost_by_handle_def)
  next
    case (Some p)
    then obtain u where u: "u_heap st p = Some u"
      using g(3) user_of_Some [of st "rmspace handle" p] users_okD(2) [OF ok] by (auto simp: user_ok_def)
    have "users_ok (st\<lparr>lastuser := l, user_handle_dict := d, u_heap := (u_heap st)(p \<mapsto> u')\<rparr>)"
      if "u_handle u' = u_handle u" for u'
      using u that by (intro users_ok_change [OF g(2), of p u u']) simp_all
    then show ?thesis
      using g(1) Some u DelHost
      by (simp add: delhost_by_handle_def Let_def share_ok set_hosts_def split_beta)
  qed
next
  case SortUsers
  then show ?thesis using sort_ok [OF ok] by (auto dest: mset_eq_length)
next
  case ClearUsers
  then show ?thesis using clear_ok [OF ok] by (simp add: clear_userlist_def)
next
  case (Connect d)
  obtain l di r where g: "get_user_by_handle (d_nick d) st = Some (st\<lparr>lastuser := l, user_handle_dict := di\<rparr>, r)"
    "users_ok (st\<lparr>lastuser := l, user_handle_dict := di\<rparr>)" "r = None \<or> r = user_of st (d_nick d)"
    using get_user_ok [OF ok, of "d_nick d"] c Connect by auto
  have "udcc_ok (u_heap st) (userlist st) (d\<lparr>d_user := r\<rparr>)"
    using c Connect g(3) user_of_Some [of st "d_nick d"] by (auto simp: udcc_ok_def split: option.splits)
  then have "users_ok (st\<lparr>lastuser := l, user_handle_dict := di, u_dcc := u_dcc st @ [d\<lparr>d_user := r\<rparr>]\<rparr>)"
    using g(2) by (auto simp: users_ok_def split: option.splits)
  then show ?thesis using g(1) Connect by (simp add: open_dcc_def)
qed

lemma users_reach_ok:
  assumes "users_reach cfg n st" "n < 2 ^ 60"
  shows "users_ok st \<and> length (userlist st) \<le> n"
  using assms
proof induction
  case start
  then show ?case by (simp add: users_start_def users_ok_def)
next
  case (call n st c st')
  then show ?case using user_step_ok [of st c cfg] by fastforce
qed

end
