(* ===== verification/UserClaims.thy ===== *)
theory UserClaims
  imports UserRun
begin

text \<open>The properties of the user list.\<close>

section \<open>Without renaming\<close>



definition ucfg0 :: ucfg where
  "ucfg0 = \<lparr>u_noshare = False, u_cidr = True, default_flags = 0, default_uflags = 0\<rparr>"

definition one_user :: ustate where
  "one_user = the (adduser ucfg0 ''Robey'' None ''-'' 0 users_start)"

lemma one_user: "adduser ucfg0 ''Robey'' None ''-'' 0 users_start = Some one_user"
  "userlist one_user = [0]" "user_handle_dict one_user = None" "u_heap one_user = [0 \<mapsto> new_user ucfg0 ''Robey'' None 0]"
  "lastuser one_user = None" "u_dcc one_user = []"
  by (simp_all add: one_user_def adduser_def users_start_def Let_def)

lemma one_user_reach: "users_reach ucfg0 1 one_user"
  using users_reach.call [OF users_reach.start, of "AddUser ''Robey'' None ''-'' 0" ucfg0 one_user] one_user(1)
  by (simp add: users_start_def user_of_def cstring_def)




section \<open>Renaming\<close>

lemma rename_dict:
  assumes d: "dict_ok h ps ht" and al: "\<forall>q \<in> set ps. h q \<noteq> None" and dist: "distinct (map (own_canon h) ps)"
    and p: "p \<in> set ps" "h p = Some u" and n: "length ps < 2 ^ 60"
    and new: "\<forall>q \<in> set ps. own_canon h q \<noteq> istr_canon (u_handle v)"
    and hash: "fix_hash (op_htab_hash_istr (u_handle v)) \<noteq> fix_hash (op_htab_hash_istr (u_handle u))"
  shows "\<exists>ht1 s. dict_del (h(p \<mapsto> v)) ht (u_handle u) = Some (at_heap (h(p \<mapsto> v)) ht) \<and>
    dict_set (h(p \<mapsto> v)) (at_heap (h(p \<mapsto> v)) ht) p = Some ht1 \<and> ht_frame ht1 \<and>
    s \<in># live (ht_slots ht1) \<and> hs_key s = Some (Own p) \<and> hs_hash s = fix_hash (op_htab_hash_istr (u_handle u)) \<and>
    (\<forall>s \<in># live (ht_slots ht1). \<exists>q \<in> set ps. hs_key s = Some (Own q))"
proof -
  let ?h = "h(p \<mapsto> v)"
  let ?t = "at_heap ?h ht"
  have t: "tab_ok (hcanon h) (hkey_hash h) (hkey_eq h) (at_heap h ht)" using d by (simp add: dict_ok_def)
  have frame: "ht_frame ?t" using tab_frame [OF t] by (simp add: ht_frame_def)
  have keys: "\<exists>q \<in> set ps. hs_key s = Some (Own q)" if "s \<in># live (ht_slots ht)" for s
    using d that by (simp add: dict_ok_def)
  have al': "\<forall>q \<in> set ps. ?h q \<noteq> None" using al by simp
  have reads: "dict_reads ?h tb key" if "\<forall>s \<in># live (ht_slots tb). \<exists>q \<in> set ps. hs_key s = Some (Own q)" for tb key
  proof -
    have "?h q \<noteq> None" if "s \<in> set (ht_slots tb)" "hs_hash s = fix_hash g" "hs_key s = Some (Own q)" for s g q
    proof -
      have "s \<in># live (ht_slots tb)" using that(1,2) by (simp add: live_filter fix_hash_def)
      then show ?thesis using \<open>\<forall>s \<in># live (ht_slots tb). _\<close> al' that(3) by fastforce
    qed
    then show ?thesis unfolding dict_reads_def list_all_iff by (fastforce split: option.splits hkey.splits)
  qed
  have canon: "own_canon ?h q = own_canon h q" if "q \<noteq> p" for q using that by (simp add: hcanon_def text_of_def)
  have cp: "own_canon ?h p = istr_canon (u_handle v)" "own_canon h p = istr_canon (u_handle u)"
    using p(2) by (simp_all add: own_canon_handle)
  have old: "hs_hash s = fix_hash (op_htab_hash_istr (u_handle u))" if "s \<in># live (ht_slots ht)" "hs_key s = Some (Own p)" for s
    using hkeys.tabD(9) [OF t, of s] that p(2) by (simp add: hkey_hash_def text_of_def)
  have ne: "istr_canon (u_handle v) \<noteq> istr_canon (u_handle u)" using hash by (auto simp: hash_istr_canon)
  have found: "\<exists>q \<in> set ps. ht_slots ht ! i \<in># live (ht_slots ht) \<and> hs_key (ht_slots ht ! i) = Some (Own q) \<and>
      own_canon ?h q = hcanon ?h key \<and> hs_hash (ht_slots ht ! i) = g" if "htab_find_idx ?t key g = Some i" for key g i
  proof -
    have f: "i < length (ht_slots ht)" "occ (ht_slots ht) i" "hs_hash (ht_slots ht ! i) = g"
      "hkey_eq ?h (the (hs_key (ht_slots ht ! i))) key" using frame_find [OF frame that] by simp_all
    then have l: "ht_slots ht ! i \<in># live (ht_slots ht)" by (simp add: live_nth)
    obtain q where "q \<in> set ps" "hs_key (ht_slots ht ! i) = Some (Own q)" using keys [OF l] by blast
    then show ?thesis using f l by (auto simp: hkeys.eq_canon)
  qed
  have "htab_find_idx ?t (Text (u_handle u)) g = None" for g
  proof (rule ccontr)
    assume "htab_find_idx ?t (Text (u_handle u)) g \<noteq> None"
    then obtain q where q: "q \<in> set ps" "own_canon ?h q = istr_canon (u_handle u)"
      using found [of "Text (u_handle u)" g] by (auto simp: hcanon_def [of _ "Text _"] text_of_def)
    show False
    proof (cases "q = p")
      case False
      then have "own_canon h q = own_canon h p" using q(2) canon cp by simp
      then show False using dist q(1) p(1) False by (auto simp: distinct_map dest: inj_onD)
    qed (use q cp ne in simp)
  qed
  then have del: "dict_del ?h ht (u_handle u) = Some ?t"
    using reads [of ht] keys by (simp add: dict_del_def op_htab_del_def Let_def)
  have "htab_find_idx ?t (Own p) (fix_hash (hkey_hash ?h (Own p))) = None"
  proof (rule ccontr)
    assume "htab_find_idx ?t (Own p) (fix_hash (hkey_hash ?h (Own p))) \<noteq> None"
    then obtain q i where q: "q \<in> set ps" "own_canon ?h q = own_canon ?h p" "ht_slots ht ! i \<in># live (ht_slots ht)"
      "hs_key (ht_slots ht ! i) = Some (Own q)" "hs_hash (ht_slots ht ! i) = fix_hash (op_htab_hash_istr (u_handle v))"
      using found [of "Own p" "fix_hash (hkey_hash ?h (Own p))"] by (auto simp: hkey_hash_def text_of_def)
    show False
    proof (cases "q = p")
      case True
      then show False using old [OF q(3)] q(4,5) hash by simp
    next
      case False
      then show False using q(1,2) canon cp new by auto
    qed
  qed
  moreover have fh: "fix_hash g \<noteq> 0" for g by (simp add: fix_hash_def)
  moreover obtain ht1 where a: "htab_add ?t (Own p) (Some p) (fix_hash (hkey_hash ?h (Own p))) = Some ht1" "ht_frame ht1"
    "live (ht_slots ht1) = add_mset \<lparr>hs_key = Some (Own p), hs_val = Some p, hs_hash = fix_hash (hkey_hash ?h (Own p))\<rparr> (live (ht_slots ht))"
    using frame_add [OF frame _ fh, of "Own p" "Some p" "hkey_hash ?h (Own p)"] d n by (auto simp: dict_ok_def)
  ultimately have set: "dict_set ?h ?t p = Some ht1"
    using reads [of ?t] keys by (simp add: dict_set_def op_htab_set_def Let_def)
  have once: "keys_once (hcanon h) (live (ht_slots ht))" using hkeys.tabD(8) [OF t] by simp
  have "ht_map (hcanon h) ht (own_canon h p) \<noteq> None"
    using d p(1) by (auto simp: dict_ok_def map_of_eq_None_iff image_image)
  then obtain s where s: "s \<in># live (ht_slots ht)" "slot_key (hcanon h) s = own_canon h p"
    unfolding ht_map_None [OF once] by blast
  obtain q where q: "q \<in> set ps" "hs_key s = Some (Own q)" using keys [OF s(1)] by blast
  then have "q = p" using s(2) dist p(1) by (auto simp: slot_key_def distinct_map dest: inj_onD)
  then show ?thesis using del set a s(1) q(2) old [OF s(1)] keys p(1) by (intro exI [of _ ht1] exI [of _ s]) auto
qed

lemma del_keeps_other:
  assumes "ht_frame ht1" "s \<in># live (ht_slots ht1)" "hs_hash s \<noteq> fix_hash (op_htab_hash_istr key)" "dict_reads h ht1 key"
  shows "\<exists>ht2. dict_del h ht1 key = Some ht2 \<and> s \<in># live (ht_slots ht2)"
proof -
  let ?t = "at_heap h ht1"
  have f: "ht_frame ?t" using assms(1) by (simp add: ht_frame_def)
  have g: "fix_hash (hkey_hash h (Text key)) = fix_hash (op_htab_hash_istr key)" by (simp add: hkey_hash_def text_of_def)
  show ?thesis
  proof (cases "htab_find_idx ?t (Text key) (fix_hash (hkey_hash h (Text key)))")
    case None
    then show ?thesis using assms(2,4) by (simp add: dict_del_def op_htab_del_def Let_def)
  next
    case (Some i)
    note x = frame_find [OF f Some]
    then obtain ht2 where "htab_del_at ?t i = Some ht2" "live (ht_slots ?t) = add_mset (ht_slots ?t ! i) (live (ht_slots ht2))"
      using frame_del_at [OF f] by blast
    moreover have "s \<noteq> ht_slots ?t ! i" using x assms(3) g by auto
    ultimately show ?thesis using Some assms(2,4) by (auto simp: dict_del_def op_htab_del_def Let_def)
  qed
qed

text \<open>
  C6: \<open>change_handle\<close> overwrites the key of the table in place before it deletes it, so the old entry stays.  When the user is
  deleted under the new handle, the next look-up of the old handle compares it with freed memory.
\<close>
theorem rename_leaves_stale_key:
  assumes "users_reach cfg n st" "n < 2 ^ 60" "user_handle_dict st = Some ht" "p \<in> set (userlist st)" "u_heap st p = Some u"
    "cstring newh" "length newh \<le> HANDLELEN" "1 < length newh" "op_strcasecmp (u_handle u) EGG_BG_HANDLE \<noteq> 0"
    "user_of st newh = None" "fix_hash (op_htab_hash_istr newh) \<noteq> fix_hash (op_htab_hash_istr (u_handle u))"
    "rmspace (u_handle u) = u_handle u" "u_handle u \<noteq> []" "c0 (u_handle u) \<noteq> CHR ''*''"
  shows "\<exists>st1 st2. change_handle cfg p newh st = Some (st1, 1) \<and> deluser cfg newh st1 = Some (st2, 1) \<and>
    get_user_by_handle (u_handle u) st2 = None"
proof -
  have ok: "users_ok st" using users_reach_ok [OF assms(1,2)] by simp
  let ?h = "u_heap st" and ?old = "u_handle u" and ?v = "u\<lparr>u_handle := newh, u_dirty := True\<rparr>"
  let ?h1 = "?h(p \<mapsto> ?v)"
  have cu: "cstring ?old" "length ?old \<le> HANDLELEN" using users_okD(2) [OF ok assms(4)] assms(5) by (auto simp: user_ok_def)
  have copy: "op_strlcpy d newh (HANDLELEN + 1) = newh" "op_strlcpy d ?old (HANDLELEN + 1) = ?old" for d
    using assms(7) cu(2) by simp_all
  obtain ps where ps: "mset ps = mset (userlist st)" "dict_ok ?h ps ht" using users_okD(5) [OF ok assms(3)] by blast
  have sps: "set ps = set (userlist st)" using ps(1) by (rule mset_eq_setD)
  have new: "own_canon ?h q \<noteq> istr_canon newh" if "q \<in> set (userlist st)" for q
    using assms(10) that by (auto simp: user_of_def find_None_iff)
  have ne: "istr_canon newh \<noteq> istr_canon ?old" using new [OF assms(4)] assms(5) by (simp add: own_canon_handle)
  have "length ps < 2 ^ 60" using users_okD(7) [OF ok] mset_eq_length [OF ps(1)] by simp
  moreover have "distinct (map (own_canon ?h) ps)" using users_okD(1) [OF ok] ps(1) by (metis mset_eq_imp_distinct_iff mset_map)
  ultimately obtain ht1 s where r: "dict_del ?h1 ht ?old = Some (at_heap ?h1 ht)" "dict_set ?h1 (at_heap ?h1 ht) p = Some ht1"
    "ht_frame ht1" "s \<in># live (ht_slots ht1)" "hs_key s = Some (Own p)" "hs_hash s = fix_hash (op_htab_hash_istr ?old)"
    "\<forall>s \<in># live (ht_slots ht1). \<exists>q \<in> set ps. hs_key s = Some (Own q)"
    using rename_dict [OF ps(2) user_allocated [OF ok ps(1)], of p u ?v] assms(4,5,11) sps new by auto
  define s0 where "s0 = (if \<not> u_noshare cfg \<and> \<not> uflag u USER_UNSHARED then u_share cfg (''h '' @ ?old @ '' '' @ newh) st else st)"
  have s0: "u_heap s0 = ?h" "userlist s0 = userlist st" "user_handle_dict s0 = Some ht" "u_dcc s0 = u_dcc st"
    using assms(3) by (simp_all add: s0_def)
  let ?st1 = "s0\<lparr>u_heap := ?h1, user_handle_dict := Some ht1, u_dcc := map (rename_dcc ?old newh) (u_dcc st)\<rparr>"
  have "newh \<noteq> []" "tl newh \<noteq> []" using assms(8) by (cases newh; auto)+
  then have ch: "change_handle cfg p newh st = Some (?st1, 1)"
    using r(1,2) assms(5,9) s0
    unfolding change_handle_def by (simp add: copy [simplified] if_dict_def flip: s0_def)
  have nc: "op_strcasecmp (u_handle w) newh \<noteq> 0" if "q \<in> set (userlist st)" "q \<noteq> p" "?h1 q = Some w" for q w
  proof
    assume e: "op_strcasecmp (u_handle w) newh = 0"
    have w: "?h q = Some w" using that by simp
    then have "cstring (u_handle w)" using users_okD(2) [OF ok that(1)] by (auto simp: user_ok_def)
    then show False using ascii_canon [OF _ assms(6) e] new [OF that(1)] w by (simp add: own_canon_handle)
  qed
  have self: "op_strcasecmp newh newh = 0" using assms(6) by (simp add: op_strcasecmp_eq0)
  have "find_handle ?h1 qs newh = Some (Some p)" if "set qs \<subseteq> set (userlist st)" "p \<in> set qs" for qs
    using that
  proof (induction qs)
    case (Cons q qs)
    show ?case
    proof (cases "q = p")
      case False
      obtain w where "?h1 q = Some w" using users_okD(2) [OF ok, of q] Cons.prems(1) False by (auto simp: user_ok_def)
      then show ?thesis using Cons nc [of q w] False by simp
    qed (simp add: self)
  qed simp
  then have find: "find_handle ?h1 (userlist st) newh = Some (Some p)" using assms(4) by simp
  have reads: "dict_reads ?h1 ht1 key" for key
  proof -
    have "?h1 q \<noteq> None" if "x \<in> set (ht_slots ht1)" "hs_hash x = fix_hash g" "hs_key x = Some (Own q)" for x g q
    proof -
      have "x \<in># live (ht_slots ht1)" using that(1,2) by (simp add: live_filter fix_hash_def)
      then show ?thesis using r(7) user_allocated [OF ok ps(1)] that(3) by fastforce
    qed
    then show ?thesis unfolding dict_reads_def list_all_iff by (fastforce split: option.splits hkey.splits)
  qed
  obtain ht2 where d: "dict_del ?h1 ht1 newh = Some ht2" "s \<in># live (ht_slots ht2)"
    using del_keeps_other [OF r(3,4) _ reads, of newh] r(6) assms(11) by auto
  define s1 where "s1 = (if \<not> u_noshare cfg \<and> c0 newh \<noteq> CHR ''*'' \<and> \<not> uflag ?v USER_UNSHARED then u_share cfg (''k '' @ newh) ?st1 else ?st1)"
  have s1: "u_heap s1 = ?h1" "userlist s1 = userlist st" "user_handle_dict s1 = Some ht1" "u_dcc s1 = map (rename_dcc ?old newh) (u_dcc st)"
    by (simp_all add: s1_def s0)
  let ?clear = "\<lambda>d. if d_user d = Some p then d\<lparr>d_user := None\<rparr> else d"
  let ?st2 = "s1\<lparr>userlist := remove1 p (userlist st), u_dcc := map ?clear (u_dcc s1), user_handle_dict := Some ht2,
    u_heap := ?h1(p := None), lastuser := None\<rparr>"
  have del: "deluser cfg newh ?st1 = Some (?st2, 1)"
    using find d(1) s1 unfolding deluser_def by (simp add: s0 if_dict_def flip: s1_def)
  have gone: "d_user y = None" if y: "y \<in> set (u_dcc ?st2)" "op_strcasecmp (d_nick y) ?old = 0" for y
  proof -
    obtain x where x: "x \<in> set (u_dcc st)" "y = ?clear (rename_dcc ?old newh x)" using y(1) by (auto simp: s1)
    have k: "udcc_ok ?h (userlist st) x" using users_okD(6) [OF ok x(1)] .
    have "\<not> (d_chat x \<and> op_strcasecmp (d_nick x) ?old = 0)"
    proof
      assume "d_chat x \<and> op_strcasecmp (d_nick x) ?old = 0"
      then have "d_nick y = newh" using x(2) copy by (simp add: rename_dcc_def)
      then show False using y(2) ascii_canon [OF assms(6) cu(1)] ne by simp
    qed
    then have e: "rename_dcc ?old newh x = x" by (auto simp: rename_dcc_def)
    then have n: "op_strcasecmp (d_nick x) ?old = 0" using y(2) x(2) by (simp split: if_splits)
    have "istr_canon (d_nick x) = own_canon ?h p"
      using ascii_canon [OF _ cu(1) n] k assms(5) by (simp add: udcc_ok_def own_canon_handle)
    then have "d_user x = None \<or> d_user x = Some p"
      using k users_okD(1) [OF ok] assms(4) by (auto simp: udcc_ok_def distinct_map dest: inj_onD split: option.splits)
    then show ?thesis using x(2) e by auto
  qed
  have "check_dcclist_hand (u_dcc ?st2) ?old = None"
  proof (cases "find (\<lambda>d. op_strcasecmp (d_nick d) ?old = 0) (u_dcc ?st2)")
    case None
    then show ?thesis unfolding check_dcclist_hand_def by (simp only: option.case)
  next
    case (Some y)
    then show ?thesis using gone [of y] find_elem [OF Some] unfolding check_dcclist_hand_def by (simp only: option.case)
  qed
  moreover have "s \<in> set (ht_slots ht2)" using d(2) by (simp add: live_filter)
  then have "\<not> dict_reads (u_heap ?st2) ht2 ?old"
    using r(5,6) by (auto simp: dict_reads_def list_all_iff intro!: bexI [of _ s])
  then have "dict_get (u_heap ?st2) ht2 ?old = None" by (simp add: dict_get_def)
  ultimately have "get_user_by_handle ?old ?st2 = None"
    using assms(12-14) by (simp add: get_user_by_handle_def lookup_handle_def Let_def)
  then show ?thesis using ch del by blast
qed

lemma looked_up: "\<exists>st ht. users_reach ucfg0 2 st \<and> user_handle_dict st = Some ht \<and> userlist st = [0] \<and> u_dcc st = [] \<and> lastuser st = None \<and>
  u_heap st = [0 \<mapsto> new_user ucfg0 ''Robey'' None 0]"
proof -
  have ok: "users_ok one_user" using users_reach_ok [OF one_user_reach] by simp
  obtain ht ps where ht: "user_dict_rebuild one_user = Some ht" "mset ps = mset (userlist one_user)" "dict_ok (u_heap one_user) ps ht"
    using rebuild_ok [OF ok] by blast
  have "ps = [0]" using ht(2) by (simp add: one_user mset_single_iff)
  moreover have "own_canon (u_heap one_user) 0 \<noteq> istr_canon ''nobody''"
    by (simp add: one_user own_canon_handle new_user_handle) code_simp
  ultimately have "dict_get (u_heap one_user) ht ''nobody'' = Some None"
    using dict_get_find [OF ht(3), of "''nobody''"] by (simp add: one_user)
  moreover have "rmspace ''nobody'' = ''nobody''" by code_simp
  ultimately have g: "get_user_by_handle ''nobody'' one_user = Some (one_user\<lparr>user_handle_dict := Some ht\<rparr>, None)"
    using ht(1) by (simp add: get_user_by_handle_def lookup_handle_def one_user check_dcclist_hand_def c0_def)
  have "users_reach ucfg0 2 (one_user\<lparr>user_handle_dict := Some ht\<rparr>)"
    using users_reach.call [OF one_user_reach, of "GetUser ''nobody''" "one_user\<lparr>user_handle_dict := Some ht\<rparr>"] g
    by (simp add: cstring_def numeral_2_eq_2)
  then show ?thesis by (intro exI [of _ "one_user\<lparr>user_handle_dict := Some ht\<rparr>"] exI [of _ ht]) (simp add: one_user)
qed

theorem rename_leaves_stale_key_witness:
  "\<exists>st st1 st2. users_reach ucfg0 2 st \<and> change_handle ucfg0 0 ''Bob'' st = Some (st1, 1) \<and>
     deluser ucfg0 ''Bob'' st1 = Some (st2, 1) \<and> get_user_by_handle ''Robey'' st2 = None"
proof -
  obtain st ht where s: "users_reach ucfg0 2 st" "user_handle_dict st = Some ht" "userlist st = [0]"
    "u_heap st = [0 \<mapsto> new_user ucfg0 ''Robey'' None 0]" using looked_up by blast
  have u: "u_heap st 0 = Some (new_user ucfg0 ''Robey'' None 0)" "u_handle (new_user ucfg0 ''Robey'' None 0) = ''Robey''"
    using s(4) by (simp_all add: new_user_handle)
  have "user_of st ''Bob'' = None"
  proof -
    have "istr_canon ''Robey'' \<noteq> istr_canon ''Bob''" by code_simp
    then show ?thesis using s(3) u by (simp add: user_of_def own_canon_handle)
  qed
  moreover have "fix_hash (op_htab_hash_istr ''Bob'') \<noteq> fix_hash (op_htab_hash_istr ''Robey'')" by code_simp
  moreover have "rmspace ''Robey'' = ''Robey''" "op_strcasecmp ''Robey'' EGG_BG_HANDLE \<noteq> 0" by code_simp+
  ultimately show ?thesis
    using rename_leaves_stale_key [OF s(1) _ s(2) _ u(1), of "''Bob''"] s(1,3) u(2) by (auto simp: cstring_def c0_def)
qed

section \<open>Two more\<close>

text \<open>
  C18: a user added to a list that deletions have emptied is not entered into the table that is still there, and cannot be found.
\<close>
theorem adduser_after_last:
  assumes "users_reach cfg n st" "n < 2 ^ 60" "userlist st = []" "user_handle_dict st = Some ht" "cstring handle"
    "cstring key" "rmspace key \<noteq> []" "c0 (rmspace key) \<noteq> CHR ''*''"
  shows "\<exists>st' st''. adduser cfg handle host pass flags st = Some st' \<and> userlist st' = [u_next st] \<and>
    get_user_by_handle key st' = Some (st'', None)"
proof -
  have ok: "users_ok st" using users_reach_ok [OF assms(1,2)] by simp
  let ?s = "share_user cfg handle host pass flags (new_user cfg handle host flags)
      (st\<lparr>u_heap := (u_heap st)(u_next st \<mapsto> new_user cfg handle host flags), u_next := u_next st + 1\<rparr>)"
  have a: "adduser cfg handle host pass flags st = Some (?s\<lparr>userlist := [u_next st]\<rparr>)"
    using assms(3) by (simp add: adduser_def Let_def)
  have l: "lastuser st = None" using users_okD(4) [OF ok] assms(3) by (cases "lastuser st") auto
  have d: "dict_ok (u_heap ?s) [] ht"
  proof -
    obtain ps where "mset ps = mset (userlist st)" "dict_ok (u_heap st) ps ht" using users_okD(5) [OF ok assms(4)] by blast
    then have "dict_ok (u_heap st) [] ht" using assms(3) by simp
    then show ?thesis by (rule dict_ok_heap) simp
  qed
  have "d_user x = None" if "x \<in> set (u_dcc st)" for x
    using users_okD(6) [OF ok that] assms(3) by (auto simp: udcc_ok_def split: option.splits)
  then have "check_dcclist_hand (u_dcc st) (rmspace key) = None"
    using find_elem by (fastforce simp: check_dcclist_hand_def split: option.splits)
  moreover have "dict_get (u_heap ?s) ht (rmspace key) = Some None" using dict_get_find [OF d] by simp
  ultimately have "\<exists>st''. get_user_by_handle key (?s\<lparr>userlist := [u_next st]\<rparr>) = Some (st'', None)"
    using assms(4,7,8) l by (simp add: get_user_by_handle_def lookup_handle_def Let_def)
  then show ?thesis using a by auto
qed

theorem adduser_after_last_witness:
  "\<exists>st st' st''. userlist st = [] \<and> adduser ucfg0 ''Amy'' None ''-'' 0 st = Some st' \<and>
     get_user_by_handle ''Amy'' st' = Some (st'', None)"
proof -
  obtain st ht where s: "users_reach ucfg0 2 st" "user_handle_dict st = Some ht" "userlist st = [0]"
    "u_heap st = [0 \<mapsto> new_user ucfg0 ''Robey'' None 0]" using looked_up by blast
  have ok: "users_ok st" using users_reach_ok [OF s(1)] by simp
  obtain st' k where d: "deluser ucfg0 ''Robey'' st = Some (st', k)" using deluser_ok [OF ok, of "''Robey''" ucfg0] by (auto simp: cstring_def)
  have "op_strcasecmp ''Robey'' ''Robey'' = 0" by code_simp
  then have "userlist st' = []" "\<exists>ht'. user_handle_dict st' = Some ht'"
    using d s by (auto simp: deluser_def if_dict_def new_user_handle Let_def split: option.splits bind_splits if_splits dest!: sym [of "Some _"])
  moreover have "users_reach ucfg0 3 st'"
    using users_reach.call [OF s(1), of "DelUser ''Robey''" st'] d by (simp add: cstring_def numeral_3_eq_3)
  moreover have "rmspace ''Amy'' = ''Amy''" by code_simp
  moreover have "cstring ''Amy''" "rmspace ''Amy'' \<noteq> []" "c0 (rmspace ''Amy'') \<noteq> CHR ''*''" by code_simp+
  ultimately show ?thesis
    using adduser_after_last [of ucfg0 3 st' _ "''Amy''" "''Amy''" None "''-''" 0] by (simp; blast)
qed

text \<open>
  \<open>correct_handle\<close>, which is to replace a handle by the user's own spelling, keeps only the first seven characters of it.
\<close>
theorem correct_handle_truncates:
  assumes "get_user_by_handle handle st = Some (st', Some p)" "u_heap st' p = Some u"
  shows "correct_handle handle st = Some (st', take 7 (u_handle u))"
  using assms by (simp add: correct_handle_def op_strlcpy_take)

theorem correct_handle_truncates_witness:
  "correct_handle ''robertson'' (one_user\<lparr>u_heap := [0 \<mapsto> plain_user ''Robertson'' 0], lastuser := Some 0\<rparr>) =
     Some (one_user\<lparr>u_heap := [0 \<mapsto> plain_user ''Robertson'' 0], lastuser := Some 0\<rparr>, ''Roberts'')"
proof -
  have "rmspace ''robertson'' = ''robertson''" "op_strcasecmp ''Robertson'' ''robertson'' = 0" by code_simp+
  then have "get_user_by_handle ''robertson'' (one_user\<lparr>u_heap := [0 \<mapsto> plain_user ''Robertson'' 0], lastuser := Some 0\<rparr>) =
      Some (one_user\<lparr>u_heap := [0 \<mapsto> plain_user ''Robertson'' 0], lastuser := Some 0\<rparr>, Some 0)"
    by (simp add: get_user_by_handle_def lookup_handle_def plain_user_def c0_def)
  from correct_handle_truncates [OF this] show ?thesis by (simp add: plain_user_def)
qed

end
