(* ===== verification/Isupport.thy ===== *)
theory Isupport
  imports StrUtil HtabMap "HOL-Library.Monad_Syntax"
begin

text \<open>
  The settings a server announces with numeric 005, \<open>src/src/mod/server.mod/isupport.c\<close>: a hash table from upper-case keys to
  records that hold the value the server gave and a default, the limits that are derived from some of the keys, and the text
  form of a line of settings.

  A record is its address; the heap maps the addresses that are allocated to their contents, and an access to a freed record,
  to a missing table or outside of a buffer is \<open>None\<close>.
\<close>

section \<open>The state\<close>

record isupport =
  is_key :: string
  is_value :: "string option"
  is_default :: "string option"

record is_state =
  is_heap :: "nat \<rightharpoonup> isupport"
  is_next :: nat
  isupport_bh :: bool
  isupport_ht :: "(string, nat) op_htab option"
  isupport_max_modes :: int
  isupport_chanlimit :: int
  isupport_channellen :: int
  isupport_hostlen :: int
  isupport_prefix_modes :: string
  isupport_prefix_chars :: string
  is_told :: "(string \<times> string option) list"

text \<open>Before anything was set.\<close>

definition is_start :: is_state where
  "is_start = \<lparr>is_heap = Map.empty, is_next = 0, isupport_bh = False, isupport_ht = None, isupport_max_modes = 3,
     isupport_chanlimit = 25, isupport_channellen = 200, isupport_hostlen = 63, isupport_prefix_modes = [],
     isupport_prefix_chars = [], is_told = []\<rparr>"

text \<open>
  What the \<open>isupport\<close> bindings answer to a change of a key (\<open>check_tcl_isupport\<close>): whether one refuses it.  It may depend on
  what they were told before.
\<close>

type_synonym is_binds = "(string \<times> string option) list \<Rightarrow> string \<Rightarrow> string option \<Rightarrow> bool"

definition check_tcl_isupport :: "is_binds \<Rightarrow> string \<Rightarrow> string option \<Rightarrow> is_state \<Rightarrow> bool \<times> is_state" where
  "check_tcl_isupport binds key value st = (binds (is_told st) key value, st\<lparr>is_told := is_told st @ [(key, value)]\<rparr>)"

section \<open>Numbers\<close>

text \<open>\<open>toupper\<close> of the C locale.\<close>

definition toupper :: "char \<Rightarrow> char" where
  "toupper c = (if 97 \<le> uc c \<and> uc c \<le> 122 then char_of (uc c - 32) else c)"

text \<open>\<open>strtol\<close> with base 0.\<close>

definition strtol_auto :: "string \<Rightarrow> int \<times> string" where
  "strtol_auto s =
     (let t = snd (strtol_sign (dropWhile isspace s))
      in strtol s (if strtol_prefix 16 t \<noteq> t then 16 else if c0 t = CHR ''0'' then 8 else 10))"

text \<open>The number stored and the result code.\<close>

definition isupport_parseint :: "string option \<Rightarrow> int \<Rightarrow> int \<Rightarrow> bool \<Rightarrow> int \<Rightarrow> int \<times> int" where
  "isupport_parseint value mn mx trunc defaultvalue =
     (case value of
        None \<Rightarrow> (defaultvalue, 0)
      | Some value \<Rightarrow>
          let (result, tmp) = strtol_auto value
          in if tmp \<noteq> [] then (defaultvalue, - 1)
             else if (result < mn \<or> mx < result) \<and> \<not> trunc then (defaultvalue, - 2)
             else (to_int32 (if result < mn then mn else if mx < result then mx else result), 0))"

section \<open>The table\<close>

definition add_record :: "string \<Rightarrow> is_state \<Rightarrow> (is_state \<times> nat) option" where
  "add_record key st =
     (let st = (if isupport_bh st then st else st\<lparr>isupport_bh := True, isupport_ht := Some (op_htab_create_str 32)\<rparr>);
          p = is_next st; k = map toupper key
      in case isupport_ht st of
           None \<Rightarrow> None
         | Some ht \<Rightarrow> do {
             (ht, rc, old) \<leftarrow> op_htab_set ht k (Some p);
             Some (st\<lparr>is_heap := (is_heap st)(p \<mapsto> \<lparr>is_key = k, is_value = None, is_default = None\<rparr>), is_next := p + 1,
                      isupport_ht := Some ht\<rparr>, p)
           })"

definition del_record :: "nat \<Rightarrow> is_state \<Rightarrow> is_state option" where
  "del_record p st = do {
     data \<leftarrow> is_heap st p;
     ht \<leftarrow> isupport_ht st;
     (ht, old) \<leftarrow> op_htab_del ht (is_key data);
     Some (st\<lparr>isupport_ht := Some ht, is_heap := (is_heap st)(p := None)\<rparr>)
   }"

text \<open>The look-up folds the first 255 characters of the key.\<close>

definition find_record :: "string \<Rightarrow> is_state \<Rightarrow> nat option" where
  "find_record key st =
     (case isupport_ht st of None \<Rightarrow> None | Some ht \<Rightarrow> op_htab_get ht (map toupper (take 255 key)))"

definition get_record :: "string \<Rightarrow> is_state \<Rightarrow> (is_state \<times> nat) option" where
  "get_record key st = (case find_record key st of Some p \<Rightarrow> Some (st, p) | None \<Rightarrow> add_record key st)"

definition isupport_get_from_record :: "isupport \<Rightarrow> string option" where
  "isupport_get_from_record data = (if is_value data \<noteq> None then is_value data else is_default data)"

definition isupport_get :: "string \<Rightarrow> is_state \<Rightarrow> string option option" where
  "isupport_get key st =
     (case find_record key st of
        None \<Rightarrow> Some None
      | Some p \<Rightarrow> map_option isupport_get_from_record (is_heap st p))"

section \<open>The limits\<close>

definition chanlimit_of :: "string option \<Rightarrow> int" where
  "chanlimit_of val =
     (case val of
        None \<Rightarrow> 25
      | Some v \<Rightarrow>
          (case strchr v CHR '':'' of
             None \<Rightarrow> 25
           | Some i \<Rightarrow>
               let t = drop (i + 1) v; (n, end) = strtol t 10
               in if length end \<noteq> length t \<and> 0 < n then to_int32 n else 25))"

text \<open>The two arrays in parallel, up to their first NUL.\<close>

fun prefix_pairs :: "nat \<Rightarrow> string \<Rightarrow> string \<Rightarrow> string \<times> string" where
  "prefix_pairs (Suc n) (m # ms) (c # cs) = (let (a, b) = prefix_pairs n ms cs in (m # a, c # b))"
| "prefix_pairs _ _ _ = ([], [])"

definition prefix_of :: "string option \<Rightarrow> string \<times> string" where
  "prefix_of val =
     (case val of
        None \<Rightarrow> ([], [])
      | Some v \<Rightarrow>
          if c0 v = CHR ''('' then
            (case strchr (tl v) CHR '')'' of
               None \<Rightarrow> ([], [])
             | Some e \<Rightarrow> prefix_pairs (if 16 \<le> e then 15 else e) (tl v) (drop (e + 1) (tl v)))
          else ([], []))"

definition isupport_apply_dynamic_limits :: "string \<Rightarrow> is_state \<Rightarrow> is_state option" where
  "isupport_apply_dynamic_limits changed_key st =
     (if changed_key = ''MODES'' then do {
        val \<leftarrow> isupport_get ''MODES'' st;
        Some (st\<lparr>isupport_max_modes := fst (isupport_parseint val 1 64 True 3)\<rparr>)
      }
      else if changed_key = ''CHANLIMIT'' then do {
        val \<leftarrow> isupport_get ''CHANLIMIT'' st;
        Some (st\<lparr>isupport_chanlimit := chanlimit_of val\<rparr>)
      }
      else if changed_key = ''CHANNELLEN'' then do {
        val \<leftarrow> isupport_get ''CHANNELLEN'' st;
        Some (st\<lparr>isupport_channellen := fst (isupport_parseint val 1 1024 True 200)\<rparr>)
      }
      else if changed_key = ''HOSTLEN'' then do {
        val \<leftarrow> isupport_get ''HOSTLEN'' st;
        Some (st\<lparr>isupport_hostlen := fst (isupport_parseint val 1 1023 True 63)\<rparr>)
      }
      else if changed_key = ''PREFIX'' then do {
        val \<leftarrow> isupport_get ''PREFIX'' st;
        Some (st\<lparr>isupport_prefix_modes := fst (prefix_of val), isupport_prefix_chars := snd (prefix_of val)\<rparr>)
      }
      else Some st)"

fun prefix_char :: "char \<Rightarrow> string \<Rightarrow> string \<Rightarrow> char" where
  "prefix_char mode (m # ms) (c # cs) = (if m = mode then c else prefix_char mode ms cs)"
| "prefix_char mode _ _ = NUL"

definition isupport_get_prefix_char :: "char \<Rightarrow> is_state \<Rightarrow> char" where
  "isupport_get_prefix_char mode st = prefix_char mode (isupport_prefix_modes st) (isupport_prefix_chars st)"

definition isupport_get_prefixchars :: "is_state \<Rightarrow> string option" where
  "isupport_get_prefixchars st = do {
     str \<leftarrow> isupport_get ''PREFIX'' st;
     Some (case str of
        None \<Rightarrow> ''+%@&~''
      | Some s \<Rightarrow>
          (case strchr s CHR '')'' of
             None \<Rightarrow> ''+%@&~''
           | Some i \<Rightarrow> if drop (i + 1) s \<noteq> [] then drop (i + 1) s else ''+%@&~''))
   }"

section \<open>Changing a setting\<close>

definition isupport_set_value :: "is_binds \<Rightarrow> string \<Rightarrow> string \<Rightarrow> bool \<Rightarrow> is_state \<Rightarrow> is_state option" where
  "isupport_set_value binds key value setdefault st = do {
     (st, p) \<leftarrow> get_record key st;
     data \<leftarrow> is_heap st p;
     if setdefault \<and> is_default data = Some value then Some st
     else if \<not> setdefault \<and> is_value data = Some value then Some st
     else
       let old = isupport_get_from_record data;
           (ret, st) = (if old \<noteq> Some value then check_tcl_isupport binds (is_key data) (Some value) st else (False, st))
       in if \<not> setdefault \<and> ret then
            (if is_default data = None \<and> is_value data = None then del_record p st else Some st)
          else
            isupport_apply_dynamic_limits (is_key data)
              (st\<lparr>is_heap := (is_heap st)(p \<mapsto> (if setdefault then data\<lparr>is_default := Some value\<rparr> else data\<lparr>is_value := Some value\<rparr>))\<rparr>)
   }"

definition isupport_set :: "is_binds \<Rightarrow> string \<Rightarrow> string \<Rightarrow> is_state \<Rightarrow> is_state option" where
  "isupport_set binds key value st = isupport_set_value binds key value False st"

definition isupport_setdefault :: "is_binds \<Rightarrow> string \<Rightarrow> string \<Rightarrow> is_state \<Rightarrow> is_state option" where
  "isupport_setdefault binds key value st = isupport_set_value binds key value True st"

definition isupport_unset :: "is_binds \<Rightarrow> string \<Rightarrow> is_state \<Rightarrow> is_state option" where
  "isupport_unset binds key st =
     (case find_record key st of
        None \<Rightarrow> Some st
      | Some p \<Rightarrow> do {
          data \<leftarrow> is_heap st p;
          if is_value data = None then Some st
          else let (ret, st) = check_tcl_isupport binds (is_key data) None st
            in if ret then Some st
               else if is_default data \<noteq> None then
                 isupport_apply_dynamic_limits (is_key data) (st\<lparr>is_heap := (is_heap st)(p \<mapsto> data\<lparr>is_value := None\<rparr>)\<rparr>)
               else do {
                 st \<leftarrow> del_record p st;
                 isupport_apply_dynamic_limits (op_strlcpy [] (is_key data) 256) st
               }
        })"

text \<open>One record in \<open>isupport_clear_values\<close>; the flag tells that it is to be deleted.\<close>

definition clear_record :: "is_binds \<Rightarrow> bool \<Rightarrow> nat \<Rightarrow> isupport \<Rightarrow> is_state \<Rightarrow> is_state \<times> bool" where
  "clear_record binds clr p data st =
     (if clr \<and> is_default data \<noteq> None \<or> \<not> clr \<and> is_value data \<noteq> None then
        if clr \<and> is_value data \<noteq> None then (st\<lparr>is_heap := (is_heap st)(p \<mapsto> data\<lparr>is_default := None\<rparr>)\<rparr>, False)
        else if \<not> clr \<and> is_default data \<noteq> None then
          (if is_value data = is_default data then (st\<lparr>is_heap := (is_heap st)(p \<mapsto> data\<lparr>is_value := None\<rparr>)\<rparr>, False)
           else let (ret, st) = check_tcl_isupport binds (is_key data) (is_default data) st
             in (if ret then st else st\<lparr>is_heap := (is_heap st)(p \<mapsto> data\<lparr>is_value := None\<rparr>)\<rparr>, False))
        else let (ret, st) = check_tcl_isupport binds (is_key data) None st in (st, \<not> ret)
      else (st, False))"

fun clear_loop :: "nat \<Rightarrow> is_binds \<Rightarrow> bool \<Rightarrow> op_htab_iter \<Rightarrow> (string, nat) op_htab \<Rightarrow> is_state \<Rightarrow> is_state option" where
  "clear_loop 0 binds clr it ht st = None"
| "clear_loop (Suc n) binds clr it ht st =
     (case op_htab_iter_next ht it of
        (it, None) \<Rightarrow> Some (st\<lparr>isupport_ht := Some ht\<rparr>)
      | (it, Some s) \<Rightarrow> do {
          p \<leftarrow> hs_val s;
          data \<leftarrow> is_heap st p;
          let (st, del) = clear_record binds clr p data st;
          if del then do {
            (ht, it, v) \<leftarrow> op_htab_iter_del ht it;
            clear_loop n binds clr it ht (st\<lparr>is_heap := (is_heap st)(p := None)\<rparr>)
          }
          else clear_loop n binds clr it ht st
        })"

text \<open>Every step visits a slot or removes an entry.\<close>

definition isupport_clear_values :: "is_binds \<Rightarrow> bool \<Rightarrow> is_state \<Rightarrow> is_state option" where
  "isupport_clear_values binds clr st =
     (case isupport_ht st of
        None \<Rightarrow> Some st
      | Some ht \<Rightarrow> clear_loop (2 * length (ht_slots ht) + 1) binds clr op_htab_iter_init ht st)"

text \<open>The records of the table are freed in its order.\<close>

fun free_records :: "(string, nat) op_htab_slot list \<Rightarrow> is_state \<Rightarrow> is_state option" where
  "free_records [] st = Some st"
| "free_records (s # ss) st =
     (if hs_hash s = 0 then free_records ss st
      else do {
        p \<leftarrow> hs_val s;
        data \<leftarrow> is_heap st p;
        free_records ss (st\<lparr>is_heap := (is_heap st)(p := None)\<rparr>)
      })"

definition isupport_clear :: "is_state \<Rightarrow> is_state option" where
  "isupport_clear st =
     (case isupport_ht st of
        None \<Rightarrow> Some st
      | Some ht \<Rightarrow> map_option (\<lambda>st. st\<lparr>isupport_ht := None\<rparr>) (free_records (ht_slots ht) st))"

definition isupport_fini :: "is_state \<Rightarrow> is_state option" where
  "isupport_fini st = map_option (\<lambda>st. st\<lparr>isupport_bh := False\<rparr>) (isupport_clear st)"

section \<open>The text form\<close>

definition hexdigit2dec :: "char \<Rightarrow> int option" where
  "hexdigit2dec c =
     (if 128 \<le> uc c then None
      else Some (if 48 \<le> uc c \<and> uc c \<le> 57 then int (uc c) - 48
        else if 65 \<le> uc c \<and> uc c \<le> 70 then int (uc c) - 55
        else if 97 \<le> uc c \<and> uc c \<le> 102 then int (uc c) - 87
        else - 1))"

fun hex2chr_loop :: "string \<Rightarrow> nat \<Rightarrow> int \<Rightarrow> int option" where
  "hex2chr_loop s 0 result = Some (if result \<noteq> 0 then result else - 1)"
| "hex2chr_loop s (Suc digits) result = do {
     digit \<leftarrow> hexdigit2dec (c0 s);
     if digit = - 1 then Some (- 1) else hex2chr_loop (tl s) digits (result * 16 + digit)
   }"

definition isupport_hex2chr :: "string \<Rightarrow> nat \<Rightarrow> int option" where
  "isupport_hex2chr s digits = hex2chr_loop s digits 0"

definition hex_digit :: "nat \<Rightarrow> char" where
  "hex_digit n = ''0123456789abcdef'' ! n"

fun encode_loop :: "string \<Rightarrow> string \<Rightarrow> string" where
  "encode_loop [] out = out"
| "encode_loop (c # s) out =
     (if length out < 512 - 4 - 1 then
        (if uc c < 33 \<or> 126 < uc c
         then encode_loop s (out @ [CHR 0x5C, CHR ''x'', hex_digit (drop_bit 4 (uc c)), hex_digit (uc c AND 0xf)])
         else encode_loop s (out @ [c]))
      else out)"

definition isupport_encode :: "string \<Rightarrow> string" where
  "isupport_encode value = encode_loop value []"

text \<open>
  The decoder: what is left of the text, how much of it belongs to the value, the state of the escape and what was written.
  It tests for room before a character, of which it may write three.
\<close>

definition dec_rollback :: "nat \<Rightarrow> char \<Rightarrow> string \<Rightarrow> string" where
  "dec_rollback state ch out =
     out @ (if 0 < state then [CHR 0x5C] else []) @ (if 1 < state then [CHR ''x''] else []) @ [ch]"

function decode_loop :: "nat \<Rightarrow> string \<Rightarrow> nat \<Rightarrow> nat \<Rightarrow> string \<Rightarrow> string option" where
  "decode_loop bufsize s len state out =
     (if len = 0 \<or> \<not> length out < bufsize - 1 \<or> s = [] then Some out
      else
        let ch = hd s in
        if state = 0 \<and> ch = CHR 0x5C then decode_loop bufsize (tl s) (len - 1) 1 out
        else if state = 1 then
          (if ch \<noteq> CHR ''x'' then decode_loop bufsize (tl s) (len - 1) 0 (dec_rollback state ch out)
           else decode_loop bufsize (tl s) (len - 1) 2 out)
        else if state = 2 then
          (case isupport_hex2chr s 2 of
             None \<Rightarrow> None
           | Some h \<Rightarrow>
               if h = - 1 then decode_loop bufsize (tl s) (len - 1) 0 (dec_rollback state ch out)
               else decode_loop bufsize (tl (tl s)) (len - 2) 0 (out @ [char_of (nat h)]))
        else decode_loop bufsize (tl s) (len - 1) 0 (dec_rollback state ch out))"
  by pat_completeness auto
termination by (relation "measure (\<lambda>(_, s, _). length s)") auto

declare decode_loop.simps [simp del]

definition isupport_decode :: "nat \<Rightarrow> string \<Rightarrow> nat \<Rightarrow> string option" where
  "isupport_decode bufsize value len =
     (case decode_loop bufsize value len 0 [] of
        None \<Rightarrow> None
      | Some out \<Rightarrow> if length out < bufsize then Some out else None)"

lemma sp_head: "t = dropWhile (\<lambda>c. c = CHR '' '') s \<Longrightarrow> t \<noteq> [] \<Longrightarrow> c0 t \<noteq> CHR '' ''"
  by (induction s) (auto split: if_splits)

lemma key_len:
  "key \<noteq> [] \<Longrightarrow> c0 key \<noteq> CHR '' '' \<Longrightarrow> c0 key \<noteq> CHR ''='' \<Longrightarrow>
     0 < length (takeWhile (\<lambda>c. c \<noteq> CHR ''='' \<and> c \<noteq> CHR '' '') key)"
  by (cases key) auto

text \<open>
  A line of settings.  After a setting the scan goes on behind as many characters as the decoded value has.
\<close>

function isupport_parse :: "(string \<Rightarrow> string \<Rightarrow> 's \<Rightarrow> 's option) \<Rightarrow> string \<Rightarrow> 's \<Rightarrow> 's option" where
  "isupport_parse set_cb str st =
     (let key = dropWhile (\<lambda>c. c = CHR '' '') str in
      if key = [] \<or> c0 key = CHR '':'' then Some st
      else
        let keylen = length (takeWhile (\<lambda>c. c \<noteq> CHR ''='' \<and> c \<noteq> CHR '' '') key) in
        if c0 key = CHR ''-'' then isupport_parse set_cb (drop keylen key) st
        else
          let off = keylen + (if c0 (drop keylen key) = CHR ''='' then 1 else 0);
              value = drop off key;
              valuelen = length (takeWhile (\<lambda>c. c \<noteq> CHR '' '') value) in
          (case isupport_decode 512 value valuelen of
             None \<Rightarrow> None
           | Some buf \<Rightarrow>
               (case set_cb (take keylen key) buf st of
                  None \<Rightarrow> None
                | Some st \<Rightarrow> isupport_parse set_cb (drop (off + length buf) key) st)))"
  by pat_completeness auto
termination
proof (relation "measure (\<lambda>(_, str, _). length str)", goal_cases)
  case (2 set_cb str st key keylen)
  have "0 < keylen" using 2 key_len [of key] by simp
  moreover have "length key \<le> length str" unfolding 2(1) by (rule length_dropWhile_le)
  moreover have "0 < length key" using 2(2) by simp
  ultimately show ?case by (simp only: in_measure split_conv length_drop; linarith?)
next
  case (3 set_cb str st key keylen off val valuelen buf st')
  have "key \<noteq> []" using 3(2) by simp
  then have "c0 key \<noteq> CHR '' ''" by (rule sp_head [OF 3(1)])
  then have "0 < off" using 3(3,5) key_len [OF \<open>key \<noteq> []\<close>] by (cases "c0 key = CHR ''=''") auto
  moreover have "length key \<le> length str" unfolding 3(1) by (rule length_dropWhile_le)
  moreover have "0 < length key" using \<open>key \<noteq> []\<close> by simp
  ultimately show ?case by (simp only: in_measure split_conv length_drop; linarith?)
qed auto

declare isupport_parse.simps [simp del]

text \<open>\<open>got005\<close>: the nick of the bot, then the settings.\<close>

definition got005 :: "is_binds \<Rightarrow> string \<Rightarrow> is_state \<Rightarrow> is_state option" where
  "got005 binds msg st = isupport_parse (isupport_set binds) (snd (newsplit msg)) st"

text \<open>\<open>isupport_preconnect\<close>; the text is the variable \<open>isupport-default\<close> where it is set.\<close>

definition isupport_default_text :: string where
  "isupport_default_text = ''CASEMAPPING=rfc1459 CHANNELLEN=200 NICKLEN=9 CHANTYPES=#& PREFIX=(ov)@+ CHANMODES=b,k,l,imnpst MODES=3 MAXCHANNELS=10 TOPICLEN=250 KICKLEN=250 STATUSMSG=@+''"

definition isupport_preconnect :: "is_binds \<Rightarrow> string option \<Rightarrow> is_state \<Rightarrow> is_state option" where
  "isupport_preconnect binds var st =
     isupport_parse (isupport_setdefault binds) (case var of None \<Rightarrow> isupport_default_text | Some t \<Rightarrow> t) st"

end
