(* ===== verification/IsupportText.thy ===== *)
theory IsupportText
  imports Isupport
begin

text \<open>The text form of the settings: the escapes of a value, and what a line of settings is read as.\<close>

section \<open>The decoder\<close>

definition plain :: "char \<Rightarrow> bool" where
  "plain c \<longleftrightarrow> c \<noteq> CHR 0x5C"

lemma decode_end [simp]: "decode_loop n s 0 k out = Some out"
  by (subst decode_loop.simps) simp

lemma decode_plain:
  assumes "list_all plain a" "length out + length a < n"
  shows "decode_loop n (a @ s) (length a + len) 0 out = decode_loop n s len 0 (out @ a)"
  using assms
proof (induction a arbitrary: out)
  case (Cons c a)
  then show ?case
    by (subst decode_loop.simps) (auto simp: plain_def dec_rollback_def)
qed simp

text \<open>An escape of a byte that is not NUL.\<close>

definition hex_of :: "char \<Rightarrow> string" where
  "hex_of c = [CHR 0x5C, CHR ''x'', hex_digit (drop_bit 4 (uc c)), hex_digit (uc c AND 0xf)]"

lemma length_hex_of: "length (hex_of c) = 4"
  by (simp add: hex_of_def)

lemma hexdigit2dec_hex_digit: "n < 16 \<Longrightarrow> hexdigit2dec (hex_digit n) = Some (int n)"
proof -
  have "\<forall>n \<in> set [0..<16]. hexdigit2dec (hex_digit n) = Some (int n)" by code_simp
  then show "n < 16 \<Longrightarrow> hexdigit2dec (hex_digit n) = Some (int n)" by simp
qed

lemma and_15: "(m :: nat) AND 0xf = m mod 16"
  using take_bit_eq_mask [of 4 m] by (simp add: take_bit_eq_mod mask_eq_exp_minus_1)

lemma nibbles: "drop_bit 4 (uc c) < 16" "uc c AND 0xf < 16"
  using uc_less [of c] by (simp_all add: drop_bit_eq_div and_15 del: uc_less)

lemma hex_of_no_space: "CHR '' '' \<notin> set (hex_of c)"
proof -
  have "\<forall>n \<in> set [0..<16]. hex_digit n \<noteq> CHR '' ''" by code_simp
  then have "n < 16 \<Longrightarrow> hex_digit n \<noteq> CHR '' ''" for n by simp
  from this [OF nibbles(1) [of c]] this [OF nibbles(2) [of c]] show ?thesis by (auto simp: hex_of_def)
qed

lemma hex2chr_hex_of:
  assumes "c \<noteq> NUL"
  shows "isupport_hex2chr (tl (tl (hex_of c)) @ s) 2 = Some (int (uc c))"
proof -
  have "drop_bit 4 (uc c) * 16 + (uc c AND 0xf) = uc c"
    unfolding and_15 using div_mult_mod_eq [of "uc c" 16] by (simp add: drop_bit_eq_div)
  then have "int (drop_bit 4 (uc c)) * 16 + int (uc c AND 0xf) = int (uc c)" by (simp flip: of_nat_mult of_nat_add)
  moreover have "uc c \<noteq> 0" using assms uc_pos [of c] by simp
  ultimately show ?thesis
    using nibbles [of c] by (simp add: isupport_hex2chr_def hex_of_def numeral_2_eq_2 hexdigit2dec_hex_digit)
qed

lemma decode_hex:
  assumes "c \<noteq> NUL" "length out + 1 < n"
  shows "decode_loop n (hex_of c @ s) (4 + len) 0 out = decode_loop n s len 0 (out @ [c])"
proof -
  let ?t = "tl (tl (hex_of c)) @ s"
  have r: "length out < n - Suc 0" using assms(2) by linarith
  have "decode_loop n (hex_of c @ s) (4 + len) 0 out = decode_loop n ?t (2 + len) 2 out"
    using r by (subst decode_loop.simps, subst decode_loop.simps) (simp add: hex_of_def)
  also have "\<dots> = decode_loop n s len 0 (out @ [c])"
    using r hex2chr_hex_of [OF assms(1), of s] uc_pos [of c]
    by (subst decode_loop.simps) (simp add: hex_of_def)
  finally show ?thesis .
qed

lemma decode_grows:
  "decode_loop n s len k out = Some r \<Longrightarrow> k \<le> 2 \<Longrightarrow> length out \<le> length r \<and> length r \<le> length out + k + len"
proof (induction "length s" arbitrary: s len k out rule: less_induct)
  case less
  show ?case
  proof (cases "len = 0 \<or> \<not> length out < n - 1 \<or> s = []")
    case True
    then show ?thesis using less.prems by (subst (asm) decode_loop.simps) auto
  next
    case False
    then have l: "length (tl s) < length s" "length (tl (tl s)) < length s" by (cases s; simp)+
    show ?thesis
      using False less.prems by (subst (asm) decode_loop.simps)
        (auto simp: Let_def dec_rollback_def split: if_splits option.splits dest!: less.hyps [OF l(1)] less.hyps [OF l(2)])
  qed
qed

lemma hex2chr_ascii: "list_all (\<lambda>c. uc c < 128) s \<Longrightarrow> hex2chr_loop s d r \<noteq> None"
proof (induction d arbitrary: s r)
  case (Suc d)
  then have "uc (c0 s) < 128" "list_all (\<lambda>c. uc c < 128) (tl s)" by (cases s; simp)+
  then show ?case using Suc.IH [of "tl s"] by (simp add: hexdigit2dec_def)
qed simp

lemma decode_ascii: "list_all (\<lambda>c. uc c < 128) s \<Longrightarrow> \<exists>r. decode_loop n s len k out = Some r"
proof (induction "length s" arbitrary: s len k out rule: less_induct)
  case less
  show ?case
  proof (cases "len = 0 \<or> \<not> length out < n - 1 \<or> s = []")
    case True
    then show ?thesis by (subst decode_loop.simps) simp
  next
    case False
    obtain h where h: "isupport_hex2chr s 2 = Some h"
      using hex2chr_ascii [OF less.prems] by (auto simp: isupport_hex2chr_def)
    have t: "list_all (\<lambda>c. uc c < 128) (tl s)" "list_all (\<lambda>c. uc c < 128) (tl (tl s))"
      using less.prems by (cases s; cases "tl s"; simp)+
    have l: "length (tl s) < length s" "length (tl (tl s)) < length s" using False by (cases s; simp)+
    show ?thesis
      using False h by (subst decode_loop.simps) (simp add: Let_def less.hyps [OF l(1) t(1)] less.hyps [OF l(2) t(2)])
  qed
qed

lemma decode_fits:
  assumes "list_all (\<lambda>c. uc c < 128) s" "len < n"
  shows "\<exists>r. isupport_decode n s len = Some r \<and> length r \<le> len"
proof -
  obtain r where r: "decode_loop n s len 0 [] = Some r" using decode_ascii [OF assms(1), of n len 0 "[]"] by blast
  then have "length r \<le> len" using decode_grows [OF r] by simp
  then show ?thesis using r assms(2) by (simp add: isupport_decode_def)
qed

section \<open>There and back\<close>

definition enc1 :: "char \<Rightarrow> string" where
  "enc1 c = (if uc c < 33 \<or> 126 < uc c then hex_of c else [c])"

lemma encode_loop_concat:
  "length out + 4 * length v \<le> 508 \<Longrightarrow> encode_loop v out = out @ concat (map enc1 v)"
  by (induction v arbitrary: out) (auto simp: enc1_def hex_of_def)

lemma decode_encoded:
  assumes "list_all plain v" "cstring v" "length out + length v < n"
  shows "decode_loop n (concat (map enc1 v)) (length (concat (map enc1 v))) 0 out = Some (out @ v)"
  using assms
proof (induction v arbitrary: out)
  case (Cons c v)
  let ?s = "concat (map enc1 v)"
  have "decode_loop n (enc1 c @ ?s) (length (enc1 c) + length ?s) 0 out = decode_loop n ?s (length ?s) 0 (out @ [c])"
  proof (cases "uc c < 33 \<or> 126 < uc c")
    case True
    then show ?thesis using Cons.prems decode_hex [of c out n ?s "length ?s"] by (simp add: enc1_def length_hex_of)
  next
    case False
    then show ?thesis using Cons.prems decode_plain [of "[c]" out n ?s "length ?s"] by (simp add: enc1_def)
  qed
  also have "\<dots> = Some ((out @ [c]) @ v)" using Cons.prems by (intro Cons.IH) simp_all
  finally show ?case by simp
qed simp

text \<open>
  A value without a backslash survives encoding and decoding, with any bytes in it, as long as its escaped form fits into the
  buffer of the encoder.
\<close>
theorem isupport_encode_decode:
  assumes "list_all plain v" "cstring v" "4 * length v \<le> 508"
  shows "isupport_decode 512 (isupport_encode v) (length (isupport_encode v)) = Some v"
  using assms encode_loop_concat [of "[]" v] decode_encoded [of v "[]" 512]
  by (simp add: isupport_decode_def isupport_encode_def)

theorem isupport_encode_decode_witness:
  "isupport_encode ''My Net'' = ''My'' @ [CHR 0x5C] @ ''x20Net'' \<and> isupport_decode 512 (isupport_encode ''My Net'') 9 = Some ''My Net''"
proof -
  have e: "isupport_encode ''My Net'' = ''My'' @ [CHR 0x5C] @ ''x20Net''" by code_simp
  have "list_all plain ''My Net''" "cstring ''My Net''" "4 * length ''My Net'' \<le> 508" by (simp_all add: plain_def)
  from isupport_encode_decode [OF this] have "isupport_decode 512 (isupport_encode ''My Net'') 9 = Some ''My Net''"
    unfolding e by (simp add: numeral_eq_Suc)
  then show ?thesis using e by blast
qed

section \<open>A buffer too small\<close>

text \<open>
  The decoder tests for room once and then may write three characters: a value with a broken escape at the end of the buffer
  is written past it.
\<close>
theorem isupport_decode_overruns:
  assumes "list_all plain a" "length a + 2 = n" "isupport_hex2chr (h # s) 2 = Some (- 1)" "3 \<le> len"
  shows "\<exists>out. decode_loop n (a @ [CHR 0x5C, CHR ''x'', h] @ s) (length a + len) 0 [] = Some out \<and> length out = n + 1 \<and>
    isupport_decode n (a @ [CHR 0x5C, CHR ''x'', h] @ s) (length a + len) = None"
proof -
  let ?out = "a @ [CHR 0x5C, CHR ''x'', h]"
  obtain l where l: "len = Suc (Suc (Suc l))" using assms(4) by (auto simp: le_iff_add)
  have r: "length a < n - Suc 0" "\<not> length ?out < n - Suc 0" using assms(2) by auto
  have "decode_loop n (a @ [CHR 0x5C, CHR ''x'', h] @ s) (length a + len) 0 [] =
      decode_loop n ([CHR 0x5C, CHR ''x'', h] @ s) len 0 a"
    using decode_plain [OF assms(1), of "[]" n "[CHR 0x5C, CHR ''x'', h] @ s" len] assms(2) by simp
  also have "\<dots> = decode_loop n (h # s) (Suc l) 2 a"
    using r by (subst decode_loop.simps, subst decode_loop.simps) (simp add: l)
  also have "\<dots> = decode_loop n s l 0 ?out"
    using r(1) assms(3) by (subst decode_loop.simps) (simp add: dec_rollback_def)
  also have "\<dots> = Some ?out" using r(2) by (subst decode_loop.simps) simp
  finally show ?thesis using assms(2) by (simp add: isupport_decode_def)
qed

theorem isupport_decode_overruns_witness:
  "isupport_decode 512 (replicate 510 CHR ''a'' @ [CHR 0x5C, CHR ''x'', CHR ''-''] @ ''z'') 514 = None"
proof -
  have "isupport_hex2chr (CHR ''-'' # ''z'') 2 = Some (- 1)" by code_simp
  then show ?thesis
    using isupport_decode_overruns [of "replicate 510 CHR ''a''" 512 "CHR ''-''" "''z''" 4] by (auto simp: plain_def list_all_iff)
qed

section \<open>A line of settings\<close>

text \<open>The characters of a word with no special meaning.\<close>

definition wordc :: "char \<Rightarrow> bool" where
  "wordc c \<longleftrightarrow> plain c \<and> c \<notin> {CHR '' '', CHR ''='', CHR '':'', CHR ''-''}"

text \<open>The reference: the words of the line up to the first that starts with a colon, each cut at its first equals sign.\<close>

function words :: "string \<Rightarrow> string list" where
  "words s =
     (let t = dropWhile (\<lambda>c. c = CHR '' '') s
      in if t = [] then [] else takeWhile (\<lambda>c. c \<noteq> CHR '' '') t # words (dropWhile (\<lambda>c. c \<noteq> CHR '' '') t))"
  by pat_completeness auto
termination
proof (relation "measure length", goal_cases)
  case (2 s t)
  obtain c u where t: "t = c # u" "c \<noteq> CHR '' ''"
    using sp_head [OF 2] 2(2) by (cases t) simp_all
  have "length (dropWhile (\<lambda>c. c \<noteq> CHR '' '') t) < length t" using t length_dropWhile_le [of _ u] by (simp add: less_Suc_eq_le)
  moreover have "length t \<le> length s" unfolding 2(1) by (rule length_dropWhile_le)
  ultimately show ?case by simp
qed simp

declare words.simps [simp del]

definition setting :: "string \<Rightarrow> string \<times> string" where
  "setting w = (takeWhile (\<lambda>c. c \<noteq> CHR ''='') w, drop 1 (dropWhile (\<lambda>c. c \<noteq> CHR ''='') w))"

definition settings :: "string \<Rightarrow> (string \<times> string) list" where
  "settings str = map setting (filter (\<lambda>w. c0 w \<noteq> CHR ''-'') (takeWhile (\<lambda>w. c0 w \<noteq> CHR '':'') (words str)))"

fun set_all :: "(string \<Rightarrow> string \<Rightarrow> 'a \<Rightarrow> 'a option) \<Rightarrow> (string \<times> string) list \<Rightarrow> 'a \<Rightarrow> 'a option" where
  "set_all cb [] st = Some st"
| "set_all cb ((k, v) # xs) st = (case cb k v st of None \<Rightarrow> None | Some st \<Rightarrow> set_all cb xs st)"

lemma decode_value:
  assumes "list_all plain v" "length v < n"
  shows "isupport_decode n (v @ s) (length v) = Some v"
  using decode_plain [OF assms(1), of "[]" n s 0] assms(2) by (simp add: isupport_decode_def)

lemma drop_takeWhile: "drop (length (takeWhile P xs)) xs = dropWhile P xs"
  by (induction xs) auto

lemma sp_stop: "c0 (dropWhile (\<lambda>c. c \<noteq> CHR '' '') t) = CHR '' '' \<or> dropWhile (\<lambda>c. c \<noteq> CHR '' '') t = []"
  by (induction t) auto

lemma setting_key: "CHR ''='' \<notin> set w \<Longrightarrow> setting w = (w, [])"
  by (induction w) (auto simp: setting_def)

lemma cut_word:
  assumes "t = w @ r" "CHR '' '' \<notin> set w" "c0 r = CHR '' '' \<or> r = []"
  shows "takeWhile (\<lambda>c. c \<noteq> CHR ''='' \<and> c \<noteq> CHR '' '') t = takeWhile (\<lambda>c. c \<noteq> CHR ''='') w"
proof -
  have "takeWhile (\<lambda>c. c \<noteq> CHR ''='' \<and> c \<noteq> CHR '' '') (w @ r) = takeWhile (\<lambda>c. c \<noteq> CHR ''='') w"
    using assms(2,3) by (induction w) (cases r; auto)+
  then show ?thesis using assms(1) by simp
qed

text \<open>One word of the line.\<close>

lemma parse_word:
  assumes "dropWhile (\<lambda>c. c = CHR '' '') str = w @ r" "w \<noteq> []" "CHR '' '' \<notin> set w" "c0 r = CHR '' '' \<or> r = []"
    "c0 w \<noteq> CHR '':''" "list_all plain w" "length w < 512" "c0 w = CHR ''-'' \<longrightarrow> CHR ''='' \<notin> set w"
  shows "isupport_parse cb str st =
    (if c0 w = CHR ''-'' then isupport_parse cb r st
     else case cb (fst (setting w)) (snd (setting w)) st of None \<Rightarrow> None | Some st \<Rightarrow> isupport_parse cb r st)"
proof -
  let ?t = "w @ r"
  let ?k = "takeWhile (\<lambda>c. c \<noteq> CHR ''='') w" and ?d = "dropWhile (\<lambda>c. c \<noteq> CHR ''='') w"
  have c: "c0 ?t = c0 w" using assms(2) by (cases w) auto
  have k: "takeWhile (\<lambda>c. c \<noteq> CHR ''='' \<and> c \<noteq> CHR '' '') ?t = ?k" using cut_word [OF refl assms(3,4)] .
  have w: "w = ?k @ ?d" by simp
  have dk: "drop (length ?k) ?t = ?d @ r" using length_takeWhile_le [of "\<lambda>c. c \<noteq> CHR ''=''" w] by (simp add: drop_takeWhile)
  have tk: "take (length ?k) ?t = ?k"
  proof -
    have "take (length ?k) (?k @ ?d @ r) = ?k" by (simp only: take_append take_all order_refl diff_self_eq_0 diff_0_eq_0 take_0 append_Nil append_Nil2)
    then show ?thesis by (simp flip: append_assoc)
  qed
  show ?thesis
  proof (cases "c0 w = CHR ''-''")
    case True
    then have "?k = w" using assms(8) by (intro takeWhile_eq_all_conv [THEN iffD2]) auto
    with k have "takeWhile (\<lambda>c. c \<noteq> CHR ''='' \<and> c \<noteq> CHR '' '') ?t = w" by (rule trans)
    then show ?thesis using True c assms(2,5) by (subst isupport_parse.simps) (simp add: assms(1) Let_def)
  next
    case False
    show ?thesis
    proof (cases ?d)
      case Nil
      have ne: "CHR ''='' \<notin> set w" using Nil unfolding dropWhile_eq_Nil_conv by blast
      from Nil have "?k = w" using w by simp
      with k have kw: "takeWhile (\<lambda>c. c \<noteq> CHR ''='' \<and> c \<noteq> CHR '' '') ?t = w" by (rule trans)
      have r: "c0 r \<noteq> CHR ''=''" "takeWhile (\<lambda>c. c \<noteq> CHR '' '') r = []" using assms(4) by (cases r; auto)+
      have "isupport_decode 512 r 0 = Some []" using decode_value [of "[]" 512 r] by simp
      then show ?thesis
        using False c assms(2,5) kw r
        by (subst isupport_parse.simps) (simp add: assms(1) Let_def setting_key [OF ne] cong: option.case_cong)
    next
      case (Cons e v)
      have e: "e = CHR ''=''" using Cons hd_dropWhile [of "\<lambda>c. c \<noteq> CHR ''=''" w] by auto
      have wv: "w = ?k @ e # v" using w Cons by simp
      have "set v \<subseteq> set w" "length v \<le> length w" using arg_cong [OF wv, of set] arg_cong [OF wv, of length] by auto
      then have sv: "CHR '' '' \<notin> set v" "list_all plain v" "length v < 512" using assms(3,6,7) by (auto simp: list_all_iff)
      have tv: "takeWhile (\<lambda>c. c \<noteq> CHR '' '') (v @ r) = v" using sv(1) assms(4) by (cases r) (auto simp: takeWhile_append)
      have d1: "drop (Suc (length ?k)) ?t = v @ r"
      proof -
        have "drop (Suc (length ?k)) ?t = drop 1 (drop (length ?k) ?t)" by (simp del: drop_append)
        then show ?thesis unfolding dk Cons by simp
      qed
      have d2: "drop (Suc (length ?k + length v)) ?t = r"
      proof -
        have "drop (Suc (length ?k + length v)) ?t = drop (length v) (drop (Suc (length ?k)) ?t)" by (simp add: add.commute del: drop_append)
        then show ?thesis unfolding d1 by simp
      qed
      have st: "setting w = (?k, v)" by (simp add: setting_def Cons)
      define t where "t = ?t"
      define kk where "kk = ?k"
      have f: "dropWhile (\<lambda>c. c = CHR '' '') str = t" "t \<noteq> []" "c0 t = c0 w" "drop (length kk) t = e # v @ r"
        "takeWhile (\<lambda>c. c \<noteq> CHR ''='' \<and> c \<noteq> CHR '' '') t = kk" "take (length kk) t = kk" "setting w = (kk, v)"
        "drop (Suc (length kk)) t = v @ r" "drop (Suc (length kk + length v)) t = r"
        unfolding t_def kk_def using assms(1,2) c k dk Cons tk st d1 d2 by simp_all
      show ?thesis
        using False assms(5) decode_value [OF sv(2,3), of r] f tv e
        by (subst isupport_parse.simps) (simp add: Let_def cong: option.case_cong)
    qed
  qed
qed

text \<open>
  A line without backslashes is read as its settings, in order: every word up to the first that starts with a colon is a key and, behind
  its first equals sign, the value; words that start with a minus sign and have no value are skipped.
\<close>
theorem isupport_parse_settings:
  assumes "list_all plain str" "length str < 512" "\<forall>w \<in> set (words str). c0 w = CHR ''-'' \<longrightarrow> CHR ''='' \<notin> set w"
  shows "isupport_parse cb str st = set_all cb (settings str) st"
  using assms
proof (induction "length str" arbitrary: str st rule: less_induct)
  case less
  let ?t = "dropWhile (\<lambda>c. c = CHR '' '') str"
  let ?w = "takeWhile (\<lambda>c. c \<noteq> CHR '' '') ?t" and ?r = "dropWhile (\<lambda>c. c \<noteq> CHR '' '') ?t"
  show ?case
  proof (cases "?t = []")
    case True
    then show ?thesis
      by (subst isupport_parse.simps) (simp add: settings_def words.simps [of str] Let_def del: dropWhile_eq_Nil_conv)
  next
    case False
    have h: "c0 ?t \<noteq> CHR '' ''" using sp_head [OF refl False] .
    then have wne: "?w \<noteq> []" and c: "c0 ?w = c0 ?t" using False by (cases ?t; simp)+
    have ws: "words str = ?w # words ?r" using False by (subst words.simps) (simp add: Let_def del: dropWhile_eq_Nil_conv)
    show ?thesis
    proof (cases "c0 ?w = CHR '':''")
      case True
      then show ?thesis
        using False c by (subst isupport_parse.simps) (simp add: settings_def ws Let_def del: dropWhile_eq_Nil_conv)
    next
      case nc: False
      have r: "c0 ?r = CHR '' '' \<or> ?r = []" by (rule sp_stop)
      have sp: "CHR '' '' \<notin> set ?w" using set_takeWhileD [of "CHR '' ''" "\<lambda>c. c \<noteq> CHR '' ''" ?t] by blast
      have lt: "length ?t \<le> length str" by (rule length_dropWhile_le)
      have split: "length ?w + length ?r = length ?t" by (simp flip: length_append)
      have sub: "set ?w \<subseteq> set str" "set ?r \<subseteq> set str" by (auto dest!: set_dropWhileD set_takeWhileD)
      have pl: "list_all plain ?w" "list_all plain ?r" using less.prems(1) sub by (auto simp: list_all_iff)
      have len: "length ?w < 512" "length ?r < 512" "length ?r < length str"
        using split lt less.prems(2) wne by (simp_all flip: length_greater_0_conv)
      have m: "c0 ?w = CHR ''-'' \<longrightarrow> CHR ''='' \<notin> set ?w" "\<forall>w \<in> set (words ?r). c0 w = CHR ''-'' \<longrightarrow> CHR ''='' \<notin> set w"
        using less.prems(3) by (simp_all add: ws)
      have "?t = ?w @ ?r" by simp
      note parse_word [OF this wne sp r nc pl(1) len(1) m(1), of cb st]
      moreover have "isupport_parse cb ?r st' = set_all cb (settings ?r) st'" for st'
        by (rule less.hyps [OF len(3) pl(2) len(2) m(2)])
      moreover have "settings str = (if c0 ?w = CHR ''-'' then settings ?r else setting ?w # settings ?r)"
        using nc by (simp add: settings_def ws)
      ultimately show ?thesis by (cases "setting ?w") (simp cong: option.case_cong)
    qed
  qed
qed

theorem isupport_parse_settings_witness:
  "settings ''MODES=3 WHOX CHANTYPES=#& :are supported'' = [(''MODES'', ''3''), (''WHOX'', []), (''CHANTYPES'', ''#&'')] \<and>
   isupport_parse (\<lambda>k v st. Some st) ''MODES=3 WHOX CHANTYPES=#& :are supported'' is_start = Some is_start"
proof -
  let ?s = "''MODES=3 WHOX CHANTYPES=#& :are supported''"
  have w: "words ?s = [''MODES=3'', ''WHOX'', ''CHANTYPES=#&'', '':are'', ''supported'']" by code_simp
  have s: "settings ?s = [(''MODES'', ''3''), (''WHOX'', []), (''CHANTYPES'', ''#&'')]" by (simp add: settings_def w setting_def)
  have "list_all plain ?s" "length ?s < 512" by (simp_all add: plain_def)
  from isupport_parse_settings [OF this, of "\<lambda>k v st. Some st" is_start] s show ?thesis by (simp add: w)
qed

text \<open>
  An escape in a value puts the scan out of step: the last three characters of the value are read a second time, as a key of
  their own.
\<close>
theorem isupport_parse_escape:
  assumes "list_all wordc k" "list_all wordc a" "list_all wordc b" "k \<noteq> []" "3 \<le> length b" "c \<noteq> NUL"
    "length a + length b < 511"
  shows "isupport_parse cb (k @ ''='' @ a @ hex_of c @ b) st =
    (case cb k (a @ c # b) st of None \<Rightarrow> None | Some st \<Rightarrow> cb (drop (length b - 3) b) [] st)"
proof -
  let ?v = "a @ hex_of c @ b" and ?z = "drop (length b - 3) b"
  let ?t = "k @ ''='' @ ?v"
  have sp: "CHR '' '' \<notin> set ?v" using assms(2,3) hex_of_no_space [of c] by (auto simp: list_all_iff wordc_def)
  have k: "takeWhile (\<lambda>c. c \<noteq> CHR ''='' \<and> c \<noteq> CHR '' '') ?t = k"
    using assms(1) by (induction k) (auto simp: wordc_def)
  have h: "dropWhile (\<lambda>c. c = CHR '' '') ?t = ?t" "c0 ?t \<noteq> CHR '':''" "c0 ?t \<noteq> CHR ''-''"
    using assms(1,4) by (cases k; auto simp: wordc_def)+
  have d: "isupport_decode 512 ?v (length ?v) = Some (a @ c # b)"
  proof -
    have p: "list_all plain a" "list_all plain b" using assms(2,3) by (auto simp: list_all_iff wordc_def)
    have "decode_loop 512 ?v (length ?v) 0 [] = decode_loop 512 (hex_of c @ b) (4 + length b) 0 a"
      using decode_plain [OF p(1), of "[]" 512 "hex_of c @ b" "4 + length b"] assms(7) by (simp add: length_hex_of)
    also have "\<dots> = decode_loop 512 b (length b) 0 (a @ [c])" using assms(6,7) by (intro decode_hex) simp_all
    also have "\<dots> = Some (a @ c # b)" using decode_plain [OF p(2), of "a @ [c]" 512 "[]" 0] assms(7) by simp
    finally show ?thesis using assms(7) by (simp add: isupport_decode_def)
  qed
  have z: "list_all wordc ?z" "?z \<noteq> []" "length ?z < 512" using assms(3,5,7) by (auto simp: list_all_iff dest: in_set_dropD)
  have zp: "isupport_parse cb ?z st' = cb ?z [] st'" for st'
  proof -
    have zs: "dropWhile (\<lambda>c. c = CHR '' '') ?z = ?z @ []" using z(1,2) by (cases ?z) (auto simp: wordc_def)
    have zc: "CHR '' '' \<notin> set ?z" "c0 ?z \<noteq> CHR '':''" "list_all plain ?z" "c0 ?z \<noteq> CHR ''-''" "CHR ''='' \<notin> set ?z"
      using z(1,2) by (auto simp: list_all_iff wordc_def hd_conv_nth c0_def split: list.splits)
    have "setting ?z = (?z, [])" using zc(5) by (rule setting_key)
    moreover have "isupport_parse cb [] st'' = Some st''" for st'' by (subst isupport_parse.simps) simp
    ultimately show ?thesis
      using parse_word [OF zs z(2) zc(1) _ zc(2,3) z(3), of cb st'] zc(4) by (simp split: option.splits)
  qed
  have tv: "takeWhile (\<lambda>c. c \<noteq> CHR '' '') ?v = ?v" using sp by (auto simp: takeWhile_eq_all_conv)
  define v where "v = ?v"
  define u where "u = a @ c # b"
  have f: "dropWhile (\<lambda>c. c = CHR '' '') (k @ CHR ''='' # v) = k @ CHR ''='' # v" "c0 (k @ CHR ''='' # v) \<noteq> CHR '':''"
    "c0 (k @ CHR ''='' # v) \<noteq> CHR ''-''" "takeWhile (\<lambda>c. c \<noteq> CHR ''='' \<and> c \<noteq> CHR '' '') (k @ CHR ''='' # v) = k"
    "takeWhile (\<lambda>c. c \<noteq> CHR '' '') v = v" "isupport_decode 512 v (length v) = Some u" "drop (length u) v = ?z"
    unfolding v_def u_def using h k d tv assms(5) by (simp_all add: length_hex_of)
  have "isupport_parse cb (k @ CHR ''='' # v) st = (case cb k u st of None \<Rightarrow> None | Some st \<Rightarrow> cb ?z [] st)"
    using f zp by (subst isupport_parse.simps) (simp add: Let_def del: takeWhile_eq_all_conv cong: option.case_cong)
  then show ?thesis by (simp add: v_def u_def)
qed

theorem isupport_parse_escape_witness:
  "isupport_parse (\<lambda>k v told. Some (told @ [(k, v)])) (''NETWORK=My'' @ [CHR 0x5C] @ ''x20Net'') [] =
     Some [(''NETWORK'', ''My Net''), (''Net'', [])]"
proof -
  have h: "hex_of (CHR '' '') = [CHR 0x5C] @ ''x20''" by code_simp
  have "list_all wordc ''NETWORK''" "list_all wordc ''My''" "list_all wordc ''Net''" by (simp_all add: wordc_def plain_def)
  from isupport_parse_escape [OF this, of "CHR '' ''" "\<lambda>k v told. Some (told @ [(k, v)])" "[]"] h show ?thesis by simp
qed

end
