(* ===== verification/IsupportTab.thy ===== *)
theory IsupportTab
  imports IsupportText
begin

text \<open>
  The table of settings as a finite map: the invariant of table and records, the map they stand for, and what each operation does
  to it.
\<close>

section \<open>The invariant and the map\<close>

definition is_tbl :: "is_state \<Rightarrow> string \<Rightarrow> nat option option" where
  "is_tbl st = (case isupport_ht st of None \<Rightarrow> Map.empty | Some ht \<Rightarrow> ht_map until_nul ht)"

definition is_frame :: "is_state \<Rightarrow> bool" where
  "is_frame st \<longleftrightarrow> (isupport_bh st \<longleftrightarrow> isupport_ht st \<noteq> None) \<and>
     (\<forall>ht. isupport_ht st = Some ht \<longrightarrow> tab_ok until_nul op_htab_hash_str htab_eq_str ht \<and> ht_count ht \<le> is_next st) \<and>
     (\<forall>k v. is_tbl st k = Some v \<longrightarrow>
        cstring k \<and> (\<exists>p r. v = Some p \<and> p < is_next st \<and> is_heap st p = Some r \<and> is_key r = k))"

text \<open>A key and its value and default.\<close>

definition is_abs :: "is_state \<Rightarrow> string \<Rightarrow> (string option \<times> string option) option" where
  "is_abs st k =
     (case is_tbl st k of
        Some (Some p) \<Rightarrow> map_option (\<lambda>r. (is_value r, is_default r)) (is_heap st p)
      | _ \<Rightarrow> None)"

definition is_full :: "is_state \<Rightarrow> bool" where
  "is_full st \<longleftrightarrow> (\<forall>k e. is_abs st k = Some e \<longrightarrow> fst e \<noteq> None \<or> snd e \<noteq> None)"

definition eff :: "string option \<times> string option \<Rightarrow> string option" where
  "eff e = (if fst e \<noteq> None then fst e else snd e)"

definition entry :: "(string \<Rightarrow> (string option \<times> string option) option) \<Rightarrow> string \<Rightarrow> string option \<times> string option" where
  "entry m k = (case m k of None \<Rightarrow> (None, None) | Some e \<Rightarrow> e)"

definition is_val :: "(string \<Rightarrow> (string option \<times> string option) option) \<Rightarrow> string \<Rightarrow> string option" where
  "is_val m k = eff (entry m k)"

lemma frameD:
  assumes "is_frame st"
  shows "isupport_bh st \<longleftrightarrow> isupport_ht st \<noteq> None"
    "\<And>ht. isupport_ht st = Some ht \<Longrightarrow> tab_ok until_nul op_htab_hash_str htab_eq_str ht"
    "\<And>ht. isupport_ht st = Some ht \<Longrightarrow> ht_count ht \<le> is_next st"
    "\<And>k v. is_tbl st k = Some v \<Longrightarrow> cstring k"
    "\<And>k v. is_tbl st k = Some v \<Longrightarrow> \<exists>p r. v = Some p \<and> p < is_next st \<and> is_heap st p = Some r \<and> is_key r = k"
  using assms unfolding is_frame_def by blast+

lemma until_nul_cstring: "cstring k \<Longrightarrow> until_nul k = k"
  by (induction k) (auto simp: until_nul_def)

lemma toupper_NUL: "toupper c = NUL \<longleftrightarrow> c = NUL"
  by (auto simp: toupper_def uc_eq_iff)

lemma cstring_upper: "cstring k \<Longrightarrow> cstring (map toupper k)"
  by (induction k) (auto simp: toupper_NUL)

lemma abs_same:
  assumes "is_heap st' = is_heap st" "isupport_ht st' = isupport_ht st"
  shows "is_tbl st' = is_tbl st" "is_abs st' = is_abs st"
proof -
  show t: "is_tbl st' = is_tbl st" using assms(2) by (simp add: is_tbl_def)
  show "is_abs st' = is_abs st" unfolding is_abs_def t assms(1) ..
qed

lemma frame_same:
  assumes "is_frame st" "is_heap st' = is_heap st" "is_next st' = is_next st" "isupport_bh st' = isupport_bh st"
    "isupport_ht st' = isupport_ht st"
  shows "is_frame st'" "is_tbl st' = is_tbl st" "is_abs st' = is_abs st"
proof -
  show t: "is_tbl st' = is_tbl st" "is_abs st' = is_abs st" using assms(2,5) abs_same by blast+
  show "is_frame st'" using assms(1) unfolding is_frame_def t assms(2-5) .
qed

section \<open>Records\<close>

lemma find_tbl:
  assumes "is_frame st" "cstring key"
  shows "find_record key st = (case is_tbl st (map toupper (take 255 key)) of None \<Rightarrow> None | Some v \<Rightarrow> v)"
proof (cases "isupport_ht st")
  case None
  then show ?thesis by (simp add: find_record_def is_tbl_def)
next
  case (Some ht)
  have "cstring (take 255 key)" using assms(2) by (auto simp: cstring_def dest: in_set_takeD)
  then have "until_nul (map toupper (take 255 key)) = map toupper (take 255 key)" by (intro until_nul_cstring cstring_upper)
  then show ?thesis
    using Some str_keys.get [OF frameD(2) [OF assms(1) Some], of "map toupper (take 255 key)"] by (simp add: find_record_def is_tbl_def)
qed

lemma find_Some_rec:
  assumes "is_frame st" "cstring key" "find_record key st = Some p"
  shows "\<exists>r. is_heap st p = Some r \<and> is_key r = map toupper (take 255 key) \<and> is_tbl st (is_key r) = Some (Some p) \<and>
    is_abs st (is_key r) = Some (is_value r, is_default r)"
proof -
  have t: "is_tbl st (map toupper (take 255 key)) = Some (Some p)" using assms by (simp add: find_tbl split: option.splits)
  from frameD(5) [OF assms(1) t] obtain r where "is_heap st p = Some r" "is_key r = map toupper (take 255 key)" by auto
  then show ?thesis using t by (simp add: is_abs_def)
qed

lemma find_None_abs:
  assumes "is_frame st" "cstring key" "find_record key st = None"
  shows "is_tbl st (map toupper (take 255 key)) = None"
  using assms frameD(5) [OF assms(1), of "map toupper (take 255 key)"] by (fastforce simp: find_tbl split: option.splits)

text \<open>The limits.\<close>

definition is_lims :: "is_state \<Rightarrow> int \<times> int \<times> int \<times> int \<times> string \<times> string" where
  "is_lims st = (isupport_max_modes st, isupport_chanlimit st, isupport_channellen st, isupport_hostlen st,
     isupport_prefix_modes st, isupport_prefix_chars st)"

lemma add_record_ok:
  assumes "is_frame st" "cstring key" "is_next st < 2 ^ 60"
  defines "K \<equiv> map toupper key" and "p \<equiv> is_next st"
  shows "\<exists>st'. add_record key st = Some (st', p) \<and> is_frame st' \<and> is_tbl st' = (is_tbl st)(K \<mapsto> Some p) \<and>
    is_heap st' = (is_heap st)(p \<mapsto> \<lparr>is_key = K, is_value = None, is_default = None\<rparr>) \<and> is_next st' = p + 1 \<and>
    is_told st' = is_told st \<and> is_lims st' = is_lims st"
proof -
  define st0 where "st0 = (if isupport_bh st then st else st\<lparr>isupport_bh := True, isupport_ht := Some (op_htab_create_str 32)\<rparr>)"
  have c: "tab_ok until_nul op_htab_hash_str htab_eq_str (op_htab_create_str 32 :: (string, nat) op_htab)" "ht_map until_nul (op_htab_create_str 32 :: (string, nat) op_htab) = Map.empty"
    unfolding op_htab_create_str_def by (rule str_keys.create [THEN conjunct1] str_keys.create [THEN conjunct2]; simp)+
  have n: "ht_count (op_htab_create_str 32 :: (string, nat) op_htab) = 0" by (simp add: op_htab_create_str_def op_htab_create_def Let_def)
  have "\<exists>ht. isupport_ht st0 = Some ht \<and> tab_ok until_nul op_htab_hash_str htab_eq_str ht \<and> ht_count ht \<le> p \<and> ht_map until_nul ht = is_tbl st"
  proof (cases "isupport_ht st")
    case None
    then show ?thesis using c n frameD(1) [OF assms(1)] by (simp add: st0_def is_tbl_def)
  next
    case (Some ht)
    then show ?thesis using frameD(1-3) [OF assms(1)] by (simp add: st0_def is_tbl_def p_def)
  qed
  then obtain ht where ht: "isupport_ht st0 = Some ht" "tab_ok until_nul op_htab_hash_str htab_eq_str ht" "ht_count ht \<le> p"
    "ht_map until_nul ht = is_tbl st" by blast
  have s0: "is_heap st0 = is_heap st" "is_next st0 = is_next st" "is_told st0 = is_told st" "is_lims st0 = is_lims st" "isupport_bh st0"
    by (simp_all add: st0_def is_lims_def)
  have "ht_count ht < 2 ^ 60" using ht(3) assms(3) by (simp add: p_def)
  moreover have kk: "cstring K" "until_nul K = K" unfolding K_def using assms(2) by (auto intro: until_nul_cstring cstring_upper)
  ultimately obtain ht' rc old where s: "op_htab_set ht K (Some p) = Some (ht', rc, old)" "tab_ok until_nul op_htab_hash_str htab_eq_str ht'"
    "ht_map until_nul ht' = (is_tbl st)(K \<mapsto> Some p)" "rc \<le> 1" "int (ht_count ht') = int (ht_count ht) + rc"
    using str_keys.set [OF ht(2), of K "Some p"] ht(4) by auto
  define st' where "st' = st0\<lparr>is_heap := (is_heap st0)(p \<mapsto> \<lparr>is_key = K, is_value = None, is_default = None\<rparr>), is_next := p + 1,
     isupport_ht := Some ht'\<rparr>"
  have a: "add_record key st = Some (st', p)"
    unfolding add_record_def Let_def st0_def [symmetric] using ht(1) s(1) s0(2) by (simp add: st'_def K_def p_def)
  have t: "is_tbl st' = (is_tbl st)(K \<mapsto> Some p)" using s(3) by (simp add: is_tbl_def st'_def)
  have "is_frame st'"
  proof -
    have "ht_count ht' \<le> p + 1" using s(4,5) ht(3) by linarith
    moreover have "cstring k \<and> (\<exists>q r. v = Some q \<and> q < p + 1 \<and> is_heap st' q = Some r \<and> is_key r = k)"
      if "((is_tbl st)(K \<mapsto> Some p)) k = Some v" for k v
    proof (cases "k = K")
      case True
      then show ?thesis using that kk(1) by (intro conjI exI [of _ p]) (auto simp: st'_def)
    next
      case False
      then have kv: "is_tbl st k = Some v" using that by simp
      obtain q r where "cstring k" "v = Some q" "q < p" "is_heap st q = Some r" "is_key r = k"
        using frameD(4,5) [OF assms(1) kv] unfolding p_def by blast
      then show ?thesis using s0(1) by (intro conjI exI [of _ q] exI [of _ r]) (simp_all add: st'_def)
    qed
    ultimately show ?thesis
      unfolding is_frame_def t using s(2) s0(5) by (auto simp: st'_def)
  qed
  then show ?thesis using a t s0 by (simp add: st'_def is_lims_def)
qed

lemma get_record_ok:
  assumes "is_frame st" "cstring key" "is_next st < 2 ^ 60"
  shows "\<exists>st' p r. get_record key st = Some (st', p) \<and> is_frame st' \<and> is_heap st' p = Some r \<and> is_tbl st' (is_key r) = Some (Some p) \<and>
    is_abs st' = (is_abs st)(is_key r \<mapsto> (is_value r, is_default r)) \<and>
    (length key \<le> 255 \<longrightarrow> map toupper key = is_key r \<and> entry (is_abs st) (is_key r) = (is_value r, is_default r)) \<and>
    (255 < length key \<longrightarrow> 255 \<le> length (is_key r)) \<and>
    is_told st' = is_told st \<and> is_lims st' = is_lims st \<and> is_next st' \<le> is_next st + 1"
proof (cases "find_record key st")
  case (Some p)
  then obtain r where r: "is_heap st p = Some r" "is_key r = map toupper (take 255 key)" "is_tbl st (is_key r) = Some (Some p)"
    "is_abs st (is_key r) = Some (is_value r, is_default r)" using find_Some_rec [OF assms(1,2)] by blast
  show ?thesis
    using Some r assms(1) by (intro exI [of _ st] exI [of _ p] exI [of _ r]) (auto simp: get_record_def entry_def fun_upd_idem)
next
  case None
  let ?K = "map toupper key" and ?p = "is_next st"
  let ?r = "\<lparr>is_key = ?K, is_value = None, is_default = None\<rparr>"
  obtain st' where s: "add_record key st = Some (st', ?p)" "is_frame st'" "is_tbl st' = (is_tbl st)(?K \<mapsto> Some ?p)"
    "is_heap st' = (is_heap st)(?p \<mapsto> ?r)" "is_next st' = ?p + 1" "is_told st' = is_told st" "is_lims st' = is_lims st"
    using add_record_ok [OF assms] by blast
  have "is_abs st' k = ((is_abs st)(?K \<mapsto> (None, None))) k" for k
  proof (cases "k = ?K")
    case True
    then show ?thesis using s(3,4) by (simp add: is_abs_def)
  next
    case False
    have "q \<noteq> ?p" if "is_tbl st k = Some (Some q)" for q using frameD(5) [OF assms(1) that] by auto
    then show ?thesis using False s(3,4) by (auto simp: is_abs_def split: option.splits)
  qed
  moreover have "entry (is_abs st) ?K = (None, None)" if "length key \<le> 255"
    using find_None_abs [OF assms(1,2) None] that by (simp add: entry_def is_abs_def)
  ultimately show ?thesis
    using None s by (intro exI [of _ st'] exI [of _ ?p] exI [of _ ?r]) (auto simp: get_record_def)
qed

lemma put_ok:
  assumes "is_frame st" "is_heap st p = Some r" "is_tbl st (is_key r) = Some (Some p)" "is_key r' = is_key r"
  defines "st' \<equiv> st\<lparr>is_heap := (is_heap st)(p \<mapsto> r')\<rparr>"
  shows "is_frame st'" "is_tbl st' = is_tbl st" "is_abs st' = (is_abs st)(is_key r \<mapsto> (is_value r', is_default r'))"
proof -
  show t: "is_tbl st' = is_tbl st" by (simp add: is_tbl_def st'_def)
  have other: "q \<noteq> p" if "is_tbl st k = Some (Some q)" "k \<noteq> is_key r" for k q
    using frameD(5) [OF assms(1) that(1)] that(2) assms(2) by auto
  have "\<exists>q x. v = Some q \<and> q < is_next st' \<and> is_heap st' q = Some x \<and> is_key x = k" if kv: "is_tbl st k = Some v" for k v
  proof -
    obtain q x where q: "v = Some q" "q < is_next st" "is_heap st q = Some x" "is_key x = k" using frameD(5) [OF assms(1) kv] by blast
    show ?thesis
    proof (cases "q = p")
      case True
      then show ?thesis using q assms(2,4) by (simp add: st'_def)
    next
      case False
      then show ?thesis using q by (simp add: st'_def)
    qed
  qed
  then show "is_frame st'" using assms(1) unfolding is_frame_def t by (auto simp: st'_def)
  show "is_abs st' = (is_abs st)(is_key r \<mapsto> (is_value r', is_default r'))"
  proof
    fix k
    show "is_abs st' k = ((is_abs st)(is_key r \<mapsto> (is_value r', is_default r'))) k"
      using other [of k] assms(3) t by (auto simp: is_abs_def st'_def split: option.splits)
  qed
qed

text \<open>The record at \<open>p\<close> is freed and its key leaves the table.\<close>

lemma drop_ok:
  assumes "is_frame st" "isupport_ht st = Some ht" "is_heap st p = Some r" "is_tbl st (is_key r) = Some (Some p)"
    "tab_ok until_nul op_htab_hash_str htab_eq_str ht'" "ht_map until_nul ht' = (ht_map until_nul ht)(is_key r := None)"
    "ht_count ht' \<le> ht_count ht"
  defines "st' \<equiv> st\<lparr>isupport_ht := Some ht', is_heap := (is_heap st)(p := None)\<rparr>"
  shows "is_frame st'" "is_abs st' = (is_abs st)(is_key r := None)"
proof -
  let ?k = "is_key r"
  have t: "is_tbl st' = (is_tbl st)(?k := None)" using assms(2,6) by (simp add: is_tbl_def st'_def)
  have other: "q \<noteq> p" if "is_tbl st j = Some (Some q)" "j \<noteq> ?k" for j q
    using frameD(5) [OF assms(1) that(1)] that(2) assms(3) by auto
  have "cstring j \<and> (\<exists>q x. v = Some q \<and> q < is_next st' \<and> is_heap st' q = Some x \<and> is_key x = j)"
    if jv: "is_tbl st j = Some v" "j \<noteq> ?k" for j v
  proof -
    obtain q x where q: "v = Some q" "q < is_next st" "is_heap st q = Some x" "is_key x = j" using frameD(5) [OF assms(1) jv(1)] by blast
    then show ?thesis using other jv frameD(4) [OF assms(1) jv(1)] by (simp add: st'_def)
  qed
  then show "is_frame st'"
    unfolding is_frame_def t using assms(2,5,7) frameD(1) [OF assms(1)] frameD(3) [OF assms(1,2)] by (auto simp: st'_def)
  show "is_abs st' = (is_abs st)(?k := None)"
  proof
    fix j
    show "is_abs st' j = ((is_abs st)(?k := None)) j"
      using other [of j] t by (auto simp: is_abs_def st'_def split: option.splits)
  qed
qed

lemma del_record_ok:
  assumes "is_frame st" "is_heap st p = Some r" "is_tbl st (is_key r) = Some (Some p)"
  shows "\<exists>st'. del_record p st = Some st' \<and> is_frame st' \<and> is_abs st' = (is_abs st)(is_key r := None) \<and> is_told st' = is_told st \<and>
    is_lims st' = is_lims st \<and> is_next st' = is_next st"
proof -
  let ?k = "is_key r"
  obtain ht where ht: "isupport_ht st = Some ht" using assms(3) by (auto simp: is_tbl_def split: option.splits)
  have k: "until_nul ?k = ?k" using until_nul_cstring frameD(4) [OF assms(1,3)] by blast
  obtain ht' old where d: "op_htab_del ht ?k = Some (ht', old)" "tab_ok until_nul op_htab_hash_str htab_eq_str ht'"
    "ht_map until_nul ht' = (ht_map until_nul ht)(?k := None)" "ht_count ht' \<le> ht_count ht"
    using str_keys.del [OF frameD(2) [OF assms(1) ht], of ?k] k by (auto split: if_splits)
  then show ?thesis using drop_ok [OF assms(1) ht assms(2,3) d(2-4)] assms(2) ht by (simp add: del_record_def is_lims_def)
qed

section \<open>The limits\<close>

text \<open>The limits agree with the table, that of the key \<open>k\<close> apart.\<close>

definition limits_but :: "string \<Rightarrow> is_state \<Rightarrow> bool" where
  "limits_but k st \<longleftrightarrow>
     (k \<noteq> ''MODES'' \<longrightarrow> isupport_max_modes st = fst (isupport_parseint (is_val (is_abs st) ''MODES'') 1 64 True 3)) \<and>
     (k \<noteq> ''CHANLIMIT'' \<longrightarrow> isupport_chanlimit st = chanlimit_of (is_val (is_abs st) ''CHANLIMIT'')) \<and>
     (k \<noteq> ''CHANNELLEN'' \<longrightarrow> isupport_channellen st = fst (isupport_parseint (is_val (is_abs st) ''CHANNELLEN'') 1 1024 True 200)) \<and>
     (k \<noteq> ''HOSTLEN'' \<longrightarrow> isupport_hostlen st = fst (isupport_parseint (is_val (is_abs st) ''HOSTLEN'') 1 1023 True 63)) \<and>
     (k \<noteq> ''PREFIX'' \<longrightarrow> isupport_prefix_modes st = fst (prefix_of (is_val (is_abs st) ''PREFIX'')) \<and>
        isupport_prefix_chars st = snd (prefix_of (is_val (is_abs st) ''PREFIX'')))"

definition limits_ok :: "is_state \<Rightarrow> bool" where
  "limits_ok st \<longleftrightarrow> limits_but [] st"

lemma limits_change:
  assumes "limits_ok st" "is_lims st' = is_lims st" "\<And>j. j \<noteq> k \<Longrightarrow> is_val (is_abs st') j = is_val (is_abs st) j"
  shows "limits_but k st'"
proof -
  have "isupport_max_modes st' = isupport_max_modes st" "isupport_chanlimit st' = isupport_chanlimit st"
    "isupport_channellen st' = isupport_channellen st" "isupport_hostlen st' = isupport_hostlen st"
    "isupport_prefix_modes st' = isupport_prefix_modes st" "isupport_prefix_chars st' = isupport_prefix_chars st"
    using assms(2) by (simp_all add: is_lims_def)
  then show ?thesis using assms(1,3) by (auto simp: limits_ok_def limits_but_def)
qed

lemma limits_same:
  assumes "limits_ok st" "is_lims st' = is_lims st" "is_val (is_abs st') = is_val (is_abs st)"
  shows "limits_ok st'"
  unfolding limits_ok_def using limits_change [OF assms(1,2), of "[]"] assms(3) by simp

lemma limits_long: "255 \<le> length k \<Longrightarrow> limits_but k st \<Longrightarrow> limits_ok st"
  by (auto simp: limits_ok_def limits_but_def)

lemma get_val:
  assumes "is_frame st" "cstring key" "length key \<le> 255"
  shows "isupport_get key st = Some (is_val (is_abs st) (map toupper key))"
proof (cases "find_record key st")
  case None
  then show ?thesis
    using find_None_abs [OF assms(1,2) None] assms(3)
    by (simp add: isupport_get_def is_val_def entry_def is_abs_def eff_def)
next
  case (Some p)
  then show ?thesis
    using find_Some_rec [OF assms(1,2) Some] assms(3)
    by (auto simp: isupport_get_def is_val_def entry_def isupport_get_from_record_def eff_def)
qed

lemma upper_literals:
  "map toupper ''MODES'' = ''MODES''" "map toupper ''CHANLIMIT'' = ''CHANLIMIT''" "map toupper ''CHANNELLEN'' = ''CHANNELLEN''"
  "map toupper ''HOSTLEN'' = ''HOSTLEN''" "map toupper ''PREFIX'' = ''PREFIX''"
  by code_simp+

lemma apply_ok:
  assumes "is_frame st"
  shows "\<exists>st'. isupport_apply_dynamic_limits k st = Some st' \<and> is_frame st' \<and> is_abs st' = is_abs st \<and> is_told st' = is_told st \<and>
    is_next st' = is_next st \<and> (limits_but k st \<longrightarrow> limits_ok st')"
proof -
  have g: "isupport_get ''MODES'' st = Some (is_val (is_abs st) ''MODES'')" "isupport_get ''CHANLIMIT'' st = Some (is_val (is_abs st) ''CHANLIMIT'')"
    "isupport_get ''CHANNELLEN'' st = Some (is_val (is_abs st) ''CHANNELLEN'')" "isupport_get ''HOSTLEN'' st = Some (is_val (is_abs st) ''HOSTLEN'')"
    "isupport_get ''PREFIX'' st = Some (is_val (is_abs st) ''PREFIX'')"
    using get_val [OF assms, of "''MODES''"] get_val [OF assms, of "''CHANLIMIT''"] get_val [OF assms, of "''CHANNELLEN''"]
      get_val [OF assms, of "''HOSTLEN''"] get_val [OF assms, of "''PREFIX''"] by (simp_all only: upper_literals) (simp_all add: cstring_def)
  define st' where "st' = (if k = ''MODES'' then st\<lparr>isupport_max_modes := fst (isupport_parseint (is_val (is_abs st) ''MODES'') 1 64 True 3)\<rparr>
    else if k = ''CHANLIMIT'' then st\<lparr>isupport_chanlimit := chanlimit_of (is_val (is_abs st) ''CHANLIMIT'')\<rparr>
    else if k = ''CHANNELLEN'' then st\<lparr>isupport_channellen := fst (isupport_parseint (is_val (is_abs st) ''CHANNELLEN'') 1 1024 True 200)\<rparr>
    else if k = ''HOSTLEN'' then st\<lparr>isupport_hostlen := fst (isupport_parseint (is_val (is_abs st) ''HOSTLEN'') 1 1023 True 63)\<rparr>
    else if k = ''PREFIX'' then st\<lparr>isupport_prefix_modes := fst (prefix_of (is_val (is_abs st) ''PREFIX'')),
      isupport_prefix_chars := snd (prefix_of (is_val (is_abs st) ''PREFIX''))\<rparr> else st)"
  have a: "isupport_apply_dynamic_limits k st = Some st'"
    unfolding isupport_apply_dynamic_limits_def g st'_def by simp
  have s: "is_heap st' = is_heap st" "is_next st' = is_next st" "isupport_bh st' = isupport_bh st" "isupport_ht st' = isupport_ht st"
    "is_told st' = is_told st" by (simp_all add: st'_def)
  note f = frame_same [OF assms s(1-4)]
  have "limits_ok st'" if "limits_but k st"
    using that unfolding limits_ok_def limits_but_def f(3) by (auto simp: st'_def)
  then show ?thesis using a f s by blast
qed

section \<open>Changing a setting\<close>

definition is_ok :: "is_state \<Rightarrow> bool" where
  "is_ok st \<longleftrightarrow> is_frame st \<and> is_full st"

text \<open>What setting a key means: the map and what the bindings were told.\<close>

type_synonym is_spec = "(string \<Rightarrow> (string option \<times> string option) option) \<times> (string \<times> string option) list"

definition spec_set :: "is_binds \<Rightarrow> bool \<Rightarrow> string \<Rightarrow> string \<Rightarrow> is_spec \<Rightarrow> is_spec" where
  "spec_set binds dflt k v = (\<lambda>(m, told).
     let e = entry m k; ask = eff e \<noteq> Some v
     in if (if dflt then snd e else fst e) = Some v then (m, told)
        else if \<not> dflt \<and> ask \<and> binds told k (Some v) then (m, told @ [(k, Some v)])
        else (m(k \<mapsto> (if dflt then (fst e, Some v) else (Some v, snd e))), if ask then told @ [(k, Some v)] else told))"

lemma full_upd: "is_full st \<Longrightarrow> is_abs st' = (is_abs st)(k \<mapsto> e) \<Longrightarrow> fst e \<noteq> None \<or> snd e \<noteq> None \<Longrightarrow> is_full st'"
  by (auto simp: is_full_def)

lemma full_del: "is_full st \<Longrightarrow> is_abs st' = (is_abs st)(k := None) \<Longrightarrow> is_full st'"
  by (auto simp: is_full_def split: if_splits)

lemma told_same: "is_frame st \<Longrightarrow> is_frame (st\<lparr>is_told := t\<rparr>)" "is_abs (st\<lparr>is_told := t\<rparr>) = is_abs st" "is_tbl (st\<lparr>is_told := t\<rparr>) = is_tbl st"
  "is_lims (st\<lparr>is_told := t\<rparr>) = is_lims st"
  using frame_same(1) [of st "st\<lparr>is_told := t\<rparr>"] abs_same [of "st\<lparr>is_told := t\<rparr>" st] by (simp_all add: is_lims_def)

lemma set_value_ok:
  assumes "is_ok st" "cstring key" "is_next st < 2 ^ 60"
  shows "\<exists>st'. isupport_set_value binds key v dflt st = Some st' \<and> is_ok st' \<and> is_next st' \<le> is_next st + 1 \<and>
    (limits_ok st \<longrightarrow> limits_ok st') \<and>
    (length key \<le> 255 \<longrightarrow> (is_abs st', is_told st') = spec_set binds dflt (map toupper key) v (is_abs st, is_told st))"
proof -
  have fr: "is_frame st" and full: "is_full st" using assms(1) by (simp_all add: is_ok_def)
  obtain st1 p r where g: "get_record key st = Some (st1, p)" "is_frame st1" "is_heap st1 p = Some r" "is_tbl st1 (is_key r) = Some (Some p)"
    "is_abs st1 = (is_abs st)(is_key r \<mapsto> (is_value r, is_default r))"
    "length key \<le> 255 \<longrightarrow> map toupper key = is_key r \<and> entry (is_abs st) (is_key r) = (is_value r, is_default r)"
    "255 < length key \<longrightarrow> 255 \<le> length (is_key r)" "is_told st1 = is_told st" "is_lims st1 = is_lims st" "is_next st1 \<le> is_next st + 1"
    using get_record_ok [OF fr assms(2,3)] by blast
  let ?k = "is_key r" and ?e = "(is_value r, is_default r)"
  have v1: "length key \<le> 255 \<Longrightarrow> is_val (is_abs st1) = is_val (is_abs st)"
    using g(5,6) by (auto simp: is_val_def entry_def fun_eq_iff)
  have other: "is_val m j = is_val (is_abs st) j" if "m = (is_abs st)(?k := x)" "j \<noteq> ?k" for m x j
    using that by (simp add: is_val_def entry_def)
  have lk: "limits_ok st'" if "limits_ok st" "is_lims st' = is_lims st" "is_abs st' = (is_abs st)(?k := x)"
    "length key \<le> 255 \<Longrightarrow> eff (case x of None \<Rightarrow> (None, None) | Some e \<Rightarrow> e) = eff ?e" for st' x
  proof (cases "length key \<le> 255")
    case True
    have "is_val (is_abs st') j = is_val (is_abs st) j" for j
      using that(3,4) True g(6) other [OF that(3), of j] by (cases "j = ?k") (auto simp: is_val_def entry_def)
    then show ?thesis by (intro limits_same [OF that(1,2)]) auto
  next
    case False
    then show ?thesis using limits_long [OF _ limits_change [OF that(1,2) other [OF that(3)]]] g(7) by simp
  qed
  show ?thesis
  proof (cases "(if dflt then is_default r else is_value r) = Some v")
    case True
    then have "isupport_set_value binds key v dflt st = Some st1"
      using g(1,3) by (cases dflt) (simp_all add: isupport_set_value_def)
    moreover have "is_full st1" using True full_upd [OF full g(5)] by (cases dflt) simp_all
    moreover have "is_abs st1 = is_abs st" if "length key \<le> 255"
      using that g(5,6) True by (auto simp: entry_def fun_eq_iff split: option.splits if_splits)
    ultimately show ?thesis
      using g lk [of st1 "Some ?e"] True by (auto simp: is_ok_def spec_set_def Let_def)
  next
    case False
    define ask where "ask = (isupport_get_from_record r \<noteq> Some v)"
    define ret where "ret = (ask \<and> binds (is_told st1) ?k (Some v))"
    define st2 where "st2 = (if ask then st1\<lparr>is_told := is_told st1 @ [(?k, Some v)]\<rparr> else st1)"
    have e: "eff ?e = isupport_get_from_record r" by (simp add: eff_def isupport_get_from_record_def)
    have s2: "is_frame st2" "is_tbl st2 = is_tbl st1" "is_abs st2 = is_abs st1" "is_lims st2 = is_lims st" "is_heap st2 = is_heap st1"
      "is_next st2 = is_next st1" "is_told st2 = is_told st @ (if ask then [(?k, Some v)] else [])"
      using g(2,8,9) told_same by (auto simp: st2_def)
    have run: "isupport_set_value binds key v dflt st =
       (if \<not> dflt \<and> ret then (if is_default r = None \<and> is_value r = None then del_record p st2 else Some st2)
        else isupport_apply_dynamic_limits ?k
          (st2\<lparr>is_heap := (is_heap st2)(p \<mapsto> (if dflt then r\<lparr>is_default := Some v\<rparr> else r\<lparr>is_value := Some v\<rparr>))\<rparr>))"
      using False g(1,3) by (simp add: isupport_set_value_def Let_def check_tcl_isupport_def ask_def ret_def st2_def split: if_splits)
    show ?thesis
    proof (cases "\<not> dflt \<and> ret")
      case refused: True
      show ?thesis
      proof (cases "is_default r = None \<and> is_value r = None")
        case True
        obtain st3 where d: "del_record p st2 = Some st3" "is_frame st3" "is_abs st3 = (is_abs st2)(?k := None)" "is_told st3 = is_told st2"
          "is_lims st3 = is_lims st2" "is_next st3 = is_next st2"
          using del_record_ok [OF s2(1), of p r] s2(2,5) g(3,4) by auto
        have a3: "is_abs st3 = (is_abs st)(?k := None)" using d(3) s2(3) g(5) by simp
        have "is_abs st3 = is_abs st" if "length key \<le> 255"
        proof -
          have "entry (is_abs st) ?k = (None, None)" using that g(6) True by simp
          then have "is_abs st ?k = None" using full by (auto simp: entry_def is_full_def split: option.splits)
          then show ?thesis using a3 by auto
        qed
        then show ?thesis
          using refused True run d s2 g full_del [OF full a3] lk [of st3 None] a3 e False
          by (auto simp: is_ok_def spec_set_def Let_def ret_def eff_def)
      next
        case kept: False
        have "is_full st2" using kept full_upd [OF full] s2(3) g(5) by auto
        moreover have "is_abs st2 = is_abs st" if "length key \<le> 255"
          using that g(5,6) kept s2(3) by (auto simp: entry_def fun_eq_iff split: option.splits)
        ultimately show ?thesis
          using refused kept run s2 g lk [of st2 "Some ?e"] e False
          by (auto simp: is_ok_def spec_set_def Let_def ret_def ask_def)
      qed
    next
      case took: False
      define r' where "r' = (if dflt then r\<lparr>is_default := Some v\<rparr> else r\<lparr>is_value := Some v\<rparr>)"
      define st3 where "st3 = st2\<lparr>is_heap := (is_heap st2)(p \<mapsto> r')\<rparr>"
      have k': "is_key r' = ?k" by (simp add: r'_def)
      have h: "is_heap st2 p = Some r" "is_tbl st2 ?k = Some (Some p)" using s2(2,5) g(3,4) by simp_all
      note p3 = put_ok [OF s2(1) h k', folded st3_def]
      have a3: "is_abs st3 = (is_abs st)(?k \<mapsto> (is_value r', is_default r'))" using p3(3) s2(3) g(5) by simp
      have l3: "is_lims st3 = is_lims st" "is_told st3 = is_told st2" "is_next st3 = is_next st1"
        using s2(4,6) by (simp_all add: st3_def is_lims_def)
      obtain st4 where ap: "isupport_apply_dynamic_limits ?k st3 = Some st4" "is_frame st4" "is_abs st4 = is_abs st3" "is_told st4 = is_told st3"
        "is_next st4 = is_next st3" "limits_but ?k st3 \<longrightarrow> limits_ok st4" using apply_ok [OF p3(1)] by blast
      have "limits_ok st4" if "limits_ok st" using ap(6) limits_change [OF that l3(1) other [OF a3]] by blast
      moreover have "is_full st4" using full_upd [OF full, of st4] ap(3) a3 by (auto simp: r'_def)
      moreover have "isupport_set_value binds key v dflt st = Some st4" using run took ap(1) unfolding st3_def r'_def by simp
      moreover have "(is_abs st4, is_told st4) = spec_set binds dflt (map toupper key) v (is_abs st, is_told st)" if "length key \<le> 255"
        using that g(6,8) ap(3,4) a3 l3(2) s2(7) e False took
        by (auto simp: spec_set_def Let_def r'_def ask_def ret_def)
      ultimately show ?thesis using ap(2,5) l3(3) g(10) by (auto simp: is_ok_def)
    qed
  qed
qed

definition spec_unset :: "is_binds \<Rightarrow> string \<Rightarrow> is_spec \<Rightarrow> is_spec" where
  "spec_unset binds k = (\<lambda>(m, told).
     let e = entry m k
     in if fst e = None then (m, told)
        else if binds told k None then (m, told @ [(k, None)])
        else (m(k := (if snd e = None then None else Some (None, snd e))), told @ [(k, None)]))"

lemma unset_ok:
  assumes "is_ok st" "cstring key"
  shows "\<exists>st'. isupport_unset binds key st = Some st' \<and> is_ok st' \<and> is_next st' = is_next st \<and> (limits_ok st \<longrightarrow> limits_ok st') \<and>
    (is_abs st', is_told st') = spec_unset binds (map toupper (take 255 key)) (is_abs st, is_told st)"
proof (cases "find_record key st")
  case None
  then have "is_abs st (map toupper (take 255 key)) = None"
    using find_None_abs [OF _ assms(2)] assms(1) by (simp add: is_ok_def is_abs_def)
  then show ?thesis using None assms(1) by (simp add: isupport_unset_def spec_unset_def entry_def)
next
  case (Some p)
  have fr: "is_frame st" and full: "is_full st" using assms(1) by (simp_all add: is_ok_def)
  obtain r where r: "is_heap st p = Some r" "is_key r = map toupper (take 255 key)" "is_tbl st (is_key r) = Some (Some p)"
    "is_abs st (is_key r) = Some (is_value r, is_default r)" using find_Some_rec [OF fr assms(2) Some] by blast
  let ?k = "is_key r"
  have e: "entry (is_abs st) ?k = (is_value r, is_default r)" using r(4) by (simp add: entry_def)
  have cp: "op_strlcpy [] ?k 256 = ?k" using r(2) by (intro op_strlcpy_fits) simp
  define st1 where "st1 = st\<lparr>is_told := is_told st @ [(?k, None)]\<rparr>"
  have s1: "is_frame st1" "is_abs st1 = is_abs st" "is_tbl st1 = is_tbl st" "is_lims st1 = is_lims st" "is_heap st1 = is_heap st"
    "is_next st1 = is_next st" "is_told st1 = is_told st @ [(?k, None)]" using told_same fr by (simp_all add: st1_def)
  have other: "is_val m j = is_val (is_abs st) j" if "m = (is_abs st)(?k := x)" "j \<noteq> ?k" for m x j
    using that by (simp add: is_val_def entry_def)
  consider "is_value r = None" | "is_value r \<noteq> None" "binds (is_told st) ?k None"
    | "is_value r \<noteq> None" "\<not> binds (is_told st) ?k None" "is_default r \<noteq> None"
    | "is_value r \<noteq> None" "\<not> binds (is_told st) ?k None" "is_default r = None" by blast
  then show ?thesis
  proof cases
    case 1
    then show ?thesis using Some r assms(1) e by (simp add: isupport_unset_def spec_unset_def flip: r(2))
  next
    case 2
    then have "isupport_unset binds key st = Some st1"
      using Some r by (auto simp: isupport_unset_def check_tcl_isupport_def st1_def)
    moreover have "is_full st1" using full s1(2) by (simp add: is_full_def)
    moreover have "limits_ok st1" if "limits_ok st" using limits_same [OF that s1(4)] s1(2) by simp
    ultimately show ?thesis using 2 s1 e by (auto simp: spec_unset_def is_ok_def Let_def simp flip: r(2))
  next
    case 3
    define st2 where "st2 = st1\<lparr>is_heap := (is_heap st1)(p \<mapsto> r\<lparr>is_value := None\<rparr>)\<rparr>"
    have h: "is_heap st1 p = Some r" "is_tbl st1 ?k = Some (Some p)" using s1 r by simp_all
    note p2 = put_ok [OF s1(1) h, of "r\<lparr>is_value := None\<rparr>", simplified, folded st2_def]
    have a2: "is_abs st2 = (is_abs st)(?k \<mapsto> (None, is_default r))" using p2(3) s1(2) by simp
    have l2: "is_lims st2 = is_lims st" "is_told st2 = is_told st1" "is_next st2 = is_next st"
      using s1 by (simp_all add: st2_def is_lims_def)
    obtain st3 where ap: "isupport_apply_dynamic_limits ?k st2 = Some st3" "is_frame st3" "is_abs st3 = is_abs st2" "is_told st3 = is_told st2"
      "is_next st3 = is_next st2" "limits_but ?k st2 \<longrightarrow> limits_ok st3" using apply_ok [OF p2(1)] by blast
    have "isupport_unset binds key st = Some st3"
      using Some r 3 ap(1) by (auto simp: isupport_unset_def check_tcl_isupport_def st2_def st1_def)
    moreover have "limits_ok st3" if "limits_ok st" using ap(6) limits_change [OF that l2(1) other [OF a2]] by blast
    moreover have "is_full st3" using full_upd [OF full, of st3] ap(3) a2 3(3) by auto
    ultimately show ?thesis using 3 ap a2 l2 s1(7) e by (auto simp: spec_unset_def is_ok_def Let_def simp flip: r(2))
  next
    case 4
    obtain st2 where d: "del_record p st1 = Some st2" "is_frame st2" "is_abs st2 = (is_abs st1)(?k := None)" "is_told st2 = is_told st1"
      "is_lims st2 = is_lims st1" "is_next st2 = is_next st1" using del_record_ok [OF s1(1), of p r] s1 r by auto
    have a2: "is_abs st2 = (is_abs st)(?k := None)" using d(3) s1(2) by simp
    obtain st3 where ap: "isupport_apply_dynamic_limits ?k st2 = Some st3" "is_frame st3" "is_abs st3 = is_abs st2" "is_told st3 = is_told st2"
      "is_next st3 = is_next st2" "limits_but ?k st2 \<longrightarrow> limits_ok st3" using apply_ok [OF d(2)] by blast
    have "isupport_unset binds key st = Some st3"
      using Some r 4 d(1) ap(1) cp by (auto simp: isupport_unset_def check_tcl_isupport_def st1_def)
    moreover have "limits_ok st3" if "limits_ok st" using ap(6) limits_change [OF that _ other [OF a2]] d(5) s1(4) by auto
    moreover have "is_full st3" using full_del [OF full, of st3] ap(3) a2 by auto
    ultimately show ?thesis using 4 ap a2 d s1 e by (auto simp: spec_unset_def is_ok_def Let_def simp flip: r(2))
  qed
qed

end
