(* ===== verification/IsupportClear.thy ===== *)
theory IsupportClear
  imports IsupportTab
begin

text \<open>
  Clearing the values of all keys while walking the table: deletions shift entries back under the iterator, and past the end of the
  array to its start.
\<close>

section \<open>Where a deletion moves entries\<close>

lemma del_loop_moves:
  assumes "cap_ok (length T)" "i < length T" "z < length T" "\<not> occ T z" "occ T i" "htab_del_loop (length T - 1) T i = Some T'" "q < length T"
  shows "length T' = length T \<and>
    (if steps (length T) i q < steps (length T) i z then T' ! q = T ! q \<or> T' ! q = T ! nxt (length T) q \<or> T' ! q = empty_slot
     else T' ! q = T ! q)"
  using assms
proof (induction "steps (length T) i z" arbitrary: T i)
  case 0
  then show ?case using steps_0 by metis
next
  case (Suc n)
  let ?c = "length T" and ?j = "nxt (length T) i"
  note prems = Suc.prems
  have c: "16 \<le> ?c" using cap_ge prems(1) by blast
  then have c0: "0 < ?c" by linarith
  have iz: "i \<noteq> z" using prems(4,5) by blast
  have z: "steps ?c i z = Suc (steps ?c ?j z)" using steps_nxt [OF prems(2,3) iz] .
  note nx = nxt_less [OF c0, of i]
  have ij: "?j \<noteq> i" using nxt_neq [OF prems(2)] c by simp
  have step: "(i + 1) AND (?c - 1) = ?j" unfolding and_cap1 [OF prems(1)] nxt_def ..
  show ?case
  proof (cases "hs_hash (T ! ?j) = 0 \<or> dib (?c - 1) ?j (hs_hash (T ! ?j)) = 0")
    case True
    then have "T' = T[i := empty_slot]"
      using prems(6) by (subst (asm) htab_del_loop.simps) (simp only: Let_def step if_True option.inject)
    moreover have "steps ?c i i = 0" using steps_0 [OF prems(2,2)] by simp
    ultimately show ?thesis using z prems(2) by (cases "q = i") simp_all
  next
    case False
    let ?T = "T[i := T ! ?j]"
    have run: "htab_del_loop (length ?T - 1) ?T ?j = Some T'"
      using prems(6) False by (subst (asm) htab_del_loop.simps) (simp only: Let_def step if_False length_list_update)
    have o: "\<not> occ ?T z" "occ ?T ?j"
      using prems(2,4) iz ij False by (auto simp: occ_update) (simp_all add: occ_def)
    have ih: "length T' = ?c \<and> (if steps ?c ?j q < steps ?c ?j z
        then T' ! q = ?T ! q \<or> T' ! q = ?T ! nxt ?c q \<or> T' ! q = empty_slot else T' ! q = ?T ! q)"
      using Suc.hyps(1) [of ?T ?j] Suc.hyps(2) z run prems(1,3,7) nx o by (simp cong: if_cong)
    show ?thesis
    proof (cases "q = i")
      case True
      have "\<not> steps ?c ?j i < steps ?c ?j z"
        using steps_cases [OF nx prems(2)] steps_cases [OF nx prems(3)] nxt_cases [OF prems(2)] prems(2,3) iz c by (auto split: if_splits)
      then show ?thesis using ih True prems(2) z steps_0 [OF prems(2,2)] by simp
    next
      case qi: False
      have s: "steps ?c i q = Suc (steps ?c ?j q)" using steps_nxt [OF prems(2,7)] qi by simp
      have "nxt ?c q \<noteq> i" if "steps ?c ?j q < steps ?c ?j z"
        using that steps_cases [OF nx prems(7)] steps_cases [OF nx prems(3)] nxt_cases [OF prems(2)] nxt_cases [OF prems(7)]
          prems(2,3,7) iz qi c by (auto split: if_splits)
      then show ?thesis using ih qi s z by (auto split: if_splits)
    qed
  qed
qed

text \<open>What is in front of the slot that was deleted was there before.\<close>

lemma del_at_before:
  assumes "tab_ok until_nul op_htab_hash_str htab_eq_str ht" "i < length (ht_slots ht)" "occ (ht_slots ht) i" "htab_del_at ht i = Some ht'"
    "q < i" "occ (ht_slots ht') q"
  shows "\<exists>q'. q' < i \<and> occ (ht_slots ht) q' \<and> ht_slots ht' ! q = ht_slots ht ! q'"
proof -
  note t = str_keys.tabD [OF assms(1)]
  let ?T = "ht_slots ht" and ?c = "length (ht_slots ht)"
  have c: "16 \<le> ?c" using cap_ge [OF t(3)] by blast
  have "size (live ?T) < ?c" using t(6,7) c by linarith
  then obtain z where z: "z < ?c" "\<not> occ ?T z" using empty_slot_exists by blast
  have d: "htab_del_loop (?c - 1) ?T i = Some (ht_slots ht')" using assms(4) t(4) by (auto simp: htab_del_at_def)
  have q: "q < ?c" using assms(2,5) by simp
  note m = del_loop_moves [OF t(3) assms(2) z assms(3) d q]
  have ne: "ht_slots ht' ! q \<noteq> empty_slot" using assms(6) by (auto simp: occ_def empty_slot_def)
  have n: "nxt ?c q = q + 1" using nxt_cases [OF q] assms(2,5) by simp
  have "\<not> steps ?c i q < steps ?c i z" if "q + 1 = i"
    using that steps_cases [OF assms(2) q] steps_cases [OF assms(2) z(1)] z(1) assms(2) by (auto split: if_splits)
  then consider "ht_slots ht' ! q = ?T ! q" | "ht_slots ht' ! q = ?T ! (q + 1)" "q + 1 < i"
    using m ne n assms(5) by (auto split: if_splits simp: less_Suc_eq) (metis Suc_lessI)+
  then show ?thesis using assms(5,6) by cases (auto simp: occ_def)
qed

section \<open>The walk\<close>

lemma iter_next_Some:
  "iter_next_loop T cap i = Some j \<Longrightarrow> i \<le> j \<and> j < cap \<and> occ T j \<and> (\<forall>q. i \<le> q \<longrightarrow> q < j \<longrightarrow> \<not> occ T q)"
proof (induction T cap i rule: iter_next_loop.induct)
  case (1 T cap i)
  show ?case
  proof (cases "i < cap \<and> hs_hash (T ! i) = 0")
    case True
    then have "iter_next_loop T cap (i + 1) = Some j" using "1.prems" by (subst (asm) iter_next_loop.simps) simp
    then have h: "i + 1 \<le> j \<and> j < cap \<and> occ T j \<and> (\<forall>q. i + 1 \<le> q \<longrightarrow> q < j \<longrightarrow> \<not> occ T q)" using "1.IH" True by simp
    have "\<not> occ T q" if "i \<le> q" "q < j" for q using h that True by (cases "q = i") (auto simp: occ_def)
    then show ?thesis using h by auto
  next
    case False
    then show ?thesis using "1.prems" by (subst (asm) iter_next_loop.simps) (auto simp: occ_def split: if_splits)
  qed
qed

lemma iter_next_None: "iter_next_loop T cap i = None \<Longrightarrow> i \<le> q \<Longrightarrow> q < cap \<Longrightarrow> \<not> occ T q"
proof (induction T cap i rule: iter_next_loop.induct)
  case (1 T cap i)
  have i: "i < cap" using "1.prems"(2,3) by linarith
  have "hs_hash (T ! i) = 0 \<and> iter_next_loop T cap (i + 1) = None"
    using "1.prems"(1) i by (subst (asm) iter_next_loop.simps) (simp split: if_splits)
  then show ?case using "1.IH" [OF i] "1.prems"(2,3) by (cases "q = i") (simp_all add: occ_def)
qed

text \<open>What clearing makes of an entry.\<close>

definition clear1 :: "bool \<Rightarrow> string option \<times> string option \<Rightarrow> (string option \<times> string option) option" where
  "clear1 clr e =
     (if clr then (if snd e = None then Some e else if fst e \<noteq> None then Some (fst e, None) else None)
      else (if fst e = None then Some e else if snd e \<noteq> None then Some (None, snd e) else None))"

lemma clear1_again: "clear1 clr e = Some e' \<Longrightarrow> clear1 clr e' = Some e'"
  by (auto simp: clear1_def split: if_splits)

lemma clear1_full: "clear1 clr e = Some e' \<Longrightarrow> fst e \<noteq> None \<or> snd e \<noteq> None \<Longrightarrow> fst e' \<noteq> None \<or> snd e' \<noteq> None"
  by (auto simp: clear1_def split: if_splits)

lemma clear_record_ok:
  fixes r :: isupport
  assumes "is_heap st p = Some r"
  defines "e \<equiv> (is_value r, is_default r)"
  shows "\<exists>st' del r'. clear_record binds clr p r st = (st', del) \<and> is_key r' = is_key r \<and> is_next st' = is_next st \<and>
    isupport_bh st' = isupport_bh st \<and> isupport_ht st' = isupport_ht st \<and> is_lims st' = is_lims st \<and>
    (if del then clear1 clr e = None \<and> is_heap st' = is_heap st
     else is_heap st' = (is_heap st)(p \<mapsto> r') \<and> (r' = r \<or> clear1 clr e = Some (is_value r', is_default r')) \<and>
       ((\<forall>t k v. \<not> binds t k v) \<longrightarrow> clear1 clr e = Some (is_value r', is_default r')))"
proof -
  have h: "(is_heap st)(p \<mapsto> r) = is_heap st" using assms(1) by auto
  let ?c = "clear_record binds clr p r st"
  consider "\<not> (clr \<and> is_default r \<noteq> None \<or> \<not> clr \<and> is_value r \<noteq> None)" | "clr" "is_default r \<noteq> None" "is_value r \<noteq> None"
    | "\<not> clr" "is_default r \<noteq> None" "is_value r \<noteq> None"
    | "clr \<and> is_default r \<noteq> None \<and> is_value r = None \<or> \<not> clr \<and> is_value r \<noteq> None \<and> is_default r = None"
    by (cases clr; cases "is_default r = None"; cases "is_value r = None"; blast)
  then show ?thesis
  proof cases
    case 1
    then show ?thesis
      using h by (intro exI [of _ "fst ?c"] exI [of _ "snd ?c"] exI [of _ r]) (auto simp: clear_record_def clear1_def e_def)
  next
    case 2
    then show ?thesis
      by (intro exI [of _ "fst ?c"] exI [of _ "snd ?c"] exI [of _ "r\<lparr>is_default := None\<rparr>"])
        (auto simp: clear_record_def clear1_def e_def is_lims_def)
  next
    case 3
    define t where "t = is_told st @ [(is_key r, is_default r)]"
    show ?thesis
    proof (cases "is_value r = is_default r \<or> \<not> binds (is_told st) (is_key r) (is_default r)")
      case True
      then show ?thesis
        using 3 by (intro exI [of _ "fst ?c"] exI [of _ "snd ?c"] exI [of _ "r\<lparr>is_value := None\<rparr>"])
          (auto simp: clear_record_def clear1_def e_def is_lims_def check_tcl_isupport_def)
    next
      case False
      then show ?thesis
        using 3 h by (intro exI [of _ "fst ?c"] exI [of _ "snd ?c"] exI [of _ r])
          (auto simp: clear_record_def clear1_def e_def is_lims_def check_tcl_isupport_def)
    qed
  next
    case 4
    then show ?thesis
      using h by (intro exI [of _ "fst ?c"] exI [of _ "snd ?c"] exI [of _ r])
        (auto simp: clear_record_def clear1_def e_def is_lims_def check_tcl_isupport_def)
  qed
qed

lemma slot_rec:
  assumes "is_frame st" "isupport_ht st = Some ht" "i < length (ht_slots ht)" "occ (ht_slots ht) i"
  shows "\<exists>p r. hs_val (ht_slots ht ! i) = Some p \<and> is_heap st p = Some r \<and> is_tbl st (is_key r) = Some (Some p) \<and>
    slot_key until_nul (ht_slots ht ! i) = is_key r"
proof -
  let ?s = "ht_slots ht ! i"
  have "ht_map until_nul ht (slot_key until_nul ?s) = Some (hs_val ?s)"
    using ht_map_iff [OF str_keys.tabD(8) [OF frameD(2) [OF assms(1,2)]]] live_nth [OF assms(3,4)] by blast
  then have t: "is_tbl st (slot_key until_nul ?s) = Some (hs_val ?s)" using assms(2) by (simp add: is_tbl_def)
  from frameD(5) [OF assms(1) t] show ?thesis using t by auto
qed

text \<open>The slots the walk has passed hold entries that clearing leaves alone.\<close>

definition passed :: "bool \<Rightarrow> (string, nat) op_htab \<Rightarrow> is_state \<Rightarrow> nat \<Rightarrow> bool" where
  "passed clr ht st i \<longleftrightarrow> (\<forall>q < i. occ (ht_slots ht) q \<longrightarrow>
     (\<exists>p r. hs_val (ht_slots ht ! q) = Some p \<and> is_heap st p = Some r \<and>
        clear1 clr (is_value r, is_default r) = Some (is_value r, is_default r)))"

definition never :: "is_binds \<Rightarrow> bool" where
  "never binds \<longleftrightarrow> (\<forall>t k v. \<not> binds t k v)"

lemma clear_step_upd:
  assumes "m' = m(k := Some e')" "m k = Some e" "e' = e \<or> clear1 clr e = Some e'" "x = m' j \<or> x = Option.bind (m' j) (clear1 clr)"
  shows "x = m j \<or> x = Option.bind (m j) (clear1 clr)"
  using assms clear1_again [of clr e e'] by (cases "j = k") auto

lemma clear_loop_ok:
  assumes "is_ok (st\<lparr>isupport_ht := Some ht\<rparr>)" "length (ht_slots ht) - it_idx it + ht_count ht < n" "never binds \<longrightarrow> passed clr ht st (it_idx it)"
  shows "\<exists>st'. clear_loop n binds clr it ht st = Some st' \<and> is_ok st' \<and> is_next st' = is_next st \<and> is_lims st' = is_lims st \<and>
    (\<forall>k. is_abs st' k = is_abs (st\<lparr>isupport_ht := Some ht\<rparr>) k \<or>
       is_abs st' k = Option.bind (is_abs (st\<lparr>isupport_ht := Some ht\<rparr>) k) (clear1 clr)) \<and>
    (never binds \<longrightarrow> (\<forall>k. is_abs st' k = Option.bind (is_abs (st\<lparr>isupport_ht := Some ht\<rparr>) k) (clear1 clr)))"
  using assms
proof (induction n arbitrary: it ht st)
  case 0
  then show ?case by simp
next
  case (Suc n)
  let ?S = "st\<lparr>isupport_ht := Some ht\<rparr>" and ?T = "ht_slots ht"
  have fr: "is_frame ?S" and full: "is_full ?S" using Suc.prems(1) by (simp_all add: is_ok_def)
  have ht: "isupport_ht ?S = Some ht" by simp
  have tab: "tab_ok until_nul op_htab_hash_str htab_eq_str ht" using frameD(2) [OF fr ht] .
  have cap: "Suc (ht_mask ht) = length ?T" using str_keys.tabD(3,4) [OF tab] cap_ge by fastforce
  show ?case
  proof (cases "iter_next_loop ?T (length ?T) (it_idx it)")
    case None
    then have "clear_loop (Suc n) binds clr it ht st = Some ?S" by (simp add: op_htab_iter_next_def cap)
    moreover have "is_abs ?S k = Option.bind (is_abs ?S k) (clear1 clr)" if "never binds" for k
    proof (cases "is_abs ?S k")
      case (Some e)
      then obtain p r where k: "is_tbl ?S k = Some (Some p)" "is_heap st p = Some r" "e = (is_value r, is_default r)"
        by (auto simp: is_abs_def split: option.splits)
      have "ht_map until_nul ht k = Some (Some p)" using k(1) by (simp add: is_tbl_def)
      then obtain q where q: "q < length ?T" "occ ?T q" "hs_val (?T ! q) = Some p"
        using ht_map_iff [OF str_keys.tabD(8) [OF tab], of k "Some p"] by (auto simp: live_in)
      have "q < it_idx it" using iter_next_None [OF None, of q] q(1,2) by (meson not_le)
      then have "clear1 clr e = Some e" using Suc.prems(3) that q k by (auto simp: passed_def)
      then show ?thesis using Some by simp
    qed simp
    ultimately show ?thesis using Suc.prems(1) by (auto simp: is_lims_def)
  next
    case (Some i)
    note i = iter_next_Some [OF Some]
    let ?it = "\<lparr>it_idx = i + 1, it_cur = Some i\<rparr>"
    have nx: "op_htab_iter_next ht it = (?it, Some (?T ! i))" using Some by (simp add: op_htab_iter_next_def cap)
    obtain p r where r: "hs_val (?T ! i) = Some p" "is_heap st p = Some r" "is_tbl ?S (is_key r) = Some (Some p)"
      "slot_key until_nul (?T ! i) = is_key r" using slot_rec [OF fr ht, of i] i by auto
    let ?e = "(is_value r, is_default r)" and ?k = "is_key r"
    have ek: "is_abs ?S ?k = Some ?e" using r(2,3) by (simp add: is_abs_def)
    obtain st1 del r' where c: "clear_record binds clr p r st = (st1, del)" "is_key r' = ?k" "is_next st1 = is_next st"
      "isupport_bh st1 = isupport_bh st" "isupport_ht st1 = isupport_ht st" "is_lims st1 = is_lims st"
      "if del then clear1 clr ?e = None \<and> is_heap st1 = is_heap st
       else is_heap st1 = (is_heap st)(p \<mapsto> r') \<and> (r' = r \<or> clear1 clr ?e = Some (is_value r', is_default r')) \<and>
         (never binds \<longrightarrow> clear1 clr ?e = Some (is_value r', is_default r'))"
      using clear_record_ok [OF r(2), of binds clr] unfolding never_def by blast
    show ?thesis
    proof (cases del)
      case False
      let ?S1 = "st1\<lparr>isupport_ht := Some ht\<rparr>" and ?S' = "?S\<lparr>is_heap := (is_heap ?S)(p \<mapsto> r')\<rparr>"
      have h: "is_heap ?S p = Some r" using r(2) by simp
      note p' = put_ok [OF fr h r(3) c(2)]
      have "is_frame ?S1" "is_abs ?S1 = is_abs ?S'"
        using frame_same [OF p'(1), of ?S1] c False by simp_all
      moreover have fe: "fst ?e \<noteq> None \<or> snd ?e \<noteq> None" using full ek unfolding is_full_def by blast
      moreover have "fst (is_value r', is_default r') \<noteq> None \<or> snd (is_value r', is_default r') \<noteq> None"
        using c(7) False fe clear1_full [of clr ?e "(is_value r', is_default r')"] by auto
      moreover have "is_full ?S1" using full_upd [OF full _ calculation(4)] calculation(2) p'(3) by simp
      ultimately have ok1: "is_ok ?S1" and a1: "is_abs ?S1 = (is_abs ?S)(?k \<mapsto> (is_value r', is_default r'))"
        using p'(3) by (simp_all add: is_ok_def)
      have "length ?T - (i + 1) + ht_count ht < n" using Suc.prems(2) i by linarith
      then have "length ?T - it_idx ?it + ht_count ht < n" by simp
      moreover have "never binds \<longrightarrow> passed clr ht st1 (it_idx ?it)"
      proof (intro impI)
        assume nv: "never binds"
        have "\<exists>p r. hs_val (?T ! q) = Some p \<and> is_heap st1 p = Some r \<and> clear1 clr (is_value r, is_default r) = Some (is_value r, is_default r)"
          if q: "q < i + 1" "occ ?T q" for q
        proof (cases "q = i")
          case True
          then show ?thesis using r(1) c(7) False nv clear1_again by auto
        next
          case qi: False
          then have "q < i" using q by simp
          then have "q < it_idx it" using i q(2) by (meson not_le)
          then obtain p1 r1 where "hs_val (?T ! q) = Some p1" "is_heap st p1 = Some r1"
            "clear1 clr (is_value r1, is_default r1) = Some (is_value r1, is_default r1)"
            using Suc.prems(3) nv q(2) by (auto simp: passed_def)
          then show ?thesis using c(7) False nv clear1_again by (cases "p1 = p") auto
        qed
        then show "passed clr ht st1 (it_idx ?it)" by (simp add: passed_def)
      qed
      ultimately obtain st' where st': "clear_loop n binds clr ?it ht st1 = Some st'" "is_ok st'" "is_next st' = is_next st1"
        "is_lims st' = is_lims st1"
        "\<forall>k. is_abs st' k = is_abs ?S1 k \<or> is_abs st' k = Option.bind (is_abs ?S1 k) (clear1 clr)"
        "never binds \<longrightarrow> (\<forall>k. is_abs st' k = Option.bind (is_abs ?S1 k) (clear1 clr))"
        using Suc.IH [OF ok1] by blast
      have run: "clear_loop (Suc n) binds clr it ht st = Some st'" using nx r(1,2) c(1) False st'(1) by simp
      have e': "(is_value r', is_default r') = ?e \<or> clear1 clr ?e = Some (is_value r', is_default r')" using c(7) False by auto
      have "is_abs st' j = is_abs ?S j \<or> is_abs st' j = Option.bind (is_abs ?S j) (clear1 clr)" for j
        using clear_step_upd [OF a1 ek e'] st'(5) by blast
      moreover have "is_abs st' j = Option.bind (is_abs ?S j) (clear1 clr)" if "never binds" for j
        using st'(6) that a1 ek c(7) False clear1_again by (cases "j = ?k") auto
      ultimately show ?thesis using run st'(2-4) c(3,6) by auto
    next
      case True
      obtain ht' where d: "htab_del_at ht i = Some ht'" "tab_ok until_nul op_htab_hash_str htab_eq_str ht'" "ht_count ht' + 1 = ht_count ht"
        "ht_map until_nul ht' = (ht_map until_nul ht)(?k := None)"
        using str_keys.del_at [OF tab, of i] i r(4) by auto
      let ?it' = "\<lparr>it_idx = i, it_cur = None\<rparr>" and ?st2 = "st1\<lparr>is_heap := (is_heap st1)(p := None)\<rparr>"
      let ?S2 = "?st2\<lparr>isupport_ht := Some ht'\<rparr>"
      let ?S' = "?S\<lparr>isupport_ht := Some ht', is_heap := (is_heap ?S)(p := None)\<rparr>"
      have h: "is_heap ?S p = Some r" using r(2) by simp
      have le: "ht_count ht' \<le> ht_count ht" using d(3) by simp
      note p' = drop_ok [OF fr ht h r(3) d(2,4) le]
      have fr2: "is_frame ?S2" and a2: "is_abs ?S2 = (is_abs ?S)(?k := None)"
        using frame_same [OF p'(1), of ?S2] p'(2) c True by simp_all
      have ok2: "is_ok ?S2" using fr2 full_del [OF full a2] by (simp add: is_ok_def)
      have len: "length (ht_slots ht') = length ?T"
      proof -
        have "length T' = length ?T" if "htab_del_loop (ht_mask ht) ?T i = Some T'" for T'
        proof -
          have "size (live ?T) < length ?T" using str_keys.tabD(6,7) [OF tab] cap_ge [OF str_keys.tabD(3) [OF tab]] by linarith
          then obtain z where "z < length ?T" "\<not> occ ?T z" using empty_slot_exists by blast
          then show ?thesis using del_loop_moves [OF str_keys.tabD(3) [OF tab], of i z T' i] that str_keys.tabD(4) [OF tab] i by simp
        qed
        then show ?thesis using d(1) by (auto simp: htab_del_at_def)
      qed
      have idel: "op_htab_iter_del ht ?it = Some (ht', ?it', hs_val (?T ! i))"
        using i d(1) cap by (simp add: op_htab_iter_del_def occ_def)
      have "length (ht_slots ht') - i + ht_count ht' < n" using Suc.prems(2) i d(3) len by linarith
      then have "length (ht_slots ht') - it_idx ?it' + ht_count ht' < n" by simp
      moreover have "never binds \<longrightarrow> passed clr ht' ?st2 (it_idx ?it')"
      proof (intro impI)
        assume nv: "never binds"
        have "\<exists>p r. hs_val (ht_slots ht' ! q) = Some p \<and> is_heap ?st2 p = Some r \<and>
            clear1 clr (is_value r, is_default r) = Some (is_value r, is_default r)" if q: "q < i" "occ (ht_slots ht') q" for q
        proof -
          obtain q' where q': "q' < i" "occ ?T q'" "ht_slots ht' ! q = ?T ! q'" using del_at_before [OF tab _ _ d(1) q] i by blast
          have "q' < it_idx it" using i q'(1,2) by (meson not_le)
          then obtain p1 r1 where o: "hs_val (?T ! q') = Some p1" "is_heap st p1 = Some r1"
            "clear1 clr (is_value r1, is_default r1) = Some (is_value r1, is_default r1)"
            using Suc.prems(3) nv q'(2) by (auto simp: passed_def)
          have "q < length (ht_slots ht')" using q(1) i len by simp
          then obtain r2 where "is_heap ?S2 p1 = Some r2" using slot_rec [OF fr2, of ht' q] q(2) q'(3) o(1) by auto
          then have "p1 \<noteq> p" by auto
          then show ?thesis using o q'(3) c(7) True by auto
        qed
        then show "passed clr ht' ?st2 (it_idx ?it')" by (simp add: passed_def)
      qed
      ultimately obtain st' where st': "clear_loop n binds clr ?it' ht' ?st2 = Some st'" "is_ok st'" "is_next st' = is_next ?st2"
        "is_lims st' = is_lims ?st2"
        "\<forall>k. is_abs st' k = is_abs ?S2 k \<or> is_abs st' k = Option.bind (is_abs ?S2 k) (clear1 clr)"
        "never binds \<longrightarrow> (\<forall>k. is_abs st' k = Option.bind (is_abs ?S2 k) (clear1 clr))"
        using Suc.IH [OF ok2] by blast
      have run: "clear_loop (Suc n) binds clr it ht st = Some st'" using nx r(1,2) c(1) True idel st'(1) by simp
      have e0: "clear1 clr ?e = None" using c(7) True by simp
      have "is_abs st' j = is_abs ?S j \<or> is_abs st' j = Option.bind (is_abs ?S j) (clear1 clr)" for j
        using st'(5) a2 ek e0 by (cases "j = ?k") (auto dest: spec [of _ ?k] spec [of _ j])
      moreover have "is_abs st' j = Option.bind (is_abs ?S j) (clear1 clr)" if "never binds" for j
        using st'(6) that a2 ek e0 by (cases "j = ?k") auto
      ultimately show ?thesis using run st'(2-4) c(3,6) by (auto simp: is_lims_def)
    qed
  qed
qed

end
