(* ===== verification/IsupportClaims.thy ===== *)
theory IsupportClaims
  imports IsupportClear
begin

text \<open>
  Runs of the operations on the settings: what a look-up finds after them, that the limits follow the table, and what the clearing at a
  disconnect leaves behind.
\<close>

section \<open>Runs\<close>

datatype is_call = IsSet string string | IsDefault string string | IsUnset string

fun is_exec :: "is_binds \<Rightarrow> is_call \<Rightarrow> is_state \<Rightarrow> is_state option" where
  "is_exec binds (IsSet key v) st = isupport_set binds key v st"
| "is_exec binds (IsDefault key v) st = isupport_setdefault binds key v st"
| "is_exec binds (IsUnset key) st = isupport_unset binds key st"

fun is_run :: "is_binds \<Rightarrow> is_call list \<Rightarrow> is_state \<Rightarrow> is_state option" where
  "is_run binds [] st = Some st"
| "is_run binds (c # cs) st = do { st \<leftarrow> is_exec binds c st; is_run binds cs st }"

fun call_key :: "is_call \<Rightarrow> string" where
  "call_key (IsSet key v) = key"
| "call_key (IsDefault key v) = key"
| "call_key (IsUnset key) = key"

text \<open>The reference: a map from upper-case keys to a value and a default, and what the bindings were told.\<close>

fun spec_exec :: "is_binds \<Rightarrow> is_call \<Rightarrow> is_spec \<Rightarrow> is_spec" where
  "spec_exec binds (IsSet key v) s = spec_set binds False (map toupper key) v s"
| "spec_exec binds (IsDefault key v) s = spec_set binds True (map toupper key) v s"
| "spec_exec binds (IsUnset key) s = spec_unset binds (map toupper key) s"

definition spec_run :: "is_binds \<Rightarrow> is_call list \<Rightarrow> is_spec" where
  "spec_run binds cs = fold (spec_exec binds) cs (Map.empty, [])"


lemma is_start_ok: "is_ok is_start" "limits_ok is_start" "is_abs is_start = Map.empty"
proof -
  have t: "is_tbl is_start = Map.empty" by (simp add: is_tbl_def is_start_def)
  show a: "is_abs is_start = Map.empty" by (rule ext) (simp add: is_abs_def t)
  show "is_ok is_start" using a by (simp add: is_ok_def is_full_def is_frame_def t) (simp add: is_start_def)
  show "limits_ok is_start"
    unfolding limits_ok_def limits_but_def a
    by (simp add: is_val_def entry_def eff_def isupport_parseint_def chanlimit_of_def prefix_of_def) (simp add: is_start_def)
qed

lemma exec_ok:
  assumes "is_ok st" "cstring (call_key c)" "is_next st < 2 ^ 60"
  shows "\<exists>st'. is_exec binds c st = Some st' \<and> is_ok st' \<and> is_next st' \<le> is_next st + 1 \<and> (limits_ok st \<longrightarrow> limits_ok st') \<and>
    (length (call_key c) \<le> 255 \<longrightarrow> (is_abs st', is_told st') = spec_exec binds c (is_abs st, is_told st))"
proof (cases c)
  case (IsSet key v)
  then show ?thesis using set_value_ok [OF assms(1) _ assms(3), of key binds v False] assms(2) by (simp add: isupport_set_def)
next
  case (IsDefault key v)
  then show ?thesis using set_value_ok [OF assms(1) _ assms(3), of key binds v True] assms(2) by (simp add: isupport_setdefault_def)
next
  case (IsUnset key)
  then obtain st' where "isupport_unset binds key st = Some st'" "is_ok st'" "is_next st' = is_next st" "limits_ok st \<longrightarrow> limits_ok st'"
    "(is_abs st', is_told st') = spec_unset binds (map toupper (take 255 key)) (is_abs st, is_told st)"
    using unset_ok [OF assms(1), of key binds] assms(2) by auto
  then show ?thesis using IsUnset by simp
qed

lemma run_ok:
  assumes "is_ok st" "\<forall>c \<in> set cs. cstring (call_key c)" "is_next st + length cs < 2 ^ 60"
  shows "\<exists>st'. is_run binds cs st = Some st' \<and> is_ok st' \<and> is_next st' \<le> is_next st + length cs \<and> (limits_ok st \<longrightarrow> limits_ok st') \<and>
    ((\<forall>c \<in> set cs. length (call_key c) \<le> 255) \<longrightarrow> (is_abs st', is_told st') = fold (spec_exec binds) cs (is_abs st, is_told st))"
  using assms
proof (induction cs arbitrary: st)
  case Nil
  then show ?case by simp
next
  case (Cons c cs)
  obtain st1 where s1: "is_exec binds c st = Some st1" "is_ok st1" "is_next st1 \<le> is_next st + 1" "limits_ok st \<longrightarrow> limits_ok st1"
    "length (call_key c) \<le> 255 \<longrightarrow> (is_abs st1, is_told st1) = spec_exec binds c (is_abs st, is_told st)"
    using exec_ok [OF Cons.prems(1), of c binds] Cons.prems(2,3) by auto
  have "\<forall>c \<in> set cs. cstring (call_key c)" "is_next st1 + length cs < 2 ^ 60" using Cons.prems(2,3) s1(3) by auto
  from Cons.IH [OF s1(2) this] obtain st' where "is_run binds cs st1 = Some st'" "is_ok st'" "is_next st' \<le> is_next st1 + length cs"
    "limits_ok st1 \<longrightarrow> limits_ok st'"
    "(\<forall>c \<in> set cs. length (call_key c) \<le> 255) \<longrightarrow> (is_abs st', is_told st') = fold (spec_exec binds) cs (is_abs st1, is_told st1)"
    by blast
  then show ?case using s1 by auto
qed

lemma run_start:
  assumes "\<forall>c \<in> set cs. cstring (call_key c)" "length cs < 2 ^ 60"
  shows "\<exists>st. is_run binds cs is_start = Some st \<and> is_ok st \<and> is_next st \<le> length cs \<and> limits_ok st \<and>
    ((\<forall>c \<in> set cs. length (call_key c) \<le> 255) \<longrightarrow> (is_abs st, is_told st) = spec_run binds cs)"
proof -
  have n: "is_next is_start = 0" "is_told is_start = []" by (simp_all add: is_start_def)
  then show ?thesis using run_ok [OF is_start_ok(1) assms(1), of binds] is_start_ok assms(2) by (simp add: spec_run_def)
qed

lemma get_val':
  assumes "is_ok st" "cstring key" "length key \<le> 255"
  shows "isupport_get key st = Some (is_val (is_abs st) (map toupper key))"
  using get_val [OF _ assms(2,3)] assms(1) by (simp add: is_ok_def)



text \<open>
  At every point of such a run, whatever the keys and whatever the bindings refuse, the limits the other modules read are those of the
  settings in force.
\<close>
lemma isupport_limits_follow:
  assumes "\<forall>c \<in> set cs. cstring (call_key c)" "length cs < 2 ^ 60"
  shows "\<exists>st modes chanlimit channellen hostlen prefix. is_run binds cs is_start = Some st \<and>
    isupport_get ''MODES'' st = Some modes \<and> isupport_max_modes st = fst (isupport_parseint modes 1 64 True 3) \<and>
    isupport_get ''CHANLIMIT'' st = Some chanlimit \<and> isupport_chanlimit st = chanlimit_of chanlimit \<and>
    isupport_get ''CHANNELLEN'' st = Some channellen \<and> isupport_channellen st = fst (isupport_parseint channellen 1 1024 True 200) \<and>
    isupport_get ''HOSTLEN'' st = Some hostlen \<and> isupport_hostlen st = fst (isupport_parseint hostlen 1 1023 True 63) \<and>
    isupport_get ''PREFIX'' st = Some prefix \<and> (isupport_prefix_modes st, isupport_prefix_chars st) = prefix_of prefix"
proof -
  obtain st where st: "is_run binds cs is_start = Some st" "is_ok st" "limits_ok st"
    using run_start [OF assms, of binds] by blast
  have g: "isupport_get ''MODES'' st = Some (is_val (is_abs st) ''MODES'')" "isupport_get ''CHANLIMIT'' st = Some (is_val (is_abs st) ''CHANLIMIT'')"
    "isupport_get ''CHANNELLEN'' st = Some (is_val (is_abs st) ''CHANNELLEN'')" "isupport_get ''HOSTLEN'' st = Some (is_val (is_abs st) ''HOSTLEN'')"
    "isupport_get ''PREFIX'' st = Some (is_val (is_abs st) ''PREFIX'')"
    using get_val' [OF st(2), of "''MODES''"] get_val' [OF st(2), of "''CHANLIMIT''"] get_val' [OF st(2), of "''CHANNELLEN''"]
      get_val' [OF st(2), of "''HOSTLEN''"] get_val' [OF st(2), of "''PREFIX''"] by (simp_all only: upper_literals) (simp_all add: cstring_def)
  show ?thesis using st(1,3) g unfolding limits_ok_def limits_but_def by (auto simp: prod_eq_iff)
qed

section \<open>Clearing\<close>

lemma clear_values_ok:
  assumes "is_ok st"
  shows "\<exists>st'. isupport_clear_values binds clr st = Some st' \<and> is_ok st' \<and> is_next st' = is_next st \<and> is_lims st' = is_lims st \<and>
    (\<forall>k. is_abs st' k = is_abs st k \<or> is_abs st' k = Option.bind (is_abs st k) (clear1 clr)) \<and>
    (never binds \<longrightarrow> (\<forall>k. is_abs st' k = Option.bind (is_abs st k) (clear1 clr)))"
proof (cases "isupport_ht st")
  case None
  then have "is_abs st k = None" for k by (simp add: is_abs_def is_tbl_def)
  then show ?thesis using None assms by (simp add: isupport_clear_values_def)
next
  case (Some ht)
  have tab: "tab_ok until_nul op_htab_hash_str htab_eq_str ht" using frameD(2) [OF _ Some] assms by (simp add: is_ok_def)
  have same: "st\<lparr>isupport_ht := Some ht\<rparr> = st" using Some by simp
  have "ht_count ht < length (ht_slots ht)"
    using str_keys.tabD(6,7) [OF tab] cap_ge [OF str_keys.tabD(3) [OF tab]] by linarith
  then have n: "length (ht_slots ht) - it_idx op_htab_iter_init + ht_count ht < 2 * length (ht_slots ht) + 1"
    by (simp add: op_htab_iter_init_def)
  have p: "never binds \<longrightarrow> passed clr ht st (it_idx op_htab_iter_init)" by (simp add: passed_def op_htab_iter_init_def)
  have "isupport_clear_values binds clr st = clear_loop (2 * length (ht_slots ht) + 1) binds clr op_htab_iter_init ht st"
    by (simp only: isupport_clear_values_def Some option.case)
  then show ?thesis using clear_loop_ok [where st = st and ht = ht, OF _ n p] assms unfolding same by simp
qed

text \<open>
  Clearing returns and reads no freed record while it deletes entries of the table it walks.  Where no binding refuses, clearing the values
  leaves of every key its default, and clearing the defaults leaves its value; a key left with neither is gone.
\<close>
lemma isupport_clear_values_result:
  assumes "\<forall>c \<in> set cs. cstring (call_key c)" "length cs < 2 ^ 60" "is_run binds cs is_start = Some st" "\<forall>t k v. \<not> binds t k v"
  shows "\<exists>st'. isupport_clear_values binds clr st = Some st' \<and>
    (\<forall>k. is_abs st' k = (case is_abs st k of None \<Rightarrow> None
       | Some (v, d) \<Rightarrow> if clr then (if v = None then None else Some (v, None)) else (if d = None then None else Some (None, d))))"
proof -
  have "is_ok st" using run_start [OF assms(1,2), of binds] assms(3) by auto
  from clear_values_ok [OF this, of binds clr] obtain st' where st': "isupport_clear_values binds clr st = Some st'"
    "\<forall>k. is_abs st' k = Option.bind (is_abs st k) (clear1 clr)" using assms(4) unfolding never_def by auto
  moreover have "fst e \<noteq> None \<or> snd e \<noteq> None" if "is_abs st k = Some e" for k e
    using that \<open>is_ok st\<close> unfolding is_ok_def is_full_def by blast
  ultimately show ?thesis by (intro exI [of _ st']) (fastforce simp: clear1_def split: option.splits)
qed

lemma set_value_noop:
  assumes "is_ok st" "cstring key" "length key \<le> 255" "entry (is_abs st) (map toupper key) = (v, Some d)"
  shows "isupport_setdefault binds key d st = Some st"
proof -
  have fr: "is_frame st" using assms(1) by (simp add: is_ok_def)
  have "find_record key st \<noteq> None"
  proof
    assume "find_record key st = None"
    then have "is_abs st (map toupper key) = None" using find_None_abs [OF fr assms(2)] assms(3) by (simp add: is_abs_def)
    then show False using assms(4) by (simp add: entry_def)
  qed
  then obtain p r where r: "find_record key st = Some p" "is_heap st p = Some r" "is_key r = map toupper (take 255 key)"
    "is_abs st (is_key r) = Some (is_value r, is_default r)" using find_Some_rec [OF fr assms(2)] by blast
  then have "is_default r = Some d" using assms(3,4) by (simp add: entry_def)
  then show ?thesis using r by (simp add: isupport_setdefault_def isupport_set_value_def get_record_def)
qed

text \<open>
  C36: but clearing does not compute the limits again, and setting the same default at the next connection changes nothing: with a default
  for \<open>MODES\<close> the limit stays that of the server left, while the setting in force is the default.
\<close>
theorem isupport_limits_stale:
  assumes "\<forall>c \<in> set cs. cstring (call_key c)" "length cs < 2 ^ 60" "is_run binds cs is_start = Some st" "\<forall>t k v. \<not> binds t k v"
    "is_abs st ''MODES'' = Some (Some v, Some d)"
  shows "\<exists>st'. isupport_clear_values binds False st = Some st' \<and> isupport_setdefault binds ''MODES'' d st' = Some st' \<and>
    isupport_get ''MODES'' st' = Some (Some d) \<and> isupport_max_modes st' = fst (isupport_parseint (Some v) 1 64 True 3)"
proof -
  have st: "is_ok st" "limits_ok st" using run_start [OF assms(1,2), of binds] assms(3) by auto
  from clear_values_ok [OF st(1), of binds False] obtain st' where st': "isupport_clear_values binds False st = Some st'" "is_ok st'"
    "is_lims st' = is_lims st" "\<forall>k. is_abs st' k = Option.bind (is_abs st k) (clear1 False)"
    using assms(4) unfolding never_def by auto
  have a: "is_abs st' ''MODES'' = Some (None, Some d)" using st'(4) assms(5) by (simp add: clear1_def)
  have "isupport_max_modes st' = fst (isupport_parseint (Some v) 1 64 True 3)"
    using st(2) st'(3) assms(5) by (simp add: limits_ok_def limits_but_def is_lims_def is_val_def entry_def eff_def)
  moreover have "isupport_get ''MODES'' st' = Some (Some d)"
    using get_val' [OF st'(2), of "''MODES''"] a unfolding upper_literals by (simp add: cstring_def is_val_def entry_def eff_def)
  moreover have "isupport_setdefault binds ''MODES'' d st' = Some st'"
    using set_value_noop [OF st'(2), of "''MODES''" None d binds] a unfolding upper_literals by (simp add: cstring_def entry_def)
  ultimately show ?thesis using st'(1) by blast
qed

theorem isupport_limits_stale_witness:
  "\<exists>st st'. is_run (\<lambda>_ _ _. False) [IsDefault ''MODES'' ''3'', IsSet ''MODES'' ''20''] is_start = Some st \<and>
     isupport_clear_values (\<lambda>_ _ _. False) False st = Some st' \<and> isupport_get ''MODES'' st' = Some (Some ''3'') \<and>
     isupport_max_modes st' = 20"
proof -
  let ?b = "\<lambda>_ _ _. False" and ?cs = "[IsDefault ''MODES'' ''3'', IsSet ''MODES'' ''20'']"
  have u: "map toupper ''MODES'' = ''MODES''" by code_simp
  have a: "\<forall>c \<in> set ?cs. cstring (call_key c)" "length ?cs < 2 ^ 60" "\<forall>c \<in> set ?cs. length (call_key c) \<le> 255" by (simp_all add: cstring_def)
  obtain st where st: "is_run ?b ?cs is_start = Some st" "(is_abs st, is_told st) = spec_run ?b ?cs"
    using run_start [OF a(1,2), of ?b] a(3) by blast
  have "spec_run ?b ?cs = ([''MODES'' \<mapsto> (Some ''20'', Some ''3'')], [(''MODES'', Some ''3''), (''MODES'', Some ''20'')])"
    unfolding spec_run_def by (simp del: list.map add: u spec_set_def Let_def entry_def eff_def)
  then have m: "is_abs st ''MODES'' = Some (Some ''20'', Some ''3'')" using st(2) by simp
  have "fst (isupport_parseint (Some ''20'') 1 64 True 3) = 20" by code_simp
  then show ?thesis using isupport_limits_stale [OF a(1,2) st(1) _ m] st(1) by force
qed

end
