(* ===== verification/Spec2Isabelle.thy ===== *)
theory Spec2Isabelle
  imports Rfc1459 FlagsText FlagsSanity StrUtil Utf8 Durations MatchAddr RegexParse BotnetRun ServerQueueMerge ChanModeQueue MaskClaims UserClaims
    IsupportClaims
begin

text \<open>
  Eggdrop is an IRC bot: it keeps channels in order on an IRC network for a list of users, and talks to other bots over a botnet.  This
  library models its core logic in C from \<open>src/\<close> (the bot and its modules) and \<open>libop/\<close> (its support library), and proves what that
  logic guarantees, and where it does not, by theorems on concrete reachable states.

  \<^bold>\<open>How the parts interact.\<close>  Every name on IRC is compared by the case folding of RFC 1459, every mask is matched by wildcard expressions that
  \<open>match.c\<close> translates to regular expressions of libop, and every table is the Robin Hood hash table of libop.  The user list (\<open>userrec.c\<close>) finds users by
  handle through such a table and by host through their masks; the flags of a user (\<open>flags.c\<close>) say what he may do.  The channels module keeps bans,
  exempts and invites (\<open>userchan.c\<close>) in lists with a hash table and a table of address prefixes; what it wants to change on a channel goes into the
  mode queue of the irc module (\<open>mode.c\<close>), whose lines go into the queues of the server module (\<open>server.c\<close>), which a timer empties as fast as the
  server tolerates.  What the server tolerates it announces with numeric 005 (\<open>isupport.c\<close>).  The botnet (\<open>botnet.c\<close>, \<open>botcmd.c\<close>) keeps the tree of
  linked bots and the party line.

  \<^bold>\<open>Conventions\<close> (\<open>Prelude\<close>, \<open>CStr\<close>).  A C string is the list of its bytes before the NUL (\<open>cstring\<close> says that none is NUL), an \<open>int\<close> that may
  wrap is a 32-bit word, other numbers are \<open>int\<close> or \<open>nat\<close> with the conversions of the source written out (\<open>to_int32\<close>).  A pointer to a record is an address in
  an explicit heap or an index into its array, a null pointer is \<open>None\<close>; a function returns \<open>None\<close> where the code would follow a null or freed
  pointer or leave an array, so a theorem that it returns \<open>Some\<close> says that this does not happen.  Allocation does not fail.  Output (logs,
  partyline messages) is left out.  Tcl bindings and functions of the C library or the system are parameters, with what is relied on as named
  hypotheses (\<open>pton_ok\<close> for \<open>inet_pton\<close>).  Walks and loops are recursive functions with a termination proof; the probe loops of the
  hash table, \<open>wipe_bots\<close>, \<open>unvia_loop\<close> and the traversals of the bot list, which need not end on a full table or a damaged list, are partial functions
  and are proved to return on the tables and lists that occur.  The timed check of a mask list has the length of the list as fuel, and \<open>clear_loop\<close> one step
  per slot and entry, which \<open>MaskTimed\<close> and \<open>IsupportClear\<close> prove to be enough.

  \<^bold>\<open>The theories, by component.\<close>

  \<^item> \<open>Rfc1459\<close>: \<open>src/rfc1459.c\<close> and \<open>op_strcasecmp\<close>; the contract \<open>name_compare\<close> of a comparison that orders folded names, with both as instances.
  \<^item> \<open>StrUtil\<close>, \<open>Utf8\<close>, \<open>Durations\<close>, \<open>Base64\<close>: \<open>src/misc.c\<close> and \<open>libop/src/tools.c\<close>, text helpers with their bounds and round trips.
  \<^item> \<open>FlagBits\<close>, \<open>Flags\<close>, \<open>FlagsText\<close>, \<open>FlagsSanity\<close>: \<open>src/flags.c\<close>; printing and parsing flags are inverse, and what the sanity checks exclude (the
    contract \<open>flag_pair\<close> of two exclusive flags, one instance per pair).
  \<^item> \<open>Htab\<close>, \<open>HtabMap\<close>, \<open>HtabLive\<close>: \<open>libop/src/htab.c\<close>; the invariant of Robin Hood hashing, and set, get, delete, iterate and merge as operations on a finite map.
    The contract \<open>htab_keys\<close> (hash and equality agree with a canonical form of the key) has an instance for each kind of key: text, folded text, pointers, and the
    keys in user and mask records, which are pointers to memory that changes.
  \<^item> \<open>Regex\<close>, \<open>RegexNfa\<close>, \<open>RegexBuild\<close>, \<open>RegexSim\<close>, \<open>RegexParse\<close>: \<open>libop/src/regex.c\<close>.  The meaning of a syntax tree is \<open>rmatch\<close>; the automaton built from its postfix form
    accepts what it means (\<open>RegexBuild\<close>), the simulation with its visited arrays finds exactly that (\<open>RegexSim\<close>), and the front end turns every pattern of the grammar
    \<open>denotes\<close> into the postfix form of its tree (\<open>RegexParse\<close>).  The stacks of 512 entries in the code bound the pattern to 512 bytes.
  \<^item> \<open>Match\<close>, \<open>MatchWild\<close>, \<open>MatchAddr\<close>, \<open>InetPton\<close>: \<open>src/match.c\<close> and \<open>op_inet_pton\<close>; wildcards against their declarative meaning, addresses against blocks.
  \<^item> \<open>CidrTbl\<close>, \<open>CidrMap\<close>, \<open>CidrEach\<close>: \<open>libop/src/cidr_tbl.c\<close>; the prefix table as a map from prefixes, with shortest and longest match.
  \<^item> \<open>MaskList\<close>, \<open>MaskExpire\<close> (model), \<open>MaskInv\<close>, \<open>MaskState\<close>, \<open>MaskRun\<close>, \<open>MaskTimed\<close>, \<open>MaskProps\<close>, \<open>MaskClaims\<close>: \<open>channels.mod/userchan.c\<close>.  \<open>mstate\<close> holds the lists of the bot
    and of each channel with their tables; \<open>masks_reach\<close> are the runs of the module's calls.
  \<^item> \<open>UserRec\<close> (model), \<open>UserSort\<close>, \<open>UserHosts\<close>, \<open>UserDict\<close>, \<open>UserState\<close>, \<open>UserRun\<close>, \<open>UserClaims\<close>: \<open>src/userrec.c\<close>.  \<open>ustate\<close> holds the heap of records, the list, the
    handle table and the caches; \<open>users_reach\<close> are runs of the calls that \<open>user_call_ok\<close> admits, which leaves out renaming, adding to a list emptied while the table
    exists and adding a host to an unknown handle: the first two are shown to break the table.
  \<^item> \<open>Botnet\<close> (model), \<open>BotnetInv\<close>, \<open>BotnetLinks\<close>, \<open>BotnetRun\<close>: \<open>src/botnet.c\<close> and the handlers of \<open>botcmd.c\<close>.  \<open>botnet\<close> holds the list of linked bots, its index and the party
    line; the invariant is a forest with an exact index, kept by every step of \<open>botnet_step\<close>.
  \<^item> \<open>ServerPenalty\<close>, \<open>Ratelimit\<close>, \<open>ServerQueue\<close> (model), \<open>ServerQueueInv\<close>, \<open>ServerQueueLive\<close>, \<open>ServerQueueMerge\<close>: \<open>server.mod/server.c\<close> and \<open>op_ratelimit.h\<close>.  The shape of the three
    queues, that they drain under the timer (the contract \<open>draining\<close>, with \<open>deq_msg\<close> as its instance and \<open>ticks_left\<close> as the bound), and what merging sends.
  \<^item> \<open>ChanMode\<close> (model), \<open>ChanModeFlush\<close>, \<open>ChanModeQueue\<close>: \<open>irc.mod/mode.c\<close>.  No change is lost or doubled between request and line, and the line reads back under the MODE
    grammar of a server.
  \<^item> \<open>Isupport\<close> (model), \<open>IsupportText\<close>, \<open>IsupportTab\<close>, \<open>IsupportClear\<close>, \<open>IsupportClaims\<close>: \<open>server.mod/isupport.c\<close>.  The table refines a map from keys to value and default, the limits
    follow it, and clearing walks the table while entries are deleted under it.

  Each group follows one scheme: the model in the order of the source, an invariant with a lemma per operation that keeps it, an inductive run or a run
  function over the operations, and the properties, numbered C1 to C40, with a witness on a concrete input or a reachable state behind each that has hypotheses.

  \<^bold>\<open>Bounds.\<close>  Tables are bounded by \<open>2 ^ 60\<close> entries, so that the doubling of the capacity does not wrap a 64-bit size; the runs carry the number of calls for this reason.
  \<open>SENDLINEMAX\<close>, \<open>HANDLEN\<close>, \<open>UHOSTLEN\<close>, \<open>POSTLEN\<close> and \<open>MODES_PER_LINE_MAX\<close> are those of the source.

  \<^bold>\<open>What is not modelled.\<close>  Sockets, resolver, threads, files and TLS; the Tcl, Python and web interfaces; the texts of commands; reading and writing of user and channel files
  (which fills and frees the mask lists without their tables, so the runs of the masks exclude it); sharing, notes, file transfers and the small modules; the handlers of the irc module for
  messages received.  The function pointer behind \<open>rfc_toupper\<close> is fixed to the table of RFC 1459, which is what the bot starts with.  The messages about the
  number of lost bots that \<open>botunlink\<close> prints are left out, and so is the renaming in the user list by \<open>bot_thisbot\<close>.
\<close>

end
